(* ===== verification/TF_Prelude.thy ===== *)
theory TF_Prelude
  imports Main "HOL-Library.Word"
begin

text \<open>
  Shared vocabulary of the development: machine types, the error values, checked memory
  access, and the list and word lemmas that several components use.

  A C object in memory is a list of cells.  A \<^emph>\<open>region\<close> is a list of optional bytes,
  where \<^term>\<open>None\<close> is a byte that was allocated and never written.  Every access
  through a pointer is checked: it yields \<open>Inl Out_Of_Bounds\<close> outside the region, so that
  the absence of errors is a theorem about the code and not a convention of the model.
\<close>

unbundle bit_operations_syntax

section \<open>Machine types\<close>

type_synonym byte = "8 word"
type_synonym u16 = "16 word"
type_synonym u32 = "32 word"
type_synonym u64 = "64 word"

text \<open>A C string is the list of its bytes before the terminating zero.\<close>

type_synonym cstr = "byte list"

type_synonym region = "byte option list"

definition cstr_ok :: "cstr \<Rightarrow> bool" where
  "cstr_ok s \<longleftrightarrow> (\<forall>c \<in> set s. c \<noteq> 0)"

section \<open>Errors as values\<close>

datatype c_error =
    Assert_Fail        \<comment> \<open>a failed \<open>assert\<close>, or a call of \<open>abort\<close>\<close>
  | Out_Of_Bounds      \<comment> \<open>an access outside the object\<close>
  | Uninitialised      \<comment> \<open>a read of a byte or slot that was never written\<close>
  | Int_Overflow       \<comment> \<open>signed overflow of a C \<open>int\<close>\<close>
  | Out_Of_Memory      \<comment> \<open>the allocator's handler aborts\<close>
  | Use_After_Free     \<comment> \<open>an access to a freed object\<close>
  | Wrong_Argument     \<comment> \<open>a variable argument that is missing or of another type\<close>

definition rbind :: "'e + 'a \<Rightarrow> ('a \<Rightarrow> 'e + 'b) \<Rightarrow> 'e + 'b" where
  "rbind m f = (case m of Inl e \<Rightarrow> Inl e | Inr x \<Rightarrow> f x)"

lemma rbind_Inl [simp]: "rbind (Inl e) f = Inl e"
  by (simp add: rbind_def)

lemma rbind_Inr [simp]: "rbind (Inr x) f = f x"
  by (simp add: rbind_def)

lemma rbind_eq_Inr: "rbind m f = Inr y \<longleftrightarrow> (\<exists>x. m = Inr x \<and> f x = Inr y)"
  by (cases m) auto

lemma rbind_cong [fundef_cong]:
  "m = m' \<Longrightarrow> (\<And>x. m' = Inr x \<Longrightarrow> f x = g x) \<Longrightarrow> rbind m f = rbind m' g"
  by (cases m') auto

text \<open>The range check of an \<open>int\<close> whose value is known to be non-negative.\<close>

definition int_max :: nat where
  "int_max = 2147483647"

definition chk_int :: "nat \<Rightarrow> c_error + nat" where
  "chk_int n = (if n \<le> int_max then Inr n else Inl Int_Overflow)"

lemma chk_int_ok [simp]: "n \<le> int_max \<Longrightarrow> chk_int n = Inr n"
  by (simp add: chk_int_def)

lemma chk_int_Inr: "chk_int n = Inr m \<longleftrightarrow> m = n \<and> n \<le> int_max"
  by (auto simp: chk_int_def)

text \<open>The range check of an \<open>int64_t\<close>.\<close>

definition i64_max :: int where
  "i64_max = 9223372036854775807"

definition chk_i64 :: "int \<Rightarrow> c_error + int" where
  "chk_i64 n = (if - i64_max - 1 \<le> n \<and> n \<le> i64_max then Inr n else Inl Int_Overflow)"

lemma chk_i64_ok [simp]: "0 \<le> n \<Longrightarrow> n \<le> i64_max \<Longrightarrow> chk_i64 n = Inr n"
  by (simp add: chk_i64_def i64_max_def)

lemma chk_i64_over [simp]: "i64_max < n \<Longrightarrow> chk_i64 n = Inl Int_Overflow"
  by (simp add: chk_i64_def)

text \<open>The conversion of a wider integer to \<open>int\<close>.\<close>

definition to_int :: "int \<Rightarrow> int" where
  "to_int x = sint (word_of_int x :: u32)"

text \<open>No error of memory access, and a postcondition of the value when there is one.\<close>

definition safe :: "('a \<Rightarrow> bool) \<Rightarrow> c_error + 'a \<Rightarrow> bool" where
  "safe P r \<longleftrightarrow> (case r of Inl e \<Rightarrow> e \<noteq> Out_Of_Bounds \<and> e \<noteq> Uninitialised | Inr x \<Rightarrow> P x)"

lemma safe_simps [simp]:
  "safe P (Inr x) = P x" "safe P (Inl e) = (e \<noteq> Out_Of_Bounds \<and> e \<noteq> Uninitialised)"
  by (simp_all add: safe_def)

lemma safe_bind: "safe P m \<Longrightarrow> (\<And>x. m = Inr x \<Longrightarrow> P x \<Longrightarrow> safe Q (f x)) \<Longrightarrow> safe Q (rbind m f)"
  by (cases m) auto

lemma safe_mono: "safe P r \<Longrightarrow> (\<And>x. P x \<Longrightarrow> Q x) \<Longrightarrow> safe Q r"
  by (cases r) auto

lemma safe_I: "(\<And>x. r = Inr x \<Longrightarrow> P x) \<Longrightarrow> safe (\<lambda>_. True) r \<Longrightarrow> safe P r"
  by (cases r) auto

section \<open>Checked memory access\<close>

definition rd :: "'a list \<Rightarrow> nat \<Rightarrow> c_error + 'a" where
  "rd xs i = (if i < length xs then Inr (xs ! i) else Inl Out_Of_Bounds)"

definition wr :: "'a list \<Rightarrow> nat \<Rightarrow> 'a \<Rightarrow> c_error + 'a list" where
  "wr xs i v = (if i < length xs then Inr (xs[i := v]) else Inl Out_Of_Bounds)"

text \<open>A read of a cell that must have been written before.\<close>

definition rdi :: "'a option list \<Rightarrow> nat \<Rightarrow> c_error + 'a" where
  "rdi xs i =
     (if i < length xs then (case xs ! i of None \<Rightarrow> Inl Uninitialised | Some v \<Rightarrow> Inr v)
      else Inl Out_Of_Bounds)"

text \<open>
  \<open>memcpy\<close> of a block of cells to an offset of an object, and \<open>memmove\<close> of \<open>n\<close> cells
  inside one object.
\<close>

definition blit :: "'a list \<Rightarrow> nat \<Rightarrow> 'a list \<Rightarrow> c_error + 'a list" where
  "blit dst off src =
     (if off + length src \<le> length dst
      then Inr (take off dst @ src @ drop (off + length src) dst) else Inl Out_Of_Bounds)"

definition slice :: "'a list \<Rightarrow> nat \<Rightarrow> nat \<Rightarrow> c_error + 'a list" where
  "slice src off n =
     (if off + n \<le> length src then Inr (take n (drop off src)) else Inl Out_Of_Bounds)"

definition memmove :: "'a list \<Rightarrow> nat \<Rightarrow> nat \<Rightarrow> nat \<Rightarrow> c_error + 'a list" where
  "memmove xs to from n = rbind (slice xs from n) (blit xs to)"

text \<open>\<open>realloc\<close>: the common prefix is kept, the rest is not initialised.\<close>

definition resize :: "'a option list \<Rightarrow> nat \<Rightarrow> 'a option list" where
  "resize xs n = take n xs @ replicate (n - length xs) None"

lemma rd_ok [simp]: "i < length xs \<Longrightarrow> rd xs i = Inr (xs ! i)"
  by (simp add: rd_def)

lemma wr_ok [simp]: "i < length xs \<Longrightarrow> wr xs i v = Inr (xs[i := v])"
  by (simp add: wr_def)

lemma rdi_ok: "i < length xs \<Longrightarrow> xs ! i = Some v \<Longrightarrow> rdi xs i = Inr v"
  by (simp add: rdi_def)

lemma blit_ok [simp]:
  "off + length src \<le> length dst \<Longrightarrow>
     blit dst off src = Inr (take off dst @ src @ drop (off + length src) dst)"
  by (simp add: blit_def)

lemma slice_ok [simp]: "off + n \<le> length src \<Longrightarrow> slice src off n = Inr (take n (drop off src))"
  by (simp add: slice_def)

lemma length_resize [simp]: "length (resize xs n) = n"
  by (simp add: resize_def)

lemma nth_resize: "i < n \<Longrightarrow> i < length xs \<Longrightarrow> resize xs n ! i = xs ! i"
  by (simp add: resize_def nth_append)

lemma take_resize: "k \<le> n \<Longrightarrow> k \<le> length xs \<Longrightarrow> take k (resize xs n) = take k xs"
  by (simp add: resize_def min_def)

section \<open>Characters\<close>

text \<open>
  Plain \<open>char\<close> is signed on the platforms the library is built for, so a comparison such
  as \<open>*p > '\0' && *p <= ' '\<close> is a signed one: bytes from \<open>0x80\<close> on are not spaces.
\<close>

definition c_space :: "byte \<Rightarrow> bool" where
  "c_space c \<longleftrightarrow> 0 < sint c \<and> sint c \<le> 32"

definition c_digit :: "byte \<Rightarrow> bool" where
  "c_digit c \<longleftrightarrow> 48 \<le> sint c \<and> sint c \<le> 57"

definition c_upper :: "byte \<Rightarrow> bool" where
  "c_upper c \<longleftrightarrow> 65 \<le> sint c \<and> sint c \<le> 90"

definition c_lower :: "byte \<Rightarrow> bool" where
  "c_lower c \<longleftrightarrow> 97 \<le> sint c \<and> sint c \<le> 122"

text \<open>The bytes of an ASCII literal.\<close>

definition ascii :: "string \<Rightarrow> byte list" where
  "ascii s = map (\<lambda>c. of_nat (of_char c)) s"

section \<open>Word lemmas\<close>

lemma bit_byte: "bit (w :: byte) n \<Longrightarrow> n < 8"
  using bit_imp_le_length [of w n] by simp

lemma sint_inject: "sint (a :: byte) = sint b \<longleftrightarrow> a = b"
  by (auto intro: signed_word_eqI)

lemma sint_ascii: "0 \<le> sint (c :: byte) \<Longrightarrow> sint c = uint c"
proof (rule ccontr)
  assume s: "0 \<le> sint c" "sint c \<noteq> uint c"
  have u: "0 \<le> uint c" "uint c < 256" using unsigned_less [of c] by simp_all
  have c: "sint c = signed_take_bit 7 (uint c)" by (simp add: sint_uint)
  then have "128 \<le> uint c"
    using signed_take_bit_int_eq_self [of 7 "uint c"] u s(2) by force
  then have "signed_take_bit 7 (uint c - 256) = uint c - 256"
    using u by (intro signed_take_bit_int_eq_self) simp_all
  moreover have "signed_take_bit 7 (uint c - 256) = signed_take_bit 7 (uint c)"
    by (simp add: signed_take_bit_eq_iff_take_bit_eq take_bit_eq_mod)
  ultimately show False using c s(1) u by simp
qed

lemma sint_u32:
  assumes "unat (w :: u32) < 2 ^ 31"
  shows "sint w = int (unat w)"
proof -
  have u: "uint w = int (unat w)" by (rule uint_nat)
  have "int (unat w) < int (2 ^ 31)" using assms by (simp only: of_nat_less_iff)
  then have "uint w < 2 ^ 31" unfolding u by simp
  moreover have "0 \<le> uint w" by (rule unsigned_greater_eq)
  ultimately have "signed_take_bit 31 (uint w) = uint w" by (intro signed_take_bit_int_eq_self) linarith+
  moreover have "sint w = signed_take_bit 31 (uint w)" by (simp add: sint_uint)
  ultimately show ?thesis using u by (simp only:)
qed

lemma byte_eqI:
  fixes x y :: byte
  assumes "bit x 0 = bit y 0" "bit x 1 = bit y 1" "bit x 2 = bit y 2" "bit x 3 = bit y 3"
    "bit x 4 = bit y 4" "bit x 5 = bit y 5" "bit x 6 = bit y 6" "bit x 7 = bit y 7"
  shows "x = y"
proof (rule bit_word_eqI)
  fix n
  assume "n < LENGTH(8)"
  then have "n < 8" by simp
  then consider "n = 0" | "n = 1" | "n = 2" | "n = 3" | "n = 4" | "n = 5" | "n = 6" | "n = 7"
    by linarith
  then show "bit x n = bit y n" using assms by cases simp_all
qed

lemma unat_u32: "unat (of_nat n :: u32) = n mod 0x100000000"
  by (simp add: unsigned_of_nat take_bit_eq_mod)

lemma unat_byte: "unat (x :: byte) < 256"
  using unsigned_less [of x] by simp

lemma unat_mask: "unat (x AND mask k :: byte) = unat x mod 2 ^ k"
proof -
  have "unat (x AND mask k) = take_bit k (unat x)"
    by (simp only: unsigned_take_bit_eq flip: take_bit_eq_mask)
  then show ?thesis by (simp only: take_bit_eq_mod)
qed

lemma masks_3_15_63: "(3 :: byte) = mask 2" "(15 :: byte) = mask 4" "(0x3f :: byte) = mask 6"
  by (simp_all add: mask_eq_exp_minus_1)

lemma unat_low: "unat (x AND 3 :: byte) = unat x mod 4" "unat (x AND 15 :: byte) = unat x mod 16"
    "unat (x AND 0x3f :: byte) = unat x mod 64"
  unfolding masks_3_15_63 unat_mask by simp_all

lemma unat_shr: "unat (drop_bit k x :: byte) = unat x div 2 ^ k"
proof -
  have "unat (drop_bit k x) = drop_bit k (take_bit LENGTH(8) (unat x))"
    by (rule unsigned_drop_bit_eq)
  also have "take_bit LENGTH(8) (unat x) = unat x"
    using unat_byte [of x] by (simp add: take_bit_nat_eq_self)
  finally show ?thesis by (simp only: drop_bit_eq_div)
qed

lemma unat_shl: "unat x * 2 ^ k < 256 \<Longrightarrow> unat (push_bit k x :: byte) = unat x * 2 ^ k"
proof -
  assume "unat x * 2 ^ k < 256"
  moreover have "unat (push_bit k x) = take_bit LENGTH(8) (push_bit k (unat x))"
    by (rule unsigned_push_bit_eq)
  ultimately show ?thesis by (simp add: push_bit_eq_mult take_bit_nat_eq_self)
qed

lemma unat_join:
  fixes x y :: byte
  assumes "\<And>n. \<not> bit x n \<or> \<not> bit y n" "unat x + unat y < 256"
  shows "unat (x OR y) = unat x + unat y"
  unfolding disjunctive_add [OF assms(1), symmetric] unat_word_ariths(1) using assms(2) by simp

section \<open>List lemmas\<close>

lemma take_Suc_update: "i < length xs \<Longrightarrow> take (Suc i) (xs[i := v]) = take i xs @ [v]"
  by (simp add: take_Suc_conv_app_nth)

lemma length_ge_2: "2 \<le> length xs \<Longrightarrow> \<exists>a b r. xs = a # b # r"
  by (auto simp: Suc_le_length_iff numeral_eq_Suc)

lemma length_ge_3: "3 \<le> length xs \<Longrightarrow> \<exists>a b c r. xs = a # b # c # r"
  by (auto simp: Suc_le_length_iff numeral_eq_Suc)

lemma length_ge_4: "4 \<le> length xs \<Longrightarrow> \<exists>a b c d r. xs = a # b # c # d # r"
  by (auto simp: Suc_le_length_iff numeral_eq_Suc)

lemma list_all_takeWhile: "list_all P (takeWhile P xs)"
  by (induction xs) auto

lemma takeWhile_all: "list_all P xs \<Longrightarrow> takeWhile P (xs @ ys) = xs @ takeWhile P ys"
  by (induction xs) auto

lemma dropWhile_all: "list_all P xs \<Longrightarrow> dropWhile P (xs @ ys) = dropWhile P ys"
  by (induction xs) auto

lemma list_all_update: "list_all P xs \<Longrightarrow> P y \<Longrightarrow> list_all P (xs[i := y])"
  by (auto simp: list_all_iff dest!: set_update_subset_insert [THEN subsetD])

lemma list_eq_takeI: "length xs = n \<Longrightarrow> length ys = n \<Longrightarrow> take n xs = take n ys \<Longrightarrow> xs = ys"
  by simp

end
