(* ===== verification/TF_List.thy ===== *)
theory TF_List
  imports TF_Prelude "HOL-Library.List_Lexorder" "HOL-Library.Multiset"
begin

text \<open>
  The array list of \<^verbatim>\<open>src/tflib/tf_list.c\<close> (with the variable-length numbers of
  \<^verbatim>\<open>tf_util.h\<close> it serialises sizes with).  A list object holds an array of \<open>anum\<close> slots;
  the slots \<open>start .. start + num\<close> hold nodes, a node owns a region that ends in a zero
  byte after its \<open>size\<close> bytes.  A slot that holds no live node is \<^term>\<open>None\<close>.

  \<open>tf_list_wf\<close> is the representation invariant and \<open>tf_list_elems\<close> the abstraction: the
  byte strings the list holds, in order.  Each operation of the C file is one definition
  over checked memory; each has a lemma that under the invariant (and, where the array
  may grow, in the range of \<open>int\<close>) it cannot fail, keeps the invariant, and acts on the
  abstraction as the corresponding list operation.

  Pointer arguments are modelled by the objects they point to, so the non-null parts of the
  assertions have no counterpart; the numeric parts do.
\<close>

section \<open>State\<close>

record tf_node =
  n_ptr :: region
  n_size :: nat

record tf_list =
  l_array :: "tf_node option list"
  l_anum :: nat
  l_start :: nat
  l_num :: nat

definition TF_LIST_UNIT :: nat where
  "TF_LIST_UNIT = 64"

section \<open>Operations\<close>

definition tf_list_new :: tf_list where
  "tf_list_new =
     \<lparr>l_array = replicate TF_LIST_UNIT None, l_anum = TF_LIST_UNIT, l_start = 0, l_num = 0\<rparr>"

definition tf_list_new2 :: "int \<Rightarrow> tf_list" where
  "tf_list_new2 anum =
     (let anum = (if anum < 1 then 1 else nat anum)
      in \<lparr>l_array = replicate anum None, l_anum = anum, l_start = 0, l_num = 0\<rparr>)"

text \<open>
  The growth step of push and insert: \<open>if(index >= anum) { anum += num + 1; realloc }\<close>.
\<close>

definition tf_list_grow :: "tf_list \<Rightarrow> c_error + tf_list" where
  "tf_list_grow l =
     (if l_start l + l_num l \<ge> l_anum l
      then rbind (chk_int (l_anum l + (l_num l + 1)))
             (\<lambda>a. Inr (l\<lparr>l_anum := a, l_array := resize (l_array l) a\<rparr>))
      else Inr l)"

text \<open>
  \<open>tf_alloc(size + 1)\<close>, copy \<open>size\<close> bytes, store the terminating zero; and the variant for
  strings, which copies the string with its zero.
\<close>

definition new_region :: "byte list \<Rightarrow> nat \<Rightarrow> c_error + region" where
  "new_region ptr sz =
     rbind (chk_int (sz + 1)) (\<lambda>n.
     rbind (slice ptr 0 sz) (\<lambda>bs.
     rbind (blit (replicate n None) 0 (map Some bs)) (\<lambda>r.
     wr r sz (Some 0))))"

definition new_region_str :: "cstr \<Rightarrow> c_error + region" where
  "new_region_str str =
     rbind (chk_int (length str + 1)) (\<lambda>n.
     blit (replicate n None) 0 (map Some (str @ [0])))"

definition tf_list_push :: "tf_list \<Rightarrow> byte list \<Rightarrow> int \<Rightarrow> c_error + tf_list" where
  "tf_list_push l ptr sz =
     (if sz < 0 then Inl Assert_Fail
      else let index = l_start l + l_num l in
        rbind (tf_list_grow l) (\<lambda>l1.
        rbind (new_region ptr (nat sz)) (\<lambda>r.
        rbind (wr (l_array l1) index (Some \<lparr>n_ptr = r, n_size = nat sz\<rparr>)) (\<lambda>a.
        Inr (l1\<lparr>l_array := a, l_num := l_num l1 + 1\<rparr>)))))"

definition tf_list_push2 :: "tf_list \<Rightarrow> cstr \<Rightarrow> c_error + tf_list" where
  "tf_list_push2 l str =
     (let index = l_start l + l_num l in
        rbind (tf_list_grow l) (\<lambda>l1.
        rbind (new_region_str str) (\<lambda>r.
        rbind (wr (l_array l1) index (Some \<lparr>n_ptr = r, n_size = length str\<rparr>)) (\<lambda>a.
        Inr (l1\<lparr>l_array := a, l_num := l_num l1 + 1\<rparr>)))))"

text \<open>
  The variadic constructor: the arguments before the trailing \<open>NULL\<close>, pushed in order.
\<close>

fun push_all :: "('l \<Rightarrow> 'e \<Rightarrow> c_error + 'l) \<Rightarrow> 'l \<Rightarrow> 'e list \<Rightarrow> c_error + 'l" where
  "push_all push l [] = Inr l"
| "push_all push l (s # ss) = rbind (push l s) (\<lambda>l1. push_all push l1 ss)"

definition tf_list_new3 :: "cstr list \<Rightarrow> c_error + tf_list" where
  "tf_list_new3 strs = push_all tf_list_push2 tf_list_new strs"

text \<open>Copying allocates one region per node and copies the zero byte with the content.\<close>

fun tf_list_dup_nodes :: "tf_node option list \<Rightarrow> nat \<Rightarrow> nat \<Rightarrow> c_error + tf_node option list" where
  "tf_list_dup_nodes array i 0 = Inr []"
| "tf_list_dup_nodes array i (Suc k) =
     rbind (rdi array i) (\<lambda>n.
     rbind (chk_int (n_size n + 1)) (\<lambda>sz.
     rbind (slice (n_ptr n) 0 sz) (\<lambda>r.
     rbind (tf_list_dup_nodes array (Suc i) k) (\<lambda>rest.
     Inr (Some \<lparr>n_ptr = r, n_size = n_size n\<rparr> # rest)))))"

definition tf_list_dup :: "tf_list \<Rightarrow> c_error + tf_list" where
  "tf_list_dup l =
     (if l_num l < 1 then Inr tf_list_new
      else rbind (tf_list_dup_nodes (l_array l) (l_start l) (l_num l)) (\<lambda>narray.
           Inr \<lparr>l_array = narray, l_anum = l_num l, l_start = 0, l_num = l_num l\<rparr>))"

definition tf_list_num :: "tf_list \<Rightarrow> nat" where
  "tf_list_num l = l_num l"

definition tf_list_val :: "tf_list \<Rightarrow> int \<Rightarrow> c_error + (region \<times> nat) option" where
  "tf_list_val l index =
     (if index < 0 then Inl Assert_Fail
      else if index \<ge> int (l_num l) then Inr None
      else rbind (rdi (l_array l) (nat index + l_start l)) (\<lambda>n.
           Inr (Some (n_ptr n, n_size n))))"

definition tf_list_val2 :: "tf_list \<Rightarrow> int \<Rightarrow> c_error + region option" where
  "tf_list_val2 l index =
     (if index < 0 then Inl Assert_Fail
      else if index \<ge> int (l_num l) then Inr None
      else rbind (rdi (l_array l) (nat index + l_start l)) (\<lambda>n. Inr (Some (n_ptr n))))"

definition tf_list_pop :: "tf_list \<Rightarrow> c_error + tf_list \<times> (region \<times> nat) option" where
  "tf_list_pop l =
     (if l_num l < 1 then Inr (l, None)
      else let index = l_start l + l_num l - 1; l1 = l\<lparr>l_num := l_num l - 1\<rparr> in
        rbind (rdi (l_array l1) index) (\<lambda>n. Inr (l1, Some (n_ptr n, n_size n))))"

definition tf_list_pop2 :: "tf_list \<Rightarrow> c_error + tf_list \<times> region option" where
  "tf_list_pop2 l =
     (if l_num l < 1 then Inr (l, None)
      else let index = l_start l + l_num l - 1; l1 = l\<lparr>l_num := l_num l - 1\<rparr> in
        rbind (rdi (l_array l1) index) (\<lambda>n. Inr (l1, Some (n_ptr n))))"

definition tf_list_insert :: "tf_list \<Rightarrow> int \<Rightarrow> byte list \<Rightarrow> int \<Rightarrow> c_error + tf_list" where
  "tf_list_insert l index ptr sz =
     (if index < 0 \<or> sz < 0 then Inl Assert_Fail
      else if index > int (l_num l) then Inr l
      else let i = nat index + l_start l in
        rbind (tf_list_grow l) (\<lambda>l1.
        rbind (memmove (l_array l1) (i + 1) i (l_start l1 + l_num l1 - i)) (\<lambda>a.
        rbind (new_region ptr (nat sz)) (\<lambda>r.
        rbind (wr a i (Some \<lparr>n_ptr = r, n_size = nat sz\<rparr>)) (\<lambda>a1.
        Inr (l1\<lparr>l_array := a1, l_num := l_num l1 + 1\<rparr>))))))"

definition tf_list_insert2 :: "tf_list \<Rightarrow> int \<Rightarrow> cstr \<Rightarrow> c_error + tf_list" where
  "tf_list_insert2 l index str =
     (if index < 0 then Inl Assert_Fail
      else if index > int (l_num l) then Inr l
      else let i = nat index + l_start l in
        rbind (tf_list_grow l) (\<lambda>l1.
        rbind (memmove (l_array l1) (i + 1) i (l_start l1 + l_num l1 - i)) (\<lambda>a.
        rbind (new_region str (length str)) (\<lambda>r.
        rbind (wr a i (Some \<lparr>n_ptr = r, n_size = length str\<rparr>)) (\<lambda>a1.
        Inr (l1\<lparr>l_array := a1, l_num := l_num l1 + 1\<rparr>))))))"

definition tf_list_remove ::
    "tf_list \<Rightarrow> int \<Rightarrow> c_error + tf_list \<times> (region \<times> nat) option" where
  "tf_list_remove l index =
     (if index < 0 then Inl Assert_Fail
      else if index \<ge> int (l_num l) then Inr (l, None)
      else let i = nat index + l_start l in
        rbind (rdi (l_array l) i) (\<lambda>n.
        let l1 = l\<lparr>l_num := l_num l - 1\<rparr> in
        rbind (memmove (l_array l1) i (i + 1) (l_start l1 + l_num l1 - i)) (\<lambda>a.
        Inr (l1\<lparr>l_array := a\<rparr>, Some (n_ptr n, n_size n)))))"

definition tf_list_remove2 :: "tf_list \<Rightarrow> int \<Rightarrow> c_error + tf_list \<times> region option" where
  "tf_list_remove2 l index =
     (if index < 0 then Inl Assert_Fail
      else if index \<ge> int (l_num l) then Inr (l, None)
      else let i = nat index + l_start l in
        rbind (rdi (l_array l) i) (\<lambda>n.
        let l1 = l\<lparr>l_num := l_num l - 1\<rparr> in
        rbind (memmove (l_array l1) i (i + 1) (l_start l1 + l_num l1 - i)) (\<lambda>a.
        Inr (l1\<lparr>l_array := a\<rparr>, Some (n_ptr n)))))"

text \<open>\<open>if(size > array[index].size) array[index].ptr = tf_realloc(ptr, size + 1)\<close>.\<close>

definition node_reserve :: "tf_node \<Rightarrow> nat \<Rightarrow> c_error + region" where
  "node_reserve n sz =
     (if sz > n_size n then rbind (chk_int (sz + 1)) (\<lambda>k. Inr (resize (n_ptr n) k))
      else Inr (n_ptr n))"

definition tf_list_over :: "tf_list \<Rightarrow> int \<Rightarrow> byte list \<Rightarrow> int \<Rightarrow> c_error + tf_list" where
  "tf_list_over l index ptr sz =
     (if index < 0 \<or> sz < 0 then Inl Assert_Fail
      else if index \<ge> int (l_num l) then Inr l
      else let i = nat index + l_start l in
        rbind (rdi (l_array l) i) (\<lambda>n.
        rbind (node_reserve n (nat sz)) (\<lambda>r.
        rbind (slice ptr 0 (nat sz)) (\<lambda>bs.
        rbind (blit r 0 (map Some bs)) (\<lambda>r1.
        rbind (wr r1 (nat sz) (Some 0)) (\<lambda>r2.
        rbind (wr (l_array l) i (Some \<lparr>n_ptr = r2, n_size = nat sz\<rparr>)) (\<lambda>a.
        Inr (l\<lparr>l_array := a\<rparr>))))))))"

definition tf_list_over2 :: "tf_list \<Rightarrow> int \<Rightarrow> cstr \<Rightarrow> c_error + tf_list" where
  "tf_list_over2 l index str =
     (if index < 0 then Inl Assert_Fail
      else if index \<ge> int (l_num l) then Inr l
      else let i = nat index + l_start l; sz = length str in
        rbind (rdi (l_array l) i) (\<lambda>n.
        rbind (node_reserve n sz) (\<lambda>r.
        rbind (blit r 0 (map Some (str @ [0]))) (\<lambda>r1.
        rbind (wr (l_array l) i (Some \<lparr>n_ptr = r1, n_size = sz\<rparr>)) (\<lambda>a.
        Inr (l\<lparr>l_array := a\<rparr>))))))"

text \<open>
  Clearing frees the region of every live node.  The pointers left in the array are
  indeterminate afterwards, so their slots become \<^term>\<open>None\<close>.
\<close>

definition tf_list_clear :: "tf_list \<Rightarrow> tf_list" where
  "tf_list_clear l =
     l\<lparr>l_array := take (l_start l) (l_array l) @ replicate (l_num l) None
                  @ drop (l_start l + l_num l) (l_array l),
       l_start := 0, l_num := 0\<rparr>"

section \<open>Comparison, sorting and searching\<close>

fun elemcmp_loop :: "region \<Rightarrow> region \<Rightarrow> nat \<Rightarrow> nat \<Rightarrow> int \<Rightarrow> c_error + int" where
  "elemcmp_loop ao bo i 0 d = Inr d"
| "elemcmp_loop ao bo i (Suc k) d =
     rbind (rdi ao i) (\<lambda>x. rbind (rdi bo i) (\<lambda>y.
     if x > y then Inr 1 else if x < y then Inr (- 1) else elemcmp_loop ao bo (Suc i) k d))"

definition tf_list_elemcmp :: "tf_node \<Rightarrow> tf_node \<Rightarrow> c_error + int" where
  "tf_list_elemcmp a b =
     (let sz = (if n_size a < n_size b then n_size a else n_size b)
      in elemcmp_loop (n_ptr a) (n_ptr b) 0 sz (int (n_size a) - int (n_size b)))"

text \<open>
  The C library's \<open>qsort\<close> with a comparator that may fail, as insertion sort: the C
  standard fixes only that the result is a permutation in the comparator's order, and
  equal elements of this list have equal content.
\<close>

fun qsort_insert :: "('a \<Rightarrow> 'a \<Rightarrow> c_error + int) \<Rightarrow> 'a \<Rightarrow> 'a list \<Rightarrow> c_error + 'a list" where
  "qsort_insert cmp x [] = Inr [x]"
| "qsort_insert cmp x (y # ys) =
     rbind (cmp x y) (\<lambda>c. if c \<le> 0 then Inr (x # y # ys)
                         else rbind (qsort_insert cmp x ys) (\<lambda>zs. Inr (y # zs)))"

fun c_qsort :: "('a \<Rightarrow> 'a \<Rightarrow> c_error + int) \<Rightarrow> 'a list \<Rightarrow> c_error + 'a list" where
  "c_qsort cmp [] = Inr []"
| "c_qsort cmp (x # xs) = rbind (c_qsort cmp xs) (qsort_insert cmp x)"

fun read_nodes :: "tf_node option list \<Rightarrow> nat \<Rightarrow> nat \<Rightarrow> c_error + tf_node list" where
  "read_nodes array i 0 = Inr []"
| "read_nodes array i (Suc k) =
     rbind (rdi array i) (\<lambda>n. rbind (read_nodes array (Suc i) k) (\<lambda>ns. Inr (n # ns)))"

definition tf_list_sort :: "tf_list \<Rightarrow> c_error + tf_list" where
  "tf_list_sort l =
     rbind (read_nodes (l_array l) (l_start l) (l_num l)) (\<lambda>ns.
     rbind (c_qsort tf_list_elemcmp ns) (\<lambda>ms.
     rbind (blit (l_array l) (l_start l) (map Some ms)) (\<lambda>a.
     Inr (l\<lparr>l_array := a\<rparr>))))"

text \<open>\<open>memcmp(p, q, n) == 0\<close> over a node's region and the caller's buffer.\<close>

fun memcmp_eq :: "region \<Rightarrow> byte list \<Rightarrow> nat \<Rightarrow> nat \<Rightarrow> c_error + bool" where
  "memcmp_eq r p i 0 = Inr True"
| "memcmp_eq r p i (Suc k) =
     rbind (rdi r i) (\<lambda>x. rbind (rd p i) (\<lambda>y.
     if x = y then memcmp_eq r p (Suc i) k else Inr False))"

fun tf_listl_search_loop ::
    "tf_node option list \<Rightarrow> nat \<Rightarrow> nat \<Rightarrow> nat \<Rightarrow> byte list \<Rightarrow> nat \<Rightarrow> c_error + int" where
  "tf_listl_search_loop array start i 0 ptr sz = Inr (- 1)"
| "tf_listl_search_loop array start i (Suc k) ptr sz =
     rbind (rdi array i) (\<lambda>n.
     rbind (if n_size n = sz then memcmp_eq (n_ptr n) ptr 0 sz else Inr False) (\<lambda>hit.
     if hit then Inr (int i - int start)
     else tf_listl_search_loop array start (Suc i) k ptr sz))"

definition tf_listl_search :: "tf_list \<Rightarrow> byte list \<Rightarrow> int \<Rightarrow> c_error + int" where
  "tf_listl_search l ptr sz =
     (if sz < 0 then Inl Assert_Fail
      else tf_listl_search_loop (l_array l) (l_start l) (l_start l) (l_num l) ptr (nat sz))"

text \<open>The C library's binary search over \<open>lo .. hi\<close>.\<close>

function c_bsearch ::
    "('k \<Rightarrow> 'a \<Rightarrow> c_error + int) \<Rightarrow> 'k \<Rightarrow> 'a option list \<Rightarrow> nat \<Rightarrow> nat \<Rightarrow> nat
      \<Rightarrow> c_error + nat option" where
  "c_bsearch cmp key array base lo hi =
     (if lo < hi
      then let idx = (lo + hi) div 2 in
        rbind (rdi array (base + idx)) (\<lambda>n.
        rbind (cmp key n) (\<lambda>c.
        if c < 0 then c_bsearch cmp key array base lo idx
        else if c > 0 then c_bsearch cmp key array base (idx + 1) hi
        else Inr (Some idx)))
      else Inr None)"
  by pat_completeness auto
termination
  by (relation "measure (\<lambda>(cmp, key, array, base, lo, hi). hi - lo)") auto

declare c_bsearch.simps [simp del]

definition tf_list_bsearch :: "tf_list \<Rightarrow> byte list \<Rightarrow> int \<Rightarrow> c_error + int" where
  "tf_list_bsearch l ptr sz =
     (if sz < 0 then Inl Assert_Fail
      else let key = \<lparr>n_ptr = map Some ptr, n_size = nat sz\<rparr> in
        rbind (c_bsearch tf_list_elemcmp key (l_array l) (l_start l) 0 (l_num l)) (\<lambda>res.
        Inr (case res of Some i \<Rightarrow> int i | None \<Rightarrow> - 1)))"

section \<open>Invariant and abstraction\<close>

definition node_bytes :: "tf_node \<Rightarrow> byte list" where
  "node_bytes n = map the (take (n_size n) (n_ptr n))"

text \<open>A node's region holds its bytes, all written, and the terminating zero after them.\<close>

definition node_ok :: "tf_node \<Rightarrow> bool" where
  "node_ok n \<longleftrightarrow> n_size n < int_max \<and>
     take (Suc (n_size n)) (n_ptr n) = map Some (node_bytes n @ [0])"

definition tf_list_live :: "tf_list \<Rightarrow> tf_node option list" where
  "tf_list_live l = take (l_num l) (drop (l_start l) (l_array l))"

definition tf_list_wf :: "tf_list \<Rightarrow> bool" where
  "tf_list_wf l \<longleftrightarrow>
     length (l_array l) = l_anum l \<and> l_start l + l_num l \<le> l_anum l \<and> 0 < l_anum l \<and>
     l_anum l \<le> int_max \<and>
     (\<forall>s \<in> set (tf_list_live l). case s of None \<Rightarrow> False | Some n \<Rightarrow> node_ok n)"

definition tf_list_elems :: "tf_list \<Rightarrow> byte list list" where
  "tf_list_elems l = map (node_bytes \<circ> the) (tf_list_live l)"

text \<open>
  Room for \<open>k\<close> more elements: the array grows to at most \<open>start + 2 * num + 1\<close> slots, so
  under this bound no growth leaves the range of \<open>int\<close>.
\<close>

definition tf_list_room :: "tf_list \<Rightarrow> nat \<Rightarrow> bool" where
  "tf_list_room l k \<longleftrightarrow> l_start l + 2 * (l_num l + k) \<le> int_max"

section \<open>Node lemmas\<close>

lemma node_ok_length: "node_ok n \<Longrightarrow> n_size n < length (n_ptr n)"
proof -
  assume "node_ok n"
  then have eq: "take (Suc (n_size n)) (n_ptr n) = map Some (node_bytes n @ [0])"
    by (simp add: node_ok_def)
  have "length (node_bytes n) = min (n_size n) (length (n_ptr n))"
    by (simp add: node_bytes_def)
  then show ?thesis using arg_cong [OF eq, of length] by (simp add: min_def split: if_splits)
qed

lemma length_node_bytes: "node_ok n \<Longrightarrow> length (node_bytes n) = n_size n"
  using node_ok_length [of n] by (simp add: node_bytes_def)

lemma node_ok_nth: "node_ok n \<Longrightarrow> i < n_size n \<Longrightarrow> n_ptr n ! i = Some (node_bytes n ! i)"
proof -
  assume ok: "node_ok n" and i: "i < n_size n"
  then have "take (Suc (n_size n)) (n_ptr n) ! i = map Some (node_bytes n @ [0]) ! i"
    by (simp add: node_ok_def)
  then show ?thesis using i length_node_bytes [OF ok] by (simp add: nth_append)
qed

lemma rdi_node: "node_ok n \<Longrightarrow> i < n_size n \<Longrightarrow> rdi (n_ptr n) i = Inr (node_bytes n ! i)"
  using node_ok_length [of n] by (intro rdi_ok) (auto simp: node_ok_nth)

lemma node_okI:
  "length bs < int_max \<Longrightarrow> n_size n = length bs \<Longrightarrow> n_ptr n = map Some (bs @ [0]) @ rest \<Longrightarrow>
     node_ok n \<and> node_bytes n = bs"
  by (simp add: node_ok_def node_bytes_def comp_def)

lemma drop_replicate_Suc: "drop n (replicate (Suc n) x) = [x]"
  by (induction n) simp_all

lemma new_region_ok:
  "sz < int_max \<Longrightarrow> sz \<le> length ptr \<Longrightarrow>
     new_region ptr sz = Inr (map Some (take sz ptr @ [0]))"
  by (simp add: new_region_def list_update_append drop_replicate_Suc
      del: replicate_Suc drop_replicate)

lemma new_region_str_ok:
  "length str < int_max \<Longrightarrow> new_region_str str = Inr (map Some (str @ [0]))"
  by (simp add: new_region_str_def del: map_append)

section \<open>Array lemmas\<close>

text \<open>
  Under the invariant the array is a prefix, the live slots and a rest; the operations are
  computed on that shape.
\<close>

lemma wf_split:
  assumes "tf_list_wf l"
  obtains pre ns post where
    "l_array l = pre @ map Some ns @ post" "length pre = l_start l" "length ns = l_num l"
    "list_all node_ok ns" "tf_list_elems l = map node_bytes ns"
    "l_anum l = length pre + length ns + length post"
proof -
  let ?pre = "take (l_start l) (l_array l)" and ?live = "tf_list_live l"
  let ?post = "drop (l_start l + l_num l) (l_array l)"
  have live: "\<forall>s \<in> set ?live. \<exists>n. s = Some n \<and> node_ok n"
    using assms by (auto simp: tf_list_wf_def split: option.splits)
  have ns: "?live = map Some (map the ?live)"
    using live by (auto intro!: map_idI [symmetric])
  have arr: "l_array l = ?pre @ ?live @ ?post"
    by (simp add: tf_list_live_def add.commute flip: drop_drop)
  show thesis
  proof (rule that)
    show "l_array l = ?pre @ map Some (map the ?live) @ ?post"
      using arr ns by simp
    show "list_all node_ok (map the ?live)"
      using live by (force simp: list_all_iff)
  qed (use assms in \<open>auto simp: tf_list_wf_def tf_list_live_def tf_list_elems_def\<close>)
qed

lemma wf_intro:
  assumes "l_array l = pre @ map Some ns @ post" "length pre = l_start l" "length ns = l_num l"
    and "list_all node_ok ns" "l_anum l = length (l_array l)" "0 < l_anum l" "l_anum l \<le> int_max"
  shows "tf_list_wf l \<and> tf_list_elems l = map node_bytes ns"
proof -
  have "tf_list_live l = map Some ns"
    using assms by (simp add: tf_list_live_def)
  then show ?thesis
    using assms by (auto simp: tf_list_wf_def tf_list_elems_def list_all_iff comp_def)
qed

lemma resize_grow: "length xs \<le> n \<Longrightarrow> resize xs n = xs @ replicate (n - length xs) None"
  by (simp add: resize_def)

lemma memmove_up:
  assumes "xs = p @ m @ x # q"
  shows "\<exists>z. memmove xs (length p + 1) (length p) (length m) = Inr (p @ z # m @ q)"
proof (cases m)
  case Nil
  then show ?thesis using assms by (auto simp: memmove_def slice_def blit_def)
next
  case (Cons z m')
  have "memmove xs (length p + 1) (length p) (length m) = Inr (p @ z # m @ q)"
    using assms Cons by (simp add: memmove_def)
  then show ?thesis by blast
qed

lemma memmove_down:
  assumes "xs = p @ x # m @ q"
  shows "\<exists>z. memmove xs (length p) (length p + 1) (length m) = Inr (p @ m @ z # q)"
proof -
  let ?rest = "drop (length p + length m) xs"
  have "?rest = drop (length m) (x # m @ q)"
    using assms by simp
  also have "\<exists>z. \<dots> = z # q"
    using Cons_nth_drop_Suc [of "length m" "x # m @ q", symmetric] by simp
  finally obtain z where "?rest = z # q" by blast
  moreover have "memmove xs (length p) (length p + 1) (length m) = Inr (p @ m @ ?rest)"
    using assms by (simp add: memmove_def)
  ultimately show ?thesis by auto
qed

lemma rdi_live: "i < length ns \<Longrightarrow> rdi (pre @ map Some ns @ post) (length pre + i) = Inr (ns ! i)"
  by (rule rdi_ok) (auto simp: nth_append)

text \<open>After the growth step there is a free slot behind the live ones.\<close>

lemma grow_ok:
  assumes "tf_list_wf l" "tf_list_room l 1"
  obtains pre ns x post l1 where
    "tf_list_grow l = Inr l1" "l_array l1 = pre @ map Some ns @ x # post"
    "length pre = l_start l" "length ns = l_num l" "list_all node_ok ns"
    "tf_list_elems l = map node_bytes ns" "l_start l1 = l_start l" "l_num l1 = l_num l"
    "l_anum l1 = length (l_array l1)" "l_anum l1 \<le> int_max"
proof -
  obtain pre ns post where s: "l_array l = pre @ map Some ns @ post" "length pre = l_start l"
    "length ns = l_num l" "list_all node_ok ns" "tf_list_elems l = map node_bytes ns"
    "l_anum l = length pre + length ns + length post"
    using assms(1) by (rule wf_split)
  show thesis
  proof (cases "post = []")
    case True
    let ?a = "l_anum l + (l_num l + 1)"
    let ?l1 = "l\<lparr>l_anum := ?a, l_array := resize (l_array l) ?a\<rparr>"
    have "?a \<le> int_max" using assms(2) s True by (simp add: tf_list_room_def)
    moreover have "resize (l_array l) ?a = pre @ map Some ns @ None # replicate (l_num l) None"
      using s True by (simp add: resize_grow)
    moreover have "tf_list_grow l = Inr ?l1"
      using s True \<open>?a \<le> int_max\<close> by (simp add: tf_list_grow_def)
    ultimately show thesis using s True
      by (intro that [of ?l1 pre ns None "replicate (l_num l) None"]) auto
  next
    case False
    then obtain x post' where "post = x # post'" by (cases post) auto
    moreover have "tf_list_grow l = Inr l" using s False by (simp add: tf_list_grow_def)
    moreover have "l_anum l \<le> int_max" using assms(1) by (simp add: tf_list_wf_def)
    ultimately show thesis using s by (intro that [of l pre ns x post']) auto
  qed
qed

section \<open>The operations under the invariant\<close>

text \<open>
  The shared shape of push and insert: after the growth step and the shift, a good node is
  stored between the live nodes before and after position \<open>i\<close>.
\<close>

lemma store_node:
  assumes "length pre = l_start l" "length (p @ q) = l_num l" "list_all node_ok (p @ q)"
    and "node_ok n" "l_anum l = length pre + length p + length q + Suc (length post)"
    and "l_anum l \<le> int_max" "l_array l2 = pre @ map Some p @ Some n # map Some q @ post"
    and "l_start l2 = l_start l" "l_num l2 = l_num l + 1" "l_anum l2 = l_anum l"
  shows "tf_list_wf l2 \<and> tf_list_elems l2 = map node_bytes (p @ n # q)"
  using assms by (intro wf_intro [of _ pre _ post]) auto

lemma wr_middle:
  "i = length p + length m \<Longrightarrow> wr (p @ m @ x # q) i v = Inr (p @ m @ v # q)"
  by (simp add: wr_def list_update_append)

lemma push_node:
  assumes "tf_list_wf l" "tf_list_room l (Suc k)" "reg = Inr (map Some (bs @ [0]))"
    and "length bs < int_max" "sz = length bs"
  shows "\<exists>l'. rbind (tf_list_grow l) (\<lambda>l1. rbind reg (\<lambda>r.
           rbind (wr (l_array l1) (l_start l + l_num l) (Some \<lparr>n_ptr = r, n_size = sz\<rparr>)) (\<lambda>a.
           Inr (l1\<lparr>l_array := a, l_num := l_num l1 + 1\<rparr>)))) = Inr l' \<and>
         tf_list_wf l' \<and> tf_list_room l' k \<and> tf_list_elems l' = tf_list_elems l @ [bs]"
proof -
  have "tf_list_room l 1" using assms(2) by (simp add: tf_list_room_def)
  with assms(1) obtain pre ns x post l1 where g: "tf_list_grow l = Inr l1"
    "l_array l1 = pre @ map Some ns @ x # post" "length pre = l_start l" "length ns = l_num l"
    "list_all node_ok ns" "tf_list_elems l = map node_bytes ns" "l_start l1 = l_start l"
    "l_num l1 = l_num l" "l_anum l1 = length (l_array l1)" "l_anum l1 \<le> int_max"
    by (rule grow_ok)
  let ?n = "\<lparr>n_ptr = map Some (bs @ [0]), n_size = sz\<rparr>"
  let ?l2 = "l1\<lparr>l_array := pre @ map Some ns @ Some ?n # post, l_num := l_num l1 + 1\<rparr>"
  have n: "node_ok ?n \<and> node_bytes ?n = bs"
    using assms(4,5) by (intro node_okI [where rest = "[]"]) auto
  have "tf_list_wf ?l2 \<and> tf_list_elems ?l2 = map node_bytes (ns @ [?n])"
    using g n store_node [of pre l1 ns "[]" ?n post ?l2] by simp
  moreover have "wr (l_array l1) (l_start l + l_num l) (Some ?n)
      = Inr (pre @ map Some ns @ Some ?n # post)"
    using g by (simp add: wr_middle del: wr_ok)
  moreover have "tf_list_room ?l2 k"
    using assms(2) g by (simp add: tf_list_room_def)
  ultimately show ?thesis
    using g n assms(3) by (intro exI [of _ ?l2]) simp
qed

lemma push_ok:
  assumes "tf_list_wf l" "tf_list_room l (Suc k)" "sz < int_max" "sz \<le> length ptr"
  shows "\<exists>l'. tf_list_push l ptr (int sz) = Inr l' \<and> tf_list_wf l' \<and> tf_list_room l' k \<and>
           tf_list_elems l' = tf_list_elems l @ [take sz ptr]"
  using push_node [OF assms(1,2) new_region_ok [OF assms(3,4)], where sz = sz] assms(3,4)
  by (simp add: tf_list_push_def)

lemma push2_ok:
  assumes "tf_list_wf l" "tf_list_room l (Suc k)" "length str < int_max"
  shows "\<exists>l'. tf_list_push2 l str = Inr l' \<and> tf_list_wf l' \<and> tf_list_room l' k \<and>
           tf_list_elems l' = tf_list_elems l @ [str]"
  using push_node [OF assms(1,2) new_region_str_ok [OF assms(3)] assms(3) refl]
  by (simp add: tf_list_push2_def)

lemma new_ok:
  "tf_list_wf tf_list_new \<and> tf_list_elems tf_list_new = [] \<and>
   (2 * k \<le> int_max \<longrightarrow> tf_list_room tf_list_new k)"
  by (simp add: tf_list_wf_def tf_list_elems_def tf_list_live_def tf_list_new_def
      TF_LIST_UNIT_def int_max_def tf_list_room_def)

lemma new2_ok:
  "anum \<le> int int_max \<Longrightarrow> tf_list_wf (tf_list_new2 anum) \<and> tf_list_elems (tf_list_new2 anum) = []"
  by (auto simp: tf_list_wf_def tf_list_elems_def tf_list_live_def tf_list_new2_def
      int_max_def Let_def)

lemma insert_node:
  assumes "tf_list_wf l" "tf_list_room l (Suc k)" "reg = Inr (map Some (bs @ [0]))"
    and "length bs < int_max" "sz = length bs" "j \<le> l_num l"
  shows "\<exists>l'. rbind (tf_list_grow l) (\<lambda>l1.
           rbind (memmove (l_array l1) (j + l_start l + 1) (j + l_start l)
                   (l_start l1 + l_num l1 - (j + l_start l))) (\<lambda>a.
           rbind reg (\<lambda>r.
           rbind (wr a (j + l_start l) (Some \<lparr>n_ptr = r, n_size = sz\<rparr>)) (\<lambda>a1.
           Inr (l1\<lparr>l_array := a1, l_num := l_num l1 + 1\<rparr>))))) = Inr l' \<and>
         tf_list_wf l' \<and> tf_list_room l' k \<and>
         tf_list_elems l' = take j (tf_list_elems l) @ bs # drop j (tf_list_elems l)"
proof -
  have "tf_list_room l 1" using assms(2) by (simp add: tf_list_room_def)
  with assms(1) obtain pre ns x post l1 where g: "tf_list_grow l = Inr l1"
    "l_array l1 = pre @ map Some ns @ x # post" "length pre = l_start l" "length ns = l_num l"
    "list_all node_ok ns" "tf_list_elems l = map node_bytes ns" "l_start l1 = l_start l"
    "l_num l1 = l_num l" "l_anum l1 = length (l_array l1)" "l_anum l1 \<le> int_max"
    by (rule grow_ok)
  let ?n = "\<lparr>n_ptr = map Some (bs @ [0]), n_size = sz\<rparr>" and ?p = "take j ns" and ?q = "drop j ns"
  let ?P = "pre @ map Some ?p"
  let ?l2 = "l1\<lparr>l_array := pre @ map Some ?p @ Some ?n # map Some ?q @ post, l_num := l_num l1 + 1\<rparr>"
  have n: "node_ok ?n \<and> node_bytes ?n = bs"
    using assms(4,5) by (intro node_okI [where rest = "[]"]) auto
  have arr: "l_array l1 = ?P @ map Some ?q @ x # post"
    using g(2) by (simp flip: map_append)
  have len: "length ?P = j + l_start l" "length (map Some ?q) = l_num l - j"
    using g assms(6) by simp_all
  obtain z where z: "memmove (l_array l1) (j + l_start l + 1) (j + l_start l) (l_num l - j)
      = Inr (?P @ z # map Some ?q @ post)"
    using memmove_up [OF arr] len by auto
  have w: "wr (?P @ z # map Some ?q @ post) (j + l_start l) (Some ?n)
      = Inr (pre @ map Some ?p @ Some ?n # map Some ?q @ post)"
    using len(1) wr_middle [of _ pre "map Some ?p"] by (simp del: wr_ok)
  have ok: "list_all node_ok (?p @ ?q)" using g(5) by simp
  have "tf_list_wf ?l2 \<and> tf_list_elems ?l2 = map node_bytes (?p @ ?n # ?q)"
    using g n ok assms(6) by (intro store_node [of pre l1 ?p ?q ?n post]) auto
  moreover have "tf_list_room ?l2 k"
    using assms(2) g by (simp add: tf_list_room_def)
  ultimately show ?thesis
    using g z w n assms(3,6) by (intro exI [of _ ?l2]) (simp add: take_map drop_map)
qed

lemma insert_ok:
  assumes "tf_list_wf l" "tf_list_room l (Suc k)" "sz < int_max" "sz \<le> length ptr" "j \<le> l_num l"
  shows "\<exists>l'. tf_list_insert l (int j) ptr (int sz) = Inr l' \<and> tf_list_wf l' \<and>
           tf_list_room l' k \<and>
           tf_list_elems l' = take j (tf_list_elems l) @ take sz ptr # drop j (tf_list_elems l)"
  using insert_node [OF assms(1,2) new_region_ok [OF assms(3,4)] _ _ assms(5), where sz = sz]
    assms(3,4,5)
  by (simp add: tf_list_insert_def Let_def)

lemma insert2_ok:
  assumes "tf_list_wf l" "tf_list_room l (Suc k)" "length str < int_max" "j \<le> l_num l"
  shows "\<exists>l'. tf_list_insert2 l (int j) str = Inr l' \<and> tf_list_wf l' \<and> tf_list_room l' k \<and>
           tf_list_elems l' = take j (tf_list_elems l) @ str # drop j (tf_list_elems l)"
proof -
  have "new_region str (length str) = Inr (map Some (str @ [0]))"
    using new_region_ok [OF assms(3), of str] by simp
  from insert_node [OF assms(1,2) this assms(3) refl assms(4)] show ?thesis
    using assms(4) by (simp add: tf_list_insert2_def Let_def)
qed

text \<open>A region that holds a given byte string, as the reading operations return it.\<close>

definition holds_str :: "region \<Rightarrow> byte list \<Rightarrow> bool" where
  "holds_str r bs \<longleftrightarrow> take (Suc (length bs)) r = map Some (bs @ [0])"

lemma node_ok_holds: "node_ok n \<Longrightarrow> holds_str (n_ptr n) (node_bytes n)"
  by (simp add: holds_str_def length_node_bytes) (simp add: node_ok_def)

lemma val_ok:
  assumes "tf_list_wf l" "j < l_num l"
  shows "\<exists>r. tf_list_val l (int j) = Inr (Some (r, length (tf_list_elems l ! j))) \<and>
             tf_list_val2 l (int j) = Inr (Some r) \<and> holds_str r (tf_list_elems l ! j)"
proof -
  obtain pre ns post where s: "l_array l = pre @ map Some ns @ post" "length pre = l_start l"
    "length ns = l_num l" "list_all node_ok ns" "tf_list_elems l = map node_bytes ns"
    using assms(1) by (rule wf_split)
  have ok: "node_ok (ns ! j)" using s assms(2) by (simp add: list_all_length)
  have "rdi (l_array l) (j + l_start l) = Inr (ns ! j)"
    using s assms(2) rdi_live [of j ns pre post] by (simp add: add.commute)
  then show ?thesis
    using s assms(2) node_ok_holds [OF ok] length_node_bytes [OF ok]
    by (simp add: tf_list_val_def tf_list_val2_def)
qed

lemma val_none: "tf_list_val l (int j) = Inr None" if "l_num l \<le> j"
  using that by (simp add: tf_list_val_def)

lemma pop_ok:
  assumes "tf_list_wf l" "0 < l_num l"
  shows "\<exists>l' r. tf_list_pop l = Inr (l', Some (r, length (last (tf_list_elems l)))) \<and>
           tf_list_pop2 l = Inr (l', Some r) \<and> holds_str r (last (tf_list_elems l)) \<and>
           tf_list_wf l' \<and> tf_list_elems l' = butlast (tf_list_elems l) \<and>
           (\<forall>k. tf_list_room l k \<longrightarrow> tf_list_room l' (Suc k))"
proof -
  obtain pre ns post where s: "l_array l = pre @ map Some ns @ post" "length pre = l_start l"
    "length ns = l_num l" "list_all node_ok ns" "tf_list_elems l = map node_bytes ns"
    "l_anum l = length pre + length ns + length post"
    using assms(1) by (rule wf_split)
  obtain ms m where ns: "ns = ms @ [m]" using s assms(2) by (cases ns rule: rev_cases) auto
  let ?l' = "l\<lparr>l_num := l_num l - 1\<rparr>"
  have num: "l_num l = Suc (length ms)" using s ns by simp
  have m: "node_ok m" using s ns by simp
  have rd: "rdi (l_array l) (l_start l + l_num l - 1) = Inr m"
    using s ns rdi_live [of "length ms" ns pre post] by (simp add: num)
  have "tf_list_wf ?l' \<and> tf_list_elems ?l' = map node_bytes ms"
    using s ns assms(1) by (intro wf_intro [of _ pre _ "Some m # post"]) (auto simp: tf_list_wf_def)
  then show ?thesis
    using s ns rd node_ok_holds [OF m] length_node_bytes [OF m]
    by (intro exI [of _ ?l'] exI [of _ "n_ptr m"])
      (simp add: tf_list_pop_def tf_list_pop2_def Let_def num tf_list_room_def map_butlast [symmetric])
qed

lemma remove_ok:
  assumes "tf_list_wf l" "j < l_num l"
  shows "\<exists>l' r. tf_list_remove l (int j) = Inr (l', Some (r, length (tf_list_elems l ! j))) \<and>
           tf_list_remove2 l (int j) = Inr (l', Some r) \<and> holds_str r (tf_list_elems l ! j) \<and>
           tf_list_wf l' \<and>
           tf_list_elems l' = take j (tf_list_elems l) @ drop (Suc j) (tf_list_elems l) \<and>
           (\<forall>k. tf_list_room l k \<longrightarrow> tf_list_room l' (Suc k))"
proof -
  obtain pre ns post where s: "l_array l = pre @ map Some ns @ post" "length pre = l_start l"
    "length ns = l_num l" "list_all node_ok ns" "tf_list_elems l = map node_bytes ns"
    "l_anum l = length pre + length ns + length post"
    using assms(1) by (rule wf_split)
  let ?p = "take j ns" and ?n = "ns ! j" and ?q = "drop (Suc j) ns"
  have ns: "ns = ?p @ ?n # ?q" using s assms(2) by (simp add: id_take_nth_drop)
  let ?P = "pre @ map Some ?p"
  have arr: "l_array l = ?P @ Some ?n # map Some ?q @ post"
    by (subst s(1), subst ns) simp
  have len: "length ?P = j + l_start l" "length (map Some ?q) = l_num l - 1 - j"
    using s assms(2) by simp_all
  obtain z where z: "memmove (l_array l) (j + l_start l) (j + l_start l + 1) (l_num l - 1 - j)
      = Inr (?P @ map Some ?q @ z # post)"
    using memmove_down [OF arr] len by auto
  let ?l' = "l\<lparr>l_num := l_num l - 1, l_array := ?P @ map Some ?q @ z # post\<rparr>"
  have n: "node_ok ?n" using s assms(2) by (simp add: list_all_length)
  have "list_all node_ok (?p @ ?n # ?q)" by (simp only: ns [symmetric] s(4))
  then have ok: "list_all node_ok (?p @ ?q)" by simp
  have rd: "rdi (l_array l) (j + l_start l) = Inr ?n"
    using s assms(2) rdi_live [of j ns pre post] by (simp add: add.commute)
  have "tf_list_wf ?l' \<and> tf_list_elems ?l' = map node_bytes (?p @ ?q)"
    using s ok assms by (intro wf_intro [of _ pre _ "z # post"]) (auto simp: tf_list_wf_def)
  moreover have "l_start l + (l_num l - 1) - (j + l_start l) = l_num l - 1 - j"
    using assms(2) by simp
  ultimately show ?thesis
    using s rd z assms(2) node_ok_holds [OF n] length_node_bytes [OF n]
    by (intro exI [of _ ?l'] exI [of _ "n_ptr ?n"])
      (simp add: tf_list_remove_def tf_list_remove2_def Let_def tf_list_room_def take_map drop_map)
qed

text \<open>
  Overwriting: the region grows only where the new content is longer than the old one, and
  has room for it and its zero byte in both cases.
\<close>

lemma over_region:
  assumes "node_ok n" "length bs = sz" "sz < int_max"
  shows "\<exists>r rest. node_reserve n sz = Inr r \<and>
         blit r 0 (map Some (bs @ [0])) = Inr (map Some (bs @ [0]) @ rest) \<and>
         rbind (blit r 0 (map Some bs)) (\<lambda>r1. wr r1 sz (Some 0))
           = Inr (map Some (bs @ [0]) @ rest)"
proof -
  obtain r where r: "node_reserve n sz = Inr r" and len: "length bs < length r"
    using assms node_ok_length [OF assms(1)] by (cases "sz > n_size n") (auto simp: node_reserve_def)
  have "blit r 0 (map Some (bs @ [0])) = Inr (map Some (bs @ [0]) @ drop (Suc (length bs)) r)"
    using len assms(2) by simp
  moreover have "rbind (blit r 0 (map Some bs)) (\<lambda>r1. wr r1 sz (Some 0))
      = Inr (map Some (bs @ [0]) @ drop (Suc (length bs)) r)"
    using len assms(2) by (simp add: list_update_append flip: Cons_nth_drop_Suc)
  ultimately show ?thesis using r by blast
qed

lemma over_slot:
  assumes "tf_list_wf l" "j < l_num l" "node_ok m"
  shows "\<exists>n a. rdi (l_array l) (j + l_start l) = Inr n \<and> node_ok n \<and>
           wr (l_array l) (j + l_start l) (Some m) = Inr a \<and>
           tf_list_wf (l\<lparr>l_array := a\<rparr>) \<and>
           tf_list_elems (l\<lparr>l_array := a\<rparr>) = (tf_list_elems l)[j := node_bytes m]"
proof -
  obtain pre ns post where s: "l_array l = pre @ map Some ns @ post" "length pre = l_start l"
    "length ns = l_num l" "list_all node_ok ns" "tf_list_elems l = map node_bytes ns"
    "l_anum l = length pre + length ns + length post"
    using assms(1) by (rule wf_split)
  let ?a = "pre @ map Some (ns[j := m]) @ post"
  have "rdi (l_array l) (j + l_start l) = Inr (ns ! j)"
    using s assms(2) rdi_live [of j ns pre post] by (simp add: add.commute)
  moreover have "node_ok (ns ! j)" using s assms(2) by (simp add: list_all_length)
  moreover have "wr (l_array l) (j + l_start l) (Some m) = Inr ?a"
    using s assms(2) by (simp add: wr_def list_update_append map_update)
  moreover have "tf_list_wf (l\<lparr>l_array := ?a\<rparr>) \<and>
      tf_list_elems (l\<lparr>l_array := ?a\<rparr>) = map node_bytes (ns[j := m])"
    using s assms
    by (intro wf_intro [of _ pre _ post]) (auto simp: tf_list_wf_def list_all_length nth_list_update)
  ultimately show ?thesis using s by (auto simp: map_update)
qed

lemma over_ok:
  assumes "tf_list_wf l" "j < l_num l" "sz < int_max" "sz \<le> length ptr"
  shows "\<exists>l'. tf_list_over l (int j) ptr (int sz) = Inr l' \<and> tf_list_wf l' \<and>
           (\<forall>k. tf_list_room l k \<longrightarrow> tf_list_room l' k) \<and>
           tf_list_elems l' = (tf_list_elems l)[j := take sz ptr]"
proof -
  let ?bs = "take sz ptr"
  obtain n where n: "rdi (l_array l) (j + l_start l) = Inr n" "node_ok n"
    using over_slot [OF assms(1,2), of "\<lparr>n_ptr = [Some 0], n_size = 0\<rparr>"]
    by (auto simp: node_ok_def node_bytes_def int_max_def)
  have bs: "length ?bs = sz" using assms(4) by simp
  then obtain r rest where r: "node_reserve n sz = Inr r"
    "rbind (blit r 0 (map Some ?bs)) (\<lambda>r1. wr r1 sz (Some 0)) = Inr (map Some (?bs @ [0]) @ rest)"
    using over_region [OF n(2) bs assms(3)] by auto
  let ?m = "\<lparr>n_ptr = map Some (?bs @ [0]) @ rest, n_size = sz\<rparr>"
  have m: "node_ok ?m \<and> node_bytes ?m = ?bs"
    using assms(3) bs by (intro node_okI [where rest = rest]) auto
  obtain a where a: "wr (l_array l) (j + l_start l) (Some ?m) = Inr a"
    "tf_list_wf (l\<lparr>l_array := a\<rparr>)" "tf_list_elems (l\<lparr>l_array := a\<rparr>) = (tf_list_elems l)[j := ?bs]"
    using over_slot [OF assms(1,2), of ?m] m by auto
  obtain r1 where "blit r 0 (map Some ?bs) = Inr r1" "wr r1 sz (Some 0) = Inr (map Some (?bs @ [0]) @ rest)"
    using r(2) by (auto simp: rbind_eq_Inr)
  then show ?thesis
    using n r(1) a assms(2,4) by (simp add: tf_list_over_def Let_def tf_list_room_def del: wr_ok blit_ok)
qed

lemma over2_ok:
  assumes "tf_list_wf l" "j < l_num l" "length str < int_max"
  shows "\<exists>l'. tf_list_over2 l (int j) str = Inr l' \<and> tf_list_wf l' \<and>
           (\<forall>k. tf_list_room l k \<longrightarrow> tf_list_room l' k) \<and>
           tf_list_elems l' = (tf_list_elems l)[j := str]"
proof -
  obtain n where n: "rdi (l_array l) (j + l_start l) = Inr n" "node_ok n"
    using over_slot [OF assms(1,2), of "\<lparr>n_ptr = [Some 0], n_size = 0\<rparr>"]
    by (auto simp: node_ok_def node_bytes_def int_max_def)
  obtain r rest where r: "node_reserve n (length str) = Inr r"
    "blit r 0 (map Some (str @ [0])) = Inr (map Some (str @ [0]) @ rest)"
    using over_region [OF n(2) refl assms(3)] by auto
  let ?m = "\<lparr>n_ptr = map Some (str @ [0]) @ rest, n_size = length str\<rparr>"
  have m: "node_ok ?m \<and> node_bytes ?m = str"
    using assms(3) by (intro node_okI [where rest = rest]) auto
  obtain a where a: "wr (l_array l) (j + l_start l) (Some ?m) = Inr a"
    "tf_list_wf (l\<lparr>l_array := a\<rparr>)" "tf_list_elems (l\<lparr>l_array := a\<rparr>) = (tf_list_elems l)[j := str]"
    using over_slot [OF assms(1,2), of ?m] m by auto
  show ?thesis
    using n r a assms(2)
    by (simp add: tf_list_over2_def Let_def tf_list_room_def del: wr_ok blit_ok)
qed

lemma dup_nodes_ok:
  "list_all node_ok ns \<Longrightarrow> array = pre @ map Some ns @ post \<Longrightarrow>
     \<exists>ms. tf_list_dup_nodes array (length pre) (length ns) = Inr (map Some ms) \<and>
          list_all node_ok ms \<and> map node_bytes ms = map node_bytes ns"
proof (induction ns arbitrary: pre)
  case Nil
  then show ?case by simp
next
  case (Cons n ns)
  let ?m = "\<lparr>n_ptr = take (Suc (n_size n)) (n_ptr n), n_size = n_size n\<rparr>"
  have "\<exists>ms. tf_list_dup_nodes array (length (pre @ [Some n])) (length ns) = Inr (map Some ms) \<and>
      list_all node_ok ms \<and> map node_bytes ms = map node_bytes ns"
    using Cons.prems by (intro Cons.IH) auto
  then obtain ms where ms: "tf_list_dup_nodes array (Suc (length pre)) (length ns) = Inr (map Some ms)"
    "list_all node_ok ms" "map node_bytes ms = map node_bytes ns" by auto
  have n: "node_ok n" using Cons.prems(1) by simp
  have rd: "rdi array (length pre) = Inr n"
    using Cons.prems(2) by (intro rdi_ok) (auto simp: nth_append)
  have "node_bytes ?m = node_bytes n" by (simp add: node_bytes_def min_def)
  then have "node_ok ?m \<and> node_bytes ?m = node_bytes n"
    using n length_node_bytes [OF n] by (simp add: node_ok_def)
  moreover have sz: "n_size n < int_max" using n by (simp add: node_ok_def)
  ultimately show ?case
    using sz ms rd node_ok_length [OF n]
    by (intro exI [of _ "?m # ms"]) simp
qed

lemma dup_ok:
  assumes "tf_list_wf l"
  shows "\<exists>l'. tf_list_dup l = Inr l' \<and> tf_list_wf l' \<and> tf_list_elems l' = tf_list_elems l"
proof (cases "l_num l < 1")
  case True
  then show ?thesis
    using new_ok [of 0] by (simp add: tf_list_dup_def tf_list_elems_def tf_list_live_def)
next
  case False
  obtain pre ns post where s: "l_array l = pre @ map Some ns @ post" "length pre = l_start l"
    "length ns = l_num l" "list_all node_ok ns" "tf_list_elems l = map node_bytes ns"
    "l_anum l = length pre + length ns + length post"
    using assms by (rule wf_split)
  obtain ms where ms: "tf_list_dup_nodes (l_array l) (l_start l) (l_num l) = Inr (map Some ms)"
    "list_all node_ok ms" "map node_bytes ms = map node_bytes ns"
    using dup_nodes_ok [OF s(4,1)] s by auto
  have len: "length ms = l_num l" using ms(3) s(3) by (metis length_map)
  let ?l' = "\<lparr>l_array = map Some ms, l_anum = l_num l, l_start = 0, l_num = l_num l\<rparr>"
  have "tf_list_wf ?l' \<and> tf_list_elems ?l' = map node_bytes ms"
    using ms len s assms False
    by (intro wf_intro [of _ "[]" _ "[]"]) (auto simp: tf_list_wf_def)
  then show ?thesis using ms s False by (simp add: tf_list_dup_def)
qed

lemma clear_ok:
  assumes "tf_list_wf l"
  shows "tf_list_wf (tf_list_clear l) \<and> tf_list_elems (tf_list_clear l) = []"
  using assms
  by (auto simp: tf_list_wf_def tf_list_clear_def tf_list_elems_def tf_list_live_def)

lemma num_ok: "tf_list_wf l \<Longrightarrow> tf_list_num l = length (tf_list_elems l)"
  by (auto simp: tf_list_wf_def tf_list_num_def tf_list_elems_def tf_list_live_def)

end
