(* ===== verification/TF_List_Order.thy ===== *)
theory TF_List_Order
  imports TF_List
begin

text \<open>
  Sorting and searching of \<^verbatim>\<open>src/tflib/tf_list.c\<close>.  The comparator \<open>tf_list_elemcmp\<close> is
  the lexicographic order on the byte contents; \<open>qsort\<close> and \<open>bsearch\<close> rely on a comparator
  only through the locale \<open>comparator\<close>, which is interpreted on \<open>tf_list_elemcmp\<close>.
\<close>

section \<open>The comparator interface\<close>

locale comparator =
  fixes cmp :: "'a \<Rightarrow> 'a \<Rightarrow> c_error + int"
    and key :: "'a \<Rightarrow> 'k::linorder"
    and ok :: "'a \<Rightarrow> bool"
  assumes cmp_total:
    "ok a \<Longrightarrow> ok b \<Longrightarrow>
      \<exists>c. cmp a b = Inr c \<and> (c < 0 \<longleftrightarrow> key a < key b) \<and> (c = 0 \<longleftrightarrow> key a = key b)"
begin

lemma cmp_le:
  assumes "ok a" "ok b"
  obtains c where "cmp a b = Inr c" "c \<le> 0 \<longleftrightarrow> key a \<le> key b"
proof -
  obtain c where "cmp a b = Inr c" "c < 0 \<longleftrightarrow> key a < key b" "c = 0 \<longleftrightarrow> key a = key b"
    using cmp_total [OF assms] by blast
  then show thesis by (intro that [of c]) (auto simp: order_le_less)
qed

lemma qsort_insert_ok:
  "ok x \<Longrightarrow> list_all ok ys \<Longrightarrow> sorted (map key ys) \<Longrightarrow>
     \<exists>zs. qsort_insert cmp x ys = Inr zs \<and> mset zs = add_mset x (mset ys) \<and> sorted (map key zs)"
proof (induction ys)
  case Nil
  then show ?case by simp
next
  case (Cons y ys)
  from Cons.prems obtain c where c: "cmp x y = Inr c" "c \<le> 0 \<longleftrightarrow> key x \<le> key y"
    by (auto elim: cmp_le)
  show ?case
  proof (cases "c \<le> 0")
    case True
    then show ?thesis using c Cons.prems by auto
  next
    case False
    obtain zs where zs: "qsort_insert cmp x ys = Inr zs" "mset zs = add_mset x (mset ys)"
      "sorted (map key zs)"
      using Cons by auto
    have "set zs = insert x (set ys)"
      using arg_cong [OF zs(2), of set_mset] by simp
    then show ?thesis using c False zs Cons.prems by auto
  qed
qed

lemma c_qsort_ok:
  "list_all ok xs \<Longrightarrow> \<exists>ys. c_qsort cmp xs = Inr ys \<and> mset ys = mset xs \<and> sorted (map key ys)"
proof (induction xs)
  case Nil
  then show ?case by simp
next
  case (Cons x xs)
  then obtain ys where ys: "c_qsort cmp xs = Inr ys" "mset ys = mset xs" "sorted (map key ys)"
    by auto
  have "list_all ok ys"
    using Cons.prems mset_eq_setD [OF ys(2)] by (simp add: list_all_iff)
  then show ?case using qsort_insert_ok [of x ys] Cons.prems ys by auto
qed

text \<open>
  Binary search in a sorted range of an array: the reads stay in the range, and an element
  with the searched key is found exactly if there is one.
\<close>

lemma c_bsearch_ok:
  assumes "ok k" "list_all ok ns" "sorted (map key ns)"
    and rd: "\<And>i. i < length ns \<Longrightarrow> rdi array (base + i) = Inr (ns ! i)"
  shows "hi \<le> length ns \<Longrightarrow>
     \<exists>r. c_bsearch cmp k array base lo hi = Inr r \<and>
         (case r of Some i \<Rightarrow> lo \<le> i \<and> i < hi \<and> key (ns ! i) = key k
          | None \<Rightarrow> \<forall>i. lo \<le> i \<and> i < hi \<longrightarrow> key (ns ! i) \<noteq> key k)"
proof (induction "hi - lo" arbitrary: lo hi rule: less_induct)
  case less
  show ?case
  proof (cases "lo < hi")
    case False
    then show ?thesis by (auto simp: c_bsearch.simps [of _ _ _ _ lo hi])
  next
    case True
    let ?i = "(lo + hi) div 2"
    have i: "lo \<le> ?i" "?i < hi" "?i < length ns" using True less.prems by auto
    have mono: "key (ns ! p) \<le> key (ns ! q)" if "p \<le> q" "q < length ns" for p q
      using assms(3) that sorted_nth_mono [of "map key ns" p q] by simp
    obtain c where c: "cmp k (ns ! ?i) = Inr c" "c < 0 \<longleftrightarrow> key k < key (ns ! ?i)"
      "c = 0 \<longleftrightarrow> key k = key (ns ! ?i)"
      using cmp_total [OF assms(1), of "ns ! ?i"] assms(2) i by (auto simp: list_all_length)
    have eq: "c_bsearch cmp k array base lo hi =
        (if c < 0 then c_bsearch cmp k array base lo ?i
         else if c > 0 then c_bsearch cmp k array base (?i + 1) hi else Inr (Some ?i))"
      using True rd [OF i(3)] c(1) by (simp add: c_bsearch.simps [of _ _ _ _ lo hi] Let_def)
    consider "c < 0" | "c > 0" | "c = 0" by linarith
    then show ?thesis
    proof cases
      case 1
      obtain r where r: "c_bsearch cmp k array base lo ?i = Inr r"
        "case r of Some i \<Rightarrow> lo \<le> i \<and> i < ?i \<and> key (ns ! i) = key k
          | None \<Rightarrow> \<forall>i. lo \<le> i \<and> i < ?i \<longrightarrow> key (ns ! i) \<noteq> key k"
        using less.hyps [of ?i lo, OF diff_less_mono [OF i(2,1)]] i by auto
      have "key (ns ! q) \<noteq> key k" if "?i \<le> q" "q < hi" for q
        using mono [of ?i q] that c(2) 1 less.prems by auto
      then have "key (ns ! q) \<noteq> key k" if "r = None" "lo \<le> q" "q < hi" for q
        using r(2) that by (cases "q < ?i") auto
      then show ?thesis using r eq 1 i by (auto split: option.splits)
    next
      case 2
      obtain r where r: "c_bsearch cmp k array base (?i + 1) hi = Inr r"
        "case r of Some i \<Rightarrow> ?i + 1 \<le> i \<and> i < hi \<and> key (ns ! i) = key k
          | None \<Rightarrow> \<forall>i. ?i + 1 \<le> i \<and> i < hi \<longrightarrow> key (ns ! i) \<noteq> key k"
        using less.hyps [of hi "?i + 1", OF diff_less_mono2 [OF le_imp_less_Suc [OF i(1)] True,
            unfolded Suc_eq_plus1]] less.prems by auto
      have "key (ns ! q) \<noteq> key k" if "q \<le> ?i" for q
        using mono [of q ?i] that c(2,3) 2 i by auto
      then have "key (ns ! q) \<noteq> key k" if "r = None" "lo \<le> q" "q < hi" for q
        using r(2) that by (cases "q \<le> ?i") auto
      then show ?thesis using r eq 2 i by (auto split: option.splits)
    next
      case 3
      then show ?thesis using eq c i by auto
    qed
  qed
qed

end

section \<open>The element comparator is the lexicographic order\<close>

definition node_rd :: "tf_node \<Rightarrow> bool" where
  "node_rd n \<longleftrightarrow> n_size n \<le> length (n_ptr n) \<and> (\<forall>i < n_size n. n_ptr n ! i \<noteq> None)"

lemma node_ok_rd: "node_ok n \<Longrightarrow> node_rd n"
  using node_ok_length [of n] node_ok_nth [of n] by (auto simp: node_rd_def)

lemma node_rd_nth: "node_rd n \<Longrightarrow> i < n_size n \<Longrightarrow> rdi (n_ptr n) i = Inr (node_bytes n ! i)"
  by (auto simp: node_rd_def node_bytes_def rdi_def split: option.splits)

lemma node_rd_len: "node_rd n \<Longrightarrow> length (node_bytes n) = n_size n"
  by (simp add: node_rd_def node_bytes_def)

lemma elemcmp_loop_ok:
  "length us = k \<Longrightarrow> length vs = k \<Longrightarrow>
   (\<And>j. j < k \<Longrightarrow> rdi ao (i + j) = Inr (us ! j) \<and> rdi bo (i + j) = Inr (vs ! j)) \<Longrightarrow>
     elemcmp_loop ao bo i k d = Inr (if us = vs then d else if us < vs then - 1 else 1)"
proof (induction k arbitrary: us vs i)
  case 0
  then show ?case by simp
next
  case (Suc k)
  then obtain u us' v vs' where uv: "us = u # us'" "vs = v # vs'"
    by (metis length_Suc_conv)
  have "elemcmp_loop ao bo (Suc i) k d = Inr (if us' = vs' then d else if us' < vs' then - 1 else 1)"
    using Suc.prems uv Suc.prems(3) [of "Suc _"] by (intro Suc.IH) auto
  moreover have "rdi ao i = Inr u" "rdi bo i = Inr v"
    using Suc.prems(3) [of 0] uv by auto
  ultimately show ?case using uv by auto
qed

lemma lex_min:
  "(xs :: 'a::linorder list) < ys \<longleftrightarrow>
     (let m = min (length xs) (length ys)
      in take m xs < take m ys \<or> take m xs = take m ys \<and> length xs < length ys)"
proof (induction xs arbitrary: ys)
  case Nil
  then show ?case by (cases ys) auto
next
  case (Cons x xs)
  then show ?case by (cases ys) (auto simp: Let_def)
qed

lemma elemcmp_ok:
  assumes "node_rd a" "node_rd b"
  shows "\<exists>c. tf_list_elemcmp a b = Inr c \<and> (c < 0 \<longleftrightarrow> node_bytes a < node_bytes b) \<and>
             (c = 0 \<longleftrightarrow> node_bytes a = node_bytes b)"
proof -
  let ?A = "node_bytes a" and ?B = "node_bytes b"
  let ?m = "if n_size a < n_size b then n_size a else n_size b"
  let ?d = "int (n_size a) - int (n_size b)"
  have len: "length ?A = n_size a" "length ?B = n_size b" using assms by (auto simp: node_rd_len)
  have m: "?m = min (length ?A) (length ?B)" using len by simp
  have "elemcmp_loop (n_ptr a) (n_ptr b) 0 ?m ?d =
      Inr (if take ?m ?A = take ?m ?B then ?d else if take ?m ?A < take ?m ?B then - 1 else 1)"
    using assms len by (intro elemcmp_loop_ok) (auto simp: node_rd_nth split: if_splits)
  then have eq: "tf_list_elemcmp a b =
      Inr (if take ?m ?A = take ?m ?B then ?d else if take ?m ?A < take ?m ?B then - 1 else 1)"
    by (simp add: tf_list_elemcmp_def Let_def)
  have lt: "?A < ?B \<longleftrightarrow> take ?m ?A < take ?m ?B \<or> take ?m ?A = take ?m ?B \<and> n_size a < n_size b"
    using lex_min [of ?A ?B] unfolding m len Let_def .
  have same: "?A = ?B \<longleftrightarrow> take ?m ?A = take ?m ?B \<and> n_size a = n_size b"
    using len by (auto dest: arg_cong [of _ _ length])
  show ?thesis using lt same by (auto simp: eq)
qed

interpretation elem_order: comparator tf_list_elemcmp node_bytes node_rd
  by unfold_locales (rule elemcmp_ok)

section \<open>Sorting and searching a list\<close>

lemma read_nodes_ok:
  "array = pre @ map Some ns @ post \<Longrightarrow>
     read_nodes array (length pre) (length ns) = Inr ns"
proof (induction ns arbitrary: pre)
  case Nil
  then show ?case by simp
next
  case (Cons n ns)
  then have "read_nodes array (length (pre @ [Some n])) (length ns) = Inr ns"
    by (intro Cons.IH) auto
  moreover have "rdi array (length pre) = Inr n"
    using Cons.prems by (intro rdi_ok) (auto simp: nth_append)
  ultimately show ?case by simp
qed

lemma sort_ok:
  assumes "tf_list_wf l"
  shows "\<exists>l'. tf_list_sort l = Inr l' \<and> tf_list_wf l' \<and> sorted (tf_list_elems l') \<and>
           mset (tf_list_elems l') = mset (tf_list_elems l) \<and>
           (\<forall>k. tf_list_room l k \<longrightarrow> tf_list_room l' k)"
proof -
  obtain pre ns post where s: "l_array l = pre @ map Some ns @ post" "length pre = l_start l"
    "length ns = l_num l" "list_all node_ok ns" "tf_list_elems l = map node_bytes ns"
    "l_anum l = length pre + length ns + length post"
    using assms by (rule wf_split)
  have "list_all node_rd ns" using s(4) by (auto simp: list_all_iff node_ok_rd)
  then obtain ms where ms: "c_qsort tf_list_elemcmp ns = Inr ms" "mset ms = mset ns"
    "sorted (map node_bytes ms)"
    using elem_order.c_qsort_ok by blast
  let ?l' = "l\<lparr>l_array := pre @ map Some ms @ post\<rparr>"
  have len: "length ms = length ns" using ms(2) by (rule mset_eq_length)
  have ok: "list_all node_ok ms"
    using s(4) mset_eq_setD [OF ms(2)] by (simp add: list_all_iff)
  have "tf_list_wf ?l' \<and> tf_list_elems ?l' = map node_bytes ms"
    using s len ok assms by (intro wf_intro [of _ pre _ post]) (auto simp: tf_list_wf_def)
  moreover have "read_nodes (l_array l) (l_start l) (l_num l) = Inr ns"
    using read_nodes_ok [OF s(1)] s by simp
  moreover have "blit (l_array l) (l_start l) (map Some ms) = Inr (pre @ map Some ms @ post)"
    using s len by (simp add: blit_def)
  moreover have "mset (map node_bytes ms) = mset (map node_bytes ns)"
    using ms(2) by simp
  ultimately show ?thesis
    using ms s by (simp add: tf_list_sort_def tf_list_room_def del: mset_map)
qed

lemma bsearch_ok:
  assumes "tf_list_wf l" "sorted (tf_list_elems l)" "sz \<le> length ptr"
  shows "\<exists>r. tf_list_bsearch l ptr (int sz) = Inr r \<and>
           (if take sz ptr \<in> set (tf_list_elems l)
            then 0 \<le> r \<and> r < int (l_num l) \<and> tf_list_elems l ! nat r = take sz ptr
            else r = - 1)"
proof -
  obtain pre ns post where s: "l_array l = pre @ map Some ns @ post" "length pre = l_start l"
    "length ns = l_num l" "list_all node_ok ns" "tf_list_elems l = map node_bytes ns"
    using assms(1) by (rule wf_split)
  let ?k = "\<lparr>n_ptr = map Some ptr, n_size = sz\<rparr>"
  have k: "node_rd ?k" "node_bytes ?k = take sz ptr"
    using assms(3) by (auto simp: node_rd_def node_bytes_def take_map)
  have ns: "list_all node_rd ns" using s(4) by (auto simp: list_all_iff node_ok_rd)
  have rd: "\<And>i. i < length ns \<Longrightarrow> rdi (l_array l) (l_start l + i) = Inr (ns ! i)"
    using s rdi_live [of _ ns pre post] by simp
  obtain r where r: "c_bsearch tf_list_elemcmp ?k (l_array l) (l_start l) 0 (l_num l) = Inr r"
    "case r of Some i \<Rightarrow> i < l_num l \<and> node_bytes (ns ! i) = take sz ptr
      | None \<Rightarrow> \<forall>i. i < l_num l \<longrightarrow> node_bytes (ns ! i) \<noteq> take sz ptr"
    using elem_order.c_bsearch_ok [OF k(1) ns _ rd, of "l_num l" 0] assms(2) s k(2)
    by (auto split: option.splits)
  then show ?thesis
    using s by (force simp: tf_list_bsearch_def Let_def in_set_conv_nth split: option.splits)
qed

lemma memcmp_eq_ok:
  "(\<And>j. j < k \<Longrightarrow> rdi r (i + j) = Inr (us ! j)) \<Longrightarrow> length us = k \<Longrightarrow> i + k \<le> length p \<Longrightarrow>
     memcmp_eq r p i k = Inr (us = take k (drop i p))"
proof (induction k arbitrary: i us)
  case 0
  then show ?case by simp
next
  case (Suc k)
  then obtain u us' where u: "us = u # us'" by (cases us) auto
  have "memcmp_eq r p (Suc i) k = Inr (us' = take k (drop (Suc i) p))"
    using Suc.prems u Suc.prems(1) [of "Suc _"] by (intro Suc.IH) auto
  moreover have "rdi r i = Inr u" "rd p i = Inr (p ! i)"
    using Suc.prems(1) [of 0] Suc.prems(3) u by auto
  moreover have "take (Suc k) (drop i p) = p ! i # take k (drop (Suc i) p)"
    using Suc.prems(3) by (simp flip: Cons_nth_drop_Suc)
  ultimately show ?case using u by simp
qed

text \<open>The first index at which a value stands in a list, or \<open>-1\<close>.\<close>

fun first_index :: "'a list \<Rightarrow> 'a \<Rightarrow> int" where
  "first_index [] x = - 1"
| "first_index (y # ys) x =
     (if y = x then 0 else let r = first_index ys x in if r < 0 then - 1 else r + 1)"

lemma first_index_ge: "- 1 \<le> first_index ys x"
  by (induction ys) (auto simp: Let_def)

lemma first_index_none: "first_index ys x = - 1 \<longleftrightarrow> x \<notin> set ys"
proof (induction ys)
  case (Cons y ys)
  then show ?case using first_index_ge [of ys x] by (auto simp: Let_def)
qed simp

lemma search_loop_ok:
  assumes "sz \<le> length ptr"
  shows "list_all node_ok ns \<Longrightarrow> array = pre @ map Some ns @ post \<Longrightarrow> st \<le> length pre \<Longrightarrow>
     tf_listl_search_loop array st (length pre) (length ns) ptr sz =
       Inr (let r = first_index (map node_bytes ns) (take sz ptr)
            in if r < 0 then - 1 else r + int (length pre - st))"
proof (induction ns arbitrary: pre)
  case Nil
  then show ?case by (simp add: Let_def)
next
  case (Cons n ns)
  have rd: "rdi array (length pre) = Inr n"
    using Cons.prems by (intro rdi_ok) (auto simp: nth_append)
  have n: "node_ok n" using Cons.prems by simp
  have hit: "(if n_size n = sz then memcmp_eq (n_ptr n) ptr 0 sz else Inr False)
      = Inr (node_bytes n = take sz ptr)"
  proof (cases "n_size n = sz")
    case True
    then show ?thesis
      using memcmp_eq_ok [of sz "n_ptr n" 0 "node_bytes n" ptr] n assms
      by (simp add: rdi_node length_node_bytes)
  next
    case False
    then show ?thesis using length_node_bytes [OF n] assms by auto
  qed
  have "tf_listl_search_loop array st (length (pre @ [Some n])) (length ns) ptr sz =
      Inr (let r = first_index (map node_bytes ns) (take sz ptr)
           in if r < 0 then - 1 else r + int (length (pre @ [Some n]) - st))"
    using Cons.prems by (intro Cons.IH) auto
  then show ?case
    using rd hit Cons.prems(3) by (auto simp: Let_def)
qed

lemma search_ok:
  assumes "tf_list_wf l" "sz \<le> length ptr"
  shows "tf_listl_search l ptr (int sz) = Inr (first_index (tf_list_elems l) (take sz ptr))"
proof -
  obtain pre ns post where s: "l_array l = pre @ map Some ns @ post" "length pre = l_start l"
    "length ns = l_num l" "list_all node_ok ns" "tf_list_elems l = map node_bytes ns"
    using assms(1) by (rule wf_split)
  show ?thesis
    using search_loop_ok [OF assms(2) s(4,1), of "l_start l"] s
      first_index_ge [of "tf_list_elems l" "take sz ptr"]
    by (auto simp: tf_listl_search_def Let_def)
qed

end
