(* ===== verification/TF_Vnum.thy ===== *)
theory TF_Vnum
  imports TF_Prelude
begin

text \<open>
  The variable-length numbers of \<^verbatim>\<open>src/tflib/tf_util.h\<close> (\<open>TFSETVNUMBUF\<close>,
  \<open>TFREADVNUMBUF\<close>, \<open>TFCALCVNUMSIZE\<close>): base 128, least significant group first, a group
  that is not the last one stored as the negative byte \<open>- rem - 1\<close>.
\<close>

section \<open>The macros\<close>

function vnum_groups :: "int \<Rightarrow> byte list" where
  "vnum_groups n =
     (if n > 0
      then let rem = n AND 0x7f; n' = drop_bit 7 n in
        (if n' > 0 then of_int (- rem - 1) else of_int rem) # vnum_groups n'
      else [])"
  by pat_completeness auto
termination
  by (relation "measure nat") (auto simp: drop_bit_int_def)

declare vnum_groups.simps [simp del]

definition TFSETVNUMBUF :: "int \<Rightarrow> byte list" where
  "TFSETVNUMBUF n = (if n = 0 then [0] else vnum_groups n)"

text \<open>
  The reader accumulates in an \<open>int\<close>; leaving the range of \<open>int\<close> in the sum or in the
  base is signed overflow.  It reads as long as the bytes are negative, whatever the size
  of the buffer: the end of the object is the only bound, and crossing it is an error.
\<close>

definition chk_sint :: "int \<Rightarrow> c_error + int" where
  "chk_sint n = (if - 2147483648 \<le> n \<and> n \<le> 2147483647 then Inr n else Inl Int_Overflow)"

lemma chk_sint_nonneg: "0 \<le> n \<Longrightarrow> n \<le> 2147483647 \<Longrightarrow> chk_sint n = Inr n"
  by (simp add: chk_sint_def)

fun vnum_read :: "byte list \<Rightarrow> int \<Rightarrow> int \<Rightarrow> nat \<Rightarrow> c_error + int \<times> nat" where
  "vnum_read [] num base i = Inl Out_Of_Bounds"
| "vnum_read (b # bs) num base i =
     (if sint b \<ge> 0
      then rbind (chk_sint (num + sint b * base)) (\<lambda>num'. Inr (num', i + 1))
      else rbind (chk_sint (num + base * (sint b + 1) * - 1)) (\<lambda>num'.
           rbind (chk_sint (base * 128)) (\<lambda>base'. vnum_read bs num' base' (i + 1))))"

definition TFREADVNUMBUF :: "byte list \<Rightarrow> c_error + int \<times> nat" where
  "TFREADVNUMBUF buf = vnum_read buf 0 1 0"

definition TFCALCVNUMSIZE :: "int \<Rightarrow> nat" where
  "TFCALCVNUMSIZE n =
     (if n < 0x80 then 1 else if n < 0x4000 then 2 else if n < 0x200000 then 3
      else if n < 0x10000000 then 4 else 5)"

section \<open>Encoding\<close>

lemma and_7f: "(n :: int) AND 127 = n mod 128"
  using take_bit_eq_mask [of 7 n] by (simp add: take_bit_eq_mod mask_eq_exp_minus_1)

lemma shift_7: "drop_bit 7 (n :: int) = n div 128"
  by (simp add: drop_bit_eq_div)

lemma vnum_groups_eq:
  "0 < n \<Longrightarrow> vnum_groups n =
     (if n < 128 then [of_int n] else of_int (- (n mod 128) - 1) # vnum_groups (n div 128))"
  by (subst vnum_groups.simps)
    (auto simp: and_7f shift_7 Let_def vnum_groups.simps [of 0] pos_imp_zdiv_pos_iff)

lemma sint_last: "0 \<le> n \<Longrightarrow> n < 128 \<Longrightarrow> sint (of_int n :: byte) = n"
  by (subst sint_sbintrunc') (simp add: signed_take_bit_int_eq_self)

lemma sint_cont: "0 \<le> n \<Longrightarrow> n < 128 \<Longrightarrow> sint (of_int (- n - 1) :: byte) = - n - 1"
  by (subst sint_sbintrunc') (simp add: signed_take_bit_int_eq_self)

lemma vnum_groups_length:
  "0 < n \<Longrightarrow> n < 128 ^ k \<Longrightarrow> length (vnum_groups n) \<le> k"
proof (induction k arbitrary: n)
  case 0
  then show ?case by simp
next
  case (Suc k)
  show ?case
  proof (cases "n < 128")
    case True
    then show ?thesis using Suc.prems by (simp add: vnum_groups_eq)
  next
    case False
    then have "0 < n div 128" "n div 128 < 128 ^ k"
      using Suc.prems by (auto simp: pos_imp_zdiv_pos_iff div_less_iff_less_mult [of 128] mult.commute
          intro: int_div_less_self)
    then have "length (vnum_groups (n div 128)) \<le> k" by (rule Suc.IH)
    then show ?thesis using False Suc.prems by (simp add: vnum_groups_eq [of n])
  qed
qed

lemma vnum_groups_length_ge:
  "128 ^ k \<le> n \<Longrightarrow> k < length (vnum_groups n)"
proof (induction k arbitrary: n)
  case 0
  then show ?case by (simp add: vnum_groups_eq)
next
  case (Suc k)
  have n: "128 \<le> n"
    using Suc.prems one_le_power [of "128::int" k] unfolding power_Suc by linarith
  have "128 ^ k \<le> n div 128"
    using zdiv_mono1 [OF Suc.prems, of 128] by simp
  then have "k < length (vnum_groups (n div 128))" by (rule Suc.IH)
  then show ?case using n by (simp add: vnum_groups_eq [of n])
qed

section \<open>Decoding what was encoded\<close>

lemma vnum_read_groups:
  assumes "0 \<le> num" "1 \<le> base"
  shows "0 < n \<Longrightarrow> num + n * base \<le> 2147483647 \<Longrightarrow>
     vnum_read (vnum_groups n @ rest) num base i
       = Inr (num + n * base, i + length (vnum_groups n))"
  using assms
proof (induction n arbitrary: num base i rule: vnum_groups.induct)
  case (1 n)
  show ?case
  proof (cases "n < 128")
    case True
    have "0 \<le> n * base" using "1.prems" by simp
    then have "0 \<le> num + n * base" using "1.prems" by linarith
    then have "chk_sint (num + n * base) = Inr (num + n * base)"
      using "1.prems" by (simp add: chk_sint_nonneg)
    then show ?thesis
      using True "1.prems" sint_last [of n] by (simp add: vnum_groups_eq [of n])
  next
    case False
    let ?r = "n mod 128" and ?q = "n div 128"
    have r: "0 \<le> ?r" "?r < 128" and q: "0 < ?q"
      using False by (auto simp: pos_imp_zdiv_pos_iff)
    have n: "n * base = ?r * base + ?q * (base * 128)"
    proof -
      have "n * base = (?q * 128 + ?r) * base" by (simp only: div_mult_mod_eq)
      then show ?thesis by (simp only: distrib_right mult.assoc mult.commute [of base] add.commute)
    qed
    have nn: "0 \<le> ?r * base" "base * 128 \<le> ?q * (base * 128)"
      using r q "1.prems" by (auto intro: mult_nonneg_nonneg)
    then have bnd: "num + ?r * base \<le> 2147483647" "base * 128 \<le> 2147483647"
      using "1.prems" n by linarith+
    have s: "sint (of_int (- ?r - 1) :: byte) = - ?r - 1" using r by (rule sint_cont)
    have "vnum_read (vnum_groups ?q @ rest) (num + ?r * base) (base * 128) (i + 1) =
        Inr (num + ?r * base + ?q * (base * 128), i + 1 + length (vnum_groups ?q))"
      using "1.IH" [OF _ refl refl] "1.prems" q nn n bnd by (simp add: shift_7)
    moreover have "chk_sint (num + base * (- ?r - 1 + 1) * - 1) = Inr (num + ?r * base)"
    proof -
      have "num + base * (- ?r - 1 + 1) * - 1 = num + ?r * base" by (simp add: mult.commute)
      moreover have "0 \<le> num + ?r * base" using nn "1.prems" by linarith
      ultimately show ?thesis using bnd by (simp only: chk_sint_nonneg)
    qed
    moreover have "chk_sint (base * 128) = Inr (base * 128)"
      using bnd "1.prems" by (simp add: chk_sint_nonneg)
    moreover have "vnum_groups n = of_int (- ?r - 1) # vnum_groups ?q"
      using False "1.prems" by (simp only: vnum_groups_eq if_False)
    moreover have "\<not> 0 \<le> - ?r - 1" using r by linarith
    ultimately show ?thesis
      using n by (simp only: append_Cons vnum_read.simps s if_False rbind_Inr) simp
  qed
qed

lemma vnum_roundtrip:
  assumes "0 \<le> n" "n \<le> 2147483647"
  shows "TFREADVNUMBUF (TFSETVNUMBUF n @ rest) = Inr (n, length (TFSETVNUMBUF n))"
proof (cases "n = 0")
  case True
  then show ?thesis by (simp add: TFREADVNUMBUF_def TFSETVNUMBUF_def chk_sint_def)
next
  case False
  then show ?thesis
    using vnum_read_groups [of 0 1 n rest 0] assms by (simp add: TFREADVNUMBUF_def TFSETVNUMBUF_def)
qed

lemma length_pos_TFSETVNUMBUF: "0 \<le> n \<Longrightarrow> 0 < length (TFSETVNUMBUF n)"
  by (auto simp: TFSETVNUMBUF_def vnum_groups_eq)

lemma length_TFSETVNUMBUF:
  assumes "0 \<le> n" "n \<le> 2147483647"
  shows "length (TFSETVNUMBUF n) = TFCALCVNUMSIZE n"
proof (cases "n = 0")
  case True
  then show ?thesis by (simp add: TFSETVNUMBUF_def TFCALCVNUMSIZE_def)
next
  case False
  have "length (vnum_groups n) = k" if "128 ^ (k - 1) \<le> n" "n < 128 ^ k" "1 \<le> k" for k
    using vnum_groups_length [of n k] vnum_groups_length_ge [of "k - 1" n] that False assms by auto
  from this [of 1] this [of 2] this [of 3] this [of 4] this [of 5] show ?thesis
    using False assms by (auto simp: TFSETVNUMBUF_def TFCALCVNUMSIZE_def)
qed

end
