(* ===== verification/TF_List_Serial.thy ===== *)
theory TF_List_Serial
  imports TF_List TF_Vnum
begin

text \<open>
  Serialisation of a list (\<open>tf_list_dump\<close>, \<open>tf_list_load\<close> in \<^verbatim>\<open>src/tflib/tf_list.c\<close>):
  each element is its size as a variable-length number followed by its bytes.  The buffer
  of the dump is sized with four bytes per number, which is one byte short for elements of
  \<open>2 ^ 28\<close> bytes and more; the bound is a hypothesis of the lemmas and the short case a
  theorem of its own.
\<close>

section \<open>Dump\<close>

fun dump_size :: "tf_node option list \<Rightarrow> nat \<Rightarrow> nat \<Rightarrow> nat \<Rightarrow> c_error + nat" where
  "dump_size array i 0 tsiz = Inr tsiz"
| "dump_size array i (Suc k) tsiz =
     rbind (rdi array i) (\<lambda>n.
     rbind (chk_int (tsiz + (n_size n + 4))) (\<lambda>t. dump_size array (Suc i) k t))"

fun dump_write ::
    "tf_node option list \<Rightarrow> nat \<Rightarrow> nat \<Rightarrow> region \<Rightarrow> nat \<Rightarrow> c_error + region \<times> nat" where
  "dump_write array i 0 buf wp = Inr (buf, wp)"
| "dump_write array i (Suc k) buf wp =
     rbind (rdi array i) (\<lambda>n.
     let vs = TFSETVNUMBUF (int (n_size n)) in
     rbind (blit buf wp (map Some vs)) (\<lambda>buf1.
     let wp1 = wp + length vs in
     rbind (slice (n_ptr n) 0 (n_size n)) (\<lambda>r.
     rbind (blit buf1 wp1 r) (\<lambda>buf2.
     dump_write array (Suc i) k buf2 (wp1 + n_size n)))))"

text \<open>The result is the buffer and the number of bytes written (\<open>*sp = wp - buf\<close>).\<close>

definition tf_list_dump :: "tf_list \<Rightarrow> c_error + region \<times> nat" where
  "tf_list_dump l =
     rbind (dump_size (l_array l) (l_start l) (l_num l) 0) (\<lambda>tsiz.
     rbind (chk_int (tsiz + 1)) (\<lambda>len.
     dump_write (l_array l) (l_start l) (l_num l) (replicate len None) 0))"

section \<open>Load\<close>

definition load_reserve ::
    "tf_node option list \<Rightarrow> nat \<Rightarrow> nat \<Rightarrow> c_error + tf_node option list \<times> nat" where
  "load_reserve array anum k =
     (if k \<ge> anum then rbind (chk_int (anum * 2)) (\<lambda>a. Inr (resize array a, a))
      else Inr (array, anum))"

lemma vnum_read_step: "vnum_read bs v base i = Inr (n, st) \<Longrightarrow> i < st"
proof (induction bs v base i rule: vnum_read.induct)
  case (2 b bs v base i)
  then show ?case by (fastforce simp: rbind_eq_Inr split: if_splits)
qed simp

function load_loop ::
    "byte list \<Rightarrow> nat \<Rightarrow> nat \<Rightarrow> tf_node option list \<Rightarrow> nat \<Rightarrow> nat
      \<Rightarrow> c_error + tf_node option list \<times> nat \<times> nat" where
  "load_loop ptr sz rp array anum k =
     (if rp < sz
      then rbind (TFREADVNUMBUF (drop rp ptr)) (\<lambda>vs.
        let vsiz = nat (fst vs); rp1 = rp + snd vs in
        rbind (load_reserve array anum k) (\<lambda>aa.
        rbind (new_region (drop rp1 ptr) vsiz) (\<lambda>r.
        rbind (wr (fst aa) k (Some \<lparr>n_ptr = r, n_size = vsiz\<rparr>)) (\<lambda>array1.
        load_loop ptr sz (rp1 + vsiz) array1 (snd aa) (k + 1)))))
      else Inr (array, anum, k))"
  by pat_completeness auto
termination
  by (relation "measure (\<lambda>(ptr, sz, rp, array, anum, k). sz - rp)")
    (auto simp: TFREADVNUMBUF_def dest: vnum_read_step)

declare load_loop.simps [simp del]

definition tf_list_load :: "byte list \<Rightarrow> int \<Rightarrow> c_error + tf_list" where
  "tf_list_load ptr sz =
     (if sz < 0 then Inl Assert_Fail
      else let anum = nat sz div 4 + 1 in
        rbind (load_loop ptr (nat sz) 0 (replicate anum None) anum 0) (\<lambda>res.
        Inr \<lparr>l_array = fst res, l_anum = fst (snd res), l_start = 0, l_num = snd (snd res)\<rparr>))"

section \<open>The serialised form\<close>

definition serial_elem :: "byte list \<Rightarrow> byte list" where
  "serial_elem bs = TFSETVNUMBUF (int (length bs)) @ bs"

definition serial :: "byte list list \<Rightarrow> byte list" where
  "serial bss = concat (map serial_elem bss)"

lemma serial_simps [simp]:
  "serial [] = []" "serial (b # bss) = serial_elem b @ serial bss"
  by (simp_all add: serial_def)

definition serial_bound :: "byte list list \<Rightarrow> nat" where
  "serial_bound bss = sum_list (map (\<lambda>b. length b + 4) bss)"

lemma serial_bound_simps [simp]:
  "serial_bound [] = 0" "serial_bound (b # bss) = length b + 4 + serial_bound bss"
  by (simp_all add: serial_bound_def)

lemma length_serial_elem: "length b < 0x10000000 \<Longrightarrow> length (serial_elem b) \<le> length b + 4"
  by (simp add: serial_elem_def length_TFSETVNUMBUF TFCALCVNUMSIZE_def)

lemma length_serial:
  "list_all (\<lambda>b. length b < 0x10000000) bss \<Longrightarrow> length (serial bss) \<le> serial_bound bss"
proof (induction bss)
  case (Cons b bss)
  then show ?case using length_serial_elem [of b] by simp
qed simp

lemma length_serial_ge: "length bss \<le> length (serial bss)"
proof (induction bss)
  case (Cons b bss)
  then show ?case
    using length_pos_TFSETVNUMBUF [of "int (length b)"]
    by (simp add: serial_elem_def Suc_le_eq del: length_greater_0_conv)
qed simp

lemma dump_size_ok:
  "list_all node_ok ns \<Longrightarrow> array = pre @ map Some ns @ post \<Longrightarrow>
     t + serial_bound (map node_bytes ns) \<le> int_max \<Longrightarrow>
     dump_size array (length pre) (length ns) t = Inr (t + serial_bound (map node_bytes ns))"
proof (induction ns arbitrary: pre t)
  case (Cons n ns)
  have n: "length (node_bytes n) = n_size n" using Cons.prems(1) by (simp add: length_node_bytes)
  have "rdi array (length pre) = Inr n"
    using Cons.prems(2) by (intro rdi_ok) (auto simp: nth_append)
  moreover have "dump_size array (length (pre @ [Some n])) (length ns) (t + (n_size n + 4)) =
      Inr (t + (n_size n + 4) + serial_bound (map node_bytes ns))"
    using Cons.prems n by (intro Cons.IH) auto
  ultimately show ?case using Cons.prems(3) n by simp
qed simp

lemma dump_write_ok:
  "list_all node_ok ns \<Longrightarrow> array = pre @ map Some ns @ post \<Longrightarrow> wp = length pfx \<Longrightarrow>
     buf = pfx @ rest \<Longrightarrow> length (serial (map node_bytes ns)) \<le> length rest \<Longrightarrow>
     dump_write array (length pre) (length ns) buf wp =
       Inr (pfx @ map Some (serial (map node_bytes ns)) @ drop (length (serial (map node_bytes ns))) rest,
            wp + length (serial (map node_bytes ns)))"
proof (induction ns arbitrary: pre buf wp pfx rest)
  case Nil
  then show ?case by simp
next
  case (Cons n ns)
  let ?vs = "TFSETVNUMBUF (int (n_size n))" and ?b = "node_bytes n"
  let ?S = "serial (map node_bytes ns)"
  have n: "node_ok n" "length ?b = n_size n" using Cons.prems(1) by (simp_all add: length_node_bytes)
  have rd: "rdi array (length pre) = Inr n"
    using Cons.prems(2) by (intro rdi_ok) (auto simp: nth_append)
  have len: "length ?vs + (n_size n + length ?S) \<le> length rest"
    using Cons.prems(5) n by (simp add: serial_elem_def)
  let ?rest1 = "drop (length ?vs) rest" and ?rest2 = "drop (n_size n) (drop (length ?vs) rest)"
  let ?pfx2 = "pfx @ map Some ?vs @ map Some ?b"
  have 1: "blit buf wp (map Some ?vs) = Inr (pfx @ map Some ?vs @ ?rest1)"
    using Cons.prems(3,4) len by simp
  have 2: "slice (n_ptr n) 0 (n_size n) = Inr (map Some ?b)"
  proof -
    have "take (n_size n) (take (Suc (n_size n)) (n_ptr n)) = take (n_size n) (map Some (?b @ [0]))"
      using n(1) by (simp add: node_ok_def)
    then have "take (n_size n) (n_ptr n) = map Some ?b" using n(2) by (simp add: min_def)
    then show ?thesis using node_ok_length [OF n(1)] by simp
  qed
  have 3: "blit (pfx @ map Some ?vs @ ?rest1) (wp + length ?vs) (map Some ?b)
      = Inr (?pfx2 @ ?rest2)"
    using Cons.prems(3) len n by simp
  have "dump_write array (length (pre @ [Some n])) (length ns) (?pfx2 @ ?rest2)
      (wp + length ?vs + n_size n) =
      Inr (?pfx2 @ map Some ?S @ drop (length ?S) ?rest2, wp + length ?vs + n_size n + length ?S)"
    using Cons.prems n len by (intro Cons.IH) auto
  then show ?case
    using rd 1 2 3 n by (simp add: Let_def serial_elem_def ac_simps del: blit_ok slice_ok)
qed

lemma dump_ok:
  assumes "tf_list_wf l" "list_all (\<lambda>b. length b < 0x10000000) (tf_list_elems l)"
    and "serial_bound (tf_list_elems l) < int_max"
  shows "\<exists>buf. tf_list_dump l = Inr (buf, length (serial (tf_list_elems l))) \<and>
     take (length (serial (tf_list_elems l))) buf = map Some (serial (tf_list_elems l))"
proof -
  obtain pre ns post where s: "l_array l = pre @ map Some ns @ post" "length pre = l_start l"
    "length ns = l_num l" "list_all node_ok ns" "tf_list_elems l = map node_bytes ns"
    using assms(1) by (rule wf_split)
  let ?bss = "map node_bytes ns"
  have "dump_size (l_array l) (l_start l) (l_num l) 0 = Inr (serial_bound ?bss)"
    using dump_size_ok [OF s(4,1), of 0] assms(3) s by simp
  moreover have "dump_write (l_array l) (l_start l) (l_num l)
      (replicate (serial_bound ?bss + 1) None) 0 =
      Inr (map Some (serial ?bss) @ drop (length (serial ?bss)) (replicate (serial_bound ?bss + 1) None),
           length (serial ?bss))"
    using dump_write_ok [OF s(4,1), of 0 "[]" _ "replicate (serial_bound ?bss + 1) None"]
      length_serial [of ?bss] assms(2) s by simp
  ultimately show ?thesis
    using assms(3) s by (simp add: tf_list_dump_def)
qed

section \<open>Loading what was dumped\<close>

text \<open>
  The loop invariant: the nodes read so far fill the first slots of the array, the array
  has \<open>anum\<close> slots, and \<open>anum\<close> stays below twice the number of nodes to come.
\<close>

lemma load_reserve_ok:
  assumes "length array = anum" "array = map Some ns @ free" "k = length ns" "0 < anum"
    and "anum \<le> m" "2 * (k + 1) \<le> m" "m \<le> int_max"
  shows "\<exists>x free' anum'. load_reserve array anum k = Inr (map Some ns @ x # free', anum') \<and>
     anum' = length (map Some ns @ x # free') \<and> anum' \<le> m"
proof (cases "k \<ge> anum")
  case True
  then have k: "k = anum" "free = []" using assms(1-3) by auto
  then obtain j where j: "anum = Suc j" using assms(4) by (cases anum) auto
  have "resize array (anum * 2) = map Some ns @ replicate anum None"
    using assms(1,2) k by (simp add: resize_grow)
  then show ?thesis using k j assms by (auto simp: load_reserve_def)
next
  case False
  then show ?thesis using assms by (cases free) (auto simp: load_reserve_def)
qed

lemma load_loop_ok:
  "sz = rp + length (serial bss) \<Longrightarrow> drop rp ptr = serial bss @ rest \<Longrightarrow>
   list_all node_ok ns \<Longrightarrow> array = map Some ns @ free \<Longrightarrow> k = length ns \<Longrightarrow>
   length array = anum \<Longrightarrow> 0 < anum \<Longrightarrow> anum \<le> m \<Longrightarrow> 2 * (k + length bss) \<le> m \<Longrightarrow>
   m \<le> int_max \<Longrightarrow> list_all (\<lambda>b. length b < int_max) bss \<Longrightarrow>
     \<exists>ms free' anum'. load_loop ptr sz rp array anum k
         = Inr (map Some (ns @ ms) @ free', anum', length (ns @ ms)) \<and>
       list_all node_ok (ns @ ms) \<and> map node_bytes ms = bss \<and>
       anum' = length (map Some (ns @ ms) @ free') \<and> 0 < anum' \<and> anum' \<le> m"
proof (induction bss arbitrary: rp ns array anum k free)
  case Nil
  then show ?case
    by (intro exI [of _ "[]"] exI [of _ free] exI [of _ anum]) (simp add: load_loop.simps [of _ _ rp])
next
  case (Cons b bss)
  let ?vs = "TFSETVNUMBUF (int (length b))"
  have vs: "0 < length ?vs" by (rule length_pos_TFSETVNUMBUF) simp
  have lb: "length b < int_max" using Cons.prems by simp
  have lt: "rp < sz" using Cons.prems(1) vs by (simp add: serial_elem_def)
  have d: "drop rp ptr = ?vs @ b @ serial bss @ rest"
    using Cons.prems(2) by (simp add: serial_elem_def)
  have rd: "TFREADVNUMBUF (drop rp ptr) = Inr (int (length b), length ?vs)"
    using vnum_roundtrip [of "int (length b)"] lb by (simp add: d int_max_def)
  have d1: "drop (rp + length ?vs) ptr = b @ serial bss @ rest"
    using arg_cong [OF d, of "drop (length ?vs)"] by (simp add: add.commute)
  have reg: "new_region (drop (rp + length ?vs) ptr) (length b) = Inr (map Some (b @ [0]))"
    using new_region_ok [OF lb, of "drop (rp + length ?vs) ptr"] d1 by simp
  obtain x free' anum' where a: "load_reserve array anum k = Inr (map Some ns @ x # free', anum')"
    "anum' = length (map Some ns @ x # free')" "anum' \<le> m"
    using load_reserve_ok [of array anum ns free k m] Cons.prems by auto
  let ?n = "\<lparr>n_ptr = map Some (b @ [0]), n_size = length b\<rparr>"
  have n: "node_ok ?n \<and> node_bytes ?n = b"
    using lb by (intro node_okI [where rest = "[]"]) auto
  have w: "wr (map Some ns @ x # free') k (Some ?n) = Inr (map Some (ns @ [?n]) @ free')"
    using Cons.prems(5) wr_middle [of k "[]" "map Some ns" x free'] by (simp del: wr_ok)
  have step: "load_loop ptr sz rp array anum k =
      load_loop ptr sz (rp + length ?vs + length b) (map Some (ns @ [?n]) @ free') anum' (k + 1)"
    using lt rd a reg w by (simp add: load_loop.simps [of _ _ rp] Let_def del: wr_ok)
  have d2: "drop (rp + length ?vs + length b) ptr = serial bss @ rest"
    using arg_cong [OF d1, of "drop (length b)"] by (simp add: ac_simps)
  obtain ms free2 anum2 where
    "load_loop ptr sz (rp + length ?vs + length b) (map Some (ns @ [?n]) @ free') anum' (k + 1)
      = Inr (map Some ((ns @ [?n]) @ ms) @ free2, anum2, length ((ns @ [?n]) @ ms))"
    "list_all node_ok ((ns @ [?n]) @ ms)" "map node_bytes ms = bss"
    "anum2 = length (map Some ((ns @ [?n]) @ ms) @ free2)" "0 < anum2" "anum2 \<le> m"
    using Cons.IH [of "rp + length ?vs + length b" "ns @ [?n]" "map Some (ns @ [?n]) @ free'" free'
        "k + 1" anum'] Cons.prems n a d2
    by (auto simp: serial_elem_def)
  then show ?case
    using step n by (intro exI [of _ "?n # ms"] exI [of _ free2] exI [of _ anum2]) simp
qed

lemma load_ok:
  assumes "list_all (\<lambda>b. length b < int_max) bss" "2 * length (serial bss) + 1 \<le> int_max"
  shows "\<exists>l. tf_list_load (serial bss @ rest) (int (length (serial bss))) = Inr l \<and>
     tf_list_wf l \<and> tf_list_elems l = bss"
proof -
  let ?S = "serial bss"
  let ?a = "length ?S div 4 + 1" and ?m = "2 * length ?S + 1"
  have "?a \<le> ?m" using div_le_dividend [of "length ?S" 4] by linarith
  then obtain ms free anum where r:
    "load_loop (?S @ rest) (length ?S) 0 (replicate ?a None) ?a 0
      = Inr (map Some ms @ free, anum, length ms)"
    "list_all node_ok ms" "map node_bytes ms = bss"
    "anum = length (map Some ms @ free)" "0 < anum" "anum \<le> ?m"
    using load_loop_ok [of "length ?S" 0 bss "?S @ rest" rest "[]" "replicate ?a None"
        "replicate ?a None" 0 ?a ?m] assms length_serial_ge [of bss]
    by auto
  let ?l = "\<lparr>l_array = map Some ms @ free, l_anum = anum, l_start = 0, l_num = length ms\<rparr>"
  have "tf_list_wf ?l \<and> tf_list_elems ?l = map node_bytes ms"
    using r assms(2) by (intro wf_intro [of _ "[]" _ free]) auto
  then show ?thesis using r by (simp add: tf_list_load_def)
qed

end
