(* ===== verification/TF_List_Spec.thy ===== *)
theory TF_List_Spec
  imports TF_List_Order TF_List_Serial
begin

text \<open>
  The contract of the array list.  \<open>appendable\<close> is the interface through which the rest of
  the library fills lists (string splitting, line reading, configuration groups); it is
  interpreted on both push operations.  \<open>list_step\<close> and \<open>abs_step\<close> run any operation on the
  array representation and on plain lists of byte strings: the first refines the second.
\<close>

section \<open>Filling a list\<close>

locale appendable =
  fixes inv :: "'l \<Rightarrow> nat \<Rightarrow> bool"
    and elems :: "'l \<Rightarrow> byte list list"
    and push :: "'l \<Rightarrow> byte list \<Rightarrow> c_error + 'l"
  assumes push_ok:
    "inv l (Suc k) \<Longrightarrow> length e < int_max \<Longrightarrow>
      \<exists>l'. push l e = Inr l' \<and> inv l' k \<and> elems l' = elems l @ [e]"
begin

lemma push_all_ok:
  "inv l (length es + k) \<Longrightarrow> list_all (\<lambda>e. length e < int_max) es \<Longrightarrow>
     \<exists>l'. push_all push l es = Inr l' \<and> inv l' k \<and> elems l' = elems l @ es"
proof (induction es arbitrary: l)
  case Nil
  then show ?case by simp
next
  case (Cons e es)
  then obtain l1 where l1: "push l e = Inr l1" "inv l1 (length es + k)" "elems l1 = elems l @ [e]"
    using push_ok [of l "length es + k" e] by auto
  then obtain l2 where "push_all push l1 es = Inr l2" "inv l2 k" "elems l2 = elems l1 @ es"
    using Cons.IH [of l1] Cons.prems by auto
  then show ?case using l1 by auto
qed

end

definition list_inv :: "tf_list \<Rightarrow> nat \<Rightarrow> bool" where
  "list_inv l k \<longleftrightarrow> tf_list_wf l \<and> tf_list_room l k"

definition push_bytes :: "tf_list \<Rightarrow> byte list \<Rightarrow> c_error + tf_list" where
  "push_bytes l e = tf_list_push l e (int (length e))"

interpretation by_region: appendable list_inv tf_list_elems push_bytes
proof
  fix l k and e :: "byte list"
  assume "list_inv l (Suc k)" "length e < int_max"
  then show "\<exists>l'. push_bytes l e = Inr l' \<and> list_inv l' k \<and> tf_list_elems l' = tf_list_elems l @ [e]"
    using push_ok [of l k "length e" e] by (auto simp: list_inv_def push_bytes_def)
qed

interpretation by_string: appendable list_inv tf_list_elems tf_list_push2
proof
  fix l k and e :: "byte list"
  assume "list_inv l (Suc k)" "length e < int_max"
  then show "\<exists>l'. tf_list_push2 l e = Inr l' \<and> list_inv l' k \<and> tf_list_elems l' = tf_list_elems l @ [e]"
    using push2_ok [of l k e] by (auto simp: list_inv_def)
qed

lemma list_inv_new: "2 * k \<le> int_max \<Longrightarrow> list_inv tf_list_new k"
  using new_ok [of k] by (simp add: list_inv_def)

lemma list_of:
  assumes "2 * length es \<le> int_max" "list_all (\<lambda>e. length e < int_max) es"
  obtains l where "list_inv l 0" "tf_list_wf l" "tf_list_elems l = es"
  using by_region.push_all_ok [of tf_list_new es 0] list_inv_new [OF assms(1)] assms(2) new_ok [of 0]
  by (auto simp: list_inv_def)

section \<open>All operations\<close>

datatype list_op =
    Push "byte list" | Push2 cstr
  | Insert int "byte list" | Insert2 int cstr
  | Remove int | Remove2 int | Pop | Pop2
  | Over int "byte list" | Over2 int cstr
  | Sort | Clear | Val int | Search "byte list"

text \<open>The result of an operation: a region with or without its size, or a number.\<close>

datatype list_out = NoOut | Region "region option" | Sized "(region \<times> nat) option" | Number int

fun list_step :: "tf_list \<Rightarrow> list_op \<Rightarrow> c_error + tf_list \<times> list_out" where
  "list_step l (Push e) = rbind (tf_list_push l e (int (length e))) (\<lambda>l'. Inr (l', NoOut))"
| "list_step l (Push2 e) = rbind (tf_list_push2 l e) (\<lambda>l'. Inr (l', NoOut))"
| "list_step l (Insert i e) =
     rbind (tf_list_insert l i e (int (length e))) (\<lambda>l'. Inr (l', NoOut))"
| "list_step l (Insert2 i e) = rbind (tf_list_insert2 l i e) (\<lambda>l'. Inr (l', NoOut))"
| "list_step l (Remove i) = rbind (tf_list_remove l i) (\<lambda>(l', r). Inr (l', Sized r))"
| "list_step l (Remove2 i) = rbind (tf_list_remove2 l i) (\<lambda>(l', r). Inr (l', Region r))"
| "list_step l Pop = rbind (tf_list_pop l) (\<lambda>(l', r). Inr (l', Sized r))"
| "list_step l Pop2 = rbind (tf_list_pop2 l) (\<lambda>(l', r). Inr (l', Region r))"
| "list_step l (Over i e) = rbind (tf_list_over l i e (int (length e))) (\<lambda>l'. Inr (l', NoOut))"
| "list_step l (Over2 i e) = rbind (tf_list_over2 l i e) (\<lambda>l'. Inr (l', NoOut))"
| "list_step l Sort = rbind (tf_list_sort l) (\<lambda>l'. Inr (l', NoOut))"
| "list_step l Clear = Inr (tf_list_clear l, NoOut)"
| "list_step l (Val i) = rbind (tf_list_val l i) (\<lambda>r. Inr (l, Sized r))"
| "list_step l (Search e) =
     rbind (tf_listl_search l e (int (length e))) (\<lambda>r. Inr (l, Number r))"

datatype abs_out = ANone | AElem "byte list option" | ANumber int

definition abs_elem :: "byte list list \<Rightarrow> int \<Rightarrow> byte list option" where
  "abs_elem xs i = (if i < int (length xs) then Some (xs ! nat i) else None)"

fun abs_step :: "byte list list \<Rightarrow> list_op \<Rightarrow> byte list list \<times> abs_out" where
  "abs_step xs (Push e) = (xs @ [e], ANone)"
| "abs_step xs (Push2 e) = (xs @ [e], ANone)"
| "abs_step xs (Insert i e) =
     (if i \<le> int (length xs) then take (nat i) xs @ e # drop (nat i) xs else xs, ANone)"
| "abs_step xs (Insert2 i e) =
     (if i \<le> int (length xs) then take (nat i) xs @ e # drop (nat i) xs else xs, ANone)"
| "abs_step xs (Remove i) =
     (if i < int (length xs) then take (nat i) xs @ drop (Suc (nat i)) xs else xs,
      AElem (abs_elem xs i))"
| "abs_step xs (Remove2 i) =
     (if i < int (length xs) then take (nat i) xs @ drop (Suc (nat i)) xs else xs,
      AElem (abs_elem xs i))"
| "abs_step xs Pop = (butlast xs, AElem (if xs = [] then None else Some (last xs)))"
| "abs_step xs Pop2 = (butlast xs, AElem (if xs = [] then None else Some (last xs)))"
| "abs_step xs (Over i e) = (if i < int (length xs) then xs[nat i := e] else xs, ANone)"
| "abs_step xs (Over2 i e) = (if i < int (length xs) then xs[nat i := e] else xs, ANone)"
| "abs_step xs Sort = (sort xs, ANone)"
| "abs_step xs Clear = ([], ANone)"
| "abs_step xs (Val i) = (xs, AElem (abs_elem xs i))"
| "abs_step xs (Search e) = (xs, ANumber (first_index xs e))"

text \<open>What the C result must be for an abstract result: the right bytes, zero-terminated.\<close>

fun out_rel :: "list_out \<Rightarrow> abs_out \<Rightarrow> bool" where
  "out_rel NoOut ANone \<longleftrightarrow> True"
| "out_rel (Region None) (AElem None) \<longleftrightarrow> True"
| "out_rel (Region (Some r)) (AElem (Some e)) \<longleftrightarrow> holds_str r e"
| "out_rel (Sized None) (AElem None) \<longleftrightarrow> True"
| "out_rel (Sized (Some (r, n))) (AElem (Some e)) \<longleftrightarrow> holds_str r e \<and> n = length e"
| "out_rel (Number i) (ANumber j) \<longleftrightarrow> i = j"
| "out_rel _ _ \<longleftrightarrow> False"

text \<open>The caller's side: indices are not negative, sizes fit an \<open>int\<close>.\<close>

fun op_ok :: "list_op \<Rightarrow> bool" where
  "op_ok (Push e) \<longleftrightarrow> length e < int_max"
| "op_ok (Push2 e) \<longleftrightarrow> length e < int_max"
| "op_ok (Insert i e) \<longleftrightarrow> 0 \<le> i \<and> length e < int_max"
| "op_ok (Insert2 i e) \<longleftrightarrow> 0 \<le> i \<and> length e < int_max"
| "op_ok (Remove i) \<longleftrightarrow> 0 \<le> i"
| "op_ok (Remove2 i) \<longleftrightarrow> 0 \<le> i"
| "op_ok (Over i e) \<longleftrightarrow> 0 \<le> i \<and> length e < int_max"
| "op_ok (Over2 i e) \<longleftrightarrow> 0 \<le> i \<and> length e < int_max"
| "op_ok (Val i) \<longleftrightarrow> 0 \<le> i"
| "op_ok _ \<longleftrightarrow> True"

section \<open>One step\<close>

lemma elems_len: "tf_list_wf l \<Longrightarrow> length (tf_list_elems l) = l_num l"
  using num_ok [of l] by (simp add: tf_list_num_def)

lemma room_mono: "tf_list_room l (Suc k) \<Longrightarrow> tf_list_room l k"
  by (simp add: tf_list_room_def)

lemma clear_room: "tf_list_room l k \<Longrightarrow> tf_list_room (tf_list_clear l) k"
  by (simp add: tf_list_room_def tf_list_clear_def)

text \<open>What it means for one operation to refine its abstract counterpart.\<close>

definition step_ok :: "tf_list \<Rightarrow> nat \<Rightarrow> list_op \<Rightarrow> bool" where
  "step_ok l k op \<longleftrightarrow>
     (\<exists>l' out. list_step l op = Inr (l', out) \<and> tf_list_wf l' \<and> tf_list_room l' k \<and>
       tf_list_elems l' = fst (abs_step (tf_list_elems l) op) \<and>
       out_rel out (snd (abs_step (tf_list_elems l) op)))"

lemma step_push:
  assumes "tf_list_wf l" "tf_list_room l (Suc k)" "length e < int_max"
  shows "step_ok l k (Push e)" "step_ok l k (Push2 e)"
  using push_ok [OF assms(1,2), of "length e" e] push2_ok [OF assms(1,2), of e] assms(3)
  by (auto simp: step_ok_def)

lemma step_insert:
  assumes "tf_list_wf l" "tf_list_room l (Suc k)" "0 \<le> i" "length e < int_max"
  shows "step_ok l k (Insert i e)" "step_ok l k (Insert2 i e)"
proof -
  have "step_ok l k (Insert i e) \<and> step_ok l k (Insert2 i e)"
  proof (cases "nat i \<le> l_num l")
    case True
    then show ?thesis
      using insert_ok [OF assms(1,2), of "length e" e "nat i"]
        insert2_ok [OF assms(1,2), of e "nat i"] assms elems_len [OF assms(1)]
      by (auto simp: step_ok_def)
  next
    case False
    then show ?thesis
      using assms elems_len [OF assms(1)] room_mono [OF assms(2)]
      by (auto simp: step_ok_def tf_list_insert_def tf_list_insert2_def)
  qed
  then show "step_ok l k (Insert i e)" "step_ok l k (Insert2 i e)" by simp_all
qed

lemma step_remove:
  assumes "tf_list_wf l" "tf_list_room l (Suc k)" "0 \<le> i"
  shows "step_ok l k (Remove i)" "step_ok l k (Remove2 i)"
proof -
  have "step_ok l k (Remove i) \<and> step_ok l k (Remove2 i)"
  proof (cases "nat i < l_num l")
    case True
    then show ?thesis
      using remove_ok [OF assms(1), of "nat i"] assms(3) elems_len [OF assms(1)]
        room_mono [OF assms(2)] by (fastforce simp: step_ok_def abs_elem_def dest: room_mono)
  next
    case False
    then show ?thesis
      using assms elems_len [OF assms(1)] room_mono [OF assms(2)]
      by (auto simp: step_ok_def tf_list_remove_def tf_list_remove2_def abs_elem_def)
  qed
  then show "step_ok l k (Remove i)" "step_ok l k (Remove2 i)" by simp_all
qed

lemma step_pop:
  assumes "tf_list_wf l" "tf_list_room l (Suc k)"
  shows "step_ok l k Pop" "step_ok l k Pop2"
proof -
  have "step_ok l k Pop \<and> step_ok l k Pop2"
  proof (cases "0 < l_num l")
    case True
    then show ?thesis
      using pop_ok [OF assms(1)] elems_len [OF assms(1)] room_mono [OF assms(2)]
      by (fastforce simp: step_ok_def dest: room_mono)
  next
    case False
    then show ?thesis
      using assms elems_len [OF assms(1)] room_mono [OF assms(2)]
      by (auto simp: step_ok_def tf_list_pop_def tf_list_pop2_def)
  qed
  then show "step_ok l k Pop" "step_ok l k Pop2" by simp_all
qed

lemma step_over:
  assumes "tf_list_wf l" "tf_list_room l (Suc k)" "0 \<le> i" "length e < int_max"
  shows "step_ok l k (Over i e)" "step_ok l k (Over2 i e)"
proof -
  have "step_ok l k (Over i e) \<and> step_ok l k (Over2 i e)"
  proof (cases "nat i < l_num l")
    case True
    then show ?thesis
      using over_ok [OF assms(1), of "nat i" "length e" e] over2_ok [OF assms(1), of "nat i" e]
        assms(3,4) elems_len [OF assms(1)] room_mono [OF assms(2)]
      by (fastforce simp: step_ok_def)
  next
    case False
    then show ?thesis
      using assms elems_len [OF assms(1)] room_mono [OF assms(2)]
      by (auto simp: step_ok_def tf_list_over_def tf_list_over2_def)
  qed
  then show "step_ok l k (Over i e)" "step_ok l k (Over2 i e)" by simp_all
qed

lemma step_sort_clear:
  assumes "tf_list_wf l" "tf_list_room l (Suc k)"
  shows "step_ok l k Sort" "step_ok l k Clear"
proof -
  show "step_ok l k Sort"
    using sort_ok [OF assms(1)] room_mono [OF assms(2)]
    by (fastforce simp: step_ok_def intro: properties_for_sort [symmetric])
  show "step_ok l k Clear"
    using clear_ok [OF assms(1)] clear_room [OF room_mono [OF assms(2)]] by (simp add: step_ok_def)
qed

lemma step_read:
  assumes "tf_list_wf l" "tf_list_room l (Suc k)" "0 \<le> i"
  shows "step_ok l k (Val i)" "step_ok l k (Search e)"
proof -
  show "step_ok l k (Val i)"
    using val_ok [OF assms(1), of "nat i"] assms elems_len [OF assms(1)] room_mono [OF assms(2)]
    by (cases "nat i < l_num l") (auto simp: step_ok_def tf_list_val_def abs_elem_def)
  show "step_ok l k (Search e)"
    using search_ok [OF assms(1), of "length e" e] assms room_mono [OF assms(2)]
    by (simp add: step_ok_def)
qed

lemma step_refines: "tf_list_wf l \<Longrightarrow> tf_list_room l (Suc k) \<Longrightarrow> op_ok op \<Longrightarrow> step_ok l k op"
  by (cases op) (simp_all add: step_push step_insert step_remove step_pop step_over
      step_sort_clear step_read [where i = 0] step_read(1))

section \<open>Any sequence of operations\<close>

fun list_run :: "tf_list \<Rightarrow> list_op list \<Rightarrow> c_error + tf_list \<times> list_out list" where
  "list_run l [] = Inr (l, [])"
| "list_run l (op # ops) =
     rbind (list_step l op) (\<lambda>(l1, out).
     rbind (list_run l1 ops) (\<lambda>(l2, outs). Inr (l2, out # outs)))"

fun abs_run :: "byte list list \<Rightarrow> list_op list \<Rightarrow> byte list list \<times> abs_out list" where
  "abs_run xs [] = (xs, [])"
| "abs_run xs (op # ops) =
     (let (xs1, out) = abs_step xs op; (xs2, outs) = abs_run xs1 ops in (xs2, out # outs))"

lemma run_refines:
  "tf_list_wf l \<Longrightarrow> tf_list_room l (length ops) \<Longrightarrow> list_all op_ok ops \<Longrightarrow>
     \<exists>l' outs. list_run l ops = Inr (l', outs) \<and> tf_list_wf l' \<and>
       tf_list_elems l' = fst (abs_run (tf_list_elems l) ops) \<and>
       list_all2 out_rel outs (snd (abs_run (tf_list_elems l) ops))"
proof (induction ops arbitrary: l)
  case Nil
  then show ?case by simp
next
  case (Cons op ops)
  then obtain l1 out where s: "list_step l op = Inr (l1, out)" "tf_list_wf l1"
    "tf_list_room l1 (length ops)" "tf_list_elems l1 = fst (abs_step (tf_list_elems l) op)"
    "out_rel out (snd (abs_step (tf_list_elems l) op))"
    using step_refines [of l "length ops" op] by (auto simp: step_ok_def)
  obtain l2 outs where "list_run l1 ops = Inr (l2, outs)" "tf_list_wf l2"
    "tf_list_elems l2 = fst (abs_run (tf_list_elems l1) ops)"
    "list_all2 out_rel outs (snd (abs_run (tf_list_elems l1) ops))"
    using Cons.IH [of l1] s Cons.prems by auto
  then show ?case using s by (auto simp: split_beta Let_def)
qed

section \<open>Properties\<close>

text \<open>
  The lists as tf_list.h describes them: an insert at an index equal to or more than the number of elements has no
  effect.  The code appends the element when the index is the number of elements; that is the one difference.
\<close>

fun inserts_at :: "int \<Rightarrow> list_op \<Rightarrow> bool" where
  "inserts_at n (Insert i e) \<longleftrightarrow> i = n"
| "inserts_at n (Insert2 i e) \<longleftrightarrow> i = n"
| "inserts_at n _ \<longleftrightarrow> False"

definition doc_step :: "byte list list \<Rightarrow> list_op \<Rightarrow> byte list list \<times> abs_out" where
  "doc_step xs op = (if inserts_at (int (length xs)) op then (xs, ANone) else abs_step xs op)"

fun doc_run :: "byte list list \<Rightarrow> list_op list \<Rightarrow> byte list list \<times> abs_out list" where
  "doc_run xs [] = (xs, [])"
| "doc_run xs (op # ops) =
     (let (xs1, out) = doc_step xs op; (xs2, outs) = doc_run xs1 ops in (xs2, out # outs))"

fun inserts_inside :: "byte list list \<Rightarrow> list_op list \<Rightarrow> bool" where
  "inserts_inside xs [] \<longleftrightarrow> True"
| "inserts_inside xs (op # ops) \<longleftrightarrow>
     \<not> inserts_at (int (length xs)) op \<and> inserts_inside (fst (doc_step xs op)) ops"

lemma run_documented: "inserts_inside xs ops \<Longrightarrow> abs_run xs ops = doc_run xs ops"
  by (induction ops arbitrary: xs) (auto simp: doc_step_def split: prod.splits)

lemma step_at_end: "inserts_at (int (length xs)) op \<Longrightarrow> \<exists>e. abs_step xs op = (xs @ [e], ANone)"
  by (cases op) auto

text \<open>
  C5: Whatever sequence of pushes, inserts, removes, pops, overwrites, sorts, clears, reads
  and searches a program performs on a fresh list, no access leaves the array or a region,
  no signed overflow happens and no assertion fails (as long as the indices are not negative
  and the sizes fit an \<open>int\<close>); the list then holds what the same operations do on a plain list
  of byte strings, and every returned region holds the right bytes with their terminating zero.
  The operations on the plain list are those of tf_list.c.  They are those of tf_list.h as long as no insert has
  the number of elements for its index: tf_list.h says that such an insert has no effect, but it appends.
\<close>

theorem tf_list_refines:
  assumes "2 * length ops \<le> int_max" "list_all op_ok ops"
  shows "(\<exists>l outs. list_run tf_list_new ops = Inr (l, outs) \<and> tf_list_wf l \<and>
     tf_list_elems l = fst (abs_run [] ops) \<and> list_all2 out_rel outs (snd (abs_run [] ops))) \<and>
   (inserts_inside [] ops \<longrightarrow> abs_run [] ops = doc_run [] ops) \<and>
   (\<forall>xs op. inserts_at (int (length xs)) op \<longrightarrow> doc_step xs op = (xs, ANone) \<and> (\<exists>e. abs_step xs op = (xs @ [e], ANone)))"
  using run_refines [of tf_list_new ops] new_ok [of "length ops"] assms run_documented [of "[]" ops] step_at_end
  by (auto simp: doc_step_def)

theorem tf_list_refines_witness:
  "\<exists>l outs. list_run tf_list_new [Push [98], Insert 0 [97, 97], Push2 [99], Over 1 [], Pop] =
      Inr (l, outs) \<and> tf_list_elems l = [[97, 97], []] \<and>
      fst (doc_run [] [Push [98], Insert 0 [97, 97], Push2 [99], Over 1 [], Pop]) = [[97, 97], []]"
  using tf_list_refines [of "[Push [98], Insert 0 [97, 97], Push2 [99], Over 1 [], Pop]"]
  by (auto simp: int_max_def doc_step_def)

text \<open>
  C18: After \<open>tf_list_sort\<close> the elements are the same multiset in ascending lexicographic order,
  and \<open>tf_list_bsearch\<close> returns the index of an element equal to the key if there is one, and
  \<open>-1\<close> otherwise; the binary search finds a key exactly if the linear search finds it.
\<close>

theorem tf_list_sort_bsearch:
  assumes "tf_list_wf l" "sz \<le> length ptr"
  shows "\<exists>l' r q. tf_list_sort l = Inr l' \<and> tf_list_wf l' \<and>
     tf_list_elems l' = sort (tf_list_elems l) \<and>
     tf_list_bsearch l' ptr (int sz) = Inr r \<and> tf_listl_search l' ptr (int sz) = Inr q \<and>
     (if take sz ptr \<in> set (tf_list_elems l)
      then 0 \<le> r \<and> r < int (tf_list_num l') \<and> tf_list_elems l' ! nat r = take sz ptr
      else r = - 1) \<and>
     (r = - 1 \<longleftrightarrow> q = - 1)"
proof -
  obtain l' where s: "tf_list_sort l = Inr l'" "tf_list_wf l'" "sorted (tf_list_elems l')"
    "mset (tf_list_elems l') = mset (tf_list_elems l)"
    using sort_ok [OF assms(1)] by blast
  obtain r where r: "tf_list_bsearch l' ptr (int sz) = Inr r"
    "if take sz ptr \<in> set (tf_list_elems l')
     then 0 \<le> r \<and> r < int (l_num l') \<and> tf_list_elems l' ! nat r = take sz ptr else r = - 1"
    using bsearch_ok [OF s(2,3) assms(2)] by blast
  have "tf_list_elems l' = sort (tf_list_elems l)"
    using s(3,4) by (auto intro: properties_for_sort [symmetric])
  moreover have "set (tf_list_elems l') = set (tf_list_elems l)"
    using s(4) by (rule mset_eq_setD)
  ultimately show ?thesis
    using s(1,2) r search_ok [OF s(2) assms(2)] first_index_none [of "tf_list_elems l'"]
    by (auto simp: tf_list_num_def split: if_splits)
qed

theorem tf_list_sort_bsearch_witness:
  "\<exists>l l' r. tf_list_elems l = [[99], [97]] \<and> tf_list_sort l = Inr l' \<and>
     tf_list_elems l' = [[97], [99]] \<and> tf_list_bsearch l' [97] 1 = Inr r \<and> 0 \<le> r"
proof -
  obtain l where l: "list_inv l 0" "tf_list_elems l = [[99], [97]]"
    by (rule list_of [of "[[99], [97]]"]) (simp_all add: int_max_def)
  then show ?thesis
    using tf_list_sort_bsearch [of l 1 "[97]"] by (auto simp: list_inv_def)
qed

text \<open>
  C17: A list that is dumped and loaded again holds the same elements: the dump stays in its
  buffer, reports the number of bytes written, and loading exactly these bytes, whatever
  follows them in memory, yields a well-formed list with the same content.  The elements are
  shorter than \<open>2 ^ 28\<close> bytes and the totals stay in \<open>int\<close>.
\<close>

theorem tf_list_dump_load:
  assumes "tf_list_wf l" "list_all (\<lambda>b. length b < 0x10000000) (tf_list_elems l)"
    and "2 * serial_bound (tf_list_elems l) + 1 \<le> int_max"
  shows "\<exists>buf n bytes l'. tf_list_dump l = Inr (buf, n) \<and> take n buf = map Some bytes \<and>
     tf_list_load (bytes @ rest) (int n) = Inr l' \<and> tf_list_wf l' \<and>
     tf_list_elems l' = tf_list_elems l"
proof -
  let ?bss = "tf_list_elems l"
  obtain buf where buf: "tf_list_dump l = Inr (buf, length (serial ?bss))"
    "take (length (serial ?bss)) buf = map Some (serial ?bss)"
    using dump_ok [OF assms(1,2)] assms(3) by auto
  have "list_all (\<lambda>b. length b < int_max) ?bss"
    using assms(2) by (auto simp: list_all_iff int_max_def)
  then obtain l' where "tf_list_load (serial ?bss @ rest) (int (length (serial ?bss))) = Inr l'"
    "tf_list_wf l'" "tf_list_elems l' = ?bss"
    using load_ok [of ?bss rest] length_serial [OF assms(2)] assms(3) by auto
  then show ?thesis using buf by blast
qed

theorem tf_list_dump_load_witness:
  "\<exists>l buf n bytes l'. tf_list_elems l = [[1, 2], [], [7]] \<and> tf_list_dump l = Inr (buf, n) \<and>
     tf_list_load bytes (int n) = Inr l' \<and> tf_list_elems l' = [[1, 2], [], [7]]"
proof -
  obtain l where l: "list_inv l 0" "tf_list_elems l = [[1, 2], [], [7]]"
    by (rule list_of [of "[[1, 2], [], [7]]"]) (simp_all add: int_max_def)
  then show ?thesis
    using tf_list_dump_load [of l "[]"] by (fastforce simp: list_inv_def int_max_def)
qed

text \<open>
  \<open>tf_list_insert\<close> at the index that equals the number of elements appends the new
  element (the header says it has no effect); at any larger index it has no effect.
\<close>

lemma tf_list_insert_at_end:
  assumes "tf_list_wf l" "tf_list_room l 1" "length e < int_max"
  shows "\<exists>l'. tf_list_insert l (int (tf_list_num l)) e (int (length e)) = Inr l' \<and>
     tf_list_elems l' = tf_list_elems l @ [e] \<and>
     tf_list_insert l (int (tf_list_num l) + 1) e (int (length e)) = Inr l"
proof -
  have "\<exists>l'. tf_list_insert l (int (l_num l)) e (int (length e)) = Inr l' \<and>
      tf_list_elems l' = tf_list_elems l @ [e]"
    using insert_ok [of l 0 "length e" e "l_num l"] assms elems_len [OF assms(1)] by auto
  moreover have "tf_list_insert l (int (l_num l) + 1) e (int (length e)) = Inr l"
    by (simp add: tf_list_insert_def)
  ultimately show ?thesis by (auto simp: tf_list_num_def)
qed

lemma tf_list_insert_at_end_example:
  "\<exists>l'. tf_list_insert tf_list_new 0 [5] 1 = Inr l' \<and> tf_list_elems l' = [[5]]"
  using tf_list_insert_at_end [of tf_list_new "[5]"] new_ok [of 1]
  by (auto simp: int_max_def tf_list_num_def tf_list_new_def)

text \<open>
  The dump buffer is sized with four bytes for each number, but a size of \<open>2 ^ 28\<close> or more
  takes five: dumping a list of two such elements writes past the end of the buffer.
\<close>

lemma tf_list_dump_overflow:
  assumes "tf_list_wf l" "tf_list_elems l = [a, b]"
    and "0x10000000 \<le> length a" "0x10000000 \<le> length b" "length a + length b + 8 < int_max"
  shows "tf_list_dump l = Inl Out_Of_Bounds"
proof -
  obtain pre ns post where s: "l_array l = pre @ map Some ns @ post" "length pre = l_start l"
    "length ns = l_num l" "list_all node_ok ns" "tf_list_elems l = map node_bytes ns"
    using assms(1) by (rule wf_split)
  then obtain m n where ns: "ns = [m, n]" and mn: "node_bytes m = a" "node_bytes n = b"
    using assms(2) by (auto simp: Cons_eq_map_conv)
  have ok: "node_ok m" "node_ok n" using s(4) ns by auto
  have sz: "n_size m = length a" "n_size n = length b"
    using length_node_bytes ok mn by auto
  let ?buf = "replicate (9 + (length a + length b)) None"
  have num: "l_num l = 2" using s(3) ns by simp
  have "dump_size (l_array l) (l_start l) 2 0 = Inr (length a + length b + 8)"
  proof -
    have bound: "serial_bound (map node_bytes ns) = length a + length b + 8"
      by (simp add: ns mn)
    then have "0 + serial_bound (map node_bytes ns) \<le> int_max" using assms(5) by simp
    from dump_size_ok [OF s(4,1) this] show ?thesis by (simp add: s(2,3) num bound)
  qed
  moreover have "dump_write (l_array l) (l_start l) 2 ?buf 0 = Inl Out_Of_Bounds"
  proof -
    have rd: "rdi (l_array l) (l_start l) = Inr m" "rdi (l_array l) (Suc (l_start l)) = Inr n"
      using s ns rdi_live [of 0 ns pre post] rdi_live [of 1 ns pre post] by simp_all
    have v: "length (TFSETVNUMBUF (int (length a))) = 5" "length (TFSETVNUMBUF (int (length b))) = 5"
      using assms(3-5) by (simp_all add: length_TFSETVNUMBUF TFCALCVNUMSIZE_def int_max_def)
    have len: "length a < length (n_ptr m)" "length b < length (n_ptr n)"
      using node_ok_length [OF ok(1)] node_ok_length [OF ok(2)] sz by simp_all
    have two: "(2 :: nat) = Suc (Suc 0)" by simp
    show ?thesis unfolding two using rd v len sz by (simp add: Let_def blit_def)
  qed
  ultimately show ?thesis
    using assms(5) num by (simp add: tf_list_dump_def)
qed

lemma tf_list_dump_overflow_example: "\<exists>l. tf_list_dump l = Inl Out_Of_Bounds"
proof -
  let ?e = "replicate 0x10000000 (0 :: byte)"
  have "list_all (\<lambda>e. length e < int_max) [?e, ?e]"
    by (simp add: int_max_def)
  then obtain l where "list_inv l 0" "tf_list_elems l = [?e, ?e]"
    by (rule list_of [of "[?e, ?e]", rotated])
      (simp_all add: int_max_def)
  then have "tf_list_dump l = Inl Out_Of_Bounds"
    by (intro tf_list_dump_overflow [of l ?e ?e])
      (simp_all add: list_inv_def int_max_def)
  then show ?thesis ..
qed

end
