(* ===== verification/TF_DES.thy ===== *)
theory TF_DES
  imports TF_DES_Tables
begin

text \<open>
  The DES cipher of \<open>expert/d3des.c\<close>: key schedule, initial and final permutation, the
  unrolled rounds, and the single, double and triple length modes.  An \<open>unsigned long\<close> has
  64 bits on the supported platforms while the algorithm works on 32-bit halves: the code
  leaves garbage in the upper bits, and the lemmas show that it never reaches the result.

  A block or a key is the list of the bytes of the fixed-size array the code declares.
\<close>

section \<open>Key registers\<close>

record key_var =
  KnL :: "u64 list"
  KnR :: "u64 list"
  Kn3 :: "u64 list"

datatype des_mode = EN0 | DE1

definition des_pc1m :: "byte list \<Rightarrow> bool list" where
  "des_pc1m key = map (\<lambda>l. ucast (key ! (l div 8)) AND (bytebit ! (l mod 8)) \<noteq> 0) pc1"

definition des_pcr :: "bool list \<Rightarrow> nat \<Rightarrow> bool list" where
  "des_pcr pc1m i =
     map (\<lambda>j. let l = j + totrot ! i in if l < 28 then pc1m ! l else pc1m ! (l - 28)) [0..<28] @
     map (\<lambda>j. let l = j + totrot ! i in if l < 56 then pc1m ! l else pc1m ! (l - 28)) [28..<56]"

text \<open>One step of the loop over the 24 bits of the two halves of a subkey.\<close>

definition des_kn_bit :: "bool list \<Rightarrow> nat \<Rightarrow> nat \<Rightarrow> u64 list \<Rightarrow> nat \<Rightarrow> u64 list" where
  "des_kn_bit pcr m n kn j =
     (let kn1 = (if pcr ! (pc2 ! j) then kn[m := kn ! m OR bigbyte ! j] else kn)
      in if pcr ! (pc2 ! (j + 24)) then kn1[n := kn1 ! n OR bigbyte ! j] else kn1)"

definition des_kn_step :: "des_mode \<Rightarrow> bool list \<Rightarrow> u64 list \<Rightarrow> nat \<Rightarrow> u64 list" where
  "des_kn_step edf pc1m kn i =
     (let m = (if edf = DE1 then 2 * (15 - i) else 2 * i);
          n = m + 1
      in foldl (des_kn_bit (des_pcr pc1m i) m n) (kn[m := 0, n := 0]) [0..<24])"

definition cook2 :: "u64 \<Rightarrow> u64 \<Rightarrow> u64 list" where
  "cook2 raw0 raw1 =
     [push_bit 6 (raw0 AND 0x00fc0000) OR push_bit 10 (raw0 AND 0x00000fc0) OR
        drop_bit 10 (raw1 AND 0x00fc0000) OR drop_bit 6 (raw1 AND 0x00000fc0),
      push_bit 12 (raw0 AND 0x0003f000) OR push_bit 16 (raw0 AND 0x0000003f) OR
        drop_bit 4 (raw1 AND 0x0003f000) OR (raw1 AND 0x0000003f)]"

definition cpkey :: "key_var \<Rightarrow> u64 list" where
  "cpkey kv = KnL kv"

definition usekey :: "u64 list \<Rightarrow> key_var \<Rightarrow> key_var" where
  "usekey from kv = kv\<lparr>KnL := from\<rparr>"

definition cookey :: "u64 list \<Rightarrow> key_var \<Rightarrow> key_var" where
  "cookey raw kv = usekey (concat (map (\<lambda>i. cook2 (raw ! (2 * i)) (raw ! (2 * i + 1))) [0..<16])) kv"

text \<open>
  The subkey array \<open>kn\<close> is not initialised in the code; \<open>kn_any\<close> below shows that
  its initial content does not matter.
\<close>

definition deskey_from :: "u64 list \<Rightarrow> byte list \<Rightarrow> des_mode \<Rightarrow> key_var \<Rightarrow> key_var" where
  "deskey_from kn0 key edf kv = cookey (foldl (des_kn_step edf (des_pc1m key)) kn0 [0..<16]) kv"

definition deskey :: "byte list \<Rightarrow> des_mode \<Rightarrow> key_var \<Rightarrow> key_var" where
  "deskey = deskey_from (replicate 32 0)"

section \<open>One block\<close>

type_synonym block = "u64 \<times> u64"

definition be4 :: "byte list \<Rightarrow> u64" where
  "be4 p = push_bit 24 (ucast (p ! 0)) OR push_bit 16 (ucast (p ! 1)) OR
           push_bit 8 (ucast (p ! 2)) OR ucast (p ! 3)"

definition scrunch :: "byte list \<Rightarrow> block" where
  "scrunch p = (be4 p, be4 (drop 4 p))"

definition unscrun :: "block \<Rightarrow> byte list" where
  "unscrun b =
     [ucast (drop_bit 24 (fst b)), ucast (drop_bit 16 (fst b)), ucast (drop_bit 8 (fst b)), ucast (fst b),
      ucast (drop_bit 24 (snd b)), ucast (drop_bit 16 (snd b)), ucast (drop_bit 8 (snd b)), ucast (snd b)]"

text \<open>
  \<open>work = ((a >> n) ^ b) & m; b ^= work; a ^= (work << n)\<close>: exchange the bits of \<open>b\<close>
  under the mask with those of \<open>a\<close> that are \<open>n\<close> places higher.
\<close>

definition swap_bits :: "nat \<Rightarrow> u64 \<Rightarrow> u64 \<Rightarrow> u64 \<Rightarrow> u64 \<times> u64" where
  "swap_bits n m a b =
     (let work = (drop_bit n a XOR b) AND m in (a XOR push_bit n work, b XOR work))"

definition rol1 :: "u64 \<Rightarrow> u64" where
  "rol1 x = (push_bit 1 x OR (drop_bit 31 x AND 1)) AND 0xffffffff"

definition ror1 :: "u64 \<Rightarrow> u64" where
  "ror1 x = push_bit 31 x OR drop_bit 1 x"

definition des_ip :: "block \<Rightarrow> block" where
  "des_ip b =
     (let (leftt, right) = b;
          (leftt, right) = swap_bits 4 0x0f0f0f0f leftt right;
          (leftt, right) = swap_bits 16 0x0000ffff leftt right;
          (right, leftt) = swap_bits 2 0x33333333 right leftt;
          (right, leftt) = swap_bits 8 0x00ff00ff right leftt;
          right = rol1 right;
          (leftt, right) = swap_bits 0 0xaaaaaaaa leftt right;
          leftt = rol1 leftt
      in (leftt, right))"

definition des_fp :: "block \<Rightarrow> block" where
  "des_fp b =
     (let (leftt, right) = b;
          right = ror1 right;
          (leftt, right) = swap_bits 0 0xaaaaaaaa leftt right;
          leftt = ror1 leftt;
          (leftt, right) = swap_bits 8 0x00ff00ff leftt right;
          (leftt, right) = swap_bits 2 0x33333333 leftt right;
          (right, leftt) = swap_bits 16 0x0000ffff right leftt;
          (right, leftt) = swap_bits 4 0x0f0f0f0f right leftt
      in (right, leftt))"

definition sbox :: "u64 list \<Rightarrow> nat \<Rightarrow> u64 \<Rightarrow> u64" where
  "sbox SP n work = SP ! unat (drop_bit n work AND 0x3f)"

definition des_f :: "u64 \<Rightarrow> u64 \<Rightarrow> u64 \<Rightarrow> u64" where
  "des_f x k0 k1 =
     (let work = (push_bit 28 x OR drop_bit 4 x) XOR k0;
          fval = sbox SP7 0 work OR sbox SP5 8 work OR sbox SP3 16 work OR sbox SP1 24 work;
          work = x XOR k1
      in fval OR sbox SP8 0 work OR sbox SP6 8 work OR sbox SP4 16 work OR sbox SP2 24 work)"

definition des_round :: "u64 list \<Rightarrow> block \<Rightarrow> nat \<Rightarrow> block" where
  "des_round keys b round =
     (let (leftt, right) = b;
          leftt = leftt XOR des_f right (keys ! (4 * round)) (keys ! (4 * round + 1));
          right = right XOR des_f leftt (keys ! (4 * round + 2)) (keys ! (4 * round + 3))
      in (leftt, right))"

definition desfunc :: "u64 list \<Rightarrow> block \<Rightarrow> block" where
  "desfunc keys b = des_fp (foldl (des_round keys) (des_ip b) [0..<8])"

definition des :: "byte list \<Rightarrow> key_var \<Rightarrow> byte list" where
  "des inblock kv = unscrun (desfunc (KnL kv) (scrunch inblock))"

section \<open>Double and triple length keys\<close>

definition rev_mode :: "des_mode \<Rightarrow> des_mode" where
  "rev_mode mode = (if mode = EN0 then DE1 else EN0)"

definition des2key :: "byte list \<Rightarrow> des_mode \<Rightarrow> key_var \<Rightarrow> key_var" where
  "des2key hexkey mode kv =
     (let kv = deskey (drop 8 hexkey) (rev_mode mode) kv;
          kv = kv\<lparr>KnR := cpkey kv\<rparr>;
          kv = deskey hexkey mode kv
      in kv\<lparr>Kn3 := cpkey kv\<rparr>)"

definition des3key :: "byte list \<Rightarrow> des_mode \<Rightarrow> key_var \<Rightarrow> key_var" where
  "des3key hexkey mode kv =
     (let (revmod, first, third) =
            (if mode = EN0 then (DE1, hexkey, drop 16 hexkey) else (EN0, drop 16 hexkey, hexkey));
          kv = deskey (drop 8 hexkey) revmod kv;
          kv = kv\<lparr>KnR := cpkey kv\<rparr>;
          kv = deskey third mode kv;
          kv = kv\<lparr>Kn3 := cpkey kv\<rparr>
      in deskey first mode kv)"

definition Ddes :: "byte list \<Rightarrow> key_var \<Rightarrow> byte list" where
  "Ddes from kv =
     unscrun (desfunc (Kn3 kv) (desfunc (KnR kv) (desfunc (KnL kv) (scrunch from))))"

definition swap2 :: "block \<times> block \<Rightarrow> block \<times> block" where
  "swap2 s = (case s of ((l0, l1), (r0, r1)) \<Rightarrow> ((l0, r0), (l1, r1)))"

definition both2 :: "u64 list \<Rightarrow> block \<times> block \<Rightarrow> block \<times> block" where
  "both2 keys s = (desfunc keys (fst s), desfunc keys (snd s))"

definition D2des :: "byte list \<Rightarrow> key_var \<Rightarrow> byte list" where
  "D2des from kv =
     (let s = both2 (KnL kv) (scrunch from, scrunch (drop 8 from));
          s = both2 (KnR kv) (swap2 s);
          s = both2 (Kn3 kv) (swap2 s)
      in unscrun (fst s) @ unscrun (snd s))"

definition swap3 :: "block \<times> block \<times> block \<Rightarrow> block \<times> block \<times> block" where
  "swap3 s = (case s of ((l0, l1), (m0, m1), (r0, r1)) \<Rightarrow> ((l0, m0), (l1, r0), (m1, r1)))"

definition both3 :: "u64 list \<Rightarrow> block \<times> block \<times> block \<Rightarrow> block \<times> block \<times> block" where
  "both3 keys s = (desfunc keys (fst s), desfunc keys (fst (snd s)), desfunc keys (snd (snd s)))"

definition D3des :: "byte list \<Rightarrow> key_var \<Rightarrow> byte list" where
  "D3des from kv =
     (let s = both3 (KnL kv) (scrunch from, scrunch (drop 8 from), scrunch (drop 16 from));
          s = both3 (KnR kv) (swap3 s);
          s = both3 (Kn3 kv) (swap3 s)
      in unscrun (fst s) @ unscrun (fst (snd s)) @ unscrun (snd (snd s)))"

definition cp3key :: "key_var \<Rightarrow> u64 list" where
  "cp3key kv = cpkey kv @ KnR kv @ Kn3 kv"

definition use3key :: "u64 list \<Rightarrow> key_var \<Rightarrow> key_var" where
  "use3key from kv =
     (usekey (take 32 from) kv)\<lparr>KnR := take 32 (drop 32 from), Kn3 := take 32 (drop 64 from)\<rparr>"

section \<open>Keys from passwords\<close>

text \<open>
  \<open>makekey\<close>, \<open>make2key\<close> and \<open>make3key\<close> are the same code for keys of 8, 16 and 24 bytes.
\<close>

datatype key_len = Single | Double | Triple

fun key_bytes :: "key_len \<Rightarrow> nat" where
  "key_bytes Single = 8"
| "key_bytes Double = 16"
| "key_bytes Triple = 24"

fun key_cipher :: "key_len \<Rightarrow> byte list \<Rightarrow> key_var \<Rightarrow> byte list" where
  "key_cipher Single = Ddes"
| "key_cipher Double = D2des"
| "key_cipher Triple = D3des"

fun key_default :: "key_len \<Rightarrow> key_var \<Rightarrow> key_var" where
  "key_default Triple kv = des3key Df_Key EN0 kv"
| "key_default _ kv = des2key Df_Key EN0 kv"

text \<open>
  One pass of the inner loop mixes the next characters of the password into the key, while
  there are any.
\<close>

definition xor_chars :: "byte list \<Rightarrow> cstr \<Rightarrow> byte list" where
  "xor_chars k s = map2 (\<lambda>b c. b XOR (c AND 0x7f)) (take (length s) k) (take (length k) s) @
     drop (length s) k"

text \<open>
  The outer loop: \<open>s\<close> is the rest of the password, \<open>z\<close> counts the characters before it, which
  have been overwritten with zeros; at least one pass is made.
\<close>

function pw_loop :: "key_len \<Rightarrow> key_var \<Rightarrow> bool \<Rightarrow> cstr \<Rightarrow> nat \<Rightarrow> byte list \<Rightarrow> byte list \<times> nat" where
  "pw_loop len kv first s z k =
     (if s \<noteq> [] \<or> first
      then pw_loop len kv False (drop (key_bytes len) s) (z + min (key_bytes len) (length s))
             (key_cipher len (xor_chars k s) kv)
      else (k, z))"
  by pat_completeness auto
termination
proof (relation "measure (\<lambda>(len, kv, first, s, z, k). length s + (if first then 1 else 0))")
  fix len :: key_len and kv :: key_var and first and s :: cstr and z :: nat and k :: "byte list"
  assume "s \<noteq> [] \<or> first"
  moreover have "0 < key_bytes len" by (cases len) simp_all
  ultimately show "((len, kv, False, drop (key_bytes len) s, z + min (key_bytes len) (length s),
      key_cipher len (xor_chars k s) kv), (len, kv, first, s, z, k)) \<in>
      measure (\<lambda>(len, kv, first, s, z, k). length s + (if first then 1 else 0))"
    by (cases s) auto
qed simp

declare pw_loop.simps [simp del]

text \<open>
  \<open>aptr\<close> is the password without its terminating zero.  The result is the key, the memory of
  the password and the key registers.
\<close>

definition make_key :: "key_len \<Rightarrow> cstr \<Rightarrow> key_var \<Rightarrow> byte list \<times> byte list \<times> key_var" where
  "make_key len aptr kv =
     (let savek = cp3key kv;
          kv = key_default len kv;
          (k, z) = pw_loop len kv True aptr 0 (take (key_bytes len) Df_Key)
      in (k, replicate z 0 @ drop z aptr, use3key savek kv))"

section \<open>The bit exchanges\<close>

text \<open>Two words are equivalent if they have the same lower half.\<close>

definition eq32 :: "u64 \<Rightarrow> u64 \<Rightarrow> bool" where
  "eq32 a b \<longleftrightarrow> take_bit 32 a = take_bit 32 b"

lemma eq32_bit: "eq32 a b \<longleftrightarrow> (\<forall>n < 32. bit a n = bit b n)"
proof
  assume "eq32 a b"
  then show "\<forall>n < 32. bit a n = bit b n"
    unfolding eq32_def by (metis bit_take_bit_iff)
next
  assume "\<forall>n < 32. bit a n = bit b n"
  then show "eq32 a b"
    unfolding eq32_def by (intro bit_word_eqI) (auto simp: bit_take_bit_iff)
qed

lemma eq32_refl [simp, intro]: "eq32 a a"
  by (simp add: eq32_def)

lemma eq32_sym: "eq32 a b \<Longrightarrow> eq32 b a"
  by (simp add: eq32_def)

lemma eq32_trans: "eq32 a b \<Longrightarrow> eq32 b c \<Longrightarrow> eq32 a c"
  by (simp add: eq32_def)

lemma eq32_xor: "eq32 a b \<Longrightarrow> eq32 c d \<Longrightarrow> eq32 (a XOR c) (b XOR d)"
  by (simp add: eq32_bit bit_xor_iff)

text \<open>A mask that keeps an exchange at distance \<open>n\<close> inside the lower half.\<close>

definition mask_ok :: "nat \<Rightarrow> u64 \<Rightarrow> bool" where
  "mask_ok n m \<longleftrightarrow> n < 32 \<and> take_bit (32 - n) m = m"

lemma mask_ok_bit: "mask_ok n m \<Longrightarrow> bit m k \<Longrightarrow> k + n < 32"
  unfolding mask_ok_def by (metis bit_take_bit_iff less_diff_conv)

lemma masks [simp]:
  "mask_ok 4 0x0f0f0f0f" "mask_ok 16 0x0000ffff" "mask_ok 2 0x33333333" "mask_ok 8 0x00ff00ff"
  "mask_ok 0 0xaaaaaaaa"
  by (simp_all add: mask_ok_def)

lemma drop_push_bit:
  fixes w :: u64
  assumes "\<And>k. bit w k \<Longrightarrow> k + n < 64"
  shows "drop_bit n (push_bit n w) = w"
proof (rule bit_word_eqI)
  fix k
  have "bit w k \<Longrightarrow> n + k < 64" using assms by (simp add: add.commute)
  then show "bit (drop_bit n (push_bit n w)) k = bit w k"
    unfolding bit_drop_bit_eq o_def bit_push_bit_iff by auto
qed

lemma swap_bits_involution:
  assumes "mask_ok n m"
  shows "case swap_bits n m a b of (a', b') \<Rightarrow> swap_bits n m a' b' = (a, b)"
proof -
  define w where "w = (drop_bit n a XOR b) AND m"
  have w: "drop_bit n (push_bit n w) = w"
    by (rule drop_push_bit) (use mask_ok_bit [OF assms] in \<open>fastforce simp: bit_and_iff w_def\<close>)
  have "(drop_bit n (a XOR push_bit n w) XOR (b XOR w)) AND m = w"
    unfolding drop_bit_xor w by (intro bit_word_eqI) (auto simp: bit_xor_iff bit_and_iff w_def)
  then have "swap_bits n m (a XOR push_bit n w) (b XOR w) = (a, b)"
    by (simp only: swap_bits_def Let_def xor.assoc) simp
  then show ?thesis
    by (simp add: swap_bits_def Let_def flip: w_def)
qed

lemma swap_back:
  assumes "mask_ok n m" "swap_bits n m a b = (a', b')"
  shows "swap_bits n m a' b' = (a, b)"
  using swap_bits_involution [OF assms(1), of a b] assms(2) by simp

lemma swap_bits_sym: "swap_bits 0 m b a = prod.swap (swap_bits 0 m a b)"
  by (simp add: swap_bits_def Let_def xor.commute)

lemma swap_work:
  assumes "mask_ok n m" "eq32 a a'" "eq32 b b'"
  shows "(drop_bit n a XOR b) AND m = (drop_bit n a' XOR b') AND m"
proof (rule bit_word_eqI)
  fix k
  have "bit m k \<Longrightarrow> n + k < 32" using mask_ok_bit [OF assms(1), of k] by (simp add: add.commute)
  then have "bit m k \<Longrightarrow> bit a (n + k) = bit a' (n + k) \<and> bit b k = bit b' k"
    using assms(2,3) unfolding eq32_bit by auto
  then show "bit ((drop_bit n a XOR b) AND m) k = bit ((drop_bit n a' XOR b') AND m) k"
    unfolding bit_and_iff bit_xor_iff bit_drop_bit_eq o_def by auto
qed

lemma swap_bits_cong:
  assumes "mask_ok n m" "eq32 a a'" "eq32 b b'" "swap_bits n m a' b' = (c', d')"
  obtains c d where "swap_bits n m a b = (c, d)" "eq32 c c'" "eq32 d d'"
    "a = a' \<Longrightarrow> c = c'" "b = b' \<Longrightarrow> d = d'"
  using that swap_work [OF assms(1-3)] assms(2-4) by (auto simp: swap_bits_def Let_def eq32_xor)

lemma low_mask: "x AND 0xffffffff = take_bit 32 (x :: u64)"
  by (simp add: take_bit_eq_mask mask_eq_exp_minus_1)

lemma bit_rol1: "bit (rol1 x) n \<longleftrightarrow> n < 32 \<and> (if n = 0 then bit x 31 else bit x (n - 1))"
  unfolding rol1_def low_mask bit_take_bit_iff bit_or_iff bit_and_iff bit_push_bit_iff
    bit_drop_bit_eq bit_1_iff o_def
  by (cases n) auto

lemma bit_ror1: "n < 32 \<Longrightarrow> bit (ror1 x) n \<longleftrightarrow> (if n = 31 then bit x 0 \<or> bit x 32 else bit x (Suc n))"
  unfolding ror1_def bit_or_iff bit_push_bit_iff bit_drop_bit_eq o_def
  by auto

lemma rol1_cong: "eq32 a b \<Longrightarrow> rol1 a = rol1 b"
  by (rule bit_word_eqI) (auto simp: bit_rol1 eq32_bit)

lemma rol1_ror1: "take_bit 32 x = x \<Longrightarrow> rol1 (ror1 x) = x"
proof (rule bit_word_eqI)
  fix n
  assume x: "take_bit 32 x = x"
  have hi: "\<not> bit x k" if "32 \<le> k" for k
    using that bit_take_bit_iff [of 32 x k] x by simp
  have "bit x n \<Longrightarrow> n < 32" using hi [of n] by force
  then show "bit (rol1 (ror1 x)) n = bit x n"
    using hi [of 32] by (cases n) (auto simp: bit_rol1 bit_ror1)
qed

lemma ror1_rol1: "eq32 (ror1 (rol1 x)) x"
  by (auto simp: eq32_bit bit_rol1 bit_ror1)

lemma rol1_low: "take_bit 32 (rol1 x) = rol1 x"
  by (rule bit_word_eqI) (auto simp: bit_take_bit_iff bit_rol1)

section \<open>The permutations\<close>

definition eqb :: "block \<Rightarrow> block \<Rightarrow> bool" where
  "eqb b c \<longleftrightarrow> eq32 (fst b) (fst c) \<and> eq32 (snd b) (snd c)"

lemma eqb_sym: "eqb b c \<Longrightarrow> eqb c b"
  by (simp add: eqb_def eq32_def)

lemma eqb_trans: "eqb a b \<Longrightarrow> eqb b c \<Longrightarrow> eqb a c"
  by (simp add: eqb_def eq32_def)

lemma eqb_refl [simp]: "eqb b b"
  by (simp add: eqb_def)

text \<open>The five exchanges of the initial permutation, in order.\<close>

lemma ip_split:
  obtains a1 b1 a2 b2 a3 b3 a4 b4 a5 b5 where
    "swap_bits 4 0x0f0f0f0f a b = (a1, b1)" "swap_bits 16 0x0000ffff a1 b1 = (a2, b2)"
    "swap_bits 2 0x33333333 b2 a2 = (b3, a3)" "swap_bits 8 0x00ff00ff b3 a3 = (b4, a4)"
    "swap_bits 0 0xaaaaaaaa a4 (rol1 b4) = (a5, b5)" "des_ip (a, b) = (rol1 a5, b5)"
  by (simp add: des_ip_def Let_def split_beta) (metis prod.collapse)

lemma des_ip_cong:
  assumes "eqb b c"
  shows "des_ip b = des_ip c"
proof -
  obtain x y where b: "b = (x, y)" by (cases b)
  obtain x' y' where c: "c = (x', y')" by (cases c)
  have e: "eq32 x x'" "eq32 y y'" using assms by (simp_all add: b c eqb_def)
  obtain a1 b1 a2 b2 a3 b3 a4 b4 a5 b5 where s:
    "swap_bits 4 0x0f0f0f0f x' y' = (a1, b1)" "swap_bits 16 0x0000ffff a1 b1 = (a2, b2)"
    "swap_bits 2 0x33333333 b2 a2 = (b3, a3)" "swap_bits 8 0x00ff00ff b3 a3 = (b4, a4)"
    "swap_bits 0 0xaaaaaaaa a4 (rol1 b4) = (a5, b5)" "des_ip (x', y') = (rol1 a5, b5)"
    by (rule ip_split)
  obtain c1 d1 where t1: "swap_bits 4 0x0f0f0f0f x y = (c1, d1)" "eq32 c1 a1" "eq32 d1 b1"
    by (rule swap_bits_cong [OF _ e s(1)]) simp_all
  obtain c2 d2 where t2: "swap_bits 16 0x0000ffff c1 d1 = (c2, d2)" "eq32 c2 a2" "eq32 d2 b2"
    by (rule swap_bits_cong [OF _ t1(2,3) s(2)]) simp_all
  obtain d3 c3 where t3: "swap_bits 2 0x33333333 d2 c2 = (d3, c3)" "eq32 d3 b3" "eq32 c3 a3"
    by (rule swap_bits_cong [OF _ t2(3,2) s(3)]) simp_all
  obtain d4 c4 where t4: "swap_bits 8 0x00ff00ff d3 c3 = (d4, c4)" "eq32 d4 b4" "eq32 c4 a4"
    by (rule swap_bits_cong [OF _ t3(2,3) s(4)]) simp_all
  have r: "rol1 d4 = rol1 b4" by (rule rol1_cong [OF t4(2)])
  obtain c5 d5 where t5: "swap_bits 0 0xaaaaaaaa c4 (rol1 b4) = (c5, d5)" "eq32 c5 a5" "d5 = b5"
    by (rule swap_bits_cong [OF _ t4(3) eq32_refl s(5)]) simp_all
  have "des_ip (x, y) = (rol1 c5, d5)"
    by (simp add: des_ip_def t1(1) t2(1) t3(1) t4(1) t5(1) r)
  then show ?thesis
    using s(6) t5(3) rol1_cong [OF t5(2)] by (simp add: b c)
qed

text \<open>The final permutation of the exchanged halves undoes the initial one, up to the garbage.\<close>

lemma des_fp_ip: "eqb (des_fp (prod.swap (des_ip b))) b"
proof -
  obtain x y where b: "b = (x, y)" by (cases b)
  obtain a1 b1 a2 b2 a3 b3 a4 b4 a5 b5 where s:
    "swap_bits 4 0x0f0f0f0f x y = (a1, b1)" "swap_bits 16 0x0000ffff a1 b1 = (a2, b2)"
    "swap_bits 2 0x33333333 b2 a2 = (b3, a3)" "swap_bits 8 0x00ff00ff b3 a3 = (b4, a4)"
    "swap_bits 0 0xaaaaaaaa a4 (rol1 b4) = (a5, b5)" "des_ip (x, y) = (rol1 a5, b5)"
    by (rule ip_split)
  have "swap_bits 0 0xaaaaaaaa b5 a5 = (rol1 b4, a4)"
    using swap_back [OF _ s(5)] swap_bits_sym [of _ b5 a5] by simp
  then obtain d5 c5 where t5: "swap_bits 0 0xaaaaaaaa b5 (ror1 (rol1 a5)) = (d5, c5)"
      "d5 = rol1 b4" "eq32 c5 a4"
    by (rule swap_bits_cong [OF _ eq32_refl ror1_rol1, rotated]) simp_all
  have e5: "eq32 (ror1 d5) b4" unfolding t5(2) by (rule ror1_rol1)
  obtain d4 c4 where t4: "swap_bits 8 0x00ff00ff (ror1 d5) c5 = (d4, c4)" "eq32 d4 b3" "eq32 c4 a3"
    by (rule swap_bits_cong [OF _ e5 t5(3) swap_back [OF _ s(4)]]) simp_all
  obtain d3 c3 where t3: "swap_bits 2 0x33333333 d4 c4 = (d3, c3)" "eq32 d3 b2" "eq32 c3 a2"
    by (rule swap_bits_cong [OF _ t4(2,3) swap_back [OF _ s(3)]]) simp_all
  obtain c2 d2 where t2: "swap_bits 16 0x0000ffff c3 d3 = (c2, d2)" "eq32 c2 a1" "eq32 d2 b1"
    by (rule swap_bits_cong [OF _ t3(3,2) swap_back [OF _ s(2)]]) simp_all
  obtain c1 d1 where t1: "swap_bits 4 0x0f0f0f0f c2 d2 = (c1, d1)" "eq32 c1 x" "eq32 d1 y"
    by (rule swap_bits_cong [OF _ t2(2,3) swap_back [OF _ s(1)]]) simp_all
  have "des_fp (b5, rol1 a5) = (c1, d1)"
    by (simp add: des_fp_def t5(1) t4(1) t3(1) t2(1) t1(1))
  then show ?thesis using t1 s(6) by (simp add: b eqb_def)
qed

lemma take_and_mask:
  fixes m :: u64
  assumes "take_bit n m = m"
  shows "take_bit n x AND m = x AND m"
proof (rule bit_word_eqI)
  fix k
  have "bit m k \<Longrightarrow> k < n" using bit_take_bit_iff [of n m k] assms by simp
  then show "bit (take_bit n x AND m) k = bit (x AND m) k"
    by (auto simp: bit_and_iff bit_take_bit_iff)
qed

lemma des_ip_fp:
  assumes "take_bit 32 l = l" "take_bit 32 r = r"
  shows "des_ip (des_fp (l, r)) = (r, l)"
proof -
  obtain l1 r1 where s5: "swap_bits 0 0xaaaaaaaa l (ror1 r) = (l1, r1)" by fastforce
  obtain l2 r2 where s4: "swap_bits 8 0x00ff00ff (ror1 l1) r1 = (l2, r2)" by fastforce
  obtain l3 r3 where s3: "swap_bits 2 0x33333333 l2 r2 = (l3, r3)" by fastforce
  obtain r4 l4 where s2: "swap_bits 16 0x0000ffff r3 l3 = (r4, l4)" by fastforce
  obtain r5 l5 where s1: "swap_bits 4 0x0f0f0f0f r4 l4 = (r5, l5)" by fastforce
  have fp: "des_fp (l, r) = (r5, l5)" by (simp add: des_fp_def s5 s4 s3 s2 s1)
  have l1: "l1 = l XOR ((l XOR ror1 r) AND 0xaaaaaaaa)"
    using s5 by (simp add: swap_bits_def Let_def)
  have m: "take_bit 32 (0xaaaaaaaa :: u64) = 0xaaaaaaaa" by simp
  have "take_bit 32 l1 = l XOR (take_bit 32 (l XOR ror1 r) AND 0xaaaaaaaa)"
    unfolding l1 take_bit_xor take_bit_and assms(1) m ..
  also have "\<dots> = l1" unfolding l1 take_and_mask [OF m] ..
  finally have "take_bit 32 l1 = l1" .
  then have "rol1 (ror1 l1) = l1" by (rule rol1_ror1)
  moreover have "swap_bits 0 0xaaaaaaaa r1 l1 = (ror1 r, l)"
    using swap_back [OF _ s5] swap_bits_sym [of _ r1 l1] by simp
  ultimately show ?thesis
    by (simp add: fp des_ip_def swap_back [OF _ s1] swap_back [OF _ s2] swap_back [OF _ s3]
        swap_back [OF _ s4] rol1_ror1 [OF assms(2)])
qed

section \<open>The rounds as a Feistel network\<close>

fun feistel :: "(u64 \<times> u64) list \<Rightarrow> block \<Rightarrow> block" where
  "feistel [] b = b"
| "feistel (p # ps) b = feistel ps (snd b, fst b XOR des_f (snd b) (fst p) (snd p))"

lemma feistel_append: "feistel (ps @ qs) b = feistel qs (feistel ps b)"
  by (induction ps b rule: feistel.induct) simp_all

lemma feistel_rev: "feistel (rev ps) (prod.swap (feistel ps b)) = prod.swap b"
proof (induction ps b rule: feistel.induct)
  case (1 b)
  then show ?case by simp
next
  case (2 p ps b)
  then show ?case
    by (simp add: feistel_append xor.assoc prod_eq_iff)
qed

definition pairs :: "nat \<Rightarrow> u64 list \<Rightarrow> (u64 \<times> u64) list" where
  "pairs n ks = map (\<lambda>i. (ks ! (2 * i), ks ! (2 * i + 1))) [0..<n]"

lemma rounds_feistel: "foldl (des_round ks) b [0..<n] = feistel (pairs (2 * n) ks) b"
proof (induction n)
  case 0
  then show ?case by (simp add: pairs_def)
next
  case (Suc n)
  have "pairs (2 * Suc n) ks =
      pairs (2 * n) ks @ [(ks ! (4 * n), ks ! (4 * n + 1)), (ks ! (4 * n + 2), ks ! (4 * n + 3))]"
    by (simp add: pairs_def numeral_3_eq_3)
  then show ?case
    using Suc by (simp add: feistel_append des_round_def Let_def split_beta)
qed

lemma sbox_low:
  assumes "length SP = 64" "list_all (\<lambda>x. take_bit 32 x = x) SP"
  shows "take_bit 32 (sbox SP n w) = sbox SP n w"
proof -
  have "unat (drop_bit n w AND 0x3f) \<le> unat (0x3f :: u64)"
    by (rule word_le_nat_alt [THEN iffD1]) (rule word_and_le1)
  then have "unat (drop_bit n w AND 0x3f) < length SP" using assms(1) by simp
  then show ?thesis unfolding sbox_def using assms(2) by (simp add: list_all_length)
qed

lemma des_f_low: "take_bit 32 (des_f x k0 k1) = des_f x k0 k1"
  unfolding des_f_def Let_def take_bit_or
  by (simp add: sbox_low length_SP SP_32bit)

definition low :: "block \<Rightarrow> bool" where
  "low b \<longleftrightarrow> take_bit 32 (fst b) = fst b \<and> take_bit 32 (snd b) = snd b"

lemma feistel_low: "low b \<Longrightarrow> low (feistel ps b)"
  by (induction ps b rule: feistel.induct) (auto simp: low_def des_f_low)

lemma des_ip_low: "low (des_ip b)"
proof -
  obtain x y where b: "b = (x, y)" by (cases b)
  obtain a1 b1 a2 b2 a3 b3 a4 b4 a5 b5 where s:
    "swap_bits 4 0x0f0f0f0f x y = (a1, b1)" "swap_bits 16 0x0000ffff a1 b1 = (a2, b2)"
    "swap_bits 2 0x33333333 b2 a2 = (b3, a3)" "swap_bits 8 0x00ff00ff b3 a3 = (b4, a4)"
    "swap_bits 0 0xaaaaaaaa a4 (rol1 b4) = (a5, b5)" "des_ip (x, y) = (rol1 a5, b5)"
    by (rule ip_split)
  have b5: "b5 = rol1 b4 XOR ((a4 XOR rol1 b4) AND 0xaaaaaaaa)"
    using s(5) by (simp add: swap_bits_def Let_def)
  have m: "take_bit 32 (0xaaaaaaaa :: u64) = 0xaaaaaaaa" by simp
  have "take_bit 32 b5 = b5"
    unfolding b5 take_bit_xor take_bit_and rol1_low m take_and_mask [OF m] 
    by (subst take_and_mask [OF m, of "a4 XOR rol1 b4", symmetric]) (simp only: take_bit_xor rol1_low)
  then show ?thesis using s(6) by (simp add: b low_def rol1_low)
qed

lemma desfunc_cong: "eqb b c \<Longrightarrow> desfunc ks b = desfunc ks c"
  by (simp add: desfunc_def des_ip_cong)

text \<open>A schedule whose pairs are reversed undoes the function on the lower halves.\<close>

lemma desfunc_inverse:
  assumes "pairs 16 ks' = rev (pairs 16 ks)"
  shows "eqb (desfunc ks' (desfunc ks b)) b"
proof -
  have r: "foldl (des_round k) c [0..<8] = feistel (pairs 16 k) c" for k c
    using rounds_feistel [of k c 8] by simp
  let ?f = "feistel (pairs 16 ks) (des_ip b)"
  have "low ?f" by (rule feistel_low [OF des_ip_low])
  then have "des_ip (des_fp ?f) = prod.swap ?f"
    using des_ip_fp [of "fst ?f" "snd ?f"] by (simp add: low_def prod.swap_def)
  then have "desfunc ks' (desfunc ks b) = des_fp (feistel (rev (pairs 16 ks)) (prod.swap ?f))"
    by (simp only: desfunc_def r assms)
  then show ?thesis by (simp only: feistel_rev des_fp_ip)
qed

section \<open>Bytes and halves\<close>

lemma bit_be4:
  "bit (be4 p) n \<longleftrightarrow>
     (24 \<le> n \<and> bit (p ! 0) (n - 24)) \<or> (16 \<le> n \<and> bit (p ! 1) (n - 16)) \<or>
     (8 \<le> n \<and> bit (p ! 2) (n - 8)) \<or> bit (p ! 3) n"
  unfolding be4_def bit_or_iff bit_push_bit_iff bit_ucast_iff
  by (auto dest: bit_byte)

lemma be4_bytes:
  assumes "length p = 4"
  shows "[ucast (drop_bit 24 (be4 p)), ucast (drop_bit 16 (be4 p)), ucast (drop_bit 8 (be4 p)),
     ucast (be4 p)] = p"
proof -
  obtain a b c d where p: "p = [a, b, c, d]"
    using assms by (auto simp: length_Suc_conv numeral_eq_Suc)
  have "ucast (drop_bit 24 (be4 p)) = a" "ucast (drop_bit 16 (be4 p)) = b"
    "ucast (drop_bit 8 (be4 p)) = c" "ucast (be4 p) = d"
    by (rule bit_word_eqI; auto simp: bit_ucast_iff bit_drop_bit_eq bit_be4 p dest: bit_byte)+
  then show ?thesis by (simp add: p)
qed

lemma bytes_be4:
  "eq32 (be4 (ucast (drop_bit 24 x) # ucast (drop_bit 16 x) # ucast (drop_bit 8 x) # ucast x # r)) x"
  unfolding eq32_bit
proof (intro allI impI)
  fix n :: nat
  assume n: "n < 32"
  consider "n < 8" | "8 \<le> n" "n < 16" | "16 \<le> n" "n < 24" | "24 \<le> n" by linarith
  then show "bit (be4 (ucast (drop_bit 24 x) # ucast (drop_bit 16 x) # ucast (drop_bit 8 x) # ucast x # r)) n =
      bit x n"
    using n by cases (auto simp: bit_be4 bit_ucast_iff bit_drop_bit_eq)
qed

lemma scrunch_unscrun: "eqb (scrunch (unscrun b)) b"
  unfolding eqb_def scrunch_def unscrun_def by (simp add: bytes_be4)

lemma scrunch_append: "eqb (scrunch (unscrun b @ r)) b"
  unfolding eqb_def scrunch_def unscrun_def by (simp add: bytes_be4)

lemma unscrun_scrunch:
  assumes "length p = 8"
  shows "unscrun (scrunch p) = p"
proof -
  have "unscrun (scrunch p) = take 4 p @ drop 4 p"
  proof -
    have t: "be4 p = be4 (take 4 p)" using assms by (simp add: be4_def)
    have l: "length (take 4 p) = 4" "length (drop 4 p) = 4" using assms by simp_all
    show ?thesis
      unfolding unscrun_def scrunch_def fst_conv snd_conv t
      using be4_bytes [OF l(1)] be4_bytes [OF l(2)] by (metis append_Cons append_Nil)
  qed
  then show ?thesis by simp
qed

lemma unscrun_cong:
  assumes "eqb b c"
  shows "unscrun b = unscrun c"
proof -
  have "ucast (drop_bit n x) = (ucast (drop_bit n y) :: byte)" if "eq32 x y" "n \<le> 24" for x y n
    using that by (intro bit_word_eqI) (auto simp: bit_ucast_iff bit_drop_bit_eq eq32_bit)
  note c = this
  have "ucast x = (ucast y :: byte)" if "eq32 x y" for x y
    using c [OF that, of 0] by simp
  then show ?thesis
    using c assms by (simp add: eqb_def unscrun_def)
qed

lemma length_unscrun [simp]: "length (unscrun b) = 8"
  by (simp add: unscrun_def)

lemma length_block_ciphers [simp]:
  "length (des p kv) = 8" "length (Ddes p kv) = 8" "length (D2des p kv) = 16" "length (D3des p kv) = 24"
  by (simp_all add: des_def Ddes_def D2des_def D3des_def Let_def)

section \<open>The key schedule\<close>

text \<open>The two halves of subkey \<open>i\<close>, as the inner loop accumulates them.\<close>

definition subkey :: "bool list \<Rightarrow> nat \<Rightarrow> nat \<Rightarrow> u64" where
  "subkey pcr off n = foldl (\<lambda>a j. if pcr ! (pc2 ! (j + off)) then a OR bigbyte ! j else a) 0 [0..<n]"

lemma kn_bits:
  assumes "m < length kn" "m + 1 < length kn" "kn ! m = 0" "kn ! (m + 1) = 0"
  shows "foldl (des_kn_bit pcr m (m + 1)) kn [0..<k] =
     kn[m := subkey pcr 0 k, m + 1 := subkey pcr 24 k]"
proof (induction k)
  case 0
  have "kn[m := 0] = kn" "kn[m + 1 := 0] = kn"
    using assms(3,4) by (metis list_update_id)+
  then show ?case by (simp add: subkey_def)
next
  case (Suc k)
  then show ?case
    using assms by (simp add: des_kn_bit_def Let_def subkey_def list_update_swap)
qed

definition subkey_pair :: "bool list \<Rightarrow> nat \<Rightarrow> u64 list" where
  "subkey_pair pc1m i = [subkey (des_pcr pc1m i) 0 24, subkey (des_pcr pc1m i) 24 24]"

lemma length_subkey_pair [simp]: "length (subkey_pair pc1m i) = 2"
  by (simp add: subkey_pair_def)

lemma length_subkey_pairs [simp]: "length (concat (map (subkey_pair pc1m) xs)) = 2 * length xs"
  by (induction xs) simp_all

lemma kn_step:
  assumes "m = (if edf = DE1 then 2 * (15 - i) else 2 * i)" "m + 1 < length kn"
  shows "des_kn_step edf pc1m kn i = take m kn @ subkey_pair pc1m i @ drop (m + 2) kn"
proof -
  let ?A = "subkey (des_pcr pc1m i) 0 24" and ?B = "subkey (des_pcr pc1m i) 24 24"
  have "des_kn_step edf pc1m kn i = kn[m := 0, m + 1 := 0, m := ?A, m + 1 := ?B]"
    unfolding des_kn_step_def Let_def assms(1)[symmetric]
    using assms(2) by (subst kn_bits) (simp_all add: nth_list_update)
  also have "\<dots> = kn[m := ?A, m + 1 := ?B]"
    using assms(2) by (intro nth_equalityI) (simp_all add: nth_list_update)
  also have "\<dots> = take m kn @ [?A, ?B] @ drop (m + 2) kn"
    using assms(2) by (simp add: upd_conv_take_nth_drop take_Suc_conv_app_nth list_update_append
        Cons_nth_drop_Suc flip: Suc_eq_plus1)
  finally show ?thesis by (simp add: subkey_pair_def)
qed

text \<open>The whole schedule: the pairs in order, or in reverse order for decryption.\<close>

lemma kn_encrypt:
  "2 * n \<le> length kn \<Longrightarrow> n \<le> 16 \<Longrightarrow>
     foldl (des_kn_step EN0 pc1m) kn [0..<n] =
       concat (map (subkey_pair pc1m) [0..<n]) @ drop (2 * n) kn"
proof (induction n)
  case 0
  then show ?case by simp
next
  case (Suc n)
  let ?kn = "concat (map (subkey_pair pc1m) [0..<n]) @ drop (2 * n) kn"
  have "des_kn_step EN0 pc1m ?kn n = take (2 * n) ?kn @ subkey_pair pc1m n @ drop (2 * n + 2) ?kn"
    using Suc.prems by (intro kn_step) simp_all
  then show ?case using Suc by simp
qed

lemma kn_decrypt:
  "length kn = 32 \<Longrightarrow> n \<le> 16 \<Longrightarrow>
     foldl (des_kn_step DE1 pc1m) kn [0..<n] =
       take (32 - 2 * n) kn @ concat (map (subkey_pair pc1m) (rev [0..<n]))"
proof (induction n)
  case 0
  then show ?case by simp
next
  case (Suc n)
  let ?kn = "take (32 - 2 * n) kn @ concat (map (subkey_pair pc1m) (rev [0..<n]))"
  have m: "2 * (15 - n) = 30 - 2 * n" "30 - 2 * n + 2 = 32 - 2 * n"
    using Suc.prems by linarith+
  have "des_kn_step DE1 pc1m ?kn n =
      take (30 - 2 * n) ?kn @ subkey_pair pc1m n @ drop (30 - 2 * n + 2) ?kn"
    using Suc.prems by (intro kn_step) (simp_all add: m(1))
  also have "\<dots> = take (30 - 2 * n) kn @ concat (map (subkey_pair pc1m) (rev [0..<Suc n]))"
    using Suc.prems by (simp only: m(2)) (simp add: min_def)
  finally show ?case using Suc by simp
qed

definition cooked :: "bool list \<Rightarrow> nat \<Rightarrow> u64 list" where
  "cooked pc1m i = cook2 (subkey (des_pcr pc1m i) 0 24) (subkey (des_pcr pc1m i) 24 24)"

lemma nth_concat_pairs:
  assumes "\<And>i. f i = [a i, b i]" "i < length xs"
  shows "concat (map f xs) ! (2 * i) = a (xs ! i)" "concat (map f xs) ! (2 * i + 1) = b (xs ! i)"
  using assms(2)
proof (induction xs arbitrary: i)
  case (Cons x xs)
  {
    case 1
    then show ?case using Cons(1) by (cases i) (simp_all add: assms(1))
  next
    case 2
    then show ?case using Cons(2) by (cases i) (simp_all add: assms(1))
  }
qed simp_all

lemma cookey_pairs:
  assumes "length xs = 16"
  shows "cookey (concat (map (subkey_pair pc1m) xs)) kv = kv\<lparr>KnL := concat (map (cooked pc1m) xs)\<rparr>"
proof -
  let ?raw = "concat (map (subkey_pair pc1m) xs)"
  have "map (\<lambda>i. cook2 (?raw ! (2 * i)) (?raw ! (2 * i + 1))) [0..<16] = map (\<lambda>i. cooked pc1m (xs ! i)) [0..<16]"
    using assms nth_concat_pairs [of "subkey_pair pc1m", OF subkey_pair_def]
    by (intro map_cong) (simp_all add: cooked_def)
  also have "\<dots> = map (cooked pc1m) xs"
    using assms by (intro nth_equalityI) simp_all
  finally show ?thesis by (simp add: cookey_def usekey_def)
qed

lemma deskey_from_eq:
  assumes "length kn0 = 32"
  shows "deskey_from kn0 key EN0 kv = kv\<lparr>KnL := concat (map (cooked (des_pc1m key)) [0..<16])\<rparr>"
    "deskey_from kn0 key DE1 kv = kv\<lparr>KnL := concat (map (cooked (des_pc1m key)) (rev [0..<16]))\<rparr>"
proof -
  show "deskey_from kn0 key EN0 kv = kv\<lparr>KnL := concat (map (cooked (des_pc1m key)) [0..<16])\<rparr>"
    using kn_encrypt [of 16 kn0 "des_pc1m key"] assms cookey_pairs [of "[0..<16]" "des_pc1m key" kv]
    by (simp only: deskey_from_def) simp
  show "deskey_from kn0 key DE1 kv = kv\<lparr>KnL := concat (map (cooked (des_pc1m key)) (rev [0..<16]))\<rparr>"
    using kn_decrypt [of kn0 16 "des_pc1m key"] assms cookey_pairs [of "rev [0..<16]" "des_pc1m key" kv]
    by (simp only: deskey_from_def) simp
qed

text \<open>The content of the subkey array before the loop does not matter.\<close>

lemma kn_any: "length kn0 = 32 \<Longrightarrow> deskey_from kn0 key edf kv = deskey key edf kv"
  by (cases edf) (simp_all add: deskey_def deskey_from_eq)

lemma deskey_regs [simp]: "KnR (deskey key edf kv) = KnR kv" "Kn3 (deskey key edf kv) = Kn3 kv"
  by (cases edf; simp add: deskey_def deskey_from_eq)+

text \<open>The register that a key loads, whatever the registers held before.\<close>

definition schedule :: "byte list \<Rightarrow> des_mode \<Rightarrow> u64 list" where
  "schedule key edf = KnL (deskey key edf \<lparr>KnL = [], KnR = [], Kn3 = []\<rparr>)"

lemma KnL_deskey [simp]: "KnL (deskey key edf kv) = schedule key edf"
  by (cases edf) (simp_all add: schedule_def deskey_def deskey_from_eq)

lemma schedule_rev: "pairs 16 (schedule key (rev_mode edf)) = rev (pairs 16 (schedule key edf))"
proof -
  let ?a = "\<lambda>i. cooked (des_pc1m key) i ! 0" and ?b = "\<lambda>i. cooked (des_pc1m key) i ! 1"
  have c: "cooked (des_pc1m key) i = [?a i, ?b i]" for i
    by (simp add: cooked_def cook2_def)
  have p: "pairs 16 (concat (map (cooked (des_pc1m key)) xs)) = map (\<lambda>i. (?a i, ?b i)) xs"
    if "length xs = 16" for xs
    using nth_concat_pairs [of "cooked (des_pc1m key)" ?a ?b _ xs, OF c] that
    by (intro nth_equalityI) (simp_all add: pairs_def)
  show ?thesis
    by (cases edf) (simp_all add: schedule_def deskey_def deskey_from_eq rev_mode_def p rev_map
        del: upt_conv_Cons)
qed

lemma schedule_inverse:
  "eqb b c \<Longrightarrow> eqb (desfunc (schedule key (rev_mode edf)) (desfunc (schedule key edf) b)) c"
  using desfunc_inverse [OF schedule_rev] eqb_trans by blast

lemma rev_mode_twice [simp]: "rev_mode (rev_mode edf) = edf"
  by (cases edf) (simp_all add: rev_mode_def)

section \<open>The multiple modes\<close>

lemma des2key_regs:
  "KnL (des2key key mode kv) = schedule key mode"
  "KnR (des2key key mode kv) = schedule (drop 8 key) (rev_mode mode)"
  "Kn3 (des2key key mode kv) = schedule key mode"
  by (simp_all add: des2key_def Let_def cpkey_def)

lemma des3key_regs:
  "KnL (des3key key mode kv) = schedule (if mode = EN0 then key else drop 16 key) mode"
  "KnR (des3key key mode kv) = schedule (drop 8 key) (rev_mode mode)"
  "Kn3 (des3key key mode kv) = schedule (if mode = EN0 then drop 16 key else key) mode"
  by (simp_all add: des3key_def Let_def cpkey_def rev_mode_def)

text \<open>
  Registers that undo each other, in the order in which the multiple modes use them.
\<close>

definition undoes :: "key_var \<Rightarrow> key_var \<Rightarrow> bool" where
  "undoes kd ke \<longleftrightarrow>
     (\<forall>b c. eqb b c \<longrightarrow> eqb (desfunc (KnL kd) (desfunc (Kn3 ke) b)) c) \<and>
     (\<forall>b c. eqb b c \<longrightarrow> eqb (desfunc (KnR kd) (desfunc (KnR ke) b)) c) \<and>
     (\<forall>b c. eqb b c \<longrightarrow> eqb (desfunc (Kn3 kd) (desfunc (KnL ke) b)) c)"

lemma undoesD:
  assumes "undoes kd ke"
  shows "eqb b c \<Longrightarrow> eqb (desfunc (KnL kd) (desfunc (Kn3 ke) b)) c"
    "eqb b c \<Longrightarrow> eqb (desfunc (KnR kd) (desfunc (KnR ke) b)) c"
    "eqb b c \<Longrightarrow> eqb (desfunc (Kn3 kd) (desfunc (KnL ke) b)) c"
  using assms unfolding undoes_def by blast+

lemma des2key_undoes: "undoes (des2key key (rev_mode mode) kv') (des2key key mode kv)"
  unfolding undoes_def des2key_regs
  using schedule_inverse [of _ _ key mode] schedule_inverse [of _ _ "drop 8 key" "rev_mode mode"]
  by blast

lemma des3key_undoes: "undoes (des3key key (rev_mode mode) kv') (des3key key mode kv)"
proof -
  have "rev_mode mode = EN0 \<longleftrightarrow> mode \<noteq> EN0" by (cases mode) (simp_all add: rev_mode_def)
  then show ?thesis
    unfolding undoes_def des3key_regs
    using schedule_inverse [of _ _ key mode] schedule_inverse [of _ _ "drop 8 key" "rev_mode mode"]
      schedule_inverse [of _ _ "drop 16 key" mode] by (cases "mode = EN0") simp_all
qed

definition eqb2 :: "block \<times> block \<Rightarrow> block \<times> block \<Rightarrow> bool" where
  "eqb2 s t \<longleftrightarrow> eqb (fst s) (fst t) \<and> eqb (snd s) (snd t)"

lemma both2_cong: "eqb2 s t \<Longrightarrow> both2 ks s = both2 ks t"
  by (auto simp: eqb2_def both2_def intro: desfunc_cong)

lemma swap2_eqb: "eqb2 s t \<Longrightarrow> eqb2 (swap2 s) (swap2 t)"
  by (auto simp: eqb2_def eqb_def swap2_def split: prod.splits)

lemma swap2_swap2 [simp]: "swap2 (swap2 s) = s"
  by (simp add: swap2_def split: prod.splits)

definition eqb3 :: "block \<times> block \<times> block \<Rightarrow> block \<times> block \<times> block \<Rightarrow> bool" where
  "eqb3 s t \<longleftrightarrow> eqb (fst s) (fst t) \<and> eqb (fst (snd s)) (fst (snd t)) \<and> eqb (snd (snd s)) (snd (snd t))"

lemma both3_cong: "eqb3 s t \<Longrightarrow> both3 ks s = both3 ks t"
  by (auto simp: eqb3_def both3_def intro: desfunc_cong)

lemma swap3_eqb: "eqb3 s t \<Longrightarrow> eqb3 (swap3 s) (swap3 t)"
  by (auto simp: eqb3_def eqb_def swap3_def split: prod.splits)

lemma swap3_swap3 [simp]: "swap3 (swap3 s) = s"
  by (simp add: swap3_def split: prod.splits)

lemma Ddes_undoes:
  assumes "undoes kd ke" "length p = 8"
  shows "Ddes (Ddes p ke) kd = p"
proof -
  let ?l = "desfunc (KnL ke) (scrunch p)"
  let ?r = "desfunc (KnR ke) ?l"
  let ?b = "desfunc (Kn3 ke) ?r"
  have "desfunc (KnL kd) (scrunch (unscrun ?b)) = desfunc (KnL kd) ?b"
    by (rule desfunc_cong [OF scrunch_unscrun])
  moreover have "desfunc (KnR kd) (desfunc (KnL kd) ?b) = desfunc (KnR kd) ?r"
    by (rule desfunc_cong [OF undoesD(1) [OF assms(1) eqb_refl]])
  moreover have "desfunc (Kn3 kd) (desfunc (KnR kd) ?r) = desfunc (Kn3 kd) ?l"
    by (rule desfunc_cong [OF undoesD(2) [OF assms(1) eqb_refl]])
  moreover have "unscrun (desfunc (Kn3 kd) ?l) = p"
    using unscrun_cong [OF undoesD(3) [OF assms(1) eqb_refl]] unscrun_scrunch [OF assms(2)] by simp
  ultimately show ?thesis by (simp add: Ddes_def)
qed

lemma undoes_both:
  assumes "undoes kd ke"
  shows "eqb2 s t \<Longrightarrow> eqb2 (both2 (KnL kd) (both2 (Kn3 ke) s)) t"
    "eqb2 s t \<Longrightarrow> eqb2 (both2 (KnR kd) (both2 (KnR ke) s)) t"
    "eqb2 s t \<Longrightarrow> eqb2 (both2 (Kn3 kd) (both2 (KnL ke) s)) t"
    "eqb3 s' t' \<Longrightarrow> eqb3 (both3 (KnL kd) (both3 (Kn3 ke) s')) t'"
    "eqb3 s' t' \<Longrightarrow> eqb3 (both3 (KnR kd) (both3 (KnR ke) s')) t'"
    "eqb3 s' t' \<Longrightarrow> eqb3 (both3 (Kn3 kd) (both3 (KnL ke) s')) t'"
  by (simp_all add: undoesD [OF assms] eqb2_def both2_def eqb3_def both3_def)

lemma eqb2_refl [simp]: "eqb2 s s" and eqb3_refl [simp]: "eqb3 s' s'"
  by (simp_all add: eqb2_def eqb3_def)

text \<open>The three passes of the double and triple length ciphers on the halves.\<close>

definition core2 :: "key_var \<Rightarrow> block \<times> block \<Rightarrow> block \<times> block" where
  "core2 kv s = both2 (Kn3 kv) (swap2 (both2 (KnR kv) (swap2 (both2 (KnL kv) s))))"

definition core3 :: "key_var \<Rightarrow> block \<times> block \<times> block \<Rightarrow> block \<times> block \<times> block" where
  "core3 kv s = both3 (Kn3 kv) (swap3 (both3 (KnR kv) (swap3 (both3 (KnL kv) s))))"

lemma core2_undoes:
  assumes "undoes kd ke" "eqb2 t (core2 ke s)"
  shows "eqb2 (core2 kd t) s"
proof -
  define l where "l = both2 (KnL ke) s"
  define r where "r = both2 (KnR ke) (swap2 l)"
  have 0: "both2 (KnL kd) t = both2 (KnL kd) (both2 (Kn3 ke) (swap2 r))"
    using both2_cong [OF assms(2)] by (simp add: core2_def l_def r_def)
  have 1: "eqb2 (swap2 (both2 (KnL kd) t)) r"
    unfolding 0 using swap2_eqb [OF undoes_both(1) [OF assms(1) eqb2_refl [of "swap2 r"]]] by simp
  have 2: "eqb2 (swap2 (both2 (KnR kd) r)) l"
    using swap2_eqb [OF undoes_both(2) [OF assms(1) eqb2_refl [of "swap2 l"]]] by (simp add: r_def)
  have 3: "eqb2 (both2 (Kn3 kd) l) s"
    unfolding l_def by (rule undoes_both(3) [OF assms(1) eqb2_refl])
  show ?thesis
    using 3 by (simp add: core2_def both2_cong [OF 1] both2_cong [OF 2])
qed

lemma core3_undoes:
  assumes "undoes kd ke" "eqb3 t (core3 ke s)"
  shows "eqb3 (core3 kd t) s"
proof -
  define l where "l = both3 (KnL ke) s"
  define r where "r = both3 (KnR ke) (swap3 l)"
  have 0: "both3 (KnL kd) t = both3 (KnL kd) (both3 (Kn3 ke) (swap3 r))"
    using both3_cong [OF assms(2)] by (simp add: core3_def l_def r_def)
  have 1: "eqb3 (swap3 (both3 (KnL kd) t)) r"
    unfolding 0 using swap3_eqb [OF undoes_both(4) [OF assms(1) eqb3_refl [of "swap3 r"]]] by simp
  have 2: "eqb3 (swap3 (both3 (KnR kd) r)) l"
    using swap3_eqb [OF undoes_both(5) [OF assms(1) eqb3_refl [of "swap3 l"]]] by (simp add: r_def)
  have 3: "eqb3 (both3 (Kn3 kd) l) s"
    unfolding l_def by (rule undoes_both(6) [OF assms(1) eqb3_refl])
  show ?thesis
    using 3 by (simp add: core3_def both3_cong [OF 1] both3_cong [OF 2])
qed

lemma unscrun_scrunch_take: "8 \<le> length p \<Longrightarrow> unscrun (scrunch p) = take 8 p"
  using unscrun_scrunch [of "take 8 p"] by (simp add: scrunch_def be4_def)

lemma D2des_undoes:
  assumes "undoes kd ke" "length p = 16"
  shows "D2des (D2des p ke) kd = p"
proof -
  define s where "s = (scrunch p, scrunch (drop 8 p))"
  define b where "b = core2 ke s"
  have ke: "D2des p ke = unscrun (fst b) @ unscrun (snd b)"
    by (simp add: D2des_def Let_def b_def s_def core2_def)
  define t where "t = (scrunch (D2des p ke), scrunch (drop 8 (D2des p ke)))"
  have kd: "D2des (D2des p ke) kd = unscrun (fst (core2 kd t)) @ unscrun (snd (core2 kd t))"
    by (simp add: D2des_def [of "D2des p ke"] Let_def t_def core2_def)
  have "eqb2 t b"
    by (simp add: t_def ke eqb2_def scrunch_append scrunch_unscrun)
  then have "eqb2 (core2 kd t) s" unfolding b_def by (rule core2_undoes [OF assms(1)])
  then have "D2des (D2des p ke) kd = unscrun (fst s) @ unscrun (snd s)"
    unfolding kd eqb2_def by (metis unscrun_cong)
  then show ?thesis
    using assms(2) by (simp add: s_def unscrun_scrunch_take)
qed

lemma D3des_undoes:
  assumes "undoes kd ke" "length p = 24"
  shows "D3des (D3des p ke) kd = p"
proof -
  define s where "s = (scrunch p, scrunch (drop 8 p), scrunch (drop 16 p))"
  define b where "b = core3 ke s"
  have ke: "D3des p ke = unscrun (fst b) @ unscrun (fst (snd b)) @ unscrun (snd (snd b))"
    by (simp add: D3des_def Let_def b_def s_def core3_def)
  define c where "c = D3des p ke"
  define t where "t = (scrunch c, scrunch (drop 8 c), scrunch (drop 16 c))"
  have kd: "D3des c kd =
      unscrun (fst (core3 kd t)) @ unscrun (fst (snd (core3 kd t))) @ unscrun (snd (snd (core3 kd t)))"
    by (simp add: D3des_def Let_def t_def core3_def)
  have "eqb3 t b"
    by (simp add: t_def c_def ke eqb3_def scrunch_append scrunch_unscrun)
  then have "eqb3 (core3 kd t) s" unfolding b_def by (rule core3_undoes [OF assms(1)])
  then have "D3des c kd = unscrun (fst s) @ unscrun (fst (snd s)) @ unscrun (snd (snd s))"
    unfolding kd eqb3_def by (metis unscrun_cong)
  moreover have "take 8 p @ take 8 (drop 8 p) @ drop 16 p = p"
    using append_take_drop_id [of 8 "drop 8 p"] by simp
  ultimately show ?thesis
    using assms(2) by (simp add: c_def s_def unscrun_scrunch_take)
qed

section \<open>Keys from passwords\<close>

definition regs_ok :: "key_var \<Rightarrow> bool" where
  "regs_ok kv \<longleftrightarrow> length (KnL kv) = 32 \<and> length (KnR kv) = 32 \<and> length (Kn3 kv) = 32"

lemma use_cp_key: "regs_ok kv \<Longrightarrow> use3key (cp3key kv) kv' = kv"
  by (cases kv, cases kv') (simp add: use3key_def cp3key_def cpkey_def usekey_def regs_ok_def)

lemma length_key_cipher [simp]: "length (key_cipher len k kv) = key_bytes len"
  by (cases len) simp_all

lemma pw_loop_end [simp]: "pw_loop len kv False [] z k = (k, z)"
  by (subst pw_loop.simps) simp

lemma pw_loop_erases:
  "pw_loop len kv first s z k = (k', z') \<Longrightarrow> z' = z + length s"
proof (induction len kv first s z k rule: pw_loop.induct)
  case (1 len kv first s z k)
  show ?case
  proof (cases "s \<noteq> [] \<or> first")
    case True
    then show ?thesis using 1 by (auto simp: pw_loop.simps [of len kv first])
  next
    case False
    then show ?thesis using 1(2) by (simp add: pw_loop.simps [of len kv first])
  qed
qed

lemma pw_loop_len:
  "pw_loop len kv first s z k = (k', z') \<Longrightarrow> length k = key_bytes len \<Longrightarrow> length k' = key_bytes len"
proof (induction len kv first s z k rule: pw_loop.induct)
  case (1 len kv first s z k)
  then show ?case
    by (cases "s \<noteq> [] \<or> first") (auto simp: pw_loop.simps [of len kv first])
qed

definition low7 :: "cstr \<Rightarrow> byte list" where
  "low7 s = map (\<lambda>c. c AND 0x7f) s"

lemma xor_chars_low7: "xor_chars k s = map2 (XOR) (take (length (low7 s)) k) (take (length k) (low7 s)) @
    drop (length (low7 s)) k"
  by (simp add: xor_chars_def low7_def take_map map2_map_map zip_map2 split_beta)

lemma pw_loop_low7:
  "low7 s = low7 s' \<Longrightarrow> pw_loop len kv first s z k = pw_loop len kv first s' z k"
proof (induction len kv first s z k arbitrary: s' rule: pw_loop.induct)
  case (1 len kv first s z k)
  have l: "length s = length s'" using 1(2) by (metis low7_def length_map)
  then have e: "s = [] \<longleftrightarrow> s' = []" by (cases s; cases s') simp_all
  have x: "xor_chars k s = xor_chars k s'" by (simp add: xor_chars_low7 1(2))
  have "low7 (drop n s) = low7 (drop n s')" for n
    using 1(2) by (simp add: low7_def flip: drop_map)
  then show ?case
    using 1(1) e by (cases "s' \<noteq> [] \<or> first") (auto simp: pw_loop.simps [of len kv first] x l)
qed

lemma key_default_regs: "key_cipher len k (key_default len kv) = key_cipher len k (key_default len kv')"
  by (cases len) (simp_all add: Ddes_def D2des_def D3des_def Let_def des2key_regs des3key_regs)

lemma pw_loop_regs:
  "pw_loop len (key_default len kv) first s z k = pw_loop len (key_default len kv') first s z k"
proof (induction len "key_default len kv" first s z k rule: pw_loop.induct)
  case (1 len first s z k)
  then show ?case
    by (cases "s \<noteq> [] \<or> first")
      (simp_all add: pw_loop.simps [of len _ first] key_default_regs [of len _ kv kv'])
qed

section \<open>Properties\<close>

abbreviation empty_regs :: key_var where
  "empty_regs \<equiv> \<lparr>KnL = [], KnR = [], Kn3 = []\<rparr>"

text \<open>
  Decrypting with a key what was encrypted with it gives the block back, and the other way
  round, whatever the key registers held before: the garbage that 64-bit words leave above the
  32-bit halves never reaches the output.
\<close>

lemma des_roundtrip:
  assumes "length p = 8" "8 \<le> length key"
  shows "des (des p (deskey key mode kv)) (deskey key (rev_mode mode) kv') = p"
  using schedule_inverse [OF scrunch_unscrun] unscrun_cong [OF schedule_inverse [OF eqb_refl]]
    desfunc_cong [OF scrunch_unscrun] unscrun_scrunch [OF assms(1)]
  by (simp add: des_def)

lemma des_roundtrip_example:
  "des (des [1, 2, 3, 4, 5, 6, 7, 8] (deskey Df_Key EN0 empty_regs)) (deskey Df_Key DE1 empty_regs) =
     [1, 2, 3, 4, 5, 6, 7, 8]"
  using des_roundtrip [of "[1, 2, 3, 4, 5, 6, 7, 8]" Df_Key EN0 empty_regs empty_regs]
  by (simp add: rev_mode_def Df_Key_def)

text \<open>
  C22: The multiple-length modes decrypt what they encrypt: one block under a double or a triple
  key, and the sixteen and twenty-four byte blocks whose halves are exchanged between the passes.
\<close>

theorem multiple_des_roundtrip:
  assumes "length p = 8" "length q = 16" "length r = 24" "16 \<le> length key2" "length key3 = 24"
  shows "Ddes (Ddes p (des2key key2 mode kv)) (des2key key2 (rev_mode mode) kv') = p \<and>
     Ddes (Ddes p (des3key key3 mode kv)) (des3key key3 (rev_mode mode) kv') = p \<and>
     D2des (D2des q (des2key key2 mode kv)) (des2key key2 (rev_mode mode) kv') = q \<and>
     D3des (D3des r (des3key key3 mode kv)) (des3key key3 (rev_mode mode) kv') = r"
  using assms by (simp add: Ddes_undoes D2des_undoes D3des_undoes des2key_undoes des3key_undoes)

theorem multiple_des_roundtrip_witness:
  "D3des (D3des Df_Key (des3key Df_Key EN0 empty_regs)) (des3key Df_Key DE1 empty_regs) = Df_Key"
  using multiple_des_roundtrip
    [of "take 8 Df_Key" "take 16 Df_Key" Df_Key "take 16 Df_Key" Df_Key EN0 empty_regs empty_regs]
  by (simp add: rev_mode_def Df_Key_def)

text \<open>
  Making a key from a password overwrites every character of the password with zero, restores
  the key registers of the caller, and produces a key of the right length that depends neither on
  these registers nor on the top bits of the characters.
\<close>

lemma make_key_result:
  assumes "regs_ok kv" "make_key len pw kv = (k, mem, kv')"
  shows "kv' = kv \<and> mem = replicate (length pw) 0 \<and> length k = key_bytes len \<and>
     (\<forall>pw' kv2. low7 pw' = low7 pw \<longrightarrow> fst (make_key len pw' kv2) = k)"
proof -
  let ?D = "take (key_bytes len) Df_Key"
  obtain k1 z where l: "pw_loop len (key_default len kv) True pw 0 ?D = (k1, z)" by fastforce
  have "length ?D = key_bytes len" by (cases len) (simp_all add: Df_Key_def)
  then have "length k1 = key_bytes len" using pw_loop_len [OF l] by simp
  moreover have "z = length pw" using pw_loop_erases [OF l] by simp
  moreover have "fst (make_key len pw' kv2) = k1" if "low7 pw' = low7 pw" for pw' kv2
    using pw_loop_low7 [OF that, of len] pw_loop_regs [of len kv2 True pw 0 ?D kv] l
    by (simp add: make_key_def split_beta)
  ultimately show ?thesis
    using assms l by (simp add: make_key_def use_cp_key)
qed

lemma make_key_result_example:
  "\<exists>k. make_key Single [97, 98] \<lparr>KnL = replicate 32 1, KnR = replicate 32 2, Kn3 = replicate 32 3\<rparr> =
     (k, [0, 0], \<lparr>KnL = replicate 32 1, KnR = replicate 32 2, Kn3 = replicate 32 3\<rparr>) \<and> length k = 8"
proof -
  let ?kv = "\<lparr>KnL = replicate 32 1, KnR = replicate 32 2, Kn3 = replicate 32 3\<rparr>"
  obtain k mem kv' where m: "make_key Single [97, 98] ?kv = (k, mem, kv')"
    by (cases "make_key Single [97, 98] ?kv")
  then show ?thesis
    using make_key_result [OF _ m] by (simp add: regs_ok_def numeral_2_eq_2)
qed

end
