(* ===== verification/TF_MD5.thy ===== *)
theory TF_MD5
  imports TF_Prelude
begin

text \<open>
  The MD5 digest of \<open>expert/md5.c\<close>: the unrolled transform, the incremental update and the
  padding, on a little-endian machine (where \<open>byteReverse\<close> stores back what it loads), and the
  digest of RFC 1321 as its specification: a compression function driven by the formulas of the
  RFC for the order of the words and the shifts, iterated over the padded message.
\<close>

section \<open>Words and bytes\<close>

definition le4 :: "byte list \<Rightarrow> u32" where
  "le4 p = push_bit 16 (push_bit 8 (ucast (p ! 3)) OR ucast (p ! 2)) OR
     (push_bit 8 (ucast (p ! 1)) OR ucast (p ! 0))"

text \<open>A \<open>uint32_t\<close> in memory.\<close>

definition st4 :: "u32 \<Rightarrow> byte list" where
  "st4 x = [ucast x, ucast (drop_bit 8 x), ucast (drop_bit 16 x), ucast (drop_bit 24 x)]"

definition words16 :: "byte list \<Rightarrow> u32 list" where
  "words16 p = map (\<lambda>i. le4 (drop (4 * i) p)) [0..<16]"

fun byteReverse :: "byte list \<Rightarrow> nat \<Rightarrow> byte list" where
  "byteReverse buf 0 = buf"
| "byteReverse buf (Suc longs) = st4 (le4 buf) @ byteReverse (drop 4 buf) longs"

section \<open>The transform\<close>

definition F1 :: "u32 \<Rightarrow> u32 \<Rightarrow> u32 \<Rightarrow> u32" where "F1 x y z = z XOR (x AND (y XOR z))"
definition F2 :: "u32 \<Rightarrow> u32 \<Rightarrow> u32 \<Rightarrow> u32" where "F2 x y z = F1 z x y"
definition F3 :: "u32 \<Rightarrow> u32 \<Rightarrow> u32 \<Rightarrow> u32" where "F3 x y z = x XOR y XOR z"
definition F4 :: "u32 \<Rightarrow> u32 \<Rightarrow> u32 \<Rightarrow> u32" where "F4 x y z = y XOR (x OR NOT z)"

definition MD5STEP :: "(u32 \<Rightarrow> u32 \<Rightarrow> u32 \<Rightarrow> u32) \<Rightarrow> u32 \<Rightarrow> u32 \<Rightarrow> u32 \<Rightarrow> u32 \<Rightarrow> u32 \<Rightarrow> nat \<Rightarrow> u32" where
  "MD5STEP f w x y z data s =
     (let w = w + (f x y z + data);
          w = push_bit s w OR drop_bit (32 - s) w
      in w + x)"

type_synonym md5_buf = "u32 \<times> u32 \<times> u32 \<times> u32"

text \<open>
  The unrolled steps, one entry for each line of the code: the function, the register that the
  step changes (it fixes the order of the others), the index of the input word, the constant and
  the shift.
\<close>

datatype md5_reg = RegA | RegB | RegC | RegD

type_synonym md5_line = "(u32 \<Rightarrow> u32 \<Rightarrow> u32 \<Rightarrow> u32) \<times> md5_reg \<times> nat \<times> u32 \<times> nat"

definition md5_round1 :: "md5_line list" where
  "md5_round1 =
    [(F1, RegA, 0, 0xd76aa478, 7), (F1, RegD, 1, 0xe8c7b756, 12),
     (F1, RegC, 2, 0x242070db, 17), (F1, RegB, 3, 0xc1bdceee, 22),
     (F1, RegA, 4, 0xf57c0faf, 7), (F1, RegD, 5, 0x4787c62a, 12),
     (F1, RegC, 6, 0xa8304613, 17), (F1, RegB, 7, 0xfd469501, 22),
     (F1, RegA, 8, 0x698098d8, 7), (F1, RegD, 9, 0x8b44f7af, 12),
     (F1, RegC, 10, 0xffff5bb1, 17), (F1, RegB, 11, 0x895cd7be, 22),
     (F1, RegA, 12, 0x6b901122, 7), (F1, RegD, 13, 0xfd987193, 12),
     (F1, RegC, 14, 0xa679438e, 17), (F1, RegB, 15, 0x49b40821, 22)]"

definition md5_round2 :: "md5_line list" where
  "md5_round2 =
    [(F2, RegA, 1, 0xf61e2562, 5), (F2, RegD, 6, 0xc040b340, 9),
     (F2, RegC, 11, 0x265e5a51, 14), (F2, RegB, 0, 0xe9b6c7aa, 20),
     (F2, RegA, 5, 0xd62f105d, 5), (F2, RegD, 10, 0x02441453, 9),
     (F2, RegC, 15, 0xd8a1e681, 14), (F2, RegB, 4, 0xe7d3fbc8, 20),
     (F2, RegA, 9, 0x21e1cde6, 5), (F2, RegD, 14, 0xc33707d6, 9),
     (F2, RegC, 3, 0xf4d50d87, 14), (F2, RegB, 8, 0x455a14ed, 20),
     (F2, RegA, 13, 0xa9e3e905, 5), (F2, RegD, 2, 0xfcefa3f8, 9),
     (F2, RegC, 7, 0x676f02d9, 14), (F2, RegB, 12, 0x8d2a4c8a, 20)]"

definition md5_round3 :: "md5_line list" where
  "md5_round3 =
    [(F3, RegA, 5, 0xfffa3942, 4), (F3, RegD, 8, 0x8771f681, 11),
     (F3, RegC, 11, 0x6d9d6122, 16), (F3, RegB, 14, 0xfde5380c, 23),
     (F3, RegA, 1, 0xa4beea44, 4), (F3, RegD, 4, 0x4bdecfa9, 11),
     (F3, RegC, 7, 0xf6bb4b60, 16), (F3, RegB, 10, 0xbebfbc70, 23),
     (F3, RegA, 13, 0x289b7ec6, 4), (F3, RegD, 0, 0xeaa127fa, 11),
     (F3, RegC, 3, 0xd4ef3085, 16), (F3, RegB, 6, 0x04881d05, 23),
     (F3, RegA, 9, 0xd9d4d039, 4), (F3, RegD, 12, 0xe6db99e5, 11),
     (F3, RegC, 15, 0x1fa27cf8, 16), (F3, RegB, 2, 0xc4ac5665, 23)]"

definition md5_round4 :: "md5_line list" where
  "md5_round4 =
    [(F4, RegA, 0, 0xf4292244, 6), (F4, RegD, 7, 0x432aff97, 10),
     (F4, RegC, 14, 0xab9423a7, 15), (F4, RegB, 5, 0xfc93a039, 21),
     (F4, RegA, 12, 0x655b59c3, 6), (F4, RegD, 3, 0x8f0ccc92, 10),
     (F4, RegC, 10, 0xffeff47d, 15), (F4, RegB, 1, 0x85845dd1, 21),
     (F4, RegA, 8, 0x6fa87e4f, 6), (F4, RegD, 15, 0xfe2ce6e0, 10),
     (F4, RegC, 6, 0xa3014314, 15), (F4, RegB, 13, 0x4e0811a1, 21),
     (F4, RegA, 4, 0xf7537e82, 6), (F4, RegD, 11, 0xbd3af235, 10),
     (F4, RegC, 2, 0x2ad7d2bb, 15), (F4, RegB, 9, 0xeb86d391, 21)]"

definition md5_exec :: "u32 list \<Rightarrow> md5_buf \<Rightarrow> md5_line \<Rightarrow> md5_buf" where
  "md5_exec inw s line =
     (case s of (a, b, c, d) \<Rightarrow> case line of (f, r, i, t, sh) \<Rightarrow>
      (case r of
         RegA \<Rightarrow> (MD5STEP f a b c d (inw ! i + t) sh, b, c, d)
       | RegD \<Rightarrow> (a, b, c, MD5STEP f d a b c (inw ! i + t) sh)
       | RegC \<Rightarrow> (a, b, MD5STEP f c d a b (inw ! i + t) sh, d)
       | RegB \<Rightarrow> (a, MD5STEP f b c d a (inw ! i + t) sh, c, d)))"

definition MD5Transform :: "md5_buf \<Rightarrow> u32 list \<Rightarrow> md5_buf" where
  "MD5Transform buf inw =
     (let (a, b, c, d) =
            foldl (md5_exec inw) buf (md5_round1 @ md5_round2 @ md5_round3 @ md5_round4)
      in case buf of (a0, b0, c0, d0) \<Rightarrow> (a0 + a, b0 + b, c0 + c, d0 + d))"

section \<open>The context\<close>

record md5_ctx =
  m_buf :: md5_buf
  m_bits0 :: u32
  m_bits1 :: u32
  m_in :: "byte list"

text \<open>The content of the input block before the initialisation stays: \<open>MD5Init\<close> does not touch it.\<close>

definition MD5Init :: "md5_ctx \<Rightarrow> md5_ctx" where
  "MD5Init ctx = ctx\<lparr>m_buf := (0x67452301, 0xefcdab89, 0x98badcfe, 0x10325476),
     m_bits0 := 0, m_bits1 := 0\<rparr>"

definition md5_block :: "md5_ctx \<Rightarrow> md5_ctx" where
  "md5_block ctx =
     (let inb = byteReverse (m_in ctx) 16
      in ctx\<lparr>m_in := inb, m_buf := MD5Transform (m_buf ctx) (words16 inb)\<rparr>)"

text \<open>The loop over the full blocks of the input; the rest of it is returned.\<close>

function md5_blocks :: "md5_ctx \<Rightarrow> byte list \<Rightarrow> c_error + md5_ctx \<times> byte list" where
  "md5_blocks ctx buf =
     (if 64 \<le> length buf
      then rbind (blit (m_in ctx) 0 (take 64 buf)) (\<lambda>inb.
           md5_blocks (md5_block (ctx\<lparr>m_in := inb\<rparr>)) (drop 64 buf))
      else Inr (ctx, buf))"
  by pat_completeness auto
termination by (relation "measure (\<lambda>(ctx, buf). length buf)") auto

declare md5_blocks.simps [simp del]

definition md5_count :: "md5_ctx \<Rightarrow> u32 \<Rightarrow> md5_ctx" where
  "md5_count ctx len =
     (let t = m_bits0 ctx;
          b0 = t + push_bit 3 len;
          b1 = (if b0 < t then m_bits1 ctx + 1 else m_bits1 ctx)
      in ctx\<lparr>m_bits0 := b0, m_bits1 := b1 + drop_bit 29 len\<rparr>)"

definition MD5Update :: "md5_ctx \<Rightarrow> byte list \<Rightarrow> c_error + md5_ctx" where
  "MD5Update ctx buf =
     (let t = unat (drop_bit 3 (m_bits0 ctx) AND 0x3f);
          ctx = md5_count ctx (of_nat (length buf))
      in if t \<noteq> 0 \<and> length buf < 64 - t
         then rbind (blit (m_in ctx) t buf) (\<lambda>inb. Inr (ctx\<lparr>m_in := inb\<rparr>))
         else rbind (if t \<noteq> 0
                     then rbind (blit (m_in ctx) t (take (64 - t) buf)) (\<lambda>inb.
                          Inr (md5_block (ctx\<lparr>m_in := inb\<rparr>), drop (64 - t) buf))
                     else Inr (ctx, buf)) (\<lambda>(ctx, buf).
              rbind (md5_blocks ctx buf) (\<lambda>(ctx, buf).
              rbind (blit (m_in ctx) 0 buf) (\<lambda>inb. Inr (ctx\<lparr>m_in := inb\<rparr>)))))"

text \<open>
  The last steps: the length goes into the block, which is then transformed.
  \<open>memset(ctx, 0, sizeof(ctx))\<close> clears the size of a pointer: the first eight bytes of the
  context, which are the first two words of the buffer.
\<close>

definition md5_finish :: "md5_ctx \<Rightarrow> c_error + byte list \<times> md5_ctx" where
  "md5_finish ctx =
     (let inb = byteReverse (m_in ctx) 14
      in rbind (blit inb 56 (st4 (m_bits0 ctx))) (\<lambda>inb.
         rbind (blit inb 60 (st4 (m_bits1 ctx))) (\<lambda>inb.
         let (a, b, c, d) = MD5Transform (m_buf ctx) (words16 inb)
         in Inr (byteReverse (st4 a @ st4 b @ st4 c @ st4 d) 4,
                 ctx\<lparr>m_in := inb, m_buf := (0, 0, c, d)\<rparr>))))"

definition MD5Final :: "md5_ctx \<Rightarrow> c_error + byte list \<times> md5_ctx" where
  "MD5Final ctx =
     (let count = unat (drop_bit 3 (m_bits0 ctx) AND 0x3f);
          pad = 64 - 1 - count
      in rbind (blit (m_in ctx) count [0x80]) (\<lambda>inb.
         rbind (if pad < 8
                then rbind (blit inb (count + 1) (replicate pad 0)) (\<lambda>inb.
                     let ctx = md5_block (ctx\<lparr>m_in := inb\<rparr>)
                     in rbind (blit (m_in ctx) 0 (replicate 56 0)) (\<lambda>inb. Inr (ctx\<lparr>m_in := inb\<rparr>)))
                else rbind (blit inb (count + 1) (replicate (pad - 8) 0)) (\<lambda>inb.
                     Inr (ctx\<lparr>m_in := inb\<rparr>))) md5_finish))"

section \<open>The digest of the RFC\<close>

definition rfc_T :: "u32 list" where
  "rfc_T =
    [0xd76aa478, 0xe8c7b756, 0x242070db, 0xc1bdceee, 0xf57c0faf, 0x4787c62a, 0xa8304613, 0xfd469501,
     0x698098d8, 0x8b44f7af, 0xffff5bb1, 0x895cd7be, 0x6b901122, 0xfd987193, 0xa679438e, 0x49b40821,
     0xf61e2562, 0xc040b340, 0x265e5a51, 0xe9b6c7aa, 0xd62f105d, 0x02441453, 0xd8a1e681, 0xe7d3fbc8,
     0x21e1cde6, 0xc33707d6, 0xf4d50d87, 0x455a14ed, 0xa9e3e905, 0xfcefa3f8, 0x676f02d9, 0x8d2a4c8a,
     0xfffa3942, 0x8771f681, 0x6d9d6122, 0xfde5380c, 0xa4beea44, 0x4bdecfa9, 0xf6bb4b60, 0xbebfbc70,
     0x289b7ec6, 0xeaa127fa, 0xd4ef3085, 0x04881d05, 0xd9d4d039, 0xe6db99e5, 0x1fa27cf8, 0xc4ac5665,
     0xf4292244, 0x432aff97, 0xab9423a7, 0xfc93a039, 0x655b59c3, 0x8f0ccc92, 0xffeff47d, 0x85845dd1,
     0x6fa87e4f, 0xfe2ce6e0, 0xa3014314, 0x4e0811a1, 0xf7537e82, 0xbd3af235, 0x2ad7d2bb, 0xeb86d391]"

definition rfc_func :: "nat \<Rightarrow> u32 \<Rightarrow> u32 \<Rightarrow> u32 \<Rightarrow> u32" where
  "rfc_func i x y z =
     (if i < 16 then (x AND y) OR (NOT x AND z)
      else if i < 32 then (x AND z) OR (y AND NOT z)
      else if i < 48 then x XOR y XOR z
      else y XOR (x OR NOT z))"

definition rfc_index :: "nat \<Rightarrow> nat" where
  "rfc_index i =
     (if i < 16 then i else if i < 32 then (5 * i + 1) mod 16
      else if i < 48 then (3 * i + 5) mod 16 else 7 * i mod 16)"

definition rfc_shift :: "nat \<Rightarrow> nat" where
  "rfc_shift i =
     (if i < 16 then [7, 12, 17, 22] else if i < 32 then [5, 9, 14, 20]
      else if i < 48 then [4, 11, 16, 23] else [6, 10, 15, 21]) ! (i mod 4)"

text \<open>One of the 64 operations; the registers rotate instead of the operands.\<close>

definition rfc_step :: "u32 list \<Rightarrow> md5_buf \<Rightarrow> nat \<Rightarrow> md5_buf" where
  "rfc_step X s i =
     (case s of (a, b, c, d) \<Rightarrow>
      (d, b + word_rotl (rfc_shift i) (a + rfc_func i b c d + X ! rfc_index i + rfc_T ! i), b, c))"

definition rfc_compress :: "md5_buf \<Rightarrow> byte list \<Rightarrow> md5_buf" where
  "rfc_compress h p =
     (case (h, foldl (rfc_step (words16 p)) h [0..<64]) of
       ((a0, b0, c0, d0), (a, b, c, d)) \<Rightarrow> (a0 + a, b0 + b, c0 + c, d0 + d))"

function rfc_blocks :: "md5_buf \<Rightarrow> byte list \<Rightarrow> md5_buf" where
  "rfc_blocks h m =
     (if 64 \<le> length m then rfc_blocks (rfc_compress h (take 64 m)) (drop 64 m) else h)"
  by pat_completeness auto
termination by (relation "measure (\<lambda>(h, m). length m)") auto

declare rfc_blocks.simps [simp del]

definition rfc_pad :: "byte list \<Rightarrow> byte list" where
  "rfc_pad m =
     m @ 0x80 # replicate ((119 - length m mod 64) mod 64) 0 @
     st4 (of_nat (8 * length m)) @ st4 (of_nat (8 * length m div 0x100000000))"

definition rfc_init :: md5_buf where
  "rfc_init = (0x67452301, 0xefcdab89, 0x98badcfe, 0x10325476)"

definition rfc_md5 :: "byte list \<Rightarrow> byte list" where
  "rfc_md5 m =
     (case rfc_blocks rfc_init (rfc_pad m) of (a, b, c, d) \<Rightarrow> st4 a @ st4 b @ st4 c @ st4 d)"

section \<open>The transform is the compression function of the RFC\<close>

lemma rotl_shifts: "s < 32 \<Longrightarrow> push_bit s (w :: u32) OR drop_bit (32 - s) w = word_rotl s w"
proof (rule bit_word_eqI)
  fix n
  assume "s < 32" "n < LENGTH(32)"
  then show "bit (push_bit s w OR drop_bit (32 - s) w) n = bit (word_rotl s w) n"
    using bit_imp_le_length [of w "32 - s + n"]
    by (cases "n < s")
      (auto simp: bit_word_rotl_iff bit_or_iff bit_push_bit_iff bit_drop_bit_eq mod_if
        add.commute [of n 32])
qed

definition rfc_fn :: "nat \<Rightarrow> u32 \<Rightarrow> u32 \<Rightarrow> u32 \<Rightarrow> u32" where
  "rfc_fn i = (if i < 16 then F1 else if i < 32 then F2 else if i < 48 then F3 else F4)"

definition rfc_reg :: "nat \<Rightarrow> md5_reg" where
  "rfc_reg i = [RegA, RegD, RegC, RegB] ! (i mod 4)"

lemma rfc_fn: "rfc_fn i x y z = rfc_func i x y z"
proof -
  have "F1 x y z = (x AND y) OR (NOT x AND z)" for x y z
    by (rule bit_word_eqI) (auto simp: F1_def bit_simps)
  then show ?thesis
    by (simp add: rfc_fn_def rfc_func_def F2_def F3_def F4_def ac_simps)
qed

definition md5_lines :: "md5_line list" where
  "md5_lines = md5_round1 @ md5_round2 @ md5_round3 @ md5_round4"

lemma md5_lines_rfc:
  "md5_lines = map (\<lambda>i. (rfc_fn i, rfc_reg i, rfc_index i, rfc_T ! i, rfc_shift i)) [0..<64]"
  by (simp add: md5_lines_def md5_round1_def md5_round2_def md5_round3_def md5_round4_def upt_rec
      rfc_fn_def rfc_reg_def rfc_index_def rfc_T_def rfc_shift_def)

text \<open>The registers of the RFC, which rotate, read from the registers of the code.\<close>

definition md5_view :: "nat \<Rightarrow> md5_buf \<Rightarrow> md5_buf" where
  "md5_view i s =
     (case s of (a, b, c, d) \<Rightarrow>
      if i mod 4 = 0 then (a, b, c, d) else if i mod 4 = 1 then (d, a, b, c)
      else if i mod 4 = 2 then (c, d, a, b) else (b, c, d, a))"

lemma rfc_shift_bound: "rfc_shift i < 32"
proof -
  have "i mod 4 = 0 \<or> i mod 4 = 1 \<or> i mod 4 = 2 \<or> i mod 4 = 3" by presburger
  then show ?thesis by (auto simp: rfc_shift_def)
qed

lemma md5_step_view:
  "md5_view (Suc i) (md5_exec X s (rfc_fn i, rfc_reg i, rfc_index i, rfc_T ! i, rfc_shift i)) =
     rfc_step X (md5_view i s) i"
proof -
  obtain a b c d where s: "s = (a, b, c, d)" by (cases s)
  have step: "MD5STEP (rfc_fn i) w x y z (X ! rfc_index i + rfc_T ! i) (rfc_shift i) =
      x + word_rotl (rfc_shift i) (w + rfc_func i x y z + X ! rfc_index i + rfc_T ! i)" for w x y z
    by (simp add: MD5STEP_def rotl_shifts [OF rfc_shift_bound] rfc_fn ac_simps)
  have "i mod 4 = 0 \<and> Suc i mod 4 = 1 \<or> i mod 4 = 1 \<and> Suc i mod 4 = 2 \<or>
      i mod 4 = 2 \<and> Suc i mod 4 = 3 \<or> i mod 4 = 3 \<and> Suc i mod 4 = 0"
    by presburger
  then show ?thesis
    by (elim disjE conjE) (simp_all add: s md5_view_def md5_exec_def rfc_step_def rfc_reg_def step)
qed

lemma md5_foldl_view:
  "md5_view n (foldl (md5_exec X) s
     (map (\<lambda>i. (rfc_fn i, rfc_reg i, rfc_index i, rfc_T ! i, rfc_shift i)) [0..<n])) =
   foldl (rfc_step X) s [0..<n]"
  by (induction n) (simp_all add: md5_step_view, simp add: md5_view_def split_beta)

lemma transform_eq: "MD5Transform h (words16 p) = rfc_compress h p"
proof -
  have "foldl (md5_exec X) s md5_lines = foldl (rfc_step X) s [0..<64]" for X s
    using md5_foldl_view [of 64 X s] by (simp add: md5_lines_rfc md5_view_def split_beta)
  then show ?thesis
    by (simp add: MD5Transform_def rfc_compress_def split_beta flip: md5_lines_def)
qed

section \<open>Bytes in memory\<close>

lemma st4_le4: "4 \<le> length p \<Longrightarrow> st4 (le4 p) = take 4 p"
proof -
  assume "4 \<le> length p"
  then obtain a b c d r where p: "p = a # b # c # d # r"
    by (auto simp: Suc_le_length_iff numeral_eq_Suc)
  have "ucast (drop_bit 24 (le4 p)) = d" "ucast (drop_bit 16 (le4 p)) = c"
    "ucast (drop_bit 8 (le4 p)) = b" "ucast (le4 p) = a"
    by (rule bit_word_eqI; auto simp: le4_def p bit_simps dest: bit_byte)+
  then show ?thesis by (simp add: st4_def p)
qed

lemma byteReverse_id: "4 * n \<le> length p \<Longrightarrow> byteReverse p n = p"
proof (induction p n rule: byteReverse.induct)
  case (2 p n)
  then have "byteReverse p (Suc n) = take 4 p @ drop 4 p"
    using st4_le4 [of p] by simp
  then show ?case by simp
qed simp

lemma length_st4 [simp]: "length (st4 x) = 4"
  by (simp add: st4_def)

section \<open>Blocks\<close>

lemma rfc_blocks_short [simp]: "length m < 64 \<Longrightarrow> rfc_blocks h m = h"
  by (subst rfc_blocks.simps) simp

lemma rfc_blocks_append:
  "64 dvd length a \<Longrightarrow> rfc_blocks h (a @ b) = rfc_blocks (rfc_blocks h a) b"
proof (induction h a rule: rfc_blocks.induct)
  case (1 h a)
  show ?case
  proof (cases "64 \<le> length a")
    case True
    moreover have "64 dvd length (drop 64 a)" using 1(2) by (simp add: dvd_diff_nat)
    ultimately show ?thesis
      using 1(1) by (simp add: rfc_blocks.simps [of h a] rfc_blocks.simps [of h "a @ b"])
  next
    case False
    then have "a = []" using 1(2) by (metis length_0_conv dvd_imp_le not_gr_zero)
    then show ?thesis by simp
  qed
qed

lemma rfc_blocks_one: "length a = 64 \<Longrightarrow> rfc_blocks h a = rfc_compress h a"
  by (simp add: rfc_blocks.simps [of h a])

lemma md5_block_eq:
  "length (m_in ctx) = 64 \<Longrightarrow> md5_block ctx = ctx\<lparr>m_buf := rfc_compress (m_buf ctx) (m_in ctx)\<rparr>"
  by (simp add: md5_block_def byteReverse_id transform_eq)

lemma md5_blocks_ok:
  "length (m_in ctx) = 64 \<Longrightarrow>
     \<exists>inb. length inb = 64 \<and>
       md5_blocks ctx buf =
         Inr (ctx\<lparr>m_in := inb, m_buf := rfc_blocks (m_buf ctx) buf\<rparr>, drop (64 * (length buf div 64)) buf)"
proof (induction ctx buf rule: md5_blocks.induct)
  case (1 ctx buf)
  show ?case
  proof (cases "64 \<le> length buf")
    case True
    let ?ctx = "md5_block (ctx\<lparr>m_in := take 64 buf\<rparr>)"
    have b: "blit (m_in ctx) 0 (take 64 buf) = Inr (take 64 buf)"
      using True 1(2) by (simp add: min_def)
    have c: "?ctx = ctx\<lparr>m_in := take 64 buf, m_buf := rfc_compress (m_buf ctx) (take 64 buf)\<rparr>"
      using True by (simp add: md5_block_eq min_def)
    obtain inb where "length inb = 64" "md5_blocks ?ctx (drop 64 buf) =
        Inr (?ctx\<lparr>m_in := inb, m_buf := rfc_blocks (m_buf ?ctx) (drop 64 buf)\<rparr>,
          drop (64 * (length (drop 64 buf) div 64)) (drop 64 buf))"
      using 1(1) [OF True b] True by (auto simp: c)
    moreover have "64 * (length (drop 64 buf) div 64) + 64 = 64 * (length buf div 64)"
      using True by (simp add: div_nat_eqI le_div_geq)
    ultimately show ?thesis
      using True b by (intro exI [of _ inb])
        (simp add: md5_blocks.simps [of ctx buf] rfc_blocks.simps [of _ buf] c)
  next
    case False
    then show ?thesis
      using 1(2) by (intro exI [of _ "m_in ctx"]) (simp add: md5_blocks.simps [of ctx buf])
  qed
qed

section \<open>The context after a message\<close>

definition md5_inv :: "md5_ctx \<Rightarrow> byte list \<Rightarrow> bool" where
  "md5_inv ctx m \<longleftrightarrow>
     m_bits0 ctx = of_nat (8 * length m) \<and> m_bits1 ctx = of_nat (8 * length m div 0x100000000) \<and>
     length (m_in ctx) = 64 \<and>
     (\<exists>a r. m = a @ r \<and> 64 dvd length a \<and> length r < 64 \<and>
        m_buf ctx = rfc_blocks rfc_init a \<and> take (length r) (m_in ctx) = r)"

lemma md5_invI:
  assumes "m = a @ r" "64 dvd length a" "length r < 64"
    and "m_bits0 ctx = of_nat (8 * length m)" "m_bits1 ctx = of_nat (8 * length m div 0x100000000)"
    and "length (m_in ctx) = 64" "m_buf ctx = rfc_blocks rfc_init a" "take (length r) (m_in ctx) = r"
  shows "md5_inv ctx m"
  using assms unfolding md5_inv_def by blast

lemma md5_inv_init: "length (m_in ctx) = 64 \<Longrightarrow> md5_inv (MD5Init ctx) []"
  by (simp add: md5_inv_def MD5Init_def rfc_init_def)

text \<open>The number of bytes in the block, read from the bit counter.\<close>

lemma md5_fill: "unat (drop_bit 3 (of_nat (8 * n) :: u32) AND 0x3f) = n mod 64"
proof -
  have "(0x3f :: u32) = mask 6" by (simp add: mask_eq_exp_minus_1)
  then have "unat (drop_bit 3 (of_nat (8 * n) :: u32) AND 0x3f) = take_bit 6 (drop_bit 3 (8 * n mod 0x100000000))"
    by (simp only: unsigned_take_bit_eq unsigned_drop_bit_eq unat_u32 flip: take_bit_eq_mask)
      (simp add: take_bit_eq_mod)
  also have "\<dots> = 8 * n mod 0x100000000 div 8 mod 64"
    by (simp add: take_bit_eq_mod drop_bit_eq_div)
  also have "8 * n mod 0x100000000 div 8 = n mod 0x20000000"
    using mod_mult_mult1 [of 8 n "0x20000000"] by simp
  also have "n mod 0x20000000 mod 64 = n mod 64"
    by (rule mod_mod_cancel) simp
  finally show ?thesis .
qed

lemma mod_carry:
  fixes a b :: nat
  assumes "a < M" "b < M"
  shows "(a + b) mod M < a \<longleftrightarrow> M \<le> a + b"
proof (cases "a + b < M")
  case False
  then have "(a + b) mod M = a + b - M" using assms by (simp add: le_mod_geq)
  then show ?thesis using False assms by linarith
qed simp

lemma div_carry:
  fixes a b :: nat
  assumes "0 < M"
  shows "(a + b) div M = a div M + b div M + (if M \<le> a mod M + b mod M then 1 else 0)"
proof -
  have "a mod M < M" "b mod M < M" using assms by simp_all
  then have "(a mod M + b mod M) div M = (if M \<le> a mod M + b mod M then 1 else 0)"
    by (auto intro!: div_nat_eqI add_strict_mono)
  then show ?thesis using div_add1_eq [of a b M] by simp
qed

lemma carry_add: "(of_nat (x + y) :: u32) < of_nat x \<longleftrightarrow>
   0x100000000 \<le> x mod 0x100000000 + y mod 0x100000000"
proof -
  let ?M = "0x100000000 :: nat"
  have "(x + y) mod ?M = (x mod ?M + y mod ?M) mod ?M" by (rule mod_add_eq [symmetric])
  then show ?thesis
    unfolding word_less_nat_alt unat_u32 using mod_carry [of "x mod ?M" ?M "y mod ?M"] by simp
qed

lemma md5_count_arith:
  assumes "k < 0x100000000"
  shows "drop_bit 29 (of_nat k :: u32) = of_nat (8 * k div 0x100000000)"
unfolding word_unat_eq_iff
proof -
  have "8 * k div 0x100000000 = k div 0x20000000" by linarith
  moreover have "unat (drop_bit 29 (of_nat k :: u32)) = k div 0x20000000"
    unfolding unsigned_drop_bit_eq unat_u32 using assms by (simp add: drop_bit_eq_div take_bit_eq_mod)
  ultimately show "unat (drop_bit 29 (of_nat k :: u32)) = unat (of_nat (8 * k div 0x100000000) :: u32)"
    using assms by (simp add: unat_u32)
qed

lemma md5_count_ok:
  assumes "m_bits0 ctx = of_nat (8 * n)" "m_bits1 ctx = of_nat (8 * n div 0x100000000)" "k < 0x100000000"
  shows "md5_count ctx (of_nat k) =
    ctx\<lparr>m_bits0 := of_nat (8 * (n + k)), m_bits1 := of_nat (8 * (n + k) div 0x100000000)\<rparr>"
proof -
  have p: "push_bit 3 (of_nat k :: u32) = of_nat (8 * k)"
    by (simp add: push_bit_eq_mult)
  have "8 * (n + k) div 0x100000000 = 8 * n div 0x100000000 + 8 * k div 0x100000000 +
      (if 0x100000000 \<le> (8 * n) mod 0x100000000 + (8 * k) mod 0x100000000 then 1 else 0)"
    unfolding distrib_left by (rule div_carry) simp
  then have "(of_nat (8 * (n + k) div 0x100000000) :: u32) =
      of_nat (8 * n div 0x100000000) + of_nat (8 * k div 0x100000000) +
      (if 0x100000000 \<le> (8 * n) mod 0x100000000 + (8 * k) mod 0x100000000 then 1 else 0)"
    by simp
  moreover have "of_nat (8 * n) + of_nat (8 * k) = (of_nat (8 * n + 8 * k) :: u32)" by simp
  ultimately show ?thesis
    unfolding md5_count_def Let_def assms(1,2) p md5_count_arith [OF assms(3)]
    using carry_add [of "8 * n" "8 * k"] by (simp add: distrib_left)
qed

text \<open>The last part of an update: the block buffer is empty and the input fills it from the start.\<close>

lemma md5_tail:
  assumes "length (m_in ctx) = 64" "m_buf ctx = rfc_blocks rfc_init a" "64 dvd length a"
    and "m_bits0 ctx = of_nat (8 * length (a @ buf))"
    and "m_bits1 ctx = of_nat (8 * length (a @ buf) div 0x100000000)"
  shows "\<exists>ctx'. rbind (md5_blocks ctx buf) (\<lambda>(ctx, buf).
      rbind (blit (m_in ctx) 0 buf) (\<lambda>inb. Inr (ctx\<lparr>m_in := inb\<rparr>))) = Inr ctx' \<and>
      md5_inv ctx' (a @ buf)"
proof -
  let ?n = "64 * (length buf div 64)"
  let ?b = "take ?n buf" and ?r = "drop ?n buf"
  obtain inb where inb: "length inb = 64" "md5_blocks ctx buf =
      Inr (ctx\<lparr>m_in := inb, m_buf := rfc_blocks (m_buf ctx) buf\<rparr>, ?r)"
    using md5_blocks_ok [OF assms(1)] by blast
  have r: "length ?r < 64" by (simp add: minus_mult_div_eq_mod)
  have d: "64 dvd length ?b" by simp
  have "rfc_blocks h buf = rfc_blocks h ?b" for h
    using rfc_blocks_append [OF d, of h ?r] r by simp
  then have b: "rfc_blocks (m_buf ctx) buf = rfc_blocks rfc_init (a @ ?b)"
    by (simp add: assms(2) rfc_blocks_append [OF assms(3)])
  define inb' where "inb' = ?r @ drop (length ?r) inb"
  have i: "blit inb 0 ?r = Inr inb'" "length inb' = 64" "take (length ?r) inb' = ?r"
    using inb(1) r by (simp_all add: inb'_def)
  let ?ctx = "ctx\<lparr>m_in := inb', m_buf := rfc_blocks (m_buf ctx) buf\<rparr>"
  have "md5_inv ?ctx (a @ buf)"
  proof (rule md5_invI [of _ "a @ ?b" ?r])
    show "64 dvd length (a @ ?b)" using assms(3) d by simp
    show "m_buf ?ctx = rfc_blocks rfc_init (a @ ?b)" using b by simp
  qed (use assms(4,5) r i in \<open>simp_all del: length_drop\<close>)
  then show ?thesis using inb(2) i(1) by (intro exI [of _ ?ctx]) simp
qed

text \<open>An update extends the message, however the caller cuts it.\<close>

lemma update_ok:
  assumes "md5_inv ctx m" "length buf < 0x100000000"
  shows "\<exists>ctx'. MD5Update ctx buf = Inr ctx' \<and> md5_inv ctx' (m @ buf)"
proof -
  obtain a r where m: "m = a @ r" "64 dvd length a" "length r < 64"
    "m_buf ctx = rfc_blocks rfc_init a" "take (length r) (m_in ctx) = r"
    and bits: "m_bits0 ctx = of_nat (8 * length m)" "m_bits1 ctx = of_nat (8 * length m div 0x100000000)"
    and len: "length (m_in ctx) = 64"
    using assms(1) unfolding md5_inv_def by blast
  define t where "t = length r"
  have t: "unat (drop_bit 3 (m_bits0 ctx) AND 0x3f) = t"
    unfolding bits(1) md5_fill using m(1-3) by (simp add: t_def mod_add_eq mod_eq_0_iff_dvd mod_add_left_eq [symmetric])
  let ?c = "ctx\<lparr>m_bits0 := of_nat (8 * (length m + length buf)),
      m_bits1 := of_nat (8 * (length m + length buf) div 0x100000000)\<rparr>"
  have c: "md5_count ctx (of_nat (length buf)) = ?c"
    by (rule md5_count_ok [OF bits assms(2)])
  consider "t \<noteq> 0" "length buf < 64 - t" | "t \<noteq> 0" "64 - t \<le> length buf" | "t = 0" by linarith
  then show ?thesis
  proof cases
    case 1
    then have "MD5Update ctx buf = Inr (?c\<lparr>m_in := r @ buf @ drop (t + length buf) (m_in ctx)\<rparr>)"
      unfolding MD5Update_def Let_def t c using len m(5) by (simp add: t_def)
    moreover have "md5_inv (?c\<lparr>m_in := r @ buf @ drop (t + length buf) (m_in ctx)\<rparr>) (m @ buf)"
      by (rule md5_invI [of _ a "r @ buf"]) (use 1 len m in \<open>simp_all add: t_def add.assoc\<close>)
    ultimately show ?thesis by blast
  next
    case 2
    let ?b = "take (64 - t) buf" and ?r = "drop (64 - t) buf"
    have i: "blit (m_in ctx) t ?b = Inr (r @ ?b)"
      using len m(3,5) 2 by (simp add: t_def)
    have l: "length (r @ ?b) = 64" using 2 m(3) by (simp add: t_def)
    have k: "md5_block (?c\<lparr>m_in := r @ ?b\<rparr>) =
        ?c\<lparr>m_in := r @ ?b, m_buf := rfc_compress (m_buf ctx) (r @ ?b)\<rparr>"
      using l by (simp add: md5_block_eq)
    have "rfc_compress (m_buf ctx) (r @ ?b) = rfc_blocks rfc_init (a @ r @ ?b)"
      using rfc_blocks_one [OF l] rfc_blocks_append [OF m(2)] m(4) by metis
    moreover have "64 dvd length (a @ r @ ?b)" using l m(2) by simp
    moreover have "m @ buf = (a @ r @ ?b) @ ?r" by (simp add: m(1))
    ultimately have "\<exists>ctx'. rbind (md5_blocks (md5_block (?c\<lparr>m_in := r @ ?b\<rparr>)) ?r) (\<lambda>(ctx, buf).
        rbind (blit (m_in ctx) 0 buf) (\<lambda>inb. Inr (ctx\<lparr>m_in := inb\<rparr>))) = Inr ctx' \<and>
        md5_inv ctx' (m @ buf)"
      using md5_tail [of "md5_block (?c\<lparr>m_in := r @ ?b\<rparr>)" "a @ r @ ?b" ?r] l
      unfolding k by (simp add: m(1) add.assoc)
    then show ?thesis
      unfolding MD5Update_def Let_def t c using 2 i by simp
  next
    case 3
    then show ?thesis
      using md5_tail [of ?c a buf] m len unfolding MD5Update_def Let_def t c by (simp add: t_def)
  qed
qed

section \<open>Padding\<close>

lemma finish_ok:
  assumes "m_in ctx = p @ junk" "length p = 56" "length junk = 8"
  shows "md5_finish ctx =
       (case rfc_compress (m_buf ctx) (p @ st4 (m_bits0 ctx) @ st4 (m_bits1 ctx)) of
         (a, b, c, d) \<Rightarrow> Inr (st4 a @ st4 b @ st4 c @ st4 d,
           ctx\<lparr>m_in := p @ st4 (m_bits0 ctx) @ st4 (m_bits1 ctx), m_buf := (0, 0, c, d)\<rparr>))"
proof -
  let ?in = "p @ st4 (m_bits0 ctx) @ st4 (m_bits1 ctx)"
  obtain a b c d where t: "rfc_compress (m_buf ctx) ?in = (a, b, c, d)"
    by (cases "rfc_compress (m_buf ctx) ?in")
  have r: "byteReverse (p @ junk) 14 = p @ junk" "byteReverse (st4 a @ st4 b @ st4 c @ st4 d) 4 =
      st4 a @ st4 b @ st4 c @ st4 d"
    using assms by (simp_all add: byteReverse_id)
  have "blit (p @ junk) 56 (st4 (m_bits0 ctx)) = Inr (p @ st4 (m_bits0 ctx) @ drop 4 junk)"
    "blit (p @ st4 (m_bits0 ctx) @ drop 4 junk) 60 (st4 (m_bits1 ctx)) = Inr ?in"
    using assms(2,3) by simp_all
  then show ?thesis
    by (simp add: md5_finish_def assms(1) r transform_eq t)
qed

text \<open>The block or the two blocks that the padding of the code produces are those of the RFC.\<close>

lemma rfc_pad_split:
  assumes "64 dvd length a" "length r < 64"
  shows "rfc_pad (a @ r) = a @ r @ 0x80 #
    (if length r < 56 then replicate (55 - length r) 0 else replicate (63 - length r) 0 @ replicate 56 0) @
    st4 (of_nat (8 * length (a @ r))) @ st4 (of_nat (8 * length (a @ r) div 0x100000000))"
proof -
  have t: "length (a @ r) mod 64 = length r"
    using assms by (auto elim!: dvdE)
  have "(119 - length r) mod 64 = (if length r < 56 then 55 - length r else (63 - length r) + 56)"
    using assms(2) by (auto simp: mod_if)
  then show ?thesis
    unfolding rfc_pad_def t by (simp add: replicate_add [symmetric])
qed

lemma drop_last_block: "length y = 64 \<Longrightarrow> drop (length (x @ y) - 64) (x @ y) = y"
  by simp

lemma rfc_pad_Nil: "rfc_pad [] = 0x80 # replicate 63 0"
proof -
  have "st4 0 = replicate 4 0" by (simp add: st4_def numeral_eq_Suc)
  then show ?thesis by (simp add: rfc_pad_def replicate_add [symmetric])
qed

lemma final_ok:
  assumes "md5_inv ctx m"
  shows "\<exists>c d inb. MD5Final ctx = Inr (rfc_md5 m, ctx\<lparr>m_in := inb, m_buf := (0, 0, c, d)\<rparr>) \<and>
    (\<exists>a b. rfc_blocks rfc_init (rfc_pad m) = (a, b, c, d)) \<and>
    inb = drop (length (rfc_pad m) - 64) (rfc_pad m)"
proof -
  obtain a r where m: "m = a @ r" "64 dvd length a" "length r < 64"
    "m_buf ctx = rfc_blocks rfc_init a" "take (length r) (m_in ctx) = r"
    and bits: "m_bits0 ctx = of_nat (8 * length m)" "m_bits1 ctx = of_nat (8 * length m div 0x100000000)"
    and len: "length (m_in ctx) = 64"
    using assms(1) unfolding md5_inv_def by blast
  have t: "unat (drop_bit 3 (m_bits0 ctx) AND 0x3f) = length r"
    unfolding bits(1) md5_fill using m(1-3) by (auto elim!: dvdE)
  let ?last = "st4 (m_bits0 ctx) @ st4 (m_bits1 ctx)"
  have i: "blit (m_in ctx) (length r) [0x80] = Inr (r @ 0x80 # drop (Suc (length r)) (m_in ctx))"
    using len m(3,5) by simp
  show ?thesis
  proof (cases "length r < 56")
    case True
    let ?p = "r @ 0x80 # replicate (55 - length r) 0" and ?junk = "drop 56 (m_in ctx)"
    let ?ctx = "ctx\<lparr>m_in := ?p @ ?junk\<rparr>"
    have n: "\<not> 63 - length r < 8" "56 - length r = Suc (55 - length r)"
      "Suc (length r + (55 - length r)) = 56" using True by linarith+
    have d: "drop (56 - length r) (0x80 # drop (Suc (length r)) (m_in ctx)) = ?junk"
      unfolding n(2) drop_Suc_Cons drop_drop using n(3) by (simp add: add.commute)
    have F: "MD5Final ctx = md5_finish ?ctx"
      unfolding MD5Final_def Let_def t i using len m(3) True n(1) d by (simp add: add.commute)
    have P: "rfc_pad m = a @ ?p @ ?last"
      using rfc_pad_split [OF m(2,3)] True by (simp add: m(1) bits)
    have l: "length (?p @ ?last) = 64" using True by simp
    obtain x y c d where R: "rfc_compress (m_buf ctx) (?p @ ?last) = (x, y, c, d)"
      by (cases "rfc_compress (m_buf ctx) (?p @ ?last)")
    have "rfc_blocks rfc_init (rfc_pad m) = (x, y, c, d)"
      unfolding P rfc_blocks_append [OF m(2)] rfc_blocks_one [OF l] m(4)[symmetric] by (rule R)
    then show ?thesis
      using finish_ok [of ?ctx ?p ?junk] R len True F P l by (simp add: rfc_md5_def)
  next
    case False
    let ?q = "r @ 0x80 # replicate (63 - length r) 0" and ?p = "replicate 56 (0 :: byte)"
    let ?junk = "drop 56 ?q"
    have q: "length ?q = 64" using m(3) by simp
    let ?ctx = "ctx\<lparr>m_buf := rfc_compress (m_buf ctx) ?q, m_in := ?p @ ?junk\<rparr>"
    have n: "63 - length r < 8" using False m(3) by linarith
    have F: "MD5Final ctx = md5_finish ?ctx"
      unfolding MD5Final_def Let_def t i using len m(3) False q n
      by (simp add: md5_block_eq)
    have P: "rfc_pad m = (a @ ?q) @ ?p @ ?last"
      using rfc_pad_split [OF m(2,3)] False by (simp add: m(1) bits)
    have l: "length (?p @ ?last) = 64" by simp
    have aq: "64 dvd length (a @ ?q)" using q m(2) by simp
    obtain x y c d where R: "rfc_compress (rfc_compress (m_buf ctx) ?q) (?p @ ?last) = (x, y, c, d)"
      by (cases "rfc_compress (rfc_compress (m_buf ctx) ?q) (?p @ ?last)")
    have "rfc_blocks rfc_init (rfc_pad m) = (x, y, c, d)"
      unfolding P rfc_blocks_append [OF aq] rfc_blocks_append [OF m(2)] rfc_blocks_one [OF l]
        rfc_blocks_one [OF q] m(4)[symmetric] by (rule R)
    moreover have "drop (length (rfc_pad m) - 64) (rfc_pad m) = ?p @ ?last"
      unfolding P by (rule drop_last_block [OF l])
    ultimately show ?thesis
      using finish_ok [of ?ctx ?p ?junk] R q F by (simp add: rfc_md5_def)
  qed
qed

section \<open>Properties\<close>

text \<open>Feeding a context with the chunks of a message.\<close>

fun md5_feed :: "md5_ctx \<Rightarrow> byte list list \<Rightarrow> c_error + md5_ctx" where
  "md5_feed ctx [] = Inr ctx"
| "md5_feed ctx (c # cs) = rbind (MD5Update ctx c) (\<lambda>ctx. md5_feed ctx cs)"

lemma feed_ok:
  "md5_inv ctx m \<Longrightarrow> list_all (\<lambda>c. length c < 0x100000000) cs \<Longrightarrow>
     \<exists>ctx'. md5_feed ctx cs = Inr ctx' \<and> md5_inv ctx' (m @ concat cs)"
proof (induction cs arbitrary: ctx m)
  case (Cons c cs)
  then obtain ctx1 where "MD5Update ctx c = Inr ctx1" "md5_inv ctx1 (m @ c)"
    using update_ok [of ctx m c] by auto
  then show ?case using Cons.IH [of ctx1 "m @ c"] Cons.prems by auto
qed simp

text \<open>
  C15: However a program cuts a message into chunks, \<open>MD5Init\<close>, one \<open>MD5Update\<close> for each chunk and
  \<open>MD5Final\<close> compute the digest of RFC 1321 of the whole message, without leaving the 64-byte
  block buffer: the unrolled transform is the compression function of the RFC, the bit counter
  carries into its upper word, and the padding takes one block or two.
\<close>

theorem md5_digest:
  assumes "length (m_in ctx) = 64" "list_all (\<lambda>c. length c < 0x100000000) cs"
  shows "\<exists>ctx'. rbind (md5_feed (MD5Init ctx) cs) MD5Final = Inr (rfc_md5 (concat cs), ctx')"
  using feed_ok [OF md5_inv_init [OF assms(1)] assms(2)] final_ok by fastforce

theorem md5_digest_witness:
  "\<exists>ctx'. rbind (md5_feed (MD5Init \<lparr>m_buf = (1, 2, 3, 4), m_bits0 = 5, m_bits1 = 6, m_in = replicate 64 7\<rparr>)
      [[97], [], [98, 99]]) MD5Final = Inr (rfc_md5 [97, 98, 99], ctx')"
  using md5_digest [of "\<lparr>m_buf = (1, 2, 3, 4), m_bits0 = 5, m_bits1 = 6, m_in = replicate 64 7\<rparr>"
      "[[97], [], [98, 99]]"] by simp

text \<open>
  \<open>MD5Final\<close> means to erase the context, but it clears only the size of a pointer: the two
  upper words of the digest and the last block of the padded message stay in memory.
\<close>

lemma md5_final_leaves_message:
  assumes "md5_inv ctx m" "MD5Final ctx = Inr (digest, ctx')"
  shows "\<exists>a b c d. digest = st4 a @ st4 b @ st4 c @ st4 d \<and> m_buf ctx' = (0, 0, c, d) \<and>
     m_in ctx' = drop (length (rfc_pad m) - 64) (rfc_pad m)"
  using final_ok [OF assms(1)] assms(2) by (auto simp: rfc_md5_def)

lemma md5_final_leaves_message_example:
  "\<exists>digest ctx'. MD5Final (MD5Init \<lparr>m_buf = (1, 2, 3, 4), m_bits0 = 5, m_bits1 = 6, m_in = replicate 64 7\<rparr>) =
     Inr (digest, ctx') \<and> m_in ctx' = 0x80 # replicate 63 0"
proof -
  let ?ctx = "MD5Init \<lparr>m_buf = (1, 2, 3, 4), m_bits0 = 5, m_bits1 = 6, m_in = replicate 64 7\<rparr>"
  have i: "md5_inv ?ctx []" by (rule md5_inv_init) simp
  then obtain d c where f: "MD5Final ?ctx = Inr (d, c)" using final_ok by blast
  have "m_in c = 0x80 # replicate 63 0"
    using md5_final_leaves_message [OF i f] by (auto simp: rfc_pad_Nil)
  then show ?thesis using f by blast
qed

end
