(* ===== verification/TF_Base64.thy ===== *)
theory TF_Base64
  imports TF_Prelude
begin

text \<open>
  The base-64 coder of \<open>expert/base64.c\<close>, its specification on the 24-bit number of three
  bytes, and the lengths for which the encoder does not meet it.
\<close>

section \<open>Tables\<close>

definition BIN2BASE64 :: "byte list" where
  "BIN2BASE64 =
    [65, 66, 67, 68, 69, 70, 71, 72, 73, 74, 75, 76, 77, 78, 79, 80,
     81, 82, 83, 84, 85, 86, 87, 88, 89, 90, 97, 98, 99, 100, 101, 102,
     103, 104, 105, 106, 107, 108, 109, 110, 111, 112, 113, 114, 115, 116, 117, 118,
     119, 120, 121, 122, 48, 49, 50, 51, 52, 53, 54, 55, 56, 57, 43, 47,
     0]"

definition BASE642BIN :: "byte list" where
  "BASE642BIN =
    [96, 99, 99, 99, 99, 99, 99, 99, 99, 99, 98, 99, 99, 98, 99, 99,
     99, 99, 99, 99, 99, 99, 99, 99, 99, 99, 99, 99, 99, 99, 99, 99,
     99, 99, 99, 99, 99, 99, 99, 99, 99, 99, 99, 62, 99, 99, 99, 63,
     52, 53, 54, 55, 56, 57, 58, 59, 60, 61, 99, 99, 99, 97, 99, 99,
     99, 0, 1, 2, 3, 4, 5, 6, 7, 8, 9, 10, 11, 12, 13, 14,
     15, 16, 17, 18, 19, 20, 21, 22, 23, 24, 25, 99, 99, 99, 99, 99,
     99, 26, 27, 28, 29, 30, 31, 32, 33, 34, 35, 36, 37, 38, 39, 40,
     41, 42, 43, 44, 45, 46, 47, 48, 49, 50, 51, 99, 99, 99, 99, 99,
     99, 99, 99, 99, 99, 99, 99, 99, 99, 99, 99, 99, 99, 99, 99, 99,
     99, 99, 99, 99, 99, 99, 99, 99, 99, 99, 99, 99, 99, 99, 99, 99,
     99, 99, 99, 99, 99, 99, 99, 99, 99, 99, 99, 99, 99, 99, 99, 99,
     99, 99, 99, 99, 99, 99, 99, 99, 99, 99, 99, 99, 99, 99, 99, 99,
     99, 99, 99, 99, 99, 99, 99, 99, 99, 99, 99, 99, 99, 99, 99, 99,
     99, 99, 99, 99, 99, 99, 99, 99, 99, 99, 99, 99, 99, 99, 99, 99,
     99, 99, 99, 99, 99, 99, 99, 99, 99, 99, 99, 99, 99, 99, 99, 99,
     99, 99, 99, 99, 99, 99, 99, 99, 99, 99, 99, 99, 99, 99, 99, 99]"

section \<open>The encoder\<close>

definition enc_char :: "byte \<Rightarrow> byte" where
  "enc_char i = BIN2BASE64 ! unat i"

text \<open>
  Four characters for three bytes at an offset of the output; the result is the output, the
  column counter (the line breaks are commented out in the code) and the number of characters.
\<close>

definition outputbase64 ::
  "region \<Rightarrow> nat \<Rightarrow> byte \<Rightarrow> byte \<Rightarrow> byte \<Rightarrow> int \<Rightarrow> c_error + region \<times> int \<times> nat" where
  "outputbase64 out off d0 d1 d2 nextline =
     rbind (wr out off (Some (enc_char (drop_bit 2 d0)))) (\<lambda>out.
     rbind (wr out (off + 1) (Some (enc_char (push_bit 4 (d0 AND 3) OR drop_bit 4 d1)))) (\<lambda>out.
     rbind (wr out (off + 2) (Some (enc_char (push_bit 2 (d1 AND 15) OR drop_bit 6 d2)))) (\<lambda>out.
     rbind (wr out (off + 3) (Some (enc_char (d2 AND 0x3f)))) (\<lambda>out.
     Inr (out, if nextline + 1 > 18 then 0 else nextline + 1, 4)))))"

text \<open>
  The loop over the triples; \<open>data\<close> starts after the first three bytes.  The result is the
  output, the number of characters and the index of the first byte that is left.
\<close>

function encode_loop ::
  "region \<Rightarrow> nat \<Rightarrow> byte list \<Rightarrow> int \<Rightarrow> int \<Rightarrow> int \<Rightarrow> c_error + region \<times> nat \<times> int" where
  "encode_loop dst encode_len data i len nextline =
     (if i + 2 < len
      then rbind (rd data (nat i)) (\<lambda>d0.
           rbind (rd data (nat (i + 1))) (\<lambda>d1.
           rbind (rd data (nat (i + 2))) (\<lambda>d2.
           rbind (outputbase64 dst encode_len d0 d1 d2 nextline) (\<lambda>(dst, nextline, n).
           encode_loop dst (encode_len + n) data (i + 3) len nextline))))
      else Inr (dst, encode_len, i))"
  by pat_completeness auto
termination by (relation "measure (\<lambda>(dst, k, data, i, len, nl). nat (len - i))") auto

declare encode_loop.simps [simp del]

text \<open>The one or two bytes that are left, with their padding.\<close>

definition encode_rest :: "region \<Rightarrow> nat \<Rightarrow> byte list \<Rightarrow> int \<Rightarrow> int \<Rightarrow> c_error + region" where
  "encode_rest dst k data i save_count =
     (if save_count = 2
      then rbind (rd data (nat i)) (\<lambda>s0.
           rbind (rd data (nat (i + 1))) (\<lambda>s1.
           rbind (wr dst k (Some (enc_char (drop_bit 2 s0)))) (\<lambda>dst.
           rbind (wr dst (k + 1) (Some (enc_char (push_bit 4 (s0 AND 3) OR drop_bit 4 s1)))) (\<lambda>dst.
           rbind (wr dst (k + 2) (Some (enc_char (push_bit 2 (s1 AND 15))))) (\<lambda>dst.
           wr dst (k + 3) (Some 61))))))
      else if save_count = 1
      then rbind (rd data (nat i)) (\<lambda>s0.
           rbind (wr dst k (Some (enc_char (drop_bit 2 s0)))) (\<lambda>dst.
           rbind (wr dst (k + 1) (Some (enc_char (push_bit 4 (s0 AND 3))))) (\<lambda>dst.
           rbind (wr dst (k + 2) (Some 61)) (\<lambda>dst.
           wr dst (k + 3) (Some 61)))))
      else Inr dst)"

text \<open>
  The result is the output and the reported length.  The first loop returns while it collects
  the first three bytes if the input ends there.
\<close>

definition encode_base64 :: "region \<Rightarrow> byte list \<Rightarrow> int \<Rightarrow> c_error + region \<times> nat" where
  "encode_base64 dst src len =
     (if len = 0 then Inr (dst, 0)
      else rbind (rd src 0) (\<lambda>t0. if len = 1 then Inr (dst, 0)
      else rbind (rd src 1) (\<lambda>t1. if len = 2 then Inr (dst, 0)
      else rbind (rd src 2) (\<lambda>t2. if len = 3 then Inr (dst, 0)
      else rbind (outputbase64 dst 0 t0 t1 t2 0) (\<lambda>(dst, nextline, n).
           let data = drop 3 src; len = len - 3 in
           rbind (encode_loop dst n data 0 len nextline) (\<lambda>(dst, k, i).
           rbind (encode_rest dst k data i (len - i)) (\<lambda>dst.
           Inr (dst, k + 4))))))))"

section \<open>The decoder\<close>

text \<open>A legal character at position \<open>quad\<close> of its group of four.\<close>

definition dec_store :: "byte \<Rightarrow> region \<Rightarrow> nat \<Rightarrow> nat \<Rightarrow> c_error + region \<times> nat" where
  "dec_store v out k quad =
     (if quad = 0 then rbind (wr out k (Some (push_bit 2 v))) (\<lambda>out. Inr (out, k))
      else rbind (rdi out k) (\<lambda>old.
        if quad = 1 then
          rbind (wr out k (Some (old OR drop_bit 4 v))) (\<lambda>out.
          rbind (wr out (k + 1) (Some (push_bit 4 (v AND 15)))) (\<lambda>out. Inr (out, k + 1)))
        else if quad = 2 then
          rbind (wr out k (Some (old OR drop_bit 2 v))) (\<lambda>out.
          rbind (wr out (k + 1) (Some (push_bit 6 (v AND 3)))) (\<lambda>out. Inr (out, k + 1)))
        else rbind (wr out k (Some (old OR v))) (\<lambda>out. Inr (out, k + 1))))"

text \<open>
  The state is the position in the source, the output, the decoded size and the position in the
  current group of four.  The argument \<open>len\<close> of the function is not used.
\<close>

function decode_loop :: "byte list \<Rightarrow> nat \<Rightarrow> region \<Rightarrow> nat \<Rightarrow> nat \<Rightarrow> c_error + region \<times> nat" where
  "decode_loop src pos out decode_size quad =
     rbind (rd src pos) (\<lambda>c.
     let v = BASE642BIN ! unat c in
     if v = 96 then Inr (out, decode_size)
     else if v = 97 then
       (if quad = 3 then Inr (out, decode_size)
        else if quad = 2 then
          rbind (rd src (pos + 1)) (\<lambda>c'.
          if c' = 61 then Inr (out, decode_size)
          else decode_loop src (pos + 1) out decode_size quad)
        else decode_loop src (pos + 1) out decode_size quad)
     else if v = 98 \<or> v = 99 then decode_loop src (pos + 1) out decode_size quad
     else
       rbind (dec_store v out decode_size quad)
         (\<lambda>(out, decode_size). decode_loop src (pos + 1) out decode_size ((quad + 1) mod 4)))"
  by pat_completeness auto
termination
  by (relation "measure (\<lambda>(src, pos, out, n, q). length src - pos)") (auto simp: rd_def split: if_splits)

declare decode_loop.simps [simp del]

definition decode_base64 :: "region \<Rightarrow> byte list \<Rightarrow> int \<Rightarrow> c_error + region \<times> nat" where
  "decode_base64 dst src len = decode_loop src 0 dst 0 0"

section \<open>Specification\<close>

definition b64_digit :: "nat \<Rightarrow> byte" where
  "b64_digit n = BIN2BASE64 ! (n mod 64)"

text \<open>Three bytes are a 24-bit number of four base-64 digits; a shorter rest is padded.\<close>

fun b64 :: "byte list \<Rightarrow> byte list" where
  "b64 [] = []"
| "b64 [a] =
     (let n = unat a * 65536 in [b64_digit (n div 262144), b64_digit (n div 4096), 61, 61])"
| "b64 [a, b] =
     (let n = unat a * 65536 + unat b * 256
      in [b64_digit (n div 262144), b64_digit (n div 4096), b64_digit (n div 64), 61])"
| "b64 (a # b # c # r) =
     (let n = unat a * 65536 + unat b * 256 + unat c
      in [b64_digit (n div 262144), b64_digit (n div 4096), b64_digit (n div 64), b64_digit n]) @ b64 r"

section \<open>The bytes of the code and the digits of the number\<close>

lemma digit_indices:
  "unat (push_bit 4 (a AND 3) OR drop_bit 4 b :: byte) = unat a mod 4 * 16 + unat b div 16"
  "unat (push_bit 2 (a AND 15) OR drop_bit 6 b :: byte) = unat a mod 16 * 4 + unat b div 64"
  "unat (push_bit 4 (a AND 3) :: byte) = unat a mod 4 * 16"
  "unat (push_bit 2 (a AND 15) :: byte) = unat a mod 16 * 4"
proof -
  have l: "unat a mod 4 \<le> 3" "unat a mod 16 \<le> 15" by simp_all
  have h: "unat b div 16 \<le> 15" "unat b div 64 \<le> 3" using unat_byte [of b] by simp_all
  show 3: "unat (push_bit 4 (a AND 3) :: byte) = unat a mod 4 * 16"
    using unat_shl [of "a AND 3" 4] l by (simp add: unat_low)
  show 4: "unat (push_bit 2 (a AND 15) :: byte) = unat a mod 16 * 4"
    using unat_shl [of "a AND 15" 2] l by (simp add: unat_low)
  have 1: "\<not> bit (push_bit 4 (a AND 3)) n \<or> \<not> bit (drop_bit 4 b) n" for n
    unfolding bit_push_bit_iff bit_drop_bit_eq bit_and_iff o_def by (auto dest: bit_byte)
  have 2: "\<not> bit (push_bit 2 (a AND 15)) n \<or> \<not> bit (drop_bit 6 b) n" for n
    unfolding bit_push_bit_iff bit_drop_bit_eq bit_and_iff o_def by (auto dest: bit_byte)
  show "unat (push_bit 4 (a AND 3) OR drop_bit 4 b) = unat a mod 4 * 16 + unat b div 16"
    by (subst unat_join [OF 1]) (unfold 3 unat_shr, use l h in simp_all)
  show "unat (push_bit 2 (a AND 15) OR drop_bit 6 b) = unat a mod 16 * 4 + unat b div 64"
    by (subst unat_join [OF 2]) (unfold 4 unat_shr, use l h in simp_all)
qed

text \<open>The base-64 digits of a group, in terms of its bytes.\<close>

lemma digit64:
  fixes x y :: nat
  assumes "y < 64"
  shows "(x * 64 + y) div 64 = x" "(x * 64 + y) mod 64 = y"
  using assms by simp_all

lemma group_sum:
  fixes a b c :: nat
  assumes "a = 4 * qa + ra" "b = 16 * qb + rb" "c = 64 * qc + rc"
  shows "a * 65536 + b * 256 + c = ((qa * 64 + (ra * 16 + qb)) * 64 + (rb * 4 + qc)) * 64 + rc"
  using assms by simp

lemma digits:
  fixes a b c :: nat
  assumes "a < 256" "b < 256" "c < 256"
  shows "(a * 65536 + b * 256 + c) div 262144 mod 64 = a div 4"
    "(a * 65536 + b * 256 + c) div 4096 mod 64 = a mod 4 * 16 + b div 16"
    "(a * 65536 + b * 256 + c) div 64 mod 64 = b mod 16 * 4 + c div 64"
    "(a * 65536 + b * 256 + c) mod 64 = c mod 64"
proof -
  define q where "q = a div 4"
  define r where "r = a mod 4 * 16 + b div 16"
  define t where "t = b mod 16 * 4 + c div 64"
  have l: "q < 64" "r < 64" "t < 64" "c mod 64 < 64"
    using assms unfolding q_def r_def t_def by auto
  have n: "a * 65536 + b * 256 + c = ((q * 64 + r) * 64 + t) * 64 + c mod 64" (is "?n = _")
    unfolding q_def r_def t_def by (rule group_sum) simp_all
  have "?n div 4096 = ?n div 64 div 64" "?n div 262144 = ?n div 64 div 64 div 64"
    by (simp_all add: div_mult2_eq [symmetric])
  then have d: "?n div 64 = (q * 64 + r) * 64 + t" "?n div 4096 = q * 64 + r" "?n div 262144 = q"
    unfolding n digit64 [OF l(4)] digit64 [OF l(3)] digit64 [OF l(2)] by simp_all
  show "?n div 262144 mod 64 = a div 4" unfolding d using l(1) by (simp add: q_def)
  show "?n div 4096 mod 64 = a mod 4 * 16 + b div 16" using digit64(2) [OF l(2), of q] unfolding d r_def .
  show "?n div 64 mod 64 = b mod 16 * 4 + c div 64" using digit64(2) [OF l(3), of "q * 64 + r"] unfolding d t_def .
  show "?n mod 64 = c mod 64" unfolding n digit64 [OF l(4)] ..
qed

lemma enc_chars:
  "enc_char (drop_bit 2 a) = b64_digit ((unat a * 65536 + unat b * 256 + unat c) div 262144)"
  "enc_char (push_bit 4 (a AND 3) OR drop_bit 4 b) =
     b64_digit ((unat a * 65536 + unat b * 256 + unat c) div 4096)"
  "enc_char (push_bit 2 (b AND 15) OR drop_bit 6 c) =
     b64_digit ((unat a * 65536 + unat b * 256 + unat c) div 64)"
  "enc_char (c AND 0x3f) = b64_digit (unat a * 65536 + unat b * 256 + unat c)"
  unfolding enc_char_def b64_digit_def digit_indices unat_low unat_shr
    digits [OF unat_byte unat_byte unat_byte]
  by simp_all

lemma length_b64: "length (b64 s) = 4 * ((length s + 2) div 3)"
proof (induction s rule: b64.induct)
  case (4 a b c r)
  have "(5 + length r) div 3 = Suc ((2 + length r) div 3)" by presburger
  then show ?case using 4 by (simp add: Let_def)
qed (simp_all add: Let_def)

lemma b64_append: "length p mod 3 = 0 \<Longrightarrow> b64 (p @ r) = b64 p @ b64 r"
proof (induction p rule: b64.induct)
  case (4 a b c p)
  then show ?case by (simp add: Let_def mod_Suc split: if_splits)
qed (simp_all add: numeral_2_eq_2 [symmetric])

section \<open>The encoder meets the specification, for some lengths\<close>

lemma outputbase64_ok:
  assumes "off + 4 \<le> length out"
  shows "\<exists>nl'. outputbase64 out off a b c nl =
     Inr (take off out @ map Some (b64 [a, b, c]) @ drop (off + 4) out, nl', 4)"
proof -
  obtain p x0 x1 x2 x3 r where o: "out = p @ x0 # x1 # x2 # x3 # r" "length p = off"
  proof -
    have "4 \<le> length (drop off out)" using assms by simp
    then obtain x0 x1 x2 x3 r where "drop off out = x0 # x1 # x2 # x3 # r"
      using length_ge_4 by blast
    then have "out = take off out @ x0 # x1 # x2 # x3 # r" by (metis append_take_drop_id)
    then show ?thesis using that [of "take off out"] assms by simp
  qed
  show ?thesis
    unfolding outputbase64_def enc_chars(1) [of a b c] enc_chars(2) [of a b c]
      enc_chars(3) [of b c a] enc_chars(4) [of c a b]
    by (simp add: o Let_def list_update_append)
qed

lemma encode_loop_ok:
  assumes "0 \<le> i" "i \<le> len" "len = int (length data)"
    and "k + 4 * nat ((len - i) div 3) \<le> length dst"
  shows "\<exists>r. encode_loop dst k data i len nl =
     Inr (take k dst @ map Some (b64 (take (3 * nat ((len - i) div 3)) (drop (nat i) data))) @
            drop (k + 4 * nat ((len - i) div 3)) dst,
          k + 4 * nat ((len - i) div 3), i + 3 * ((len - i) div 3))"
  using assms
proof (induction dst k data i len nl rule: encode_loop.induct)
  case (1 dst k data i len nl)
  show ?case
  proof (cases "i + 2 < len")
    case True
    define n where "n = nat ((len - (i + 3)) div 3)"
    have d: "(len - i) div 3 = int n + 1" "nat ((len - i) div 3) = Suc n"
      using True 1(2-) unfolding n_def by linarith+
    have l: "nat i + 2 < length data" using True 1(2-) by linarith
    obtain a b c rest where dat: "drop (nat i) data = a # b # c # rest"
    proof -
      have "3 \<le> length (drop (nat i) data)" using l by simp
      then show ?thesis using that length_ge_3 by blast
    qed
    have r: "rd data (nat i) = Inr a" "rd data (nat (i + 1)) = Inr b" "rd data (nat (i + 2)) = Inr c"
    proof -
      have "data ! (nat i + j) = (a # b # c # rest) ! j" for j
        using dat l by (metis add_leD1 less_imp_le nth_drop)
      from this [of 0] this [of 1] this [of 2]
      show "rd data (nat i) = Inr a" "rd data (nat (i + 1)) = Inr b" "rd data (nat (i + 2)) = Inr c"
        using l 1(2) by (simp_all add: nat_add_distrib)
    qed
    have "k + 4 \<le> length dst" using 1(5) d by simp
    then obtain nl' where o: "outputbase64 dst k a b c nl =
        Inr (take k dst @ map Some (b64 [a, b, c]) @ drop (k + 4) dst, nl', 4)"
      using outputbase64_ok by blast
    let ?dst = "take k dst @ map Some (b64 [a, b, c]) @ drop (k + 4) dst"
    have d3: "drop (nat (i + 3)) data = rest"
      using dat 1(2) by (metis drop_drop add.commute drop_Suc_Cons drop0 numeral_3_eq_3 nat_add_distrib nat_numeral zero_le_numeral)
    have len: "length ?dst = length dst" using 1(5) d by (simp add: Let_def)
    have n: "(len - (i + 3)) div 3 = int n" "nat (int n) = n"
      using True 1(2,3) unfolding n_def by simp_all
    have "k + 4 * Suc n \<le> length dst" using 1(5) unfolding d(2) .
    then have p: "0 \<le> i + 3" "i + 3 \<le> len" "k + 4 + 4 * nat ((len - (i + 3)) div 3) \<le> length ?dst"
      using True 1(2) unfolding len n by simp_all
    obtain ih: "encode_loop ?dst (k + 4) data (i + 3) len nl' =
       Inr (take (k + 4) ?dst @ map Some (b64 (take (3 * n) (drop (nat (i + 3)) data))) @
          drop (k + 4 + 4 * n) ?dst, k + 4 + 4 * n, i + 3 + 3 * int n)"
      using 1(1) [OF True r o refl refl p(1,2) 1(4) p(3)] unfolding n by blast
    have e: "encode_loop dst k data i len nl = encode_loop ?dst (k + 4) data (i + 3) len nl'"
      using True r o by (simp add: encode_loop.simps [of dst k data i len nl])
    have k: "k \<le> length dst" using 1(5) by linarith
    have q: "b64 (take (3 * Suc n) (a # b # c # rest)) = b64 [a, b, c] @ b64 (take (3 * n) rest)"
    proof -
      have "3 * Suc n = Suc (Suc (Suc (3 * n)))" by simp
      then show ?thesis by (simp only: take_Suc_Cons) (simp add: Let_def)
    qed
    have l4: "length (b64 [a, b, c]) = 4" by (simp add: Let_def)
    show ?thesis
      unfolding e ih d3 d(2) dat q using k l4 d(1) by (simp del: b64.simps add: ac_simps)
  next
    case False
    then have "(len - i) div 3 = 0" using 1(3) by linarith
    then show ?thesis
      using False by (simp add: encode_loop.simps [of dst k data i len nl])
  qed
qed

text \<open>
  The whole encoder on more than three bytes: the full groups, then the padded rest.  With nothing
  left over, the result counts four characters that were never written.
\<close>

lemma encode_rest_ok:
  assumes "k + 4 \<le> length dst" "drop (nat i) data = rest" "0 \<le> i" "length rest = n" "n = 1 \<or> n = 2"
  shows "encode_rest dst k data i (int n) = Inr (take k dst @ map Some (b64 rest) @ drop (k + 4) dst)"
proof -
  have "4 \<le> length (drop k dst)" using assms(1) by simp
  then obtain x0 x1 x2 x3 r where "drop k dst = x0 # x1 # x2 # x3 # r"
    using length_ge_4 by blast
  then obtain p where o: "dst = p @ x0 # x1 # x2 # x3 # r" "length p = k"
    using assms(1) by (metis append_take_drop_id length_take min.absorb2 add_leD1)
  have z: "enc_char (push_bit 4 (a AND 3)) = b64_digit ((unat a * 65536 + 0 * 256 + 0) div 4096)"
    "enc_char (push_bit 2 (b AND 15)) = b64_digit ((unat a * 65536 + unat b * 256 + 0) div 64)"
    for a b
    using enc_chars(2) [of a 0 0] enc_chars(3) [of b 0 a] by simp_all
  have l: "nat i + n = length data"
  proof -
    have "length data - nat i = n" using assms(2,4) by (metis length_drop)
    then show ?thesis using assms(5) by linarith
  qed
  have nth: "data ! (nat i + j) = rest ! j" for j
    unfolding assms(2)[symmetric] using l by simp
  from assms(5) show ?thesis
  proof
    assume n: "n = 1"
    then obtain a where rest: "rest = [a]" using assms(4) by (auto simp: length_Suc_conv)
    have "rd data (nat i) = Inr a" using nth [of 0] l n rest by simp
    then show ?thesis
      unfolding encode_rest_def n using enc_chars(1) [of a 0 0] z(1) [of a]
      by (simp add: o rest Let_def list_update_append)
  next
    assume n: "n = 2"
    then obtain a b where rest: "rest = [a, b]"
      using assms(4) by (auto simp: length_Suc_conv numeral_2_eq_2)
    have "rd data (nat i) = Inr a" "rd data (nat (i + 1)) = Inr b"
      using nth [of 0] nth [of 1] l n rest assms(3) by (simp_all add: nat_add_distrib)
    then show ?thesis
      unfolding encode_rest_def n using enc_chars(1,2) [of a b 0] z(2) [of b a]
      by (simp add: o rest Let_def list_update_append)
  qed
qed

lemma groups_of_three: "4 * ((m + 5) div 3) = 4 + 4 * (m div 3) + (if m mod 3 = 0 then 0 else 4)"
  for m :: nat
proof -
  define q where "q = m div 3"
  have "m = 3 * q + m mod 3" "m mod 3 < 3" by (simp_all add: q_def)
  then consider "m = 3 * q" | "m = 3 * q + 1" | "m = 3 * q + 2" by linarith
  then show ?thesis
  proof cases
    case 2
    then have "(m + 5) div 3 = q + 2" "m div 3 = q" "m mod 3 \<noteq> 0" by presburger+
    then show ?thesis by simp
  next
    case 3
    then have "(m + 5) div 3 = q + 2" "m div 3 = q" "m mod 3 \<noteq> 0" by presburger+
    then show ?thesis by simp
  next
    case 1
    then have "(m + 5) div 3 = q + 1" "m div 3 = q" "m mod 3 = 0" by presburger+
    then show ?thesis by simp
  qed
qed

lemma encode_long:
  assumes "3 < length src" "4 * ((length src + 2) div 3) \<le> length dst"
  shows "encode_base64 dst src (int (length src)) =
    Inr (map Some (b64 src) @ drop (length (b64 src)) dst,
         4 * (length src div 3) + 4)"
proof -
  obtain a b c data where src: "src = a # b # c # data"
    using assms(1) length_ge_3 [of src] by auto
  define n where "n = length data div 3"
  have n: "length data = 3 * n + length data mod 3" "0 < length data"
    using assms(1) by (simp_all add: n_def src)
  obtain nl' where o: "outputbase64 dst 0 a b c 0 =
      Inr (map Some (b64 [a, b, c]) @ drop 4 dst, nl', 4)"
    using outputbase64_ok [of 0 dst a b c 0] assms by fastforce
  let ?dst = "map Some (b64 [a, b, c]) @ drop 4 dst"
  have l4: "length (b64 [a, b, c]) = 4" by (simp add: Let_def)
  have room: "4 + 4 * n + (if length data mod 3 = 0 then 0 else 4) \<le> length ?dst"
  proof -
    have "4 * ((length src + 2) div 3) = 4 + 4 * n + (if length data mod 3 = 0 then 0 else 4)"
      using groups_of_three [of "length data"] unfolding src n_def by (simp add: add.commute)
    then show ?thesis using assms(2) l4 by simp
  qed
  let ?t = "take (3 * n) data" and ?r = "drop (3 * n) data"
  have b: "b64 src = b64 [a, b, c] @ b64 ?t @ b64 ?r"
  proof -
    have "b64 data = b64 ?t @ b64 ?r"
      using b64_append [of ?t ?r] n(1) by simp
    then show ?thesis by (simp add: src Let_def)
  qed
  have lt: "length (b64 ?t) = 4 * n"
  proof -
    have "length ?t = 3 * n" using n(1) by simp
    then show ?thesis by (simp add: length_b64)
  qed
  let ?dst2 = "map Some (b64 [a, b, c]) @ map Some (b64 ?t) @ drop (4 + 4 * n) dst"
  have loop: "encode_loop ?dst 4 data 0 (int (length data)) nl' = Inr (?dst2, 4 + 4 * n, 3 * int n)"
  proof -
    have i: "nat ((int (length data) - 0) div 3) = n" "(int (length data) - 0) div 3 = int n"
      by (simp_all add: n_def zdiv_int)
    have "4 + 4 * nat ((int (length data) - 0) div 3) \<le> length ?dst"
      using room unfolding i by linarith
    from encode_loop_ok [OF _ _ refl this, of nl'] show ?thesis
      unfolding i using l4 assms by (simp del: b64.simps add: ac_simps)
  qed
  have m: "int (length data) - 3 * int n = int (length data mod 3)"
    using n(1) by linarith
  have e: "encode_base64 dst src (int (length src)) =
      rbind (encode_rest ?dst2 (4 + 4 * n) data (3 * int n) (int (length data mod 3)))
        (\<lambda>dst. Inr (dst, 4 + 4 * n + 4))"
  proof -
    have "0 < length data" by (rule n(2))
    then show ?thesis
      using loop o unfolding encode_base64_def src by (simp add: m Let_def del: b64.simps)
  qed
  have k: "4 * (length src div 3) + 4 = 4 + 4 * n + 4"
  proof -
    have "(length data + 3) div 3 = n + 1" unfolding n_def by simp
    then show ?thesis by (simp add: src add.commute)
  qed
  show ?thesis
  proof (cases "length data mod 3 = 0")
    case True
    then have d: "?r = []" "?t = data" using n(1) by simp_all
    then have "length (b64 data) = 4 * n" using lt by simp
    then show ?thesis
      unfolding e k b d True encode_rest_def by (simp add: l4 add.commute del: b64.simps(2-))
  next
    case False
    have r: "length ?r = length data mod 3" using n(1) by simp
    have "encode_rest ?dst2 (4 + 4 * n) data (3 * int n) (int (length data mod 3)) =
        Inr (take (4 + 4 * n) ?dst2 @ map Some (b64 ?r) @ drop (4 + 4 * n + 4) ?dst2)"
      by (rule encode_rest_ok) (use room False l4 lt r in \<open>auto simp del: b64.simps simp: nat_mult_distrib\<close>)
    moreover have "length (b64 ?r) = 4"
    proof -
      have "(length data mod 3 + 2) div 3 = 1" using False by presburger
      then show ?thesis unfolding length_b64 r by simp
    qed
    ultimately show ?thesis
      unfolding e k b by (simp add: l4 lt add.commute add.left_commute del: b64.simps)
  qed
qed

section \<open>The decoder\<close>

lemma table_inverse: "n < 64 \<Longrightarrow> BASE642BIN ! unat (BIN2BASE64 ! n) = of_nat n"
proof -
  have "\<forall>n \<in> set [0..<64]. BASE642BIN ! unat (BIN2BASE64 ! n) = of_nat n"
    by (simp add: upt_rec BASE642BIN_def BIN2BASE64_def)
  then show "n < 64 \<Longrightarrow> BASE642BIN ! unat (BIN2BASE64 ! n) = of_nat n" by simp
qed

lemma dec_char: "unat i < 64 \<Longrightarrow> BASE642BIN ! unat (enc_char i) = i"
  using table_inverse [of "unat i"] by (simp add: enc_char_def)

lemma small_values: "unat (v :: byte) < 64 \<Longrightarrow> v \<noteq> 96 \<and> v \<noteq> 97 \<and> v \<noteq> 98 \<and> v \<noteq> 99"
  by auto

lemma pad_value: "BASE642BIN ! 61 = 97" "BASE642BIN ! 0 = 96"
  by (simp_all add: BASE642BIN_def)

text \<open>The four values of a group give the bytes back.\<close>

lemma join_bytes:
  "push_bit 2 (drop_bit 2 a) OR drop_bit 4 (push_bit 4 (a AND 3) OR drop_bit 4 b) = (a :: byte)"
  "push_bit 4 ((push_bit 4 (a AND 3) OR drop_bit 4 b) AND 15) OR
     drop_bit 2 (push_bit 2 (b AND 15) OR drop_bit 6 c) = (b :: byte)"
  "push_bit 6 ((push_bit 2 (b AND 15) OR drop_bit 6 c) AND 3) OR (c AND 0x3f) = (c :: byte)"
  unfolding masks_3_15_63
  by (rule byte_eqI; simp add: bit_or_iff bit_and_iff bit_push_bit_iff bit_drop_bit_eq bit_mask_iff
      del: push_bit_mask_eq; auto dest: bit_byte)+

lemma decode_legal:
  assumes "unat v < 64"
  shows "decode_loop (p @ enc_char v # r) (length p) out k q =
     rbind (dec_store v out k q) (\<lambda>(out, k). decode_loop (p @ enc_char v # r) (Suc (length p)) out k ((q + 1) mod 4))"
  using small_values [OF assms]
  by (subst decode_loop.simps) (simp add: dec_char [OF assms] Let_def)

lemma decode_next:
  "decode_loop (p @ c # r) (Suc (length p)) out k q = decode_loop ((p @ [c]) @ r) (length (p @ [c])) out k q"
  by simp

lemmas decode_char = decode_legal [unfolded decode_next]

lemma decode_end: "decode_loop (p @ 0 # r) (length p) out k q = Inr (out, k)"
  by (subst decode_loop.simps) (simp add: Let_def pad_value)

lemma decode_pad:
  "decode_loop (p @ 61 # r) (length p) out k 3 = Inr (out, k)"
  "decode_loop (p @ 61 # 61 # r) (length p) out k 2 = Inr (out, k)"
  by (subst decode_loop.simps, simp add: Let_def pad_value nth_append)+

lemma dec_store_ok:
  "dec_store v (o1 @ x # r) (length o1) 0 = Inr (o1 @ Some (push_bit 2 v) # r, length o1)"
  "dec_store v (o1 @ Some y # x # r) (length o1) 1 =
     Inr (o1 @ Some (y OR drop_bit 4 v) # Some (push_bit 4 (v AND 15)) # r, Suc (length o1))"
  "dec_store v (o1 @ Some y # x # r) (length o1) 2 =
     Inr (o1 @ Some (y OR drop_bit 2 v) # Some (push_bit 6 (v AND 3)) # r, Suc (length o1))"
  "dec_store v (o1 @ Some y # r) (length o1) 3 = Inr (o1 @ Some (y OR v) # r, Suc (length o1))"
  by (simp_all add: dec_store_def rdi_def list_update_append nth_append)

lemma index_bounds:
  "unat (drop_bit 2 a :: byte) < 64" "unat (push_bit 4 (a AND 3) OR drop_bit 4 b :: byte) < 64"
  "unat (push_bit 2 (a AND 15) OR drop_bit 6 b :: byte) < 64" "unat (a AND 0x3f :: byte) < 64"
  unfolding digit_indices unat_low unat_shr using unat_byte [of a] unat_byte [of b] by simp_all

text \<open>The characters of a group, as the encoder computes them.\<close>

lemma b64_group:
  "b64 [a] = [enc_char (drop_bit 2 a), enc_char (push_bit 4 (a AND 3) OR drop_bit 4 0), 61, 61]"
  "b64 [a, b] = [enc_char (drop_bit 2 a), enc_char (push_bit 4 (a AND 3) OR drop_bit 4 b),
     enc_char (push_bit 2 (b AND 15) OR drop_bit 6 0), 61]"
  "b64 (a # b # c # r) = enc_char (drop_bit 2 a) # enc_char (push_bit 4 (a AND 3) OR drop_bit 4 b) #
     enc_char (push_bit 2 (b AND 15) OR drop_bit 6 c) # enc_char (c AND 0x3f) # b64 r"
proof -
  show "b64 [a] = [enc_char (drop_bit 2 a), enc_char (push_bit 4 (a AND 3) OR drop_bit 4 0), 61, 61]"
    using enc_chars(1,2) [of a 0 0] by (simp only: b64.simps Let_def) simp
  show "b64 [a, b] = [enc_char (drop_bit 2 a), enc_char (push_bit 4 (a AND 3) OR drop_bit 4 b),
     enc_char (push_bit 2 (b AND 15) OR drop_bit 6 0), 61]"
    using enc_chars(1,2) [of a b 0] enc_chars(3) [of b 0 a] by (simp only: b64.simps Let_def) simp
  show "b64 (a # b # c # r) = enc_char (drop_bit 2 a) # enc_char (push_bit 4 (a AND 3) OR drop_bit 4 b) #
     enc_char (push_bit 2 (b AND 15) OR drop_bit 6 c) # enc_char (c AND 0x3f) # b64 r"
    using enc_chars(1,2) [of a b c] enc_chars(3) [of b c a] enc_chars(4) [of c a b]
    by (simp only: b64.simps Let_def) simp
qed

lemma quad_next: "(0 + 1) mod 4 = (1 :: nat)" "(1 + 1) mod 4 = (2 :: nat)" "(2 + 1) mod 4 = (3 :: nat)"
    "(3 + 1) mod 4 = (0 :: nat)"
  by simp_all

lemmas decode_step = rbind_Inr prod.case quad_next

text \<open>The characters of one position in a group.\<close>

lemma decode_at:
  assumes "unat v < 64"
  shows "decode_loop (p @ enc_char v # t) (length p) (o1 @ x # s) (length o1) 0 =
      decode_loop ((p @ [enc_char v]) @ t) (length (p @ [enc_char v])) (o1 @ Some (push_bit 2 v) # s)
        (length o1) 1"
    "decode_loop (p @ enc_char v # t) (length p) (o1 @ Some y # x # s) (length o1) 1 =
      decode_loop ((p @ [enc_char v]) @ t) (length (p @ [enc_char v]))
        ((o1 @ [Some (y OR drop_bit 4 v)]) @ Some (push_bit 4 (v AND 15)) # s)
        (length (o1 @ [Some (y OR drop_bit 4 v)])) 2"
    "decode_loop (p @ enc_char v # t) (length p) (o1 @ Some y # x # s) (length o1) 2 =
      decode_loop ((p @ [enc_char v]) @ t) (length (p @ [enc_char v]))
        ((o1 @ [Some (y OR drop_bit 2 v)]) @ Some (push_bit 6 (v AND 3)) # s)
        (length (o1 @ [Some (y OR drop_bit 2 v)])) 3"
    "decode_loop (p @ enc_char v # t) (length p) (o1 @ Some y # s) (length o1) 3 =
      decode_loop ((p @ [enc_char v]) @ t) (length (p @ [enc_char v]))
        ((o1 @ [Some (y OR v)]) @ s) (length (o1 @ [Some (y OR v)])) 0"
proof -
  have c: "(o1 @ [z]) @ w = o1 @ z # w" "length (o1 @ [z]) = Suc (length o1)" for z and w :: region
    by simp_all
  show "decode_loop (p @ enc_char v # t) (length p) (o1 @ x # s) (length o1) 0 =
      decode_loop ((p @ [enc_char v]) @ t) (length (p @ [enc_char v])) (o1 @ Some (push_bit 2 v) # s)
        (length o1) 1"
    by (simp only: decode_char [OF assms] dec_store_ok decode_step)
  show "decode_loop (p @ enc_char v # t) (length p) (o1 @ Some y # x # s) (length o1) 1 =
      decode_loop ((p @ [enc_char v]) @ t) (length (p @ [enc_char v]))
        ((o1 @ [Some (y OR drop_bit 4 v)]) @ Some (push_bit 4 (v AND 15)) # s)
        (length (o1 @ [Some (y OR drop_bit 4 v)])) 2"
    unfolding c by (simp only: decode_char [OF assms] dec_store_ok decode_step)
  show "decode_loop (p @ enc_char v # t) (length p) (o1 @ Some y # x # s) (length o1) 2 =
      decode_loop ((p @ [enc_char v]) @ t) (length (p @ [enc_char v]))
        ((o1 @ [Some (y OR drop_bit 2 v)]) @ Some (push_bit 6 (v AND 3)) # s)
        (length (o1 @ [Some (y OR drop_bit 2 v)])) 3"
    unfolding c by (simp only: decode_char [OF assms] dec_store_ok decode_step)
  show "decode_loop (p @ enc_char v # t) (length p) (o1 @ Some y # s) (length o1) 3 =
      decode_loop ((p @ [enc_char v]) @ t) (length (p @ [enc_char v]))
        ((o1 @ [Some (y OR v)]) @ s) (length (o1 @ [Some (y OR v)])) 0"
    unfolding c by (simp only: decode_char [OF assms] dec_store_ok decode_step)
qed

lemma drop4_0: "drop_bit 4 (0 :: byte) = 0" "drop_bit 6 (0 :: byte) = 0"
  by simp_all

lemma decode_ok:
  "length s < length r \<Longrightarrow> \<exists>r'. decode_loop (p @ b64 s @ 0 # suf) (length p) (o1 @ r) (length o1) 0 =
     Inr (o1 @ map Some s @ r', length o1 + length s)"
proof (induction s arbitrary: p o1 r rule: b64.induct)
  case 1
  then show ?case by (simp add: decode_end)
next
  case (2 a)
  then have "2 \<le> length r" by simp
  then obtain x y r1 where r: "r = x # y # r1" using length_ge_2 by blast
  have "decode_loop (p @ b64 [a] @ 0 # suf) (length p) (o1 @ r) (length o1) 0 =
      Inr ((o1 @ [Some a]) @ Some (push_bit 4 ((push_bit 4 (a AND 3) OR drop_bit 4 0) AND 15)) # r1,
        length (o1 @ [Some a]))"
    unfolding b64_group r append_Cons append_Nil
    by (simp only: decode_at index_bounds join_bytes decode_pad)
  then show ?case by simp
next
  case (3 a b)
  then have "3 \<le> length r" by simp
  then obtain x y z r1 where r: "r = x # y # z # r1" using length_ge_3 by blast
  have "decode_loop (p @ b64 [a, b] @ 0 # suf) (length p) (o1 @ r) (length o1) 0 =
      Inr (((o1 @ [Some a]) @ [Some b]) @
        Some (push_bit 6 ((push_bit 2 (b AND 15) OR drop_bit 6 0) AND 3)) # r1,
        length ((o1 @ [Some a]) @ [Some b]))"
    unfolding b64_group r append_Cons append_Nil
    by (simp only: decode_at index_bounds join_bytes decode_pad)
  then show ?case by simp
next
  case (4 a b c s)
  then have "3 \<le> length r" by simp
  then obtain x y z r1 where r: "r = x # y # z # r1" using length_ge_3 by blast
  let ?cs = "[enc_char (drop_bit 2 a), enc_char (push_bit 4 (a AND 3) OR drop_bit 4 b),
     enc_char (push_bit 2 (b AND 15) OR drop_bit 6 c), enc_char (c AND 0x3f)]"
  have "decode_loop (p @ b64 (a # b # c # s) @ 0 # suf) (length p) (o1 @ r) (length o1) 0 =
      decode_loop ((p @ ?cs) @ b64 s @ 0 # suf) (length (p @ ?cs))
        ((o1 @ [Some a, Some b, Some c]) @ r1) (length (o1 @ [Some a, Some b, Some c])) 0"
    unfolding b64_group r append_Cons append_Nil
    by (simp only: decode_at index_bounds join_bytes) simp
  moreover obtain r' where "decode_loop ((p @ ?cs) @ b64 s @ 0 # suf) (length (p @ ?cs))
        ((o1 @ [Some a, Some b, Some c]) @ r1) (length (o1 @ [Some a, Some b, Some c])) 0 =
      Inr ((o1 @ [Some a, Some b, Some c]) @ map Some s @ r', length (o1 @ [Some a, Some b, Some c]) + length s)"
    using "4.IH" [of r1 "p @ ?cs" "o1 @ [Some a, Some b, Some c]"] "4.prems" r by auto
  ultimately show ?case by (intro exI [of _ r']) simp
qed

section \<open>Any input\<close>

lemma table_values: "n < 256 \<Longrightarrow> unat (BASE642BIN ! n) < 64 \<or> BASE642BIN ! n \<in> {96, 97, 98, 99}"
proof -
  have "list_all (\<lambda>v. unat v < 64 \<or> v \<in> {96, 97, 98, 99}) BASE642BIN" "length BASE642BIN = 256"
    by (simp_all add: BASE642BIN_def)
  then show "n < 256 \<Longrightarrow> ?thesis" by (simp add: list_all_length)
qed

text \<open>The position of the output after \<open>L\<close> legal characters, and the half-written byte there.\<close>

definition dec_inv :: "region \<Rightarrow> nat \<Rightarrow> nat \<Rightarrow> nat \<Rightarrow> bool" where
  "dec_inv out k quad L \<longleftrightarrow>
     k = 3 * L div 4 \<and> quad = L mod 4 \<and> (quad = 0 \<or> k < length out \<and> out ! k \<noteq> None)"

lemma dec_store_inv:
  assumes "dec_inv out k quad L" "3 * Suc L div 4 < length out"
  shows "\<exists>out' k'. dec_store v out k quad = Inr (out', k') \<and> length out' = length out \<and>
     dec_inv out' k' ((quad + 1) mod 4) (Suc L)"
proof -
  have L: "quad = L mod 4" "k = 3 * L div 4" using assms(1) by (simp_all add: dec_inv_def)
  define j where "j = L div 4"
  have "L = 4 * j + quad" "quad < 4" using L(1) by (simp_all add: j_def)
  then consider "quad = 0" "L = 4 * j" | "quad = 1" "L = 4 * j + 1" | "quad = 2" "L = 4 * j + 2"
    | "quad = 3" "L = 4 * j + 3"
    by linarith
  then show ?thesis
  proof cases
    case 1
    then have "k = 3 * j" "3 * Suc L div 4 = 3 * j" "Suc L mod 4 = 1"
      unfolding L(2) by (simp, presburger+)
    then show ?thesis using 1 assms by (simp add: dec_store_def dec_inv_def)
  next
    case 2
    then have "k = 3 * j" "3 * Suc L div 4 = 3 * j + 1" "Suc L mod 4 = 2"
      unfolding L(2) by (simp, presburger+)
    moreover obtain y where "k < length out" "out ! k = Some y" using 2 assms(1) by (auto simp: dec_inv_def)
    ultimately show ?thesis using 2 assms by (simp add: dec_store_def dec_inv_def rdi_def)
  next
    case 3
    then have "k = 3 * j + 1" "3 * Suc L div 4 = 3 * j + 2" "Suc L mod 4 = 3"
      unfolding L(2) by (simp, presburger+)
    moreover obtain y where "k < length out" "out ! k = Some y" using 3 assms(1) by (auto simp: dec_inv_def)
    ultimately show ?thesis using 3 assms by (simp add: dec_store_def dec_inv_def rdi_def)
  next
    case 4
    then have "k = 3 * j + 2" "3 * Suc L div 4 = 3 * j + 3" "Suc L mod 4 = 0"
      unfolding L(2) by (simp, presburger+)
    moreover obtain y where "k < length out" "out ! k = Some y" using 4 assms(1) by (auto simp: dec_inv_def)
    ultimately show ?thesis using 4 assms by (simp add: dec_store_def dec_inv_def rdi_def)
  qed
qed

lemma decode_safe:
  "pos + m < length src \<Longrightarrow> src ! (pos + m) = 0 \<Longrightarrow> dec_inv out k quad L \<Longrightarrow>
     3 * (L + m) div 4 < length out \<Longrightarrow>
     \<exists>out' k'. decode_loop src pos out k quad = Inr (out', k') \<and> length out' = length out \<and>
       k' \<le> 3 * (L + m) div 4"
proof (induction m arbitrary: pos out k quad L)
  case 0
  then show ?case by (subst decode_loop.simps) (simp add: pad_value dec_inv_def Let_def)
next
  case (Suc m)
  let ?v = "BASE642BIN ! unat (src ! pos)"
  have k: "k \<le> 3 * (L + Suc m) div 4" using Suc.prems(3) by (simp add: dec_inv_def div_le_mono)
  have skip: "\<exists>out' k'. decode_loop src (pos + 1) out k quad = Inr (out', k') \<and>
      length out' = length out \<and> k' \<le> 3 * (L + Suc m) div 4"
  proof -
    have "3 * (L + m) div 4 \<le> 3 * (L + Suc m) div 4" by (intro div_le_mono) simp
    then show ?thesis using Suc.IH [of "pos + 1" out k quad L] Suc.prems by fastforce
  qed
  consider "unat ?v < 64" | "?v = 96" | "?v = 97" | "?v = 98 \<or> ?v = 99"
    using table_values [OF unat_byte, of "src ! pos"] by auto
  then show ?case
  proof cases
    case 1
    have "3 * Suc L div 4 \<le> 3 * (L + Suc m) div 4" by (intro div_le_mono) simp
    then obtain out1 k1 where s: "dec_store ?v out k quad = Inr (out1, k1)" "length out1 = length out"
      "dec_inv out1 k1 ((quad + 1) mod 4) (Suc L)"
      using dec_store_inv [OF Suc.prems(3)] Suc.prems(4) by (meson le_less_trans)
    then have "\<exists>out' k'. decode_loop src (pos + 1) out1 k1 ((quad + 1) mod 4) = Inr (out', k') \<and>
        length out' = length out1 \<and> k' \<le> 3 * (Suc L + m) div 4"
      using Suc.prems by (intro Suc.IH) simp_all
    then show ?thesis
      using small_values [OF 1] s Suc.prems(1) by (subst decode_loop.simps) (simp add: Let_def)
  next
    case 2
    then show ?thesis using Suc.prems(1) k by (subst decode_loop.simps) (simp add: Let_def)
  next
    case 3
    then show ?thesis using Suc.prems(1) k skip
      by (cases "quad = 2"; cases "src ! Suc pos = 61"; subst decode_loop.simps) (simp_all add: Let_def)
  next
    case 4
    then show ?thesis using Suc.prems(1) skip by (subst decode_loop.simps) (auto simp: Let_def)
  qed
qed

section \<open>Properties\<close>

lemma thirds: "(n + 2) div 3 = (if n mod 3 = 0 then n div 3 else n div 3 + 1)" for n :: nat
proof -
  define q where "q = n div 3"
  have "n = 3 * q + n mod 3" "n mod 3 < 3" by (simp_all add: q_def)
  then have "n = 3 * q \<or> n = 3 * q + 1 \<or> n = 3 * q + 2" by linarith
  then show ?thesis by (elim disjE) (simp_all, presburger)
qed

text \<open>
  C25: For an input of more than three bytes whose length is not a multiple of three, the encoder
  writes the base-64 form and reports its length, and the decoder, given these characters and a
  terminating zero, gives the input back.
\<close>

theorem base64_roundtrip:
  assumes "3 < length src" "length src mod 3 \<noteq> 0" "length (b64 src) \<le> length dst" "length src < length buf"
  shows "\<exists>out r. encode_base64 dst src (int (length src)) = Inr (map Some (b64 src) @ out, length (b64 src)) \<and>
     decode_base64 buf (b64 src @ 0 # rest) (int (length (b64 src))) = Inr (map Some src @ r, length src)"
proof -
  have "4 * (length src div 3) + 4 = length (b64 src)"
    using assms(2) unfolding length_b64 thirds by simp
  then have "encode_base64 dst src (int (length src)) =
      Inr (map Some (b64 src) @ drop (length (b64 src)) dst, length (b64 src))"
    using encode_long [OF assms(1), of dst] assms(3) length_b64 by simp
  moreover obtain r where "decode_loop ([] @ b64 src @ 0 # rest) (length ([] :: byte list)) ([] @ buf)
      (length ([] :: region)) 0 = Inr ([] @ map Some src @ r, length ([] :: region) + length src)"
    using decode_ok [OF assms(4)] by blast
  ultimately show ?thesis by (auto simp: decode_base64_def)
qed

theorem base64_roundtrip_witness:
  "\<exists>out r. encode_base64 (replicate 8 None) [104, 101, 108, 108] 4 = Inr (map Some (b64 [104, 101, 108, 108]) @ out, 8) \<and>
     decode_base64 (replicate 5 None) (b64 [104, 101, 108, 108] @ [0]) 8 = Inr (map Some [104, 101, 108, 108] @ r, 4)"
proof -
  have l: "length [104, 101, 108, 108 :: byte] = 4" by simp
  then have b: "length (b64 [104, 101, 108, 108]) = 8" unfolding length_b64 by simp
  show ?thesis
    using base64_roundtrip [of "[104, 101, 108, 108]" "replicate 8 None" "replicate 5 None" "[]"]
    unfolding l b by (simp del: b64.simps list.map)
qed

text \<open>
  For all other lengths the encoder is wrong.  One to three bytes are encoded to nothing, and
  for a longer input whose length is a multiple of three the reported length counts four characters
  more than were written.
\<close>

lemma base64_wrong_lengths:
  assumes "length src mod 3 = 0 \<or> length src \<le> 3" "src \<noteq> []" "length (b64 src) \<le> length dst"
  shows "\<exists>n. encode_base64 dst src (int (length src)) =
      Inr (if length src \<le> 3 then dst else map Some (b64 src) @ drop (length (b64 src)) dst, n) \<and>
     n = (if length src \<le> 3 then 0 else length (b64 src) + 4) \<and> n \<noteq> length (b64 src)"
proof (cases "length src \<le> 3")
  case True
  then consider a where "src = [a]" | a b where "src = [a, b]" | a b c where "src = [a, b, c]"
    using assms(2) by (cases src; cases "tl src"; cases "tl (tl src)") auto
  then show ?thesis by cases (simp_all add: encode_base64_def Let_def)
next
  case False
  then have "4 * (length src div 3) + 4 = length (b64 src) + 4"
    using assms(1) unfolding length_b64 thirds by simp
  then show ?thesis
    using encode_long [of src dst] assms(3) length_b64 False by simp
qed

lemma base64_wrong_lengths_example:
  "encode_base64 [None, None, None, None] [1, 2] 2 = Inr ([None, None, None, None], 0) \<and>
   (\<exists>out. encode_base64 (replicate 8 None) [1, 2, 3, 4, 5, 6] 6 = Inr (out, 12))"
  using base64_wrong_lengths [of "[1, 2]" "[None, None, None, None]"]
    base64_wrong_lengths [of "[1, 2, 3, 4, 5, 6]" "replicate 8 None"]
  by (auto simp: length_b64 numeral_2_eq_2 [symmetric] simp del: b64.simps)

text \<open>
  The decoder is memory safe on any zero-terminated input, whatever its characters: three bytes
  of output for four characters of input and one more are enough, no byte is read before it is
  written, the source is not read past its zero, and the decoding ends.
\<close>

lemma decode_base64_safe:
  assumes "n < length src" "src ! n = 0" "3 * n div 4 < length dst"
  shows "\<exists>out k. decode_base64 dst src len = Inr (out, k) \<and> length out = length dst \<and> k \<le> 3 * n div 4"
  using decode_safe [of 0 n src dst 0 0 0] assms by (simp add: decode_base64_def dec_inv_def)

lemma decode_base64_safe_example:
  "\<exists>out k. decode_base64 [None, None, None] [61, 65, 200, 0] 3 = Inr (out, k) \<and> k \<le> 2"
  using decode_base64_safe [of 3 "[61, 65, 200, 0]" "[None, None, None]" 3] by auto

end
