(* ===== verification/TF_Strings.thy ===== *)
theory TF_Strings
  imports TF_List_Spec "HOL-Library.Sublist"
begin

text \<open>
  The string functions of \<open>tf_util.c\<close>: tests, comparison, matching, trimming in place, splitting
  into a list and joining.  A string that is only read is the list of its characters, and reading
  its terminating zero is the case of the empty list; a buffer that is written is a list of cells
  with its zero.
\<close>

section \<open>Tests and comparisons\<close>

definition tf_strisnum :: "cstr \<Rightarrow> bool" where
  "tf_strisnum str =
     (let str = dropWhile c_space str;
          str = (case str of c # r \<Rightarrow> if c = 45 then r else str | [] \<Rightarrow> []);
          isnum = takeWhile c_digit str \<noteq> [];
          str = dropWhile c_digit str;
          str = (case str of c # r \<Rightarrow> if c = 46 then r else str | [] \<Rightarrow> []);
          isnum = (isnum \<or> takeWhile c_digit str \<noteq> []);
          str = dropWhile c_digit str;
          str = dropWhile c_space str
      in isnum \<and> str = [])"

text \<open>\<open>*p + ('a' - 'A')\<close> for an upper-case letter, and the unsigned value of any other character.\<close>

definition fold_case :: "byte \<Rightarrow> int" where
  "fold_case c = (if c_upper c then sint c + 32 else uint c)"

fun tf_stricmp :: "cstr \<Rightarrow> cstr \<Rightarrow> int" where
  "tf_stricmp [] bstr = (if bstr = [] then 0 else - 1)"
| "tf_stricmp (a # astr) [] = 1"
| "tf_stricmp (a # astr) (b # bstr) =
     (let ac = fold_case a; bc = fold_case b
      in if ac \<noteq> bc then ac - bc else tf_stricmp astr bstr)"

fun tf_strfwm :: "cstr \<Rightarrow> cstr \<Rightarrow> bool" where
  "tf_strfwm str [] = True"
| "tf_strfwm [] (k # key) = False"
| "tf_strfwm (c # str) (k # key) = (if c \<noteq> k then False else tf_strfwm str key)"

text \<open>The case-insensitive matches compare the signed characters.\<close>

definition fold_signed :: "byte \<Rightarrow> int" where
  "fold_signed c = (if 65 \<le> sint c \<and> sint c \<le> 90 then sint c + 32 else sint c)"

fun tf_strifwm :: "cstr \<Rightarrow> cstr \<Rightarrow> bool" where
  "tf_strifwm str [] = True"
| "tf_strifwm [] (k # key) = False"
| "tf_strifwm (c # str) (k # key) =
     (if fold_signed c \<noteq> fold_signed k then False else tf_strifwm str key)"

text \<open>The loops from the ends of both strings; \<open>i\<close> counts from 1 to the length of the key.\<close>

function bwm_loop :: "(byte \<Rightarrow> int) \<Rightarrow> cstr \<Rightarrow> cstr \<Rightarrow> nat \<Rightarrow> bool" where
  "bwm_loop f str key i =
     (if i \<le> length key
      then if i > length str \<or> f (str ! (length str - i)) \<noteq> f (key ! (length key - i)) then False
           else bwm_loop f str key (i + 1)
      else True)"
  by pat_completeness auto
termination by (relation "measure (\<lambda>(f, str, key, i). Suc (length key) - i)") auto

declare bwm_loop.simps [simp del]

definition tf_strbwm :: "cstr \<Rightarrow> cstr \<Rightarrow> bool" where
  "tf_strbwm str key = bwm_loop sint str key 1"

definition tf_stribwm :: "cstr \<Rightarrow> cstr \<Rightarrow> bool" where
  "tf_stribwm str key = bwm_loop fold_signed str key 1"

section \<open>Trimming in place\<close>

text \<open>
  The first loop copies the string over itself, without its leading spaces; \<open>rp\<close> and \<open>wp\<close> are
  the positions of the two pointers in the buffer.
\<close>

function trim_copy :: "byte list \<Rightarrow> nat \<Rightarrow> nat \<Rightarrow> bool \<Rightarrow> c_error + byte list \<times> nat" where
  "trim_copy buf rp wp head =
     rbind (rd buf rp) (\<lambda>c.
     if c = 0 then Inr (buf, wp)
     else if c_space c
     then (if head then trim_copy buf (rp + 1) wp head
           else rbind (wr buf wp c) (\<lambda>buf'.
                trim_copy buf' (rp + 1) (wp + 1) head))
     else rbind (wr buf wp c) (\<lambda>buf'.
          trim_copy buf' (rp + 1) (wp + 1) False))"
  by pat_completeness auto
termination
  by (relation "measure (\<lambda>(buf, rp, wp, h). length buf - rp)")
    (auto simp: rd_def wr_def split: if_splits)

declare trim_copy.simps [simp del]

text \<open>The second loop removes the trailing spaces.\<close>

fun trim_tail :: "byte list \<Rightarrow> nat \<Rightarrow> c_error + byte list" where
  "trim_tail buf 0 = Inr buf"
| "trim_tail buf (Suc wp) =
     rbind (rd buf wp) (\<lambda>c.
     if c_space c then rbind (wr buf wp 0) (\<lambda>buf. trim_tail buf wp) else Inr buf)"

definition tf_strtrim :: "byte list \<Rightarrow> c_error + byte list" where
  "tf_strtrim str =
     rbind (trim_copy str 0 0 True) (\<lambda>(buf, wp).
     rbind (wr buf wp 0) (\<lambda>buf. trim_tail buf wp))"

section \<open>Splitting and joining\<close>

function split_loop :: "tf_list \<Rightarrow> cstr \<Rightarrow> cstr \<Rightarrow> c_error + tf_list" where
  "split_loop lst str delims =
     (let field = takeWhile (\<lambda>c. c \<notin> set delims) str;
          str' = dropWhile (\<lambda>c. c \<notin> set delims) str
      in rbind (tf_list_push lst str (int (length field))) (\<lambda>lst.
         case str' of [] \<Rightarrow> Inr lst | c # rest \<Rightarrow> split_loop lst rest delims))"
  by pat_completeness auto
termination
  apply (relation "measure (\<lambda>(l, str, d). length str)")
   apply simp
  subgoal for lst str delims
    using length_dropWhile_le [of "\<lambda>c. c \<notin> set delims" str]
    by (auto dest: arg_cong [where f = length])
  done

declare split_loop.simps [simp del]

definition tf_strsplit :: "cstr \<Rightarrow> cstr \<Rightarrow> c_error + tf_list" where
  "tf_strsplit str delims = split_loop tf_list_new str delims"

text \<open>\<open>TFLISTVALSIZ\<close>: the macro reads the array without the range check of \<open>tf_list_val\<close>.\<close>

definition TFLISTVALSIZ :: "tf_list \<Rightarrow> nat \<Rightarrow> c_error + nat" where
  "TFLISTVALSIZ l i = rbind (rdi (l_array l) (i + l_start l)) (\<lambda>n. Inr (n_size n))"

fun join_size :: "tf_list \<Rightarrow> nat \<Rightarrow> nat \<Rightarrow> nat \<Rightarrow> c_error + nat" where
  "join_size l i 0 sz = Inr sz"
| "join_size l i (Suc n) sz =
     rbind (TFLISTVALSIZ l i) (\<lambda>k. rbind (chk_int (sz + k)) (\<lambda>sz. join_size l (i + 1) n sz))"

text \<open>The loop over the elements; \<open>n\<close> of them are left from index \<open>i\<close> on.\<close>

fun join_loop :: "tf_list \<Rightarrow> byte \<Rightarrow> nat \<Rightarrow> nat \<Rightarrow> region \<Rightarrow> nat \<Rightarrow> c_error + region \<times> nat" where
  "join_loop l delim i 0 buf wp = Inr (buf, wp)"
| "join_loop l delim i (Suc n) buf wp =
     rbind (if i > 0 then rbind (wr buf wp (Some delim)) (\<lambda>buf. Inr (buf, wp + 1)) else Inr (buf, wp))
       (\<lambda>(buf, wp).
     rbind (tf_list_val l (int i)) (\<lambda>v.
     case v of
       None \<Rightarrow> Inl Uninitialised
     | Some (vbuf, vsiz) \<Rightarrow>
         rbind (slice vbuf 0 vsiz) (\<lambda>bytes.
         rbind (blit buf wp bytes) (\<lambda>buf.
         join_loop l delim (i + 1) n buf (wp + vsiz)))))"

definition tf_strjoin :: "tf_list \<Rightarrow> byte \<Rightarrow> c_error + region" where
  "tf_strjoin l delim =
     (let num = tf_list_num l
      in rbind (chk_int (num + 1)) (\<lambda>sz.
         rbind (join_size l 0 num sz) (\<lambda>sz.
         rbind (join_loop l delim 0 num (replicate sz None) 0) (\<lambda>(buf, wp).
         wr buf wp (Some 0)))))"

section \<open>Numeric strings\<close>

text \<open>
  The shape the test recognises: spaces, a sign, digits, a point, digits and spaces, with at least
  one digit.
\<close>

definition numeric_form :: "cstr \<Rightarrow> bool" where
  "numeric_form s \<longleftrightarrow>
     (\<exists>sp sign ds point fs sp'. s = sp @ sign @ ds @ point @ fs @ sp' \<and>
        list_all c_space sp \<and> sign \<in> {[], [45]} \<and> list_all c_digit ds \<and> point \<in> {[], [46]} \<and>
        list_all c_digit fs \<and> list_all c_space sp' \<and> (ds \<noteq> [] \<or> fs \<noteq> []))"

lemma not_digit: "\<not> c_digit 45" "\<not> c_digit 46" "\<not> c_space 45" "\<not> c_space 46"
  by (auto simp: c_digit_def c_space_def)

lemma classes: "c_digit c \<Longrightarrow> c \<noteq> 45 \<and> c \<noteq> 46 \<and> \<not> c_space c"
    "c_space c \<Longrightarrow> c \<noteq> 45 \<and> c \<noteq> 46 \<and> \<not> c_digit c"
  by (auto simp: c_digit_def c_space_def)

lemma takeWhile_none: "(\<And>c r. xs = c # r \<Longrightarrow> \<not> P c) \<Longrightarrow> takeWhile P xs = [] \<and> dropWhile P xs = xs"
  by (cases xs) auto

text \<open>The optional character that the code steps over.\<close>

definition skip_char :: "byte \<Rightarrow> cstr \<Rightarrow> cstr" where
  "skip_char k str = (case str of c # r \<Rightarrow> if c = k then r else str | [] \<Rightarrow> [])"

lemma skip_char_split: "\<exists>x \<in> {[], [k]}. str = x @ skip_char k str"
  by (cases str) (auto simp: skip_char_def)

lemma skip_char_simps [simp]:
  "skip_char k [] = []" "skip_char k (k # r) = r" "c \<noteq> k \<Longrightarrow> skip_char k (c # r) = c # r"
  by (auto simp: skip_char_def)

lemma tf_strisnum_eq:
  "tf_strisnum str =
    (let a = skip_char 45 (dropWhile c_space str);
         b = skip_char 46 (dropWhile c_digit a);
         c = dropWhile c_digit b
     in (takeWhile c_digit a \<noteq> [] \<or> takeWhile c_digit b \<noteq> []) \<and> dropWhile c_space c = [])"
  by (simp add: tf_strisnum_def skip_char_def Let_def)

lemma strisnum_sound: "tf_strisnum str \<Longrightarrow> numeric_form str"
proof -
  assume num: "tf_strisnum str"
  define a where "a = skip_char 45 (dropWhile c_space str)"
  define b where "b = skip_char 46 (dropWhile c_digit a)"
  define c where "c = dropWhile c_digit b"
  obtain x where x: "x \<in> {[], [45]}" "dropWhile c_space str = x @ a"
    using skip_char_split a_def by blast
  obtain y where y: "y \<in> {[], [46]}" "dropWhile c_digit a = y @ b"
    using skip_char_split b_def by blast
  have c: "dropWhile c_space c = []" "takeWhile c_digit a \<noteq> [] \<or> takeWhile c_digit b \<noteq> []"
    using num by (simp_all add: tf_strisnum_eq Let_def a_def b_def c_def)
  have "str = takeWhile c_space str @ x @ takeWhile c_digit a @ y @ takeWhile c_digit b @ c"
    using takeWhile_dropWhile_id [of c_space str] takeWhile_dropWhile_id [of c_digit a]
      takeWhile_dropWhile_id [of c_digit b] x(2) y(2) unfolding c_def by (metis append.assoc)
  moreover have "list_all c_space c"
    using c(1) by (simp add: dropWhile_eq_Nil_conv list_all_iff)
  ultimately show ?thesis
    unfolding numeric_form_def using x(1) y(1) c(2) list_all_takeWhile by blast
qed

lemma drop_spaces_digits:
  assumes "list_all c_digit ds" "point \<in> {[], [46]}" "list_all c_digit fs" "ds \<noteq> [] \<or> fs \<noteq> []"
  shows "\<exists>c t. ds @ point @ fs @ sp = c # t \<and> \<not> c_space c \<and> c \<noteq> 45"
  using assms by (cases ds; cases fs) (auto simp: not_digit dest: classes)

lemma strisnum_complete: "numeric_form str \<Longrightarrow> tf_strisnum str"
proof -
  assume "numeric_form str"
  then obtain sp sign ds point fs sp' where
    str: "str = sp @ sign @ ds @ point @ fs @ sp'" and
    h: "list_all c_space sp" "sign \<in> {[], [45]}" "list_all c_digit ds" "point \<in> {[], [46]}"
      "list_all c_digit fs" "list_all c_space sp'" "ds \<noteq> [] \<or> fs \<noteq> []"
    unfolding numeric_form_def by blast
  obtain c t where ct: "ds @ point @ fs @ sp' = c # t" "\<not> c_space c" "c \<noteq> 45"
    using drop_spaces_digits [OF h(3,4,5,7)] by blast
  have "dropWhile c_space str = sign @ ds @ point @ fs @ sp'"
    unfolding str dropWhile_all [OF h(1)] using h(2) ct by (auto simp: not_digit)
  then have a: "skip_char 45 (dropWhile c_space str) = ds @ point @ fs @ sp'"
    using h(2) ct by auto
  have sp: "takeWhile c_digit sp' = []" "dropWhile c_digit sp' = sp'" "skip_char 46 sp' = sp'"
    using h(6) by (cases sp'; auto dest: classes)+
  have e: "\<forall>x \<in> set sp'. c_space x"
    using h(6) by (simp add: list_all_iff)
  show ?thesis
  proof (cases "point = []")
    case True
    have "list_all c_digit (ds @ fs)" using h(3,5) by simp
    from takeWhile_all [OF this, of sp'] dropWhile_all [OF this, of sp']
    show ?thesis
      using h(7) True by (simp add: tf_strisnum_eq a sp e)
  next
    case False
    then have "point = [46]" using h(4) by simp
    then show ?thesis
      using h(7) takeWhile_all [OF h(3), of "46 # fs @ sp'"] dropWhile_all [OF h(3), of "46 # fs @ sp'"]
        takeWhile_all [OF h(5), of sp'] dropWhile_all [OF h(5), of sp']
      by (auto simp: tf_strisnum_eq a sp e not_digit)
  qed
qed

section \<open>Comparison and matching\<close>

definition lower :: "byte \<Rightarrow> byte" where
  "lower c = (if c_upper c then c + 32 else c)"

lemma fold_case_lower: "fold_case c = uint (lower c)"
proof (cases "c_upper c")
  case True
  then have "sint c = uint c" "uint c \<le> 90" using sint_ascii [of c] by (auto simp: c_upper_def)
  moreover from this have "uint (c + 32) = uint c + 32" by (simp add: uint_word_ariths)
  ultimately show ?thesis using True by (simp add: fold_case_def lower_def)
qed (simp add: fold_case_def lower_def)

lemma stricmp_order:
  "(tf_stricmp a b = 0 \<longleftrightarrow> map lower a = map lower b) \<and>
   (tf_stricmp a b < 0 \<longleftrightarrow> map lower a < map lower b)"
proof (induction a b rule: tf_stricmp.induct)
  case (3 a astr b bstr)
  have "fold_case a = fold_case b \<longleftrightarrow> lower a = lower b" "fold_case a < fold_case b \<longleftrightarrow> lower a < lower b"
    by (simp_all add: fold_case_lower word_less_def word_uint_eq_iff)
  then show ?case using 3 by (auto simp: Let_def)
qed (auto simp: neq_Nil_conv)

lemma fold_signed_lower: "fold_signed c = fold_signed d \<longleftrightarrow> lower c = lower d"
proof -
  have "fold_signed c = sint (lower c)" for c
  proof (cases "c_upper c")
    case True
    then have "sint c + sint (32 :: byte) \<le> 127" "- 128 \<le> sint c + sint (32 :: byte)" by (auto simp: c_upper_def)
    then have "sint (c + 32) = sint c + 32"
      by (subst sint_word_ariths) (simp add: signed_take_bit_int_eq_self)
    then show ?thesis using True by (simp add: fold_signed_def lower_def c_upper_def)
  qed (auto simp: fold_signed_def lower_def c_upper_def)
  then show ?thesis by (simp add: sint_inject)
qed

lemma strfwm_prefix: "tf_strfwm str key \<longleftrightarrow> prefix key str"
  by (induction str key rule: tf_strfwm.induct) auto

lemma strifwm_prefix: "tf_strifwm str key \<longleftrightarrow> prefix (map lower key) (map lower str)"
  by (induction str key rule: tf_strifwm.induct) (auto simp: fold_signed_lower)

lemma bwm_loop_eq:
  "bwm_loop f str key (Suc n) \<longleftrightarrow> prefix (map f (drop n (rev key))) (map f (drop n (rev str)))"
proof (induction "length key - n" arbitrary: n)
  case 0
  then show ?case by (simp add: bwm_loop.simps [of f str key])
next
  case (Suc k)
  then have n: "n < length key" by simp
  then have key: "drop n (rev key) = key ! (length key - Suc n) # drop (Suc n) (rev key)"
    by (simp add: Cons_nth_drop_Suc [symmetric] rev_nth)
  have IH: "bwm_loop f str key (Suc (Suc n)) \<longleftrightarrow>
      prefix (map f (drop (Suc n) (rev key))) (map f (drop (Suc n) (rev str)))"
    using Suc.hyps(2) by (intro Suc.hyps(1)) simp
  show ?case
  proof (cases "n < length str")
    case True
    then have "drop n (rev str) = str ! (length str - Suc n) # drop (Suc n) (rev str)"
      by (simp add: Cons_nth_drop_Suc [symmetric] rev_nth)
    then show ?thesis
      using IH n True by (auto simp: bwm_loop.simps [of f str key "Suc n"] key)
  next
    case False
    then show ?thesis using n by (simp add: bwm_loop.simps [of f str key "Suc n"] key)
  qed
qed

lemma prefix_map_eq:
  assumes "\<And>c d. f c = f d \<longleftrightarrow> g c = g d"
  shows "prefix (map f a) (map f b) \<longleftrightarrow> prefix (map g a) (map g b)"
proof (induction a arbitrary: b)
  case (Cons x a)
  then show ?case using assms by (cases b) auto
qed simp

lemma bwm_suffix:
  assumes "\<And>c d. f c = f d \<longleftrightarrow> g c = g d"
  shows "bwm_loop f str key 1 \<longleftrightarrow> suffix (map g key) (map g str)"
  using bwm_loop_eq [of f str key 0] prefix_map_eq [of f g, OF assms]
  by (simp add: suffix_to_prefix rev_map)

lemma strbwm_suffix: "tf_strbwm str key \<longleftrightarrow> suffix key str"
  using bwm_suffix [of sint id str key] by (simp add: tf_strbwm_def sint_inject)

lemma stribwm_suffix: "tf_stribwm str key \<longleftrightarrow> suffix (map lower key) (map lower str)"
  unfolding tf_stribwm_def by (rule bwm_suffix) (rule fold_signed_lower)

section \<open>Trimming\<close>

definition strip_tail :: "cstr \<Rightarrow> cstr" where
  "strip_tail s = rev (dropWhile c_space (rev s))"

definition strip :: "cstr \<Rightarrow> cstr" where
  "strip s = strip_tail (dropWhile c_space s)"

lemma strip_tail_snoc [simp]: "strip_tail (s @ [c]) = (if c_space c then strip_tail s else s @ [c])"
  by (simp add: strip_tail_def)

lemma strip_tail_Nil [simp]: "strip_tail [] = []"
  by (simp add: strip_tail_def)

lemma length_strip_tail: "length (strip_tail s) \<le> length s"
  unfolding strip_tail_def using length_dropWhile_le [of c_space "rev s"] by simp

text \<open>
  The buffer during the copy: the characters kept so far, a gap of characters already read, the
  rest of the string, its zero and whatever follows.
\<close>

lemma trim_copy_ok:
  "cstr_ok s \<Longrightarrow> \<exists>gap'. trim_copy (w @ gap @ s @ 0 # j) (length w + length gap) (length w) head =
     Inr (w @ (if head then dropWhile c_space s else s) @ gap' @ 0 # j,
          length w + length (if head then dropWhile c_space s else s)) \<and>
     length gap' + length (if head then dropWhile c_space s else s) = length gap + length s"
proof (induction s arbitrary: w gap head)
  case Nil
  then show ?case by (intro exI [of _ gap]) (simp add: trim_copy.simps nth_append)
next
  case (Cons c s)
  let ?buf = "w @ gap @ (c # s) @ 0 # j"
  have c: "c \<noteq> 0" "cstr_ok s" using Cons.prems by (auto simp: cstr_ok_def)
  have r: "rd ?buf (length w + length gap) = Inr c" by (simp add: rd_def nth_append)
  obtain gap1 where g: "length gap1 = length gap"
    "wr ?buf (length w) c = Inr ((w @ [c]) @ gap1 @ s @ 0 # j)"
  proof (cases gap)
    case Nil
    then show ?thesis using that [of "[]"] by (simp add: wr_def list_update_append)
  next
    case (Cons x xs)
    then show ?thesis using that [of "xs @ [c]"] by (simp add: wr_def list_update_append)
  qed
  show ?case
  proof (cases "head \<and> c_space c")
    case True
    then show ?thesis
      using Cons.IH [of w "gap @ [c]" head] c r
      by (subst trim_copy.simps) simp
  next
    case False
    then have "trim_copy ?buf (length w + length gap) (length w) head =
        trim_copy ((w @ [c]) @ gap1 @ s @ 0 # j) (length (w @ [c]) + length gap1) (length (w @ [c])) False"
      using c(1) r g by (subst trim_copy.simps) (auto simp del: append_assoc simp: rbind_def)
    then show ?thesis using Cons.IH [of "w @ [c]" gap1 False] c False g(1) by auto
  qed
qed

lemma trim_tail_ok:
  "trim_tail (t @ j) (length t) =
     Inr (strip_tail t @ replicate (length t - length (strip_tail t)) 0 @ j)"
proof (induction t arbitrary: j rule: rev_induct)
  case (snoc c t)
  show ?case
  proof (cases "c_space c")
    case True
    have "wr (t @ c # j) (length t) 0 = Inr (t @ 0 # j)" by (simp add: wr_def)
    moreover have "Suc (length t) - length (strip_tail t) = Suc (length t - length (strip_tail t))"
      using length_strip_tail [of t] by simp
    ultimately show ?thesis
      using True snoc.IH [of "0 # j"] by (simp add: replicate_app_Cons_same)
  qed simp
qed simp

lemma strtrim_ok:
  assumes "cstr_ok s"
  shows "\<exists>r. tf_strtrim (s @ 0 # j) = Inr (strip s @ 0 # r) \<and> length (strip s @ 0 # r) = length (s @ 0 # j)"
proof -
  let ?t = "dropWhile c_space s"
  obtain gap where c: "trim_copy (s @ 0 # j) 0 0 True = Inr (?t @ gap @ 0 # j, length ?t)"
    "length gap + length ?t = length s"
    using trim_copy_ok [OF assms, of "[]" "[]" j True] by auto
  obtain r where r: "wr (?t @ gap @ 0 # j) (length ?t) 0 = Inr (?t @ 0 # r)"
    "length r = length gap + length j"
    by (cases gap) (simp_all add: wr_def)
  define k where "k = length ?t - length (strip_tail ?t)"
  have k: "length (strip s) + k = length ?t"
    using length_strip_tail [of ?t] by (simp add: k_def strip_def)
  have "tf_strtrim (s @ 0 # j) = Inr (strip s @ replicate k 0 @ 0 # r)"
    unfolding tf_strtrim_def by (simp add: c(1) r(1) trim_tail_ok strip_def k_def)
  then show ?thesis
    using k c(2) r(2) by (intro exI [of _ "replicate k 0 @ r"]) (simp add: replicate_app_Cons_same)
qed

section \<open>Splitting and joining\<close>

text \<open>The fields of a string: a delimiter ends each of them but the last.\<close>

fun fields :: "byte set \<Rightarrow> cstr \<Rightarrow> cstr list" where
  "fields D [] = [[]]"
| "fields D (c # s) =
     (if c \<in> D then [] # fields D s
      else case fields D s of f # fs \<Rightarrow> (c # f) # fs | [] \<Rightarrow> [[c]])"

lemma fields_split:
  "fields D s = takeWhile (\<lambda>c. c \<notin> D) s #
     (case dropWhile (\<lambda>c. c \<notin> D) s of [] \<Rightarrow> [] | c # r \<Rightarrow> fields D r)"
  by (induction s) auto

lemma fields_not_Nil [simp]: "fields D s \<noteq> []"
  by (simp add: fields_split [of D s])

lemma length_fields: "length (fields D s) \<le> Suc (length s)"
  by (induction s) (auto split: list.splits)

lemma fields_length: "f \<in> set (fields D s) \<Longrightarrow> length f \<le> length s"
proof (induction s arbitrary: f)
  case (Cons c s)
  then show ?case by (cases "fields D s") (auto split: if_splits dest: le_SucI)
qed simp

lemma split_loop_ok:
  "list_inv lst (length (fields (set delims) str) + k) \<Longrightarrow> length str < int_max \<Longrightarrow>
     \<exists>lst'. split_loop lst str delims = Inr lst' \<and> list_inv lst' k \<and>
       tf_list_elems lst' = tf_list_elems lst @ fields (set delims) str"
proof (induction lst str delims arbitrary: k rule: split_loop.induct)
  case (1 lst str delims)
  let ?P = "\<lambda>c. c \<notin> set delims"
  let ?f = "takeWhile ?P str"
  define k' where "k' = length (case dropWhile ?P str of [] \<Rightarrow> [] | c # r \<Rightarrow> fields (set delims) r) + k"
  have "list_inv lst (Suc k')" using 1(2) by (simp add: fields_split [of _ str] k'_def)
  moreover have "length ?f < int_max" using 1(3) by (meson le_less_trans length_takeWhile_le)
  moreover have "take (length ?f) str = ?f" by (simp flip: takeWhile_eq_take)
  ultimately obtain l1 where l1: "tf_list_push lst str (int (length ?f)) = Inr l1" "list_inv l1 k'"
    "tf_list_elems l1 = tf_list_elems lst @ [?f]"
    using push_ok [of lst k' "length ?f" str] length_takeWhile_le [of ?P str]
    by (auto simp: list_inv_def)
  show ?case
  proof (cases "dropWhile ?P str")
    case Nil
    have "k' = k" by (simp add: k'_def Nil)
    then show ?thesis
      using l1 by (simp add: split_loop.simps [of lst str] fields_split [of _ str] Let_def Nil)
  next
    case (Cons c r)
    have "length r < int_max"
      using Cons length_dropWhile_le [of ?P str] 1(3) by (metis Suc_le_lessD length_Cons less_trans)
    then obtain l2 where "split_loop l1 r delims = Inr l2" "list_inv l2 k"
      "tf_list_elems l2 = tf_list_elems l1 @ fields (set delims) r"
      using 1(1) [OF refl refl l1(1) Cons, of k] l1(2) Cons by (auto simp: k'_def)
    then show ?thesis
      using l1 Cons by (simp add: split_loop.simps [of lst str] fields_split [of _ str] Let_def)
  qed
qed

fun join :: "byte \<Rightarrow> cstr list \<Rightarrow> cstr" where
  "join d [] = []"
| "join d [x] = x"
| "join d (x # y # xs) = x @ d # join d (y # xs)"

lemma join_fields: "join d (fields {d} s) = s"
proof (induction s)
  case (Cons c s)
  then show ?case
    by (cases "fields {d} s"; cases "tl (fields {d} s)") auto
qed simp

lemma fields_join:
  "xs \<noteq> [] \<Longrightarrow> list_all (\<lambda>x. d \<notin> set x) xs \<Longrightarrow> fields {d} (join d xs) = xs"
proof (induction d xs rule: join.induct)
  case (2 d x)
  then show ?case by (induction x) auto
next
  case (3 d x y xs)
  have "fields {d} (x @ d # s) = x # fields {d} s" if "d \<notin> set x" for s
    using that by (induction x) auto
  then show ?case using 3 by simp
qed simp

lemma length_join: "length (join d xs) = (\<Sum>x\<leftarrow>xs. length x) + (length xs - 1)"
  by (induction d xs rule: join.induct) auto

text \<open>What a well-formed list yields at an index.\<close>

lemma list_read:
  assumes "tf_list_wf l" "i < length (tf_list_elems l)"
  shows "TFLISTVALSIZ l i = Inr (length (tf_list_elems l ! i))"
    "\<exists>r. tf_list_val l (int i) = Inr (Some (r, length (tf_list_elems l ! i))) \<and>
       slice r 0 (length (tf_list_elems l ! i)) = Inr (map Some (tf_list_elems l ! i))"
proof -
  have n: "i < l_num l" using assms elems_len by simp
  obtain r where r: "tf_list_val l (int i) = Inr (Some (r, length (tf_list_elems l ! i)))"
    "holds_str r (tf_list_elems l ! i)"
    using val_ok [OF assms(1) n] by blast
  then obtain m where "rdi (l_array l) (i + l_start l) = Inr m" "n_size m = length (tf_list_elems l ! i)"
    using n by (auto simp: tf_list_val_def rbind_def split: sum.splits)
  then show "TFLISTVALSIZ l i = Inr (length (tf_list_elems l ! i))"
    by (simp add: TFLISTVALSIZ_def)
  let ?n = "length (tf_list_elems l ! i)"
  have "take (Suc ?n) r = map Some (tf_list_elems l ! i) @ [Some 0]"
    using r(2) by (simp add: holds_str_def)
  then have "take ?n (take (Suc ?n) r) = map Some (tf_list_elems l ! i)" "Suc ?n \<le> length r"
    by (simp_all only: take_append) (simp_all, metis length_append_singleton length_map length_take min.absorb_iff2)
  then have "slice r 0 ?n = Inr (map Some (tf_list_elems l ! i))"
    by (simp add: slice_def min_def)
  then show "\<exists>r. tf_list_val l (int i) = Inr (Some (r, ?n)) \<and>
      slice r 0 ?n = Inr (map Some (tf_list_elems l ! i))"
    using r(1) by blast
qed

lemma join_size_ok:
  "tf_list_wf l \<Longrightarrow> i + n = length (tf_list_elems l) \<Longrightarrow>
     sz + (\<Sum>x\<leftarrow>drop i (tf_list_elems l). length x) \<le> int_max \<Longrightarrow>
     join_size l i n sz = Inr (sz + (\<Sum>x\<leftarrow>drop i (tf_list_elems l). length x))"
proof (induction n arbitrary: i sz)
  case (Suc n)
  then have i: "i < length (tf_list_elems l)" by simp
  have d: "drop i (tf_list_elems l) = tf_list_elems l ! i # drop (Suc i) (tf_list_elems l)"
    using i by (simp add: Cons_nth_drop_Suc)
  then show ?case
    using Suc.IH [of "Suc i" "sz + length (tf_list_elems l ! i)"] Suc.prems list_read(1) [OF Suc.prems(1) i]
    by (simp add: add.assoc)
qed simp

lemma join_concat: "join d (x # xs) = x @ concat (map (\<lambda>x. d # x) xs)"
  by (induction xs arbitrary: x) auto

lemma join_loop_tail:
  "tf_list_wf l \<Longrightarrow> Suc i + n = length (tf_list_elems l) \<Longrightarrow>
     length w + length (concat (map (\<lambda>x. d # x) (drop (Suc i) (tf_list_elems l)))) < length w + length r \<Longrightarrow>
     \<exists>r'. join_loop l d (Suc i) n (w @ r) (length w) =
       Inr (w @ map Some (concat (map (\<lambda>x. d # x) (drop (Suc i) (tf_list_elems l)))) @ r',
            length w + length (concat (map (\<lambda>x. d # x) (drop (Suc i) (tf_list_elems l))))) \<and>
       length r' + length (concat (map (\<lambda>x. d # x) (drop (Suc i) (tf_list_elems l)))) = length r"
proof (induction n arbitrary: i w r)
  case 0
  then show ?case by simp
next
  case (Suc n)
  let ?x = "tf_list_elems l ! Suc i"
  have i: "Suc i < length (tf_list_elems l)" using Suc.prems(2) by simp
  have d: "drop (Suc i) (tf_list_elems l) = ?x # drop (Suc (Suc i)) (tf_list_elems l)"
    using i by (simp add: Cons_nth_drop_Suc)
  have len: "Suc (length ?x) < length r" using Suc.prems(3) by (simp add: d)
  obtain v where v: "tf_list_val l (int (Suc i)) = Inr (Some (v, length ?x))"
    "slice v 0 (length ?x) = Inr (map Some ?x)"
    using list_read(2) [OF Suc.prems(1) i] by blast
  obtain c r1 where r: "r = c # r1" using len by (cases r) auto
  define r2 where "r2 = drop (length ?x) r1"
  have w: "wr (w @ r) (length w) (Some d) = Inr ((w @ [Some d]) @ r1)"
    "blit ((w @ [Some d]) @ r1) (Suc (length w)) (map Some ?x) = Inr ((w @ Some d # map Some ?x) @ r2)"
    using len by (simp_all add: r r2_def list_update_append)
  let ?w = "w @ Some d # map Some ?x"
  have "\<exists>r'. join_loop l d (Suc (Suc i)) n (?w @ r2) (length ?w) =
       Inr (?w @ map Some (concat (map (\<lambda>x. d # x) (drop (Suc (Suc i)) (tf_list_elems l)))) @ r',
            length ?w + length (concat (map (\<lambda>x. d # x) (drop (Suc (Suc i)) (tf_list_elems l))))) \<and>
       length r' + length (concat (map (\<lambda>x. d # x) (drop (Suc (Suc i)) (tf_list_elems l)))) = length r2"
    using Suc.prems len by (intro Suc.IH) (simp_all add: d r r2_def)
  moreover have "join_loop l d (Suc i) (Suc n) (w @ r) (length w) =
      join_loop l d (Suc (Suc i)) n (?w @ r2) (length ?w)"
    using v w by simp
  moreover have "length r = Suc (length ?x) + length r2" using len by (simp add: r r2_def)
  ultimately show ?case by (auto simp: d)
qed

lemma strjoin_ok:
  assumes "tf_list_wf l" "(\<Sum>x\<leftarrow>tf_list_elems l. length x) + length (tf_list_elems l) + 1 \<le> int_max"
  shows "\<exists>r. tf_strjoin l d = Inr (map Some (join d (tf_list_elems l) @ [0]) @ r)"
proof -
  let ?xs = "tf_list_elems l" and ?s = "\<Sum>x\<leftarrow>tf_list_elems l. length x"
  have num: "tf_list_num l = length ?xs" using elems_len [OF assms(1)] by (simp add: tf_list_num_def)
  define buf where "buf = replicate (length ?xs + 1 + ?s) (None :: byte option)"
  have sz: "join_size l 0 (length ?xs) (length ?xs + 1) = Inr (length ?xs + 1 + ?s)"
    using join_size_ok [OF assms(1), of 0 "length ?xs" "length ?xs + 1"] assms(2) by simp
  have "\<exists>r. join_loop l d 0 (length ?xs) buf 0 = Inr (map Some (join d ?xs) @ r, length (join d ?xs)) \<and> r \<noteq> []"
  proof (cases ?xs)
    case Nil
    then show ?thesis by (simp add: buf_def)
  next
    case (Cons x xs)
    obtain v where v: "tf_list_val l (int 0) = Inr (Some (v, length x))"
      "slice v 0 (length x) = Inr (map Some x)"
      using list_read(2) [OF assms(1), of 0] Cons by auto
    define r where "r = drop (length x) buf"
    have b: "blit buf 0 (map Some x) = Inr (map Some x @ r)"
      using Cons by (simp add: buf_def r_def)
    let ?c = "concat (map (\<lambda>x. d # x) xs)"
    have lc: "length ?c = length xs + (\<Sum>x\<leftarrow>xs. length x)" by (induction xs) auto
    have lr: "length r = length ?xs + 1 + ?s - length x" by (simp add: r_def buf_def)
    then have "length ?c < length r" using Cons lc by simp
    then obtain r' where r': "join_loop l d (Suc 0) (length xs) (map Some x @ r) (length (map Some x)) =
        Inr (map Some x @ map Some ?c @ r', length (map Some x) + length ?c)" "length r' + length ?c = length r"
      using join_loop_tail [OF assms(1), of 0 "length xs" "map Some x" d r] Cons by auto
    have "join_loop l d 0 (length ?xs) buf 0 = join_loop l d (Suc 0) (length xs) (map Some x @ r) (length (map Some x))"
      using v b by (simp add: Cons)
    moreover have "r' \<noteq> []" using r'(2) \<open>length ?c < length r\<close> by auto
    ultimately show ?thesis using r'(1) by (simp add: Cons join_concat)
  qed
  then obtain r where r: "join_loop l d 0 (length ?xs) buf 0 =
      Inr (map Some (join d ?xs) @ r, length (join d ?xs))" "r \<noteq> []" by blast
  then obtain y ys where "r = y # ys" by (cases r) auto
  then have "wr (map Some (join d ?xs) @ r) (length (join d ?xs)) (Some 0) =
      Inr (map Some (join d ?xs @ [0]) @ ys)" by (simp add: wr_def list_update_append)
  then show ?thesis
    using assms(2) sz r(1) unfolding tf_strjoin_def Let_def num buf_def by auto
qed

section \<open>Properties\<close>

text \<open>
  A string is accepted as numeric exactly if it consists of spaces, an optional minus sign, digits,
  an optional point, digits and spaces, with at least one digit.
\<close>

lemma tf_strisnum_form: "tf_strisnum str = numeric_form str"
  using strisnum_sound strisnum_complete by blast

text \<open>
  The comparison without case orders strings by their lower-case forms, lexicographically, with
  characters as unsigned numbers; the four matching functions are the prefix and suffix relations
  on the strings, or on their lower-case forms.
\<close>

lemma tf_str_compare_match:
  "(tf_stricmp a b = 0) = (map lower a = map lower b) \<and>
   (tf_stricmp a b < 0) = (map lower a < map lower b) \<and>
   tf_strfwm a b = prefix b a \<and> tf_strifwm a b = prefix (map lower b) (map lower a) \<and>
   tf_strbwm a b = suffix b a \<and> tf_stribwm a b = suffix (map lower b) (map lower a)"
  using stricmp_order [of a b] strfwm_prefix strifwm_prefix strbwm_suffix stribwm_suffix by blast

text \<open>
  C24: Trimming works in the buffer of the string: it leaves the string without its leading and
  trailing spaces, zero-terminated, in a buffer of the same size.
\<close>

theorem tf_strtrim_strips:
  assumes "cstr_ok s"
  shows "\<exists>r. tf_strtrim (s @ 0 # j) = Inr (strip s @ 0 # r) \<and> length (strip s @ 0 # r) = length (s @ 0 # j)"
  by (rule strtrim_ok [OF assms])

theorem tf_strtrim_strips_witness:
  "\<exists>r. tf_strtrim [32, 9, 97, 32, 98, 32, 0] = Inr ([97, 32, 98, 0] @ r)"
  using tf_strtrim_strips [of "[32, 9, 97, 32, 98, 32]" "[]"]
  by (auto simp: cstr_ok_def strip_def strip_tail_def c_space_def)

text \<open>
  C23: Splitting a string at a delimiter gives its fields, empty ones included, and joining the list
  with the delimiter gives the string back, in a buffer of the computed size.
\<close>

theorem tf_strsplit_strjoin:
  assumes "4 * length str + 4 \<le> int_max"
  shows "\<exists>l r. tf_strsplit str [d] = Inr l \<and> tf_list_wf l \<and> tf_list_elems l = fields {d} str \<and>
     tf_strjoin l d = Inr (map Some (str @ [0]) @ r)"
proof -
  have n: "length (fields {d} str) \<le> Suc (length str)" by (rule length_fields)
  obtain l where l: "tf_strsplit str [d] = Inr l" "list_inv l 0" "tf_list_elems l = fields {d} str"
    using split_loop_ok [of tf_list_new "[d]" str 0] list_inv_new [of "length (fields {d} str)"]
      n assms new_ok [of 0] by (auto simp: tf_strsplit_def list_inv_def)
  have "length str = (\<Sum>x\<leftarrow>fields {d} str. length x) + (length (fields {d} str) - 1)"
    using length_join [of d "fields {d} str"] by (simp add: join_fields)
  then have "(\<Sum>x\<leftarrow>fields {d} str. length x) + length (fields {d} str) + 1 \<le> int_max"
    using n assms by linarith
  then show ?thesis
    using strjoin_ok [of l d] l by (simp add: list_inv_def join_fields)
qed

theorem tf_strsplit_strjoin_witness:
  "\<exists>l r. tf_strsplit [97, 44, 44, 98] [44] = Inr l \<and> tf_list_elems l = [[97], [], [98]] \<and>
     tf_strjoin l 44 = Inr (map Some [97, 44, 44, 98, 0] @ r)"
  using tf_strsplit_strjoin [of "[97, 44, 44, 98]" 44] by (auto simp: int_max_def)

end
