(* ===== verification/TF_Numbers.thy ===== *)
theory TF_Numbers
  imports TF_Prelude
begin

text \<open>
  The number conversions of \<open>tf_util.c\<close>: decimal and hexadecimal strings to \<open>int64_t\<close> with every
  signed overflow an error, binary digits, and the hexadecimal and BCD forms of byte strings.
  The functions that only read a string take the list of its characters; the converters of byte
  arrays return the bytes they write.
\<close>

section \<open>Decimal strings\<close>

text \<open>\<open>num = num * 10 + *str - '0'\<close> is evaluated from the left: the code of the character is added
  before the code of zero is subtracted.\<close>

fun atoi_loop :: "cstr \<Rightarrow> int \<Rightarrow> c_error + int" where
  "atoi_loop [] num = Inr num"
| "atoi_loop (c # str) num =
     (if sint c < 48 \<or> 57 < sint c then Inr num
      else rbind (chk_i64 (num * 10)) (\<lambda>num.
           rbind (chk_i64 (num + sint c)) (\<lambda>num.
           rbind (chk_i64 (num - 48)) (\<lambda>num. atoi_loop str num))))"

definition tf_atoi :: "cstr \<Rightarrow> c_error + int" where
  "tf_atoi str =
     (let str = dropWhile c_space str;
          (sign, str) = (case str of
             [] \<Rightarrow> (1, [])
           | c # r \<Rightarrow> if c = 45 then (- 1, r) else if c = 43 then (1, r) else (1, str))
      in rbind (atoi_loop str 0) (\<lambda>num. Inr (num * sign)))"

section \<open>Hexadecimal strings\<close>

fun atoih_loop :: "cstr \<Rightarrow> int \<Rightarrow> c_error + int" where
  "atoih_loop [] num = Inr num"
| "atoih_loop (c # str) num =
     (if 48 \<le> sint c \<and> sint c \<le> 57 then
        rbind (chk_i64 (num * 16)) (\<lambda>n. rbind (chk_i64 (n + sint c)) (\<lambda>n.
        rbind (chk_i64 (n - 48)) (\<lambda>n. atoih_loop str n)))
      else if 97 \<le> sint c \<and> sint c \<le> 102 then
        rbind (chk_i64 (num * 16)) (\<lambda>n. rbind (chk_i64 (n + sint c)) (\<lambda>n.
        rbind (chk_i64 (n - 97)) (\<lambda>n. rbind (chk_i64 (n + 10)) (\<lambda>n. atoih_loop str n))))
      else if 65 \<le> sint c \<and> sint c \<le> 70 then
        rbind (chk_i64 (num * 16)) (\<lambda>n. rbind (chk_i64 (n + sint c)) (\<lambda>n.
        rbind (chk_i64 (n - 65)) (\<lambda>n. rbind (chk_i64 (n + 10)) (\<lambda>n. atoih_loop str n))))
      else Inr num)"

definition tf_atoih :: "cstr \<Rightarrow> c_error + int" where
  "tf_atoih str =
     (let str = dropWhile c_space str;
          str = (case str of a # b # r \<Rightarrow> if a = 48 \<and> (b = 120 \<or> b = 88) then r else str | _ \<Rightarrow> str)
      in atoih_loop str 0)"

section \<open>Binary digits\<close>

text \<open>\<open>len\<close> shifts are left; \<open>zero\<close> holds as long as no digit has been written.\<close>

fun strbin_loop :: "nat \<Rightarrow> u64 \<Rightarrow> region \<Rightarrow> nat \<Rightarrow> bool \<Rightarrow> c_error + region \<times> nat \<times> bool" where
  "strbin_loop 0 num buf wp zero = Inr (buf, wp, zero)"
| "strbin_loop (Suc len) num buf wp zero =
     (if num AND 0x8000000000000000 \<noteq> 0
      then rbind (wr buf wp (Some 49)) (\<lambda>buf. strbin_loop len (push_bit 1 num) buf (wp + 1) False)
      else if \<not> zero
      then rbind (wr buf wp (Some 48)) (\<lambda>buf. strbin_loop len (push_bit 1 num) buf (wp + 1) zero)
      else strbin_loop len (push_bit 1 num) buf wp zero)"

fun fill_loop :: "nat \<Rightarrow> nat \<Rightarrow> byte \<Rightarrow> region \<Rightarrow> c_error + region" where
  "fill_loop i 0 fc buf = Inr buf"
| "fill_loop i (Suc n) fc buf = rbind (wr buf i (Some fc)) (\<lambda>buf. fill_loop (i + 1) n fc buf)"

definition tf_num2strbin :: "u64 \<Rightarrow> region \<Rightarrow> int \<Rightarrow> byte \<Rightarrow> c_error + region \<times> nat" where
  "tf_num2strbin num buf col fc =
     rbind (strbin_loop 64 num buf 0 True) (\<lambda>(buf, wp, zero).
     rbind (if col > 0 then
              (let len = min col 64 - int wp
               in if len > 0
                  then rbind (memmove buf (nat len) 0 wp) (\<lambda>buf.
                       rbind (fill_loop 0 (nat len) fc buf) (\<lambda>buf. Inr (buf, wp + nat len)))
                  else Inr (buf, wp))
            else if zero then rbind (wr buf wp (Some 48)) (\<lambda>buf. Inr (buf, wp + 1))
            else Inr (buf, wp)) (\<lambda>(buf, wp).
     rbind (wr buf wp (Some 0)) (\<lambda>buf. Inr (buf, wp))))"

section \<open>Hexadecimal and BCD forms of bytes\<close>

text \<open>The digit of a character, given the code of the letter A in the case last seen.\<close>

definition hex_digit :: "byte \<Rightarrow> byte \<Rightarrow> byte" where
  "hex_digit offset c = (if sint c \<le> 57 then c - 48 else c - offset + 10)"

definition hex_offset :: "byte \<Rightarrow> byte \<Rightarrow> byte" where
  "hex_offset offset c = (if c_upper c then 65 else if c_lower c then 97 else offset)"

fun asc_to_bin_loop :: "byte \<Rightarrow> byte list \<Rightarrow> nat \<Rightarrow> c_error + byte list" where
  "asc_to_bin_loop offset dsp 0 = Inr []"
| "asc_to_bin_loop offset (a # b # dsp) (Suc count) =
     (let o1 = hex_offset offset a; o2 = hex_offset o1 b
      in rbind (asc_to_bin_loop o2 dsp count) (\<lambda>hex.
         Inr ((push_bit 4 (hex_digit o1 a) + hex_digit o2 b) # hex)))"
| "asc_to_bin_loop offset _ (Suc count) = Inl Out_Of_Bounds"

definition asc_to_bin :: "byte list \<Rightarrow> nat \<Rightarrow> c_error + byte list" where
  "asc_to_bin dsp count = asc_to_bin_loop 0 dsp count"

definition hex_char :: "byte \<Rightarrow> byte" where
  "hex_char ch = (if sint ch > 9 then ch + 65 - 10 else ch + 48)"

fun bin_to_asc :: "byte list \<Rightarrow> nat \<Rightarrow> c_error + byte list" where
  "bin_to_asc hex 0 = Inr []"
| "bin_to_asc (h # hex) (Suc count) =
     rbind (bin_to_asc hex count) (\<lambda>dsp.
     Inr (hex_char (drop_bit 4 (h AND 0xf0)) # hex_char (h AND 0xf) # dsp))"
| "bin_to_asc [] (Suc count) = Inl Out_Of_Bounds"

fun bcd_to_asc :: "byte list \<Rightarrow> nat \<Rightarrow> c_error + byte list" where
  "bcd_to_asc src 0 = Inr []"
| "bcd_to_asc (s # src) (Suc len) =
     rbind (bcd_to_asc src len) (\<lambda>dst. Inr ((drop_bit 4 (s AND 0xf0) + 48) # ((s AND 0xf) + 48) # dst))"
| "bcd_to_asc [] (Suc len) = Inl Out_Of_Bounds"

text \<open>An odd digit at the end is paired with zero.\<close>

fun asc_to_bcd :: "byte list \<Rightarrow> nat \<Rightarrow> c_error + byte list" where
  "asc_to_bcd src 0 = Inr []"
| "asc_to_bcd (a # src) (Suc 0) = Inr [push_bit 4 (a - 48) OR 0]"
| "asc_to_bcd (a # b # src) (Suc (Suc len)) =
     rbind (asc_to_bcd src len) (\<lambda>dst. Inr ((push_bit 4 (a - 48) OR (b - 48)) # dst))"
| "asc_to_bcd _ _ = Inl Out_Of_Bounds"

section \<open>Decimal strings: exactly when the value is right\<close>

definition digit_val :: "byte \<Rightarrow> int" where
  "digit_val c = sint c - 48"

definition dec_val :: "cstr \<Rightarrow> int \<Rightarrow> int" where
  "dec_val ds v = foldl (\<lambda>v c. v * 10 + digit_val c) v ds"

lemma digit_val: "c_digit c \<Longrightarrow> 0 \<le> digit_val c \<and> digit_val c \<le> 9"
  by (simp add: c_digit_def digit_val_def)

lemma dec_val_simps [simp]: "dec_val [] v = v" "dec_val (c # ds) v = dec_val ds (v * 10 + digit_val c)"
  by (simp_all add: dec_val_def)

lemma dec_val_mono: "list_all c_digit ds \<Longrightarrow> 0 \<le> v \<Longrightarrow> v \<le> dec_val ds v"
proof (induction ds arbitrary: v)
  case (Cons c ds)
  then have "v \<le> v * 10 + digit_val c" using digit_val [of c] by simp
  then show ?case using Cons.IH [of "v * 10 + digit_val c"] Cons.prems digit_val [of c] by simp
qed simp

lemma atoi_loop_eq:
  "0 \<le> v \<Longrightarrow> v \<le> i64_max \<Longrightarrow>
     atoi_loop str v =
       (let ds = takeWhile c_digit str
        in if ds = [] \<or> dec_val ds v + 48 \<le> i64_max then Inr (dec_val ds v) else Inl Int_Overflow)"
proof (induction str arbitrary: v)
  case (Cons c str)
  show ?case
  proof (cases "c_digit c")
    case True
    let ?v = "v * 10 + digit_val c" and ?ds = "takeWhile c_digit str"
    have d: "0 \<le> digit_val c" "digit_val c \<le> 9" "sint c = digit_val c + 48"
      using digit_val [OF True] by (simp_all add: digit_val_def)
    have m: "?v \<le> dec_val ?ds ?v"
      using dec_val_mono [OF list_all_takeWhile, of ?v str] d(1) Cons.prems(1) by simp
    show ?thesis
    proof (cases "?v + 48 \<le> i64_max")
      case True
      have "v * 10 \<le> i64_max" "?v \<le> i64_max" using True d(1) by linarith+
      then have k: "chk_i64 (v * 10) = Inr (v * 10)" "chk_i64 (v * 10 + sint c) = Inr (?v + 48)"
        "chk_i64 (?v + 48 - 48) = Inr ?v"
        using True d Cons.prems(1) unfolding d(3) by simp_all
      have "\<not> (sint c < 48 \<or> 57 < sint c)" using \<open>c_digit c\<close> by (simp add: c_digit_def)
      then have "atoi_loop (c # str) v = atoi_loop str ?v"
        unfolding atoi_loop.simps by (simp only: k if_False rbind_Inr)
      moreover have "?ds = [] \<Longrightarrow> dec_val ?ds ?v + 48 \<le> i64_max" using True by simp
      ultimately show ?thesis
        using Cons.IH [of ?v] True \<open>c_digit c\<close> d(1) Cons.prems(1) by (auto simp: Let_def)
    next
      case False
      then have "i64_max < v * 10 + sint c" using d(3) by simp
      then have "chk_i64 (v * 10 + sint c) = Inl Int_Overflow" by simp
      moreover have "chk_i64 (v * 10) = Inr (v * 10) \<or> chk_i64 (v * 10) = Inl Int_Overflow"
        by (simp add: chk_i64_def)
      moreover have "\<not> (sint c < 48 \<or> 57 < sint c)" using \<open>c_digit c\<close> by (simp add: c_digit_def)
      ultimately have "atoi_loop (c # str) v = Inl Int_Overflow"
        unfolding atoi_loop.simps by (elim disjE) (simp_all only: if_False rbind_Inr rbind_Inl)
      then show ?thesis using False m \<open>c_digit c\<close> by (simp add: Let_def)
    qed
  qed (auto simp: c_digit_def)
qed simp

lemma tf_atoi_eq:
  "list_all c_space sp \<Longrightarrow> (\<And>c r. s = c # r \<Longrightarrow> \<not> c_space c) \<Longrightarrow>
     tf_atoi (sp @ s) =
       (let sign = (if s \<noteq> [] \<and> hd s = 45 then - 1 else 1);
            ds = takeWhile c_digit (if s \<noteq> [] \<and> (hd s = 45 \<or> hd s = 43) then tl s else s)
        in if ds = [] \<or> dec_val ds 0 + 48 \<le> i64_max then Inr (dec_val ds 0 * sign) else Inl Int_Overflow)"
proof -
  assume a: "list_all c_space sp" "\<And>c r. s = c # r \<Longrightarrow> \<not> c_space c"
  have "dropWhile c_space s = s" using a(2) by (cases s) auto
  then have d: "dropWhile c_space (sp @ s) = s" unfolding dropWhile_all [OF a(1)] .
  have "0 \<le> i64_max" by (simp add: i64_max_def)
  then show ?thesis
    unfolding tf_atoi_def d Let_def by (cases s) (auto simp: atoi_loop_eq)
qed

section \<open>Hexadecimal characters\<close>

lemma nibble_cases:
  assumes "(x :: byte) < 16" "\<forall>n \<in> set [0..<16]. P (of_nat n)"
  shows "P x"
proof -
  have "unat x < 16" using assms(1) by (simp add: word_less_nat_alt)
  then have "unat x \<in> set [0..<16]" by simp
  from assms(2) [THEN bspec, OF this] show ?thesis by simp
qed

lemma hex_char_digit:
  "x < 16 \<Longrightarrow> hex_digit (hex_offset off (hex_char x)) (hex_char x) = x"
  by (rule nibble_cases [where x = x])
    (simp_all add: upt_rec hex_digit_def hex_offset_def hex_char_def c_upper_def c_lower_def)

definition to_lower :: "byte \<Rightarrow> byte" where
  "to_lower c = (if c_upper c then c + 32 else c)"

lemma hex_char_digit_lower:
  "x < 16 \<Longrightarrow> hex_digit (hex_offset off (to_lower (hex_char x))) (to_lower (hex_char x)) = x"
  by (rule nibble_cases [where x = x])
    (simp_all add: upt_rec hex_digit_def hex_offset_def hex_char_def c_upper_def c_lower_def to_lower_def)

lemma nibbles: "drop_bit 4 (h AND 0xf0) < (16 :: byte)" "h AND 0xf < (16 :: byte)"
proof -
  have "h AND 0xf \<le> (0xf :: byte)" "h AND 0xf0 \<le> (0xf0 :: byte)" by (rule word_and_le1)+
  then have "unat (h AND 0xf) \<le> 15" "unat (h AND 0xf0) \<le> 240" by (simp_all add: word_le_nat_alt)
  moreover have "unat (drop_bit 4 (h AND 0xf0)) = unat (h AND 0xf0) div 16" by (simp only: unat_shr) simp
  ultimately show "drop_bit 4 (h AND 0xf0) < (16 :: byte)" "h AND 0xf < (16 :: byte)"
    by (simp_all add: word_less_nat_alt)
qed

lemma join_nibbles:
  "push_bit 4 (drop_bit 4 (h AND 0xf0)) + (h AND 0xf) = (h :: byte)"
  "push_bit 4 (drop_bit 4 (h AND 0xf0)) OR (h AND 0xf) = (h :: byte)"
proof -
  show o: "push_bit 4 (drop_bit 4 (h AND 0xf0)) OR (h AND 0xf) = h"
    by (rule byte_eqI; simp add: bit_simps; simp add: bit_iff_odd)
  have "push_bit 4 (drop_bit 4 (h AND 0xf0)) + (h AND 0xf) = push_bit 4 (drop_bit 4 (h AND 0xf0)) OR (h AND 0xf)"
  proof (rule disjunctive_add)
    fix n
    have m: "h AND 0xf = take_bit 4 h" by (simp add: take_bit_eq_mask mask_eq_exp_minus_1)
    show "\<not> bit (push_bit 4 (drop_bit 4 (h AND 0xf0))) n \<or> \<not> bit (h AND 0xf) n"
      unfolding m bit_push_bit_iff bit_take_bit_iff by auto
  qed
  then show "push_bit 4 (drop_bit 4 (h AND 0xf0)) + (h AND 0xf) = h" by (simp only: o)
qed

section \<open>Round trips\<close>

lemma bin_to_asc_ok:
  "count \<le> length hex \<Longrightarrow> bin_to_asc hex count =
     Inr (concat (map (\<lambda>h. [hex_char (drop_bit 4 (h AND 0xf0)), hex_char (h AND 0xf)]) (take count hex)))"
  by (induction hex count rule: bin_to_asc.induct) auto

lemma asc_to_bin_chars:
  assumes "\<And>x off. x < 16 \<Longrightarrow> hex_digit (hex_offset off (f x)) (f x) = x"
  shows "asc_to_bin_loop off (concat (map (\<lambda>h. [f (drop_bit 4 (h AND 0xf0)), f (h AND 0xf)]) bs)) (length bs) =
     Inr bs"
  by (induction bs arbitrary: off) (simp_all add: Let_def assms nibbles join_nibbles
      del: drop_bit_and push_bit_and)

definition lower_hex :: "byte list \<Rightarrow> byte list" where
  "lower_hex = map to_lower"

lemma hex_roundtrip:
  "\<exists>s. bin_to_asc bs (length bs) = Inr s \<and> asc_to_bin s (length bs) = Inr bs \<and>
     asc_to_bin (lower_hex s) (length bs) = Inr bs"
proof -
  let ?s = "concat (map (\<lambda>h. [hex_char (drop_bit 4 (h AND 0xf0)), hex_char (h AND 0xf)]) bs)"
  have "lower_hex ?s = concat (map (\<lambda>h. [to_lower (hex_char (drop_bit 4 (h AND 0xf0))),
      to_lower (hex_char (h AND 0xf))]) bs)"
    by (induction bs) (simp_all add: lower_hex_def)
  then show ?thesis
    using asc_to_bin_chars [of hex_char 0 bs] hex_char_digit
      asc_to_bin_chars [of "\<lambda>x. to_lower (hex_char x)" 0 bs] hex_char_digit_lower
    by (simp add: bin_to_asc_ok asc_to_bin_def)
qed

lemma bcd_roundtrip:
  "\<exists>s. bcd_to_asc bs (length bs) = Inr s \<and> asc_to_bcd s (2 * length bs) = Inr bs \<and>
     length s = 2 * length bs \<and> list_all (\<lambda>c. 48 \<le> uint c \<and> uint c < 64) s"
proof (induction bs)
  case (Cons h bs)
  have "uint (x + 48) = uint x + 48" if "x < 16" for x :: byte
    using that by (simp add: uint_word_ariths word_less_def)
  moreover have "uint x < 16" if "x < 16" for x :: byte using that by (simp add: word_less_def)
  ultimately have "48 \<le> uint (x + 48) \<and> uint (x + 48) < 64" if "x < 16" for x :: byte
    using that by simp
  then show ?case
    using Cons nibbles [of h] join_nibbles(2) [of h] by (auto simp del: drop_bit_and push_bit_and)
qed simp

text \<open>The value of bytes as a big-endian number.\<close>

definition be_val :: "int \<Rightarrow> byte list \<Rightarrow> int" where
  "be_val v bs = foldl (\<lambda>v b. v * 256 + uint b) v bs"

lemma atoih_char:
  assumes "x < 16" "0 \<le> v" "v * 16 + 102 \<le> i64_max"
  shows "atoih_loop (hex_char x # s) v = atoih_loop s (v * 16 + uint x)"
proof -
  have "\<forall>s v. 0 \<le> v \<longrightarrow> v * 16 + 102 \<le> i64_max \<longrightarrow>
      atoih_loop (hex_char x # s) v = atoih_loop s (uint x + v * 16)"
    by (rule nibble_cases [OF assms(1)]) (simp add: upt_rec hex_char_def, simp add: add.commute)
  then show ?thesis using assms(2,3) by (simp add: add.commute)
qed

lemma atoih_bytes:
  "0 \<le> v \<Longrightarrow> v * 256 ^ length bs + 256 ^ length bs \<le> 256 ^ 7 \<Longrightarrow>
     atoih_loop (concat (map (\<lambda>h. [hex_char (drop_bit 4 (h AND 0xf0)), hex_char (h AND 0xf)]) bs)) v =
       Inr (be_val v bs)"
proof (induction bs arbitrary: v)
  case (Cons h bs)
  let ?a = "drop_bit 4 (h AND 0xf0)" and ?b = "h AND 0xf :: byte"
  have p: "(1 :: int) \<le> 256 ^ length bs" by simp
  have step: "(v * 256 + uint h + 1) * 256 ^ length bs \<le> 256 ^ 7"
  proof -
    have "uint h + 1 \<le> 256" using unsigned_less [of h, where ?'a = int] by simp
    then have "v * 256 + uint h + 1 \<le> (v + 1) * 256" by simp
    then have "(v * 256 + uint h + 1) * 256 ^ length bs \<le> (v + 1) * 256 * 256 ^ length bs"
      by (rule mult_right_mono) simp
    moreover have "(v + 1) * 256 * 256 ^ length bs \<le> (256 :: int) ^ 7"
      using Cons.prems(2) by (simp add: algebra_simps)
    ultimately show ?thesis by (rule order_trans)
  qed
  have v: "v * 256 + uint h + 1 \<le> 256 ^ 7"
  proof -
    have "0 \<le> v * 256 + uint h + 1" using Cons.prems(1) unsigned_greater_eq [of h] by simp
    from mult_left_mono [OF p this] have "v * 256 + uint h + 1 \<le> (v * 256 + uint h + 1) * 256 ^ length bs"
      by (simp only: mult_1_right)
    then show ?thesis using step by (rule order_trans)
  qed
  have ab: "uint ?a < 16" "uint ?b < 16" "uint ?a * 16 + uint ?b = uint h"
  proof -
    show a: "uint ?a < 16" and b: "uint ?b < 16" using nibbles [of h] by (simp_all add: word_less_def)
    have "unat (push_bit 4 ?a + ?b) = unat ?a * 16 + unat ?b"
    proof -
      have "unat ?a < 16" "unat ?b < 16" using nibbles [of h] by (simp_all add: word_less_nat_alt)
      then have "unat (push_bit 4 ?a) = unat ?a * 16" "unat ?a * 16 + unat ?b < 256"
        using unat_shl [of ?a 4] by simp_all
      then show ?thesis by (simp only: unat_word_ariths) simp
    qed
    then have "unat h = unat ?a * 16 + unat ?b" by (simp only: join_nibbles)
    then show "uint ?a * 16 + uint ?b = uint h" by (simp only: uint_nat)
  qed
  have bounds: "v * 16 + 102 \<le> i64_max" "0 \<le> v * 16 + uint ?a" "(v * 16 + uint ?a) * 16 + 102 \<le> i64_max"
  proof -
    have "v * 256 + uint h + 1 \<le> 72057594037927936" using v by simp
    moreover have "0 \<le> uint h" "0 \<le> uint ?a" "0 \<le> uint ?b" by (rule unsigned_greater_eq)+
    moreover have "(v * 16 + uint ?a) * 16 = v * 256 + uint ?a * 16" by simp
    moreover note ab
    ultimately show "v * 16 + 102 \<le> i64_max" "0 \<le> v * 16 + uint ?a" "(v * 16 + uint ?a) * 16 + 102 \<le> i64_max"
      using Cons.prems(1) unfolding i64_max_def by linarith+
  qed
  have "atoih_loop (hex_char ?a # hex_char ?b # s) v = atoih_loop s (v * 256 + uint h)" for s
  proof -
    have "(v * 16 + uint ?a) * 16 + uint ?b = v * 256 + uint h" using ab(3) by simp
    then show ?thesis
      by (simp only: atoih_char [OF nibbles(1) Cons.prems(1) bounds(1)] atoih_char [OF nibbles(2) bounds(2,3)])
  qed
  then show ?case
    using Cons.IH [of "v * 256 + uint h"] step Cons.prems(1) unsigned_greater_eq [of h]
    by (simp add: be_val_def algebra_simps)
qed (simp add: be_val_def)

section \<open>Binary digits: the digits without leading zeros\<close>

definition top_bits :: "u64 \<Rightarrow> nat \<Rightarrow> bool list" where
  "top_bits num n = map (\<lambda>i. bit num (63 - i)) [0..<n]"

definition bit_char :: "bool \<Rightarrow> byte" where
  "bit_char b = (if b then 49 else 48)"

lemma length_top_bits [simp]: "length (top_bits num n) = n"
  by (simp add: top_bits_def)

lemma top_bits_0 [simp]: "top_bits num 0 = []"
  by (simp add: top_bits_def)

lemma top_bits_Suc: "Suc n \<le> 64 \<Longrightarrow> top_bits num (Suc n) = bit num 63 # top_bits (push_bit 1 num) n"
proof -
  assume n: "Suc n \<le> 64"
  have "bit num (63 - Suc i) = bit (push_bit 1 num) (63 - i)" if "i < n" for i
    using that n unfolding bit_push_bit_iff possible_bit_def by (auto simp: Suc_leI)
  then show ?thesis
    unfolding top_bits_def upt_conv_Cons [OF zero_less_Suc] map_Suc_upt [symmetric]
    by (simp add: map_Suc_upt [symmetric] del: upt_Suc)
qed

lemma top_bit: "num AND 0x8000000000000000 \<noteq> 0 \<longleftrightarrow> bit num 63" for num :: u64
proof -
  have "(0x8000000000000000 :: u64) = 2 ^ 63" by simp
  then show ?thesis by (simp only: and_exp_eq_0_iff_not_bit not_not)
qed

definition strbin_digits :: "bool list \<Rightarrow> bool \<Rightarrow> byte list" where
  "strbin_digits bs zero = map bit_char (if zero then dropWhile Not bs else bs)"

lemma strbin_digits_simps [simp]:
  "strbin_digits [] zero = []"
  "strbin_digits (True # bs) zero = 49 # strbin_digits bs False"
  "strbin_digits (False # bs) True = strbin_digits bs True"
  "strbin_digits (False # bs) False = 48 # strbin_digits bs False"
  by (simp_all add: strbin_digits_def bit_char_def)

lemma strbin_loop_eq:
  "n \<le> 64 \<Longrightarrow> wp \<le> length buf \<Longrightarrow>
     strbin_loop n num buf wp zero =
       (let ds = strbin_digits (top_bits num n) zero
        in if wp + length ds \<le> length buf
           then Inr (take wp buf @ map Some ds @ drop (wp + length ds) buf, wp + length ds, zero \<and> ds = [])
           else Inl Out_Of_Bounds)"
proof (induction n arbitrary: num buf wp zero)
  case (Suc n)
  have put: "take (wp + 1) (buf[wp := Some c]) = take wp buf @ [Some c]"
    "wp + 1 \<le> j \<Longrightarrow> drop j (buf[wp := Some c]) = drop j buf" if "wp < length buf" for c j
    using that by (simp_all add: take_Suc_update)
  note IH = Suc.IH [of _ _ "push_bit 1 num"]
  note tb = top_bits_Suc [OF Suc.prems(1), of num]
  consider "bit num 63" | "\<not> bit num 63" "zero" | "\<not> bit num 63" "\<not> zero" by blast
  then show ?case
  proof cases
    case 1
    then show ?thesis using Suc.prems IH [of "wp + 1" "buf[wp := Some 49]"] put [of 49]
      by (cases "wp < length buf") (auto simp: tb top_bit wr_def Let_def)
  next
    case 2
    then show ?thesis using Suc.prems IH [of wp buf] by (simp add: tb top_bit Let_def)
  next
    case 3
    then show ?thesis using Suc.prems IH [of "wp + 1" "buf[wp := Some 48]"] put [of 48]
      by (cases "wp < length buf") (auto simp: tb top_bit wr_def Let_def)
  qed
qed simp

lemma fill_loop_eq:
  "i + n \<le> length buf \<Longrightarrow>
     fill_loop i n fc buf = Inr (take i buf @ replicate n (Some fc) @ drop (i + n) buf)"
proof (induction n arbitrary: i buf)
  case (Suc n)
  then show ?case
    using Suc.IH [of "i + 1" "buf[i := Some fc]"] by (simp add: take_Suc_update)
qed simp

text \<open>The text the conversion writes.\<close>

definition strbin_text :: "u64 \<Rightarrow> int \<Rightarrow> byte \<Rightarrow> byte list" where
  "strbin_text num col fc =
     (let ds = map bit_char (dropWhile Not (top_bits num 64))
      in if col > 0 then replicate (nat (min col 64) - length ds) fc @ ds
         else if ds = [] then [48] else ds)"

lemma strbin_pad:
  fixes wp :: nat
  assumes "length xs = wp" "0 < len" "wp + len \<le> length (xs @ ys)"
  shows "rbind (memmove (xs @ ys) len 0 wp) (\<lambda>buf. rbind (fill_loop 0 len fc buf) (\<lambda>buf. Inr (buf, wp + len))) =
    Inr (replicate len (Some fc) @ xs @ drop len ys, wp + len)"
proof -
  have "memmove (xs @ ys) len 0 wp = Inr (take len (xs @ ys) @ xs @ drop len ys)"
    using assms by (simp add: memmove_def)
  moreover have "fill_loop 0 len fc (a @ xs @ drop len ys) = Inr (replicate len (Some fc) @ xs @ drop len ys)"
    if "length a = len" for a
    using that by (subst fill_loop_eq) simp_all
  moreover have "length (take len (xs @ ys)) = len" using assms by simp
  ultimately show ?thesis by (simp only: rbind_Inr)
qed

lemma strbin_pad_over:
  "length buf < wp + len \<Longrightarrow> memmove buf len 0 wp = Inl Out_Of_Bounds"
  by (auto simp: memmove_def slice_def blit_def)

lemma wr_append: "length xs = wp \<Longrightarrow> wr (xs @ ys) wp v = (if ys = [] then Inl Out_Of_Bounds else Inr (xs @ v # tl ys))"
  by (cases ys) (auto simp: wr_def)

text \<open>The digits of a number, the loop over its 64 bits, and the end of the conversion.\<close>

definition bin_text :: "u64 \<Rightarrow> byte list" where
  "bin_text num = map bit_char (dropWhile Not (top_bits num 64))"

lemma strbin_text_cases:
  "strbin_text num col fc =
     (if col > 0 then replicate (nat (min col 64) - length (bin_text num)) fc @ bin_text num
      else if bin_text num = [] then [48] else bin_text num)"
  unfolding strbin_text_def bin_text_def [symmetric] Let_def by simp

lemma strbin_loop_64:
  "strbin_loop 64 num buf 0 True =
     (if length (bin_text num) \<le> length buf
      then Inr (map Some (bin_text num) @ drop (length (bin_text num)) buf, length (bin_text num), bin_text num = [])
      else Inl Out_Of_Bounds)"
proof -
  have "strbin_digits (top_bits num 64) True = bin_text num" by (simp add: bin_text_def strbin_digits_def)
  then show ?thesis by (subst strbin_loop_eq) (simp_all add: Let_def)
qed

lemma strbin_end:
  "length xs = n \<Longrightarrow> rbind (wr (xs @ drop n buf) n (Some 0)) (\<lambda>buf. Inr (buf, n)) =
     (if n < length buf then Inr (xs @ Some 0 # drop (n + 1) buf, n) else Inl Out_Of_Bounds)"
  by (simp add: wr_append tl_drop drop_Suc)

lemma pad_count:
  "0 < col \<Longrightarrow> nat (min col 64 - int l) = nat (min col 64) - l"
  "0 < col \<Longrightarrow> (0 < min col 64 - int l) = (0 < nat (min col 64) - l)"
  by linarith+

lemma num2strbin_padded:
  fixes num buf col
  defines "ds \<equiv> bin_text num" and "k \<equiv> nat (min col 64) - length (bin_text num)"
  assumes "0 < col" "0 < k" "length ds \<le> length buf"
  shows "tf_num2strbin num buf col fc =
    (if length ds + k < length buf
     then Inr (replicate k (Some fc) @ map Some ds @ Some 0 # drop (length ds + k + 1) buf, length ds + k) else Inl Out_Of_Bounds)"
proof -
  let ?r = "drop (length ds) buf"
  have buf: "length (map Some ds @ ?r) = length buf" using assms(5) by simp
  have f: "tf_num2strbin num buf col fc =
      rbind (rbind (memmove (map Some ds @ ?r) k 0 (length ds)) (\<lambda>buf.
        rbind (fill_loop 0 k fc buf) (\<lambda>buf. Inr (buf, length ds + k)))) (\<lambda>(buf, wp).
      rbind (wr buf wp (Some 0)) (\<lambda>buf. Inr (buf, wp)))"
    unfolding tf_num2strbin_def strbin_loop_64 ds_def using assms(3-5)
    by (simp only: if_True rbind_Inr prod.case Let_def pad_count [OF assms(3)] k_def ds_def)
  show ?thesis
  proof (cases "length ds + k \<le> length buf")
    case True
    then show ?thesis
      using assms(4) strbin_end [of "replicate k (Some fc) @ map Some ds" "length ds + k" buf]
      unfolding f by (subst strbin_pad) (simp_all add: add.commute)
  next
    case False
    then show ?thesis using assms(4) buf unfolding f by (subst strbin_pad_over) simp_all
  qed
qed

lemma num2strbin_plain:
  assumes "length (bin_text num) \<le> length buf"
    "0 < col \<and> nat (min col 64) \<le> length (bin_text num) \<or> \<not> 0 < col \<and> bin_text num \<noteq> []"
  shows "tf_num2strbin num buf col fc =
    (if length (bin_text num) < length buf
     then Inr (map Some (bin_text num) @ Some 0 # drop (length (bin_text num) + 1) buf, length (bin_text num)) else Inl Out_Of_Bounds)"
proof -
  have "tf_num2strbin num buf col fc =
      rbind (wr (map Some (bin_text num) @ drop (length (bin_text num)) buf) (length (bin_text num)) (Some 0)) (\<lambda>buf.
        Inr (buf, length (bin_text num)))"
  proof (cases "0 < col")
    case True
    then have "\<not> 0 < min col 64 - int (length (bin_text num))" using assms(2) by linarith
    then show ?thesis
      unfolding tf_num2strbin_def strbin_loop_64 using True assms(1)
      by (simp only: if_True if_False rbind_Inr prod.case Let_def)
  next
    case False
    then show ?thesis using assms by (simp add: tf_num2strbin_def strbin_loop_64)
  qed
  then show ?thesis using strbin_end [of "map Some (bin_text num)" "length (bin_text num)" buf] by simp
qed

section \<open>Properties\<close>

text \<open>
  C27: The decimal conversion returns the signed value of the digits after spaces and a sign, exactly
  as long as the value plus 48 fits a signed 64-bit integer; otherwise the addition of the character
  code overflows.  The largest and the smallest integers are therefore never read without overflow.
\<close>

theorem tf_atoi_value:
  assumes "list_all c_space sp" "\<And>c r. s = c # r \<Longrightarrow> \<not> c_space c"
  shows "tf_atoi (sp @ s) =
     (let sign = (if s \<noteq> [] \<and> hd s = 45 then - 1 else 1);
          ds = takeWhile c_digit (if s \<noteq> [] \<and> (hd s = 45 \<or> hd s = 43) then tl s else s)
      in if ds = [] \<or> dec_val ds 0 + 48 \<le> i64_max then Inr (dec_val ds 0 * sign) else Inl Int_Overflow)"
  by (rule tf_atoi_eq [OF assms])

theorem tf_atoi_value_witness:
  "tf_atoi [32, 45, 52, 50] = Inr (- 42) \<and>
   tf_atoi [57, 50, 50, 51, 51, 55, 50, 48, 51, 54, 56, 53, 52, 55, 55, 53, 56, 48, 55] = Inl Int_Overflow"
proof -
  have "tf_atoi ([32] @ [45, 52, 50]) = Inr (- 42)"
    by (subst tf_atoi_value) (auto simp: c_space_def c_digit_def digit_val_def i64_max_def Let_def)
  moreover have "tf_atoi ([] @ [57, 50, 50, 51, 51, 55, 50, 48, 51, 54, 56, 53, 52, 55, 55, 53, 56, 48, 55]) =
      Inl Int_Overflow"
    by (subst tf_atoi_value) (auto simp: c_space_def c_digit_def digit_val_def i64_max_def Let_def)
  ultimately show ?thesis by simp
qed

text \<open>
  C26: The hexadecimal form of a byte string is read back to the same bytes, in upper or lower case,
  and so is the BCD form.
\<close>

theorem hex_bcd_roundtrip:
  "\<exists>s d. bin_to_asc bs (length bs) = Inr s \<and> asc_to_bin s (length bs) = Inr bs \<and>
     asc_to_bin (lower_hex s) (length bs) = Inr bs \<and>
     bcd_to_asc bs (length bs) = Inr d \<and> asc_to_bcd d (2 * length bs) = Inr bs"
  using hex_roundtrip [of bs] bcd_roundtrip [of bs] by auto

text \<open>
  The conversion to binary digits writes \<open>strbin_text\<close>, a terminating zero follows, the rest of the buffer is kept and the
  length of the text is returned.  The buffer must hold the text and its terminator, and one byte less is an error.
\<close>

lemma num2strbin_writes:
  "tf_num2strbin num buf col fc =
     (let t = strbin_text num col fc
      in if length t < length buf
         then Inr (map Some (t @ [0]) @ drop (length t + 1) buf, length t)
         else Inl Out_Of_Bounds)"
proof (cases "length (bin_text num) \<le> length buf")
  case False
  then show ?thesis by (auto simp: tf_num2strbin_def strbin_loop_64 strbin_text_cases Let_def)
next
  case True
  let ?ds = "bin_text num" and ?k = "nat (min col 64) - length (bin_text num)"
  consider "0 < col" "0 < ?k" | "0 < col \<and> nat (min col 64) \<le> length ?ds \<or> \<not> 0 < col \<and> ?ds \<noteq> []" | "\<not> 0 < col" "?ds = []"
    by linarith
  then show ?thesis
  proof cases
    case 1
    show ?thesis using 1(1) num2strbin_padded [OF 1 True, of fc]
      unfolding strbin_text_cases by (simp add: Let_def add.commute)
  next
    case 2
    then show ?thesis using num2strbin_plain [OF True 2, of fc] by (auto simp: strbin_text_cases Let_def)
  next
    case 3
    then show ?thesis using strbin_loop_64 [of num buf]
      by (cases buf; cases "tl buf") (auto simp: tf_num2strbin_def strbin_text_cases wr_def)
  qed
qed

text \<open>The value of binary digits, most significant first.\<close>

definition bin_val :: "byte list \<Rightarrow> nat" where
  "bin_val ds = foldl (\<lambda>n c. 2 * n + (if c = 49 then 1 else 0)) 0 ds"

lemma bin_val_zeros: "bin_val (map bit_char (dropWhile Not bs)) = bin_val (map bit_char bs)"
  by (induction bs) (auto simp: bin_val_def bit_char_def)

lemma bin_val_bits: "bin_val (map bit_char (rev bs)) = horner_sum of_bool 2 bs"
  by (induction bs) (auto simp: bin_val_def bit_char_def)

lemma top_bits_rev: "top_bits num 64 = rev (map (bit num) [0..<64])"
  by (rule nth_equalityI) (simp_all add: top_bits_def rev_nth)

lemma bin_val_text: "bin_val (bin_text num) = unat num"
proof -
  have "map (bit num) [0..<64] = map (bit (unat num)) [0..<64]" by (simp add: bit_unsigned_iff)
  then have "horner_sum of_bool 2 (map (bit num) [0..<64]) = take_bit 64 (unat num)"
    by (simp only: horner_sum_bit_eq_take_bit)
  moreover have "take_bit 64 (unat num) = unat num" using take_bit_length_eq [of num] by (simp flip: unsigned_take_bit_eq)
  ultimately show ?thesis unfolding bin_text_def bin_val_zeros top_bits_rev bin_val_bits by simp
qed

lemma bin_text_digits: "set (bin_text num) \<subseteq> {48, 49}" "num \<noteq> 0 \<Longrightarrow> hd (bin_text num) = 49" "num = 0 \<Longrightarrow> bin_text num = []"
proof -
  show "set (bin_text num) \<subseteq> {48, 49}" by (auto simp: bin_text_def bit_char_def)
  show "num = 0 \<Longrightarrow> bin_text num = []" by (simp add: bin_text_def top_bits_def)
  assume "num \<noteq> 0"
  then have "bin_text num \<noteq> []" using bin_val_text [of num] by (auto simp: bin_val_def unat_eq_0)
  then show "hd (bin_text num) = 49" using hd_dropWhile [of Not "top_bits num 64"] by (auto simp: bin_text_def hd_map bit_char_def)
qed

text \<open>
  C40: The conversion to binary digits writes zeros and ones whose value is the number, beginning with a one, or, for
  zero, with no digit when there is a column count and a zero when there is none; the digits are padded on the left
  with the given character to the columns, at most 64.  A terminating zero follows, the rest of the buffer is kept
  and the length of the text is returned.  The buffer must hold the text and its terminator, and with one byte less
  the conversion writes past it.
\<close>

theorem tf_num2strbin_text:
  "\<exists>ds t. set ds \<subseteq> {48, 49} \<and> bin_val ds = unat num \<and>
     (if num = 0 then ds = (if 0 < col then [] else [48]) else hd ds = 49) \<and>
     t = (if 0 < col then replicate (nat (min col 64) - length ds) fc @ ds else ds) \<and>
     tf_num2strbin num buf col fc =
       (if length t < length buf then Inr (map Some (t @ [0]) @ drop (length t + 1) buf, length t) else Inl Out_Of_Bounds)"
proof -
  let ?ds = "if 0 < col \<or> num \<noteq> 0 then bin_text num else [48]"
  have z: "bin_text num = [] \<longleftrightarrow> num = 0" using bin_val_text [of num] bin_text_digits(3) by (auto simp: bin_val_def unat_eq_0)
  have "strbin_text num col fc = (if 0 < col then replicate (nat (min col 64) - length ?ds) fc @ ?ds else ?ds)"
    by (simp add: strbin_text_cases z)
  moreover have "set ?ds \<subseteq> {48, 49}" "bin_val ?ds = unat num"
      "if num = 0 then ?ds = (if 0 < col then [] else [48]) else hd ?ds = 49"
    using bin_text_digits [of num] bin_val_text [of num] by (auto simp: bin_val_def)
  ultimately show ?thesis using num2strbin_writes [of num buf col fc] by (intro exI [of _ ?ds] exI [of _ "strbin_text num col fc"]) (simp only: Let_def simp_thms)
qed

text \<open>
  The hexadecimal form of at most seven bytes is converted to the number they spell, big-endian,
  without overflow.
\<close>

lemma tf_atoih_value:
  assumes "length bs \<le> 7" "bs \<noteq> []"
  shows "\<exists>s. bin_to_asc bs (length bs) = Inr s \<and> tf_atoih s = Inr (be_val 0 bs)"
proof -
  let ?f = "\<lambda>h. [hex_char (drop_bit 4 (h AND 0xf0)), hex_char (h AND 0xf)]"
  have ch: "\<not> c_space (hex_char x) \<and> hex_char x \<noteq> 120 \<and> hex_char x \<noteq> 88" if "x < 16" for x
    by (rule nibble_cases [OF that]) (simp add: upt_rec hex_char_def c_space_def)
  obtain h r where bs: "bs = h # r" using assms(2) by (cases bs) auto
  have "(256 :: int) ^ length bs \<le> 256 ^ 7" using assms(1) by (intro power_increasing) auto
  then have "atoih_loop (concat (map ?f bs)) 0 = Inr (be_val 0 bs)"
    using atoih_bytes [of 0 bs] by simp
  moreover have "tf_atoih (concat (map ?f bs)) = atoih_loop (concat (map ?f bs)) 0"
    using ch [OF nibbles(1), of h] ch [OF nibbles(2), of h]
    by (simp add: tf_atoih_def bs del: drop_bit_and)
  ultimately show ?thesis by (simp add: bin_to_asc_ok)
qed

lemma tf_atoih_value_example:
  "\<exists>s. bin_to_asc [0x1f, 0xa0] 2 = Inr s \<and> tf_atoih s = Inr 0x1fa0"
  using tf_atoih_value [of "[0x1f, 0xa0]"] by (simp add: be_val_def numeral_2_eq_2 [symmetric])

end
