(* ===== verification/TF_AE.thy ===== *)
theory TF_AE
  imports TF_Prelude "HOL-Library.Signed_Division"
begin

text \<open>
  The event loop of \<open>ae/ae.h\<close> and \<open>ae/ae.c\<close>: the file-event table, the list of time events and the
  operations on both.  The polling layer is an argument, a record of the three functions every
  backend defines; the backends themselves are in \<open>TF_AE_Backends\<close>.

  A function pointer and a \<open>clientData\<close> pointer are names (\<^typ>\<open>nat\<close>).  What a callback does is
  a \<^emph>\<open>script\<close>: a tree of calls of this interface, each followed by what the callback does with the
  value returned.  A finaliser acts on the client's state only.  A node of the timer list is known
  by its identifier, which is never reused while the counter does not wrap, so a pointer to a node
  is dangling exactly when no node of the list has its identifier.  Allocation succeeds, as the
  default handler of the allocator aborts otherwise.
\<close>

section \<open>Constants and data\<close>

type_synonym mask = u32

abbreviation (input) AE_OK :: int where "AE_OK \<equiv> 0"
abbreviation (input) AE_ERR :: int where "AE_ERR \<equiv> - 1"
abbreviation (input) AE_NONE :: mask where "AE_NONE \<equiv> 0"
abbreviation (input) AE_READABLE :: mask where "AE_READABLE \<equiv> 1"
abbreviation (input) AE_WRITABLE :: mask where "AE_WRITABLE \<equiv> 2"
abbreviation (input) AE_FILE_EVENTS :: u32 where "AE_FILE_EVENTS \<equiv> 1"
abbreviation (input) AE_TIME_EVENTS :: u32 where "AE_TIME_EVENTS \<equiv> 2"
abbreviation (input) AE_ALL_EVENTS :: u32 where "AE_ALL_EVENTS \<equiv> 3"
abbreviation (input) AE_DONT_WAIT :: u32 where "AE_DONT_WAIT \<equiv> 4"
abbreviation (input) AE_NOMORE :: int where "AE_NOMORE \<equiv> - 1"

lemma mask_bits: "(x :: u32) AND 1 \<noteq> 0 \<longleftrightarrow> bit x 0" "(x :: u32) AND 2 \<noteq> 0 \<longleftrightarrow> bit x 1"
  using and_exp_eq_0_iff_not_bit [of x 0] and_exp_eq_0_iff_not_bit [of x 1] by simp_all

text \<open>The callbacks of a table entry that was never registered are not initialised.\<close>

record file_event =
  fe_mask :: mask
  fe_rproc :: "nat option"
  fe_wproc :: "nat option"
  fe_data :: "nat option"

record time_event =
  te_id :: int
  te_sec :: int
  te_ms :: int
  te_proc :: nat
  te_fin :: "nat option"
  te_data :: nat

type_synonym fired = "(int \<times> mask) option list"

record 'k ae_loop =
  el_maxfd :: int
  el_setsize :: int
  el_next :: int
  el_last :: int
  el_events :: "file_event list"
  el_fired :: fired
  el_timers :: "time_event list"
  el_stop :: bool
  el_api :: 'k
  el_sleep :: "nat option"

text \<open>
  The functions of a polling layer.  They read the masks of the table (and the highest descriptor
  when they poll), and keep their own state, the kernel's part included.
\<close>

record 'k ae_api =
  api_add :: "mask list \<Rightarrow> 'k \<Rightarrow> int \<Rightarrow> mask \<Rightarrow> c_error + 'k \<times> int"
  api_del :: "mask list \<Rightarrow> 'k \<Rightarrow> int \<Rightarrow> mask \<Rightarrow> c_error + 'k"
  api_poll :: "int \<Rightarrow> mask list \<Rightarrow> fired \<Rightarrow> 'k \<Rightarrow> (int \<times> int) option \<Rightarrow> c_error + 'k \<times> fired \<times> nat"

text \<open>The calls a callback may make.\<close>

datatype ae_call =
    Create_File int mask nat nat
  | Delete_File int mask
  | Get_File int
  | Create_Time int nat nat "nat option"
  | Delete_Time int
  | Modify_Time int int
  | Stop
  | Set_Sleep "nat option"

datatype script = Return int | Call ae_call "int \<Rightarrow> script"

datatype callback =
    File_cb nat int nat mask
  | Time_cb nat int nat
  | Sleep_cb nat

text \<open>
  The environment: the polling layer, \<open>gettimeofday\<close> (seconds and microseconds), \<open>time\<close>, what a
  callback does, and what a finaliser does.
\<close>

record ('k, 'w) ae_env =
  env_api :: "'k ae_api"
  env_time :: "'w \<Rightarrow> (int \<times> int) \<times> 'w"
  env_clock :: "'w \<Rightarrow> int \<times> 'w"
  env_call :: "callback \<Rightarrow> 'w \<Rightarrow> script \<times> 'w"
  env_final :: "nat \<Rightarrow> nat \<Rightarrow> 'w \<Rightarrow> 'w"

type_synonym ('k, 'w) ae_state = "'k ae_loop \<times> 'w"

abbreviation el_masks :: "'k ae_loop \<Rightarrow> mask list" where
  "el_masks el \<equiv> map fe_mask (el_events el)"

section \<open>The loop and the file events\<close>

definition blank_event :: file_event where
  "blank_event = \<lparr>fe_mask = AE_NONE, fe_rproc = None, fe_wproc = None, fe_data = None\<rparr>"

text \<open>A negative size is converted to a huge unsigned one, which cannot be allocated.\<close>

definition aeCreateEventLoop :: "'k option \<Rightarrow> int \<Rightarrow> int \<Rightarrow> c_error + 'k ae_loop option" where
  "aeCreateEventLoop created now setsize =
     (if setsize < 0 then Inl Out_Of_Memory
      else case created of
        None \<Rightarrow> Inr None
      | Some k \<Rightarrow> Inr (Some
          \<lparr>el_maxfd = - 1, el_setsize = setsize, el_next = 0, el_last = now,
           el_events = replicate (nat setsize) blank_event, el_fired = replicate (nat setsize) None,
           el_timers = [], el_stop = False, el_api = k, el_sleep = None\<rparr>))"

definition aeStop :: "'k ae_loop \<Rightarrow> 'k ae_loop" where
  "aeStop el = el\<lparr>el_stop := True\<rparr>"

definition aeSetBeforeSleepProc :: "'k ae_loop \<Rightarrow> nat option \<Rightarrow> 'k ae_loop" where
  "aeSetBeforeSleepProc el p = el\<lparr>el_sleep := p\<rparr>"

definition fe_register :: "file_event \<Rightarrow> mask \<Rightarrow> nat \<Rightarrow> nat \<Rightarrow> file_event" where
  "fe_register fe msk proc data =
     \<lparr>fe_mask = fe_mask fe OR msk,
      fe_rproc = (if msk AND AE_READABLE \<noteq> 0 then Some proc else fe_rproc fe),
      fe_wproc = (if msk AND AE_WRITABLE \<noteq> 0 then Some proc else fe_wproc fe),
      fe_data = Some data\<rparr>"

definition aeCreateFileEvent ::
    "'k ae_api \<Rightarrow> 'k ae_loop \<Rightarrow> int \<Rightarrow> mask \<Rightarrow> nat \<Rightarrow> nat \<Rightarrow> c_error + 'k ae_loop \<times> int" where
  "aeCreateFileEvent A el fd msk proc data =
     (if el_setsize el \<le> fd then Inr (el, AE_ERR)
      else if fd < 0 then Inl Out_Of_Bounds
      else rbind (api_add A (el_masks el) (el_api el) fd msk) (\<lambda>(k, r).
        if r = - 1 then Inr (el\<lparr>el_api := k\<rparr>, AE_ERR)
        else rbind (rd (el_events el) (nat fd)) (\<lambda>fe.
          Inr (el\<lparr>el_api := k,
                  el_events := (el_events el)[nat fd := fe_register fe msk proc data],
                  el_maxfd := max fd (el_maxfd el)\<rparr>, AE_OK))))"

text \<open>The highest registered descriptor below \<open>j\<close>, or -1.\<close>

fun maxfd_scan :: "file_event list \<Rightarrow> nat \<Rightarrow> int" where
  "maxfd_scan ev 0 = - 1"
| "maxfd_scan ev (Suc j) = (if fe_mask (ev ! j) \<noteq> AE_NONE then int j else maxfd_scan ev j)"

definition aeDeleteFileEvent ::
    "'k ae_api \<Rightarrow> 'k ae_loop \<Rightarrow> int \<Rightarrow> mask \<Rightarrow> c_error + 'k ae_loop" where
  "aeDeleteFileEvent A el fd msk =
     (if el_setsize el \<le> fd then Inr el
      else if fd < 0 then Inl Out_Of_Bounds
      else rbind (rd (el_events el) (nat fd)) (\<lambda>fe.
        if fe_mask fe = AE_NONE then Inr el
        else
          let m = fe_mask fe AND NOT msk;
              ev = (el_events el)[nat fd := fe\<lparr>fe_mask := m\<rparr>];
              maxfd = (if fd = el_maxfd el \<and> m = AE_NONE then maxfd_scan ev (nat fd) else el_maxfd el)
          in rbind (api_del A (map fe_mask ev) (el_api el) fd msk) (\<lambda>k.
             Inr (el\<lparr>el_events := ev, el_maxfd := maxfd, el_api := k\<rparr>))))"

definition aeGetFileEvents :: "'k ae_loop \<Rightarrow> int \<Rightarrow> c_error + mask" where
  "aeGetFileEvents el fd =
     (if el_setsize el \<le> fd then Inr 0
      else if fd < 0 then Inl Out_Of_Bounds
      else rbind (rd (el_events el) (nat fd)) (\<lambda>fe. Inr (fe_mask fe)))"

section \<open>Time\<close>

text \<open>Division and remainder of C truncate towards zero.\<close>

definition aeGetTime :: "('k, 'w) ae_env \<Rightarrow> 'w \<Rightarrow> (int \<times> int) \<times> 'w" where
  "aeGetTime env w = (let ((sec, usec), w) = env_time env w in ((sec, usec sdiv 1000), w))"

definition add_ms :: "int \<Rightarrow> int \<Rightarrow> int \<Rightarrow> int \<times> int" where
  "add_ms cur_sec cur_ms milliseconds =
     (let when_sec = cur_sec + milliseconds sdiv 1000; when_ms = cur_ms + milliseconds smod 1000
      in if when_ms \<ge> 1000 then (when_sec + 1, when_ms - 1000) else (when_sec, when_ms))"

definition aeAddMillisecondsToNow :: "('k, 'w) ae_env \<Rightarrow> int \<Rightarrow> 'w \<Rightarrow> (int \<times> int) \<times> 'w" where
  "aeAddMillisecondsToNow env milliseconds w =
     (let ((cur_sec, cur_ms), w) = aeGetTime env w in (add_ms cur_sec cur_ms milliseconds, w))"

definition aeCreateTimeEvent ::
    "('k, 'w) ae_env \<Rightarrow> int \<Rightarrow> nat \<Rightarrow> nat \<Rightarrow> nat option \<Rightarrow> ('k, 'w) ae_state \<Rightarrow>
     c_error + ('k, 'w) ae_state \<times> int" where
  "aeCreateTimeEvent env milliseconds proc data fin = (\<lambda>(el, w).
     rbind (chk_i64 (el_next el + 1)) (\<lambda>n.
       let ((sec, ms), w) = aeAddMillisecondsToNow env milliseconds w;
           te = \<lparr>te_id = el_next el, te_sec = sec, te_ms = ms, te_proc = proc, te_fin = fin, te_data = data\<rparr>
       in Inr ((el\<lparr>el_next := n, el_timers := te # el_timers el\<rparr>, w), el_next el)))"

text \<open>Unlinking a node, and writing its deadline.\<close>

fun te_remove :: "int \<Rightarrow> time_event list \<Rightarrow> (time_event \<times> time_event list) option" where
  "te_remove i [] = None"
| "te_remove i (te # ts) =
     (if te_id te = i then Some (te, ts)
      else case te_remove i ts of None \<Rightarrow> None | Some (d, ts') \<Rightarrow> Some (d, te # ts'))"

fun te_set :: "int \<Rightarrow> int \<times> int \<Rightarrow> time_event list \<Rightarrow> time_event list option" where
  "te_set i t [] = None"
| "te_set i t (te # ts) =
     (if te_id te = i then Some (te\<lparr>te_sec := fst t, te_ms := snd t\<rparr> # ts)
      else case te_set i t ts of None \<Rightarrow> None | Some ts' \<Rightarrow> Some (te # ts'))"

definition aeDeleteTimeEvent ::
    "('k, 'w) ae_env \<Rightarrow> int \<Rightarrow> ('k, 'w) ae_state \<Rightarrow> ('k, 'w) ae_state \<times> int" where
  "aeDeleteTimeEvent env i = (\<lambda>(el, w).
     case te_remove i (el_timers el) of
       None \<Rightarrow> ((el, w), AE_ERR)
     | Some (te, ts) \<Rightarrow>
         ((el\<lparr>el_timers := ts\<rparr>,
           case te_fin te of None \<Rightarrow> w | Some f \<Rightarrow> env_final env f (te_data te) w), AE_OK))"

text \<open>The clock is read only when the event is found.\<close>

definition aeModifyTimeEvent ::
    "('k, 'w) ae_env \<Rightarrow> int \<Rightarrow> int \<Rightarrow> ('k, 'w) ae_state \<Rightarrow> ('k, 'w) ae_state \<times> int" where
  "aeModifyTimeEvent env i milliseconds = (\<lambda>(el, w).
     if i \<in> te_id ` set (el_timers el) then
       let (t, w) = aeAddMillisecondsToNow env milliseconds w
       in case te_set i t (el_timers el) of
            None \<Rightarrow> ((el, w), AE_ERR)
          | Some ts \<Rightarrow> ((el\<lparr>el_timers := ts\<rparr>, w), AE_OK)
     else ((el, w), AE_ERR))"

definition te_before :: "time_event \<Rightarrow> time_event \<Rightarrow> bool" where
  "te_before a b \<longleftrightarrow> te_sec a < te_sec b \<or> te_sec a = te_sec b \<and> te_ms a < te_ms b"

fun nearest_loop :: "time_event option \<Rightarrow> time_event list \<Rightarrow> time_event option" where
  "nearest_loop nearest [] = nearest"
| "nearest_loop nearest (te # ts) =
     nearest_loop (case nearest of None \<Rightarrow> Some te | Some n \<Rightarrow> if te_before te n then Some te else nearest) ts"

definition aeSearchNearestTimer :: "'k ae_loop \<Rightarrow> time_event option" where
  "aeSearchNearestTimer el = nearest_loop None (el_timers el)"

end
