(* ===== verification/TF_AE_Proc.thy ===== *)
theory TF_AE_Proc
  imports TF_AE
begin

text \<open>
  The processing half of \<open>ae/ae.c\<close>: running a callback, dispatching the fired file events, the pass
  over the time events, \<open>aeProcessEvents\<close>, \<open>aeWait\<close> and \<open>aeMain\<close>.  The pass over the time events
  starts again from the head after each callback and the main loop runs until it is stopped, so
  both are partial functions and \<^term>\<open>None\<close> is the value of a run that does not end.
\<close>

section \<open>Callbacks\<close>

definition exec_call ::
    "('k, 'w) ae_env \<Rightarrow> ae_call \<Rightarrow> ('k, 'w) ae_state \<Rightarrow> c_error + ('k, 'w) ae_state \<times> int" where
  "exec_call env c = (\<lambda>(el, w). case c of
     Create_File fd m proc data \<Rightarrow>
       rbind (aeCreateFileEvent (env_api env) el fd m proc data) (\<lambda>(el, r). Inr ((el, w), r))
   | Delete_File fd m \<Rightarrow> rbind (aeDeleteFileEvent (env_api env) el fd m) (\<lambda>el. Inr ((el, w), 0))
   | Get_File fd \<Rightarrow> rbind (aeGetFileEvents el fd) (\<lambda>m. Inr ((el, w), sint m))
   | Create_Time ms proc data fin \<Rightarrow> aeCreateTimeEvent env ms proc data fin (el, w)
   | Delete_Time i \<Rightarrow> Inr (aeDeleteTimeEvent env i (el, w))
   | Modify_Time i ms \<Rightarrow> Inr (aeModifyTimeEvent env i ms (el, w))
   | Stop \<Rightarrow> Inr ((aeStop el, w), 0)
   | Set_Sleep p \<Rightarrow> Inr ((aeSetBeforeSleepProc el p, w), 0))"

primrec run_script ::
    "('k, 'w) ae_env \<Rightarrow> script \<Rightarrow> ('k, 'w) ae_state \<Rightarrow> c_error + ('k, 'w) ae_state \<times> int" where
  "run_script env (Return r) st = Inr (st, r)"
| "run_script env (Call c k) st = rbind (exec_call env c st) (\<lambda>(st, r). run_script env (k r) st)"

definition call_back ::
    "('k, 'w) ae_env \<Rightarrow> callback \<Rightarrow> ('k, 'w) ae_state \<Rightarrow> c_error + ('k, 'w) ae_state \<times> int" where
  "call_back env cb = (\<lambda>(el, w). let (s, w) = env_call env cb w in run_script env s (el, w))"

text \<open>A callback taken from the table: its procedure and its client data must have been stored.\<close>

definition call_file ::
    "('k, 'w) ae_env \<Rightarrow> nat option \<Rightarrow> nat option \<Rightarrow> int \<Rightarrow> mask \<Rightarrow> ('k, 'w) ae_state \<Rightarrow>
     c_error + ('k, 'w) ae_state" where
  "call_file env proc data fd m st =
     (case (proc, data) of
        (Some p, Some d) \<Rightarrow> rbind (call_back env (File_cb p fd d m) st) (\<lambda>(st, _). Inr st)
      | _ \<Rightarrow> Inl Uninitialised)"

section \<open>Time events\<close>

definition te_due :: "time_event \<Rightarrow> int \<times> int \<Rightarrow> bool" where
  "te_due te now \<longleftrightarrow> fst now > te_sec te \<or> fst now = te_sec te \<and> snd now \<ge> te_ms te"

text \<open>The walk to the next event to fire: the clock is read for every event not skipped.\<close>

fun next_due :: "('k, 'w) ae_env \<Rightarrow> int \<Rightarrow> time_event list \<Rightarrow> 'w \<Rightarrow> time_event option \<times> 'w" where
  "next_due env max_id [] w = (None, w)"
| "next_due env max_id (te # ts) w =
     (if te_id te > max_id then next_due env max_id ts w
      else let (now, w) = aeGetTime env w
           in if te_due te now then (Some te, w) else next_due env max_id ts w)"

definition fire_timer ::
    "('k, 'w) ae_env \<Rightarrow> time_event \<Rightarrow> ('k, 'w) ae_state \<Rightarrow> c_error + ('k, 'w) ae_state" where
  "fire_timer env te st =
     rbind (call_back env (Time_cb (te_proc te) (te_id te) (te_data te)) st) (\<lambda>((el, w), retval).
       if retval \<noteq> AE_NOMORE then
         let (t, w) = aeAddMillisecondsToNow env retval w
         in case te_set (te_id te) t (el_timers el) of
              None \<Rightarrow> Inl Use_After_Free
            | Some ts \<Rightarrow> Inr (el\<lparr>el_timers := ts\<rparr>, w)
       else Inr (fst (aeDeleteTimeEvent env (te_id te) (el, w))))"

partial_function (option) timer_loop ::
    "('k, 'w) ae_env \<Rightarrow> int \<Rightarrow> int \<Rightarrow> ('k, 'w) ae_state \<Rightarrow> (c_error + ('k, 'w) ae_state \<times> int) option" where
  "timer_loop env max_id processed st =
     (case next_due env max_id (el_timers (fst st)) (snd st) of
        (None, w) \<Rightarrow> Some (Inr ((fst st, w), processed))
      | (Some te, w) \<Rightarrow>
          (case fire_timer env te (fst st, w) of
             Inl e \<Rightarrow> Some (Inl e)
           | Inr st \<Rightarrow> timer_loop env max_id (processed + 1) st))"

text \<open>A clock set back makes every event due.\<close>

definition processTimeEvents ::
    "('k, 'w) ae_env \<Rightarrow> ('k, 'w) ae_state \<Rightarrow> (c_error + ('k, 'w) ae_state \<times> int) option" where
  "processTimeEvents env = (\<lambda>(el, w).
     let (now, w) = env_clock env w;
         ts = (if now < el_last el then map (\<lambda>te. te\<lparr>te_sec := 0\<rparr>) (el_timers el) else el_timers el)
     in timer_loop env (el_next el - 1) 0 (el\<lparr>el_timers := ts, el_last := now\<rparr>, w))"

section \<open>File events\<close>

definition fire_file ::
    "('k, 'w) ae_env \<Rightarrow> nat \<Rightarrow> ('k, 'w) ae_state \<Rightarrow> c_error + ('k, 'w) ae_state" where
  "fire_file env j st =
     rbind (rdi (el_fired (fst st)) j) (\<lambda>(fd, m).
     rbind (if fd < 0 then Inl Out_Of_Bounds else rd (el_events (fst st)) (nat fd)) (\<lambda>fe.
     let rfired = fe_mask fe AND m AND AE_READABLE \<noteq> 0
     in rbind (if rfired then call_file env (fe_rproc fe) (fe_data fe) fd m st else Inr st) (\<lambda>st.
        rbind (rd (el_events (fst st)) (nat fd)) (\<lambda>fe.
        if fe_mask fe AND m AND AE_WRITABLE \<noteq> 0 \<and> (\<not> rfired \<or> fe_wproc fe \<noteq> fe_rproc fe)
        then call_file env (fe_wproc fe) (fe_data fe) fd m st
        else Inr st))))"

fun fire_files ::
    "('k, 'w) ae_env \<Rightarrow> nat list \<Rightarrow> ('k, 'w) ae_state \<Rightarrow> c_error + ('k, 'w) ae_state" where
  "fire_files env [] st = Inr st"
| "fire_files env (j # js) st = rbind (fire_file env j st) (fire_files env js)"

text \<open>
  The time to sleep: until the nearest timer when waiting for timers is allowed, no time at all
  with \<^term>\<open>AE_DONT_WAIT\<close>, and for ever (\<^term>\<open>None\<close>) otherwise.
\<close>

definition timer_timeout :: "time_event \<Rightarrow> int \<times> int \<Rightarrow> int \<times> int" where
  "timer_timeout shortest now =
     (let tv_sec = te_sec shortest - fst now;
          (tv_sec, tv_usec) =
            (if te_ms shortest < snd now
             then (tv_sec - 1, ((te_ms shortest + 1000) - snd now) * 1000)
             else (tv_sec, (te_ms shortest - snd now) * 1000))
      in (if tv_sec < 0 then 0 else tv_sec, if tv_usec < 0 then 0 else tv_usec))"

definition poll_timeout ::
    "('k, 'w) ae_env \<Rightarrow> u32 \<Rightarrow> ('k, 'w) ae_state \<Rightarrow> (int \<times> int) option \<times> 'w" where
  "poll_timeout env flags = (\<lambda>(el, w).
     case (if flags AND AE_TIME_EVENTS \<noteq> 0 \<and> flags AND AE_DONT_WAIT = 0
           then aeSearchNearestTimer el else None) of
       Some te \<Rightarrow> (let (now, w) = aeGetTime env w in (Some (timer_timeout te now), w))
     | None \<Rightarrow> (if flags AND AE_DONT_WAIT \<noteq> 0 then Some (0, 0) else None, w))"

definition poll_and_fire ::
    "('k, 'w) ae_env \<Rightarrow> u32 \<Rightarrow> ('k, 'w) ae_state \<Rightarrow> c_error + ('k, 'w) ae_state \<times> int" where
  "poll_and_fire env flags = (\<lambda>(el, w).
     let (tvp, w) = poll_timeout env flags (el, w)
     in rbind (api_poll (env_api env) (el_maxfd el) (el_masks el) (el_fired el) (el_api el) tvp)
          (\<lambda>(k, fired, numevents).
        rbind (fire_files env [0..<numevents] (el\<lparr>el_api := k, el_fired := fired\<rparr>, w)) (\<lambda>st.
        Inr (st, int numevents))))"

definition aeProcessEvents ::
    "('k, 'w) ae_env \<Rightarrow> u32 \<Rightarrow> ('k, 'w) ae_state \<Rightarrow> (c_error + ('k, 'w) ae_state \<times> int) option" where
  "aeProcessEvents env flags st =
     (if flags AND AE_TIME_EVENTS = 0 \<and> flags AND AE_FILE_EVENTS = 0 then Some (Inr (st, 0))
      else case (if el_maxfd (fst st) \<noteq> - 1 \<or> flags AND AE_TIME_EVENTS \<noteq> 0 \<and> flags AND AE_DONT_WAIT = 0
                 then poll_and_fire env flags st else Inr (st, 0)) of
        Inl e \<Rightarrow> Some (Inl e)
      | Inr (st, processed) \<Rightarrow>
          if flags AND AE_TIME_EVENTS = 0 then Some (Inr (st, processed))
          else map_option (\<lambda>r. rbind r (\<lambda>(st, n). Inr (st, processed + n))) (processTimeEvents env st))"

section \<open>Waiting and the main loop\<close>

definition POLLIN :: u32 where "POLLIN = 1"
definition POLLOUT :: u32 where "POLLOUT = 4"
definition POLLERR :: u32 where "POLLERR = 8"
definition POLLHUP :: u32 where "POLLHUP = 16"

text \<open>\<open>poll\<close> is given the events wanted and the time, and yields its value and the events seen.\<close>

definition aeWait ::
    "(int \<Rightarrow> u32 \<Rightarrow> int \<Rightarrow> 'w \<Rightarrow> (int \<times> u32) \<times> 'w) \<Rightarrow> int \<Rightarrow> mask \<Rightarrow> int \<Rightarrow> 'w \<Rightarrow> int \<times> 'w" where
  "aeWait poll fd msk milliseconds w =
     (let events = (if msk AND AE_READABLE \<noteq> 0 then POLLIN else 0) OR (if msk AND AE_WRITABLE \<noteq> 0 then POLLOUT else 0);
          ((retval, revents), w) = poll fd events (to_int milliseconds) w
      in if retval = 1
         then (sint ((if revents AND POLLIN \<noteq> 0 then AE_READABLE else 0) OR
                     (if revents AND POLLOUT \<noteq> 0 then AE_WRITABLE else 0) OR
                     (if revents AND POLLERR \<noteq> 0 then AE_WRITABLE else 0) OR
                     (if revents AND POLLHUP \<noteq> 0 then AE_WRITABLE else 0)), w)
         else (retval, w))"

partial_function (option) main_loop ::
    "('k, 'w) ae_env \<Rightarrow> ('k, 'w) ae_state \<Rightarrow> (c_error + ('k, 'w) ae_state) option" where
  "main_loop env st =
     (if el_stop (fst st) then Some (Inr st)
      else case (case el_sleep (fst st) of
                   None \<Rightarrow> Inr (st, 0)
                 | Some p \<Rightarrow> call_back env (Sleep_cb p) st) of
        Inl e \<Rightarrow> Some (Inl e)
      | Inr (st, _) \<Rightarrow>
          Option.bind (aeProcessEvents env AE_ALL_EVENTS st) (\<lambda>r. case r of
            Inl e \<Rightarrow> Some (Inl e)
          | Inr (st, _) \<Rightarrow> main_loop env st))"

definition aeMain :: "('k, 'w) ae_env \<Rightarrow> ('k, 'w) ae_state \<Rightarrow> (c_error + ('k, 'w) ae_state) option" where
  "aeMain env = (\<lambda>(el, w). main_loop env (el\<lparr>el_stop := False\<rparr>, w))"

end
