(* ===== verification/TF_AE_Inv.thy ===== *)
theory TF_AE_Inv
  imports TF_AE_Proc
begin

text \<open>
  The invariant of the event loop and the contract of a polling layer.  \<open>loop_ok\<close> relates the table,
  its size and the highest descriptor, says that every registered event has its callback, and that
  the identifiers of the timers are distinct and below the next one.  The locale \<open>ae_backend\<close> holds
  the laws of a polling layer: what it watches stays in step with the masks of the table.  Inside it
  every call of the interface, every script and a whole pass of \<open>aeProcessEvents\<close> is shown to keep
  both and to be free of accesses outside the table and of reads of data never written.
\<close>

section \<open>The invariant\<close>

definition event_ok :: "file_event \<Rightarrow> bool" where
  "event_ok fe \<longleftrightarrow>
     (fe_mask fe AND AE_READABLE \<noteq> 0 \<longrightarrow> fe_rproc fe \<noteq> None \<and> fe_data fe \<noteq> None) \<and>
     (fe_mask fe AND AE_WRITABLE \<noteq> 0 \<longrightarrow> fe_wproc fe \<noteq> None \<and> fe_data fe \<noteq> None)"

text \<open>The value \<open>maxfd\<close> must have: the highest index with a mask, or -1.\<close>

definition max_registered :: "file_event list \<Rightarrow> int" where
  "max_registered ev = maxfd_scan ev (length ev)"

definition timers_ok :: "int \<Rightarrow> time_event list \<Rightarrow> bool" where
  "timers_ok n ts \<longleftrightarrow> distinct (map te_id ts) \<and> (\<forall>te \<in> set ts. te_id te < n)"

definition loop_ok :: "'k ae_loop \<Rightarrow> bool" where
  "loop_ok el \<longleftrightarrow>
     el_setsize el = int (length (el_events el)) \<and> length (el_fired el) = length (el_events el) \<and>
     el_maxfd el = max_registered (el_events el) \<and> list_all event_ok (el_events el) \<and>
     timers_ok (el_next el) (el_timers el)"

lemma maxfd_scan_range: "- 1 \<le> maxfd_scan ev n \<and> maxfd_scan ev n < int n"
  by (induction n) auto

lemma maxfd_scan_upper: "i < n \<Longrightarrow> fe_mask (ev ! i) \<noteq> 0 \<Longrightarrow> int i \<le> maxfd_scan ev n"
  by (induction n) (auto simp: less_Suc_eq)

lemma maxfd_scan_attained: "maxfd_scan ev n = int i \<Longrightarrow> fe_mask (ev ! i) \<noteq> 0"
  by (induction n) (auto split: if_splits)

lemma maxfd_scan_cong: "(\<And>i. i < n \<Longrightarrow> fe_mask (ev ! i) = fe_mask (ev' ! i)) \<Longrightarrow> maxfd_scan ev n = maxfd_scan ev' n"
  by (induction n) auto

lemma max_registered_range: "- 1 \<le> max_registered ev" "max_registered ev < int (length ev)"
  using maxfd_scan_range [of ev "length ev"] by (simp_all add: max_registered_def)

lemma max_registered_set:
  assumes "i < length ev" "fe_mask fe \<noteq> 0"
  shows "max_registered (ev[i := fe]) = max (int i) (max_registered ev)"
proof -
  have "maxfd_scan (ev[i := fe]) n = (if i < n then max (int i) (maxfd_scan ev n) else maxfd_scan ev n)"
    if "n \<le> length ev" for n
    using that
  proof (induction n)
    case (Suc n)
    then show ?case using assms maxfd_scan_range [of ev n] by (auto simp: nth_list_update max_def)
  qed simp
  then show ?thesis using assms(1) by (simp add: max_registered_def)
qed

lemma max_registered_clear:
  assumes "i < length ev" "fe_mask (ev ! i) \<noteq> 0"
  shows "max_registered (ev[i := fe]) =
    (if int i = max_registered ev \<and> fe_mask fe = 0 then maxfd_scan (ev[i := fe]) i else max_registered ev)"
proof -
  have scan: "maxfd_scan (ev[i := fe]) n =
      (if int i = maxfd_scan ev n \<and> fe_mask fe = 0 then maxfd_scan (ev[i := fe]) i else maxfd_scan ev n)"
    if "n \<le> length ev" "i < n" for n
    using that
  proof (induction n)
    case (Suc n)
    show ?case
    proof (cases "i = n")
      case True
      then show ?thesis using Suc.prems assms maxfd_scan_range [of ev n] by auto
    next
      case False
      then show ?thesis using Suc by (auto simp: nth_list_update)
    qed
  qed simp
  show ?thesis using scan [of "length ev"] assms(1) by (simp add: max_registered_def)
qed

section \<open>Scripts that use descriptors\<close>

text \<open>What a client owes: descriptors are not negative and an event is registered for something.\<close>

fun call_ok :: "ae_call \<Rightarrow> bool" where
  "call_ok (Create_File fd m _ _) \<longleftrightarrow> 0 \<le> fd \<and> m \<noteq> 0"
| "call_ok (Delete_File fd m) \<longleftrightarrow> 0 \<le> fd"
| "call_ok (Get_File fd) \<longleftrightarrow> 0 \<le> fd"
| "call_ok _ \<longleftrightarrow> True"

primrec script_ok :: "script \<Rightarrow> bool" where
  "script_ok (Return r) \<longleftrightarrow> True"
| "script_ok (Call c k) \<longleftrightarrow> call_ok c \<and> (\<forall>r. script_ok (k r))"

definition client_ok :: "('k, 'w) ae_env \<Rightarrow> bool" where
  "client_ok env \<longleftrightarrow> (\<forall>cb w. script_ok (fst (env_call env cb w)))"

section \<open>Lists of timers\<close>

lemma te_remove_Some:
  "te_remove i ts = Some (d, ts') \<Longrightarrow>
     te_id d = i \<and> d \<in> set ts \<and> (distinct (map te_id ts) \<longrightarrow> ts' = filter (\<lambda>te. te_id te \<noteq> i) ts)"
proof (induction ts arbitrary: ts')
  case (Cons te ts)
  show ?case
  proof (cases "te_id te = i")
    case True
    then have "distinct (map te_id (te # ts)) \<Longrightarrow> filter (\<lambda>te. te_id te \<noteq> i) ts = ts"
      by (auto simp: filter_id_conv image_iff)
    then show ?thesis using True Cons.prems by simp
  next
    case False
    then show ?thesis using Cons by (auto split: option.splits)
  qed
qed simp

lemma te_remove_None: "te_remove i ts = None \<longleftrightarrow> i \<notin> te_id ` set ts"
  by (induction ts) (auto split: option.splits)

lemma te_set_None: "te_set i t ts = None \<longleftrightarrow> i \<notin> te_id ` set ts"
  by (induction ts) (auto split: option.splits)

lemma te_set_Some:
  "te_set i t ts = Some ts' \<Longrightarrow> distinct (map te_id ts) \<Longrightarrow>
     ts' = map (\<lambda>te. if te_id te = i then te\<lparr>te_sec := fst t, te_ms := snd t\<rparr> else te) ts"
proof (induction ts arbitrary: ts')
  case (Cons te ts)
  show ?case
  proof (cases "te_id te = i")
    case True
    then have "map (\<lambda>te. if te_id te = i then te\<lparr>te_sec := fst t, te_ms := snd t\<rparr> else te) ts = ts"
      using Cons.prems(2) by (auto intro!: map_idI simp: image_iff)
    then show ?thesis using True Cons.prems by simp
  next
    case False
    then show ?thesis using Cons by (auto split: option.splits)
  qed
qed simp

lemma te_set_ids: "te_set i t ts = Some ts' \<Longrightarrow> map te_id ts' = map te_id ts"
  by (induction ts arbitrary: ts') (auto split: if_splits option.splits)

lemma timers_ok_ids: "map te_id ts' = map te_id ts \<Longrightarrow> timers_ok n ts \<Longrightarrow> timers_ok n ts'"
  unfolding timers_ok_def by (metis (no_types, lifting) image_eqI image_iff list.set_map)

lemma timers_ok_remove: "te_remove i ts = Some (d, ts') \<Longrightarrow> timers_ok n ts \<Longrightarrow> timers_ok n ts'"
  using te_remove_Some [of i ts d ts'] by (simp add: timers_ok_def distinct_map_filter)

lemma timers_ok_new: "timers_ok n ts \<Longrightarrow> te_id te = n \<Longrightarrow> timers_ok (n + 1) (te # ts)"
  by (auto simp: timers_ok_def)

section \<open>The contract of a polling layer\<close>

text \<open>
  \<open>sync ms k\<close> holds when the state \<open>k\<close> watches exactly what the masks \<open>ms\<close> of the table ask for.
  Adding may be refused, and then nothing changes; the mask of a deleted event is already reduced
  when the layer is told; polling reports descriptors of the table only.
\<close>

locale ae_backend =
  fixes A :: "'k ae_api" and sync :: "mask list \<Rightarrow> 'k \<Rightarrow> bool"
  assumes add_law: "sync ms k \<Longrightarrow> 0 \<le> fd \<Longrightarrow> nat fd < length ms \<Longrightarrow> m \<noteq> 0 \<Longrightarrow>
      safe (\<lambda>(k', r). if r = - 1 then sync ms k' else sync (ms[nat fd := ms ! nat fd OR m]) k')
        (api_add A ms k fd m)"
    and del_law: "sync ms k \<Longrightarrow> 0 \<le> fd \<Longrightarrow> nat fd < length ms \<Longrightarrow> ms ! nat fd \<noteq> 0 \<Longrightarrow>
      ms' = ms[nat fd := ms ! nat fd AND NOT m] \<Longrightarrow> safe (sync ms') (api_del A ms' k fd m)"
    and poll_law: "sync ms k \<Longrightarrow> length f = length ms \<Longrightarrow> - 1 \<le> maxfd \<Longrightarrow> maxfd < int (length ms) \<Longrightarrow>
      safe (\<lambda>(k', f', n). sync ms k' \<and> length f' = length f \<and> n \<le> length f \<and>
          (\<forall>j<n. \<exists>fd m. f' ! j = Some (fd, m) \<and> 0 \<le> fd \<and> nat fd < length ms))
        (api_poll A maxfd ms f k tvp)"
begin

definition state_ok :: "'k ae_loop \<Rightarrow> bool" where
  "state_ok el \<longleftrightarrow> loop_ok el \<and> sync (el_masks el) (el_api el)"

text \<open>A step keeps the invariant, the size of the table and the fired events.\<close>

definition keeps :: "'k ae_loop \<Rightarrow> 'k ae_loop \<Rightarrow> bool" where
  "keeps el el' \<longleftrightarrow> state_ok el' \<and> length (el_events el') = length (el_events el) \<and> el_fired el' = el_fired el"

lemma keeps_refl: "state_ok el \<Longrightarrow> keeps el el"
  by (simp add: keeps_def)

lemma keeps_trans: "keeps a b \<Longrightarrow> keeps b c \<Longrightarrow> keeps a c"
  by (simp add: keeps_def)

lemma keeps_ok: "keeps a b \<Longrightarrow> state_ok b"
  by (simp add: keeps_def)

lemma fe_mask_register [simp]: "fe_mask (fe_register fe m p d) = fe_mask fe OR m"
  by (simp add: fe_register_def)

lemma event_ok_register: "event_ok fe \<Longrightarrow> event_ok (fe_register fe m p d)"
  by (auto simp: event_ok_def fe_register_def bit_eq_iff bit_simps bit_1_iff)

lemma create_file:
  assumes "state_ok el" "0 \<le> fd" "m \<noteq> 0"
  shows "safe (\<lambda>(el', r). keeps el el') (aeCreateFileEvent A el fd m p d)"
proof (cases "el_setsize el \<le> fd")
  case True
  then show ?thesis using assms by (simp add: aeCreateFileEvent_def keeps_refl)
next
  case False
  let ?ev = "el_events el" and ?i = "nat fd"
  have i: "?i < length ?ev" "int ?i = fd" using False assms(1,2) by (auto simp: state_ok_def loop_ok_def)
  have e: "event_ok (?ev ! ?i)" using assms(1) i by (auto simp: state_ok_def loop_ok_def list_all_length)
  have la: "list_all event_ok (?ev[?i := fe_register (?ev ! ?i) m p d])"
    using assms(1) event_ok_register [OF e] by (auto simp: state_ok_def loop_ok_def intro: list_all_update)
  have ne: "fe_mask (fe_register (?ev ! ?i) m p d) \<noteq> 0"
    using assms(3) by (auto simp: bit_eq_iff bit_simps)
  have mf: "max_registered (?ev[?i := fe_register (?ev ! ?i) m p d]) = max fd (max_registered ?ev)"
    using max_registered_set [OF i(1) ne] i(2) by simp
  have "safe (\<lambda>(k', r). if r = - 1 then sync (el_masks el) k'
      else sync ((el_masks el)[?i := el_masks el ! ?i OR m]) k') (api_add A (el_masks el) (el_api el) fd m)"
    using add_law [of "el_masks el" "el_api el" fd m] assms i by (simp add: state_ok_def)
  then show ?thesis
    unfolding aeCreateFileEvent_def using False assms(2)
  proof (simp, elim safe_bind, goal_cases)
    case (1 x)
    then show ?case
      using assms(1) i mf la
      by (auto simp: keeps_def state_ok_def loop_ok_def map_update split: if_splits)
  qed
qed

lemma delete_file:
  assumes "state_ok el" "0 \<le> fd"
  shows "safe (keeps el) (aeDeleteFileEvent A el fd m)"
proof (cases "el_setsize el \<le> fd \<or> fe_mask (el_events el ! nat fd) = 0")
  case True
  then show ?thesis using assms by (auto simp: aeDeleteFileEvent_def keeps_refl state_ok_def loop_ok_def)
next
  case False
  let ?ev = "el_events el" and ?i = "nat fd"
  let ?fe = "(?ev ! ?i)\<lparr>fe_mask := fe_mask (?ev ! ?i) AND NOT m\<rparr>"
  have i: "?i < length ?ev" "int ?i = fd" using False assms by (auto simp: state_ok_def loop_ok_def)
  have e: "event_ok (?ev ! ?i)" using assms(1) i by (auto simp: state_ok_def loop_ok_def list_all_length)
  then have "event_ok ?fe" by (auto simp: event_ok_def bit_eq_iff bit_simps bit_1_iff)
  then have la: "list_all event_ok (?ev[?i := ?fe])"
    using assms(1) by (auto simp: state_ok_def loop_ok_def intro: list_all_update)
  note mf = max_registered_clear [OF i(1), of ?fe]
  have "safe (sync (map fe_mask (?ev[?i := ?fe]))) (api_del A (map fe_mask (?ev[?i := ?fe])) (el_api el) fd m)"
    using del_law [of "el_masks el" "el_api el" fd _ m] assms i False by (simp add: state_ok_def map_update)
  moreover have "aeDeleteFileEvent A el fd m =
      rbind (api_del A (map fe_mask (?ev[?i := ?fe])) (el_api el) fd m) (\<lambda>k.
        Inr (el\<lparr>el_events := ?ev[?i := ?fe],
          el_maxfd := (if fd = el_maxfd el \<and> fe_mask ?fe = 0 then maxfd_scan (?ev[?i := ?fe]) ?i else el_maxfd el),
          el_api := k\<rparr>))"
    using False assms(2) i(1) by (simp add: aeDeleteFileEvent_def Let_def)
  ultimately show ?thesis
    using assms(1) mf la i False
    by (auto simp: keeps_def state_ok_def loop_ok_def elim!: safe_bind)
qed

lemma get_file: "state_ok el \<Longrightarrow> 0 \<le> fd \<Longrightarrow> safe (\<lambda>_. True) (aeGetFileEvents el fd)"
  by (auto simp: aeGetFileEvents_def state_ok_def loop_ok_def rd_def)

lemma timers_change:
  "state_ok el \<Longrightarrow> timers_ok n ts \<Longrightarrow> keeps el (el\<lparr>el_next := n, el_timers := ts\<rparr>)"
  by (simp add: keeps_def state_ok_def loop_ok_def)

lemma timers_only:
  "state_ok el \<Longrightarrow> timers_ok (el_next el) ts \<Longrightarrow> keeps el (el\<lparr>el_timers := ts\<rparr>)"
  by (simp add: keeps_def state_ok_def loop_ok_def)

lemma state_timers: "state_ok el \<Longrightarrow> timers_ok (el_next el) (el_timers el)"
  by (simp add: state_ok_def loop_ok_def)

lemma create_time:
  "state_ok el \<Longrightarrow> safe (\<lambda>((el', w), r). keeps el el') (aeCreateTimeEvent env ms p d f (el, w))"
  by (auto simp: aeCreateTimeEvent_def chk_i64_def Let_def timers_change timers_ok_new state_timers
      split: prod.splits)

lemma remove_keeps:
  "state_ok el \<Longrightarrow> te_remove i (el_timers el) = Some (d, ts) \<Longrightarrow> keeps el (el\<lparr>el_timers := ts\<rparr>)"
  using timers_ok_remove state_timers timers_only by metis

lemma set_keeps:
  "state_ok el \<Longrightarrow> te_set i t (el_timers el) = Some ts \<Longrightarrow> keeps el (el\<lparr>el_timers := ts\<rparr>)"
  using timers_ok_ids te_set_ids state_timers timers_only by metis

lemma delete_time:
  "state_ok el \<Longrightarrow> keeps el (fst (fst (aeDeleteTimeEvent env i (el, w))))"
  by (auto simp: aeDeleteTimeEvent_def keeps_refl remove_keeps split: option.splits)

lemma modify_time:
  "state_ok el \<Longrightarrow> keeps el (fst (fst (aeModifyTimeEvent env i ms (el, w))))"
  by (auto simp: aeModifyTimeEvent_def keeps_refl set_keeps Let_def split: option.splits prod.splits)

lemma exec_call_ok:
  assumes "env_api env = A" "state_ok el" "call_ok c"
  shows "safe (\<lambda>((el', w), r). keeps el el') (exec_call env c (el, w))"
proof (cases c)
  case (Create_File fd m p d)
  then show ?thesis using assms create_file [of el fd m p d]
    by (auto simp: exec_call_def elim!: safe_bind)
next
  case (Delete_File fd m)
  then show ?thesis using assms delete_file [of el fd m] by (auto simp: exec_call_def elim!: safe_bind)
next
  case (Get_File fd)
  then show ?thesis using assms get_file [of el fd]
    by (auto simp: exec_call_def keeps_refl elim!: safe_bind)
next
  case (Delete_Time i)
  then show ?thesis using delete_time [OF assms(2), of env i w] by (auto simp: exec_call_def split: prod.splits)
next
  case (Modify_Time i ms)
  then show ?thesis using modify_time [OF assms(2), of env i ms w] by (auto simp: exec_call_def split: prod.splits)
next
  case (Create_Time ms p d f)
  then show ?thesis using create_time [OF assms(2), of env ms p d f w] by (simp add: exec_call_def)
next
  case Stop
  then show ?thesis using assms(2) by (simp add: exec_call_def aeStop_def keeps_def state_ok_def loop_ok_def)
next
  case (Set_Sleep p)
  then show ?thesis
    using assms(2) by (simp add: exec_call_def aeSetBeforeSleepProc_def keeps_def state_ok_def loop_ok_def)
qed

lemma script_keeps:
  assumes "env_api env = A"
  shows "state_ok (fst st) \<Longrightarrow> script_ok sc \<Longrightarrow> safe (\<lambda>(st', r). keeps (fst st) (fst st')) (run_script env sc st)"
proof (induction sc arbitrary: st)
  case (Return r)
  then show ?case by (simp add: keeps_refl)
next
  case (Call c k)
  obtain el w where st: "st = (el, w)" by fastforce
  have "safe (\<lambda>((el', w), r). keeps el el') (exec_call env c (el, w))"
    using exec_call_ok [OF assms, of el c w] Call.prems st by simp
  then show ?case
    unfolding st run_script.simps
  proof (rule safe_bind, goal_cases)
    case (1 x)
    obtain el' w' r where x: "x = ((el', w'), r)" by (metis surj_pair)
    have k: "keeps el el'" using 1 x by simp
    have "safe (\<lambda>(st', r). keeps el' (fst st')) (run_script env (k r) (el', w'))"
      using Call.IH [of "k r" "(el', w')"] Call.prems(2) keeps_ok [OF k] by simp
    then show ?case unfolding x using keeps_trans [OF k] by (auto elim!: safe_mono)
  qed
qed

lemma call_back_keeps:
  assumes "env_api env = A" "client_ok env" "state_ok (fst st)"
  shows "safe (\<lambda>(st', r). keeps (fst st) (fst st')) (call_back env cb st)"
proof -
  obtain el w where st: "st = (el, w)" by fastforce
  obtain sc w' where sc: "env_call env cb w = (sc, w')" by fastforce
  then have "script_ok sc" using assms(2) by (metis client_ok_def fst_conv)
  then show ?thesis using script_keeps [OF assms(1), of "(el, w')" sc] assms(3)
    by (simp add: call_back_def st sc)
qed

lemma call_file_keeps:
  assumes "env_api env = A" "client_ok env" "state_ok (fst st)" "p \<noteq> None" "d \<noteq> None"
  shows "safe (\<lambda>st'. keeps (fst st) (fst st')) (call_file env p d fd m st)"
proof -
  obtain p' d' where "p = Some p'" "d = Some d'" using assms(4,5) by auto
  moreover have "safe (\<lambda>st'. keeps (fst st) (fst st')) (rbind (call_back env cb st) (\<lambda>(st', r). Inr st'))" for cb
    by (rule safe_bind [OF call_back_keeps [OF assms(1-3)]]) auto
  ultimately show ?thesis by (simp add: call_file_def)
qed

lemma fire_file_keeps:
  assumes "env_api env = A" "client_ok env" "state_ok (fst st)"
    "j < length (el_fired (fst st))" "el_fired (fst st) ! j = Some (fd, m)" "0 \<le> fd"
    "nat fd < length (el_events (fst st))"
  shows "safe (\<lambda>st'. keeps (fst st) (fst st')) (fire_file env j st)"
proof -
  let ?fe = "el_events (fst st) ! nat fd"
  have ok: "event_ok (el_events (fst s) ! nat fd)" if "keeps (fst st) (fst s)" for s
    using that assms(7) by (auto simp: keeps_def state_ok_def loop_ok_def list_all_length)
  have bits: "x AND (1 :: u32) \<noteq> 0" "y AND (1 :: u32) \<noteq> 0" if "x AND y AND (1 :: u32) \<noteq> 0" for x y
    using that by (auto simp: bit_eq_iff bit_simps)
  have bits2: "x AND (2 :: u32) \<noteq> 0" if "x AND y AND (2 :: u32) \<noteq> 0" for x y :: u32
    using that by (auto simp: bit_eq_iff bit_simps)
  have fe: "event_ok ?fe" using ok [of st] assms(3) by (simp add: keeps_refl)
  let ?r = "fe_mask ?fe AND m AND AE_READABLE \<noteq> 0"
  have read: "safe (\<lambda>st'. keeps (fst st) (fst st'))
      (if ?r then call_file env (fe_rproc ?fe) (fe_data ?fe) fd m st else Inr st)"
  proof (cases ?r)
    case True
    then have "fe_mask ?fe AND 1 \<noteq> 0" by (rule bits(1))
    then have "fe_rproc ?fe \<noteq> None" "fe_data ?fe \<noteq> None" using fe by (auto simp: event_ok_def)
    then show ?thesis using True call_file_keeps [OF assms(1-3)] by simp
  next
    case False
    then show ?thesis using keeps_refl [OF assms(3)] by simp
  qed
  have tail: "safe (\<lambda>st'. keeps (fst st) (fst st'))
     (rbind (rd (el_events (fst s)) (nat fd)) (\<lambda>fe'.
        if fe_mask fe' AND m AND AE_WRITABLE \<noteq> 0 \<and> (\<not> ?r \<or> fe_wproc fe' \<noteq> fe_rproc fe')
        then call_file env (fe_wproc fe') (fe_data fe') fd m s else Inr s))"
    if k: "keeps (fst st) (fst s)" for s
  proof -
    let ?f = "el_events (fst s) ! nat fd"
    have len: "nat fd < length (el_events (fst s))" using k assms(7) by (simp add: keeps_def)
    show ?thesis
    proof (cases "fe_mask ?f AND m AND AE_WRITABLE \<noteq> 0 \<and> (\<not> ?r \<or> fe_wproc ?f \<noteq> fe_rproc ?f)")
      case True
      then have "fe_mask ?f AND 2 \<noteq> 0" using bits2 by blast
      then have "fe_wproc ?f \<noteq> None" "fe_data ?f \<noteq> None" using ok [OF k] by (auto simp: event_ok_def)
      then have "safe (\<lambda>st'. keeps (fst s) (fst st')) (call_file env (fe_wproc ?f) (fe_data ?f) fd m s)"
        by (rule call_file_keeps [OF assms(1,2) keeps_ok [OF k]])
      then show ?thesis using True len keeps_trans [OF k] by (auto elim: safe_mono)
    next
      case False
      then show ?thesis using len k by (simp only: rd_ok rbind_Inr if_False safe_simps)
    qed
  qed
  have "fire_file env j st =
      rbind (if ?r then call_file env (fe_rproc ?fe) (fe_data ?fe) fd m st else Inr st) (\<lambda>st.
        rbind (rd (el_events (fst st)) (nat fd)) (\<lambda>fe'.
        if fe_mask fe' AND m AND AE_WRITABLE \<noteq> 0 \<and> (\<not> ?r \<or> fe_wproc fe' \<noteq> fe_rproc fe')
        then call_file env (fe_wproc fe') (fe_data fe') fd m st else Inr st))"
    using assms(4-7) by (simp add: fire_file_def rdi_ok Let_def)
  then show ?thesis using safe_bind [OF read tail] by simp
qed

lemma fire_files_keep:
  assumes "env_api env = A" "client_ok env"
    and "\<And>j. j \<in> set js \<Longrightarrow> j < length f \<and> (\<exists>fd m. f ! j = Some (fd, m) \<and> 0 \<le> fd \<and> nat fd < n)"
  shows "state_ok (fst st) \<Longrightarrow> el_fired (fst st) = f \<Longrightarrow> length (el_events (fst st)) = n \<Longrightarrow>
    safe (\<lambda>st'. keeps (fst st) (fst st')) (fire_files env js st)"
  using assms(3)
proof (induction js arbitrary: st)
  case (Cons j js)
  obtain fd m where "f ! j = Some (fd, m)" "0 \<le> fd" "nat fd < n" "j < length f" using Cons.prems(4) [of j] by auto
  then have "safe (\<lambda>st'. keeps (fst st) (fst st')) (fire_file env j st)"
    using fire_file_keeps [OF assms(1,2) Cons.prems(1)] Cons.prems(2,3) by simp
  then show ?case
    unfolding fire_files.simps
  proof (rule safe_bind, goal_cases)
    case (1 s)
    then have k: "keeps (fst st) (fst s)" by simp
    then have "el_fired (fst s) = f" "length (el_events (fst s)) = n"
      using Cons.prems(2,3) by (simp_all add: keeps_def)
    then have "safe (\<lambda>st'. keeps (fst s) (fst st')) (fire_files env js s)"
      using Cons.IH [OF keeps_ok [OF k]] Cons.prems(4) by simp
    then show ?case using keeps_trans [OF k] by (auto elim: safe_mono)
  qed
qed (simp add: keeps_refl)

lemma fire_timer_keeps:
  assumes "env_api env = A" "client_ok env" "state_ok (fst st)"
  shows "safe (\<lambda>st'. keeps (fst st) (fst st')) (fire_timer env te st)"
  unfolding fire_timer_def
proof (rule safe_bind [OF call_back_keeps [OF assms]], goal_cases)
  case (1 x)
  obtain el w r where x: "x = ((el, w), r)" by (metis surj_pair)
  then have k: "keeps (fst st) el" using 1 by simp
  then have ok: "state_ok el" by (rule keeps_ok)
  show ?case
    using keeps_trans [OF k set_keeps [OF ok]] keeps_trans [OF k delete_time [OF ok]]
    by (auto simp: x Let_def split: prod.splits option.splits)
qed

lemma timer_loop_keeps:
  "timer_loop env m n st = Some r \<Longrightarrow> env_api env = A \<Longrightarrow> client_ok env \<Longrightarrow> state_ok (fst st) \<Longrightarrow>
     safe (\<lambda>(st', n). keeps (fst st) (fst st')) r"
proof (induction env m n st r rule: timer_loop.raw_induct [rotated, consumes 1, case_names 1])
  case (1 loop env m n st r)
  note IH = 1(1) and step = 1(2) and env = 1(3,4) and ok = 1(5)
  obtain o' w where nd: "next_due env m (el_timers (fst st)) (snd st) = (o', w)" by fastforce
  show ?case
  proof (cases o')
    case None
    then show ?thesis using step nd keeps_refl [OF ok] by auto
  next
    case (Some te)
    have f: "safe (\<lambda>st'. keeps (fst st) (fst st')) (fire_timer env te (fst st, w))"
      using fire_timer_keeps [OF env, of "(fst st, w)"] ok by simp
    show ?thesis
    proof (cases "fire_timer env te (fst st, w)")
      case (Inl e)
      then show ?thesis using step nd Some f by auto
    next
      case (Inr st')
      then have k: "keeps (fst st) (fst st')" using f by simp
      have "loop env m (n + 1) st' = Some r" using step nd Some Inr by simp
      then have "safe (\<lambda>(s, n). keeps (fst st') (fst s)) r" by (rule IH [OF _ env keeps_ok [OF k]])
      then show ?thesis using keeps_trans [OF k] by (auto elim: safe_mono)
    qed
  qed
qed

lemma time_events_keep:
  assumes "env_api env = A" "client_ok env" "processTimeEvents env st = Some r" "state_ok (fst st)"
  shows "safe (\<lambda>(st', n). keeps (fst st) (fst st')) r"
proof -
  obtain el w where st: "st = (el, w)" by fastforce
  obtain now w' where c: "env_clock env w = (now, w')" by fastforce
  let ?ts = "if now < el_last el then map (\<lambda>te. te\<lparr>te_sec := 0\<rparr>) (el_timers el) else el_timers el"
  let ?el = "el\<lparr>el_timers := ?ts, el_last := now\<rparr>"
  have "timers_ok (el_next el) ?ts"
    using state_timers [of el] assms(4) st timers_ok_ids [of ?ts "el_timers el"] by (simp add: comp_def)
  then have k: "keeps el ?el" using assms(4) st by (simp add: keeps_def state_ok_def loop_ok_def)
  have "timer_loop env (el_next el - 1) 0 (?el, w') = Some r"
    using assms(3) by (simp add: processTimeEvents_def st c Let_def)
  then have "safe (\<lambda>(st', n). keeps ?el (fst st')) r"
    using timer_loop_keeps [OF _ assms(1,2)] keeps_ok [OF k] by fastforce
  then show ?thesis unfolding st using keeps_trans [OF k] by (auto elim: safe_mono)
qed

text \<open>Polling replaces the fired events, so only the invariant is kept.\<close>

lemma poll_keeps:
  assumes "env_api env = A" "client_ok env" "state_ok (fst st)"
  shows "safe (\<lambda>(st', n). state_ok (fst st')) (poll_and_fire env flags st)"
proof -
  obtain el w where st: "st = (el, w)" by fastforce
  obtain tvp w' where t: "poll_timeout env flags (el, w) = (tvp, w')" by fastforce
  let ?poll = "api_poll A (el_maxfd el) (el_masks el) (el_fired el) (el_api el) tvp"
  have ok: "state_ok el" using assms(3) st by simp
  have p: "safe (\<lambda>(k', f', n). sync (el_masks el) k' \<and> length f' = length (el_fired el) \<and> n \<le> length (el_fired el) \<and>
      (\<forall>j<n. \<exists>fd m. f' ! j = Some (fd, m) \<and> 0 \<le> fd \<and> nat fd < length (el_masks el))) ?poll"
    by (rule poll_law) (use ok max_registered_range [of "el_events el"] in \<open>auto simp: state_ok_def loop_ok_def\<close>)
  have "safe (\<lambda>(st', n). state_ok (fst st'))
      (rbind ?poll (\<lambda>(k, fired, n). rbind (fire_files env [0..<n] (el\<lparr>el_api := k, el_fired := fired\<rparr>, w'))
        (\<lambda>st. Inr (st, int n))))"
  proof (rule safe_bind [OF p], goal_cases)
    case (1 x)
    obtain k f n where x: "x = (k, f, n)" by (metis surj_pair)
    let ?el = "el\<lparr>el_api := k, el_fired := f\<rparr>"
    have "state_ok ?el" using ok 1 x by (simp add: state_ok_def loop_ok_def)
    then have "safe (\<lambda>st'. keeps ?el (fst st')) (fire_files env [0..<n] (?el, w'))"
      using fire_files_keep [OF assms(1,2), of "[0..<n]" f "length (el_events el)" "(?el, w')"] 1 x by auto
    then have "safe (\<lambda>(st', n). state_ok (fst st'))
        (rbind (fire_files env [0..<n] (?el, w')) (\<lambda>st. Inr (st, int n)))"
      by (rule safe_bind) (auto intro: keeps_ok)
    then show ?case by (simp add: x)
  qed
  then show ?thesis using assms(1) by (simp add: poll_and_fire_def st t)
qed

lemma process_keeps:
  assumes "env_api env = A" "client_ok env" "state_ok (fst st)" "aeProcessEvents env flags st = Some r"
  shows "safe (\<lambda>(st', n). state_ok (fst st')) r"
proof -
  define p where "p = (if el_maxfd (fst st) \<noteq> - 1 \<or> flags AND AE_TIME_EVENTS \<noteq> 0 \<and> flags AND AE_DONT_WAIT = 0
      then poll_and_fire env flags st else Inr (st, 0))"
  have p: "safe (\<lambda>(st', n). state_ok (fst st')) p"
    using poll_keeps [OF assms(1-3)] assms(3) by (simp add: p_def)
  show ?thesis
  proof (cases "flags AND AE_TIME_EVENTS = 0 \<and> flags AND AE_FILE_EVENTS = 0")
    case True
    then have "r = Inr (st, 0)" using assms(4) by (simp add: aeProcessEvents_def)
    then show ?thesis using assms(3) by simp
  next
    case False
    then have f: "(case p of Inl e \<Rightarrow> Some (Inl e) | Inr (st, processed) \<Rightarrow>
          if flags AND AE_TIME_EVENTS = 0 then Some (Inr (st, processed))
          else map_option (\<lambda>r. rbind r (\<lambda>(st, n). Inr (st, processed + n))) (processTimeEvents env st)) = Some r"
      using assms(4) unfolding aeProcessEvents_def p_def [symmetric] by (simp only: if_False)
    show ?thesis
    proof (cases p)
      case (Inl e)
      then show ?thesis using f p by auto
    next
      case (Inr x)
      obtain s n where x: "x = (s, n)" by fastforce
      then have s: "state_ok (fst s)" using p Inr by simp
      have "safe (\<lambda>(st', n). state_ok (fst st')) (rbind r' (\<lambda>(st, n'). Inr (st, n + n')))"
        if "processTimeEvents env s = Some r'" for r'
        using time_events_keep [OF assms(1,2) that s] by (rule safe_bind) (auto intro: keeps_ok)
      then show ?thesis using f s by (auto simp: Inr x split: if_splits)
    qed
  qed
qed

lemma main_loop_keeps:
  "main_loop env st = Some r \<Longrightarrow> env_api env = A \<Longrightarrow> client_ok env \<Longrightarrow> state_ok (fst st) \<Longrightarrow>
     safe (\<lambda>st'. state_ok (fst st') \<and> el_stop (fst st')) r"
proof (induction env st r rule: main_loop.raw_induct [rotated, consumes 1, case_names 1])
  case (1 loop env st r)
  note IH = 1(1) and step = 1(2) and env = 1(3,4) and ok = 1(5)
  define b where "b = (case el_sleep (fst st) of None \<Rightarrow> Inr (st, 0) | Some p \<Rightarrow> call_back env (Sleep_cb p) st)"
  have b: "safe (\<lambda>(st', n). state_ok (fst st')) b"
    using safe_mono [OF call_back_keeps [OF env ok], of "\<lambda>(st', n). state_ok (fst st')"] ok
    unfolding b_def by (auto simp: keeps_ok split: option.splits)
  show ?case
  proof (cases "el_stop (fst st)")
    case True
    then show ?thesis using step ok by auto
  next
    case False
    then have f: "(case b of Inl e \<Rightarrow> Some (Inl e) | Inr (st, _) \<Rightarrow>
        Option.bind (aeProcessEvents env AE_ALL_EVENTS st) (\<lambda>r. case r of Inl e \<Rightarrow> Some (Inl e)
          | Inr (st, _) \<Rightarrow> loop env st)) = Some r"
      using step unfolding b_def by simp
    show ?thesis
    proof (cases b)
      case (Inl e)
      then show ?thesis using f b by auto
    next
      case (Inr x)
      obtain s n where x: "x = (s, n)" by fastforce
      then have s: "state_ok (fst s)" using b Inr by simp
      obtain q where q: "aeProcessEvents env AE_ALL_EVENTS s = Some q" using f Inr x by (auto simp: bind_eq_Some_conv)
      note pk = process_keeps [OF env s q]
      show ?thesis using f pk IH [OF _ env] by (cases q) (auto simp: Inr x q)
    qed
  qed
qed

end

end
