(* ===== verification/TF_AE_Timers.thy ===== *)
theory TF_AE_Timers
  imports TF_AE_Inv
begin

text \<open>
  The time events of \<open>ae/ae.c\<close>: deadlines, the nearest timer and the time to sleep, and the pass of
  \<open>processTimeEvents\<close>.  The pass is shown to end, and to leave no event due, when the clock stands
  still during it and no callback asks to be called again at once; a callback that asks for zero
  milliseconds is shown to keep it busy for ever.
\<close>

section \<open>Deadlines\<close>

lemma smod_1000: "0 \<le> (x :: int) \<Longrightarrow> x sdiv 1000 = x div 1000 \<and> x smod 1000 = x mod 1000"
  by (cases "x = 0") (simp_all add: signed_divide_int_def signed_modulo_int_def)

text \<open>The deadline is the given number of milliseconds from now, with the milliseconds below 1000.\<close>

lemma add_ms_value:
  "fst (add_ms s ms d) * 1000 + snd (add_ms s ms d) = s * 1000 + ms + d"
proof -
  have "d sdiv 1000 * 1000 + d smod 1000 = d" by (rule sdiv_mult_smod_eq)
  then show ?thesis by (simp add: add_ms_def Let_def)
qed

lemma add_ms_bounds:
  "0 \<le> d \<Longrightarrow> 0 \<le> ms \<Longrightarrow> ms < 1000 \<Longrightarrow> 0 \<le> snd (add_ms s ms d) \<and> snd (add_ms s ms d) < 1000"
  using smod_1000 [of d] pos_mod_bound [of 1000 d] by (auto simp: add_ms_def Let_def)

definition te_time :: "time_event \<Rightarrow> int" where
  "te_time te = te_sec te * 1000 + te_ms te"

definition ms_ok :: "int \<Rightarrow> bool" where
  "ms_ok ms \<longleftrightarrow> 0 \<le> ms \<and> ms < 1000"

lemma te_due_time: "ms_ok (te_ms te) \<Longrightarrow> ms_ok (snd now) \<Longrightarrow> te_due te now \<longleftrightarrow> te_time te \<le> fst now * 1000 + snd now"
  unfolding te_due_def te_time_def ms_ok_def by linarith

lemma te_before_time: "ms_ok (te_ms a) \<Longrightarrow> ms_ok (te_ms b) \<Longrightarrow> te_before a b \<longleftrightarrow> te_time a < te_time b"
  unfolding te_before_def te_time_def ms_ok_def by linarith

lemma nearest_loop_min:
  "nearest_loop n0 ts = r \<Longrightarrow> (\<forall>te \<in> set ts. ms_ok (te_ms te)) \<Longrightarrow> (\<forall>n. n0 = Some n \<longrightarrow> ms_ok (te_ms n)) \<Longrightarrow>
     (r = None \<longleftrightarrow> n0 = None \<and> ts = []) \<and>
     (\<forall>n. r = Some n \<longrightarrow> (n \<in> set ts \<or> n0 = Some n) \<and> (\<forall>te \<in> set ts. te_time n \<le> te_time te) \<and>
        (\<forall>m. n0 = Some m \<longrightarrow> te_time n \<le> te_time m))"
proof (induction n0 ts arbitrary: r rule: nearest_loop.induct)
  case (2 n0 te ts)
  show ?case
  proof (cases n0)
    case None
    then show ?thesis using 2 by auto
  next
    case (Some m)
    have ok: "ms_ok (te_ms te)" "ms_ok (te_ms m)" using 2(3,4) Some by auto
    show ?thesis
    proof (cases "te_before te m")
      case True
      then have "te_time te < te_time m" using te_before_time ok by simp
      then show ?thesis using 2 Some True by fastforce
    next
      case False
      then have "te_time m \<le> te_time te" using te_before_time [OF ok] by simp
      then show ?thesis using 2 Some False by fastforce
    qed
  qed
qed simp

lemma nearest_min:
  assumes "\<forall>te \<in> set (el_timers el). ms_ok (te_ms te)" "el_timers el \<noteq> []"
  shows "\<exists>te \<in> set (el_timers el). aeSearchNearestTimer el = Some te \<and> (\<forall>te' \<in> set (el_timers el). te_time te \<le> te_time te')"
  using nearest_loop_min [OF refl assms(1), of None] assms(2) unfolding aeSearchNearestTimer_def by fastforce

lemma timer_timeout_value:
  assumes "ms_ok (te_ms te)" "ms_ok ms"
  shows "fst (timer_timeout te (s, ms)) * 1000000 + snd (timer_timeout te (s, ms)) =
    1000 * (let d = te_time te - (s * 1000 + ms) in if 0 \<le> d then d else d mod 1000)"
proof -
  have "te_time te - (s * 1000 + ms) = (te_ms te - ms) + (te_sec te - s) * 1000" by (simp add: te_time_def)
  then have m: "(te_time te - (s * 1000 + ms)) mod 1000 = (te_ms te - ms) mod 1000" by (simp only: mod_mult_self1)
  have b: "0 \<le> te_ms te" "te_ms te < 1000" "0 \<le> ms" "ms < 1000" using assms by (auto simp: ms_ok_def)
  show ?thesis
  proof (cases "te_ms te < ms")
    case True
    have "(te_ms te - ms) mod 1000 = (te_ms te - ms + 1000) mod 1000" by simp
    also have "\<dots> = te_ms te - ms + 1000" using b True by (intro mod_pos_pos_trivial) auto
    finally have "(te_ms te - ms) mod 1000 = te_ms te - ms + 1000" .
    then show ?thesis using b True m by (simp add: timer_timeout_def te_time_def Let_def)
  next
    case False
    then have "(te_ms te - ms) mod 1000 = te_ms te - ms" using b by (intro mod_pos_pos_trivial) auto
    then show ?thesis using b False m by (simp add: timer_timeout_def te_time_def Let_def)
  qed
qed

section \<open>The pass over the time events\<close>

text \<open>The clock stands still, and a callback neither moves a deadline nor asks for no delay.\<close>

definition frozen :: "('k, 'w) ae_env \<Rightarrow> int \<times> int \<Rightarrow> bool" where
  "frozen env now \<longleftrightarrow> ms_ok (snd now) \<and> (\<forall>w. aeGetTime env w = (now, w))"

fun is_modify :: "ae_call \<Rightarrow> bool" where
  "is_modify (Modify_Time _ _) = True"
| "is_modify _ = False"

primrec polite :: "script \<Rightarrow> bool" where
  "polite (Return r) \<longleftrightarrow> r = AE_NOMORE \<or> 1 \<le> r"
| "polite (Call c k) \<longleftrightarrow> \<not> is_modify c \<and> (\<forall>r. polite (k r))"

definition patient :: "('k, 'w) ae_env \<Rightarrow> bool" where
  "patient env \<longleftrightarrow> (\<forall>cb w. polite (fst (env_call env cb w)))"

definition due_ids :: "int \<Rightarrow> int \<times> int \<Rightarrow> time_event list \<Rightarrow> int set" where
  "due_ids m now ts = te_id ` {te \<in> set ts. te_id te \<le> m \<and> te_due te now}"

lemma finite_due_ids [simp]: "finite (due_ids m now ts)"
  by (simp add: due_ids_def)

lemma next_due_frozen:
  "frozen env now \<Longrightarrow> next_due env m ts w = (find (\<lambda>te. te_id te \<le> m \<and> te_due te now) ts, w)"
  by (induction ts) (auto simp: frozen_def Let_def)

text \<open>What every call keeps of the timers.\<close>

definition timers_inv :: "int \<Rightarrow> 'k ae_loop \<Rightarrow> bool" where
  "timers_inv m el \<longleftrightarrow> timers_ok (el_next el) (el_timers el) \<and> m < el_next el"

definition shrinks :: "int \<Rightarrow> int \<times> int \<Rightarrow> 'k ae_loop \<Rightarrow> 'k ae_loop \<Rightarrow> bool" where
  "shrinks m now el el' \<longleftrightarrow> timers_inv m el' \<and> due_ids m now (el_timers el') \<subseteq> due_ids m now (el_timers el)"

lemma shrinks_refl: "timers_inv m el \<Longrightarrow> shrinks m now el el"
  by (simp add: shrinks_def)

lemma shrinks_trans: "shrinks m now a b \<Longrightarrow> shrinks m now b c \<Longrightarrow> shrinks m now a c"
  by (auto simp: shrinks_def)

lemma shrinks_same:
  "timers_inv m el \<Longrightarrow> el_timers el' = el_timers el \<Longrightarrow> el_next el' = el_next el \<Longrightarrow> shrinks m now el el'"
  by (simp add: shrinks_def timers_inv_def)

lemma create_file_timers:
  "aeCreateFileEvent A el fd m p d = Inr (el', r) \<Longrightarrow> el_timers el' = el_timers el \<and> el_next el' = el_next el"
  by (auto simp: aeCreateFileEvent_def rbind_eq_Inr split: if_splits)

lemma delete_file_timers:
  "aeDeleteFileEvent A el fd m = Inr el' \<Longrightarrow> el_timers el' = el_timers el \<and> el_next el' = el_next el"
  by (auto simp: aeDeleteFileEvent_def rbind_eq_Inr Let_def split: if_splits)

lemma create_time_shrinks:
  assumes "timers_inv m el" "aeCreateTimeEvent env ms p d f (el, w) = Inr ((el', w'), r)"
  shows "shrinks m now el el'"
proof -
  obtain t w1 where t: "aeAddMillisecondsToNow env ms w = (t, w1)" by fastforce
  have "el' = el\<lparr>el_next := el_next el + 1, el_timers :=
      \<lparr>te_id = el_next el, te_sec = fst t, te_ms = snd t, te_proc = p, te_fin = f, te_data = d\<rparr> # el_timers el\<rparr>"
    using assms(2) by (cases t) (auto simp: aeCreateTimeEvent_def rbind_eq_Inr chk_i64_def t Let_def split: if_splits)
  then show ?thesis using assms(1) by (auto simp: shrinks_def timers_inv_def timers_ok_def due_ids_def)
qed

lemma remove_due:
  assumes "te_remove i ts = Some (d, ts')" "distinct (map te_id ts)"
  shows "due_ids m now ts' = due_ids m now ts - {i}"
  using te_remove_Some [OF assms(1)] assms(2) by (auto simp: due_ids_def)

lemma delete_time_shrinks:
  assumes "timers_inv m el" "aeDeleteTimeEvent env i (el, w) = ((el', w'), r)"
  shows "shrinks m now el el' \<and> i \<notin> due_ids m now (el_timers el')"
proof (cases "te_remove i (el_timers el)")
  case None
  then have "el' = el" using assms(2) by (simp add: aeDeleteTimeEvent_def)
  moreover have "i \<notin> te_id ` set (el_timers el)" using None te_remove_None by blast
  ultimately show ?thesis using assms(1) by (auto simp: shrinks_def due_ids_def)
next
  case (Some x)
  obtain d ts where x: "x = (d, ts)" by fastforce
  have "el' = el\<lparr>el_timers := ts\<rparr>" using assms(2) by (simp add: aeDeleteTimeEvent_def Some x)
  moreover have "due_ids m now ts = due_ids m now (el_timers el) - {i}"
    using remove_due Some x assms(1) by (auto simp: timers_inv_def timers_ok_def)
  ultimately show ?thesis
    using assms(1) timers_ok_remove [of i "el_timers el" d ts "el_next el"] Some x by (simp add: shrinks_def timers_inv_def)
qed

lemma exec_call_shrinks:
  assumes "timers_inv m el" "\<not> is_modify c" "exec_call env c (el, w) = Inr ((el', w'), r)"
  shows "shrinks m now el el'"
proof (cases c)
  case (Create_File fd ms p d)
  then show ?thesis using assms create_file_timers [of "env_api env" el fd ms p d el']
    by (auto simp: exec_call_def rbind_eq_Inr intro!: shrinks_same)
next
  case (Delete_File fd ms)
  then show ?thesis using assms delete_file_timers [of "env_api env" el fd ms el']
    by (auto simp: exec_call_def rbind_eq_Inr intro!: shrinks_same)
next
  case (Get_File fd)
  then show ?thesis using assms by (auto simp: exec_call_def rbind_eq_Inr intro!: shrinks_same)
next
  case (Create_Time ms p d f)
  then show ?thesis using assms create_time_shrinks [of m el env ms p d f w el' w' r now] by (simp add: exec_call_def)
next
  case (Delete_Time i)
  then show ?thesis using assms delete_time_shrinks [of m el env i w el' w' r now] by (simp add: exec_call_def)
next
  case Stop
  then show ?thesis using assms by (auto simp: exec_call_def aeStop_def intro!: shrinks_same)
next
  case (Set_Sleep p)
  then show ?thesis using assms by (auto simp: exec_call_def aeSetBeforeSleepProc_def intro!: shrinks_same)
next
  case (Modify_Time i ms)
  then show ?thesis using assms(2) by simp
qed

lemma script_shrinks:
  "timers_inv m (fst st) \<Longrightarrow> polite sc \<Longrightarrow> run_script env sc st = Inr (st', r) \<Longrightarrow>
     shrinks m now (fst st) (fst st') \<and> (r = AE_NOMORE \<or> 1 \<le> r)"
proof (induction sc arbitrary: st)
  case (Return r)
  then show ?case by (auto simp: shrinks_def)
next
  case (Call c k)
  obtain el w where st: "st = (el, w)" by fastforce
  obtain st1 r1 where e: "exec_call env c (el, w) = Inr (st1, r1)" "run_script env (k r1) st1 = Inr (st', r)"
    using Call.prems(3) by (auto simp: st rbind_eq_Inr)
  have "shrinks m now el (fst st1)"
    using exec_call_shrinks [of m el c env w "fst st1" "snd st1" r1] Call.prems(1,2) e(1) by (simp add: st)
  then show ?case
    using Call.IH [of "k r1" st1] Call.prems(2) e(2) shrinks_trans [of m now el "fst st1" "fst st'"]
    by (simp add: st shrinks_def)
qed

text \<open>Firing a due event takes it out of the due ones.\<close>

lemma set_due:
  assumes "te_set i t ts = Some ts'" "distinct (map te_id ts)"
    and t: "\<And>te. \<not> te_due (te\<lparr>te_sec := fst t, te_ms := snd t\<rparr>) now"
  shows "due_ids m now ts' \<subseteq> due_ids m now ts - {i}"
  using te_set_Some [OF assms(1,2)] t by (auto simp: due_ids_def split: if_splits)

lemma fire_timer_shrinks:
  assumes "frozen env now" "patient env" "timers_inv m (fst st)" "fire_timer env te st = Inr st'"
  shows "timers_inv m (fst st') \<and> due_ids m now (el_timers (fst st')) \<subseteq> due_ids m now (el_timers (fst st)) - {te_id te}"
proof -
  obtain el w where st: "st = (el, w)" by fastforce
  let ?cb = "Time_cb (te_proc te) (te_id te) (te_data te)"
  obtain sc w1 where sc: "env_call env ?cb w = (sc, w1)" by fastforce
  obtain el2 w2 r where r: "run_script env sc (el, w1) = Inr ((el2, w2), r)"
    using assms(4) by (cases "run_script env sc (el, w1)") (auto simp: fire_timer_def call_back_def st sc)
  have "polite sc" using assms(2) sc by (metis patient_def fst_conv)
  then have s: "shrinks m now el el2" and rr: "r = AE_NOMORE \<or> 1 \<le> r"
    using script_shrinks [of m "(el, w1)" sc env "(el2, w2)" r now] assms(3) r by (simp_all add: st)
  show ?thesis
  proof (cases "r = AE_NOMORE")
    case True
    obtain el3 w3 r3 where d: "aeDeleteTimeEvent env (te_id te) (el2, w2) = ((el3, w3), r3)" by (metis surj_pair)
    then have "st' = (el3, w3)" using assms(4) r True by (simp add: fire_timer_def call_back_def st sc)
    then show ?thesis using delete_time_shrinks [OF _ d, of m now] s unfolding st by (auto simp: shrinks_def)
  next
    case False
    define t where "t = add_ms (fst now) (snd now) r"
    have now: "ms_ok (snd now)" "aeAddMillisecondsToNow env r w2 = (t, w2)"
      using assms(1) by (simp_all add: frozen_def aeAddMillisecondsToNow_def t_def split_beta)
    have "ms_ok (snd t)" using add_ms_bounds [of r "snd now"] now(1) rr False by (simp add: t_def ms_ok_def)
    then have nd: "\<not> te_due (e\<lparr>te_sec := fst t, te_ms := snd t\<rparr>) now" for e
      using add_ms_value [of "fst now" "snd now" r] rr False now(1)
      by (subst te_due_time) (auto simp: te_time_def t_def)
    obtain ts where ts: "te_set (te_id te) t (el_timers el2) = Some ts" "st' = (el2\<lparr>el_timers := ts\<rparr>, w2)"
      using assms(4) r False now(2) by (auto simp: fire_timer_def call_back_def st sc split: option.splits)
    have "distinct (map te_id (el_timers el2))" using s by (simp add: shrinks_def timers_inv_def timers_ok_def)
    then have "due_ids m now ts \<subseteq> due_ids m now (el_timers el2) - {te_id te}" using set_due ts(1) nd by blast
    moreover have "timers_inv m (el2\<lparr>el_timers := ts\<rparr>)"
      using s timers_ok_ids [OF te_set_ids [OF ts(1)]] by (simp add: shrinks_def timers_inv_def)
    ultimately show ?thesis using s unfolding st ts(2) by (auto simp: shrinks_def)
  qed
qed

text \<open>
  What is seen of the calls of the time events: an observation of the world to which every call of an event
  adds its identifier, and that the clock and the finalizers leave alone.
\<close>

definition observes :: "('k, 'w) ae_env \<Rightarrow> ('w \<Rightarrow> int list) \<Rightarrow> bool" where
  "observes env obs \<longleftrightarrow> (\<forall>w. obs (snd (env_clock env w)) = obs w) \<and> (\<forall>f d w. obs (env_final env f d w) = obs w) \<and>
     (\<forall>p i d w. obs (snd (env_call env (Time_cb p i d) w)) = obs w @ [i])"

lemma observes_final: "observes env obs \<Longrightarrow> obs (env_final env f d w) = obs w"
  by (simp add: observes_def)

lemma observes_call: "observes env obs \<Longrightarrow> env_call env (Time_cb p i d) w = (sc, w') \<Longrightarrow> obs w' = obs w @ [i]"
  unfolding observes_def by (metis snd_conv)

lemma delete_time_seen:
  "observes env obs \<Longrightarrow> aeDeleteTimeEvent env i (el, w) = ((el', w'), r) \<Longrightarrow> obs w' = obs w"
  by (auto simp: aeDeleteTimeEvent_def observes_final split: option.splits)

lemma add_now_frozen: "frozen env now \<Longrightarrow> snd (aeAddMillisecondsToNow env ms w) = w"
  by (simp add: frozen_def aeAddMillisecondsToNow_def split_beta)

lemma create_time_seen:
  "frozen env now \<Longrightarrow> aeCreateTimeEvent env ms p d f (el, w) = Inr ((el', w'), r) \<Longrightarrow> w' = w"
  using add_now_frozen [of env now ms w]
  by (cases "aeAddMillisecondsToNow env ms w") (auto simp: aeCreateTimeEvent_def rbind_eq_Inr Let_def split_beta)

lemma exec_call_seen:
  assumes "observes env obs" "frozen env now" "\<not> is_modify c" "exec_call env c (el, w) = Inr ((el', w'), r)"
  shows "obs w' = obs w"
proof (cases c)
  case (Create_Time ms p d f)
  then show ?thesis using assms(4) create_time_seen [OF assms(2), of ms p d f el w el' w' r] by (simp add: exec_call_def)
next
  case (Delete_Time i)
  then show ?thesis using assms(4) delete_time_seen [OF assms(1), of i el w el' w' r] by (simp add: exec_call_def)
next
  case (Modify_Time i ms)
  then show ?thesis using assms(3) by simp
qed (use assms(4) in \<open>auto simp: exec_call_def rbind_eq_Inr\<close>)

lemma script_seen:
  "observes env obs \<Longrightarrow> frozen env now \<Longrightarrow> polite sc \<Longrightarrow> run_script env sc st = Inr (st', r) \<Longrightarrow> obs (snd st') = obs (snd st)"
proof (induction sc arbitrary: st)
  case (Return r)
  then show ?case by simp
next
  case (Call c k)
  obtain el w where st: "st = (el, w)" by fastforce
  obtain st1 r1 where e: "exec_call env c (el, w) = Inr (st1, r1)" "run_script env (k r1) st1 = Inr (st', r)"
    using Call.prems(4) by (auto simp: st rbind_eq_Inr)
  have "obs (snd st1) = obs w"
    using exec_call_seen [of env obs now c el w "fst st1" "snd st1" r1] Call.prems(1-3) e(1) by simp
  then show ?case using Call.IH [of "k r1" st1] Call.prems(1-3) e(2) by (simp add: st)
qed

lemma fire_timer_seen:
  assumes "observes env obs" "frozen env now" "patient env" "fire_timer env te st = Inr st'"
  shows "obs (snd st') = obs (snd st) @ [te_id te]"
proof -
  obtain el w where st: "st = (el, w)" by fastforce
  let ?cb = "Time_cb (te_proc te) (te_id te) (te_data te)"
  obtain sc w1 where sc: "env_call env ?cb w = (sc, w1)" by fastforce
  obtain el2 w2 r where r: "run_script env sc (el, w1) = Inr ((el2, w2), r)"
    using assms(4) by (cases "run_script env sc (el, w1)") (auto simp: fire_timer_def call_back_def st sc)
  have "polite sc" using assms(3) sc by (metis patient_def fst_conv)
  then have w2: "obs w2 = obs w @ [te_id te]"
    using script_seen [OF assms(1,2) _ r] observes_call [OF assms(1) sc] by simp
  show ?thesis
  proof (cases "r = AE_NOMORE")
    case True
    obtain el3 w3 r3 where d: "aeDeleteTimeEvent env (te_id te) (el2, w2) = ((el3, w3), r3)" by (metis surj_pair)
    then have "st' = (el3, w3)" using assms(4) r True by (simp add: fire_timer_def call_back_def st sc)
    then show ?thesis using delete_time_seen [OF assms(1) d] w2 st by simp
  next
    case False
    then have "snd st' = w2"
      using assms(4) r add_now_frozen [OF assms(2), of r w2]
      by (auto simp: fire_timer_def call_back_def st sc split: option.splits prod.splits)
    then show ?thesis using w2 st by simp
  qed
qed

text \<open>
  The loop with the identifiers it calls, \<open>is\<close>: each was due when the loop began, none is called twice.
\<close>

definition fired :: "('k, 'w) ae_env \<Rightarrow> int set \<Rightarrow> 'w \<Rightarrow> 'w \<Rightarrow> int list \<Rightarrow> bool" where
  "fired env D w w' is \<longleftrightarrow> distinct is \<and> set is \<subseteq> D \<and> (\<forall>obs. observes env obs \<longrightarrow> obs w' = obs w @ is)"

lemma fired_none: "fired env D w w []"
  by (simp add: fired_def)

lemma fired_first:
  assumes "fired env D' w1 w2 is" "D' \<subseteq> D - {i}" "i \<in> D" "\<And>obs. observes env obs \<Longrightarrow> obs w1 = obs w @ [i]"
  shows "fired env D w w2 (i # is)"
  using assms unfolding fired_def by auto

lemma timer_loop_ends:
  assumes "frozen env now" "patient env"
  shows "timers_inv m (fst st) \<Longrightarrow>
    \<exists>r. timer_loop env m n st = Some r \<and>
      (\<forall>st' n'. r = Inr (st', n') \<longrightarrow>
         due_ids m now (el_timers (fst st')) = {} \<and>
         (\<exists>is. fired env (due_ids m now (el_timers (fst st))) (snd st) (snd st') is \<and> n' = n + int (length is)))"
proof (induction "card (due_ids m now (el_timers (fst st)))" arbitrary: st n rule: less_induct)
  case less
  let ?due = "\<lambda>te. te_id te \<le> m \<and> te_due te now"
  obtain el w where st: "st = (el, w)" by fastforce
  note nd = next_due_frozen [OF assms(1), of m "el_timers el" w]
  show ?case
  proof (cases "find ?due (el_timers el)")
    case None
    then have "due_ids m now (el_timers el) = {}" by (auto simp: due_ids_def find_None_iff)
    then show ?thesis using None nd fired_none by (subst timer_loop.simps) (fastforce simp: st)
  next
    case (Some te)
    then have te: "te_id te \<in> due_ids m now (el_timers el)"
      by (auto simp: due_ids_def find_Some_iff intro!: image_eqI [of _ _ te])
    have eq: "timer_loop env m n st = (case fire_timer env te (el, w) of Inl e \<Rightarrow> Some (Inl e)
        | Inr st' \<Rightarrow> timer_loop env m (n + 1) st')"
      by (subst timer_loop.simps) (simp add: st nd Some)
    show ?thesis
    proof (cases "fire_timer env te (el, w)")
      case (Inl e)
      then show ?thesis by (simp add: eq)
    next
      case (Inr st1)
      then have f: "timers_inv m (fst st1)"
        "due_ids m now (el_timers (fst st1)) \<subseteq> due_ids m now (el_timers el) - {te_id te}"
        using fire_timer_shrinks [OF assms, of m "(el, w)" te st1] less.prems st by simp_all
      then have "card (due_ids m now (el_timers (fst st1))) < card (due_ids m now (el_timers el))"
        using te by (intro psubset_card_mono) auto
      then obtain r where r: "timer_loop env m (n + 1) st1 = Some r"
        "\<And>st' n'. r = Inr (st', n') \<Longrightarrow> due_ids m now (el_timers (fst st')) = {} \<and>
          (\<exists>is. fired env (due_ids m now (el_timers (fst st1))) (snd st1) (snd st') is \<and> n' = n + 1 + int (length is))"
        using less.hyps [of st1 "n + 1"] f(1) by (fastforce simp: st)
      have first: "fired env (due_ids m now (el_timers el)) w w' (te_id te # is)"
        if "fired env (due_ids m now (el_timers (fst st1))) (snd st1) w' is" for w' "is"
        using fired_first [OF that f(2) te] fire_timer_seen [OF _ assms Inr] by simp
      then have "\<exists>is. fired env (due_ids m now (el_timers el)) w w' is \<and> n' = n + int (length is)"
        if h: "\<exists>is. fired env (due_ids m now (el_timers (fst st1))) (snd st1) w' is \<and> n' = n + 1 + int (length is)" for w' n'
      proof -
        obtain ids where "fired env (due_ids m now (el_timers (fst st1))) (snd st1) w' ids" "n' = n + 1 + int (length ids)"
          using h by blast
        then show ?thesis using first [of w' ids] by (intro exI [of _ "te_id te # ids"]) simp
      qed
      moreover have "timer_loop env m n st = Some r" using r(1) by (simp add: eq Inr)
      ultimately show ?thesis using r(2) by (intro exI [of _ r]) (simp add: st)
    qed
  qed
qed

end
