(* ===== verification/TF_AE_Backends.thy ===== *)
theory TF_AE_Backends
  imports TF_AE_Inv
begin

text \<open>
  The four polling layers: \<open>ae_select.c\<close>, \<open>ae_epoll.c\<close>, \<open>ae_kqueue.c\<close> and \<open>ae_evport.c\<close>.  The system
  calls are arguments that act on a state of the kernel; what their manuals promise is stated as the
  predicates \<open>epoll_doc\<close>, \<open>kqueue_doc\<close> and \<open>port_doc\<close>.  The sets of \<open>select\<close> live in the process
  and need no promise.  Memory for the layer's own state is taken as allocated.
\<close>

section \<open>Reporting events\<close>

text \<open>The loop that copies what the kernel reports into \<open>fired\<close>.\<close>

fun fill_fired :: "nat list \<Rightarrow> (int \<times> mask) list \<Rightarrow> fired \<Rightarrow> c_error + fired" where
  "fill_fired [] es f = Inr f"
| "fill_fired (j # js) es f = rbind (rd es j) (\<lambda>e. rbind (wr f j (Some e)) (fill_fired js es))"

section \<open>select\<close>

definition FD_SETSIZE :: int where "FD_SETSIZE = 1024"

record 'q select_state =
  sl_rfds :: "int set"
  sl_wfds :: "int set"
  sl_rfds2 :: "int set"
  sl_wfds2 :: "int set"
  sl_kern :: 'q

definition fd_change :: "(int \<Rightarrow> int set \<Rightarrow> int set) \<Rightarrow> int \<Rightarrow> int set \<Rightarrow> c_error + int set" where
  "fd_change f fd s = (if 0 \<le> fd \<and> fd < FD_SETSIZE then Inr (f fd s) else Inl Out_Of_Bounds)"

definition fd_isset :: "int \<Rightarrow> int set \<Rightarrow> c_error + bool" where
  "fd_isset fd s = (if 0 \<le> fd \<and> fd < FD_SETSIZE then Inr (fd \<in> s) else Inl Out_Of_Bounds)"

definition select_create :: "'q \<Rightarrow> 'q select_state option" where
  "select_create q = Some \<lparr>sl_rfds = {}, sl_wfds = {}, sl_rfds2 = {}, sl_wfds2 = {}, sl_kern = q\<rparr>"

definition select_add :: "mask list \<Rightarrow> 'q select_state \<Rightarrow> int \<Rightarrow> mask \<Rightarrow> c_error + 'q select_state \<times> int" where
  "select_add ms k fd msk =
     rbind (if msk AND AE_READABLE \<noteq> 0 then fd_change insert fd (sl_rfds k) else Inr (sl_rfds k)) (\<lambda>r.
     rbind (if msk AND AE_WRITABLE \<noteq> 0 then fd_change insert fd (sl_wfds k) else Inr (sl_wfds k)) (\<lambda>w.
     Inr (k\<lparr>sl_rfds := r, sl_wfds := w\<rparr>, 0)))"

definition select_del :: "mask list \<Rightarrow> 'q select_state \<Rightarrow> int \<Rightarrow> mask \<Rightarrow> c_error + 'q select_state" where
  "select_del ms k fd msk =
     rbind (if msk AND AE_READABLE \<noteq> 0 then fd_change Set.remove fd (sl_rfds k) else Inr (sl_rfds k)) (\<lambda>r.
     rbind (if msk AND AE_WRITABLE \<noteq> 0 then fd_change Set.remove fd (sl_wfds k) else Inr (sl_wfds k)) (\<lambda>w.
     Inr (k\<lparr>sl_rfds := r, sl_wfds := w\<rparr>)))"

text \<open>Every registered descriptor is reported, with an empty mask when it is not ready.\<close>

fun select_collect ::
    "nat list \<Rightarrow> mask list \<Rightarrow> int set \<Rightarrow> int set \<Rightarrow> fired \<Rightarrow> nat \<Rightarrow> c_error + fired \<times> nat" where
  "select_collect [] ms r w f n = Inr (f, n)"
| "select_collect (j # js) ms r w f n =
     rbind (rd ms j) (\<lambda>m.
       if m = AE_NONE then select_collect js ms r w f n
       else rbind (if m AND AE_READABLE \<noteq> 0 then fd_isset (int j) r else Inr False) (\<lambda>rs.
            rbind (if m AND AE_WRITABLE \<noteq> 0 then fd_isset (int j) w else Inr False) (\<lambda>ws.
            rbind (wr f n (Some (int j, (if rs then AE_READABLE else 0) OR (if ws then AE_WRITABLE else 0)))) (\<lambda>f.
            select_collect js ms r w f (n + 1)))))"

type_synonym 'q select_call =
  "int \<Rightarrow> int set \<Rightarrow> int set \<Rightarrow> (int \<times> int) option \<Rightarrow> 'q \<Rightarrow> (int \<times> int set \<times> int set) \<times> 'q"

definition select_poll ::
    "'q select_call \<Rightarrow> int \<Rightarrow> mask list \<Rightarrow> fired \<Rightarrow> 'q select_state \<Rightarrow> (int \<times> int) option \<Rightarrow>
     c_error + 'q select_state \<times> fired \<times> nat" where
  "select_poll sel maxfd ms f k tvp =
     (let ((retval, r, w), q) = sel (maxfd + 1) (sl_rfds k) (sl_wfds k) tvp (sl_kern k);
          k = k\<lparr>sl_rfds2 := r, sl_wfds2 := w, sl_kern := q\<rparr>
      in if retval > 0
         then rbind (select_collect [0..<nat (maxfd + 1)] ms r w f 0) (\<lambda>(f, n). Inr (k, f, n))
         else Inr (k, f, 0))"

definition select_api :: "'q select_call \<Rightarrow> 'q select_state ae_api" where
  "select_api sel = \<lparr>api_add = select_add, api_del = select_del, api_poll = select_poll sel\<rparr>"

section \<open>epoll\<close>

definition EPOLLIN :: u32 where "EPOLLIN = 1"
definition EPOLLOUT :: u32 where "EPOLLOUT = 4"
definition EPOLLERR :: u32 where "EPOLLERR = 8"
definition EPOLLHUP :: u32 where "EPOLLHUP = 16"

datatype epoll_op = EPOLL_CTL_ADD | EPOLL_CTL_MOD | EPOLL_CTL_DEL

record 'q epoll_state =
  ep_fd :: int
  ep_kern :: 'q

type_synonym 'q ctl_call = "int \<Rightarrow> epoll_op \<Rightarrow> int \<Rightarrow> u32 \<times> int \<Rightarrow> 'q \<Rightarrow> int \<times> 'q"
type_synonym 'q wait_call = "int \<Rightarrow> nat \<Rightarrow> int \<Rightarrow> 'q \<Rightarrow> (int \<times> (u32 \<times> int) list) \<times> 'q"

definition epoll_create :: "int \<times> 'q \<Rightarrow> 'q epoll_state option" where
  "epoll_create = (\<lambda>(epfd, q). if epfd = - 1 then None else Some \<lparr>ep_fd = epfd, ep_kern = q\<rparr>)"

definition epoll_bits :: "mask \<Rightarrow> u32" where
  "epoll_bits msk = (if msk AND AE_READABLE \<noteq> 0 then EPOLLIN else 0) OR (if msk AND AE_WRITABLE \<noteq> 0 then EPOLLOUT else 0)"

definition epoll_add ::
    "'q ctl_call \<Rightarrow> mask list \<Rightarrow> 'q epoll_state \<Rightarrow> int \<Rightarrow> mask \<Rightarrow> c_error + 'q epoll_state \<times> int" where
  "epoll_add ctl ms k fd msk =
     rbind (rd ms (nat fd)) (\<lambda>old.
       let op = (if old = AE_NONE then EPOLL_CTL_ADD else EPOLL_CTL_MOD);
           (r, q) = ctl (ep_fd k) op fd (epoll_bits (msk OR old), fd) (ep_kern k)
       in Inr (k\<lparr>ep_kern := q\<rparr>, if r = - 1 then - 1 else 0))"

definition epoll_del ::
    "'q ctl_call \<Rightarrow> mask list \<Rightarrow> 'q epoll_state \<Rightarrow> int \<Rightarrow> mask \<Rightarrow> c_error + 'q epoll_state" where
  "epoll_del ctl ms k fd delmask =
     rbind (rd ms (nat fd)) (\<lambda>old.
       let m = old AND NOT delmask;
           op = (if m \<noteq> AE_NONE then EPOLL_CTL_MOD else EPOLL_CTL_DEL);
           (r, q) = ctl (ep_fd k) op fd (epoll_bits m, fd) (ep_kern k)
       in Inr (k\<lparr>ep_kern := q\<rparr>))"

definition epoll_mask :: "u32 \<Rightarrow> mask" where
  "epoll_mask ev =
     (if ev AND EPOLLIN \<noteq> 0 then AE_READABLE else 0) OR (if ev AND EPOLLOUT \<noteq> 0 then AE_WRITABLE else 0) OR
     (if ev AND EPOLLERR \<noteq> 0 then AE_WRITABLE else 0) OR (if ev AND EPOLLHUP \<noteq> 0 then AE_WRITABLE else 0)"

definition epoll_poll ::
    "'q wait_call \<Rightarrow> int \<Rightarrow> mask list \<Rightarrow> fired \<Rightarrow> 'q epoll_state \<Rightarrow> (int \<times> int) option \<Rightarrow>
     c_error + 'q epoll_state \<times> fired \<times> nat" where
  "epoll_poll wait maxfd ms f k tvp =
     (let timeout = (case tvp of None \<Rightarrow> - 1 | Some (sec, usec) \<Rightarrow> to_int (sec * 1000 + usec sdiv 1000));
          ((retval, evs), q) = wait (ep_fd k) (length ms) timeout (ep_kern k);
          k = k\<lparr>ep_kern := q\<rparr>
      in if retval > 0
         then rbind (fill_fired [0..<nat retval] (map (\<lambda>(ev, fd). (fd, epoll_mask ev)) evs) f) (\<lambda>f.
              Inr (k, f, nat retval))
         else Inr (k, f, 0))"

definition epoll_api :: "'q ctl_call \<Rightarrow> 'q wait_call \<Rightarrow> 'q epoll_state ae_api" where
  "epoll_api ctl wait = \<lparr>api_add = epoll_add ctl, api_del = epoll_del ctl, api_poll = epoll_poll wait\<rparr>"

section \<open>kqueue\<close>

datatype kq_filter = EVFILT_READ | EVFILT_WRITE
datatype kq_action = EV_ADD | EV_DELETE

record 'q kqueue_state =
  kq_fd :: int
  kq_kern :: 'q

type_synonym 'q kevent_call = "int \<Rightarrow> int \<Rightarrow> kq_filter \<Rightarrow> kq_action \<Rightarrow> 'q \<Rightarrow> int \<times> 'q"
type_synonym 'q kwait_call = "int \<Rightarrow> nat \<Rightarrow> (int \<times> int) option \<Rightarrow> 'q \<Rightarrow> (int \<times> (int \<times> kq_filter) list) \<times> 'q"

definition kqueue_create :: "int \<times> 'q \<Rightarrow> 'q kqueue_state option" where
  "kqueue_create = (\<lambda>(kqfd, q). if kqfd = - 1 then None else Some \<lparr>kq_fd = kqfd, kq_kern = q\<rparr>)"

definition kqueue_add ::
    "'q kevent_call \<Rightarrow> mask list \<Rightarrow> 'q kqueue_state \<Rightarrow> int \<Rightarrow> mask \<Rightarrow> c_error + 'q kqueue_state \<times> int" where
  "kqueue_add kevent ms k fd msk =
     (let (r, q) = (if msk AND AE_READABLE \<noteq> 0 then kevent (kq_fd k) fd EVFILT_READ EV_ADD (kq_kern k) else (0, kq_kern k))
      in if r = - 1 then Inr (k\<lparr>kq_kern := q\<rparr>, - 1)
         else let (r, q) = (if msk AND AE_WRITABLE \<noteq> 0 then kevent (kq_fd k) fd EVFILT_WRITE EV_ADD q else (0, q))
              in Inr (k\<lparr>kq_kern := q\<rparr>, if r = - 1 then - 1 else 0))"

definition kqueue_del ::
    "'q kevent_call \<Rightarrow> mask list \<Rightarrow> 'q kqueue_state \<Rightarrow> int \<Rightarrow> mask \<Rightarrow> c_error + 'q kqueue_state" where
  "kqueue_del kevent ms k fd msk =
     (let (_, q) = (if msk AND AE_READABLE \<noteq> 0 then kevent (kq_fd k) fd EVFILT_READ EV_DELETE (kq_kern k) else (0, kq_kern k));
          (_, q) = (if msk AND AE_WRITABLE \<noteq> 0 then kevent (kq_fd k) fd EVFILT_WRITE EV_DELETE q else (0, q))
      in Inr (k\<lparr>kq_kern := q\<rparr>))"

definition kqueue_mask :: "kq_filter \<Rightarrow> mask" where
  "kqueue_mask flt = (case flt of EVFILT_READ \<Rightarrow> AE_READABLE | EVFILT_WRITE \<Rightarrow> AE_WRITABLE)"

definition kqueue_poll ::
    "'q kwait_call \<Rightarrow> int \<Rightarrow> mask list \<Rightarrow> fired \<Rightarrow> 'q kqueue_state \<Rightarrow> (int \<times> int) option \<Rightarrow>
     c_error + 'q kqueue_state \<times> fired \<times> nat" where
  "kqueue_poll kwait maxfd ms f k tvp =
     (let timeout = map_option (\<lambda>(sec, usec). (sec, usec * 1000)) tvp;
          ((retval, evs), q) = kwait (kq_fd k) (length ms) timeout (kq_kern k);
          k = k\<lparr>kq_kern := q\<rparr>
      in if retval > 0
         then rbind (fill_fired [0..<nat retval] (map (\<lambda>(fd, flt). (fd, kqueue_mask flt)) evs) f) (\<lambda>f.
              Inr (k, f, nat retval))
         else Inr (k, f, 0))"

definition kqueue_api :: "'q kevent_call \<Rightarrow> 'q kwait_call \<Rightarrow> 'q kqueue_state ae_api" where
  "kqueue_api kevent kwait = \<lparr>api_add = kqueue_add kevent, api_del = kqueue_del kevent, api_poll = kqueue_poll kwait\<rparr>"

section \<open>select keeps its sets in step\<close>

definition entry_ok :: "mask list \<Rightarrow> (int \<times> mask) option \<Rightarrow> bool" where
  "entry_ok ms e \<longleftrightarrow> (\<exists>fd m. e = Some (fd, m) \<and> 0 \<le> fd \<and> nat fd < length ms)"

definition select_sync :: "mask list \<Rightarrow> 'q select_state \<Rightarrow> bool" where
  "select_sync ms k \<longleftrightarrow> int (length ms) \<le> FD_SETSIZE \<and>
     (\<forall>fd. fd \<in> sl_rfds k \<longleftrightarrow> 0 \<le> fd \<and> nat fd < length ms \<and> bit (ms ! nat fd) 0) \<and>
     (\<forall>fd. fd \<in> sl_wfds k \<longleftrightarrow> 0 \<le> fd \<and> nat fd < length ms \<and> bit (ms ! nat fd) 1)"

lemma nth_update_fd:
  "0 \<le> fd \<Longrightarrow> 0 \<le> fd' \<Longrightarrow> nat fd < length ms \<Longrightarrow> ms[nat fd := x] ! nat fd' = (if fd' = fd then x else ms ! nat fd')"
  by (auto simp: nth_list_update eq_nat_nat_iff)

lemma select_collect_ok:
  "\<forall>j \<in> set js. j < length ms \<Longrightarrow> int (length ms) \<le> FD_SETSIZE \<Longrightarrow> n + length js \<le> length f \<Longrightarrow>
     \<forall>j<n. entry_ok ms (f ! j) \<Longrightarrow>
     safe (\<lambda>(f', n'). length f' = length f \<and> n' \<le> n + length js \<and> (\<forall>j<n'. entry_ok ms (f' ! j)))
       (select_collect js ms r w f n)"
proof (induction js arbitrary: f n)
  case (Cons j js)
  have j: "j < length ms" "int j < FD_SETSIZE" using Cons.prems(1,2) by auto
  show ?case
  proof (cases "ms ! j = 0")
    case True
    then show ?thesis using Cons.IH [of n f] Cons.prems j by (auto elim!: safe_mono)
  next
    case False
    let ?e = "\<lambda>m. Some (int j, m)"
    have "safe (\<lambda>(f', n'). length f' = length f \<and> n' \<le> n + length (j # js) \<and> (\<forall>j<n'. entry_ok ms (f' ! j)))
        (select_collect js ms r w (f[n := ?e m]) (n + 1))" for m
      using Cons.IH [of "n + 1" "f[n := ?e m]"] Cons.prems j
      by (auto simp: less_Suc_eq nth_list_update entry_ok_def elim!: safe_mono)
    then show ?thesis using False j Cons.prems(3) by (simp add: fd_isset_def)
  qed
qed simp

interpretation select: ae_backend "select_api sel" select_sync for sel :: "'q select_call"
proof unfold_locales
  fix ms :: "mask list" and k :: "'q select_state" and fd m
  assume s: "select_sync ms k" and fd: "0 \<le> fd" "nat fd < length ms"
  have "int (length ms) \<le> FD_SETSIZE" using s by (simp add: select_sync_def)
  then have lim: "fd < FD_SETSIZE" using fd by linarith
  show "safe (\<lambda>(k', r). if r = - 1 then select_sync ms k' else select_sync (ms[nat fd := ms ! nat fd OR m]) k')
      (api_add (select_api sel) ms k fd m)"
    using s fd lim
    by (auto simp: select_api_def select_add_def fd_change_def mask_bits select_sync_def nth_update_fd bit_or_iff
        split: if_splits)
  fix ms' assume "ms ! nat fd \<noteq> 0" "ms' = ms[nat fd := ms ! nat fd AND NOT m]"
  then show "safe (select_sync ms') (api_del (select_api sel) ms' k fd m)"
    using s fd lim
    by (auto simp: select_api_def select_del_def fd_change_def mask_bits select_sync_def nth_update_fd bit_and_iff
        bit_not_iff split: if_splits)
next
  fix ms :: "mask list" and k :: "'q select_state" and f :: fired and maxfd tvp
  assume s: "select_sync ms k" and f: "length f = length ms" "- 1 \<le> maxfd" "maxfd < int (length ms)"
  obtain ret r w q where c: "sel (maxfd + 1) (sl_rfds k) (sl_wfds k) tvp (sl_kern k) = ((ret, r, w), q)"
    by (metis surj_pair)
  have "safe (\<lambda>(f', n). length f' = length f \<and> n \<le> 0 + length [0..<nat (maxfd + 1)] \<and> (\<forall>j<n. entry_ok ms (f' ! j)))
      (select_collect [0..<nat (maxfd + 1)] ms r w f 0)"
    by (rule select_collect_ok) (use s f in \<open>auto simp: select_sync_def\<close>)
  moreover have "select_sync ms (k\<lparr>sl_rfds2 := r, sl_wfds2 := w, sl_kern := q\<rparr>)"
    using s by (simp add: select_sync_def)
  ultimately show "safe (\<lambda>(k', f', n). select_sync ms k' \<and> length f' = length f \<and> n \<le> length f \<and>
      (\<forall>j<n. \<exists>fd m. f' ! j = Some (fd, m) \<and> 0 \<le> fd \<and> nat fd < length ms))
      (api_poll (select_api sel) maxfd ms f k tvp)"
    using f by (auto simp: select_api_def select_poll_def c Let_def entry_ok_def elim!: safe_bind)
qed

section \<open>epoll keeps the interest list in step\<close>

text \<open>
  What the manual of \<open>epoll_ctl\<close> and \<open>epoll_wait\<close> promises, for descriptors that are not closed while
  they are watched: \<open>watched\<close> is the interest list, with the data stored for a descriptor.
\<close>

definition epoll_doc ::
    "'q ctl_call \<Rightarrow> 'q wait_call \<Rightarrow> ('q \<Rightarrow> int \<Rightarrow> (u32 \<times> int) option) \<Rightarrow> bool" where
  "epoll_doc ctl wait watched \<longleftrightarrow>
     (\<forall>epfd op fd ev q r q'. ctl epfd op fd ev q = (r, q') \<longrightarrow>
        (r = - 1 \<longrightarrow> watched q' = watched q) \<and>
        (r \<noteq> - 1 \<longrightarrow> watched q' = (watched q)(fd := (if op = EPOLL_CTL_DEL then None else Some ev))) \<and>
        (watched q fd \<noteq> None \<and> op \<noteq> EPOLL_CTL_ADD \<longrightarrow> r \<noteq> - 1)) \<and>
     (\<forall>epfd n t q r evs q'. wait epfd n t q = ((r, evs), q') \<longrightarrow>
        watched q' = watched q \<and>
        (r > 0 \<longrightarrow> r = int (length evs) \<and> length evs \<le> n \<and>
           (\<forall>(ev, d) \<in> set evs. \<exists>fd ev'. watched q fd = Some (ev', d))))"

definition epoll_sync :: "('q \<Rightarrow> int \<Rightarrow> (u32 \<times> int) option) \<Rightarrow> mask list \<Rightarrow> 'q epoll_state \<Rightarrow> bool" where
  "epoll_sync watched ms k \<longleftrightarrow>
     (\<forall>fd. watched (ep_kern k) fd =
       (if 0 \<le> fd \<and> nat fd < length ms \<and> ms ! nat fd \<noteq> 0 then Some (epoll_bits (ms ! nat fd), fd) else None))"

lemma fill_fired_ok:
  "\<forall>j \<in> set js. j < length es \<and> j < length f \<Longrightarrow>
     safe (\<lambda>f'. length f' = length f \<and> (\<forall>j<length f. f' ! j = (if j \<in> set js then Some (es ! j) else f ! j)))
       (fill_fired js es f)"
proof (induction js arbitrary: f)
  case (Cons j js)
  then show ?case using Cons.IH [of "f[j := Some (es ! j)]"]
    by (auto elim!: safe_mono simp: nth_list_update)
qed simp

lemma fill_fired_entries:
  assumes "n = length es" "n \<le> length f" "\<forall>(fd, m) \<in> set es. 0 \<le> fd \<and> nat fd < length ms"
  shows "safe (\<lambda>f'. length f' = length f \<and> (\<forall>j<n. entry_ok ms (f' ! j))) (fill_fired [0..<n] es f)"
proof -
  have "entry_ok ms (Some (es ! j))" if "j < n" for j
    using assms(1,3) that nth_mem [of j es] by (cases "es ! j") (auto simp: entry_ok_def)
  then show ?thesis
    using fill_fired_ok [of "[0..<n]" es f] assms(1,2) by (auto elim!: safe_mono)
qed

lemma or_not_zero: "x \<noteq> 0 \<Longrightarrow> x OR (y :: u32) \<noteq> 0" "x \<noteq> 0 \<Longrightarrow> y OR (x :: u32) \<noteq> 0"
  by (auto simp: bit_eq_iff bit_or_iff)

lemma and_not_idem: "((x :: u32) AND NOT m) AND NOT m = x AND NOT m"
  by (auto simp: bit_eq_iff bit_simps)

lemma epoll_ctl_doc:
  assumes "epoll_doc ctl wait watched" "ctl epfd op fd ev q = (r, q')"
  shows "r = - 1 \<Longrightarrow> watched q' = watched q"
    "r \<noteq> - 1 \<Longrightarrow> watched q' = (watched q)(fd := (if op = EPOLL_CTL_DEL then None else Some ev))"
    "watched q fd \<noteq> None \<Longrightarrow> op \<noteq> EPOLL_CTL_ADD \<Longrightarrow> r \<noteq> - 1"
proof -
  note d = assms(1) [unfolded epoll_doc_def, THEN conjunct1, THEN spec, THEN spec, THEN spec, THEN spec,
      THEN spec, THEN spec, THEN spec, THEN mp, OF assms(2)]
  show "r = - 1 \<Longrightarrow> watched q' = watched q"
    "r \<noteq> - 1 \<Longrightarrow> watched q' = (watched q)(fd := (if op = EPOLL_CTL_DEL then None else Some ev))"
    "watched q fd \<noteq> None \<Longrightarrow> op \<noteq> EPOLL_CTL_ADD \<Longrightarrow> r \<noteq> - 1"
    using d by blast+
qed

lemma epoll_wait_doc:
  assumes "epoll_doc ctl wait watched" "wait epfd n t q = ((r, evs), q')"
  shows "watched q' = watched q"
    "r > 0 \<Longrightarrow> r = int (length evs) \<and> length evs \<le> n \<and> (\<forall>(ev, d) \<in> set evs. \<exists>fd ev'. watched q fd = Some (ev', d))"
proof -
  note d = assms(1) [unfolded epoll_doc_def, THEN conjunct2, THEN spec, THEN spec, THEN spec, THEN spec,
      THEN spec, THEN spec, THEN spec, THEN mp, OF assms(2)]
  show "watched q' = watched q"
    "r > 0 \<Longrightarrow> r = int (length evs) \<and> length evs \<le> n \<and> (\<forall>(ev, d) \<in> set evs. \<exists>fd ev'. watched q fd = Some (ev', d))"
    using d by blast+
qed

lemma epoll_sync_set:
  assumes "epoll_sync watched ms k" "0 \<le> fd" "nat fd < length ms"
    "watched q = (watched (ep_kern k))(fd := (if m = 0 then None else Some (epoll_bits m, fd)))"
  shows "epoll_sync watched (ms[nat fd := m]) (k\<lparr>ep_kern := q\<rparr>)"
  using assms by (auto simp: epoll_sync_def nth_update_fd)

lemma epoll_backend:
  assumes doc: "epoll_doc ctl wait watched"
  shows "ae_backend (epoll_api ctl wait) (epoll_sync watched)"
proof
  fix ms :: "mask list" and k :: "'a epoll_state" and fd :: int and m :: mask
  assume s: "epoll_sync watched ms k" and fd: "0 \<le> fd" "nat fd < length ms"
  let ?old = "ms ! nat fd"
  have w: "watched (ep_kern k) fd = (if ?old = 0 then None else Some (epoll_bits ?old, fd))"
    using s fd by (simp add: epoll_sync_def)
  show "safe (\<lambda>(k', r). if r = - 1 then epoll_sync watched ms k' else epoll_sync watched (ms[nat fd := ms ! nat fd OR m]) k')
      (api_add (epoll_api ctl wait) ms k fd m)" if m: "m \<noteq> 0"
  proof -
    obtain r q where c: "ctl (ep_fd k) (if ?old = 0 then EPOLL_CTL_ADD else EPOLL_CTL_MOD) fd (epoll_bits (m OR ?old), fd)
        (ep_kern k) = (r, q)" by fastforce
    note d = epoll_ctl_doc [OF doc c]
    show ?thesis
    proof (cases "r = - 1")
      case True
      then have "epoll_sync watched ms (k\<lparr>ep_kern := q\<rparr>)" using s d(1) by (simp add: epoll_sync_def)
      then show ?thesis using True fd(2) c by (simp add: epoll_api_def epoll_add_def Let_def)
    next
      case False
      have e: "watched q = (watched (ep_kern k))(fd := Some (epoll_bits (m OR ?old), fd))"
        using d(2) [OF False] by (simp split: if_splits)
      have "m OR ?old \<noteq> 0" using m by (rule or_not_zero(1))
      then have "epoll_sync watched (ms[nat fd := m OR ?old]) (k\<lparr>ep_kern := q\<rparr>)"
        using epoll_sync_set [OF s fd] e by simp
      then show ?thesis using \<open>r \<noteq> - 1\<close> fd(2) c by (simp add: epoll_api_def epoll_add_def Let_def or.commute)
    qed
  qed
  fix ms' assume o: "ms ! nat fd \<noteq> 0" and ms': "ms' = ms[nat fd := ms ! nat fd AND NOT m]"
  obtain r q where c: "ctl (ep_fd k) (if ?old AND NOT m \<noteq> 0 then EPOLL_CTL_MOD else EPOLL_CTL_DEL) fd
      (epoll_bits (?old AND NOT m), fd) (ep_kern k) = (r, q)" by fastforce
  note d = epoll_ctl_doc [OF doc c]
  have "r \<noteq> - 1" using d(3) w o by auto
  then have "watched q = (watched (ep_kern k))(fd := (if ?old AND NOT m = 0 then None else Some (epoll_bits (?old AND NOT m), fd)))"
    using d(2) by (auto split: if_splits)
  then have "epoll_sync watched ms' (k\<lparr>ep_kern := q\<rparr>)" using epoll_sync_set [OF s fd] ms' by simp
  then show "safe (epoll_sync watched ms') (api_del (epoll_api ctl wait) ms' k fd m)"
    using fd(2) c by (simp add: epoll_api_def epoll_del_def ms' and_not_idem Let_def)
next
  fix ms :: "mask list" and k :: "'a epoll_state" and f :: fired and maxfd tvp
  assume s: "epoll_sync watched ms k" and f: "length f = length ms"
  let ?t = "case tvp of None \<Rightarrow> - 1 | Some (sec, usec) \<Rightarrow> to_int (sec * 1000 + usec sdiv 1000)"
  obtain r evs q where c: "wait (ep_fd k) (length ms) ?t (ep_kern k) = ((r, evs), q)" by (metis surj_pair)
  note d = epoll_wait_doc [OF doc c]
  have k: "epoll_sync watched ms (k\<lparr>ep_kern := q\<rparr>)" using s d(1) by (simp add: epoll_sync_def)
  let ?es = "map (\<lambda>(ev, fd). (fd, epoll_mask ev)) evs"
  have fill: "safe (\<lambda>f'. length f' = length f \<and> (\<forall>j<nat r. entry_ok ms (f' ! j))) (fill_fired [0..<nat r] ?es f)"
    "nat r \<le> length f" if pos: "r > 0"
  proof -
    have "\<forall>(fd, m) \<in> set ?es. 0 \<le> fd \<and> nat fd < length ms"
    proof (clarsimp)
      fix ev fd assume "(ev, fd) \<in> set evs"
      then obtain fd' ev' where "watched (ep_kern k) fd' = Some (ev', fd)" using d(2) [OF pos] by blast
      then show "0 \<le> fd \<and> nat fd < length ms" using s by (auto simp: epoll_sync_def split: if_splits)
    qed
    then show "safe (\<lambda>f'. length f' = length f \<and> (\<forall>j<nat r. entry_ok ms (f' ! j))) (fill_fired [0..<nat r] ?es f)"
      "nat r \<le> length f"
      using fill_fired_entries [of "nat r" ?es f ms] d(2) [OF pos] f by simp_all
  qed
  show "safe (\<lambda>(k', f', n). epoll_sync watched ms k' \<and> length f' = length f \<and> n \<le> length f \<and>
      (\<forall>j<n. \<exists>fd m. f' ! j = Some (fd, m) \<and> 0 \<le> fd \<and> nat fd < length ms))
      (api_poll (epoll_api ctl wait) maxfd ms f k tvp)"
    using k fill by (auto simp: epoll_api_def epoll_poll_def c Let_def entry_ok_def elim!: safe_bind)
qed

section \<open>kqueue keeps its filters in step when no filter is refused\<close>

text \<open>
  What the manual of \<open>kevent\<close> promises: \<open>regs\<close> is the set of registered filters.  The two filters of
  one call are registered one after the other, so the contract needs that an addition is not
  refused; \<open>kqueue_add_partial\<close> below shows what happens otherwise.
\<close>

definition kqueue_doc :: "'q kevent_call \<Rightarrow> 'q kwait_call \<Rightarrow> ('q \<Rightarrow> (int \<times> kq_filter) set) \<Rightarrow> bool" where
  "kqueue_doc kevent kwait regs \<longleftrightarrow>
     (\<forall>kq fd flt q. fst (kevent kq fd flt EV_ADD q) = - 1 \<longrightarrow> regs (snd (kevent kq fd flt EV_ADD q)) = regs q) \<and>
     (\<forall>kq fd flt q. fst (kevent kq fd flt EV_ADD q) \<noteq> - 1 \<longrightarrow>
        regs (snd (kevent kq fd flt EV_ADD q)) = insert (fd, flt) (regs q)) \<and>
     (\<forall>kq fd flt q. regs (snd (kevent kq fd flt EV_DELETE q)) = regs q - {(fd, flt)}) \<and>
     (\<forall>kq n t q. regs (snd (kwait kq n t q)) = regs q \<and>
        (fst (fst (kwait kq n t q)) > 0 \<longrightarrow>
           fst (fst (kwait kq n t q)) = int (length (snd (fst (kwait kq n t q)))) \<and>
           length (snd (fst (kwait kq n t q))) \<le> n \<and> set (snd (fst (kwait kq n t q))) \<subseteq> regs q))"

definition kqueue_accepts :: "'q kevent_call \<Rightarrow> bool" where
  "kqueue_accepts kevent \<longleftrightarrow> (\<forall>kq fd flt q. fst (kevent kq fd flt EV_ADD q) \<noteq> - 1)"

definition filter_bit :: "kq_filter \<Rightarrow> nat" where
  "filter_bit flt = (case flt of EVFILT_READ \<Rightarrow> 0 | EVFILT_WRITE \<Rightarrow> 1)"

definition kqueue_sync :: "('q \<Rightarrow> (int \<times> kq_filter) set) \<Rightarrow> mask list \<Rightarrow> 'q kqueue_state \<Rightarrow> bool" where
  "kqueue_sync regs ms k \<longleftrightarrow>
     (\<forall>fd flt. (fd, flt) \<in> regs (kq_kern k) \<longleftrightarrow> 0 \<le> fd \<and> nat fd < length ms \<and> bit (ms ! nat fd) (filter_bit flt))"

text \<open>What the two registrations, and the two removals, leave registered.\<close>

definition filters_of :: "int \<Rightarrow> mask \<Rightarrow> (int \<times> kq_filter) set" where
  "filters_of fd m = {(fd, flt) | flt. bit m (filter_bit flt)}"

lemma filters_of_mem: "(fd', flt) \<in> filters_of fd m \<longleftrightarrow> fd' = fd \<and> bit m (filter_bit flt)"
  by (auto simp: filters_of_def)

lemma filters_of_eq:
  "filters_of fd m = (if bit m 0 then {(fd, EVFILT_READ)} else {}) \<union> (if bit m 1 then {(fd, EVFILT_WRITE)} else {})"
proof (rule set_eqI)
  fix x :: "int \<times> kq_filter"
  obtain fd' flt where "x = (fd', flt)" by fastforce
  then show "x \<in> filters_of fd m \<longleftrightarrow>
      x \<in> (if bit m 0 then {(fd, EVFILT_READ)} else {}) \<union> (if bit m 1 then {(fd, EVFILT_WRITE)} else {})"
    by (cases flt) (auto simp: filters_of_mem filter_bit_def)
qed

lemma kqueue_add_regs:
  assumes "kqueue_doc kevent kwait regs" "kqueue_accepts kevent"
  shows "\<exists>q. kqueue_add kevent ms k fd m = Inr (k\<lparr>kq_kern := q\<rparr>, 0) \<and> regs q = regs (kq_kern k) \<union> filters_of fd m"
proof -
  have a: "fst (kevent kq fd flt EV_ADD q) \<noteq> - 1"
    "regs (snd (kevent kq fd flt EV_ADD q)) = insert (fd, flt) (regs q)" for kq flt q
    using assms by (simp_all add: kqueue_doc_def kqueue_accepts_def)
  obtain r1 q1 where c1: "kevent (kq_fd k) fd EVFILT_READ EV_ADD (kq_kern k) = (r1, q1)" by fastforce
  define q2 where "q2 = (if m AND AE_READABLE \<noteq> 0 then q1 else kq_kern k)"
  obtain r3 q3 where c3: "kevent (kq_fd k) fd EVFILT_WRITE EV_ADD q2 = (r3, q3)" by fastforce
  have "r1 \<noteq> - 1" "r3 \<noteq> - 1" "regs q1 = insert (fd, EVFILT_READ) (regs (kq_kern k))"
    "regs q3 = insert (fd, EVFILT_WRITE) (regs q2)"
    using a [of "kq_fd k" EVFILT_READ "kq_kern k"] a [of "kq_fd k" EVFILT_WRITE q2] by (simp_all add: c1 c3)
  then show ?thesis
    using c1 c3
    by (intro exI [of _ "if m AND AE_WRITABLE \<noteq> 0 then q3 else q2"])
      (auto simp: kqueue_add_def Let_def q2_def filters_of_eq mask_bits split: if_splits)
qed

lemma kqueue_del_regs:
  assumes "kqueue_doc kevent kwait regs"
  shows "\<exists>q. kqueue_del kevent ms k fd m = Inr (k\<lparr>kq_kern := q\<rparr>) \<and> regs q = regs (kq_kern k) - filters_of fd m"
proof -
  have a: "regs (snd (kevent kq fd flt EV_DELETE q)) = regs q - {(fd, flt)}" for kq flt q
    using assms by (simp add: kqueue_doc_def)
  obtain r1 q1 where c1: "kevent (kq_fd k) fd EVFILT_READ EV_DELETE (kq_kern k) = (r1, q1)" by fastforce
  define q2 where "q2 = (if m AND AE_READABLE \<noteq> 0 then q1 else kq_kern k)"
  obtain r3 q3 where c3: "kevent (kq_fd k) fd EVFILT_WRITE EV_DELETE q2 = (r3, q3)" by fastforce
  have "regs q1 = regs (kq_kern k) - {(fd, EVFILT_READ)}" "regs q3 = regs q2 - {(fd, EVFILT_WRITE)}"
    using a [of "kq_fd k" EVFILT_READ "kq_kern k"] a [of "kq_fd k" EVFILT_WRITE q2] by (simp_all add: c1 c3)
  then show ?thesis
    using c1 c3
    by (intro exI [of _ "if m AND AE_WRITABLE \<noteq> 0 then q3 else q2"])
      (auto simp: kqueue_del_def Let_def q2_def filters_of_eq mask_bits split: if_splits)
qed

lemma kqueue_backend:
  assumes doc: "kqueue_doc kevent kwait regs" "kqueue_accepts kevent"
  shows "ae_backend (kqueue_api kevent kwait) (kqueue_sync regs)"
proof
  fix ms :: "mask list" and k :: "'a kqueue_state" and fd :: int and m :: mask
  assume s: "kqueue_sync regs ms k" and fd: "0 \<le> fd" "nat fd < length ms"
  obtain q where q: "kqueue_add kevent ms k fd m = Inr (k\<lparr>kq_kern := q\<rparr>, 0)" "regs q = regs (kq_kern k) \<union> filters_of fd m"
    using kqueue_add_regs [OF doc] by blast
  have "kqueue_sync regs (ms[nat fd := ms ! nat fd OR m]) (k\<lparr>kq_kern := q\<rparr>)"
    using s fd by (auto simp: kqueue_sync_def q(2) filters_of_mem nth_update_fd bit_or_iff split: if_splits)
  then show "safe (\<lambda>(k', r). if r = - 1 then kqueue_sync regs ms k' else kqueue_sync regs (ms[nat fd := ms ! nat fd OR m]) k')
      (api_add (kqueue_api kevent kwait) ms k fd m)"
    by (simp add: kqueue_api_def q(1))
  fix ms' assume ms': "ms' = ms[nat fd := ms ! nat fd AND NOT m]"
  obtain q where q: "kqueue_del kevent ms' k fd m = Inr (k\<lparr>kq_kern := q\<rparr>)" "regs q = regs (kq_kern k) - filters_of fd m"
    using kqueue_del_regs [OF doc(1)] by blast
  have b: "n < 32" if "bit (x :: u32) n" for x n using bit_imp_le_length [OF that] by simp
  have "kqueue_sync regs ms' (k\<lparr>kq_kern := q\<rparr>)"
    using s fd b by (auto simp: kqueue_sync_def q(2) filters_of_mem nth_update_fd bit_and_iff bit_not_iff ms' split: if_splits)
  then show "safe (kqueue_sync regs ms') (api_del (kqueue_api kevent kwait) ms' k fd m)"
    by (simp add: kqueue_api_def q(1))
next
  fix ms :: "mask list" and k :: "'a kqueue_state" and f :: fired and maxfd and tvp :: "(int \<times> int) option"
  assume s: "kqueue_sync regs ms k" and f: "length f = length ms"
  let ?t = "map_option (\<lambda>(sec, usec). (sec, usec * 1000)) tvp"
  obtain r evs q where c: "kwait (kq_fd k) (length ms) ?t (kq_kern k) = ((r, evs), q)" by (metis surj_pair)
  have "regs (snd (kwait (kq_fd k) (length ms) ?t (kq_kern k))) = regs (kq_kern k) \<and>
      (fst (fst (kwait (kq_fd k) (length ms) ?t (kq_kern k))) > 0 \<longrightarrow>
         fst (fst (kwait (kq_fd k) (length ms) ?t (kq_kern k))) =
           int (length (snd (fst (kwait (kq_fd k) (length ms) ?t (kq_kern k))))) \<and>
         length (snd (fst (kwait (kq_fd k) (length ms) ?t (kq_kern k)))) \<le> length ms \<and>
         set (snd (fst (kwait (kq_fd k) (length ms) ?t (kq_kern k)))) \<subseteq> regs (kq_kern k))"
    using doc(1) unfolding kqueue_doc_def by blast
  then have d: "regs q = regs (kq_kern k)"
    "r > 0 \<Longrightarrow> r = int (length evs) \<and> length evs \<le> length ms \<and> set evs \<subseteq> regs (kq_kern k)"
    by (simp_all add: c)
  have k: "kqueue_sync regs ms (k\<lparr>kq_kern := q\<rparr>)" using s d(1) by (simp add: kqueue_sync_def)
  let ?es = "map (\<lambda>(fd, flt). (fd, kqueue_mask flt)) evs"
  have "safe (\<lambda>f'. length f' = length f \<and> (\<forall>j<nat r. entry_ok ms (f' ! j))) (fill_fired [0..<nat r] ?es f)"
    if pos: "r > 0"
  proof (rule fill_fired_entries)
    show "nat r = length ?es" "nat r \<le> length f" using d(2) [OF pos] f by auto
    show "\<forall>(fd, m) \<in> set ?es. 0 \<le> fd \<and> nat fd < length ms"
      using d(2) [OF pos] s by (auto simp: kqueue_sync_def)
  qed
  moreover have "r > 0 \<Longrightarrow> nat r \<le> length f" using d(2) f by auto
  ultimately show "safe (\<lambda>(k', f', n). kqueue_sync regs ms k' \<and> length f' = length f \<and> n \<le> length f \<and>
      (\<forall>j<n. \<exists>fd m. f' ! j = Some (fd, m) \<and> 0 \<le> fd \<and> nat fd < length ms))
      (api_poll (kqueue_api kevent kwait) maxfd ms f k tvp)"
    using k by (auto simp: kqueue_api_def kqueue_poll_def c Let_def entry_ok_def elim!: safe_bind)
qed

text \<open>A refused write filter leaves the read filter registered although the call reports failure.\<close>

lemma kqueue_add_partial:
  assumes "kqueue_doc kevent kwait regs"
    "fst (kevent (kq_fd k) fd EVFILT_READ EV_ADD (kq_kern k)) \<noteq> - 1"
    "\<And>q. fst (kevent (kq_fd k) fd EVFILT_WRITE EV_ADD q) = - 1"
  shows "\<exists>q. kqueue_add kevent ms k fd 3 = Inr (k\<lparr>kq_kern := q\<rparr>, - 1) \<and>
    regs q = insert (fd, EVFILT_READ) (regs (kq_kern k))"
proof -
  obtain r1 q1 where c1: "kevent (kq_fd k) fd EVFILT_READ EV_ADD (kq_kern k) = (r1, q1)" by fastforce
  obtain r2 q2 where c2: "kevent (kq_fd k) fd EVFILT_WRITE EV_ADD q1 = (r2, q2)" by fastforce
  have "regs (snd (kevent (kq_fd k) fd EVFILT_READ EV_ADD (kq_kern k))) = insert (fd, EVFILT_READ) (regs (kq_kern k))"
    "regs (snd (kevent (kq_fd k) fd EVFILT_WRITE EV_ADD q1)) = regs q1"
    using assms by (simp_all add: kqueue_doc_def)
  then show ?thesis using assms(2) assms(3) [of q1] by (intro exI [of _ q2]) (simp add: kqueue_add_def c1 c2)
qed

end
