(* ===== verification/TF_AE_Evport.thy ===== *)
theory TF_AE_Evport
  imports TF_AE_Backends
begin

text \<open>
  The polling layer of \<open>ae_evport.c\<close>.  A descriptor reported by the port is no longer associated with
  it; it is kept in a table of pending descriptors with the mask it had, until the next poll
  associates it again.  The contract says that every registered descriptor is either associated
  with its mask or pending with it, and never both.
\<close>

section \<open>The code\<close>

definition MAX_EVENT_BATCHSZ :: nat where "MAX_EVENT_BATCHSZ = 512"

record 'q port_state =
  pt_fd :: int
  pt_n :: nat
  pt_fds :: "int list"
  pt_masks :: "mask list"
  pt_kern :: 'q

datatype port_errno = ETIME | EINTR | Other_Errno

text \<open>\<open>port_associate\<close> and \<open>port_dissociate\<close> yield their value; \<open>port_getn\<close> its value, the error number,
  and the events (the poll bits, the descriptor and the pointer given when it was associated).\<close>

type_synonym 'q assoc_call = "int \<Rightarrow> int \<Rightarrow> u32 \<Rightarrow> mask \<Rightarrow> 'q \<Rightarrow> int \<times> 'q"
type_synonym 'q dissoc_call = "int \<Rightarrow> int \<Rightarrow> 'q \<Rightarrow> int \<times> 'q"
type_synonym 'q getn_call =
  "int \<Rightarrow> nat \<Rightarrow> (int \<times> int) option \<Rightarrow> 'q \<Rightarrow> (int \<times> port_errno \<times> (u32 \<times> int \<times> mask) list) \<times> 'q"

definition port_create :: "int \<times> 'q \<Rightarrow> 'q port_state option" where
  "port_create = (\<lambda>(portfd, q).
     if portfd = - 1 then None
     else Some \<lparr>pt_fd = portfd, pt_n = 0, pt_fds = replicate MAX_EVENT_BATCHSZ (- 1),
                pt_masks = replicate MAX_EVENT_BATCHSZ AE_NONE, pt_kern = q\<rparr>)"

definition aeApiLookupPending :: "'q port_state \<Rightarrow> int \<Rightarrow> nat option" where
  "aeApiLookupPending k fd = List.find (\<lambda>i. pt_fds k ! i = fd) [0..<pt_n k]"

definition aeApiAssociate :: "'q assoc_call \<Rightarrow> 'q port_state \<Rightarrow> int \<Rightarrow> mask \<Rightarrow> 'q port_state \<times> int" where
  "aeApiAssociate assoc k fd msk =
     (let events = (if msk AND AE_READABLE \<noteq> 0 then POLLIN else 0) OR (if msk AND AE_WRITABLE \<noteq> 0 then POLLOUT else 0);
          (rv, q) = assoc (pt_fd k) fd events msk (pt_kern k)
      in (k\<lparr>pt_kern := q\<rparr>, rv))"

definition port_add ::
    "'q assoc_call \<Rightarrow> mask list \<Rightarrow> 'q port_state \<Rightarrow> int \<Rightarrow> mask \<Rightarrow> c_error + 'q port_state \<times> int" where
  "port_add assoc ms k fd msk =
     rbind (rd ms (nat fd)) (\<lambda>old.
       let fullmask = msk OR old
       in case aeApiLookupPending k fd of
            Some pfd \<Rightarrow>
              rbind (rd (pt_masks k) pfd) (\<lambda>pm.
              rbind (wr (pt_masks k) pfd (pm OR fullmask)) (\<lambda>pms.
              Inr (k\<lparr>pt_masks := pms\<rparr>, 0)))
          | None \<Rightarrow> Inr (aeApiAssociate assoc k fd fullmask))"

definition port_del ::
    "'q assoc_call \<Rightarrow> 'q dissoc_call \<Rightarrow> mask list \<Rightarrow> 'q port_state \<Rightarrow> int \<Rightarrow> mask \<Rightarrow> c_error + 'q port_state" where
  "port_del assoc dissoc ms k fd msk =
     (case aeApiLookupPending k fd of
        Some pfd \<Rightarrow>
          rbind (rd (pt_masks k) pfd) (\<lambda>pm.
          rbind (wr (pt_masks k) pfd (pm AND NOT msk)) (\<lambda>pms.
          if pm AND NOT msk = AE_NONE
          then rbind (wr (pt_fds k) pfd (- 1)) (\<lambda>fds. Inr (k\<lparr>pt_masks := pms, pt_fds := fds\<rparr>))
          else Inr (k\<lparr>pt_masks := pms\<rparr>)))
      | None \<Rightarrow>
          rbind (rd ms (nat fd)) (\<lambda>fullmask.
          if fullmask = AE_NONE
          then let (r, q) = dissoc (pt_fd k) fd (pt_kern k)
               in if r \<noteq> 0 then Inl Assert_Fail else Inr (k\<lparr>pt_kern := q\<rparr>)
          else let (k, r) = aeApiAssociate assoc k fd fullmask
               in if r \<noteq> 0 then Inl Assert_Fail else Inr k))"

text \<open>The pending descriptors are associated again; one deleted since then is skipped.\<close>

fun reassociate :: "'q assoc_call \<Rightarrow> nat list \<Rightarrow> 'q port_state \<Rightarrow> c_error + 'q port_state" where
  "reassociate assoc [] k = Inr k"
| "reassociate assoc (i # is) k =
     rbind (rd (pt_fds k) i) (\<lambda>fd.
       if fd = - 1 then reassociate assoc is k
       else rbind (rd (pt_masks k) i) (\<lambda>m.
         let (k, r) = aeApiAssociate assoc k fd m
         in if r \<noteq> 0 then Inl Assert_Fail
            else rbind (wr (pt_masks k) i AE_NONE) (\<lambda>pms.
                 rbind (wr (pt_fds k) i (- 1)) (\<lambda>fds.
                 reassociate assoc is (k\<lparr>pt_masks := pms, pt_fds := fds\<rparr>)))))"

fun port_collect ::
    "nat \<Rightarrow> (u32 \<times> int \<times> mask) list \<Rightarrow> fired \<Rightarrow> 'q port_state \<Rightarrow> c_error + 'q port_state \<times> fired" where
  "port_collect i [] f k = Inr (k, f)"
| "port_collect i ((events, obj, user) # evs) f k =
     rbind (wr f i (Some (obj, (if events AND POLLIN \<noteq> 0 then AE_READABLE else 0) OR
                               (if events AND POLLOUT \<noteq> 0 then AE_WRITABLE else 0)))) (\<lambda>f.
     rbind (wr (pt_fds k) i obj) (\<lambda>fds.
     rbind (wr (pt_masks k) i user) (\<lambda>pms.
     port_collect (i + 1) evs f (k\<lparr>pt_fds := fds, pt_masks := pms\<rparr>))))"

definition port_poll ::
    "'q assoc_call \<Rightarrow> 'q getn_call \<Rightarrow> int \<Rightarrow> mask list \<Rightarrow> fired \<Rightarrow> 'q port_state \<Rightarrow> (int \<times> int) option \<Rightarrow>
     c_error + 'q port_state \<times> fired \<times> nat" where
  "port_poll assoc getn maxfd ms f k tvp =
     rbind (reassociate assoc [0..<pt_n k] k) (\<lambda>k.
       let timeout = map_option (\<lambda>(sec, usec). (sec, usec * 1000)) tvp;
           ((ret, errno, evs), q) = getn (pt_fd k) MAX_EVENT_BATCHSZ timeout (pt_kern k);
           k = k\<lparr>pt_n := 0, pt_kern := q\<rparr>
       in if ret = - 1 \<and> (errno \<noteq> ETIME \<or> evs = [])
          then (if errno = ETIME \<or> errno = EINTR then Inr (k, f, 0) else Inl Assert_Fail)
          else rbind (port_collect 0 evs f (k\<lparr>pt_n := length evs\<rparr>)) (\<lambda>(k, f). Inr (k, f, length evs)))"

definition port_api :: "'q assoc_call \<Rightarrow> 'q dissoc_call \<Rightarrow> 'q getn_call \<Rightarrow> 'q port_state ae_api" where
  "port_api assoc dissoc getn =
     \<lparr>api_add = port_add assoc, api_del = port_del assoc dissoc, api_poll = port_poll assoc getn\<rparr>"

section \<open>What the port promises\<close>

text \<open>
  \<open>assoc_of\<close> is the set of associations, with the pointer given.  A successful call associates the
  descriptor and replaces what was there; an event reported ends its association; an interrupted
  call reports nothing.
\<close>

definition port_doc ::
    "'q assoc_call \<Rightarrow> 'q dissoc_call \<Rightarrow> 'q getn_call \<Rightarrow> ('q \<Rightarrow> int \<Rightarrow> mask option) \<Rightarrow> bool" where
  "port_doc assoc dissoc getn assoc_of \<longleftrightarrow>
     (\<forall>port fd ev m q. (fst (assoc port fd ev m q) = 0 \<and> assoc_of (snd (assoc port fd ev m q)) = (assoc_of q)(fd \<mapsto> m)) \<or>
        (fst (assoc port fd ev m q) = - 1 \<and> assoc_of (snd (assoc port fd ev m q)) = assoc_of q)) \<and>
     (\<forall>port fd q. fst (dissoc port fd q) = 0 \<longrightarrow> assoc_of (snd (dissoc port fd q)) = (assoc_of q)(fd := None)) \<and>
     (\<forall>port n t q ret errno evs q'. getn port n t q = ((ret, errno, evs), q') \<longrightarrow>
        (if ret = - 1 \<and> (errno \<noteq> ETIME \<or> evs = []) then assoc_of q' = assoc_of q
         else length evs \<le> n \<and> distinct (map (fst \<circ> snd) evs) \<and>
           (\<forall>(ev, fd, m) \<in> set evs. assoc_of q fd = Some m) \<and>
           assoc_of q' = (\<lambda>fd. if fd \<in> (fst \<circ> snd) ` set evs then None else assoc_of q fd)))"

text \<open>The mask a descriptor has in the layer: the one it is pending with, or the associated one.\<close>

definition pending :: "'q port_state \<Rightarrow> nat \<Rightarrow> int \<Rightarrow> bool" where
  "pending k i fd \<longleftrightarrow> i < pt_n k \<and> pt_fds k ! i = fd \<and> fd \<noteq> - 1"

definition wanted :: "mask list \<Rightarrow> int \<Rightarrow> mask option" where
  "wanted ms fd = (if 0 \<le> fd \<and> nat fd < length ms \<and> ms ! nat fd \<noteq> 0 then Some (ms ! nat fd) else None)"

definition port_sync :: "('q \<Rightarrow> int \<Rightarrow> mask option) \<Rightarrow> mask list \<Rightarrow> 'q port_state \<Rightarrow> bool" where
  "port_sync assoc_of ms k \<longleftrightarrow>
     length (pt_fds k) = MAX_EVENT_BATCHSZ \<and> length (pt_masks k) = MAX_EVENT_BATCHSZ \<and> pt_n k \<le> MAX_EVENT_BATCHSZ \<and>
     (\<forall>i j fd. pending k i fd \<longrightarrow> pending k j fd \<longrightarrow> i = j) \<and>
     (\<forall>i fd. pending k i fd \<longrightarrow> wanted ms fd = Some (pt_masks k ! i) \<and> assoc_of (pt_kern k) fd = None) \<and>
     (\<forall>fd. (\<forall>i. \<not> pending k i fd) \<longrightarrow> assoc_of (pt_kern k) fd = wanted ms fd)"

section \<open>The contract holds\<close>

lemma lookup_Some: "aeApiLookupPending k fd = Some i \<Longrightarrow> 0 \<le> fd \<Longrightarrow> pending k i fd"
  by (auto simp: aeApiLookupPending_def pending_def find_Some_iff)

lemma lookup_None: "aeApiLookupPending k fd = None \<Longrightarrow> \<not> pending k i fd"
  by (auto simp: aeApiLookupPending_def pending_def find_None_iff)

lemma port_sync_lengths:
  "port_sync assoc_of ms k \<Longrightarrow> pending k i fd \<Longrightarrow> i < length (pt_fds k) \<and> i < length (pt_masks k)"
  by (auto simp: port_sync_def pending_def)

lemma wanted_update:
  "0 \<le> fd \<Longrightarrow> nat fd < length ms \<Longrightarrow> wanted (ms[nat fd := m]) = (wanted ms)(fd := (if m = 0 then None else Some m))"
  by (rule ext) (auto simp: wanted_def nth_update_fd)

lemma wanted_Some: "wanted ms fd = Some m \<longleftrightarrow> 0 \<le> fd \<and> nat fd < length ms \<and> ms ! nat fd = m \<and> m \<noteq> 0"
  by (auto simp: wanted_def)

lemma port_sync_pendingD:
  "port_sync assoc_of ms k \<Longrightarrow> pending k i fd \<Longrightarrow>
     wanted ms fd = Some (pt_masks k ! i) \<and> assoc_of (pt_kern k) fd = None"
  by (simp add: port_sync_def)

lemma port_sync_freeD: "port_sync assoc_of ms k \<Longrightarrow> (\<And>i. \<not> pending k i fd) \<Longrightarrow> assoc_of (pt_kern k) fd = wanted ms fd"
  by (simp add: port_sync_def)

lemma port_sync_unique: "port_sync assoc_of ms k \<Longrightarrow> pending k i fd \<Longrightarrow> pending k j fd \<Longrightarrow> i = j"
  by (simp add: port_sync_def)

lemma port_sync_same:
  "port_sync assoc_of ms k \<Longrightarrow> pending k i fd \<Longrightarrow> pending k j fd' \<Longrightarrow> (j = i) = (fd' = fd)"
  using port_sync_unique [of assoc_of ms k] by (auto simp: pending_def)

lemma port_sync_assoc:
  assumes s: "port_sync assoc_of ms k" and np: "\<And>i. \<not> pending k i fd" and fd: "0 \<le> fd" "nat fd < length ms"
    and q: "assoc_of q = (assoc_of (pt_kern k))(fd := (if m = 0 then None else Some m))"
  shows "port_sync assoc_of (ms[nat fd := m]) (k\<lparr>pt_kern := q\<rparr>)"
proof -
  have p: "pending (k\<lparr>pt_kern := q\<rparr>) i fd' = pending k i fd'" for i fd' by (simp add: pending_def)
  show ?thesis using s np unfolding port_sync_def p wanted_update [OF fd] by (auto simp: q)
qed

lemma port_sync_pending:
  assumes s: "port_sync assoc_of ms k" and i: "pending k i fd" and m: "m \<noteq> 0"
  shows "port_sync assoc_of (ms[nat fd := m]) (k\<lparr>pt_masks := (pt_masks k)[i := m]\<rparr>)"
proof -
  have p: "pending (k\<lparr>pt_masks := (pt_masks k)[i := m]\<rparr>) j fd' = pending k j fd'" for j fd' by (simp add: pending_def)
  have fd: "0 \<le> fd" "nat fd < length ms" and l: "i < length (pt_masks k)"
    using port_sync_pendingD [OF s i] port_sync_lengths [OF s i] by (simp_all add: wanted_Some)
  show ?thesis
    using s i l m port_sync_same [OF s i] unfolding port_sync_def p wanted_update [OF fd]
    by (auto simp: nth_list_update)
qed

lemma port_sync_unpend:
  assumes s: "port_sync assoc_of ms k" and i: "pending k i fd"
    and w: "wanted ms' = (wanted ms)(fd := w)" and q: "assoc_of q = (assoc_of (pt_kern k))(fd := w)"
  shows "port_sync assoc_of ms' (k\<lparr>pt_kern := q, pt_masks := (pt_masks k)[i := x], pt_fds := (pt_fds k)[i := - 1]\<rparr>)"
proof -
  let ?k = "k\<lparr>pt_kern := q, pt_masks := (pt_masks k)[i := x], pt_fds := (pt_fds k)[i := - 1]\<rparr>"
  have l: "i < length (pt_fds k)" using port_sync_lengths [OF s i] by simp
  have p: "pending ?k j fd' = (pending k j fd' \<and> j \<noteq> i)" for j fd'
    using l by (auto simp: pending_def nth_list_update)
  have free: "assoc_of q fd' = wanted ms' fd'" if "\<forall>j. \<not> (pending k j fd' \<and> j \<noteq> i)" for fd'
  proof (cases "fd' = fd")
    case True
    then show ?thesis by (simp add: w q)
  next
    case False
    then have "\<not> pending k j fd'" for j using that port_sync_same [OF s i, of j fd'] by auto
    then show ?thesis using False port_sync_freeD [OF s] by (simp add: w q)
  qed
  have "wanted ms' fd' = Some (pt_masks ?k ! j) \<and> assoc_of q fd' = None" if "pending k j fd'" "j \<noteq> i" for j fd'
    using that port_sync_same [OF s i that(1)] port_sync_pendingD [OF s that(1)] by (simp add: w q)
  then show ?thesis
    using s free port_sync_unique [OF s] unfolding port_sync_def p by (auto simp: port_sync_def)
qed

lemma port_sync_forget:
  assumes "port_sync assoc_of ms k" "\<forall>i<pt_n k. pt_fds k ! i = - 1" "assoc_of q = assoc_of (pt_kern k)"
  shows "port_sync assoc_of ms (k\<lparr>pt_n := 0, pt_kern := q\<rparr>)"
proof -
  have "\<not> pending k i fd" for i fd using assms(2) by (auto simp: pending_def)
  then show ?thesis using assms(1,3) by (simp add: port_sync_def pending_def)
qed

lemma associate_doc:
  assumes "port_doc assoc dissoc getn assoc_of" "aeApiAssociate assoc k fd m = (k', r)"
  shows "\<exists>q. k' = k\<lparr>pt_kern := q\<rparr> \<and>
    (r = 0 \<and> assoc_of q = (assoc_of (pt_kern k))(fd \<mapsto> m) \<or> r = - 1 \<and> assoc_of q = assoc_of (pt_kern k))"
proof -
  let ?ev = "(if m AND AE_READABLE \<noteq> 0 then POLLIN else 0) OR (if m AND AE_WRITABLE \<noteq> 0 then POLLOUT else 0)"
  obtain rv q where c: "assoc (pt_fd k) fd ?ev m (pt_kern k) = (rv, q)" by fastforce
  have "(fst (assoc (pt_fd k) fd ?ev m (pt_kern k)) = 0 \<and>
        assoc_of (snd (assoc (pt_fd k) fd ?ev m (pt_kern k))) = (assoc_of (pt_kern k))(fd \<mapsto> m)) \<or>
      (fst (assoc (pt_fd k) fd ?ev m (pt_kern k)) = - 1 \<and>
        assoc_of (snd (assoc (pt_fd k) fd ?ev m (pt_kern k))) = assoc_of (pt_kern k))"
    using assms(1) unfolding port_doc_def by blast
  then show ?thesis using assms(2) unfolding aeApiAssociate_def Let_def c by auto
qed

lemma reassociate_ok:
  assumes doc: "port_doc assoc dissoc getn assoc_of"
  shows "port_sync assoc_of ms k \<Longrightarrow> \<forall>i \<in> set is. i < pt_n k \<Longrightarrow>
    safe (\<lambda>k'. port_sync assoc_of ms k' \<and> pt_n k' = pt_n k \<and>
        (\<forall>i. i \<in> set is \<or> pt_fds k ! i = - 1 \<longrightarrow> i < pt_n k \<longrightarrow> pt_fds k' ! i = - 1))
      (reassociate assoc is k)"
proof (induction "is" arbitrary: k)
  case (Cons i "is")
  have n: "i < pt_n k" "pt_n k \<le> MAX_EVENT_BATCHSZ" and l: "i < length (pt_fds k)" "i < length (pt_masks k)"
    using Cons.prems by (auto simp: port_sync_def)
  define fd where "fd = pt_fds k ! i"
  show ?case
  proof (cases "fd = - 1")
    case True
    then show ?thesis using Cons.IH [OF Cons.prems(1)] Cons.prems(2) l by (auto simp: fd_def elim!: safe_mono)
  next
    case False
    then have p: "pending k i fd" using n by (simp add: pending_def fd_def)
    define m where "m = pt_masks k ! i"
    obtain k1 r where c: "aeApiAssociate assoc k fd m = (k1, r)" by fastforce
    obtain q where q: "k1 = k\<lparr>pt_kern := q\<rparr>"
        "r = 0 \<and> assoc_of q = (assoc_of (pt_kern k))(fd \<mapsto> m) \<or> r = - 1"
      using associate_doc [OF doc c] by blast
    let ?k = "k\<lparr>pt_kern := q, pt_masks := (pt_masks k)[i := 0], pt_fds := (pt_fds k)[i := - 1]\<rparr>"
    have step: "reassociate assoc (i # is) k = (if r = 0 then reassociate assoc is ?k else Inl Assert_Fail)"
      using l False c q(1) by (simp add: fd_def m_def)
    show ?thesis
    proof (cases "r = 0")
      case True
      have w: "wanted ms = (wanted ms)(fd := Some m)"
        using port_sync_pendingD [OF Cons.prems(1) p] by (auto simp: m_def)
      have s: "port_sync assoc_of ms ?k"
        using port_sync_unpend [OF Cons.prems(1) p w] q(2) True by simp
      have "safe (\<lambda>k'. port_sync assoc_of ms k' \<and> pt_n k' = pt_n ?k \<and>
          (\<forall>j. j \<in> set is \<or> pt_fds ?k ! j = - 1 \<longrightarrow> j < pt_n ?k \<longrightarrow> pt_fds k' ! j = - 1)) (reassociate assoc is ?k)"
        using Cons.IH [OF s] Cons.prems(2) by simp
      then show ?thesis unfolding step using True l by (auto simp: nth_list_update elim!: safe_mono)
    next
      case False
      then show ?thesis unfolding step by simp
    qed
  qed
qed simp

lemma port_collect_eq:
  "i + length evs \<le> length f \<Longrightarrow> i + length evs \<le> length (pt_fds k) \<Longrightarrow> i + length evs \<le> length (pt_masks k) \<Longrightarrow>
     port_collect i evs f k =
       Inr (k\<lparr>pt_fds := take i (pt_fds k) @ map (fst \<circ> snd) evs @ drop (i + length evs) (pt_fds k),
             pt_masks := take i (pt_masks k) @ map (snd \<circ> snd) evs @ drop (i + length evs) (pt_masks k)\<rparr>,
         take i f @ map (\<lambda>(ev, obj, user). Some (obj, (if ev AND POLLIN \<noteq> 0 then AE_READABLE else 0) OR
            (if ev AND POLLOUT \<noteq> 0 then AE_WRITABLE else 0))) evs @ drop (i + length evs) f)"
proof (induction i evs f k rule: port_collect.induct)
  case (2 i ev obj user evs f k)
  then show ?case by (simp add: take_Suc_update)
qed simp

lemma port_poll_sync:
  assumes s: "port_sync assoc_of ms k" and n0: "pt_n k = 0"
    and evs: "length evs \<le> MAX_EVENT_BATCHSZ" "distinct (map (fst \<circ> snd) evs)"
      "\<forall>(ev, fd, m) \<in> set evs. assoc_of (pt_kern k) fd = Some m"
    and q: "assoc_of q = (\<lambda>fd. if fd \<in> (fst \<circ> snd) ` set evs then None else assoc_of (pt_kern k) fd)"
  shows "port_sync assoc_of ms (k\<lparr>pt_kern := q, pt_n := length evs,
    pt_fds := map (fst \<circ> snd) evs @ drop (length evs) (pt_fds k),
    pt_masks := map (snd \<circ> snd) evs @ drop (length evs) (pt_masks k)\<rparr>)" (is "port_sync _ _ ?k")
proof -
  have free: "assoc_of (pt_kern k) fd = wanted ms fd" for fd
    using port_sync_freeD [OF s] n0 by (simp add: pending_def)
  have in_evs: "wanted ms (fst (snd (evs ! i))) = Some (snd (snd (evs ! i)))" if "i < length evs" for i
    using evs(3) nth_mem [OF that] by (cases "evs ! i") (auto simp: free)
  have p: "pending ?k i fd = (i < length evs \<and> fst (snd (evs ! i)) = fd)" for i fd
    using in_evs [of i] by (auto simp: pending_def nth_append wanted_Some)
  have u: "i = j" if "pending ?k i fd" "pending ?k j fd" for i j fd
    using that nth_eq_iff_index_eq [OF evs(2), of i j] by (simp add: p)
  have v: "wanted ms fd = Some (pt_masks ?k ! i) \<and> assoc_of (pt_kern ?k) fd = None" if "pending ?k i fd" for i fd
    using that in_evs [of i] nth_mem [of i evs] by (auto simp: p q nth_append)
  have w: "assoc_of (pt_kern ?k) fd = wanted ms fd" if "\<forall>i. \<not> pending ?k i fd" for fd
  proof -
    have "fd \<notin> (fst \<circ> snd) ` set evs"
    proof
      assume "fd \<in> (fst \<circ> snd) ` set evs"
      then obtain e where "e \<in> set evs" "fd = fst (snd e)" by auto
      then obtain i where "i < length evs" "fst (snd (evs ! i)) = fd" by (auto simp: in_set_conv_nth)
      then show False using that p by blast
    qed
    then show ?thesis by (simp add: q free)
  qed
  have "length (pt_fds ?k) = MAX_EVENT_BATCHSZ" "length (pt_masks ?k) = MAX_EVENT_BATCHSZ" "pt_n ?k \<le> MAX_EVENT_BATCHSZ"
    using s evs(1) by (simp_all add: port_sync_def)
  then show ?thesis unfolding port_sync_def using u v w by blast
qed

lemma distinct_fds_bound:
  assumes "distinct fds" "\<forall>fd \<in> set fds. 0 \<le> fd \<and> nat fd < n"
  shows "length fds \<le> n"
proof -
  have "set fds \<subseteq> int ` {0..<n}"
    using assms(2) by (auto intro!: image_eqI [of _ int "nat x" for x])
  then have "card (set fds) \<le> card (int ` {0..<n})" by (intro card_mono) auto
  then show ?thesis using assms(1) by (simp add: distinct_card card_image)
qed

lemma port_backend:
  assumes doc: "port_doc assoc dissoc getn assoc_of"
  shows "ae_backend (port_api assoc dissoc getn) (port_sync assoc_of)"
proof
  fix ms :: "mask list" and k :: "'a port_state" and fd :: int and m :: mask
  assume s: "port_sync assoc_of ms k" and fd: "0 \<le> fd" "nat fd < length ms"
  let ?old = "ms ! nat fd"
  note assocD = associate_doc [OF doc]
  show "safe (\<lambda>(k', r). if r = - 1 then port_sync assoc_of ms k' else port_sync assoc_of (ms[nat fd := ?old OR m]) k')
      (api_add (port_api assoc dissoc getn) ms k fd m)" if m: "m \<noteq> 0"
  proof (cases "aeApiLookupPending k fd")
    case (Some i)
    then have p: "pending k i fd" using fd(1) by (rule lookup_Some)
    have "pt_masks k ! i = ?old" "i < length (pt_masks k)"
      using port_sync_pendingD [OF s p] port_sync_lengths [OF s p] by (auto simp: wanted_Some)
    moreover have "?old OR (m OR ?old) = ?old OR m" by (simp add: or.left_commute or.commute)
    moreover have "port_sync assoc_of (ms[nat fd := ?old OR m]) (k\<lparr>pt_masks := (pt_masks k)[i := ?old OR m]\<rparr>)"
      using port_sync_pending [OF s p] or_not_zero(2) [OF m] by blast
    ultimately show ?thesis using fd(2) Some by (simp add: port_api_def port_add_def)
  next
    case None
    then have np: "\<And>i. \<not> pending k i fd" by (rule lookup_None)
    obtain k' r where c: "aeApiAssociate assoc k fd (m OR ?old) = (k', r)" by fastforce
    obtain q where q: "k' = k\<lparr>pt_kern := q\<rparr>"
        "r = 0 \<and> assoc_of q = (assoc_of (pt_kern k))(fd \<mapsto> m OR ?old) \<or> r = - 1 \<and> assoc_of q = assoc_of (pt_kern k)"
      using assocD [OF c] by blast
    have "r = - 1 \<Longrightarrow> port_sync assoc_of ms k'"
      using s q by (auto simp: port_sync_def pending_def)
    moreover have "r = 0 \<Longrightarrow> port_sync assoc_of (ms[nat fd := m OR ?old]) k'"
      unfolding q(1) by (rule port_sync_assoc [OF s np fd]) (use q(2) or_not_zero(1) [OF m] in auto)
    ultimately show ?thesis
      using fd(2) None c q(2) by (auto simp: port_api_def port_add_def or.commute)
  qed
  fix ms' assume o: "?old \<noteq> 0" and ms': "ms' = ms[nat fd := ?old AND NOT m]"
  show "safe (port_sync assoc_of ms') (api_del (port_api assoc dissoc getn) ms' k fd m)"
  proof (cases "aeApiLookupPending k fd")
    case (Some i)
    then have p: "pending k i fd" using fd(1) by (rule lookup_Some)
    have i: "pt_masks k ! i = ?old" "i < length (pt_masks k)" "i < length (pt_fds k)" "assoc_of (pt_kern k) fd = None"
      using port_sync_pendingD [OF s p] port_sync_lengths [OF s p] by (auto simp: wanted_Some)
    have w: "wanted ms' = (wanted ms)(fd := None)" if "?old AND NOT m = 0"
      using that wanted_update [OF fd] by (simp add: ms')
    have "port_sync assoc_of ms' (k\<lparr>pt_masks := (pt_masks k)[i := 0], pt_fds := (pt_fds k)[i := - 1]\<rparr>)" if "?old AND NOT m = 0"
      using port_sync_unpend [OF s p w [OF that], of "pt_kern k" 0] i(4) by (simp add: fun_upd_idem)
    moreover have "port_sync assoc_of ms' (k\<lparr>pt_masks := (pt_masks k)[i := ?old AND NOT m]\<rparr>)" if "?old AND NOT m \<noteq> 0"
      using port_sync_pending [OF s p that] by (simp add: ms')
    ultimately show ?thesis using i Some by (auto simp: port_api_def port_del_def)
  next
    case None
    then have np: "\<And>i. \<not> pending k i fd" by (rule lookup_None)
    show ?thesis
    proof (cases "?old AND NOT m = 0")
      case True
      obtain r q where c: "dissoc (pt_fd k) fd (pt_kern k) = (r, q)" by fastforce
      have "fst (dissoc (pt_fd k) fd (pt_kern k)) = 0 \<longrightarrow>
          assoc_of (snd (dissoc (pt_fd k) fd (pt_kern k))) = (assoc_of (pt_kern k))(fd := None)"
        using doc unfolding port_doc_def by blast
      then have "r = 0 \<Longrightarrow> port_sync assoc_of (ms[nat fd := 0]) (k\<lparr>pt_kern := q\<rparr>)"
        by (intro port_sync_assoc [OF s np fd]) (simp add: c)
      then show ?thesis using fd(2) None True c by (simp add: port_api_def port_del_def ms')
    next
      case False
      obtain k' r where c: "aeApiAssociate assoc k fd (?old AND NOT m) = (k', r)" by fastforce
      obtain q where q: "k' = k\<lparr>pt_kern := q\<rparr>"
          "r = 0 \<and> assoc_of q = (assoc_of (pt_kern k))(fd \<mapsto> ?old AND NOT m) \<or> r = - 1"
        using assocD [OF c] by blast
      have "r = 0 \<Longrightarrow> port_sync assoc_of ms' k'"
        unfolding q(1) ms' by (rule port_sync_assoc [OF s np fd]) (use q(2) False in auto)
      then show ?thesis using fd(2) None False c by (simp add: port_api_def port_del_def ms')
    qed
  qed
next
  fix ms :: "mask list" and k :: "'a port_state" and f :: fired and maxfd and tvp :: "(int \<times> int) option"
  assume s: "port_sync assoc_of ms k" and f: "length f = length ms"
  have re: "safe (\<lambda>k'. port_sync assoc_of ms k' \<and> (\<forall>i<pt_n k'. pt_fds k' ! i = - 1)) (reassociate assoc [0..<pt_n k] k)"
    using reassociate_ok [OF doc s, of "[0..<pt_n k]"] by (auto elim!: safe_mono)
  show "safe (\<lambda>(k', f', n). port_sync assoc_of ms k' \<and> length f' = length f \<and> n \<le> length f \<and>
      (\<forall>j<n. \<exists>fd m. f' ! j = Some (fd, m) \<and> 0 \<le> fd \<and> nat fd < length ms))
      (api_poll (port_api assoc dissoc getn) maxfd ms f k tvp)"
    unfolding port_api_def ae_api.simps port_poll_def
  proof (rule safe_bind [OF re], goal_cases)
    case (1 k)
    let ?t = "map_option (\<lambda>(sec, usec). (sec, usec * 1000)) tvp"
    obtain ret errno evs q where c: "getn (pt_fd k) MAX_EVENT_BATCHSZ ?t (pt_kern k) = ((ret, errno, evs), q)"
      by (metis surj_pair)
    have d: "if ret = - 1 \<and> (errno \<noteq> ETIME \<or> evs = []) then assoc_of q = assoc_of (pt_kern k)
        else length evs \<le> MAX_EVENT_BATCHSZ \<and> distinct (map (fst \<circ> snd) evs) \<and>
          (\<forall>(ev, fd, m) \<in> set evs. assoc_of (pt_kern k) fd = Some m) \<and>
          assoc_of q = (\<lambda>fd. if fd \<in> (fst \<circ> snd) ` set evs then None else assoc_of (pt_kern k) fd)"
      using doc c unfolding port_doc_def by blast
    have s0: "port_sync assoc_of ms (k\<lparr>pt_n := 0\<rparr>)"
      using port_sync_forget [of assoc_of ms k "pt_kern k"] 1(2) by simp
    show ?case
    proof (cases "ret = - 1 \<and> (errno \<noteq> ETIME \<or> evs = [])")
      case True
      then have "port_sync assoc_of ms (k\<lparr>pt_n := 0, pt_kern := q\<rparr>)"
        using port_sync_forget [of assoc_of ms k q] 1(2) d by simp
      then show ?thesis using True by (simp add: c Let_def)
    next
      case False
      then have evs: "length evs \<le> MAX_EVENT_BATCHSZ" "distinct (map (fst \<circ> snd) evs)"
          "\<forall>(ev, fd, m) \<in> set evs. assoc_of (pt_kern k) fd = Some m"
        and q: "assoc_of q = (\<lambda>fd. if fd \<in> (fst \<circ> snd) ` set evs then None else assoc_of (pt_kern k) fd)"
        using d by (simp_all only: if_False) blast+
      have fds: "0 \<le> fd \<and> nat fd < length ms" if "(ev, fd, m) \<in> set evs" for ev fd m
      proof -
        have "wanted ms fd = Some m" using evs(3) that port_sync_freeD [OF s0, of fd] by (auto simp: pending_def)
        then show ?thesis by (simp add: wanted_Some)
      qed
      then have "\<forall>fd \<in> set (map (fst \<circ> snd) evs). 0 \<le> fd \<and> nat fd < length ms"
        by (metis (no_types, lifting) comp_apply imageE list.set_map prod.collapse)
      then have n: "length evs \<le> length ms"
        using distinct_fds_bound [OF evs(2), of "length ms"] by simp
      have len: "length (pt_fds k) = MAX_EVENT_BATCHSZ" "length (pt_masks k) = MAX_EVENT_BATCHSZ"
        using s0 by (simp_all add: port_sync_def)
      have "port_sync assoc_of ms (k\<lparr>pt_kern := q, pt_n := length evs,
          pt_fds := map (fst \<circ> snd) evs @ drop (length evs) (pt_fds k),
          pt_masks := map (snd \<circ> snd) evs @ drop (length evs) (pt_masks k)\<rparr>)"
        using port_poll_sync [OF s0, of evs q] evs q by (simp cong: if_cong)
      moreover have "\<exists>fd. (\<exists>m. (map (\<lambda>(ev, obj, user). Some (obj, g ev)) evs @ r) ! j = Some (fd, m)) \<and>
          0 \<le> fd \<and> nat fd < length ms"
        if "j < length evs" for j and g :: "u32 \<Rightarrow> mask" and r
        using that fds nth_mem [OF that] by (cases "evs ! j") (simp add: nth_append)
      ultimately show ?thesis
        using False f n evs(1) len by (auto simp: c Let_def port_collect_eq)
    qed
  qed
qed

end
