(* ===== verification/TF_AE_Props.thy ===== *)
theory TF_AE_Props
  imports TF_AE_Timers TF_AE_Evport
begin

text \<open>
  The properties of the event loop, over each polling layer, with concrete runs of the loop as
  witnesses: a clock that stands at five seconds, a hook that stops the loop, and timers whose
  callback asks for the given delay.
\<close>

section \<open>A concrete environment\<close>

definition idle_select :: "unit select_call" where
  "idle_select = (\<lambda>n r w t q. ((0, {}, {}), q))"

definition demo_call :: "int \<Rightarrow> callback \<Rightarrow> nat \<Rightarrow> script \<times> nat" where
  "demo_call r cb w =
     (case cb of Sleep_cb _ \<Rightarrow> (Call Stop (\<lambda>_. Return (- 1)), w) | _ \<Rightarrow> (Return r, Suc w))"

definition demo_env :: "'k ae_api \<Rightarrow> int \<Rightarrow> ('k, nat) ae_env" where
  "demo_env A r = \<lparr>env_api = A, env_time = (\<lambda>w. ((5, 0), w)), env_clock = (\<lambda>w. (5, w)),
     env_call = demo_call r, env_final = (\<lambda>f d w. w)\<rparr>"

definition demo_timer :: "int \<Rightarrow> int \<Rightarrow> int \<Rightarrow> time_event" where
  "demo_timer i sec ms = \<lparr>te_id = i, te_sec = sec, te_ms = ms, te_proc = 0, te_fin = None, te_data = 0\<rparr>"

definition demo_loop :: "'k \<Rightarrow> time_event list \<Rightarrow> 'k ae_loop" where
  "demo_loop k ts = \<lparr>el_maxfd = - 1, el_setsize = 1, el_next = int (length ts), el_last = 5,
     el_events = [blank_event], el_fired = [None], el_timers = ts, el_stop = False, el_api = k, el_sleep = Some 0\<rparr>"

lemma client_ok_demo: "client_ok (demo_env A r)"
  by (auto simp: client_ok_def demo_env_def demo_call_def split: callback.splits)

lemma frozen_demo: "frozen (demo_env A r) (5, 0)"
  by (auto simp: frozen_def ms_ok_def aeGetTime_def demo_env_def)

lemma patient_demo: "patient (demo_env A (- 1))"
  by (auto simp: patient_def demo_env_def demo_call_def split: callback.splits)

lemma loop_ok_demo: "loop_ok (demo_loop k [])"
  by (simp add: loop_ok_def demo_loop_def max_registered_def blank_event_def event_ok_def timers_ok_def)

section \<open>Properties\<close>



text \<open>
  C19: With the epoll layer, and a kernel that behaves as documented, a pass over the events that returns has kept
  the loop consistent and the kernel's interest list equal to the masks of the table, and no pass touches
  memory outside the table or reads a callback or a fired event that was never stored.  It is not free of every
  fault: a callback that deletes its own timer and asks to be called again makes it write to the freed node
  (\<open>self_delete_dangles\<close> below).
\<close>

theorem aeProcessEvents_epoll:
  assumes "epoll_doc ctl wait watched" "env_api env = epoll_api ctl wait" "client_ok env"
    "loop_ok el" "epoll_sync watched (el_masks el) (el_api el)" "aeProcessEvents env flags (el, w) = Some r"
  shows "safe (\<lambda>((el', w'), n). loop_ok el' \<and> epoll_sync watched (el_masks el') (el_api el')) r"
proof -
  note B = epoll_backend [OF assms(1)]
  have "ae_backend.state_ok (epoll_sync watched) el" using assms(4,5) by (simp add: ae_backend.state_ok_def [OF B])
  then have "safe (\<lambda>(st', n). ae_backend.state_ok (epoll_sync watched) (fst st')) r"
    using ae_backend.process_keeps [OF B assms(2,3) _ assms(6)] by simp
  then show ?thesis by (auto simp: ae_backend.state_ok_def [OF B] elim!: safe_mono)
qed

text \<open>A kernel for the witnesses: the interest list itself, and nothing ever ready.\<close>

definition demo_ctl :: "(int \<Rightarrow> (u32 \<times> int) option) ctl_call" where
  "demo_ctl epfd op fd ev q =
     (if (op = EPOLL_CTL_ADD) = (q fd = None) then (0, q(fd := (if op = EPOLL_CTL_DEL then None else Some ev)))
      else (- 1, q))"

definition demo_wait :: "(int \<Rightarrow> (u32 \<times> int) option) wait_call" where
  "demo_wait epfd n t q = (case q 0 of None \<Rightarrow> ((0, []), q)
     | Some (ev, d) \<Rightarrow> if n = 0 then ((0, []), q) else ((1, [(EPOLLIN, d)]), q))"

lemma demo_epoll_doc: "epoll_doc demo_ctl demo_wait (\<lambda>q. q)"
  by (auto simp: epoll_doc_def demo_ctl_def demo_wait_def split: option.splits if_splits)

theorem aeProcessEvents_epoll_witness:
  "\<exists>r. aeProcessEvents (demo_env (epoll_api demo_ctl demo_wait) 0) AE_FILE_EVENTS
      ((demo_loop \<lparr>ep_fd = 3, ep_kern = [0 \<mapsto> (EPOLLIN, 0)]\<rparr> [])
         \<lparr>el_maxfd := 0, el_events := [fe_register blank_event AE_READABLE 1 1]\<rparr>, 0) = Some r \<and>
     safe (\<lambda>((el', w'), n). loop_ok el' \<and> epoll_sync (\<lambda>q. q) (el_masks el') (el_api el')) r"
proof -
  let ?el = "(demo_loop \<lparr>ep_fd = 3, ep_kern = [0 \<mapsto> (EPOLLIN, 0)]\<rparr> [])
      \<lparr>el_maxfd := 0, el_events := [fe_register blank_event AE_READABLE 1 1]\<rparr>"
  let ?env = "demo_env (epoll_api demo_ctl demo_wait) 0"
  have "loop_ok ?el"
    by (simp add: loop_ok_def demo_loop_def max_registered_def blank_event_def fe_register_def event_ok_def timers_ok_def)
  moreover have "epoll_sync (\<lambda>q. q) (el_masks ?el) (el_api ?el)"
    by (simp add: epoll_sync_def demo_loop_def blank_event_def epoll_bits_def)
  moreover have "\<exists>r. aeProcessEvents ?env AE_FILE_EVENTS (?el, 0) = Some r"
    by (simp add: aeProcessEvents_def split: sum.splits prod.splits)
  moreover have "env_api ?env = epoll_api demo_ctl demo_wait" by (simp add: demo_env_def)
  ultimately show ?thesis using aeProcessEvents_epoll [OF demo_epoll_doc _ client_ok_demo] by blast
qed

text \<open>
  C20: With the event-port layer, and a port that behaves as documented, a pass over the events keeps
  every registered descriptor either associated with the port with its mask or pending with it, and
  no access outside the table and no read of what was never stored happens, as with the other layers.
\<close>

theorem aeProcessEvents_evport:
  assumes "port_doc assoc dissoc getn assoc_of" "env_api env = port_api assoc dissoc getn" "client_ok env"
    "loop_ok el" "port_sync assoc_of (el_masks el) (el_api el)" "aeProcessEvents env flags (el, w) = Some r"
  shows "safe (\<lambda>((el', w'), n). loop_ok el' \<and> port_sync assoc_of (el_masks el') (el_api el')) r"
proof -
  note B = port_backend [OF assms(1)]
  have "ae_backend.state_ok (port_sync assoc_of) el" using assms(4,5) by (simp add: ae_backend.state_ok_def [OF B])
  then have "safe (\<lambda>(st', n). ae_backend.state_ok (port_sync assoc_of) (fst st')) r"
    using ae_backend.process_keeps [OF B assms(2,3) _ assms(6)] by simp
  then show ?thesis by (auto simp: ae_backend.state_ok_def [OF B] elim!: safe_mono)
qed

definition demo_assoc :: "(int \<Rightarrow> mask option) assoc_call" where
  "demo_assoc port fd ev m q = (0, q(fd \<mapsto> m))"

definition demo_dissoc :: "(int \<Rightarrow> mask option) dissoc_call" where
  "demo_dissoc port fd q = (0, q(fd := None))"

definition demo_getn :: "(int \<Rightarrow> mask option) getn_call" where
  "demo_getn port n t q = (case q 0 of None \<Rightarrow> ((- 1, ETIME, []), q)
     | Some m \<Rightarrow> if n = 0 then ((- 1, ETIME, []), q) else ((0, ETIME, [(POLLIN, 0, m)]), q(0 := None)))"

lemma demo_port_doc: "port_doc demo_assoc demo_dissoc demo_getn (\<lambda>q. q)"
  by (auto simp: port_doc_def demo_assoc_def demo_dissoc_def demo_getn_def split: option.splits if_splits)

theorem aeProcessEvents_evport_witness:
  "\<exists>r. aeProcessEvents (demo_env (port_api demo_assoc demo_dissoc demo_getn) 0) AE_FILE_EVENTS
      ((demo_loop (the (port_create (3, [0 \<mapsto> AE_READABLE]))) [])
         \<lparr>el_maxfd := 0, el_events := [fe_register blank_event AE_READABLE 1 1]\<rparr>, 0) = Some r \<and>
     safe (\<lambda>((el', w'), n). loop_ok el' \<and> port_sync (\<lambda>q. q) (el_masks el') (el_api el')) r"
proof -
  let ?el = "(demo_loop (the (port_create (3, [0 \<mapsto> AE_READABLE]))) [])
      \<lparr>el_maxfd := 0, el_events := [fe_register blank_event AE_READABLE 1 1]\<rparr>"
  let ?env = "demo_env (port_api demo_assoc demo_dissoc demo_getn) 0"
  have "loop_ok ?el"
    by (simp add: loop_ok_def demo_loop_def max_registered_def blank_event_def fe_register_def event_ok_def timers_ok_def)
  moreover have "port_sync (\<lambda>q. q) (el_masks ?el) (el_api ?el)"
    by (simp add: port_sync_def demo_loop_def blank_event_def port_create_def pending_def wanted_def fun_eq_iff)
  moreover have "\<exists>r. aeProcessEvents ?env AE_FILE_EVENTS (?el, 0) = Some r"
    by (simp add: aeProcessEvents_def split: sum.splits prod.splits)
  moreover have "env_api ?env = port_api demo_assoc demo_dissoc demo_getn" by (simp add: demo_env_def)
  ultimately show ?thesis using aeProcessEvents_evport [OF demo_port_doc _ client_ok_demo] by blast
qed

text \<open>
  C8: A pass over the time events ends, provided the clock stands still during the pass, no callback moves a
  deadline, and each asks to be removed or to be called again after at least a millisecond.  Unless a callback
  makes it fault, no event that existed when the pass began is due at its end, and the calls it made are one for
  each of a list of different events that existed when it began, all of them due then (if the clock was not set
  back since the pass before; else the events are all made due); it returns their number.
\<close>

theorem processTimeEvents_ends:
  assumes "frozen env now" "patient env" "timers_ok (el_next el) (el_timers el)"
  shows "\<exists>r. processTimeEvents env (el, w) = Some r \<and>
    (\<forall>el' w' n. r = Inr ((el', w'), n) \<longrightarrow>
       n \<le> int (length (el_timers el)) \<and> (\<forall>te \<in> set (el_timers el'). te_id te < el_next el \<longrightarrow> \<not> te_due te now) \<and>
       (\<exists>ids. n = int (length ids) \<and> distinct ids \<and> set ids \<subseteq> te_id ` set (el_timers el) \<and>
          (el_last el \<le> fst (env_clock env w) \<longrightarrow> (\<forall>te \<in> set (el_timers el). te_id te \<in> set ids \<longrightarrow> te_due te now)) \<and>
          (\<forall>obs. observes env obs \<longrightarrow> obs w' = obs w @ ids)))"
proof -
  obtain t w1 where c: "env_clock env w = (t, w1)" by fastforce
  let ?ts = "if t < el_last el then map (\<lambda>te. te\<lparr>te_sec := 0\<rparr>) (el_timers el) else el_timers el"
  let ?el = "el\<lparr>el_timers := ?ts, el_last := t\<rparr>" and ?m = "el_next el - 1"
  let ?D = "due_ids ?m now ?ts"
  have "timers_inv ?m ?el"
    using assms(3) timers_ok_ids [of ?ts "el_timers el"] by (auto simp: timers_inv_def comp_def)
  then obtain r where r: "timer_loop env ?m 0 (?el, w1) = Some r"
    "\<forall>st' n'. r = Inr (st', n') \<longrightarrow> due_ids ?m now (el_timers (fst st')) = {} \<and>
       (\<exists>ids. fired env ?D w1 (snd st') ids \<and> n' = 0 + int (length ids))"
    using timer_loop_ends [OF assms(1,2), of ?m "(?el, w1)" 0] by fastforce
  have D: "?D \<subseteq> te_id ` set (el_timers el)" by (auto simp: due_ids_def)
  have due: "te_due te now" if "te \<in> set (el_timers el)" "te_id te \<in> ?D" "\<not> t < el_last el" for te
    using that assms(3) by (fastforce simp: due_ids_def timers_ok_def distinct_map dest: inj_onD)
  have len: "length ids \<le> length (el_timers el)" if "distinct ids" "set ids \<subseteq> ?D" for ids
  proof -
    have "card (set ids) \<le> card (set (map te_id (el_timers el)))" using that(2) D by (intro card_mono) auto
    then show ?thesis using card_length [of "map te_id (el_timers el)"] distinct_card [OF that(1)] by simp
  qed
  have seen: "obs w1 = obs w" if "observes env obs" for obs using that c unfolding observes_def by (metis snd_conv)
  have idle: "\<not> te_due te now" if "due_ids ?m now ts = {}" "te \<in> set ts" "te_id te < el_next el" for te ts
    using that by (force simp: due_ids_def)
  have eq: "processTimeEvents env (el, w) = Some r" using r(1) by (simp add: processTimeEvents_def c)
  show ?thesis
  proof (intro exI [of _ r] conjI eq allI impI)
    fix el' w' n assume "r = Inr ((el', w'), n)"
    then obtain ids where f: "due_ids ?m now (el_timers el') = {}" "fired env ?D w1 w' ids" "n = int (length ids)"
      using r(2) by fastforce
    show "n \<le> int (length (el_timers el))" using len f(2,3) by (simp add: fired_def)
    show "\<forall>te \<in> set (el_timers el'). te_id te < el_next el \<longrightarrow> \<not> te_due te now" using idle [OF f(1)] by blast
    show "\<exists>ids. n = int (length ids) \<and> distinct ids \<and> set ids \<subseteq> te_id ` set (el_timers el) \<and>
        (el_last el \<le> fst (env_clock env w) \<longrightarrow> (\<forall>te \<in> set (el_timers el). te_id te \<in> set ids \<longrightarrow> te_due te now)) \<and>
        (\<forall>obs. observes env obs \<longrightarrow> obs w' = obs w @ ids)"
      using f D due seen c by (intro exI [of _ ids]) (auto simp: fired_def subset_iff simp del: if_split)
  qed
qed

text \<open>A run whose world is the list of the identifiers called: of two events only the one due is called.\<close>

definition log_env :: "(unit select_state, int list) ae_env" where
  "log_env = \<lparr>env_api = select_api idle_select, env_time = (\<lambda>w. ((5, 0), w)), env_clock = (\<lambda>w. (5, w)),
     env_call = (\<lambda>cb w. (Return AE_NOMORE, case cb of Time_cb p i d \<Rightarrow> w @ [i] | _ \<Rightarrow> w)), env_final = (\<lambda>f d w. w)\<rparr>"

theorem processTimeEvents_ends_witness:
  "\<exists>r. processTimeEvents log_env (demo_loop (the (select_create ())) [demo_timer 1 4 0, demo_timer 0 9 0], []) = Some r \<and>
    (\<forall>el' w' n. r = Inr ((el', w'), n) \<longrightarrow> set w' \<subseteq> {1} \<and> n = int (length w') \<and> distinct w' \<and>
       (\<forall>te \<in> set (el_timers el'). te_id te < 2 \<longrightarrow> \<not> te_due te (5, 0)))"
proof -
  have "frozen log_env (5, 0)" "patient log_env" "observes log_env (\<lambda>w. w)"
    by (simp_all add: frozen_def patient_def observes_def log_env_def aeGetTime_def ms_ok_def)
  moreover have "timers_ok 2 [demo_timer 1 4 0, demo_timer 0 9 0]" by (simp add: timers_ok_def demo_timer_def)
  moreover have "te_due (demo_timer 0 9 0) (5, 0) = False" "te_id (demo_timer 1 4 0) = 1" "te_id (demo_timer 0 9 0) = 0"
    by (simp_all add: te_due_def demo_timer_def)
  ultimately show ?thesis
    using processTimeEvents_ends [of log_env "(5, 0)" "demo_loop (the (select_create ())) [demo_timer 1 4 0, demo_timer 0 9 0]" "[]"]
    by (fastforce simp: demo_loop_def log_env_def)
qed

text \<open>
  A callback that asks to be called again after zero milliseconds keeps the pass busy for ever while
  the clock stands still: the bound on the identifiers skips new events only, so the pass has no value.
\<close>

lemma processTimeEvents_busy:
  assumes "frozen env now" "el_timers el = [te]" "te_id te < el_next el" "te_due te now"
    and "\<And>w. \<exists>w'. env_call env (Time_cb (te_proc te) (te_id te) (te_data te)) w = (Return 0, w')"
    and "\<And>w. el_last el \<le> fst (env_clock env w)"
  shows "processTimeEvents env (el, w) = None"
proof -
  have never: "timer_loop env m n st = Some r \<Longrightarrow>
      (\<exists>s ms. el_timers (fst st) = [te\<lparr>te_sec := s, te_ms := ms\<rparr>] \<and> te_due (te\<lparr>te_sec := s, te_ms := ms\<rparr>) now) \<Longrightarrow>
      te_id te \<le> m \<Longrightarrow> frozen env now \<Longrightarrow>
      (\<And>w. \<exists>w'. env_call env (Time_cb (te_proc te) (te_id te) (te_data te)) w = (Return 0, w')) \<Longrightarrow> False" for env m n st r
  proof (induction env m n st r rule: timer_loop.raw_induct [rotated, consumes 1, case_names 1])
    case (1 loop env m n st r)
    obtain s ms where ts: "el_timers (fst st) = [te\<lparr>te_sec := s, te_ms := ms\<rparr>]" "te_due (te\<lparr>te_sec := s, te_ms := ms\<rparr>) now"
      using 1(3) by blast
    let ?te = "te\<lparr>te_sec := s, te_ms := ms\<rparr>"
    obtain el w where st: "st = (el, w)" by fastforce
    obtain w1 where w1: "env_call env (Time_cb (te_proc te) (te_id te) (te_data te)) w = (Return 0, w1)" using 1(6) by blast
    have nd: "next_due env m (el_timers el) w = (Some ?te, w)"
      using ts 1(4) by (simp add: next_due_frozen [OF 1(5)] st del: next_due.simps)
    have now: "aeAddMillisecondsToNow env 0 w1 = (now, w1)"
      using 1(5) by (auto simp: frozen_def aeAddMillisecondsToNow_def add_ms_def ms_ok_def Let_def split: prod.splits)
    have "fire_timer env ?te (el, w) = Inr (el\<lparr>el_timers := [te\<lparr>te_sec := fst now, te_ms := snd now\<rparr>]\<rparr>, w1)"
      using ts by (simp add: fire_timer_def call_back_def w1 now st)
    then have step: "loop env m (n + 1) (el\<lparr>el_timers := [te\<lparr>te_sec := fst now, te_ms := snd now\<rparr>]\<rparr>, w1) = Some r"
      using 1(2) nd by (simp add: st)
    have "te_due (te\<lparr>te_sec := fst now, te_ms := snd now\<rparr>) now" by (simp add: te_due_def)
    then show ?case using 1(1) [OF step _ 1(4,5,6)] by auto
  qed
  obtain t w1 where c: "env_clock env w = (t, w1)" by fastforce
  then have "\<not> t < el_last el" using assms(6) [of w] by simp
  then have eq: "processTimeEvents env (el, w) = timer_loop env (el_next el - 1) 0 (el\<lparr>el_timers := [te], el_last := t\<rparr>, w1)"
    by (simp add: processTimeEvents_def c assms(2))
  have te: "te\<lparr>te_sec := te_sec te, te_ms := te_ms te\<rparr> = te" by simp
  show ?thesis
  proof (rule ccontr)
    let ?st = "(el\<lparr>el_timers := [te], el_last := t\<rparr>, w1)"
    assume "processTimeEvents env (el, w) \<noteq> None"
    then obtain r where r: "timer_loop env (el_next el - 1) 0 ?st = Some r" by (auto simp: eq)
    have "\<exists>s ms. el_timers (fst ?st) = [te\<lparr>te_sec := s, te_ms := ms\<rparr>] \<and> te_due (te\<lparr>te_sec := s, te_ms := ms\<rparr>) now"
      using assms(4) te by (intro exI [of _ "te_sec te"] exI [of _ "te_ms te"]) simp
    then show False using never [OF r _ _ assms(1,5)] assms(3) by simp
  qed
qed

lemma processTimeEvents_busy_example:
  "processTimeEvents (demo_env (select_api idle_select) 0) (demo_loop (the (select_create ())) [demo_timer 0 4 0], 0) = None"
  by (rule processTimeEvents_busy [OF frozen_demo, of _ "demo_timer 0 4 0"])
    (simp_all add: demo_loop_def demo_timer_def te_due_def demo_env_def demo_call_def)

text \<open>
  C21: Waiting for all events, the loop sleeps until the earliest timer when that lies ahead.  When that timer is
  overdue by \<open>d\<close> milliseconds it sleeps \<open>(- d) mod 1000\<close> milliseconds, the rest to the next whole second: 999 when
  it is one millisecond late, none when it is late by a whole number of seconds.  Only the seconds of the negative
  difference are cut off, not the borrowed milliseconds.
\<close>

theorem poll_timeout_nearest:
  assumes "\<forall>te \<in> set (el_timers el). ms_ok (te_ms te)" "el_timers el \<noteq> []"
    "aeGetTime env w = ((s, ms), w')" "ms_ok ms"
  shows "\<exists>te \<in> set (el_timers el). (\<forall>te' \<in> set (el_timers el). te_time te \<le> te_time te') \<and>
    (\<exists>sec usec. poll_timeout env AE_ALL_EVENTS (el, w) = (Some (sec, usec), w') \<and>
       sec * 1000000 + usec = 1000 * (let d = te_time te - (s * 1000 + ms) in if 0 \<le> d then d else d mod 1000))"
proof -
  obtain te where te: "te \<in> set (el_timers el)" "aeSearchNearestTimer el = Some te"
      "\<forall>te' \<in> set (el_timers el). te_time te \<le> te_time te'"
    using nearest_min [OF assms(1,2)] by blast
  obtain a b where ab: "timer_timeout te (s, ms) = (a, b)" by fastforce
  have "poll_timeout env AE_ALL_EVENTS (el, w) = (Some (a, b), w')"
    by (simp add: poll_timeout_def te(2) assms(3) ab)
  moreover have "a * 1000000 + b = 1000 * (let d = te_time te - (s * 1000 + ms) in if 0 \<le> d then d else d mod 1000)"
    using timer_timeout_value [of te ms s] te(1) assms(1,4) by (simp add: ab)
  ultimately show ?thesis using te(1,3) by blast
qed

theorem poll_timeout_nearest_witness:
  "\<exists>sec usec. poll_timeout (demo_env (select_api idle_select) 0) AE_ALL_EVENTS
     (demo_loop (the (select_create ())) [demo_timer 1 9 0, demo_timer 0 4 999], 0) = (Some (sec, usec), 0) \<and>
     sec * 1000000 + usec = 999000"
proof -
  let ?el = "demo_loop (the (select_create ())) [demo_timer 1 9 0, demo_timer 0 4 999]"
  have "aeGetTime (demo_env (select_api idle_select) 0) 0 = ((5, 0), 0)"
    by (simp add: aeGetTime_def demo_env_def)
  moreover have "\<forall>te \<in> set (el_timers ?el). ms_ok (te_ms te)" "el_timers ?el \<noteq> []" "ms_ok 0"
    by (simp_all add: demo_loop_def demo_timer_def ms_ok_def)
  ultimately show ?thesis
    using poll_timeout_nearest [of ?el "demo_env (select_api idle_select) 0" 0 5 0 0]
    by (auto simp: demo_loop_def demo_timer_def te_time_def Let_def)
qed

section \<open>A timer that deletes itself\<close>

text \<open>A callback that deletes its own event and asks to be called again makes the pass write to freed memory.\<close>

lemma self_delete_dangles:
  assumes "env_call env (Time_cb (te_proc te) (te_id te) (te_data te)) w = (Call (Delete_Time (te_id te)) (\<lambda>_. Return 10), w')"
    "el_timers el = [te]"
  shows "fire_timer env te (el, w) = Inl Use_After_Free"
  using assms
  by (simp add: fire_timer_def call_back_def exec_call_def aeDeleteTimeEvent_def Let_def split: prod.splits)

end
