(* ===== verification/TF_Malloc.thy ===== *)
theory TF_Malloc
  imports TF_Prelude
begin

text \<open>
  The allocator of \<open>tf_malloc.c\<close>, built without \<open>HAVE_MALLOC_SIZE\<close>: every block carries its size in a
  prefix of eight bytes, and \<open>used_memory\<close> counts the memory in use.  \<open>malloc\<close>, \<open>calloc\<close> and
  \<open>realloc\<close> give a block that was never used before, or fail for the sizes the parameter
  \<open>avail\<close> refuses; the handler then aborts.  A pointer is the name of a block, \<^term>\<open>None\<close> is the null
  pointer, and a block that was freed or moved has no entry any more.  The switch for thread safety
  only puts a lock around the updates of the counter; \<open>TF_Malloc_Conc\<close> interleaves them.
\<close>

section \<open>The code\<close>

record block =
  bk_size :: u64
  bk_data :: region

record tf_heap =
  hp_blocks :: "nat \<Rightarrow> block option"
  hp_next :: nat
  hp_used :: u64
  hp_safe :: bool

abbreviation PREFIX_SIZE :: u64 where "PREFIX_SIZE \<equiv> 8"

definition round_long :: "u64 \<Rightarrow> u64" where
  "round_long n = (if n AND 7 \<noteq> 0 then n + (8 - (n AND 7)) else n)"

definition tf_malloc_stat_alloc :: "u64 \<Rightarrow> tf_heap \<Rightarrow> tf_heap" where
  "tf_malloc_stat_alloc n h = h\<lparr>hp_used := hp_used h + round_long n\<rparr>"

definition tf_malloc_stat_free :: "u64 \<Rightarrow> tf_heap \<Rightarrow> tf_heap" where
  "tf_malloc_stat_free n h = h\<lparr>hp_used := hp_used h - round_long n\<rparr>"

text \<open>A block that cannot hold the prefix (the size wrapped around) is overrun by writing it.\<close>

definition new_block :: "(u64 \<Rightarrow> bool) \<Rightarrow> u64 \<Rightarrow> region \<Rightarrow> tf_heap \<Rightarrow> c_error + tf_heap \<times> nat" where
  "new_block avail sz data h =
     (if \<not> avail (sz + PREFIX_SIZE) then Inl Out_Of_Memory
      else if sz + PREFIX_SIZE < PREFIX_SIZE then Inl Out_Of_Bounds
      else Inr (h\<lparr>hp_blocks := (hp_blocks h)(hp_next h \<mapsto> \<lparr>bk_size = sz, bk_data = data\<rparr>),
                  hp_next := Suc (hp_next h)\<rparr>, hp_next h))"

definition tf_alloc :: "(u64 \<Rightarrow> bool) \<Rightarrow> u64 \<Rightarrow> tf_heap \<Rightarrow> c_error + tf_heap \<times> nat" where
  "tf_alloc avail sz h =
     rbind (new_block avail sz (replicate (unat sz) None) h) (\<lambda>(h, p).
     Inr (tf_malloc_stat_alloc (sz + PREFIX_SIZE) h, p))"

definition tf_calloc :: "(u64 \<Rightarrow> bool) \<Rightarrow> u64 \<Rightarrow> tf_heap \<Rightarrow> c_error + tf_heap \<times> nat" where
  "tf_calloc avail sz h =
     rbind (new_block avail sz (replicate (unat sz) (Some 0)) h) (\<lambda>(h, p).
     Inr (tf_malloc_stat_alloc (sz + PREFIX_SIZE) h, p))"

definition live :: "tf_heap \<Rightarrow> nat \<Rightarrow> c_error + block" where
  "live h p = (case hp_blocks h p of None \<Rightarrow> Inl Use_After_Free | Some b \<Rightarrow> Inr b)"

definition tf_malloc_size :: "tf_heap \<Rightarrow> nat \<Rightarrow> c_error + u64" where
  "tf_malloc_size h p = rbind (live h p) (\<lambda>b. Inr (round_long (bk_size b) + PREFIX_SIZE))"

definition tf_realloc :: "(u64 \<Rightarrow> bool) \<Rightarrow> nat option \<Rightarrow> u64 \<Rightarrow> tf_heap \<Rightarrow> c_error + tf_heap \<times> nat" where
  "tf_realloc avail ptr sz h =
     (case ptr of
        None \<Rightarrow> tf_alloc avail sz h
      | Some p \<Rightarrow>
          rbind (live h p) (\<lambda>b.
          rbind (new_block avail sz (resize (bk_data b) (unat sz)) (h\<lparr>hp_blocks := (hp_blocks h)(p := None)\<rparr>)) (\<lambda>(h, q).
          Inr (tf_malloc_stat_alloc sz (tf_malloc_stat_free (bk_size b) h), q))))"

definition tf_free :: "nat option \<Rightarrow> tf_heap \<Rightarrow> c_error + tf_heap" where
  "tf_free ptr h =
     (case ptr of
        None \<Rightarrow> Inr h
      | Some p \<Rightarrow>
          rbind (live h p) (\<lambda>b.
          Inr (tf_malloc_stat_free (bk_size b + PREFIX_SIZE) (h\<lparr>hp_blocks := (hp_blocks h)(p := None)\<rparr>))))"

definition tf_malloc_used_memory :: "tf_heap \<Rightarrow> u64" where
  "tf_malloc_used_memory h = hp_used h"

definition tf_malloc_enable_thread_safeness :: "tf_heap \<Rightarrow> tf_heap" where
  "tf_malloc_enable_thread_safeness h = h\<lparr>hp_safe := True\<rparr>"

definition tf_memdup :: "(u64 \<Rightarrow> bool) \<Rightarrow> region \<Rightarrow> u64 \<Rightarrow> tf_heap \<Rightarrow> c_error + tf_heap \<times> nat" where
  "tf_memdup avail src sz h =
     rbind (tf_alloc avail (sz + 1) h) (\<lambda>(h, p).
     rbind (live h p) (\<lambda>b.
     rbind (slice src 0 (unat sz)) (\<lambda>bytes.
     rbind (blit (bk_data b) 0 bytes) (\<lambda>data.
     rbind (wr data (unat sz) (Some 0)) (\<lambda>data.
     Inr (h\<lparr>hp_blocks := (hp_blocks h)(p \<mapsto> b\<lparr>bk_data := data\<rparr>)\<rparr>, p))))))"

definition empty_heap :: tf_heap where
  "empty_heap = \<lparr>hp_blocks = (\<lambda>_. None), hp_next = 0, hp_used = 0, hp_safe = False\<rparr>"

text \<open>A client's calls; a pointer is one that was returned before, live or not.\<close>

datatype heap_op =
    Alloc u64
  | Calloc u64
  | Realloc "nat option" u64
  | Free "nat option"
  | Memdup region u64
  | Thread_Safe

definition heap_step :: "(u64 \<Rightarrow> bool) \<Rightarrow> heap_op \<Rightarrow> tf_heap \<Rightarrow> c_error + tf_heap" where
  "heap_step avail c h = (case c of
     Alloc n \<Rightarrow> rbind (tf_alloc avail n h) (\<lambda>(h, _). Inr h)
   | Calloc n \<Rightarrow> rbind (tf_calloc avail n h) (\<lambda>(h, _). Inr h)
   | Realloc p n \<Rightarrow> rbind (tf_realloc avail p n h) (\<lambda>(h, _). Inr h)
   | Free p \<Rightarrow> tf_free p h
   | Memdup src n \<Rightarrow> rbind (tf_memdup avail src n h) (\<lambda>(h, _). Inr h)
   | Thread_Safe \<Rightarrow> Inr (tf_malloc_enable_thread_safeness h))"

fun heap_run :: "(u64 \<Rightarrow> bool) \<Rightarrow> heap_op list \<Rightarrow> tf_heap \<Rightarrow> c_error + tf_heap" where
  "heap_run avail [] h = Inr h"
| "heap_run avail (c # cs) h = rbind (heap_step avail c h) (heap_run avail cs)"

section \<open>The counter\<close>

lemma unat_low_3: "unat ((n :: u64) AND 7) = unat n mod 8"
proof -
  have "(7 :: u64) = mask 3" by (simp add: mask_eq_exp_minus_1)
  then have "unat (n AND 7) = take_bit 3 (unat n)"
    by (simp only: unsigned_take_bit_eq flip: take_bit_eq_mask)
  then show ?thesis by (simp add: take_bit_eq_mod)
qed

lemma low_bits_add_8: "((n :: u64) + 8) AND 7 = n AND 7"
proof -
  have "unat (n + 8) mod 8 = (unat n + 8) mod 8"
    by (simp add: unat_word_ariths mod_mod_cancel)
  then have "unat ((n + 8) AND 7) = unat (n AND 7)" by (simp only: unat_low_3 mod_add_self2)
  then show ?thesis by (simp only: word_unat_eq_iff)
qed

lemma round_long_prefix: "round_long (n + 8) = round_long n + 8"
  by (simp add: round_long_def low_bits_add_8)

text \<open>What a block costs: its size rounded to a multiple of eight, and the prefix.\<close>

definition block_cost :: "block \<Rightarrow> u64" where
  "block_cost b = round_long (bk_size b) + PREFIX_SIZE"

definition live_cost :: "(nat \<Rightarrow> block option) \<Rightarrow> u64" where
  "live_cost m = (\<Sum>p \<in> dom m. block_cost (the (m p)))"

definition heap_ok :: "tf_heap \<Rightarrow> bool" where
  "heap_ok h \<longleftrightarrow> finite (dom (hp_blocks h)) \<and> (\<forall>p \<in> dom (hp_blocks h). p < hp_next h) \<and>
     (\<forall>p b. hp_blocks h p = Some b \<longrightarrow> length (bk_data b) = unat (bk_size b)) \<and>
     hp_used h = live_cost (hp_blocks h)"

lemma live_cost_add:
  "finite (dom m) \<Longrightarrow> m p = None \<Longrightarrow> live_cost (m(p \<mapsto> b)) = live_cost m + block_cost b"
proof -
  assume m: "finite (dom m)" "m p = None"
  then have "p \<notin> dom m" by auto
  then have "(\<Sum>q \<in> dom m. block_cost (the ((m(p \<mapsto> b)) q))) = (\<Sum>q \<in> dom m. block_cost (the (m q)))"
    by (intro sum.cong) auto
  then show ?thesis using m \<open>p \<notin> dom m\<close> by (simp add: live_cost_def add.commute)
qed

lemma live_cost_remove:
  "finite (dom m) \<Longrightarrow> m p = Some b \<Longrightarrow> live_cost (m(p := None)) = live_cost m - block_cost b"
proof -
  assume m: "finite (dom m)" "m p = Some b"
  then have "live_cost ((m(p := None))(p \<mapsto> b)) = live_cost (m(p := None)) + block_cost b"
    by (intro live_cost_add) auto
  moreover have "(m(p := None))(p \<mapsto> b) = m" using m(2) by auto
  ultimately show ?thesis by simp
qed

lemma live_cost_same:
  "m p = Some b \<Longrightarrow> bk_size b' = bk_size b \<Longrightarrow> live_cost (m(p \<mapsto> b')) = live_cost m"
  unfolding live_cost_def by (intro sum.cong) (auto simp: block_cost_def)

lemma heap_ok_fresh: "heap_ok h \<Longrightarrow> hp_blocks h (hp_next h) = None"
  by (auto simp: heap_ok_def)

lemma new_block_ok:
  assumes "new_block avail sz data h = Inr (h', q)" "heap_ok (h\<lparr>hp_used := u\<rparr>)" "length data = unat sz"
  shows "heap_ok (h'\<lparr>hp_used := u + block_cost \<lparr>bk_size = sz, bk_data = data\<rparr>\<rparr>)" "q = hp_next h"
    "h' = h\<lparr>hp_blocks := (hp_blocks h)(q \<mapsto> \<lparr>bk_size = sz, bk_data = data\<rparr>), hp_next := Suc q\<rparr>"
  using assms heap_ok_fresh [OF assms(2)]
  by (auto simp: new_block_def heap_ok_def live_cost_add less_Suc_eq split: if_splits)

lemma heap_ok_used: "heap_ok h \<Longrightarrow> heap_ok (h\<lparr>hp_used := hp_used h\<rparr>)"
  by simp

lemma alloc_ok:
  assumes "tf_alloc avail sz h = Inr (h', q)" "heap_ok h"
  shows "heap_ok h'"
  using assms new_block_ok(1) [of avail sz "replicate (unat sz) None" h _ q "hp_used h"]
    new_block_ok(3) [of avail sz "replicate (unat sz) None" h _ q "hp_used h"]
  by (auto simp: tf_alloc_def rbind_eq_Inr tf_malloc_stat_alloc_def round_long_prefix block_cost_def)

lemma calloc_ok:
  assumes "tf_calloc avail sz h = Inr (h', q)" "heap_ok h"
  shows "heap_ok h'"
  using assms new_block_ok(1) [of avail sz "replicate (unat sz) (Some 0)" h _ q "hp_used h"]
    new_block_ok(3) [of avail sz "replicate (unat sz) (Some 0)" h _ q "hp_used h"]
  by (auto simp: tf_calloc_def rbind_eq_Inr tf_malloc_stat_alloc_def round_long_prefix block_cost_def)

lemma drop_block_ok:
  "heap_ok h \<Longrightarrow> hp_blocks h p = Some b \<Longrightarrow>
     heap_ok (h\<lparr>hp_blocks := (hp_blocks h)(p := None), hp_used := hp_used h - block_cost b\<rparr>)"
  by (auto simp: heap_ok_def live_cost_remove)

lemma free_ok: "tf_free p h = Inr h' \<Longrightarrow> heap_ok h \<Longrightarrow> heap_ok h'"
  using drop_block_ok
  by (fastforce simp: tf_free_def live_def rbind_eq_Inr tf_malloc_stat_free_def round_long_prefix block_cost_def
      split: option.splits)

lemma realloc_ok:
  assumes "tf_realloc avail ptr sz h = Inr (h', q)" "heap_ok h"
  shows "heap_ok h'"
proof (cases ptr)
  case None
  then show ?thesis using assms alloc_ok by (simp add: tf_realloc_def)
next
  case (Some p)
  obtain b h1 where b: "hp_blocks h p = Some b"
    and n: "new_block avail sz (resize (bk_data b) (unat sz)) (h\<lparr>hp_blocks := (hp_blocks h)(p := None)\<rparr>) = Inr (h1, q)"
    and h': "h' = tf_malloc_stat_alloc sz (tf_malloc_stat_free (bk_size b) h1)"
    using assms(1) Some by (auto simp: tf_realloc_def live_def rbind_eq_Inr split: option.splits)
  let ?u = "hp_used h - block_cost b"
  let ?h = "h\<lparr>hp_blocks := (hp_blocks h)(p := None)\<rparr>"
  have r: "heap_ok (?h\<lparr>hp_used := ?u\<rparr>)" using drop_block_ok [OF assms(2) b] by simp
  note nb = new_block_ok [OF n r length_resize]
  have "hp_used h1 = hp_used h" using nb(3) by simp
  then have "h' = h1\<lparr>hp_used := ?u + block_cost \<lparr>bk_size = sz, bk_data = resize (bk_data b) (unat sz)\<rparr>\<rparr>"
    by (simp add: h' tf_malloc_stat_alloc_def tf_malloc_stat_free_def block_cost_def)
  then show ?thesis using nb(1) by simp
qed

lemma set_data_ok:
  "heap_ok h \<Longrightarrow> hp_blocks h p = Some b \<Longrightarrow> length data = length (bk_data b) \<Longrightarrow>
     heap_ok (h\<lparr>hp_blocks := (hp_blocks h)(p \<mapsto> b\<lparr>bk_data := data\<rparr>)\<rparr>)"
  by (auto simp: heap_ok_def live_cost_same insert_absorb domI)

lemma memdup_ok:
  assumes "tf_memdup avail src sz h = Inr (h', q)" "heap_ok h"
  shows "heap_ok h'"
proof -
  obtain h1 b bytes data where a: "tf_alloc avail (sz + 1) h = Inr (h1, q)" "hp_blocks h1 q = Some b"
      "blit (bk_data b) 0 bytes = Inr data" "unat sz < length data"
      "h' = h1\<lparr>hp_blocks := (hp_blocks h1)(q \<mapsto> b\<lparr>bk_data := data[unat sz := Some 0]\<rparr>)\<rparr>"
    using assms(1)
    by (fastforce simp: tf_memdup_def live_def rbind_eq_Inr wr_def split: option.splits if_splits)
  have "length data = length (bk_data b)" using a(3) by (auto simp: blit_def split: if_splits)
  then show ?thesis using set_data_ok [OF alloc_ok [OF a(1) assms(2)] a(2)] by (simp add: a(5))
qed

lemma heap_step_ok: "heap_step avail c h = Inr h' \<Longrightarrow> heap_ok h \<Longrightarrow> heap_ok h'"
  by (auto simp: heap_step_def rbind_eq_Inr tf_malloc_enable_thread_safeness_def heap_ok_def [of "h\<lparr>hp_safe := True\<rparr>"]
      heap_ok_def [of h] intro: alloc_ok calloc_ok realloc_ok free_ok memdup_ok split: heap_op.splits)

lemma heap_run_ok: "heap_run avail cs h = Inr h' \<Longrightarrow> heap_ok h \<Longrightarrow> heap_ok h'"
  by (induction avail cs h rule: heap_run.induct) (auto simp: rbind_eq_Inr intro: heap_step_ok)

section \<open>Properties\<close>

text \<open>
  C12: Whatever a client allocates, resizes, copies and frees, the counter of used memory is at every
  moment the sum of the sizes \<open>tf_malloc_size\<close> reports for the live blocks, modulo 2 to the 64.
\<close>

theorem used_memory_exact:
  assumes "heap_run avail cs empty_heap = Inr h"
  shows "finite (dom (hp_blocks h)) \<and>
    tf_malloc_used_memory h = (\<Sum>p \<in> dom (hp_blocks h). case tf_malloc_size h p of Inl e \<Rightarrow> 0 | Inr n \<Rightarrow> n)"
proof -
  have "heap_ok empty_heap" by (simp add: heap_ok_def empty_heap_def live_cost_def)
  then have ok: "heap_ok h" using heap_run_ok assms by blast
  have "live_cost (hp_blocks h) = (\<Sum>p \<in> dom (hp_blocks h). case tf_malloc_size h p of Inl e \<Rightarrow> 0 | Inr n \<Rightarrow> n)"
    unfolding live_cost_def by (intro sum.cong) (auto simp: tf_malloc_size_def live_def block_cost_def)
  then show ?thesis using ok by (simp add: heap_ok_def tf_malloc_used_memory_def)
qed

theorem used_memory_exact_witness:
  "\<exists>h. heap_run (\<lambda>_. True) [Alloc 5, Realloc (Some 0) 100, Free None, Free (Some 1)] empty_heap = Inr h \<and>
     finite (dom (hp_blocks h)) \<and>
     tf_malloc_used_memory h = (\<Sum>p \<in> dom (hp_blocks h). case tf_malloc_size h p of Inl e \<Rightarrow> 0 | Inr n \<Rightarrow> n)"
proof -
  have "\<exists>h. heap_run (\<lambda>_. True) [Alloc 5, Realloc (Some 0) 100, Free None, Free (Some 1)] empty_heap = Inr h"
    by (simp add: heap_step_def tf_alloc_def tf_realloc_def tf_free_def new_block_def live_def empty_heap_def
        tf_malloc_stat_alloc_def tf_malloc_stat_free_def)
  then show ?thesis using used_memory_exact by blast
qed

text \<open>
  Resizing a live block keeps its contents up to the smaller size, leaves every other block alone and
  ends the old pointer: using it again, or freeing it twice, is an error.
\<close>

lemma tf_realloc_keeps:
  assumes "heap_ok h" "hp_blocks h p = Some b" "avail (sz + 8)" "unat sz + 8 < 2 ^ 64"
  shows "\<exists>h' q c. tf_realloc avail (Some p) sz h = Inr (h', q) \<and> q \<noteq> p \<and> hp_blocks h' q = Some c \<and>
    length (bk_data c) = unat sz \<and>
    (\<forall>i < min (unat sz) (unat (bk_size b)). bk_data c ! i = bk_data b ! i) \<and>
    (\<forall>r. r \<noteq> p \<longrightarrow> r \<noteq> q \<longrightarrow> hp_blocks h' r = hp_blocks h r) \<and>
    tf_free (Some p) h' = Inl Use_After_Free \<and> tf_realloc avail (Some p) sz h' = Inl Use_After_Free"
proof -
  let ?q = "hp_next h" and ?c = "\<lparr>bk_size = sz, bk_data = resize (bk_data b) (unat sz)\<rparr>"
  have pq: "?q \<noteq> p" using assms(1,2) by (auto simp: heap_ok_def)
  have len: "length (bk_data b) = unat (bk_size b)" using assms(1,2) by (simp add: heap_ok_def)
  have "unat (sz + 8) = unat sz + 8" using assms(4) by (simp add: unat_word_ariths)
  then have "\<not> sz + 8 < 8" by (simp add: word_less_nat_alt)
  then obtain h' where h': "tf_realloc avail (Some p) sz h = Inr (h', ?q)"
      "hp_blocks h' = (hp_blocks h)(p := None, ?q \<mapsto> ?c)"
    using assms(2,3) by (simp add: tf_realloc_def live_def new_block_def tf_malloc_stat_alloc_def tf_malloc_stat_free_def)
  then show ?thesis
    using pq len by (intro exI [of _ h'] exI [of _ ?q] exI [of _ ?c]) (auto simp: nth_resize tf_free_def tf_realloc_def live_def)
qed

lemma tf_realloc_keeps_example:
  "\<exists>h' q c. tf_realloc (\<lambda>_. True) (Some 0) 3
       \<lparr>hp_blocks = [0 \<mapsto> \<lparr>bk_size = 2, bk_data = [Some 7, None]\<rparr>], hp_next = 1, hp_used = 16, hp_safe = False\<rparr> = Inr (h', q) \<and>
     hp_blocks h' q = Some c \<and> bk_data c ! 0 = Some 7"
proof -
  let ?b = "\<lparr>bk_size = 2, bk_data = [Some 7, None]\<rparr>"
  let ?h = "\<lparr>hp_blocks = [0 \<mapsto> ?b], hp_next = 1, hp_used = 16, hp_safe = False\<rparr>"
  have "heap_ok ?h" by (simp add: heap_ok_def live_cost_def block_cost_def round_long_def)
  then show ?thesis using tf_realloc_keeps [of ?h 0 ?b "\<lambda>_. True" 3] by fastforce
qed

end
