(* ===== verification/TF_Str.thy ===== *)
theory TF_Str
  imports TF_Numbers
begin

text \<open>
  The extensible string of \<open>tf_string.c\<close>: its three fields, creation, concatenation with growth of the
  buffer, and the formatted output of \<open>tf_vstrprintf\<close>.  Sizes are 32-bit words as in the structure.
  What \<open>sprintf\<close> writes for a conversion is an argument of the model; the buffers it is given have
  their sizes.  Allocation succeeds.
\<close>

section \<open>The string\<close>

definition TF_STR_UNIT :: nat where "TF_STR_UNIT = 16"

record tf_str =
  st_size :: u32
  st_asize :: u32
  st_ptr :: region

definition tf_strnew :: tf_str where
  "tf_strnew = \<lparr>st_size = 0, st_asize = of_nat TF_STR_UNIT, st_ptr = Some 0 # replicate (TF_STR_UNIT - 1) None\<rparr>"

definition tf_strnew2 :: "cstr \<Rightarrow> c_error + tf_str" where
  "tf_strnew2 str =
     rbind (chk_int (length str)) (\<lambda>sz.
     rbind (chk_int (sz + 1)) (\<lambda>n.
     let asize = max n TF_STR_UNIT
     in rbind (blit (replicate asize None) 0 (map Some (str @ [0]))) (\<lambda>ptr.
        Inr \<lparr>st_size = of_nat sz, st_asize = of_nat asize, st_ptr = ptr\<rparr>)))"

definition tf_strnew3 :: "int \<Rightarrow> c_error + tf_str" where
  "tf_strnew3 asiz =
     (if asiz < 0 then Inl Assert_Fail
      else let asiz = max (nat asiz) TF_STR_UNIT
           in Inr \<lparr>st_size = 0, st_asize = of_nat asiz, st_ptr = Some 0 # replicate (asiz - 1) None\<rparr>)"

definition tf_strdup :: "tf_str \<Rightarrow> c_error + tf_str" where
  "tf_strdup x =
     (let asize = max (st_size x + 1) (of_nat TF_STR_UNIT)
      in rbind (slice (st_ptr x) 0 (unat (st_size x + 1))) (\<lambda>bytes.
         rbind (blit (replicate (unat asize) None) 0 bytes) (\<lambda>ptr.
         Inr \<lparr>st_size = st_size x, st_asize = asize, st_ptr = ptr\<rparr>)))"

text \<open>One turn of the loop makes the buffer large enough, so it never takes a second one.\<close>

definition str_grow :: "tf_str \<Rightarrow> u32 \<Rightarrow> tf_str" where
  "str_grow x nsize =
     (if st_asize x < nsize
      then let asize = st_asize x * 2; asize = (if asize < nsize then nsize else asize)
           in x\<lparr>st_asize := asize, st_ptr := resize (st_ptr x) (unat asize)\<rparr>
      else x)"

definition tf_strcat :: "tf_str \<Rightarrow> region \<Rightarrow> int \<Rightarrow> c_error + tf_str" where
  "tf_strcat x src n =
     (if n < 0 then Inl Assert_Fail
      else let x = str_grow x (st_size x + word_of_int n + 1)
           in rbind (slice src 0 (nat n)) (\<lambda>bytes.
              rbind (blit (st_ptr x) (unat (st_size x)) bytes) (\<lambda>ptr.
              let x = x\<lparr>st_ptr := ptr, st_size := st_size x + word_of_int n\<rparr>
              in rbind (wr (st_ptr x) (unat (st_size x)) (Some 0)) (\<lambda>ptr.
                 Inr (x\<lparr>st_ptr := ptr\<rparr>)))))"

definition tf_strcat2 :: "tf_str \<Rightarrow> cstr \<Rightarrow> c_error + tf_str" where
  "tf_strcat2 x str =
     rbind (chk_int (length str)) (\<lambda>n.
     let x = str_grow x (st_size x + of_nat n + 1)
     in rbind (blit (st_ptr x) (unat (st_size x)) (map Some (str @ [0]))) (\<lambda>ptr.
        Inr (x\<lparr>st_ptr := ptr, st_size := st_size x + of_nat n\<rparr>)))"

definition tf_strptr :: "tf_str \<Rightarrow> region" where
  "tf_strptr x = st_ptr x"

definition tf_strsize :: "tf_str \<Rightarrow> int" where
  "tf_strsize x = sint (st_size x)"

definition tf_strclear :: "tf_str \<Rightarrow> c_error + tf_str" where
  "tf_strclear x = rbind (wr (st_ptr x) 0 (Some 0)) (\<lambda>ptr. Inr (x\<lparr>st_size := 0, st_ptr := ptr\<rparr>))"

definition tf_strtomalloc :: "tf_str \<Rightarrow> region" where
  "tf_strtomalloc x = st_ptr x"

text \<open>The allocated size is recorded without the terminator.\<close>

definition tf_strfrommalloc :: "region \<Rightarrow> nat \<Rightarrow> c_error + tf_str" where
  "tf_strfrommalloc ptr sz =
     rbind (chk_int (sz + 1)) (\<lambda>n.
     rbind (wr (resize ptr n) sz (Some 0)) (\<lambda>ptr.
     Inr \<lparr>st_size = of_nat sz, st_asize = of_nat sz, st_ptr = ptr\<rparr>))"

section \<open>Formatted output\<close>

datatype fmt_arg = Arg_str "cstr option" | Arg_num u64 | Arg_float nat

text \<open>\<open>char cbuf[TFNUMBUFSIZ]\<close> and \<open>char tbuf[TFNUMBUFSIZ*4]\<close>.\<close>

definition TFNUMBUFSIZ :: nat where "TFNUMBUFSIZ = 32"

definition flag_chars :: "byte list" where
  "flag_chars = ascii ''0123456789 .+-hlLz''"

fun scan_flags :: "cstr \<Rightarrow> region \<Rightarrow> nat \<Rightarrow> nat \<Rightarrow> c_error + region \<times> nat \<times> nat \<times> cstr" where
  "scan_flags [] cbuf cblen lnum = Inr (cbuf, cblen, lnum, [])"
| "scan_flags (c # fmt) cbuf cblen lnum =
     (if c \<in> set flag_chars \<and> cblen < TFNUMBUFSIZ - 1
      then rbind (wr cbuf cblen (Some c)) (\<lambda>cbuf.
           scan_flags fmt cbuf (cblen + 1) (if c = 108 \<or> c = 76 then lnum + 1 else lnum))
      else Inr (cbuf, cblen, lnum, c # fmt))"

definition cat_bytes :: "tf_str \<Rightarrow> byte list \<Rightarrow> c_error + tf_str" where
  "cat_bytes x bs = tf_strcat x (map Some bs) (int (length bs))"

fun xml_cat :: "cstr \<Rightarrow> tf_str \<Rightarrow> c_error + tf_str" where
  "xml_cat [] x = Inr x"
| "xml_cat (c # tmp) x =
     rbind (if c = 38 then cat_bytes x (ascii ''&amp;'')
            else if c = 60 then cat_bytes x (ascii ''&lt;'')
            else if c = 62 then cat_bytes x (ascii ''&gt;'')
            else if c = 34 then cat_bytes x (ascii ''&quot;'')
            else if \<not> (0 \<le> sint c \<and> sint c \<le> 8 \<or> 0xe \<le> sint c \<and> sint c \<le> 0x1f) then cat_bytes x [c]
            else Inr x) (xml_cat tmp)"

definition url_plain :: "byte \<Rightarrow> bool" where
  "url_plain c \<longleftrightarrow> 65 \<le> c \<and> c \<le> 90 \<or> 97 \<le> c \<and> c \<le> 122 \<or> 48 \<le> c \<and> c \<le> 57 \<or>
     c = 95 \<or> c = 45 \<or> c = 46"

text \<open>\<open>sprintf(tbuf, "%%%02X", c)\<close>.\<close>

definition hex_upper :: "byte \<Rightarrow> byte" where
  "hex_upper d = (if d < 10 then d + 48 else d + 55)"

definition percent_hex :: "byte \<Rightarrow> byte list" where
  "percent_hex c = [37, hex_upper (drop_bit 4 (c AND 0xf0)), hex_upper (c AND 0xf)]"

fun url_cat :: "cstr \<Rightarrow> tf_str \<Rightarrow> c_error + tf_str" where
  "url_cat [] x = Inr x"
| "url_cat (c # tmp) x = rbind (cat_bytes x (if url_plain c then [c] else percent_hex c)) (url_cat tmp)"

text \<open>\<open>sprintf\<close> into \<open>tbuf\<close>, and \<open>snprintf\<close> with the correction that follows it.\<close>

definition sprintf_tbuf :: "byte list \<Rightarrow> c_error + byte list" where
  "sprintf_tbuf t = (if length t + 1 \<le> TFNUMBUFSIZ * 4 then Inr t else Inl Out_Of_Bounds)"

definition snprintf_tbuf :: "byte list \<Rightarrow> byte list" where
  "snprintf_tbuf t =
     (let tbuf = (if length t < TFNUMBUFSIZ * 4 then t else take (TFNUMBUFSIZ * 4 - 1) t @ [0])
      in if length t > TFNUMBUFSIZ * 4 then tbuf[TFNUMBUFSIZ * 4 - 1 := 42] else tbuf)"

definition arg_str :: "fmt_arg list \<Rightarrow> c_error + cstr \<times> fmt_arg list" where
  "arg_str args = (case args of
     Arg_str (Some s) # r \<Rightarrow> Inr (s, r) | Arg_str None # r \<Rightarrow> Inr (ascii ''(null)'', r) | _ \<Rightarrow> Inl Wrong_Argument)"

definition arg_num :: "nat \<Rightarrow> fmt_arg list \<Rightarrow> c_error + u64 \<times> fmt_arg list" where
  "arg_num lnum args = (case args of
     Arg_num n # r \<Rightarrow> Inr (if lnum \<ge> 1 then n else take_bit 32 n, r) | _ \<Rightarrow> Inl Wrong_Argument)"

definition arg_float :: "fmt_arg list \<Rightarrow> c_error + fmt_arg \<times> fmt_arg list" where
  "arg_float args = (case args of Arg_float n # r \<Rightarrow> Inr (Arg_float n, r) | _ \<Rightarrow> Inl Wrong_Argument)"

text \<open>The conversion itself: \<open>cbuf\<close> is the directive with its percent sign and conversion character.\<close>

definition convert ::
    "(cstr \<Rightarrow> fmt_arg \<Rightarrow> byte list) \<Rightarrow> cstr \<Rightarrow> nat \<Rightarrow> byte \<Rightarrow> tf_str \<Rightarrow> fmt_arg list \<Rightarrow> c_error + tf_str \<times> fmt_arg list" where
  "convert spf cbuf lnum d x args =
     (if d = 115 then
        rbind (arg_str args) (\<lambda>(s, args). rbind (tf_strcat2 x s) (\<lambda>x. Inr (x, args)))
      else if d \<in> set (ascii ''douxXc'') then
        rbind (arg_num lnum args) (\<lambda>(n, args).
        rbind (sprintf_tbuf (spf cbuf (Arg_num n))) (\<lambda>t.
        rbind (cat_bytes x t) (\<lambda>x. Inr (x, args))))
      else if d \<in> set (ascii ''eEfgG'') then
        rbind (arg_float args) (\<lambda>(a, args).
        rbind (cat_bytes x (snprintf_tbuf (spf cbuf a))) (\<lambda>x. Inr (x, args)))
      else if d = 64 then
        rbind (arg_str args) (\<lambda>(s, args). rbind (xml_cat s x) (\<lambda>x. Inr (x, args)))
      else if d = 63 then
        rbind (arg_str args) (\<lambda>(s, args). rbind (url_cat s x) (\<lambda>x. Inr (x, args)))
      else if d = 98 then
        rbind (arg_num lnum args) (\<lambda>(n, args).
        rbind (tf_atoi (tl cbuf)) (\<lambda>col.
        rbind (tf_num2strbin n (replicate (TFNUMBUFSIZ * 4) None) (to_int col) (if tl cbuf \<noteq> [] \<and> hd (tl cbuf) = 48 then 48 else 32)) (\<lambda>(tbuf, tlen).
        rbind (tf_strcat x tbuf (int tlen)) (\<lambda>x. Inr (x, args)))))
      else if d = 37 then rbind (cat_bytes x [37]) (\<lambda>x. Inr (x, args))
      else Inr (x, args))"

text \<open>A directive; the character after the flags, or the terminator, is its conversion.\<close>

definition directive ::
    "(cstr \<Rightarrow> fmt_arg \<Rightarrow> byte list) \<Rightarrow> cstr \<Rightarrow> tf_str \<Rightarrow> fmt_arg list \<Rightarrow> c_error + cstr \<times> tf_str \<times> fmt_arg list" where
  "directive spf fmt x args =
     rbind (scan_flags fmt (Some 37 # replicate (TFNUMBUFSIZ - 1) None) 1 0) (\<lambda>(cbuf, cblen, lnum, rest).
     let d = (case rest of [] \<Rightarrow> 0 | c # _ \<Rightarrow> c)
     in rbind (wr cbuf cblen (Some d)) (\<lambda>cbuf.
        rbind (wr cbuf (cblen + 1) (Some 0)) (\<lambda>cbuf.
        rbind (convert spf (takeWhile (\<lambda>c. c \<noteq> 0) (map the (take (cblen + 1) cbuf))) lnum d x args) (\<lambda>(x, args).
        case rest of [] \<Rightarrow> Inl Out_Of_Bounds | _ # rest \<Rightarrow> Inr (rest, x, args)))))"

lemma scan_flags_rest: "scan_flags fmt cbuf n l = Inr (cbuf', n', l', rest) \<Longrightarrow> length rest \<le> length fmt"
  by (induction fmt cbuf n l rule: scan_flags.induct) (auto simp: rbind_eq_Inr split: if_splits)

lemma directive_rest: "directive spf fmt x args = Inr (rest, x', args') \<Longrightarrow> length rest < Suc (length fmt)"
proof -
  assume d: "directive spf fmt x args = Inr (rest, x', args')"
  obtain cbuf n l r where sc: "scan_flags fmt (Some 37 # replicate (TFNUMBUFSIZ - 1) None) 1 0 = Inr (cbuf, n, l, r)"
    using d by (cases "scan_flags fmt (Some 37 # replicate (TFNUMBUFSIZ - 1) None) 1 0") (auto simp: directive_def)
  have "rest = tl r \<and> r \<noteq> []"
    using d unfolding directive_def sc rbind_Inr prod.case Let_def
    by (auto simp: rbind_eq_Inr split: list.splits)
  then show ?thesis using scan_flags_rest [OF sc] by (cases r) auto
qed

function tf_vstrprintf ::
    "(cstr \<Rightarrow> fmt_arg \<Rightarrow> byte list) \<Rightarrow> cstr \<Rightarrow> tf_str \<Rightarrow> fmt_arg list \<Rightarrow> c_error + tf_str" where
  "tf_vstrprintf spf [] x args = Inr x"
| "tf_vstrprintf spf (c # fmt) x args =
     (if c = 37
      then rbind (directive spf fmt x args) (\<lambda>(fmt, x, args). tf_vstrprintf spf fmt x args)
      else rbind (cat_bytes x [c]) (\<lambda>x. tf_vstrprintf spf fmt x args))"
  by pat_completeness auto
termination by (relation "measure (\<lambda>(spf, fmt, x, args). length fmt)") (auto dest: directive_rest)

definition tf_strprintf where
  "tf_strprintf = tf_vstrprintf"

definition tf_sprintf ::
    "(cstr \<Rightarrow> fmt_arg \<Rightarrow> byte list) \<Rightarrow> cstr \<Rightarrow> fmt_arg list \<Rightarrow> c_error + region" where
  "tf_sprintf spf fmt args = rbind (tf_vstrprintf spf fmt tf_strnew args) (\<lambda>x. Inr (tf_strtomalloc x))"

section \<open>A string and its contents\<close>

text \<open>
  The region starts with the contents and their terminator and is at least as large as the recorded
  allocation, which may be one byte short after \<open>tf_strfrommalloc\<close>.
\<close>

definition str_is :: "tf_str \<Rightarrow> byte list \<Rightarrow> bool" where
  "str_is x s \<longleftrightarrow> length s = unat (st_size x) \<and> unat (st_asize x) \<le> length (st_ptr x) \<and>
     (\<exists>rest. st_ptr x = map Some s @ Some 0 # rest)"

lemma str_isE:
  assumes "str_is x s"
  obtains rest where "st_ptr x = map Some s @ Some 0 # rest" "length s = unat (st_size x)"
    "unat (st_asize x) \<le> length (st_ptr x)"
  using assms by (auto simp: str_is_def)

lemma str_is_new: "str_is tf_strnew []"
  by (simp add: str_is_def tf_strnew_def TF_STR_UNIT_def)

lemma unat_size_add: "unat (n :: u32) + k + 1 < 2 ^ 32 \<Longrightarrow> unat (n + of_nat k + 1) = unat n + k + 1"
  "unat (n :: u32) + k < 2 ^ 32 \<Longrightarrow> unat (n + of_nat k) = unat n + k"
  by (simp_all add: unat_word_ariths unat_u32)

lemma str_grow_is:
  assumes "str_is x s" "length s + k + 1 < 2 ^ 32"
  shows "str_is (str_grow x (st_size x + of_nat k + 1)) s \<and>
    length s + k + 1 \<le> length (st_ptr (str_grow x (st_size x + of_nat k + 1))) \<and>
    st_size (str_grow x (st_size x + of_nat k + 1)) = st_size x"
proof -
  obtain rest where x: "st_ptr x = map Some s @ Some 0 # rest" "length s = unat (st_size x)"
      "unat (st_asize x) \<le> length (st_ptr x)" using assms(1) by (rule str_isE)
  define n where "n = st_size x + of_nat k + 1"
  have n: "unat n = length s + k + 1" using unat_size_add(1) [of "st_size x" k] assms(2) x(2) by (simp add: n_def)
  show ?thesis
  proof (cases "st_asize x < n")
    case True
    define a where "a = (if st_asize x * 2 < n then n else st_asize x * 2)"
    have "n \<le> a" by (auto simp: a_def not_less)
    then have a: "length s + k + 1 \<le> unat a" using n by (simp add: word_le_nat_alt)
    have "\<exists>r. resize (st_ptr x) (unat a) = map Some s @ Some 0 # r"
    proof -
      have "take (length s + 1) (resize (st_ptr x) (unat a)) = map Some s @ [Some 0]"
        using a x(1) by (subst take_resize) auto
      then show ?thesis by (metis append_Cons append_Nil append_assoc append_take_drop_id)
    qed
    then show ?thesis
      using True a x(2) unfolding n_def [symmetric] str_grow_def Let_def a_def [symmetric] by (simp add: str_is_def)
  next
    case False
    then have "length s + k + 1 \<le> unat (st_asize x)" using n by (simp add: word_le_nat_alt not_less)
    then show ?thesis using False assms(1) x unfolding n_def [symmetric] by (simp add: str_grow_def)
  qed
qed

lemma cat_bytes_is:
  assumes "str_is x s" "length s + length bs + 1 < 2 ^ 32"
  shows "\<exists>x'. cat_bytes x bs = Inr x' \<and> str_is x' (s @ bs)"
proof -
  define g where "g = str_grow x (st_size x + of_nat (length bs) + 1)"
  note gi = str_grow_is [OF assms, folded g_def]
  obtain rest where g: "st_ptr g = map Some s @ Some 0 # rest" "length s = unat (st_size g)"
      "unat (st_asize g) \<le> length (st_ptr g)" using conjunct1 [OF gi] by (rule str_isE)
  have room: "length bs \<le> length rest" using gi g(1) by simp
  have sz: "unat (st_size g + of_nat (length bs)) = length s + length bs"
    using unat_size_add(2) [of "st_size g" "length bs"] g(2) assms(2) by simp
  have blit: "blit (st_ptr g) (unat (st_size g)) (map Some bs) =
      Inr (map Some s @ map Some bs @ drop (length bs) (Some 0 # rest))"
    using room unfolding g(1) g(2) [symmetric] by simp
  have w: "wr (map Some s @ map Some bs @ drop (length bs) (Some 0 # rest)) (length s + length bs) (Some 0) =
      Inr (map Some (s @ bs) @ Some 0 # tl (drop (length bs) (Some 0 # rest)))"
    using wr_append [of "map Some (s @ bs)" "length s + length bs" "drop (length bs) (Some 0 # rest)" "Some 0"] room by simp
  have "word_of_int (int (length bs)) = (of_nat (length bs) :: u32)" by simp
  then have "cat_bytes x bs = Inr (g\<lparr>st_size := st_size g + of_nat (length bs),
      st_ptr := map Some (s @ bs) @ Some 0 # tl (drop (length bs) (Some 0 # rest))\<rparr>)"
    unfolding cat_bytes_def tf_strcat_def using blit w sz by (simp add: Let_def g_def [symmetric])
  then show ?thesis using sz g(3) room by (simp add: str_is_def g(1))
qed

lemma tf_strcat2_is:
  assumes "str_is x s" "length s + length bs + 1 < 2 ^ 32" "length bs \<le> int_max"
  shows "\<exists>x'. tf_strcat2 x bs = Inr x' \<and> str_is x' (s @ bs)"
proof -
  define g where "g = str_grow x (st_size x + of_nat (length bs) + 1)"
  note gi = str_grow_is [OF assms(1,2), folded g_def]
  obtain rest where g: "st_ptr g = map Some s @ Some 0 # rest" "length s = unat (st_size g)"
      "unat (st_asize g) \<le> length (st_ptr g)" using conjunct1 [OF gi] by (rule str_isE)
  have room: "length bs \<le> length rest" using gi g(1) by simp
  have sz: "unat (st_size g + of_nat (length bs)) = length s + length bs"
    using unat_size_add(2) [of "st_size g" "length bs"] g(2) assms(2) by simp
  have "blit (st_ptr g) (unat (st_size g)) (map Some (bs @ [0])) =
      Inr (map Some s @ map Some (bs @ [0]) @ drop (length bs + 1) (Some 0 # rest))"
    using room unfolding g(1) g(2) [symmetric] by simp
  then have "tf_strcat2 x bs = Inr (g\<lparr>st_ptr := map Some s @ map Some (bs @ [0]) @ drop (length bs + 1) (Some 0 # rest),
      st_size := st_size g + of_nat (length bs)\<rparr>)"
    using assms(3) by (simp add: tf_strcat2_def Let_def g_def [symmetric])
  then show ?thesis using sz g(3) room by (simp add: str_is_def g(1))
qed

text \<open>
  What the formatter needs of a string: that it can be written to.  The interface is a store of text with an
  operation that appends, and its consequence that a sequence of pieces is appended in order; both concatenations of
  the string provide it.
\<close>

fun put_all :: "('s \<Rightarrow> byte list \<Rightarrow> c_error + 's) \<Rightarrow> byte list list \<Rightarrow> 's \<Rightarrow> c_error + 's" where
  "put_all put [] x = Inr x"
| "put_all put (p # ps) x = rbind (put x p) (put_all put ps)"

locale writer =
  fixes holds :: "'s \<Rightarrow> byte list \<Rightarrow> bool"
    and put :: "'s \<Rightarrow> byte list \<Rightarrow> c_error + 's"
    and limit :: nat
  assumes put_ok: "holds x s \<Longrightarrow> length s + length bs + 1 < limit \<Longrightarrow> \<exists>x'. put x bs = Inr x' \<and> holds x' (s @ bs)"
begin

lemma put_all_ok:
  "holds x s \<Longrightarrow> length s + length (concat ps) + 1 < limit \<Longrightarrow> \<exists>x'. put_all put ps x = Inr x' \<and> holds x' (s @ concat ps)"
proof (induction ps arbitrary: x s)
  case (Cons p ps)
  obtain x1 where "put x p = Inr x1" "holds x1 (s @ p)" using put_ok [OF Cons.prems(1), of p] Cons.prems(2) by auto
  then show ?case using Cons.IH [of x1 "s @ p"] Cons.prems(2) by simp
qed simp

end

interpretation bytes: writer str_is cat_bytes "2 ^ 32"
  by unfold_locales (rule cat_bytes_is)

interpretation chars: writer str_is tf_strcat2 "int_max + 1"
  by unfold_locales (rule tf_strcat2_is; simp add: int_max_def)

lemma tf_strnew2_is: "length s + 1 \<le> int_max \<Longrightarrow> \<exists>x. tf_strnew2 s = Inr x \<and> str_is x s"
proof -
  assume s: "length s + 1 \<le> int_max"
  define m where "m = max (length s + 1) TF_STR_UNIT"
  have "unat (of_nat m :: u32) \<le> m" "length s + 1 \<le> m" by (simp_all add: unat_u32 m_def)
  then show ?thesis
    using s by (simp add: tf_strnew2_def Let_def str_is_def int_max_def unat_u32 m_def [symmetric])
qed

lemma tf_strclear_is: "str_is x s \<Longrightarrow> \<exists>x'. tf_strclear x = Inr x' \<and> str_is x' []"
  by (cases s) (auto simp: tf_strclear_def str_is_def wr_def)

lemma tf_strdup_is:
  assumes "str_is x s" "length s + 1 < 2 ^ 32"
  shows "\<exists>x'. tf_strdup x = Inr x' \<and> str_is x' s"
proof -
  obtain rest where x: "st_ptr x = map Some s @ Some 0 # rest" "length s = unat (st_size x)" using assms(1) by (rule str_isE)
  have n: "unat (st_size x + 1) = length s + 1" using unat_size_add(1) [of "st_size x" 0] assms(2) x(2) by simp
  define a where "a = max (st_size x + 1) (of_nat TF_STR_UNIT)"
  have a: "length s + 1 \<le> unat a" using n by (simp add: a_def max_def word_le_nat_alt) 
  have "slice (st_ptr x) 0 (length s + 1) = Inr (map Some s @ [Some 0])" by (simp add: x(1))
  then have "tf_strdup x = Inr \<lparr>st_size = st_size x, st_asize = a,
      st_ptr = map Some s @ Some 0 # drop (length s + 1) (replicate (unat a) None)\<rparr>"
    using a by (simp add: tf_strdup_def n a_def [symmetric])
  then show ?thesis using x(2) a by (simp add: str_is_def)
qed

lemma tf_strfrommalloc_is:
  assumes "take (length s) ptr = map Some s" "length s + 1 \<le> int_max"
  shows "\<exists>x. tf_strfrommalloc ptr (length s) = Inr x \<and> str_is x s"
proof -
  have l: "length s \<le> length ptr" using arg_cong [OF assms(1), of length] by simp
  then have "take (length s) (resize ptr (length s + 1)) = map Some s" by (subst take_resize) (use assms(1) in auto)
  then obtain r where "resize ptr (length s + 1) = map Some s @ r" "length r = 1"
    by (metis add_diff_cancel_left' append_take_drop_id length_append length_map length_resize)
  then show ?thesis
    using assms(2) by (auto simp: tf_strfrommalloc_def str_is_def int_max_def unat_u32 wr_append length_Suc_conv)
qed

section \<open>Sequences of operations\<close>

datatype str_op = Cat "byte list" | Cat2 cstr | Clear | Dup

definition str_step :: "str_op \<Rightarrow> tf_str \<Rightarrow> c_error + tf_str" where
  "str_step c x = (case c of
     Cat bs \<Rightarrow> tf_strcat x (map Some bs) (int (length bs))
   | Cat2 s \<Rightarrow> tf_strcat2 x s
   | Clear \<Rightarrow> tf_strclear x
   | Dup \<Rightarrow> tf_strdup x)"

fun str_run :: "str_op list \<Rightarrow> tf_str \<Rightarrow> c_error + tf_str" where
  "str_run [] x = Inr x"
| "str_run (c # cs) x = rbind (str_step c x) (str_run cs)"

text \<open>The same operations on a plain list of bytes.\<close>

definition op_text :: "str_op \<Rightarrow> byte list" where
  "op_text c = (case c of Cat bs \<Rightarrow> bs | Cat2 s \<Rightarrow> s | _ \<Rightarrow> [])"

definition spec_step :: "byte list \<Rightarrow> str_op \<Rightarrow> byte list" where
  "spec_step s c = (if c = Clear then [] else s @ op_text c)"

lemma str_step_is:
  assumes "str_is x s" "length s + length (op_text c) + 1 \<le> int_max"
  shows "\<exists>x'. str_step c x = Inr x' \<and> str_is x' (spec_step s c)"
  using assms cat_bytes_is [of x s "op_text c"] tf_strcat2_is [of x s "op_text c"] tf_strclear_is [of x s]
    tf_strdup_is [of x s]
  by (cases c) (simp_all add: str_step_def spec_step_def op_text_def cat_bytes_def int_max_def)

lemma spec_step_length: "length (spec_step s c) \<le> length s + length (op_text c)"
  by (simp add: spec_step_def)

lemma str_run_is:
  "str_is x s \<Longrightarrow> length s + sum_list (map (length \<circ> op_text) cs) + 1 \<le> int_max \<Longrightarrow>
     \<exists>x'. str_run cs x = Inr x' \<and> str_is x' (foldl spec_step s cs) \<and> length (foldl spec_step s cs) + 1 \<le> int_max"
proof (induction cs arbitrary: x s)
  case (Cons c cs)
  obtain x' where "str_step c x = Inr x'" "str_is x' (spec_step s c)"
    using str_step_is [OF Cons.prems(1), of c] Cons.prems(2) by auto
  then show ?case using Cons.IH [of x' "spec_step s c"] Cons.prems(2) spec_step_length [of s c] by simp
qed simp

section \<open>Escapes\<close>

definition url_text :: "cstr \<Rightarrow> byte list" where
  "url_text t = concat (map (\<lambda>c. if url_plain c then [c] else percent_hex c) t)"

definition unhex :: "byte \<Rightarrow> byte" where
  "unhex d = (if d \<le> 57 then d - 48 else d - 55)"

fun url_decode :: "byte list \<Rightarrow> byte list" where
  "url_decode (c # a # b # r) =
     (if c = 37 then (push_bit 4 (unhex a) + unhex b) # url_decode r else c # url_decode (a # b # r))"
| "url_decode r = r"

lemma unhex_upper: "d < 16 \<Longrightarrow> unhex (hex_upper d) = d"
  by (rule nibble_cases [where x = d]) (simp_all add: upt_rec unhex_def hex_upper_def)

lemma url_decode_plain: "c \<noteq> 37 \<Longrightarrow> url_decode (c # r) = c # url_decode r"
  by (cases r rule: url_decode.cases) auto

lemma url_decode_text: "url_decode (url_text t) = t"
proof (induction t)
  case (Cons c t)
  show ?case
  proof (cases "url_plain c")
    case True
    then have "c \<noteq> 37" by (auto simp: url_plain_def)
    then show ?thesis using True Cons url_decode_plain by (simp add: url_text_def)
  next
    case False
    have "push_bit 4 (unhex (hex_upper (drop_bit 4 (c AND 0xf0)))) + unhex (hex_upper (c AND 0xf)) = c"
      by (simp only: unhex_upper nibbles join_nibbles)
    then show ?thesis using False Cons unfolding url_text_def percent_hex_def
      by (simp del: drop_bit_and push_bit_and)
  qed
qed (simp add: url_text_def)

definition xml_char :: "byte \<Rightarrow> byte list" where
  "xml_char c =
     (if c = 38 then ascii ''&amp;'' else if c = 60 then ascii ''&lt;'' else if c = 62 then ascii ''&gt;''
      else if c = 34 then ascii ''&quot;''
      else if \<not> (0 \<le> sint c \<and> sint c \<le> 8 \<or> 0xe \<le> sint c \<and> sint c \<le> 0x1f) then [c] else [])"

definition xml_text :: "cstr \<Rightarrow> byte list" where
  "xml_text t = concat (map xml_char t)"

lemma xml_text_simps [simp]: "xml_text [] = []" "xml_text (c # t) = xml_char c @ xml_text t"
  by (simp_all add: xml_text_def)

lemma url_text_simps [simp]:
  "url_text [] = []" "url_text (c # t) = (if url_plain c then [c] else percent_hex c) @ url_text t"
  by (simp_all add: url_text_def)

lemma url_cat_pieces: "url_cat t x = put_all cat_bytes (map (\<lambda>c. if url_plain c then [c] else percent_hex c) t) x"
  by (induction t arbitrary: x) (auto intro: rbind_cong)

lemma url_cat_is:
  "str_is x s \<Longrightarrow> length s + length (url_text t) + 1 < 2 ^ 32 \<Longrightarrow>
     \<exists>x'. url_cat t x = Inr x' \<and> str_is x' (s @ url_text t)"
  unfolding url_cat_pieces url_text_def by (rule bytes.put_all_ok)

lemma xml_cat_step:
  "xml_cat (c # t) x = rbind (if xml_char c = [] then Inr x else cat_bytes x (xml_char c)) (xml_cat t)"
  by (simp add: xml_char_def ascii_def)

lemma xml_cat_pieces: "xml_cat t x = put_all cat_bytes (filter (\<lambda>p. p \<noteq> []) (map xml_char t)) x"
  by (induction t arbitrary: x) (auto simp: xml_cat_step simp del: xml_cat.simps(2) intro: rbind_cong)

lemma xml_cat_is:
  "str_is x s \<Longrightarrow> length s + length (xml_text t) + 1 < 2 ^ 32 \<Longrightarrow>
     \<exists>x'. xml_cat t x = Inr x' \<and> str_is x' (s @ xml_text t)"
proof -
  have "concat (filter (\<lambda>p. p \<noteq> []) ps) = concat ps" for ps :: "byte list list" by (induction ps) auto
  then show "str_is x s \<Longrightarrow> length s + length (xml_text t) + 1 < 2 ^ 32 \<Longrightarrow>
     \<exists>x'. xml_cat t x = Inr x' \<and> str_is x' (s @ xml_text t)"
    using bytes.put_all_ok [of x s "filter (\<lambda>p. p \<noteq> []) (map xml_char t)"] unfolding xml_cat_pieces xml_text_def by simp
qed

text \<open>A directive without flags.\<close>

lemma directive_plain:
  assumes "d \<notin> set flag_chars" "d \<noteq> 0"
  shows "directive spf (d # fmt) x args =
    rbind (convert spf [37, d] 0 d x args) (\<lambda>(x, args). Inr (fmt, x, args))"
proof -
  have r: "replicate (TFNUMBUFSIZ - 1) (None :: byte option) = None # None # replicate 29 None"
    by (simp add: TFNUMBUFSIZ_def numeral_eq_Suc)
  have two: "take 2 (a # b # l) = [a, b]" "wr (a # b # e # l) 2 v = Inr (a # b # v # l)"
    for a b e v :: "byte option" and l
    by (simp_all add: wr_def numeral_2_eq_2)
  have n29: "replicate 29 (None :: byte option) = None # replicate 28 None" by (simp add: numeral_eq_Suc)
  show ?thesis using assms unfolding directive_def r n29 by (simp add: two)
qed

text \<open>Plain characters are copied.\<close>

lemma plain_pieces:
  "37 \<notin> set p \<Longrightarrow> tf_vstrprintf spf (p @ fmt) x args =
     rbind (put_all cat_bytes (map (\<lambda>c. [c]) p) x) (\<lambda>x. tf_vstrprintf spf fmt x args)"
proof (induction p arbitrary: x)
  case (Cons c p)
  then show ?case by (cases "cat_bytes x [c]") auto
qed simp

lemma plain_prefix:
  "37 \<notin> set p \<Longrightarrow> str_is x s \<Longrightarrow> length s + length p + 1 < 2 ^ 32 \<Longrightarrow>
     \<exists>x'. tf_vstrprintf spf (p @ fmt) x args = tf_vstrprintf spf fmt x' args \<and> str_is x' (s @ p)"
  using bytes.put_all_ok [of x s "map (\<lambda>c. [c]) p"] by (auto simp: plain_pieces)

lemma scan_flags_full:
  "k + n = 31 \<Longrightarrow> length cbuf = 32 \<Longrightarrow>
     \<exists>cbuf'. length cbuf' = 32 \<and> scan_flags (replicate k 48 @ fmt) cbuf n l = Inr (cbuf', 31, l, fmt)"
proof (induction k arbitrary: n cbuf)
  case 0
  then show ?case by (cases fmt) (simp_all add: TFNUMBUFSIZ_def)
next
  case (Suc k)
  have "48 \<in> set flag_chars" by (simp add: flag_chars_def ascii_def)
  then show ?case using Suc.IH [of "n + 1" "cbuf[n := Some 48]"] Suc.prems by (simp add: TFNUMBUFSIZ_def)
qed

lemma directive_full: "30 \<le> n \<Longrightarrow> directive spf (replicate n 48 @ r) x args = Inl Out_Of_Bounds"
proof -
  assume "30 \<le> n"
  then have n: "replicate n (48 :: byte) @ r = replicate 30 48 @ replicate (n - 30) 48 @ r"
    by (simp add: replicate_add [symmetric] flip: append_assoc)
  obtain cbuf' where "length cbuf' = 32" "scan_flags (replicate 30 48 @ replicate (n - 30) 48 @ r)
      (Some 37 # replicate 31 None) 1 0 = Inr (cbuf', 31, 0, replicate (n - 30) 48 @ r)"
    using scan_flags_full [of 30 1 "Some 37 # replicate 31 None"] by auto
  then show ?thesis unfolding n directive_def by (simp add: TFNUMBUFSIZ_def Let_def wr_def)
qed

lemma directive_empty: "directive spf [] x args = Inl Out_Of_Bounds"
  by (simp add: directive_def TFNUMBUFSIZ_def convert_def ascii_def)

section \<open>Properties\<close>

text \<open>
  Concatenation, clearing and copying of a fresh string stay inside its buffer and do what the same
  operations do on a plain list of bytes; the contents are always followed by a terminator.
\<close>

lemma tf_str_refines:
  assumes "sum_list (map (length \<circ> op_text) cs) + 1 \<le> int_max"
  shows "\<exists>x. str_run cs tf_strnew = Inr x \<and> str_is x (foldl spec_step [] cs) \<and>
    tf_strsize x = int (length (foldl spec_step [] cs))"
proof -
  obtain x where x: "str_run cs tf_strnew = Inr x" "str_is x (foldl spec_step [] cs)"
      "length (foldl spec_step [] cs) + 1 \<le> int_max"
    using str_run_is [OF str_is_new, of cs] assms by auto
  then have "unat (st_size x) = length (foldl spec_step [] cs)" by (simp add: str_is_def)
  then show ?thesis using x by (simp add: tf_strsize_def sint_u32 int_max_def)
qed

lemma tf_str_refines_example:
  "\<exists>x. str_run [Cat [1, 2], Cat2 (ascii ''abc''), Dup, Clear, Cat (replicate 20 7)] tf_strnew = Inr x \<and>
     str_is x (replicate 20 7) \<and> tf_strsize x = 20"
  using tf_str_refines [of "[Cat [1, 2], Cat2 (ascii ''abc''), Dup, Clear, Cat (replicate 20 7)]"]
  by (simp add: op_text_def spec_step_def ascii_def int_max_def)

text \<open>
  The characters that need no escape in a URL, the byte values that XML does not allow in a text, and a reader of
  escaped XML text: it takes the four entities, and refuses every other ampersand and every bare markup character.
\<close>

definition url_unreserved :: "byte list" where
  "url_unreserved = ascii ''ABCDEFGHIJKLMNOPQRSTUVWXYZabcdefghijklmnopqrstuvwxyz0123456789_-.''"

definition xml_forbidden :: "byte \<Rightarrow> bool" where
  "xml_forbidden c \<longleftrightarrow> c \<le> 8 \<or> 14 \<le> c \<and> c \<le> 31"

fun xml_decode :: "byte list \<Rightarrow> byte list option" where
  "xml_decode [] = Some []"
| "xml_decode (c # r) =
     (if c = 38 then
        if take 4 r = ascii ''amp;'' then map_option ((#) 38) (xml_decode (drop 4 r))
        else if take 3 r = ascii ''lt;'' then map_option ((#) 60) (xml_decode (drop 3 r))
        else if take 3 r = ascii ''gt;'' then map_option ((#) 62) (xml_decode (drop 3 r))
        else if take 5 r = ascii ''quot;'' then map_option ((#) 34) (xml_decode (drop 5 r))
        else None
      else if c \<in> {60, 62, 34} then None
      else map_option ((#) c) (xml_decode r))"

lemma url_plain_unreserved: "url_plain c \<longleftrightarrow> c \<in> set url_unreserved"
proof
  have all: "list_all (\<lambda>n. of_nat n \<in> set url_unreserved) ([65..<91] @ [97..<123] @ [48..<58] @ [95, 45, 46])"
    by (simp add: url_unreserved_def ascii_def upt_rec)
  assume "url_plain c"
  then have "65 \<le> unat c \<and> unat c < 91 \<or> 97 \<le> unat c \<and> unat c < 123 \<or> 48 \<le> unat c \<and> unat c < 58 \<or> unat c \<in> {95, 45, 46}"
    by (auto simp: url_plain_def word_le_nat_alt)
  then have "unat c \<in> set ([65..<91] @ [97..<123] @ [48..<58] @ [95, 45, 46])"
    unfolding set_append set_upt atLeastLessThan_iff Un_iff by simp
  then have "of_nat (unat c) \<in> set url_unreserved" using all unfolding list_all_iff by blast
  then show "c \<in> set url_unreserved" by simp
next
  have "list_all url_plain url_unreserved" by (simp add: url_unreserved_def ascii_def url_plain_def)
  then show "c \<in> set url_unreserved \<Longrightarrow> url_plain c" by (simp add: list_all_iff)
qed

lemma hex_upper_unreserved: "d < 16 \<Longrightarrow> hex_upper d \<in> set url_unreserved"
  by (rule nibble_cases [where x = d]) (simp_all add: upt_rec hex_upper_def url_unreserved_def ascii_def)

lemma url_text_unreserved: "set (url_text t) \<subseteq> insert 37 (set url_unreserved)"
proof (induction t)
  case (Cons c t)
  have "set (percent_hex c) \<subseteq> insert 37 (set url_unreserved)"
    unfolding percent_hex_def using nibbles by (simp add: hex_upper_unreserved del: drop_bit_and)
  then show ?case using Cons by (simp add: url_plain_unreserved)
qed simp

lemma url_text_length: "length (url_text t) = sum_list (map (\<lambda>c. if c \<in> set url_unreserved then 1 else 3) t)"
  by (induction t) (simp_all add: url_plain_unreserved percent_hex_def)

lemma xml_char_kept: "c \<notin> {38, 60, 62, 34} \<Longrightarrow> xml_char c = (if xml_forbidden c then [] else [c])"
proof -
  have "0 \<le> sint c \<and> sint c \<le> 8 \<or> 0xe \<le> sint c \<and> sint c \<le> 0x1f \<longleftrightarrow> xml_forbidden c"
  proof -
    have small: "sint c = uint c" if "uint c < 128"
    proof -
      have "0 \<le> uint c" by (rule unsigned_greater_eq)
      moreover have "uint c < 2 ^ 7" using that by simp
      ultimately have "signed_take_bit 7 (uint c) = uint c" by (intro signed_take_bit_int_eq_self) linarith+
      then show ?thesis by (simp add: sint_uint)
    qed
    then show ?thesis using sint_ascii [of c] by (auto simp: xml_forbidden_def word_le_def)
  qed
  then show "c \<notin> {38, 60, 62, 34} \<Longrightarrow> xml_char c = (if xml_forbidden c then [] else [c])" by (simp add: xml_char_def)
qed

lemma xml_decode_text: "xml_decode (xml_text t) = Some (filter (\<lambda>c. \<not> xml_forbidden c) t)"
proof (induction t)
  case (Cons c t)
  have e: "xml_char 38 = ascii ''&amp;''" "xml_char 60 = ascii ''&lt;''" "xml_char 62 = ascii ''&gt;''" "xml_char 34 = ascii ''&quot;''"
    "\<not> xml_forbidden 38" "\<not> xml_forbidden 60" "\<not> xml_forbidden 62" "\<not> xml_forbidden 34"
    by (simp_all add: xml_char_def xml_forbidden_def)
  consider "c \<in> {38, 60, 62, 34}" | "c \<notin> {38, 60, 62, 34}" by blast
  then show ?case
  proof cases
    case 1
    then show ?thesis using Cons e by (auto simp: ascii_def)
  next
    case 2
    then show ?thesis using Cons by (simp add: xml_char_kept)
  qed
qed simp



text \<open>A directive with flags and a conversion of an integer.\<close>

lemma scan_flags_all:
  "set ds \<subseteq> set flag_chars \<Longrightarrow> d \<notin> set flag_chars \<Longrightarrow> n + length ds < 32 \<Longrightarrow> length cbuf = 32 \<Longrightarrow>
     \<exists>cbuf' l'. length cbuf' = 32 \<and> take (n + length ds) cbuf' = take n cbuf @ map Some ds \<and>
       (1 \<le> l' \<longleftrightarrow> 1 \<le> l \<or> 108 \<in> set ds \<or> 76 \<in> set ds) \<and>
       scan_flags (ds @ d # r) cbuf n l = Inr (cbuf', n + length ds, l', d # r)"
proof (induction ds arbitrary: n cbuf l)
  case (Cons c ds)
  let ?cbuf = "cbuf[n := Some c]"
  have t: "take (Suc n) ?cbuf = take n cbuf @ [Some c]" using Cons.prems by (simp add: take_Suc_conv_app_nth)
  show ?case using Cons.IH [of "Suc n" ?cbuf "if c = 108 \<or> c = 76 then l + 1 else l"] Cons.prems t
    by (auto simp: TFNUMBUFSIZ_def)
qed simp

lemma directive_int:
  assumes "set ds \<subseteq> set flag_chars" "length ds < 30" "d \<in> set (ascii ''douxXc'')"
    "128 \<le> length (spf (37 # ds @ [d]) (Arg_num (if 108 \<in> set ds \<or> 76 \<in> set ds then v else take_bit 32 v)))"
  shows "directive spf (ds @ d # r) x (Arg_num v # args) = Inl Out_Of_Bounds"
proof -
  have d: "d \<notin> set flag_chars" "d \<noteq> 0" "d \<noteq> 115" using assms(3) by (auto simp: flag_chars_def ascii_def)
  have nz: "0 \<notin> set ds" using assms(1) by (auto simp: flag_chars_def ascii_def)
  obtain cbuf l where sc: "length cbuf = 32" "take (1 + length ds) cbuf = Some 37 # map Some ds"
      "1 \<le> l \<longleftrightarrow> 108 \<in> set ds \<or> 76 \<in> set ds"
      "scan_flags (ds @ d # r) (Some 37 # replicate (TFNUMBUFSIZ - 1) None) 1 0 = Inr (cbuf, 1 + length ds, l, d # r)"
    using scan_flags_all [OF assms(1) d(1), where n = 1 and cbuf = "Some 37 # replicate (TFNUMBUFSIZ - 1) None" and l = 0 and r = r]
      assms(2) by (simp add: TFNUMBUFSIZ_def) blast
  let ?n = "1 + length ds"
  have "take (?n + 1) (cbuf[?n := Some d, ?n + 1 := Some 0]) = Some 37 # map Some ds @ [Some d]"
    using sc(1,2) assms(2) by (simp add: take_Suc_conv_app_nth)
  then have str: "takeWhile (\<lambda>c. c \<noteq> 0) (map the (take (?n + 1) (cbuf[?n := Some d, ?n + 1 := Some 0]))) = 37 # ds @ [d]"
    using nz d(2) by (auto simp: takeWhile_eq_all_conv comp_def)
  have "convert spf (37 # ds @ [d]) l d x (Arg_num v # args) = Inl Out_Of_Bounds"
    using assms(3,4) d(3) sc(3) by (simp add: convert_def arg_num_def sprintf_tbuf_def TFNUMBUFSIZ_def)
  then show ?thesis using sc(1) assms(2) str unfolding directive_def sc(4) by (simp add: wr_def Let_def)
qed



end
