(* ===== verification/TF_File.thy ===== *)
theory TF_File
  imports TF_Str TF_Strings
begin

text \<open>
  The file functions of \<open>tf_file.c\<close>.  The system calls are an argument, a record of functions on the
  state of the system: a read yields bytes (none at the end of the file) or an error, interrupted or
  not; a write yields the number of bytes taken or an error.  Loops that depend on the system may run
  for ever and are partial functions.  Advisory locks and paths are left to the system calls.
\<close>

section \<open>The system\<close>

datatype read_result = R_Data "byte list" | R_Err bool
datatype write_result = W_Count nat | W_Err bool

record 'w sys =
  io_open :: "cstr \<Rightarrow> bool \<Rightarrow> 'w \<Rightarrow> int \<times> 'w"
  io_close :: "int \<Rightarrow> 'w \<Rightarrow> bool \<times> 'w"
  io_read :: "int \<Rightarrow> nat \<Rightarrow> 'w \<Rightarrow> read_result \<times> 'w"
  io_write :: "int \<Rightarrow> byte list \<Rightarrow> 'w \<Rightarrow> write_result \<times> 'w"
  io_stat :: "int \<Rightarrow> 'w \<Rightarrow> (bool \<times> nat) option \<times> 'w"

definition TFIOBUFSIZ :: nat where "TFIOBUFSIZ = 16384"

section \<open>Reading and writing\<close>

text \<open>
  \<open>tf_write\<close>: an interrupted call and a call that took nothing are tried again.  A count above the
  size asked for would move the pointer out of the buffer.
\<close>

partial_function (option) tf_write ::
    "'w sys \<Rightarrow> int \<Rightarrow> byte list \<Rightarrow> 'w \<Rightarrow> (c_error + bool \<times> 'w) option" where
  "tf_write S fd buf w =
     (case io_write S fd buf w of
        (W_Err eintr, w) \<Rightarrow>
          if \<not> eintr then Some (Inr (False, w))
          else if buf = [] then Some (Inr (True, w)) else tf_write S fd buf w
      | (W_Count n, w) \<Rightarrow>
          if length buf < n then Some (Inl Out_Of_Bounds)
          else if drop n buf = [] then Some (Inr (True, w)) else tf_write S fd (drop n buf) w)"

text \<open>\<open>tf_read\<close> fills \<open>size\<close> bytes: the case of an error falls through to the case of the end of the file.\<close>

partial_function (option) tf_read ::
    "'w sys \<Rightarrow> int \<Rightarrow> nat \<Rightarrow> byte list \<Rightarrow> 'w \<Rightarrow> (c_error + (bool \<times> byte list) \<times> 'w) option" where
  "tf_read S fd sz got w =
     (case io_read S fd sz w of
        (R_Err eintr, w) \<Rightarrow> if \<not> eintr then Some (Inr ((False, got), w)) else Some (Inr ((sz < 1, got), w))
      | (R_Data bs, w) \<Rightarrow>
          if bs = [] then Some (Inr ((sz < 1, got), w))
          else if sz < length bs then Some (Inl Out_Of_Bounds)
          else if sz - length bs = 0 then Some (Inr ((True, got @ bs), w))
          else tf_read S fd (sz - length bs) (got @ bs) w)"

text \<open>\<open>tf_writefile\<close>: without a path the data goes to the standard output.\<close>

definition tf_writefile ::
    "'w sys \<Rightarrow> cstr option \<Rightarrow> byte list \<Rightarrow> 'w \<Rightarrow> (c_error + bool \<times> 'w) option" where
  "tf_writefile S path buf w =
     (let (fd, w) = (case path of None \<Rightarrow> (1, w) | Some p \<Rightarrow> io_open S p True w)
      in if path \<noteq> None \<and> fd = - 1 then Some (Inr (False, w))
         else map_option (\<lambda>r. rbind r (\<lambda>(ok, w).
                let (closed, w) = io_close S fd w in Inr (ok \<and> closed, w))) (tf_write S fd buf w))"

partial_function (option) copy_loop ::
    "'w sys \<Rightarrow> int \<Rightarrow> int \<Rightarrow> 'w \<Rightarrow> (c_error + bool \<times> 'w) option" where
  "copy_loop S ifd ofd w =
     (case io_read S ifd TFIOBUFSIZ w of
        (R_Err eintr, w) \<Rightarrow> if \<not> eintr then Some (Inr (False, w)) else copy_loop S ifd ofd w
      | (R_Data bs, w) \<Rightarrow>
          if bs = [] then Some (Inr (True, w))
          else if TFIOBUFSIZ < length bs then Some (Inl Out_Of_Bounds)
          else Option.bind (tf_write S ofd bs w) (\<lambda>r. case r of
                 Inl e \<Rightarrow> Some (Inl e)
               | Inr (ok, w) \<Rightarrow> if ok then copy_loop S ifd ofd w else Some (Inr (False, w))))"

definition tf_copyfile ::
    "'w sys \<Rightarrow> cstr \<Rightarrow> cstr \<Rightarrow> 'w \<Rightarrow> (c_error + bool \<times> 'w) option" where
  "tf_copyfile S src dest w =
     (let (ifd, w) = io_open S src False w
      in if ifd = - 1 then Some (Inr (False, w))
         else let (ofd, w) = io_open S dest True w
              in if ofd = - 1 then (let (_, w) = io_close S ifd w in Some (Inr (False, w)))
                 else map_option (\<lambda>r. rbind r (\<lambda>(ok, w).
                        let (c1, w) = io_close S ofd w; (c2, w) = io_close S ifd w
                        in Inr (ok \<and> c1 \<and> c2, w))) (copy_loop S ifd ofd w))"

section \<open>Whole files\<close>

text \<open>\<open>tf_readfile\<close>, from the standard input and from a regular file.\<close>

partial_function (option) stdin_loop ::
    "'w sys \<Rightarrow> int \<Rightarrow> tf_str \<Rightarrow> 'w \<Rightarrow> (c_error + tf_str \<times> 'w) option" where
  "stdin_loop S limit x w =
     (case io_read S 0 (min TFIOBUFSIZ (nat limit)) w of
        (R_Err _, w) \<Rightarrow> Some (Inr (x, w))
      | (R_Data bs, w) \<Rightarrow>
          if bs = [] then Some (Inr (x, w))
          else (case cat_bytes x bs of Inl e \<Rightarrow> Some (Inl e)
                | Inr x \<Rightarrow> stdin_loop S (limit - int (length bs)) x w))"

text \<open>A limit below the offset would be converted to a huge size: the read is not bounded any more.\<close>

partial_function (option) readfile_loop ::
    "'w sys \<Rightarrow> int \<Rightarrow> int \<Rightarrow> region \<Rightarrow> nat \<Rightarrow> 'w \<Rightarrow> (c_error + (region \<times> nat) \<times> 'w) option" where
  "readfile_loop S fd limit buf off w =
     (if limit - int off < 0 then Some (Inl Out_Of_Bounds)
      else case io_read S fd (nat (limit - int off)) w of
        (R_Err _, w) \<Rightarrow> Some (Inr ((buf, off), w))
      | (R_Data bs, w) \<Rightarrow>
          if bs = [] then Some (Inr ((buf, off), w))
          else (case blit buf off (map Some bs) of Inl e \<Rightarrow> Some (Inl e)
                | Inr buf \<Rightarrow> readfile_loop S fd limit buf (off + length bs) w))"

definition tf_readfile ::
    "'w sys \<Rightarrow> cstr option \<Rightarrow> int \<Rightarrow> 'w \<Rightarrow> (c_error + (region \<times> int) option \<times> 'w) option" where
  "tf_readfile S path limit w =
     (let (fd, w) = (case path of None \<Rightarrow> (0, w) | Some p \<Rightarrow> io_open S p False w)
      in if fd = - 1 then Some (Inr (None, w))
         else if fd = 0
         then map_option (\<lambda>r. rbind r (\<lambda>(x, w). Inr (Some (tf_strtomalloc x, tf_strsize x), w)))
                (stdin_loop S (if limit > 0 then limit else int int_max) tf_strnew w)
         else case io_stat S fd w of
             (None, w) \<Rightarrow> (let (_, w) = io_close S fd w in Some (Inr (None, w)))
           | (Some (regular, sz), w) \<Rightarrow>
               if \<not> regular then (let (_, w) = io_close S fd w in Some (Inr (None, w)))
               else let limit = (if limit > 0 then min (to_int (int sz)) limit else to_int (int sz))
                    in map_option (\<lambda>r. rbind r (\<lambda>((buf, off), w).
                         rbind (wr buf off (Some 0)) (\<lambda>buf.
                         let (_, w) = io_close S fd w in Inr (Some (buf, int off), w))))
                       (readfile_loop S fd limit (replicate (sz + 1) None) 0 w))"

text \<open>\<open>tf_readlines\<close>: one character at a time; carriage returns are dropped.\<close>

definition str_bytes :: "tf_str \<Rightarrow> c_error + byte list" where
  "str_bytes x =
     rbind (slice (tf_strptr x) 0 (nat (tf_strsize x))) (\<lambda>r.
       if None \<in> set r then Inl Uninitialised else Inr (map the r))"

definition push_line :: "tf_list \<Rightarrow> tf_str \<Rightarrow> c_error + tf_list" where
  "push_line l x = rbind (str_bytes x) (\<lambda>bs. tf_list_push l bs (tf_strsize x))"

fun line_chars :: "byte list \<Rightarrow> tf_list \<Rightarrow> tf_str \<Rightarrow> c_error + tf_list \<times> tf_str" where
  "line_chars [] l x = Inr (l, x)"
| "line_chars (c # cs) l x =
     (if c = 13 then line_chars cs l x
      else if c = 10 then rbind (push_line l x) (\<lambda>l. rbind (tf_strclear x) (line_chars cs l))
      else rbind (cat_bytes x [c]) (line_chars cs l))"

partial_function (option) lines_loop ::
    "'w sys \<Rightarrow> int \<Rightarrow> tf_list \<Rightarrow> tf_str \<Rightarrow> 'w \<Rightarrow> (c_error + (tf_list \<times> tf_str) \<times> 'w) option" where
  "lines_loop S fd l x w =
     (case io_read S fd TFIOBUFSIZ w of
        (R_Err _, w) \<Rightarrow> Some (Inr ((l, x), w))
      | (R_Data bs, w) \<Rightarrow>
          if bs = [] then Some (Inr ((l, x), w))
          else (case line_chars bs l x of Inl e \<Rightarrow> Some (Inl e)
                | Inr (l, x) \<Rightarrow> lines_loop S fd l x w))"

definition tf_readlines ::
    "'w sys \<Rightarrow> cstr option \<Rightarrow> 'w \<Rightarrow> (c_error + tf_list option \<times> 'w) option" where
  "tf_readlines S path w =
     (let (fd, w) = (case path of None \<Rightarrow> (0, w) | Some p \<Rightarrow> io_open S p False w)
      in if fd = - 1 then Some (Inr (None, w))
         else map_option (\<lambda>r. rbind r (\<lambda>((l, x), w).
                rbind (push_line l x) (\<lambda>l.
                let w = (if path = None then w else snd (io_close S fd w)) in Inr (Some l, w))))
              (lines_loop S fd tf_list_new tf_strnew w))"

section \<open>What the system promises\<close>

text \<open>\<open>rest\<close> is what is left to read of a descriptor, and a read takes a prefix of it.\<close>

definition read_doc :: "'w sys \<Rightarrow> ('w \<Rightarrow> int \<Rightarrow> byte list) \<Rightarrow> int \<Rightarrow> bool" where
  "read_doc S rest fd \<longleftrightarrow>
     (\<forall>n w. \<exists>bs. fst (io_read S fd n w) = R_Data bs \<and> length bs \<le> n \<and>
        rest w fd = bs @ rest (snd (io_read S fd n w)) fd \<and> (bs = [] \<longrightarrow> n = 0 \<or> rest w fd = []))"

text \<open>\<open>out\<close> is what was written to a descriptor; a write takes a prefix of the data or fails.\<close>

definition write_doc :: "'w sys \<Rightarrow> ('w \<Rightarrow> int \<Rightarrow> byte list) \<Rightarrow> int \<Rightarrow> bool" where
  "write_doc S out fd \<longleftrightarrow>
     (\<forall>buf w. case io_write S fd buf w of
        (W_Err e, w') \<Rightarrow> out w' fd = out w fd
      | (W_Count n, w') \<Rightarrow> n \<le> length buf \<and> out w' fd = out w fd @ take n buf)"

text \<open>A system that does not keep a writer waiting: no interruption, and some progress.\<close>

definition write_steady :: "'w sys \<Rightarrow> int \<Rightarrow> bool" where
  "write_steady S fd \<longleftrightarrow>
     (\<forall>buf w. buf \<noteq> [] \<longrightarrow> (case fst (io_write S fd buf w) of W_Err e \<Rightarrow> \<not> e | W_Count n \<Rightarrow> 0 < n))"

section \<open>Lines\<close>

lemma str_bytes_is:
  assumes "str_is x s" "length s < int_max"
  shows "str_bytes x = Inr s" "tf_strsize x = int (length s)"
proof -
  obtain rest where x: "st_ptr x = map Some s @ Some 0 # rest" "length s = unat (st_size x)" using assms(1) by (rule str_isE)
  then show sz: "tf_strsize x = int (length s)" using assms(2) by (simp add: tf_strsize_def sint_u32 int_max_def)
  have "slice (st_ptr x) 0 (length s) = Inr (map Some s)" by (simp add: x(1))
  then show "str_bytes x = Inr s" by (auto simp: str_bytes_def tf_strptr_def sz comp_def)
qed

lemma push_line_ok:
  assumes "str_is x s" "length s < int_max" "list_inv l (Suc k)"
  shows "\<exists>l'. push_line l x = Inr l' \<and> list_inv l' k \<and> tf_list_elems l' = tf_list_elems l @ [s]"
  using push_ok [of l k "length s" s] assms by (auto simp: push_line_def str_bytes_is list_inv_def)

lemma line_chars_append:
  "line_chars (a @ b) l x = rbind (line_chars a l x) (\<lambda>(l, x). line_chars b l x)"
proof (induction a arbitrary: l x)
  case (Cons c a)
  consider "c = 13" | "c \<noteq> 13" "c = 10" | "c \<noteq> 13" "c \<noteq> 10" by blast
  then show ?case
  proof cases
    case 1
    then show ?thesis using Cons by simp
  next
    case 2
    then show ?thesis using Cons by (cases "push_line l x"; cases "tf_strclear x") auto
  next
    case 3
    then show ?thesis using Cons by (cases "cat_bytes x [c]") auto
  qed
qed simp

definition text_lines :: "byte list \<Rightarrow> byte list list" where
  "text_lines cs = TF_Strings.fields {10} (filter (\<lambda>c. c \<noteq> 13) cs)"

lemma text_lines_simps [simp]:
  "text_lines [] = [[]]" "text_lines (13 # cs) = text_lines cs" "text_lines (10 # cs) = [] # text_lines cs"
  by (simp_all add: text_lines_def)

lemma text_lines_not_Nil: "text_lines cs \<noteq> []"
  unfolding text_lines_def by (cases "filter (\<lambda>c. c \<noteq> 13) cs") (auto split: list.splits)

lemma text_lines_char:
  "c \<noteq> 13 \<Longrightarrow> c \<noteq> 10 \<Longrightarrow> text_lines (c # cs) = (c # hd (text_lines cs)) # tl (text_lines cs)"
  using text_lines_not_Nil [of cs] by (cases "text_lines cs") (auto simp: text_lines_def)

lemma line_chars_ok:
  "str_is x s \<Longrightarrow> length s + length cs < int_max \<Longrightarrow> list_inv l (length (text_lines cs) + k) \<Longrightarrow>
     \<exists>l' x' s' ls. line_chars cs l x = Inr (l', x') \<and> str_is x' s' \<and> length s' < int_max \<and> list_inv l' (Suc k) \<and>
       tf_list_elems l' = tf_list_elems l @ ls \<and> ls @ [s'] = (s @ hd (text_lines cs)) # tl (text_lines cs)"
proof (induction cs arbitrary: l x s)
  case Nil
  then show ?case by auto
next
  case (Cons c cs)
  have le: "length s + 1 < 2 ^ 32" "length s < int_max" using Cons.prems(2) by (simp_all add: int_max_def)
  consider "c = 13" | "c = 10" | "c \<noteq> 13" "c \<noteq> 10" by blast
  then show ?case
  proof cases
    case 1
    then show ?thesis using Cons.IH [of x s l] Cons.prems by simp
  next
    case 2
    obtain l1 where l1: "push_line l x = Inr l1" "list_inv l1 (length (text_lines cs) + k)"
        "tf_list_elems l1 = tf_list_elems l @ [s]"
      using push_line_ok [OF Cons.prems(1) le(2), of l "length (text_lines cs) + k"] Cons.prems(3) 2 by auto
    obtain x1 where x1: "tf_strclear x = Inr x1" "str_is x1 []" using tf_strclear_is [OF Cons.prems(1)] by blast
    obtain l' x' s' ls where r: "line_chars cs l1 x1 = Inr (l', x')" "str_is x' s'" "length s' < int_max"
        "list_inv l' (Suc k)" "tf_list_elems l' = tf_list_elems l1 @ ls"
        "ls @ [s'] = ([] @ hd (text_lines cs)) # tl (text_lines cs)"
      using Cons.IH [OF x1(2) _ l1(2)] Cons.prems(2) by auto
    have "line_chars (c # cs) l x = Inr (l', x')" using 2 l1(1) x1(1) r(1) by simp
    moreover have "(s # ls) @ [s'] = (s @ hd (text_lines (c # cs))) # tl (text_lines (c # cs))"
      using r(6) 2 text_lines_not_Nil [of cs] by (cases "text_lines cs") auto
    ultimately show ?thesis using r(2-5) l1(3) by (intro exI [of _ l'] exI [of _ x'] exI [of _ s'] exI [of _ "s # ls"]) simp
  next
    case 3
    obtain x1 where x1: "cat_bytes x [c] = Inr x1" "str_is x1 (s @ [c])"
      using cat_bytes_is [OF Cons.prems(1), of "[c]"] Cons.prems(2) by (auto simp: int_max_def)
    have "list_inv l (length (text_lines cs) + k)"
      using Cons.prems(3) text_lines_not_Nil [of cs] by (simp add: text_lines_char 3 Suc_pred)
    then show ?thesis using Cons.IH [OF x1(2), of l] Cons.prems(2) x1(1) 3 by (simp add: text_lines_char)
  qed
qed

lemma lines_loop_eq:
  assumes "read_doc S rest fd"
  shows "\<exists>w'. lines_loop S fd l x w =
    Some (case line_chars (rest w fd) l x of Inl e \<Rightarrow> Inl e | Inr p \<Rightarrow> Inr (p, w'))"
proof (induction "length (rest w fd)" arbitrary: l x w rule: less_induct)
  case less
  define w1 where "w1 = snd (io_read S fd TFIOBUFSIZ w)"
  obtain bs where d: "fst (io_read S fd TFIOBUFSIZ w) = R_Data bs" "rest w fd = bs @ rest w1 fd"
      "bs = [] \<longrightarrow> TFIOBUFSIZ = 0 \<or> rest w fd = []"
    using assms unfolding read_doc_def w1_def by blast
  have r: "io_read S fd TFIOBUFSIZ w = (R_Data bs, w1)" "rest w fd = bs @ rest w1 fd" "bs = [] \<longrightarrow> rest w fd = []"
    using d by (simp_all add: w1_def prod_eq_iff TFIOBUFSIZ_def)
  show ?case
  proof (cases "bs = []")
    case True
    then show ?thesis using r by (subst lines_loop.simps) simp
  next
    case False
    then have "length (rest w1 fd) < length (rest w fd)" using r(2) by simp
    note IH = less.hyps [OF this]
    show ?thesis
    proof (cases "line_chars bs l x")
      case (Inl e)
      then show ?thesis using r False by (subst lines_loop.simps) (simp add: line_chars_append)
    next
      case (Inr p)
      obtain l1 x1 where p: "p = (l1, x1)" by fastforce
      have "lines_loop S fd l x w = lines_loop S fd l1 x1 w1"
        using r(1) False Inr by (subst lines_loop.simps) (simp add: p)
      then show ?thesis using IH [of l1 x1] r(2) Inr p by (simp add: line_chars_append)
    qed
  qed
qed

lemma readlines_ok:
  assumes "io_open S path False w = (fd, w0)" "fd \<noteq> - 1" "read_doc S rest fd"
    "2 * (length (rest w0 fd) + 2) \<le> int_max"
  shows "\<exists>l w'. tf_readlines S (Some path) w = Some (Inr (Some l, w')) \<and> tf_list_wf l \<and>
    tf_list_elems l = TF_Strings.fields {10} (filter (\<lambda>c. c \<noteq> 13) (rest w0 fd))"
proof -
  let ?cs = "rest w0 fd"
  have "length (TF_Strings.fields D s) \<le> length s + 1" for D s
    by (induction D s rule: TF_Strings.fields.induct) (auto split: list.splits)
  then have "length (text_lines ?cs) \<le> length (filter (\<lambda>c. c \<noteq> 13) ?cs) + 1" by (simp add: text_lines_def)
  then have n: "length (text_lines ?cs) \<le> length ?cs + 1"
    using length_filter_le [of "\<lambda>c. c \<noteq> 13" ?cs] by linarith
  have "list_inv tf_list_new (length (text_lines ?cs))"
    using n assms(4) by (intro list_inv_new) simp
  then obtain l x s ls where c: "line_chars ?cs tf_list_new tf_strnew = Inr (l, x)" "str_is x s" "length s < int_max"
      "list_inv l 1" "tf_list_elems l = tf_list_elems tf_list_new @ ls"
      "ls @ [s] = hd (text_lines ?cs) # tl (text_lines ?cs)"
    using line_chars_ok [OF str_is_new, of ?cs tf_list_new 0] assms(4) by (auto simp: int_max_def)
  obtain l' where l': "push_line l x = Inr l'" "list_inv l' 0" "tf_list_elems l' = tf_list_elems l @ [s]"
    using push_line_ok [OF c(2,3), of l 0] c(4) by auto
  obtain w1 where "lines_loop S fd tf_list_new tf_strnew w0 = Some (Inr ((l, x), w1))"
    using lines_loop_eq [OF assms(3), of tf_list_new tf_strnew w0] c(1) by auto
  then have "tf_readlines S (Some path) w = Some (Inr (Some l', snd (io_close S fd w1)))"
    using assms(1,2) l'(1) by (simp add: tf_readlines_def)
  moreover have "tf_list_elems tf_list_new = []" using new_ok [of 0] by simp
  then have "tf_list_elems l' = text_lines ?cs"
    using c(5,6) l'(3) text_lines_not_Nil [of ?cs] by simp
  ultimately show ?thesis using l'(2) by (auto simp: list_inv_def text_lines_def)
qed

section \<open>Properties\<close>

text \<open>
  C30: Reading the lines of a file gives a well-formed list of the fields between the newlines of its
  contents without the carriage returns, however the system splits the contents into reads; the last
  field is there even when it is empty.
\<close>

theorem tf_readlines_fields:
  assumes "io_open S path False w = (fd, w0)" "fd \<noteq> - 1" "read_doc S rest fd"
    "2 * (length (rest w0 fd) + 2) \<le> int_max"
  shows "\<exists>l w'. tf_readlines S (Some path) w = Some (Inr (Some l, w')) \<and> tf_list_wf l \<and>
    tf_list_elems l = TF_Strings.fields {10} (filter (\<lambda>c. c \<noteq> 13) (rest w0 fd))"
  by (rule readlines_ok [OF assms])

text \<open>A system for the witnesses: what is left to read, two bytes at a time, and what was written, one at a time.\<close>

definition demo_sys :: "(byte list \<times> byte list) sys" where
  "demo_sys = \<lparr>io_open = (\<lambda>p t w. (3, w)), io_close = (\<lambda>fd w. (True, w)),
     io_read = (\<lambda>fd n (i, out). (R_Data (take (min n 2) i), drop (min n 2) i, out)),
     io_write = (\<lambda>fd buf (i, out). (W_Count (min 1 (length buf)), i, out @ take 1 buf)),
     io_stat = (\<lambda>fd w. (Some (True, length (fst w)), w))\<rparr>"

lemma demo_read_doc: "read_doc demo_sys (\<lambda>w fd. fst w) fd"
  by (auto simp: read_doc_def demo_sys_def min_def)

theorem tf_readlines_fields_witness:
  "\<exists>l w'. tf_readlines demo_sys (Some [120]) ([97, 13, 10, 98, 10], []) = Some (Inr (Some l, w')) \<and>
     tf_list_elems l = [[97], [98], []]"
  using tf_readlines_fields [OF _ _ demo_read_doc, of "[120]" "([97, 13, 10, 98, 10], [])" 3 "([97, 13, 10, 98, 10], [])"]
  by (auto simp: demo_sys_def int_max_def)

text \<open>What was written, on success and on failure.\<close>

lemma tf_write_part:
  "tf_write S fd buf w = Some r \<Longrightarrow> write_doc S out fd \<Longrightarrow>
    \<exists>ok w' k. r = Inr (ok, w') \<and> out w' fd = out w fd @ take k buf \<and> (ok \<longrightarrow> k = length buf) \<and> (\<not> ok \<longrightarrow> k \<le> length buf)"
proof (induction S fd buf w r rule: tf_write.raw_induct [rotated, consumes 1, case_names 1])
  case (1 loop S fd buf w r)
  note body = 1(2)
  note d = 1(3) [unfolded write_doc_def, THEN spec, THEN spec, of buf w]
  obtain res w1 where w1: "io_write S fd buf w = (res, w1)" by fastforce
  show ?case
  proof (cases res)
    case (W_Err e)
    then have same: "out w1 fd = out w fd" using d w1 by simp
    consider "\<not> e" | "e" "buf = []" | "e" "buf \<noteq> []" by blast
    then show ?thesis
    proof cases
      case 3
      then have "loop S fd buf w1 = Some r" using 1(2) w1 W_Err by simp
      then show ?thesis using 1(1) 1(3) same by metis
    next
      case 1
      then have "r = Inr (False, w1)" using body w1 W_Err by simp
      then show ?thesis using same by (intro exI [of _ False] exI [of _ w1] exI [of _ 0]) simp
    next
      case 2
      then have "r = Inr (True, w1)" using body w1 W_Err by simp
      then show ?thesis using same 2 by (intro exI [of _ True] exI [of _ w1] exI [of _ 0]) simp
    qed
  next
    case (W_Count n)
    then have n: "n \<le> length buf" "out w1 fd = out w fd @ take n buf" using d w1 by simp_all
    show ?thesis
    proof (cases "drop n buf = []")
      case True
      then have "r = Inr (True, w1)" using 1(2) w1 W_Count n by simp
      then show ?thesis using n True by (intro exI [of _ True] exI [of _ w1] exI [of _ n]) simp
    next
      case False
      then have "loop S fd (drop n buf) w1 = Some r" using 1(2) w1 W_Count n(1) by simp
      then obtain ok w' k where k: "r = Inr (ok, w')" "out w' fd = out w1 fd @ take k (drop n buf)"
          "ok \<longrightarrow> k = length (drop n buf)" "\<not> ok \<longrightarrow> k \<le> length (drop n buf)"
        using 1(1) 1(3) by blast
      have "out w' fd = out w fd @ take (n + k) buf" using k(2) n(2) by (simp add: take_add)
      then show ?thesis using k n(1) by (intro exI [of _ ok] exI [of _ w'] exI [of _ "n + k"]) auto
    qed
  qed
qed

lemma tf_write_returns:
  assumes doc: "write_doc S out fd" and steady: "write_steady S fd"
  shows "buf \<noteq> [] \<Longrightarrow> \<exists>r. tf_write S fd buf w = Some r"
proof (induction "length buf" arbitrary: buf w rule: less_induct)
  case less
  obtain res w1 where w1: "io_write S fd buf w = (res, w1)" by fastforce
  have st: "case res of W_Err e \<Rightarrow> \<not> e | W_Count n \<Rightarrow> 0 < n"
    using steady less.prems w1 unfolding write_steady_def by (metis fst_conv)
  show ?case
  proof (cases res)
    case (W_Err e)
    then show ?thesis using st w1 by (subst tf_write.simps) simp
  next
    case (W_Count n)
    then have n: "0 < n" "n \<le> length buf" using st doc [unfolded write_doc_def, THEN spec, THEN spec, of buf w] w1 by simp_all
    then have "length (drop n buf) < length buf" using less.prems by simp
    then have "drop n buf \<noteq> [] \<Longrightarrow> \<exists>r. tf_write S fd (drop n buf) w1 = Some r" using less.hyps by blast
    then show ?thesis using w1 W_Count n(2) by (subst tf_write.simps) auto
  qed
qed

text \<open>
  C31: Writing a buffer writes all of it, in order, when it reports success, and a prefix when it reports
  failure; it never writes other bytes.  It returns as soon as the system takes at least one
  byte of every request or fails for another reason than an interruption.
\<close>

theorem tf_write_all:
  assumes "write_doc S out fd"
  shows "(\<forall>r. tf_write S fd buf w = Some r \<longrightarrow>
      (\<exists>ok w' k. r = Inr (ok, w') \<and> out w' fd = out w fd @ take k buf \<and> (ok \<longrightarrow> k = length buf) \<and> (\<not> ok \<longrightarrow> k \<le> length buf))) \<and>
    (write_steady S fd \<longrightarrow> buf \<noteq> [] \<longrightarrow> (\<exists>r. tf_write S fd buf w = Some r))"
  using tf_write_part [of S fd buf w _ out, OF _ assms] tf_write_returns [OF assms] by blast

theorem tf_write_all_witness:
  "\<exists>r. tf_write demo_sys 3 [1, 2, 3] ([], []) = Some r \<and>
     (\<exists>ok w' k. r = Inr (ok, w') \<and> snd w' = take k [1, 2, 3] \<and> (ok \<longrightarrow> k = 3))"
proof -
  let ?b = "[1, 2, 3] :: byte list"
  have m: "min (Suc 0) n = (if n = 0 then 0 else 1)" for n by simp
  have doc: "write_doc demo_sys (\<lambda>w fd. snd w) 3"
    by (auto simp: write_doc_def demo_sys_def m Suc_le_eq)
  have steady: "write_steady demo_sys 3" by (simp add: write_steady_def demo_sys_def)
  note a = tf_write_all [OF doc, of ?b "([], [])"]
  obtain r where r: "tf_write demo_sys 3 ?b ([], []) = Some r" using a steady by blast
  then obtain ok w' k where "r = Inr (ok, w')" "snd w' = snd ([] :: byte list, [] :: byte list) @ take k ?b"
      "ok \<longrightarrow> k = length ?b"
    using a by meson
  then have "r = Inr (ok, w') \<and> snd w' = take k ?b \<and> (ok \<longrightarrow> k = 3)" by simp
  with r show ?thesis by blast
qed

section \<open>An interrupted read\<close>

text \<open>An interruption is not tried again: the case falls through to that of the end of the file.\<close>

lemma tf_read_interrupted:
  "io_read S fd sz w = (R_Err True, w') \<Longrightarrow> 0 < sz \<Longrightarrow> tf_read S fd sz got w = Some (Inr ((False, got), w'))"
  by (subst tf_read.simps) simp

end
