(* ===== verification/TF_Rate.thy ===== *)
theory TF_Rate
  imports TF_Prelude
begin

text \<open>
  The rate limiter of \<open>tf_util.c\<close> (\<open>struct tf_rate_st\<close> and the functions on it).  The clock is an
  argument.  The field \<open>rate\<close>, a floating-point statistic that no decision reads, is left out.
  Fields that \<open>rate_new\<close> does not store are not initialised.
\<close>

section \<open>The code\<close>

record tf_rate =
  rt_total :: u32
  rt_seconds :: u32
  rt_wait :: u32
  rt_count :: "u32 option"
  rt_time :: "int option"
  rt_bad :: "int option"

definition rate_new :: "u32 \<Rightarrow> u32 \<Rightarrow> u32 \<Rightarrow> tf_rate" where
  "rate_new tot seconds wait =
     \<lparr>rt_total = tot, rt_seconds = seconds, rt_wait = wait, rt_count = None, rt_time = None, rt_bad = None\<rparr>"

definition need :: "'a option \<Rightarrow> c_error + 'a" where
  "need x = (case x of None \<Rightarrow> Inl Uninitialised | Some v \<Rightarrow> Inr v)"

lemma need_simps [simp]: "need None = Inl Uninitialised" "need (Some v) = Inr v"
  by (simp_all add: need_def)

definition tf_rate_reset :: "tf_rate \<Rightarrow> tf_rate" where
  "tf_rate_reset rt = rt\<lparr>rt_time := Some 0, rt_count := Some 0, rt_bad := Some 0\<rparr>"

definition tf_rate_add :: "int \<Rightarrow> tf_rate \<Rightarrow> u32 \<Rightarrow> c_error + tf_rate" where
  "tf_rate_add now rt count =
     rbind (need (rt_time rt)) (\<lambda>t.
     rbind (if now - t \<ge> uint (rt_seconds rt)
            then rbind (need (rt_count rt)) (\<lambda>_. Inr (tf_rate_reset rt)) else Inr rt) (\<lambda>rt.
     rbind (need (rt_count rt)) (\<lambda>c.
     rbind (need (rt_time rt)) (\<lambda>t.
     let rt = rt\<lparr>rt_count := Some (c + count)\<rparr>;
         rt = (if t = 0 then rt\<lparr>rt_time := Some now\<rparr> else rt)
     in Inr (if c + count \<ge> rt_total rt then rt\<lparr>rt_bad := Some now\<rparr> else rt)))))"

definition tf_rate_left :: "tf_rate \<Rightarrow> c_error + int" where
  "tf_rate_left rt =
     rbind (need (rt_bad rt)) (\<lambda>b.
       if b \<noteq> 0 then Inr 0 else rbind (need (rt_count rt)) (\<lambda>c. Inr (sint (rt_total rt - c))))"

definition tf_rate_check :: "int \<Rightarrow> tf_rate \<Rightarrow> c_error + tf_rate \<times> bool" where
  "tf_rate_check now rt =
     rbind (need (rt_time rt)) (\<lambda>t.
     if t = 0 then Inr (rt, True)
     else rbind (need (rt_count rt)) (\<lambda>c.
       if c < rt_total rt then Inr (rt, True)
       else rbind (need (rt_bad rt)) (\<lambda>b.
         if b \<noteq> 0
         then (if now - b \<ge> uint (rt_wait rt) then Inr (tf_rate_reset rt, True) else Inr (rt, False))
         else Inr (rt, True))))"

text \<open>A sequence of additions, each with its time.\<close>

fun rate_run :: "tf_rate \<Rightarrow> (int \<times> u32) list \<Rightarrow> c_error + tf_rate" where
  "rate_run rt [] = Inr rt"
| "rate_run rt ((t, c) # evs) = rbind (tf_rate_add t rt c) (\<lambda>rt. rate_run rt evs)"

section \<open>One window\<close>

abbreviation rate_state :: "tf_rate \<Rightarrow> int \<Rightarrow> u32 \<Rightarrow> int \<Rightarrow> tf_rate" where
  "rate_state rt t c b \<equiv> rt\<lparr>rt_time := Some t, rt_count := Some c, rt_bad := Some b\<rparr>"

definition events_total :: "(int \<times> u32) list \<Rightarrow> nat" where
  "events_total evs = sum_list (map (\<lambda>e. unat (snd e)) evs)"

lemma events_total_simps [simp]:
  "events_total [] = 0" "events_total ((t, c) # evs) = unat c + events_total evs"
  by (simp_all add: events_total_def)

lemma add_in_window:
  "t0 \<noteq> 0 \<Longrightarrow> t - t0 < uint (rt_seconds rt) \<Longrightarrow>
     tf_rate_add t (rate_state rt t0 c b) n =
       Inr (rate_state rt t0 (c + n) (if c + n \<ge> rt_total rt then t else b))"
  by (simp add: tf_rate_add_def)

lemma add_expired:
  "t - t0 \<ge> uint (rt_seconds rt) \<Longrightarrow>
     tf_rate_add t (rate_state rt t0 c b) n =
       Inr (rate_state rt t n (if n \<ge> rt_total rt then t else 0))"
  by (simp add: tf_rate_add_def tf_rate_reset_def)

lemma add_first:
  "tf_rate_add t (tf_rate_reset rt) n = Inr (rate_state rt t n (if n \<ge> rt_total rt then t else 0))"
  by (simp add: tf_rate_add_def tf_rate_reset_def)

lemma unat_add_small: "unat (a :: u32) + n < 2 ^ 32 \<Longrightarrow> unat b \<le> n \<Longrightarrow> unat (a + b) = unat a + unat b"
  by (simp add: unat_word_ariths)

lemma run_in_window:
  "t0 \<noteq> 0 \<Longrightarrow> \<forall>(t, n) \<in> set evs. t - t0 < uint (rt_seconds rt) \<Longrightarrow> unat c + events_total evs < 2 ^ 32 \<Longrightarrow>
     \<exists>c' b'. rate_run (rate_state rt t0 c b) evs = Inr (rate_state rt t0 c' b') \<and>
       unat c' = unat c + events_total evs \<and>
       (evs \<noteq> [] \<longrightarrow> c' \<ge> rt_total rt \<longrightarrow> b' = fst (last evs)) \<and>
       (c' < rt_total rt \<longrightarrow> b' = b)"
proof (induction evs arbitrary: c b)
  case (Cons e evs)
  obtain t n where e: "e = (t, n)" by fastforce
  have u: "unat (c + n) = unat c + unat n"
    using unat_add_small [of c "unat n + events_total evs" n] Cons.prems(3) by (simp add: e)
  let ?b = "if c + n \<ge> rt_total rt then t else b"
  obtain c' b' where IH: "rate_run (rate_state rt t0 (c + n) ?b) evs = Inr (rate_state rt t0 c' b')"
      "unat c' = unat (c + n) + events_total evs"
      "evs \<noteq> [] \<longrightarrow> c' \<ge> rt_total rt \<longrightarrow> b' = fst (last evs)" "c' < rt_total rt \<longrightarrow> b' = ?b"
    using Cons.IH [of "c + n" ?b] Cons.prems u by (auto simp: e)
  have mono: "c + n \<le> c'" using IH(2) by (simp add: word_le_nat_alt)
  have same: "c' = c + n \<and> b' = ?b" if "evs = []"
    using IH(1) that by (cases rt) auto
  have run: "rate_run (rate_state rt t0 c b) (e # evs) = Inr (rate_state rt t0 c' b')"
    using Cons.prems(1,2) IH(1) by (simp add: e add_in_window)
  have "c' \<ge> rt_total rt \<Longrightarrow> b' = fst (last (e # evs))" using IH(3) same by (cases "evs = []") (auto simp: e)
  moreover have "c' < rt_total rt \<Longrightarrow> b' = b"
    using IH(4) order.strict_trans1 [OF mono, of "rt_total rt"] by auto
  ultimately show ?case using run IH(2) u e by (intro exI [of _ c'] exI [of _ b']) auto
qed auto

section \<open>Properties\<close>

text \<open>
  C32: As long as all events fall into one window, the limiter counts them: the number left is the limit
  less their sum, and the check succeeds until the sum reaches the limit, fails from then on until
  the waiting time after the last event is over, and then starts afresh.
\<close>

theorem rate_window:
  assumes "evs \<noteq> []" "\<forall>(t, n) \<in> set evs. 0 < t \<and> t - fst (hd evs) < uint (rt_seconds rt)"
    and sum: "events_total evs < 2 ^ 32" and lim: "unat (rt_total rt) < 2 ^ 31"
  shows "\<exists>rt'. rate_run (tf_rate_reset rt) evs = Inr rt' \<and>
    (if events_total evs < unat (rt_total rt)
     then tf_rate_left rt' = Inr (int (unat (rt_total rt) - events_total evs)) \<and>
       (\<forall>now. tf_rate_check now rt' = Inr (rt', True))
     else tf_rate_left rt' = Inr 0 \<and>
       (\<forall>now. tf_rate_check now rt' =
          (if now - fst (last evs) \<ge> uint (rt_wait rt) then Inr (tf_rate_reset rt', True) else Inr (rt', False))))"
proof -
  obtain t0 n es where evs: "evs = (t0, n) # es" using assms(1) by (cases evs) auto
  let ?b = "if n \<ge> rt_total rt then t0 else 0"
  obtain c b where r: "rate_run (rate_state rt t0 n ?b) es = Inr (rate_state rt t0 c b)"
      "unat c = unat n + events_total es" "es \<noteq> [] \<longrightarrow> c \<ge> rt_total rt \<longrightarrow> b = fst (last es)"
      "c < rt_total rt \<longrightarrow> b = ?b"
    using run_in_window [of t0 es rt n ?b] assms(2) sum by (fastforce simp: evs)
  have run: "rate_run (tf_rate_reset rt) evs = Inr (rate_state rt t0 c b)"
    using r(1) by (simp add: evs add_first)
  have c: "unat c = events_total evs" using r(2) by (simp add: evs)
  have le: "n \<le> c" using r(2) by (simp add: word_le_nat_alt)
  show ?thesis
  proof (cases "events_total evs < unat (rt_total rt)")
    case True
    then have cl: "c < rt_total rt" using c by (simp add: word_less_nat_alt)
    then have "b = 0" using r(4) le by auto
    moreover have "sint (rt_total rt - c) = int (unat (rt_total rt) - events_total evs)"
      using unat_sub [of c "rt_total rt"] cl lim c by (subst sint_u32) (auto simp: word_le_nat_alt word_less_nat_alt)
    ultimately show ?thesis using run True cl assms(2) by (simp add: evs tf_rate_left_def tf_rate_check_def)
  next
    case False
    then have cl: "\<not> c < rt_total rt" using c by (simp add: word_less_nat_alt)
    have "b = fst (last evs)"
    proof (cases "es = []")
      case True
      then have "rate_state rt t0 n ?b = rate_state rt t0 c b" using r(1) by simp
      then have "c = n" "b = ?b" by (cases rt, simp)+
      then show ?thesis using cl True by (simp add: evs not_less)
    qed (use r(3) cl in \<open>simp add: evs\<close>)
    moreover have "fst (last evs) \<noteq> 0" using assms(2) last_in_set [OF assms(1)] by (cases "last evs") auto
    ultimately show ?thesis
      using run False cl assms(2) by (auto simp: evs tf_rate_left_def tf_rate_check_def)
  qed
qed

theorem rate_window_witness:
  "\<exists>rt'. rate_run (tf_rate_reset (rate_new 5 10 60)) [(100, 2), (101, 3)] = Inr rt' \<and>
     tf_rate_left rt' = Inr 0 \<and> tf_rate_check 160 rt' = Inr (rt', False)"
  using rate_window [of "[(100, 2), (101, 3)]" "rate_new 5 10 60"] by (force simp: rate_new_def)

text \<open>
  An event that arrives when the counting window is over clears the exceeded mark, so a client that
  was told to wait gets through again without having waited, however long the waiting time is.
\<close>

lemma rate_wait_lost:
  assumes "t0 \<noteq> 0" "now - t0 \<ge> uint (rt_seconds rt)" "n < rt_total rt"
  shows "\<exists>rt'. tf_rate_add now (rate_state rt t0 c b) n = Inr rt' \<and> tf_rate_check now rt' = Inr (rt', True)"
  using assms by (simp add: add_expired tf_rate_check_def)

lemma rate_wait_lost_example:
  "\<exists>rt'. tf_rate_add 111 (rate_state (rate_new 5 10 3600) 100 7 101) 1 = Inr rt' \<and>
     tf_rate_check 111 rt' = Inr (rt', True)"
  by (rule rate_wait_lost) (simp_all add: rate_new_def)

section \<open>A limiter that was not reset\<close>

lemma rate_new_unset: "tf_rate_add now (rate_new t s w) n = Inl Uninitialised"
  by (simp add: tf_rate_add_def rate_new_def)

end
