(* ===== verification/TF_Hash.thy ===== *)
theory TF_Hash
  imports TF_Prelude
begin

text \<open>
  The two hash functions of \<open>expert/tf_hash.c\<close>, for a little-endian machine.  A key is the list of its
  bytes and is read with bounds checks; all arithmetic is on 32-bit words that wrap around.
\<close>

section \<open>The code\<close>

definition murmur_m :: u32 where "murmur_m = 0x5bd1e995"

text \<open>\<open>k *= m; k ^= k >> 24; k *= m\<close>.\<close>

definition murmur_mix :: "u32 \<Rightarrow> u32" where
  "murmur_mix k = (let k = k * murmur_m; k = k XOR drop_bit 24 k in k * murmur_m)"

definition le32 :: "byte \<Rightarrow> byte \<Rightarrow> byte \<Rightarrow> byte \<Rightarrow> u32" where
  "le32 a b c d = ucast a OR push_bit 8 (ucast b) OR push_bit 16 (ucast c) OR push_bit 24 (ucast d)"

fun murmur32_loop :: "byte list \<Rightarrow> nat \<Rightarrow> u32 \<Rightarrow> c_error + byte list \<times> nat \<times> u32" where
  "murmur32_loop (a # b # c # d # data) len h =
     (if 4 \<le> len then murmur32_loop data (len - 4) ((h * murmur_m) XOR murmur_mix (le32 a b c d))
      else Inr (a # b # c # d # data, len, h))"
| "murmur32_loop data len h = (if 4 \<le> len then Inl Out_Of_Bounds else Inr (data, len, h))"

text \<open>The switch on the bytes that are left falls through from three to one.\<close>

definition murmur_tail :: "byte list \<Rightarrow> nat \<Rightarrow> u32 \<Rightarrow> c_error + u32" where
  "murmur_tail data len h =
     rbind (if len = 3 then rbind (rd data 2) (\<lambda>b. Inr (h XOR push_bit 16 (ucast b))) else Inr h) (\<lambda>h.
     rbind (if len = 3 \<or> len = 2 then rbind (rd data 1) (\<lambda>b. Inr (h XOR push_bit 8 (ucast b))) else Inr h) (\<lambda>h.
     if len = 3 \<or> len = 2 \<or> len = 1
     then rbind (rd data 0) (\<lambda>b. Inr ((h XOR ucast b) * murmur_m)) else Inr h))"

definition murmur32_final :: "u32 \<Rightarrow> u32" where
  "murmur32_final h =
     (let h = h XOR drop_bit 13 h; h = h * murmur_m in h XOR drop_bit 15 h)"

definition tf_murmur32_hash :: "byte list \<Rightarrow> nat \<Rightarrow> c_error + u32" where
  "tf_murmur32_hash data len =
     rbind (murmur32_loop data len (of_nat len)) (\<lambda>(data, len, h).
     rbind (murmur_tail data len h) (\<lambda>h. Inr (murmur32_final h)))"

fun murmur64_loop :: "byte list \<Rightarrow> nat \<Rightarrow> u32 \<Rightarrow> u32 \<Rightarrow> c_error + byte list \<times> nat \<times> u32 \<times> u32" where
  "murmur64_loop (a # b # c # d # e # f # g # i # data) len h1 h2 =
     (if 8 \<le> len
      then murmur64_loop data (len - 8) ((h1 * murmur_m) XOR murmur_mix (le32 a b c d))
             ((h2 * murmur_m) XOR murmur_mix (le32 e f g i))
      else Inr (a # b # c # d # e # f # g # i # data, len, h1, h2))"
| "murmur64_loop data len h1 h2 = (if 8 \<le> len then Inl Out_Of_Bounds else Inr (data, len, h1, h2))"

definition murmur64_four :: "byte list \<Rightarrow> nat \<Rightarrow> u32 \<Rightarrow> c_error + byte list \<times> nat \<times> u32" where
  "murmur64_four data len h1 =
     (if 4 \<le> len
      then (case data of
              a # b # c # d # r \<Rightarrow> Inr (r, len - 4, (h1 * murmur_m) XOR murmur_mix (le32 a b c d))
            | _ \<Rightarrow> Inl Out_Of_Bounds)
      else Inr (data, len, h1))"

definition murmur64_final :: "u32 \<Rightarrow> u32 \<Rightarrow> u64" where
  "murmur64_final h1 h2 =
     (let h1 = (h1 XOR drop_bit 18 h2) * murmur_m;
          h2 = (h2 XOR drop_bit 22 h1) * murmur_m;
          h1 = (h1 XOR drop_bit 17 h2) * murmur_m;
          h2 = (h2 XOR drop_bit 19 h1) * murmur_m
      in push_bit 32 (ucast h1) OR ucast h2)"

definition tf_murmur64_hash :: "byte list \<Rightarrow> nat \<Rightarrow> u32 \<Rightarrow> c_error + u64" where
  "tf_murmur64_hash key len seed =
     rbind (murmur64_loop key len (seed XOR of_nat len) 0) (\<lambda>(data, len, h1, h2).
     rbind (murmur64_four data len h1) (\<lambda>(data, len, h1).
     rbind (murmur_tail data len h2) (\<lambda>h2. Inr (murmur64_final h1 h2))))"

section \<open>Every step of the mixing can be undone\<close>

lemma mult_m_inj: "(x :: u32) * murmur_m = y * murmur_m \<Longrightarrow> x = y"
proof -
  assume "x * murmur_m = y * murmur_m"
  then have "x * murmur_m * 0xe59b19bd = y * murmur_m * 0xe59b19bd" by simp
  moreover have "murmur_m * 0xe59b19bd = 1" by (simp add: murmur_m_def)
  ultimately show "x = y" by (simp add: mult.assoc)
qed

text \<open>The top bits pass through unchanged, and each determines the bits \<open>k\<close> places below it.\<close>

lemma xor_shift_inj:
  fixes x y :: u32
  assumes "x XOR drop_bit k x = y XOR drop_bit k y" "0 < k"
  shows "x = y"
proof (rule bit_word_eqI)
  have step: "bit x n = bit y n" if "bit x (n + k) = bit y (n + k)" for n
  proof -
    have "bit (x XOR drop_bit k x) n = bit (y XOR drop_bit k y) n" using assms(1) by simp
    then show ?thesis using that by (auto simp: bit_xor_iff bit_drop_bit_eq add.commute)
  qed
  have high: "bit x n = bit y n" if "32 \<le> n" for n
    using that bit_imp_le_length [of x n] bit_imp_le_length [of y n] by auto
  have "bit x n = bit y n" if "m = 32 - n" for m n
    using that
  proof (induction m arbitrary: n rule: less_induct)
    case (less m)
    show ?case
    proof (cases "32 \<le> n")
      case True
      then show ?thesis by (rule high)
    next
      case False
      then have "32 - (n + k) < m" using less.prems assms(2) by simp
      then show ?thesis using step less.IH by blast
    qed
  qed
  then show "bit x n = bit y n" for n by blast
qed

lemma murmur_mix_inj: "murmur_mix x = murmur_mix y \<Longrightarrow> x = y"
  unfolding murmur_mix_def Let_def by (drule mult_m_inj, drule xor_shift_inj, simp, drule mult_m_inj)

lemma murmur32_final_inj: "murmur32_final x = murmur32_final y \<Longrightarrow> x = y"
  unfolding murmur32_final_def Let_def
  by (drule xor_shift_inj, simp, drule mult_m_inj, drule xor_shift_inj, simp)

lemma xor_left_inj: "(a :: u32) XOR x = a XOR y \<Longrightarrow> x = y"
  by (metis xor.assoc xor_self_eq xor.left_neutral)

lemma le32_bits:
  assumes "n < 8"
  shows "bit (le32 a b c d) n = bit a n" "bit (le32 a b c d) (n + 8) = bit b n"
    "bit (le32 a b c d) (n + 16) = bit c n" "bit (le32 a b c d) (n + 24) = bit d n"
proof -
  have off: "\<not> bit (x :: byte) m" if "8 \<le> m" for x m using bit_byte [of x m] that by auto
  show "bit (le32 a b c d) n = bit a n" "bit (le32 a b c d) (n + 8) = bit b n"
    "bit (le32 a b c d) (n + 16) = bit c n" "bit (le32 a b c d) (n + 24) = bit d n"
    using assms by (auto simp: le32_def bit_or_iff bit_push_bit_iff bit_unsigned_iff off)
qed

lemma le32_inj: "le32 a b c d = le32 a' b' c' d' \<Longrightarrow> a = a' \<and> b = b' \<and> c = c' \<and> d = d'"
proof -
  assume e: "le32 a b c d = le32 a' b' c' d'"
  have "bit a n = bit a' n" "bit b n = bit b' n" "bit c n = bit c' n" "bit d n = bit d' n" if "n < 8" for n
    using le32_bits [OF that] e by metis+
  then show ?thesis by (simp add: byte_eqI)
qed

section \<open>A key of the right length\<close>

lemma murmur32_loop_prefix:
  "length pre = 4 * n \<Longrightarrow> \<exists>h'. \<forall>data len. murmur32_loop (pre @ data) (length pre + len) h = murmur32_loop data len h'"
proof (induction n arbitrary: pre h)
  case (Suc n)
  then obtain a b c d r where "pre = a # b # c # d # r" using length_ge_4 [of pre] by auto
  then show ?case using Suc.IH [of r "(h * murmur_m) XOR murmur_mix (le32 a b c d)"] Suc.prems by simp
qed auto

lemma murmur32_loop_whole:
  "\<exists>f r. inj f \<and> length r < 4 \<and> (\<forall>h. murmur32_loop data (length data) h = Inr (r, length r, f h))"
proof (induction data rule: length_induct)
  case (1 data)
  show ?case
  proof (cases "4 \<le> length data")
    case True
    then obtain a b c d r where data: "data = a # b # c # d # r" using length_ge_4 by blast
    obtain f q where f: "inj f" "length q < 4" "\<And>h. murmur32_loop r (length r) h = Inr (q, length q, f h)"
      using 1 [THEN spec, of r] by (auto simp: data)
    let ?g = "\<lambda>h. f ((h * murmur_m) XOR murmur_mix (le32 a b c d))"
    have "inj ?g"
    proof (rule injI)
      fix x y assume "?g x = ?g y"
      then have "x * murmur_m XOR murmur_mix (le32 a b c d) = y * murmur_m XOR murmur_mix (le32 a b c d)"
        by (rule injD [OF f(1)])
      then have "x * murmur_m = y * murmur_m" by (simp only: xor.commute [of _ "murmur_mix (le32 a b c d)"]) (rule xor_left_inj)
      then show "x = y" by (rule mult_m_inj)
    qed
    moreover have "murmur32_loop data (length data) h = Inr (q, length q, ?g h)" for h
      using f(3) by (simp add: data)
    ultimately show ?thesis using f(2) by blast
  next
    case False
    then have "murmur32_loop data (length data) h = Inr (data, length data, h)" for h
      by (cases "(data, length data, h)" rule: murmur32_loop.cases) auto
    then show ?thesis using False by (intro exI [of _ "\<lambda>h. h"] exI [of _ data]) simp
  qed
qed

lemma murmur_tail_whole:
  assumes "length r < 4"
  shows "\<exists>g. inj g \<and> (\<forall>h. murmur_tail r (length r) h = Inr (g h))"
proof -
  have inj: "inj (\<lambda>h :: u32. (h XOR x) * murmur_m)" for x
    by (rule injI) (metis mult_m_inj xor.commute xor_left_inj)
  consider "r = []" | a where "r = [a]" | a b where "r = [a, b]" | a b c where "r = [a, b, c]"
    using assms by (cases r; cases "tl r"; cases "tl (tl r)"; cases "tl (tl (tl r))") auto
  then show ?thesis
  proof cases
    case 1
    then show ?thesis by (intro exI [of _ "\<lambda>h. h"]) (simp add: murmur_tail_def)
  next
    case 2
    then show ?thesis using inj by (intro exI [of _ "\<lambda>h. (h XOR ucast a) * murmur_m"]) (simp add: murmur_tail_def)
  next
    case 3
    then show ?thesis using inj [of "push_bit 8 (ucast b) XOR ucast a"]
      by (intro exI [of _ "\<lambda>h. (h XOR (push_bit 8 (ucast b) XOR ucast a)) * murmur_m"])
        (simp add: murmur_tail_def xor.assoc)
  next
    case 4
    then show ?thesis using inj [of "push_bit 16 (ucast c) XOR (push_bit 8 (ucast b) XOR ucast a)"]
      by (intro exI [of _ "\<lambda>h. (h XOR (push_bit 16 (ucast c) XOR (push_bit 8 (ucast b) XOR ucast a))) * murmur_m"])
        (simp add: murmur_tail_def xor.assoc)
  qed
qed

lemma murmur32_total: "\<exists>f. inj f \<and> (\<forall>h. rbind (murmur32_loop data (length data) h) (\<lambda>(data, len, h).
    rbind (murmur_tail data len h) (\<lambda>h. Inr (murmur32_final h))) = Inr (f h))"
proof -
  obtain f r where f: "inj f" "length r < 4" "\<And>h. murmur32_loop data (length data) h = Inr (r, length r, f h)"
    using murmur32_loop_whole by blast
  obtain g where g: "inj g" "\<And>h. murmur_tail r (length r) h = Inr (g h)" using murmur_tail_whole [OF f(2)] by blast
  have "inj (\<lambda>h. murmur32_final (g (f h)))"
    by (rule injI) (metis f(1) g(1) injD murmur32_final_inj)
  then show ?thesis by (intro exI [of _ "\<lambda>h. murmur32_final (g (f h))"]) (simp add: f(3) g(2))
qed

section \<open>Properties\<close>

text \<open>
  The 32-bit hash reads a key of the given length without leaving it, and two keys of the same length
  that differ in one aligned group of four bytes only never collide.
\<close>

lemma murmur32_group_injective:
  assumes "length pre = 4 * n" "length g = 4" "length g' = 4"
  shows "\<exists>h h'. tf_murmur32_hash (pre @ g @ post) (length (pre @ g @ post)) = Inr h \<and>
    tf_murmur32_hash (pre @ g' @ post) (length (pre @ g' @ post)) = Inr h' \<and> (h = h' \<longrightarrow> g = g')"
proof -
  obtain a b c d where g: "g = [a, b, c, d]" using length_ge_4 [of g] assms(2) by auto
  obtain a' b' c' d' where g': "g' = [a', b', c', d']" using length_ge_4 [of g'] assms(3) by auto
  define len where "len = length (pre @ g @ post)"
  have len: "len = length pre + (4 + length post)" by (simp add: len_def g)
  obtain h0 where h0: "\<And>data l. murmur32_loop (pre @ data) (length pre + l) (of_nat len) = murmur32_loop data l h0"
    using murmur32_loop_prefix [OF assms(1), of "of_nat len"] by blast
  obtain f where f: "inj f" "\<And>h. rbind (murmur32_loop post (length post) h) (\<lambda>(data, len, h).
      rbind (murmur_tail data len h) (\<lambda>h. Inr (murmur32_final h))) = Inr (f h)"
    using murmur32_total by blast
  have run: "tf_murmur32_hash (pre @ [w, x, y, z] @ post) len =
      Inr (f ((h0 * murmur_m) XOR murmur_mix (le32 w x y z)))" for w x y z
    using h0 [of "[w, x, y, z] @ post" "4 + length post"] f(2) by (simp add: tf_murmur32_hash_def len)
  have "g = g'" if "f ((h0 * murmur_m) XOR murmur_mix (le32 a b c d)) = f ((h0 * murmur_m) XOR murmur_mix (le32 a' b' c' d'))"
    using le32_inj [OF murmur_mix_inj [OF xor_left_inj [OF injD [OF f(1) that]]]] by (simp add: g g')
  moreover have "length (pre @ g' @ post) = len" by (simp add: len_def g g')
  ultimately show ?thesis using run len_def g g' by metis
qed

lemma murmur32_group_injective_example:
  "\<exists>h h'. tf_murmur32_hash [1, 2, 3, 4, 5] 5 = Inr h \<and> tf_murmur32_hash [1, 2, 3, 9, 5] 5 = Inr h' \<and> h \<noteq> h'"
proof -
  have l: "length ([] @ [1, 2, 3, 4] @ [5 :: byte]) = 5" "length ([] @ [1, 2, 3, 9] @ [5 :: byte]) = 5" by simp_all
  have "\<exists>h h'. tf_murmur32_hash ([] @ [1, 2, 3, 4] @ [5]) 5 = Inr h \<and>
      tf_murmur32_hash ([] @ [1, 2, 3, 9] @ [5]) 5 = Inr h' \<and> (h = h' \<longrightarrow> [1, 2, 3, 4] = [1, 2, 3, 9 :: byte])"
    using murmur32_group_injective [of "[]" 0 "[1, 2, 3, 4]" "[1, 2, 3, 9]" "[5]"] unfolding l by simp
  then show ?thesis by auto
qed

end
