(* ===== verification/TF_Conf.thy ===== *)
theory TF_Conf
  imports TF_File
begin

text \<open>
  The configuration files of \<open>tf_conf_file.c\<close>: the parser of a line, which works in the buffer of the
  line, the table of groups and their pairs, and the typed getters.  Pointers into a line are offsets.
  The lists of groups and pairs hold copies of structures, which \<open>cfg_create\<close> only appends and never
  removes; they are lists here, as the array list refines them.  A group's \<open>pairs\<close> is a pointer that
  the copy in the table shares with the original, so it is the name of a list in a store.  The name of
  the file is given as it is after formatting.
\<close>

section \<open>Parsing a line\<close>

record tf_keyval =
  kv_key :: tf_str
  kv_value :: "tf_str option"

text \<open>The string at an offset of a buffer.\<close>

definition str_at :: "byte list \<Rightarrow> nat \<Rightarrow> c_error + cstr" where
  "str_at buf off =
     (if 0 \<in> set (drop off buf) then Inr (takeWhile (\<lambda>c. c \<noteq> 0) (drop off buf)) else Inl Out_Of_Bounds)"

text \<open>
  \<open>key++\<close> once for every separator before the end, wherever it stands: the loop of the \<open>group\<close> lines
  looks at the whole rest of the line, that of the bracketed lines stops at the bracket.
\<close>

fun key_skip :: "byte set \<Rightarrow> byte set \<Rightarrow> byte list \<Rightarrow> nat \<Rightarrow> nat \<Rightarrow> c_error + nat \<times> nat" where
  "key_skip seps ends [] ii key = Inl Out_Of_Bounds"
| "key_skip seps ends (c # ptr) ii key =
     (if c = 0 \<or> c \<in> ends then Inr (ii, key)
      else key_skip seps ends ptr (ii + 1) (if c \<in> seps then key + 1 else key))"

definition group_key :: "byte list \<Rightarrow> c_error + cstr" where
  "group_key buf =
     rbind (key_skip {32, 61, 9} {} (drop 5 buf) 0 5) (\<lambda>(_, key). str_at buf key)"

definition bracket_key :: "byte list \<Rightarrow> c_error + cstr" where
  "bracket_key buf =
     rbind (key_skip {32, 9} {93} (drop 1 buf) 0 1) (\<lambda>(ii, key).
     rbind (wr buf (1 + ii) 0) (\<lambda>buf. str_at buf key))"

text \<open>The loop over a line with a key and a value.\<close>

function kv_loop :: "byte list \<Rightarrow> nat \<Rightarrow> bool \<Rightarrow> bool \<Rightarrow> nat \<Rightarrow> nat option \<Rightarrow> c_error + byte list \<times> nat option" where
  "kv_loop ptr ii found_key found_value kk value =
     rbind (rd ptr ii) (\<lambda>c.
     if c = 0 then Inr (ptr, value)
     else if c = 35 then rbind (wr ptr ii 0) (\<lambda>ptr. Inr (ptr, value))
     else if c \<in> {32, 9, 61, 58}
     then (if \<not> found_key
           then rbind (wr ptr ii 0) (\<lambda>ptr'. kv_loop ptr' (ii + 1) True found_value (ii + 1) value)
           else kv_loop ptr (ii + 1) found_key found_value (if \<not> found_value then ii + 1 else kk) value)
     else if found_key \<and> \<not> found_value then kv_loop ptr (ii + 1) found_key True kk (Some kk)
     else kv_loop ptr (ii + 1) found_key found_value kk value)"
  by pat_completeness auto
termination
  by (relation "measure (\<lambda>(ptr, ii, fk, fv, kk, v). length ptr - ii)") (auto simp: rd_def wr_def split: if_splits)

declare kv_loop.simps [simp del]

definition starts_with :: "byte list \<Rightarrow> byte list \<Rightarrow> bool" where
  "starts_with s p \<longleftrightarrow> take (length p) s = p"

text \<open>A group line yields a key without a value.\<close>

definition group_kv :: "cstr \<Rightarrow> c_error + tf_keyval option" where
  "group_kv key =
     (if key = [] then Inr None
      else rbind (tf_strnew2 key) (\<lambda>k. Inr (Some \<lparr>kv_key = k, kv_value = None\<rparr>)))"

definition parse_line :: "byte list \<Rightarrow> c_error + tf_keyval option" where
  "parse_line str =
     rbind (tf_strtrim str) (\<lambda>ptr.
     rbind (rd ptr 0) (\<lambda>c.
     if c = 35 \<or> c = 0 then Inr None
     else if starts_with ptr (ascii ''group'') then rbind (group_key ptr) group_kv
     else if c = 91 then rbind (bracket_key ptr) group_kv
     else rbind (kv_loop ptr 0 False False 0 None) (\<lambda>(ptr, value).
          case value of
            None \<Rightarrow> Inr None
          | Some off \<Rightarrow>
              rbind (str_at ptr 0) (\<lambda>k. rbind (tf_strnew2 k) (\<lambda>k.
              rbind (str_at ptr off) (\<lambda>v. rbind (tf_strnew2 v) (\<lambda>v.
              Inr (Some \<lparr>kv_key = k, kv_value = Some v\<rparr>))))))))"

section \<open>Groups\<close>

definition MAX_FILENAME_LEN :: nat where "MAX_FILENAME_LEN = 128"

record cfg_group =
  cg_name :: "byte list"
  cg_pairs :: nat

record cfg_file =
  cf_groups :: "cfg_group list"
  cf_pairs :: "nat \<Rightarrow> tf_keyval list option"

text \<open>
  \<open>tf_stricmp\<close> of the name of a group, an array that need not hold a terminator, with a string: the
  comparison leaves the array when it reaches its end.
\<close>

definition name_is :: "byte list \<Rightarrow> cstr \<Rightarrow> c_error + bool" where
  "name_is nm name =
     (if 0 \<in> set nm then Inr (tf_stricmp (takeWhile (\<lambda>c. c \<noteq> 0) nm) name = 0)
      else if length nm \<le> length name \<and> tf_stricmp nm (take (length nm) name) = 0 then Inl Out_Of_Bounds
      else Inr False)"

fun find_group :: "cfg_group list \<Rightarrow> cstr \<Rightarrow> c_error + cfg_group option" where
  "find_group [] name = Inr None"
| "find_group (g # gs) name =
     rbind (name_is (cg_name g) name) (\<lambda>eq. if eq then Inr (Some g) else find_group gs name)"

definition cfg_find_group :: "cfg_file option \<Rightarrow> cstr \<Rightarrow> c_error + cfg_group option" where
  "cfg_find_group cfg name = (case cfg of None \<Rightarrow> Inr None | Some c \<Rightarrow> find_group (cf_groups c) name)"

text \<open>The string in the region of an extensible string.\<close>

fun region_str :: "region \<Rightarrow> c_error + cstr" where
  "region_str [] = Inl Out_Of_Bounds"
| "region_str (None # r) = Inl Uninitialised"
| "region_str (Some c # r) = (if c = 0 then Inr [] else rbind (region_str r) (\<lambda>s. Inr (c # s)))"

text \<open>A new group: the name is copied without its terminator into a cleared array.\<close>

definition new_group :: "nat \<Rightarrow> tf_str \<Rightarrow> c_error + cfg_group" where
  "new_group p key =
     rbind (slice (tf_strptr key) 0 (min MAX_FILENAME_LEN (nat (tf_strsize key)))) (\<lambda>bytes.
     if None \<in> set bytes then Inl Uninitialised
     else rbind (blit (replicate MAX_FILENAME_LEN 0) 0 (map the bytes)) (\<lambda>nm.
          Inr \<lparr>cg_name = nm, cg_pairs = p\<rparr>))"

definition free_pairs :: "cfg_file \<Rightarrow> nat" where
  "free_pairs cfg = length (cf_groups cfg)"

text \<open>One line; the current group is known by its list of pairs.\<close>

definition cfg_line :: "byte list \<Rightarrow> cfg_file \<times> nat option \<Rightarrow> c_error + cfg_file \<times> nat option" where
  "cfg_line line = (\<lambda>(cfg, grp).
     rbind (parse_line line) (\<lambda>r. case r of
       None \<Rightarrow> Inr (cfg, grp)
     | Some kv \<Rightarrow>
         (case kv_value kv of
            None \<Rightarrow>
              rbind (region_str (tf_strptr (kv_key kv))) (\<lambda>name.
              rbind (cfg_find_group (Some cfg) name) (\<lambda>g. case g of
                Some g \<Rightarrow> Inr (cfg, Some (cg_pairs g))
              | None \<Rightarrow>
                  rbind (new_group (free_pairs cfg) (kv_key kv)) (\<lambda>g.
                  Inr (\<lparr>cf_groups = cf_groups cfg @ [g], cf_pairs = (cf_pairs cfg)(cg_pairs g \<mapsto> [])\<rparr>,
                       Some (cg_pairs g)))))
          | Some v \<Rightarrow>
              (case grp of
                 None \<Rightarrow> Inr (cfg, None)
               | Some p \<Rightarrow>
                   (case cf_pairs cfg p of
                      None \<Rightarrow> Inl Use_After_Free
                    | Some kvs \<Rightarrow> Inr (cfg\<lparr>cf_pairs := (cf_pairs cfg)(p \<mapsto> kvs @ [kv])\<rparr>, Some p))))))"

text \<open>The bytes of an element of the list of lines, with the terminator.\<close>

definition line_buf :: "tf_list \<Rightarrow> nat \<Rightarrow> c_error + byte list" where
  "line_buf l i =
     rbind (tf_list_val l (int i)) (\<lambda>v. case v of
       None \<Rightarrow> Inl Out_Of_Bounds
     | Some (r, sz) \<Rightarrow>
         rbind (slice r 0 (sz + 1)) (\<lambda>bs. if None \<in> set bs then Inl Uninitialised else Inr (map the bs)))"

fun cfg_lines :: "tf_list \<Rightarrow> nat \<Rightarrow> nat \<Rightarrow> cfg_file \<times> nat option \<Rightarrow> c_error + cfg_file \<times> nat option" where
  "cfg_lines l i 0 st = Inr st"
| "cfg_lines l i (Suc n) st =
     rbind (line_buf l i) (\<lambda>line. rbind (cfg_line line st) (\<lambda>st. cfg_lines l (i + 1) n st))"

definition cfg_create :: "'w sys \<Rightarrow> cstr \<Rightarrow> 'w \<Rightarrow> (c_error + cfg_file option \<times> 'w) option" where
  "cfg_create S filename w =
     (if MAX_FILENAME_LEN * 2 \<le> length filename then Some (Inl Out_Of_Bounds)
      else map_option (\<lambda>r. rbind r (\<lambda>(file, w). case file of
             None \<Rightarrow> Inr (None, w)
           | Some l \<Rightarrow>
               rbind (cfg_lines l 0 (tf_list_num l) (\<lparr>cf_groups = [], cf_pairs = (\<lambda>_. None)\<rparr>, None)) (\<lambda>(cfg, _).
               Inr (Some cfg, w))))
           (tf_readlines S (Some filename) w))"

text \<open>Destroying frees the list of pairs of every group, and the strings of the pairs with it.\<close>

fun destroy_groups :: "cfg_group list \<Rightarrow> (nat \<Rightarrow> tf_keyval list option) \<Rightarrow> c_error + (nat \<Rightarrow> tf_keyval list option)" where
  "destroy_groups [] m = Inr m"
| "destroy_groups (g # gs) m =
     (case m (cg_pairs g) of None \<Rightarrow> Inl Use_After_Free | Some _ \<Rightarrow> destroy_groups gs (m(cg_pairs g := None)))"

definition cfg_destroy :: "cfg_file option \<Rightarrow> c_error + (nat \<Rightarrow> tf_keyval list option)" where
  "cfg_destroy cfg = (case cfg of None \<Rightarrow> Inr (\<lambda>_. None) | Some c \<Rightarrow> destroy_groups (cf_groups c) (cf_pairs c))"

section \<open>Getters\<close>

text \<open>
  \<open>memcmp\<close> compares up to the larger of the two lengths and stops at the first difference; it would
  leave a string that ended without one.
\<close>

fun memcmp_eq_upto :: "region \<Rightarrow> byte list \<Rightarrow> nat \<Rightarrow> c_error + bool" where
  "memcmp_eq_upto a b 0 = Inr True"
| "memcmp_eq_upto (Some x # a) (y # b) (Suc n) = (if x = y then memcmp_eq_upto a b n else Inr False)"
| "memcmp_eq_upto (None # a) (y # b) (Suc n) = Inl Uninitialised"
| "memcmp_eq_upto [] b (Suc n) = Inl Out_Of_Bounds"
| "memcmp_eq_upto (x # a) [] (Suc n) = Inl Out_Of_Bounds"

fun find_kv :: "tf_keyval list \<Rightarrow> cstr \<Rightarrow> c_error + tf_keyval option" where
  "find_kv [] key = Inr None"
| "find_kv (kv # kvs) key =
     rbind (memcmp_eq_upto (tf_strptr (kv_key kv)) (key @ [0]) (max (nat (tf_strsize (kv_key kv))) (length key))) (\<lambda>eq.
     if eq then Inr (Some kv) else find_kv kvs key)"

definition cfg_get_kv :: "cfg_file \<Rightarrow> cfg_group option \<Rightarrow> cstr \<Rightarrow> c_error + tf_keyval option" where
  "cfg_get_kv cfg grp key = (case grp of
     None \<Rightarrow> Inr None
   | Some g \<Rightarrow> (case cf_pairs cfg (cg_pairs g) of None \<Rightarrow> Inl Use_After_Free | Some kvs \<Rightarrow> find_kv kvs key))"

text \<open>The string of the value; a pair in a group always has one.\<close>

definition value_str :: "tf_keyval \<Rightarrow> c_error + cstr" where
  "value_str kv = (case kv_value kv of None \<Rightarrow> Inl Out_Of_Bounds | Some v \<Rightarrow> region_str (tf_strptr v))"

definition cfg_get_string :: "cfg_file \<Rightarrow> cfg_group option \<Rightarrow> cstr \<Rightarrow> cstr \<Rightarrow> c_error + cstr" where
  "cfg_get_string cfg grp key dft =
     rbind (cfg_get_kv cfg grp key) (\<lambda>r. case r of None \<Rightarrow> Inr dft | Some kv \<Rightarrow> value_str kv)"

definition cfg_get_bool :: "cfg_file \<Rightarrow> cfg_group option \<Rightarrow> cstr \<Rightarrow> bool \<Rightarrow> c_error + bool" where
  "cfg_get_bool cfg grp key dft =
     rbind (cfg_get_kv cfg grp key) (\<lambda>r. case r of
       None \<Rightarrow> Inr dft
     | Some kv \<Rightarrow> rbind (value_str kv) (\<lambda>v.
         Inr (tf_stricmp v (ascii ''true'') = 0 \<or> tf_stricmp v (ascii ''yes'') = 0)))"

definition cfg_get_int :: "cfg_file \<Rightarrow> cfg_group option \<Rightarrow> cstr \<Rightarrow> int \<Rightarrow> c_error + int" where
  "cfg_get_int cfg grp key dft =
     rbind (cfg_get_kv cfg grp key) (\<lambda>r. case r of
       None \<Rightarrow> Inr dft
     | Some kv \<Rightarrow> rbind (value_str kv) (\<lambda>v. rbind (tf_atoi v) (\<lambda>n. Inr (to_int n))))"

section \<open>What a line means\<close>

text \<open>
  The lines of a file, as they are meant: a group, a pair with any separators between the key and the
  value, or a line without content.
\<close>

datatype conf_line = Group cstr | Pair cstr cstr cstr | Blank cstr

fun line_text :: "conf_line \<Rightarrow> cstr" where
  "line_text (Group n) = 91 # n @ [93]"
| "line_text (Pair k s v) = k @ s @ v"
| "line_text (Blank t) = t"

abbreviation seps :: "byte set" where "seps \<equiv> {32, 9, 61, 58}"

fun line_ok :: "conf_line \<Rightarrow> bool" where
  "line_ok (Group n) \<longleftrightarrow> n \<noteq> [] \<and> length n < MAX_FILENAME_LEN \<and> set n \<inter> {0, 10, 13, 32, 9, 93} = {}"
| "line_ok (Pair k s v) \<longleftrightarrow>
     k \<noteq> [] \<and> \<not> c_space (hd k) \<and> hd k \<noteq> 91 \<and> \<not> starts_with k (ascii ''group'') \<and>
     set k \<inter> ({0, 10, 13, 35} \<union> seps) = {} \<and> s \<noteq> [] \<and> set s \<subseteq> seps \<and>
     v \<noteq> [] \<and> hd v \<notin> seps \<and> \<not> c_space (last v) \<and> set v \<inter> {0, 10, 13, 35} = {}"
| "line_ok (Blank t) \<longleftrightarrow> (strip t = [] \<or> hd (strip t) = 35) \<and> set t \<inter> {0, 10, 13} = {}"

definition kv_is :: "tf_keyval \<Rightarrow> cstr \<times> cstr \<Rightarrow> bool" where
  "kv_is kv p \<longleftrightarrow> str_is (kv_key kv) (fst p) \<and> cstr_ok (fst p) \<and> length (fst p) < int_max \<and>
     (\<exists>v. kv_value kv = Some v \<and> str_is v (snd p) \<and> cstr_ok (snd p))"

lemma str_at_ok [simp]: "cstr_ok s \<Longrightarrow> str_at (p @ s @ 0 # r) (length p) = Inr s"
  by (auto simp: str_at_def cstr_ok_def takeWhile_append)

lemma key_skip_none:
  "set s \<inter> (insert 0 sp \<union> ends) = {} \<Longrightarrow> c = 0 \<or> c \<in> ends \<Longrightarrow>
     key_skip sp ends (s @ c # r) ii key = Inr (ii + length s, key)"
  by (induction s arbitrary: ii) auto

lemma not_space: "\<not> c_space 91" "\<not> c_space 93" "\<not> c_space 35"
  by (simp_all add: c_space_def)

lemma strip_same: "s \<noteq> [] \<Longrightarrow> \<not> c_space (hd s) \<Longrightarrow> \<not> c_space (last s) \<Longrightarrow> strip s = s"
proof -
  assume s: "s \<noteq> []" "\<not> c_space (hd s)" "\<not> c_space (last s)"
  then have "dropWhile c_space s = s" by (cases s) auto
  moreover obtain t c where "s = t @ [c]" using s(1) by (metis rev_exhaust)
  ultimately show "strip s = s" using s(3) by (simp add: strip_def)
qed

lemma trim_line:
  assumes "cstr_ok s"
  shows "\<exists>r. tf_strtrim (s @ [0]) = Inr (strip s @ 0 # r)"
  using strtrim_ok [OF assms, of "[]"] by auto

lemma parse_group:
  assumes "line_ok (Group n)"
  shows "\<exists>kv. parse_line (line_text (Group n) @ [0]) = Inr (Some kv) \<and> str_is (kv_key kv) n \<and> kv_value kv = None"
proof -
  let ?t = "91 # n @ [93]"
  have n: "cstr_ok n" "set n \<inter> (insert 0 {32, 9} \<union> {93}) = {}" "n \<noteq> []" using assms by (auto simp: cstr_ok_def)
  have "cstr_ok ?t" using n(1) by (simp add: cstr_ok_def)
  moreover have "strip ?t = ?t" by (rule strip_same) (simp_all add: not_space)
  ultimately obtain r where r: "tf_strtrim (?t @ [0]) = Inr (?t @ 0 # r)" using trim_line by fastforce
  have "key_skip {32, 9} {93} (n @ 93 # 0 # r) 0 1 = Inr (length n, 1)"
    using key_skip_none [OF n(2), of 93] by simp
  moreover have "wr (?t @ 0 # r) (1 + length n) 0 = Inr ([91] @ n @ 0 # 0 # r)"
    by (simp add: wr_def list_update_append)
  ultimately have b: "bracket_key (?t @ 0 # r) = Inr n"
    using str_at_ok [OF n(1), of "[91]"] by (simp add: bracket_key_def)
  obtain x where x: "tf_strnew2 n = Inr x" "str_is x n"
    using tf_strnew2_is [of n] assms by (auto simp: MAX_FILENAME_LEN_def int_max_def)
  have "\<not> starts_with (?t @ 0 # r) (ascii ''group'')" by (simp add: starts_with_def ascii_def)
  then show ?thesis using r b x n(3) by (simp add: parse_line_def group_kv_def)
qed

lemma kv_scan_key:
  "set k \<inter> ({0, 35} \<union> seps) = {} \<Longrightarrow>
     kv_loop (p @ k @ r) (length p) False False kk v = kv_loop (p @ k @ r) (length p + length k) False False kk v"
proof (induction k arbitrary: p)
  case (Cons c k)
  have "rd (p @ (c # k) @ r) (length p) = Inr c" by (simp add: rd_def)
  then have "kv_loop (p @ (c # k) @ r) (length p) False False kk v =
      kv_loop ((p @ [c]) @ k @ r) (length (p @ [c])) False False kk v"
    using Cons.prems by (subst kv_loop.simps) simp
  then show ?case using Cons.IH [of "p @ [c]"] Cons.prems by simp
qed simp

lemma kv_scan_seps:
  "set s \<subseteq> seps \<Longrightarrow> kv_loop (p @ s @ r) (length p) True False (length p) v =
     kv_loop (p @ s @ r) (length p + length s) True False (length p + length s) v"
proof (induction s arbitrary: p)
  case (Cons c s)
  have "rd (p @ (c # s) @ r) (length p) = Inr c" by (simp add: rd_def)
  then have "kv_loop (p @ (c # s) @ r) (length p) True False (length p) v =
      kv_loop ((p @ [c]) @ s @ r) (length (p @ [c])) True False (length (p @ [c])) v"
    using Cons.prems by (subst kv_loop.simps) auto
  then show ?case using Cons.IH [of "p @ [c]"] Cons.prems by simp
qed simp

lemma kv_scan_value:
  "set t \<inter> {0, 35} = {} \<Longrightarrow> kv_loop (p @ t @ 0 # r) (length p) True True kk v = Inr (p @ t @ 0 # r, v)"
proof (induction t arbitrary: p kk)
  case Nil
  have "rd (p @ [] @ 0 # r) (length p) = Inr 0" by (simp add: rd_def)
  then show ?case by (subst kv_loop.simps) simp
next
  case (Cons c t)
  have "rd (p @ (c # t) @ 0 # r) (length p) = Inr c" by (simp add: rd_def)
  then have "\<exists>kk'. kv_loop (p @ (c # t) @ 0 # r) (length p) True True kk v =
      kv_loop ((p @ [c]) @ t @ 0 # r) (length (p @ [c])) True True kk' v"
    using Cons.prems by (subst kv_loop.simps) auto
  then show ?case using Cons.IH [of "p @ [c]"] Cons.prems by auto
qed

lemma kv_loop_pair:
  assumes "line_ok (Pair k s v)"
  shows "kv_loop ((k @ s @ v) @ 0 # r) 0 False False 0 None =
    Inr (k @ 0 # tl s @ v @ 0 # r, Some (length k + length s))"
proof -
  obtain c t where s: "s = c # t" "c \<in> seps" "set t \<subseteq> seps" using assms by (cases s) auto
  obtain d u where v: "v = d # u" "d \<notin> seps" "d \<noteq> 0" "d \<noteq> 35" "set u \<inter> {0, 35} = {}" using assms by (cases v) auto
  let ?b = "k @ 0 # t @ v @ 0 # r"
  have "kv_loop (k @ s @ v @ 0 # r) 0 False False 0 None =
      kv_loop (k @ s @ v @ 0 # r) (length k) False False 0 None"
    using kv_scan_key [of k "[]" "s @ v @ 0 # r" 0 None] assms by auto
  also have "\<dots> = kv_loop ?b (length k + 1) True False (length k + 1) None"
    using s by (subst kv_loop.simps) (auto simp: rd_def wr_def list_update_append)
  also have "\<dots> = kv_loop ?b (length k + length s) True False (length k + length s) None"
    using kv_scan_seps [OF s(3), of "k @ [0]" "v @ 0 # r" None] s(1) by simp
  also have "\<dots> = kv_loop ?b (length k + length s + 1) True True (length k + length s) (Some (length k + length s))"
    using v s(1) by (subst kv_loop.simps) (simp add: rd_def nth_append)
  also have "\<dots> = Inr (?b, Some (length k + length s))"
    using kv_scan_value [OF v(5), of "k @ 0 # t @ [d]" r] s(1) v(1) by simp
  finally show ?thesis using s(1) by simp
qed

lemma take_prefix_sep: "c \<notin> set p \<Longrightarrow> take (length p) (k @ c # r) = p \<Longrightarrow> take (length p) k = p"
  by (cases "length p \<le> length k") (auto simp: take_Cons' split: if_splits, metis in_set_conv_decomp)

lemma parse_pair:
  assumes "line_ok (Pair k s v)" "length k + length s + length v < int_max"
  shows "\<exists>kv. parse_line (line_text (Pair k s v) @ [0]) = Inr (Some kv) \<and> kv_is kv (k, v)"
proof -
  let ?t = "k @ s @ v"
  obtain c t where s: "s = c # t" "c \<in> seps" "set t \<subseteq> seps" using assms(1) by (cases s) auto
  have ok: "cstr_ok k" "cstr_ok v" "cstr_ok ?t" "k \<noteq> []" "v \<noteq> []" using assms(1) by (auto simp: cstr_ok_def)
  have "strip ?t = ?t" by (rule strip_same) (use assms(1) in auto)
  then obtain r where r: "tf_strtrim (?t @ [0]) = Inr (?t @ 0 # r)" using trim_line [OF ok(3)] by auto
  have hd: "hd k \<notin> {0, 35, 91}" using assms(1) by (cases k) auto
  have "c \<notin> set (ascii ''group'')" using s(2) by (auto simp: ascii_def)
  then have ng: "\<not> starts_with (?t @ 0 # r) (ascii ''group'')"
    using take_prefix_sep [of c "ascii ''group''" k "t @ v @ 0 # r"] assms(1) s(1) by (auto simp: starts_with_def)
  obtain x y where x: "tf_strnew2 k = Inr x" "str_is x k" and y: "tf_strnew2 v = Inr y" "str_is y v"
    using tf_strnew2_is [of k] tf_strnew2_is [of v] assms(2) by auto
  have at: "str_at (k @ 0 # tl s @ v @ 0 # r) 0 = Inr k"
      "str_at (k @ 0 # tl s @ v @ 0 # r) (length k + length s) = Inr v"
    using str_at_ok [OF ok(1), of "[]"] str_at_ok [OF ok(2), of "k @ 0 # tl s" r] s(1) by simp_all
  have "rd (?t @ 0 # r) 0 = Inr (hd k)" using ok(4) by (cases k) simp_all
  then have "parse_line (?t @ [0]) = Inr (Some \<lparr>kv_key = x, kv_value = Some y\<rparr>)"
    using r hd ng kv_loop_pair [OF assms(1), of r] at x(1) y(1) by (simp add: parse_line_def)
  then show ?thesis using x(2) y(2) ok(1,2) assms(2) by (simp add: kv_is_def)
qed

lemma parse_blank:
  assumes "line_ok (Blank t)"
  shows "parse_line (line_text (Blank t) @ [0]) = Inr None"
proof -
  have "cstr_ok t" using assms by (auto simp: cstr_ok_def)
  then obtain r where r: "tf_strtrim (t @ [0]) = Inr (strip t @ 0 # r)" using trim_line by blast
  have "rd (strip t @ 0 # r) 0 = Inr 0 \<or> rd (strip t @ 0 # r) 0 = Inr 35"
    using assms by (cases "strip t") auto
  then show ?thesis using r by (auto simp: parse_line_def)
qed

section \<open>The table of groups\<close>

abbreviation fold_name :: "cstr \<Rightarrow> cstr" where "fold_name n \<equiv> map lower n"

text \<open>The file a list of groups stands for: the pairs of the group at index \<open>i\<close> have the name \<open>i\<close>.\<close>

type_synonym groups = "(cstr \<times> (cstr \<times> cstr) list) list"

definition name_ok :: "cstr \<Rightarrow> bool" where
  "name_ok n \<longleftrightarrow> cstr_ok n \<and> length n < MAX_FILENAME_LEN"

definition cfg_abs :: "cfg_file \<Rightarrow> groups \<Rightarrow> bool" where
  "cfg_abs cfg gs \<longleftrightarrow> length (cf_groups cfg) = length gs \<and> distinct (map (fold_name \<circ> fst) gs) \<and>
     (\<forall>i < length gs. name_ok (fst (gs ! i)) \<and>
        cf_groups cfg ! i =
          \<lparr>cg_name = fst (gs ! i) @ replicate (MAX_FILENAME_LEN - length (fst (gs ! i))) 0, cg_pairs = i\<rparr> \<and>
        (\<exists>kvs. cf_pairs cfg i = Some kvs \<and> list_all2 kv_is kvs (snd (gs ! i))))"

definition at_name :: "groups \<Rightarrow> cstr \<Rightarrow> nat option" where
  "at_name gs g = (if \<exists>i < length gs. fold_name (fst (gs ! i)) = fold_name g
     then Some (LEAST i. fold_name (fst (gs ! i)) = fold_name g) else None)"

lemma at_name_unique:
  assumes "distinct (map (fold_name \<circ> fst) gs)" "i < length gs" "fold_name (fst (gs ! i)) = fold_name g"
  shows "at_name gs g = Some i"
proof -
  have one: "j = i" if "j < length gs" "fold_name (fst (gs ! j)) = fold_name g" for j
    using assms that by (simp add: distinct_conv_nth) metis
  have "(LEAST i. fold_name (fst (gs ! i)) = fold_name g) = i"
  proof (rule Least_equality)
    show "fold_name (fst (gs ! i)) = fold_name g" by (rule assms(3))
    show "i \<le> j" if "fold_name (fst (gs ! j)) = fold_name g" for j
      using one [OF _ that] assms(2) by (cases "j < length gs") simp_all
  qed
  then show ?thesis using assms by (auto simp: at_name_def)
qed

lemma at_name_Some:
  assumes "at_name gs g = Some i"
  shows "i < length gs" "fold_name (fst (gs ! i)) = fold_name g"
proof -
  obtain j where j: "j < length gs" "fold_name (fst (gs ! j)) = fold_name g"
    using assms by (auto simp: at_name_def split: if_splits)
  let ?P = "\<lambda>i. fold_name (fst (gs ! i)) = fold_name g"
  have i: "i = (LEAST i. ?P i)" using assms by (simp add: at_name_def split: if_splits)
  show "?P i" unfolding i using j(2) by (rule LeastI)
  have "i \<le> j" unfolding i using j(2) by (rule Least_le)
  then show "i < length gs" using j(1) by simp
qed

lemma name_is_ok:
  "name_ok n \<Longrightarrow> name_is (n @ replicate (MAX_FILENAME_LEN - length n) 0) g = Inr (fold_name n = fold_name g)"
  using stricmp_order [of n g]
  by (auto simp: name_is_def name_ok_def cstr_ok_def takeWhile_append takeWhile_replicate)

lemma find_group_nth:
  "(\<forall>i < length gs. name_is (cg_name (gs ! i)) g = Inr (P i)) \<Longrightarrow>
     find_group gs g = Inr (if \<exists>i < length gs. P i then Some (gs ! (LEAST i. P i)) else None)"
proof (induction gs arbitrary: P)
  case (Cons x gs)
  have x: "name_is (cg_name x) g = Inr (P 0)" using Cons.prems by force
  have IH: "find_group gs g = Inr (if \<exists>i < length gs. P (Suc i) then Some (gs ! (LEAST i. P (Suc i))) else None)"
    using Cons.prems by (intro Cons.IH) force
  show ?case
  proof (cases "P 0")
    case True
    then show ?thesis using x by (auto simp: Least_eq_0)
  next
    case False
    have L: "(LEAST i. P i) = Suc (LEAST i. P (Suc i))" if "P (Suc i)" for i
      using Least_Suc [of P "Suc i"] that False by blast
    show ?thesis using False x IH L by (auto simp: Ex_less_Suc2)
  qed
qed simp

lemma cfg_find_group_ok:
  assumes "cfg_abs cfg gs"
  shows "cfg_find_group (Some cfg) g = Inr (map_option (\<lambda>i. cf_groups cfg ! i) (at_name gs g))"
proof -
  let ?P = "\<lambda>i. fold_name (fst (gs ! i)) = fold_name g"
  have len: "length (cf_groups cfg) = length gs" using assms by (simp add: cfg_abs_def)
  have "\<forall>i < length (cf_groups cfg). name_is (cg_name (cf_groups cfg ! i)) g = Inr (?P i)"
    using assms by (auto simp: cfg_abs_def name_is_ok)
  then show ?thesis
    using find_group_nth [of "cf_groups cfg" g ?P] len by (simp add: cfg_find_group_def at_name_def)
qed

lemma region_str_is: "str_is x s \<Longrightarrow> cstr_ok s \<Longrightarrow> region_str (tf_strptr x) = Inr s"
proof -
  have "cstr_ok s \<Longrightarrow> region_str (map Some s @ Some 0 # r) = Inr s" for r
    by (induction s) (auto simp: cstr_ok_def)
  then show "str_is x s \<Longrightarrow> cstr_ok s \<Longrightarrow> region_str (tf_strptr x) = Inr s"
    by (auto elim: str_isE simp: tf_strptr_def)
qed

lemma new_group_ok:
  assumes "str_is x n" "name_ok n"
  shows "new_group p x = Inr \<lparr>cg_name = n @ replicate (MAX_FILENAME_LEN - length n) 0, cg_pairs = p\<rparr>"
proof -
  obtain rest where x: "st_ptr x = map Some n @ Some 0 # rest" "length n = unat (st_size x)"
    using assms(1) by (rule str_isE)
  have "tf_strsize x = int (length n)"
    using assms(2) x(2) by (simp add: tf_strsize_def sint_u32 name_ok_def MAX_FILENAME_LEN_def)
  moreover have "min MAX_FILENAME_LEN (length n) = length n" using assms(2) by (simp add: name_ok_def)
  ultimately show ?thesis using x(1) assms(2)
    by (auto simp: new_group_def tf_strptr_def name_ok_def comp_def)
qed

section \<open>Reading the lines into the table\<close>

fun conf_step :: "conf_line \<Rightarrow> groups \<times> nat option \<Rightarrow> groups \<times> nat option" where
  "conf_step (Group n) (gs, cur) =
     (case at_name gs n of Some i \<Rightarrow> (gs, Some i) | None \<Rightarrow> (gs @ [(n, [])], Some (length gs)))"
| "conf_step (Pair k s v) (gs, cur) =
     (case cur of None \<Rightarrow> (gs, None) | Some i \<Rightarrow> (gs[i := (fst (gs ! i), snd (gs ! i) @ [(k, v)])], Some i))"
| "conf_step (Blank t) (gs, cur) = (gs, cur)"

definition cur_ok :: "groups \<times> nat option \<Rightarrow> bool" where
  "cur_ok st \<longleftrightarrow> (case snd st of None \<Rightarrow> True | Some i \<Rightarrow> i < length (fst st))"

lemma at_name_None: "at_name gs g = None \<Longrightarrow> i < length gs \<Longrightarrow> fold_name (fst (gs ! i)) \<noteq> fold_name g"
  by (auto simp: at_name_def split: if_splits)

lemma at_name_None_set: "at_name gs n = None \<Longrightarrow> fold_name n \<notin> set (map (fold_name \<circ> fst) gs)"
proof
  assume n: "at_name gs n = None" "fold_name n \<in> set (map (fold_name \<circ> fst) gs)"
  then obtain i where "i < length gs" "map (fold_name \<circ> fst) gs ! i = fold_name n"
    by (metis in_set_conv_nth length_map)
  then show False using at_name_None [OF n(1)] by simp
qed

lemma cfg_abs_distinct: "cfg_abs cfg gs \<Longrightarrow> distinct (map (fold_name \<circ> fst) gs)"
  by (simp add: cfg_abs_def)

lemma cfg_abs_new:
  assumes "cfg_abs cfg gs" "at_name gs n = None" "name_ok n"
  shows "cfg_abs \<lparr>cf_groups = cf_groups cfg @ [\<lparr>cg_name = n @ replicate (MAX_FILENAME_LEN - length n) 0, cg_pairs = length gs\<rparr>],
      cf_pairs = (cf_pairs cfg)(length gs \<mapsto> [])\<rparr> (gs @ [(n, [])])"
proof -
  have "fold_name n \<notin> (fold_name \<circ> fst) ` set gs"
    using at_name_None_set [OF assms(2)] by simp
  then show ?thesis using assms(1,3) by (auto simp: cfg_abs_def nth_append less_Suc_eq)
qed

lemma cfg_abs_pair:
  assumes "cfg_abs cfg gs" "i < length gs" "cf_pairs cfg i = Some kvs" "kv_is kv (k, v)"
  shows "cfg_abs (cfg\<lparr>cf_pairs := (cf_pairs cfg)(i \<mapsto> kvs @ [kv])\<rparr>) (gs[i := (fst (gs ! i), snd (gs ! i) @ [(k, v)])])"
proof -
  have "map (fold_name \<circ> fst) (gs[i := (fst (gs ! i), snd (gs ! i) @ [(k, v)])]) = map (fold_name \<circ> fst) gs"
    using assms(2) by (simp add: map_update) (metis comp_apply list_update_id nth_map)
  moreover have "list_all2 kv_is (kvs @ [kv]) (snd (gs ! i) @ [(k, v)])"
    using assms by (auto simp: cfg_abs_def intro!: list_all2_appendI)
  ultimately show ?thesis using assms(1,2) by (auto simp: cfg_abs_def nth_list_update)
qed

lemma cfg_line_ok:
  assumes "cfg_abs cfg gs" "cur_ok (gs, cur)" "line_ok l" "length (line_text l) < int_max"
  shows "\<exists>cfg'. cfg_line (line_text l @ [0]) (cfg, cur) = Inr (cfg', snd (conf_step l (gs, cur))) \<and>
    cfg_abs cfg' (fst (conf_step l (gs, cur))) \<and> cur_ok (conf_step l (gs, cur))"
proof (cases l)
  case (Group n)
  obtain kv where kv: "parse_line (line_text (Group n) @ [0]) = Inr (Some kv)" "str_is (kv_key kv) n" "kv_value kv = None"
    using parse_group assms(3) Group by blast
  have n: "name_ok n" using assms(3) Group by (auto simp: name_ok_def cstr_ok_def)
  have name: "region_str (tf_strptr (kv_key kv)) = Inr n"
    using region_str_is [OF kv(2)] n by (simp add: name_ok_def)
  note find = cfg_find_group_ok [OF assms(1), of n]
  have len: "length (cf_groups cfg) = length gs" using assms(1) by (simp add: cfg_abs_def)
  show ?thesis
  proof (cases "at_name gs n")
    case None
    then show ?thesis
      using cfg_abs_new [OF assms(1) None n] new_group_ok [OF kv(2) n] kv(1,3) name find len
      by (simp add: Group cfg_line_def free_pairs_def cur_ok_def)
  next
    case (Some i)
    then have "i < length gs" by (rule at_name_Some)
    then have "cg_pairs (cf_groups cfg ! i) = i" using assms(1) by (simp add: cfg_abs_def)
    then show ?thesis using \<open>i < length gs\<close> Some assms(1) kv(1,3) name find by (simp add: Group cfg_line_def cur_ok_def)
  qed
next
  case (Pair k s v)
  obtain kv where kv: "parse_line (line_text (Pair k s v) @ [0]) = Inr (Some kv)" "kv_is kv (k, v)"
    using parse_pair [OF assms(3) [unfolded Pair]] assms(4) by (auto simp: Pair)
  obtain x where x: "kv_value kv = Some x" using kv(2) by (auto simp: kv_is_def)
  show ?thesis
  proof (cases cur)
    case None
    then show ?thesis using assms(1) kv(1) x by (simp add: Pair cfg_line_def cur_ok_def)
  next
    case (Some i)
    then have i: "i < length gs" using assms(2) by (simp add: cur_ok_def)
    then obtain kvs where kvs: "cf_pairs cfg i = Some kvs" using assms(1) by (auto simp: cfg_abs_def)
    have "cfg_line (line_text l @ [0]) (cfg, cur) = Inr (cfg\<lparr>cf_pairs := (cf_pairs cfg)(i \<mapsto> kvs @ [kv])\<rparr>, Some i)"
      unfolding cfg_line_def Pair using kv(1) x kvs Some by (simp del: line_text.simps)
    moreover have "conf_step l (gs, cur) = (gs[i := (fst (gs ! i), snd (gs ! i) @ [(k, v)])], Some i)"
      using Pair Some by simp
    ultimately show ?thesis using cfg_abs_pair [OF assms(1) i kvs kv(2)] i by (simp add: cur_ok_def)
  qed
next
  case (Blank t)
  then show ?thesis using parse_blank [of t] assms by (simp add: cfg_line_def)
qed

text \<open>The pairs of a group, as the lines have them; \<open>here\<close> tells whether the current group has its name.\<close>

fun pairs_of :: "cstr \<Rightarrow> bool \<Rightarrow> conf_line list \<Rightarrow> (cstr \<times> cstr) list" where
  "pairs_of g here [] = []"
| "pairs_of g here (Group n # ls) = pairs_of g (fold_name n = fold_name g) ls"
| "pairs_of g here (Pair k s v # ls) = (if here then [(k, v)] else []) @ pairs_of g here ls"
| "pairs_of g here (Blank t # ls) = pairs_of g here ls"

definition group_pairs :: "groups \<Rightarrow> cstr \<Rightarrow> (cstr \<times> cstr) list" where
  "group_pairs gs g = (case at_name gs g of None \<Rightarrow> [] | Some i \<Rightarrow> snd (gs ! i))"

definition has_group :: "conf_line list \<Rightarrow> cstr \<Rightarrow> bool" where
  "has_group ls g \<longleftrightarrow> (\<exists>n. Group n \<in> set ls \<and> fold_name n = fold_name g)"

lemma at_name_new:
  assumes "distinct (map (fold_name \<circ> fst) gs)" "at_name gs n = None"
  shows "at_name (gs @ [(n, ps)]) g = (if fold_name n = fold_name g then Some (length gs) else at_name gs g)"
proof -
  have "fold_name n \<notin> (fold_name \<circ> fst) ` set gs"
    using at_name_None_set [OF assms(2)] by simp
  then have d: "distinct (map (fold_name \<circ> fst) (gs @ [(n, ps)]))" using assms(1) by simp
  consider "fold_name n = fold_name g" | i where "fold_name n \<noteq> fold_name g" "at_name gs g = Some i"
    | "fold_name n \<noteq> fold_name g" "at_name gs g = None" by (cases "at_name gs g") auto
  then show ?thesis
  proof cases
    case 1
    then show ?thesis using at_name_unique [OF d, of "length gs" g] by simp
  next
    case 2
    then show ?thesis using at_name_unique [OF d, of i g] at_name_Some [OF 2(2)] by (simp add: nth_append)
  next
    case 3
    then show ?thesis using at_name_None [OF 3(2)] by (auto simp: at_name_def nth_append less_Suc_eq)
  qed
qed

text \<open>Whether the current group has a given name.\<close>

definition here :: "groups \<times> nat option \<Rightarrow> cstr \<Rightarrow> bool" where
  "here st g \<longleftrightarrow> snd st \<noteq> None \<and> at_name (fst st) g = snd st"

lemma here_group:
  assumes "distinct (map (fold_name \<circ> fst) gs)"
  shows "here (conf_step (Group n) (gs, cur)) g \<longleftrightarrow> fold_name n = fold_name g"
proof (cases "at_name gs n")
  case None
  then show ?thesis using at_name_new [OF assms None, of "[]" g] at_name_Some [of gs g "length gs"]
    by (auto simp: here_def)
next
  case (Some i)
  then show ?thesis using at_name_Some [OF Some] at_name_Some [of gs g i] at_name_unique [OF assms, of i g]
    by (auto simp: here_def)
qed

lemma at_name_pair: "i < length gs \<Longrightarrow> at_name (gs[i := (fst (gs ! i), ps)]) g = at_name gs g"
proof -
  assume i: "i < length gs"
  have "fst (gs[i := (fst (gs ! i), ps)] ! j) = fst (gs ! j)" for j
    using i by (cases "j = i") simp_all
  then show ?thesis by (simp add: at_name_def)
qed

lemma at_name_cong: "fold_name n = fold_name g \<Longrightarrow> at_name gs n = at_name gs g"
  unfolding at_name_def by simp

lemma group_pairs_new:
  assumes "distinct (map (fold_name \<circ> fst) gs)" "at_name gs n = None"
  shows "group_pairs (gs @ [(n, [])]) g = group_pairs gs g"
proof (cases "fold_name n = fold_name g")
  case True
  then show ?thesis using at_name_new [OF assms, of "[]" g] at_name_cong [OF True, of gs] assms(2)
    by (simp add: group_pairs_def)
next
  case False
  then show ?thesis using at_name_new [OF assms, of "[]" g] at_name_Some(1) [of gs g]
    by (simp add: group_pairs_def nth_append split: option.split)
qed

text \<open>What a step adds to the pairs of a name and to the names.\<close>

lemma conf_step_pairs:
  assumes "distinct (map (fold_name \<circ> fst) gs)" "cur_ok (gs, cur)"
  shows "group_pairs (fst (conf_step l (gs, cur))) g @ pairs_of g (here (conf_step l (gs, cur)) g) ls =
      group_pairs gs g @ pairs_of g (here (gs, cur) g) (l # ls)"
    and "at_name (fst (conf_step l (gs, cur))) g \<noteq> None \<longleftrightarrow> at_name gs g \<noteq> None \<or> has_group [l] g"
proof -
  have "group_pairs (fst (conf_step l (gs, cur))) g @ pairs_of g (here (conf_step l (gs, cur)) g) ls =
      group_pairs gs g @ pairs_of g (here (gs, cur) g) (l # ls) \<and>
    (at_name (fst (conf_step l (gs, cur))) g \<noteq> None \<longleftrightarrow> at_name gs g \<noteq> None \<or> has_group [l] g)"
  proof (cases l)
    case (Group n)
    note h = here_group [OF assms(1), of n cur g]
    show ?thesis
    proof (cases "at_name gs n")
      case None
      then have st: "conf_step l (gs, cur) = (gs @ [(n, [])], Some (length gs))" by (simp add: Group)
      have "group_pairs (gs @ [(n, [])]) g = group_pairs gs g" "has_group [l] g \<longleftrightarrow> fold_name n = fold_name g"
        using group_pairs_new [OF assms(1) None] by (simp_all add: Group has_group_def)
      then show ?thesis using h at_name_new [OF assms(1) None, of "[]" g] st
        by (simp add: Group del: conf_step.simps)
    next
      case (Some i)
      then show ?thesis using h at_name_unique [OF assms(1) at_name_Some(1) [OF Some], of g] at_name_Some(2) [OF Some]
        by (auto simp: Group has_group_def)
    qed
  next
    case (Pair k s v)
    show ?thesis
    proof (cases cur)
      case (Some i)
      then have i: "i < length gs" using assms(2) by (simp add: cur_ok_def)
      show ?thesis using Some i at_name_pair [OF i]
        by (auto simp: Pair has_group_def here_def group_pairs_def nth_list_update split: option.splits)
    qed (simp add: Pair has_group_def here_def)
  next
    case (Blank t)
    then show ?thesis by (simp add: has_group_def)
  qed
  then show "group_pairs (fst (conf_step l (gs, cur))) g @ pairs_of g (here (conf_step l (gs, cur)) g) ls =
      group_pairs gs g @ pairs_of g (here (gs, cur) g) (l # ls)"
    "at_name (fst (conf_step l (gs, cur))) g \<noteq> None \<longleftrightarrow> at_name gs g \<noteq> None \<or> has_group [l] g" by blast+
qed

lemma line_buf_ok:
  assumes "tf_list_wf l" "i < length (tf_list_elems l)"
  shows "line_buf l i = Inr (tf_list_elems l ! i @ [0])"
proof -
  let ?s = "tf_list_elems l ! i"
  have "i < l_num l" using assms elems_len by simp
  then obtain r where r: "tf_list_val l (int i) = Inr (Some (r, length ?s))" "holds_str r ?s"
    using val_ok [OF assms(1)] by blast
  then have t: "take (Suc (length ?s)) r = map Some (?s @ [0])" by (simp add: holds_str_def)
  have "length (take (Suc (length ?s)) r) = Suc (length ?s)" unfolding t by simp
  then have "Suc (length ?s) \<le> length r" by (simp add: min_def split: if_splits)
  then have "slice r 0 (length ?s + 1) = Inr (map Some (?s @ [0]))" using t by (simp add: slice_def)
  then show ?thesis using r(1) by (auto simp: line_buf_def comp_def)
qed

lemma has_group_Cons: "has_group (l # ls) g \<longleftrightarrow> has_group [l] g \<or> has_group ls g"
  by (auto simp: has_group_def)

lemma cfg_lines_ok:
  assumes "tf_list_wf l"
  shows "tf_list_elems l = pre @ map line_text ls \<Longrightarrow> cfg_abs cfg gs \<Longrightarrow> cur_ok (gs, cur) \<Longrightarrow>
     \<forall>x \<in> set ls. line_ok x \<and> length (line_text x) < int_max \<Longrightarrow>
     \<exists>cfg' gs' cur'. cfg_lines l (length pre) (length ls) (cfg, cur) = Inr (cfg', cur') \<and> cfg_abs cfg' gs' \<and>
       (\<forall>g. group_pairs gs' g = group_pairs gs g @ pairs_of g (here (gs, cur) g) ls \<and>
          (at_name gs' g \<noteq> None \<longleftrightarrow> at_name gs g \<noteq> None \<or> has_group ls g))"
proof (induction ls arbitrary: pre cfg gs cur)
  case Nil
  then show ?case by (auto simp: has_group_def)
next
  case (Cons x ls)
  obtain gs1 cur1 where st: "conf_step x (gs, cur) = (gs1, cur1)" by fastforce
  obtain cfg1 where one: "cfg_line (line_text x @ [0]) (cfg, cur) = Inr (cfg1, cur1)" "cfg_abs cfg1 gs1" "cur_ok (gs1, cur1)"
    using cfg_line_ok [OF Cons.prems(2,3), of x] Cons.prems(4) st by auto
  have "line_buf l (length pre) = Inr (line_text x @ [0])"
    using line_buf_ok [OF assms, of "length pre"] Cons.prems(1) by simp
  then have step: "cfg_lines l (length pre) (length (x # ls)) (cfg, cur) =
      cfg_lines l (length (pre @ [line_text x])) (length ls) (cfg1, cur1)"
    using one(1) by simp
  obtain cfg' gs' cur' where r: "cfg_lines l (length (pre @ [line_text x])) (length ls) (cfg1, cur1) = Inr (cfg', cur')"
      "cfg_abs cfg' gs'" "\<forall>g. group_pairs gs' g = group_pairs gs1 g @ pairs_of g (here (gs1, cur1) g) ls \<and>
          (at_name gs' g \<noteq> None \<longleftrightarrow> at_name gs1 g \<noteq> None \<or> has_group ls g)"
    using Cons.IH [of "pre @ [line_text x]", OF _ one(2,3)] Cons.prems(1,4) by auto
  have "group_pairs gs' g = group_pairs gs g @ pairs_of g (here (gs, cur) g) (x # ls)" for g
    using r(3) conf_step_pairs(1) [OF cfg_abs_distinct [OF Cons.prems(2)] Cons.prems(3), of x g ls] st by simp
  moreover have "at_name gs' g \<noteq> None \<longleftrightarrow> at_name gs g \<noteq> None \<or> has_group (x # ls) g" for g
    using r(3) conf_step_pairs(2) [OF cfg_abs_distinct [OF Cons.prems(2)] Cons.prems(3), of x g] st
    by (auto simp: has_group_Cons [of x ls])
  ultimately show ?case using r(1,2) unfolding step by blast
qed

section \<open>Looking a key up\<close>

lemma memcmp_strings:
  "cstr_ok a \<Longrightarrow> cstr_ok b \<Longrightarrow>
     memcmp_eq_upto (map Some a @ Some 0 # r) (b @ [0]) (max (length a) (length b)) = Inr (a = b)"
proof (induction a arbitrary: b)
  case Nil
  then show ?case by (cases b) (auto simp: cstr_ok_def)
next
  case (Cons x a)
  show ?case
  proof (cases b)
    case Nil
    then show ?thesis using Cons.prems(1) by (simp add: cstr_ok_def)
  next
    case (Cons y b')
    then show ?thesis using Cons.IH [of b'] Cons.prems by (auto simp: cstr_ok_def)
  qed
qed

lemma find_kv_ok:
  "list_all2 kv_is kvs ps \<Longrightarrow> cstr_ok key \<Longrightarrow>
     (case map_of ps key of
        None \<Rightarrow> find_kv kvs key = Inr None
      | Some v \<Rightarrow> \<exists>kv. find_kv kvs key = Inr (Some kv) \<and> kv_is kv (key, v))"
proof (induction kvs ps rule: list_all2_induct)
  case (Cons kv kvs p ps)
  obtain rest where k: "tf_strptr (kv_key kv) = map Some (fst p) @ Some 0 # rest"
      "nat (tf_strsize (kv_key kv)) = length (fst p)" "cstr_ok (fst p)"
    using Cons.hyps(1) by (auto simp: kv_is_def tf_strptr_def tf_strsize_def sint_u32 int_max_def elim!: str_isE)
  have "memcmp_eq_upto (tf_strptr (kv_key kv)) (key @ [0]) (max (nat (tf_strsize (kv_key kv))) (length key)) = Inr (fst p = key)"
    using memcmp_strings [OF k(3) Cons.prems] k(1,2) by simp
  then show ?case using Cons by (cases p) (auto split: option.splits)
qed simp

lemma lookup_ok:
  assumes "cfg_abs cfg gs" "cstr_ok key"
  shows "\<exists>grp. cfg_find_group (Some cfg) g = Inr grp \<and> (grp \<noteq> None \<longleftrightarrow> at_name gs g \<noteq> None) \<and>
    (case map_of (group_pairs gs g) key of
       None \<Rightarrow> cfg_get_kv cfg grp key = Inr None
     | Some v \<Rightarrow> \<exists>kv. cfg_get_kv cfg grp key = Inr (Some kv) \<and> kv_is kv (key, v))"
proof (cases "at_name gs g")
  case None
  then show ?thesis using cfg_find_group_ok [OF assms(1), of g] by (simp add: cfg_get_kv_def group_pairs_def)
next
  case (Some i)
  then have i: "i < length gs" by (rule at_name_Some)
  then obtain kvs where k: "cf_pairs cfg i = Some kvs" "list_all2 kv_is kvs (snd (gs ! i))"
      "cg_pairs (cf_groups cfg ! i) = i"
    using assms(1) by (auto simp: cfg_abs_def)
  have "cfg_get_kv cfg (Some (cf_groups cfg ! i)) key = find_kv kvs key" using k(1,3) by (simp add: cfg_get_kv_def)
  then show ?thesis using cfg_find_group_ok [OF assms(1), of g] find_kv_ok [OF k(2) assms(2)] Some
    by (simp add: group_pairs_def split: option.splits)
qed

lemma value_str_ok: "kv_is kv (k, v) \<Longrightarrow> value_str kv = Inr v"
  by (auto simp: kv_is_def value_str_def region_str_is)

lemma getters_ok:
  assumes "cfg_abs cfg gs" "cstr_ok k"
  shows "\<exists>grp. cfg_find_group (Some cfg) g = Inr grp \<and> (grp \<noteq> None \<longleftrightarrow> at_name gs g \<noteq> None) \<and>
    cfg_get_string cfg grp k d = Inr (case map_of (group_pairs gs g) k of None \<Rightarrow> d | Some v \<Rightarrow> v) \<and>
    cfg_get_bool cfg grp k b = Inr (case map_of (group_pairs gs g) k of None \<Rightarrow> b
      | Some v \<Rightarrow> map lower v \<in> {ascii ''true'', ascii ''yes''})"
proof -
  have low: "map lower (ascii ''true'') = ascii ''true''" "map lower (ascii ''yes'') = ascii ''yes''"
    by (simp_all add: ascii_def lower_def c_upper_def)
  show ?thesis using lookup_ok [OF assms, of g] value_str_ok [of _ k]
    by (cases "map_of (group_pairs gs g) k")
      (auto simp: cfg_get_string_def cfg_get_bool_def stricmp_order low)
qed

lemma length_line: "l \<in> set ls \<Longrightarrow> length (line_text l) \<le> length (TF_Strings.join d (map line_text ls))"
proof (induction ls)
  case (Cons x ls)
  then show ?case by (cases ls) (auto simp: trans_le_add2 intro: le_SucI)
qed simp

lemma line_text_clean: "line_ok l \<Longrightarrow> 10 \<notin> set (line_text l) \<and> 13 \<notin> set (line_text l)"
  by (cases l) auto

lemma join_clean: "\<forall>x \<in> set xs. c \<notin> set x \<Longrightarrow> c \<noteq> d \<Longrightarrow> c \<notin> set (TF_Strings.join d xs)"
  by (induction d xs rule: TF_Strings.join.induct) auto

section \<open>Properties\<close>

text \<open>
  C16: A configuration file that consists of bracketed group lines, pairs with separators between the key
  and the value, and blank or comment lines is read without an error, and what it says is found again:
  a group is found, whatever the case of its name, exactly if the file has it, and a key of the group
  yields the value of the first pair with this key below any of the lines of this group, or else the
  default.
\<close>

theorem cfg_file_lookup:
  assumes "io_open S path False w = (fd, w0)" "fd \<noteq> - 1" "read_doc S rest fd" "length path < 2 * MAX_FILENAME_LEN"
    and content: "rest w0 fd = TF_Strings.join 10 (map line_text ls)" "ls \<noteq> []" "\<forall>l \<in> set ls. line_ok l"
    and len: "2 * (length (rest w0 fd) + 2) \<le> int_max"
  shows "\<exists>cfg w'. cfg_create S path w = Some (Inr (Some cfg, w')) \<and>
    (\<forall>g k d b. cstr_ok k \<longrightarrow>
       (\<exists>grp. cfg_find_group (Some cfg) g = Inr grp \<and> (grp \<noteq> None \<longleftrightarrow> has_group ls g) \<and>
          cfg_get_string cfg grp k d = Inr (case map_of (pairs_of g False ls) k of None \<Rightarrow> d | Some v \<Rightarrow> v) \<and>
          cfg_get_bool cfg grp k b =
            Inr (case map_of (pairs_of g False ls) k of None \<Rightarrow> b
                 | Some v \<Rightarrow> map lower v \<in> {ascii ''true'', ascii ''yes''})))"
proof -
  let ?t = "map line_text ls"
  have clean: "\<forall>x \<in> set ?t. 10 \<notin> set x" "\<forall>x \<in> set ?t. 13 \<notin> set x" using content(3) line_text_clean by auto
  have "13 \<notin> set (TF_Strings.join 10 ?t)" using join_clean [OF clean(2)] by simp
  then have "filter (\<lambda>c. c \<noteq> 13) (TF_Strings.join 10 ?t) = TF_Strings.join 10 ?t" by (auto simp: filter_id_conv)
  moreover have "TF_Strings.fields {10} (TF_Strings.join 10 ?t) = ?t"
    using content(2) clean(1) by (intro fields_join) (auto simp: list_all_iff)
  ultimately obtain l w' where l: "tf_readlines S (Some path) w = Some (Inr (Some l, w'))" "tf_list_wf l"
      "tf_list_elems l = [] @ ?t"
    using readlines_ok [OF assms(1-3) len] content(1) by auto
  have small: "\<forall>x \<in> set ls. line_ok x \<and> length (line_text x) < int_max"
    using length_line [of _ ls 10] content(1,3) len by (fastforce simp: int_max_def)
  have "cfg_abs \<lparr>cf_groups = [], cf_pairs = (\<lambda>_. None)\<rparr> []" "cur_ok ([], None)"
    by (simp_all add: cfg_abs_def cur_ok_def)
  from cfg_lines_ok [OF l(2,3) this small] obtain cfg gs cur where
    c: "cfg_lines l 0 (length ls) (\<lparr>cf_groups = [], cf_pairs = (\<lambda>_. None)\<rparr>, None) = Inr (cfg, cur)" "cfg_abs cfg gs"
      "\<forall>g. group_pairs gs g = pairs_of g False ls \<and> (at_name gs g \<noteq> None \<longleftrightarrow> has_group ls g)"
    by (auto simp: group_pairs_def at_name_def here_def)
  have "tf_list_num l = length ls" using elems_len [OF l(2)] l(3) by (simp add: tf_list_num_def)
  then have "cfg_create S path w = Some (Inr (Some cfg, w'))"
    using assms(4) l(1) c(1) by (simp add: cfg_create_def)
  moreover have "\<exists>grp. cfg_find_group (Some cfg) g = Inr grp \<and> (grp \<noteq> None \<longleftrightarrow> has_group ls g) \<and>
      cfg_get_string cfg grp k d = Inr (case map_of (pairs_of g False ls) k of None \<Rightarrow> d | Some v \<Rightarrow> v) \<and>
      cfg_get_bool cfg grp k b = Inr (case map_of (pairs_of g False ls) k of None \<Rightarrow> b
        | Some v \<Rightarrow> map lower v \<in> {ascii ''true'', ascii ''yes''})" if "cstr_ok k" for g k d b
    using getters_ok [OF c(2) that, of g d b] c(3) by simp
  ultimately show ?thesis by blast
qed

theorem cfg_file_lookup_witness:
  "\<exists>cfg w' grp. cfg_create demo_sys [120] (ascii ''[Net]'' @ [10] @ ascii ''port = 80'' @ [10] @ ascii ''# end'', []) =
       Some (Inr (Some cfg, w')) \<and>
     cfg_find_group (Some cfg) (ascii ''NET'') = Inr grp \<and> grp \<noteq> None \<and>
     cfg_get_string cfg grp (ascii ''port'') [] = Inr (ascii ''80'')"
proof -
  let ?ls = "[Group (ascii ''Net''), Pair (ascii ''port'') (ascii '' = '') (ascii ''80''), Blank (ascii ''# end'')]"
  let ?t = "ascii ''[Net]'' @ [10] @ ascii ''port = 80'' @ [10] @ ascii ''# end''"
  have t: "?t = TF_Strings.join 10 (map line_text ?ls)" by (simp add: ascii_def)
  have low: "map lower (ascii ''NET'') = map lower (ascii ''Net'')" by (simp add: ascii_def lower_def c_upper_def)
  have "strip (ascii ''# end'') = ascii ''# end''" by (rule strip_same) (simp_all add: ascii_def c_space_def)
  then have ok: "\<forall>l \<in> set ?ls. line_ok l"
    by (simp add: ascii_def starts_with_def c_space_def MAX_FILENAME_LEN_def)
  have p: "pairs_of (ascii ''NET'') False ?ls = [(ascii ''port'', ascii ''80'')]" "has_group ?ls (ascii ''NET'')"
    using low by (auto simp: has_group_def)
  have k: "cstr_ok (ascii ''port'')" by (simp add: cstr_ok_def ascii_def)
  have op: "io_open demo_sys [120] False (?t, []) = (3, ?t, [])" by (simp add: demo_sys_def)
  have len: "2 * (length (fst (?t, [] :: byte list)) + 2) \<le> int_max" by (simp add: ascii_def int_max_def)
  have eq: "fst (?t, [] :: byte list) = TF_Strings.join 10 (map line_text ?ls)" using t by simp
  have "\<exists>cfg w'. cfg_create demo_sys [120] (?t, []) = Some (Inr (Some cfg, w')) \<and>
    (\<forall>g k d b. cstr_ok k \<longrightarrow>
       (\<exists>grp. cfg_find_group (Some cfg) g = Inr grp \<and> (grp \<noteq> None \<longleftrightarrow> has_group ?ls g) \<and>
          cfg_get_string cfg grp k d = Inr (case map_of (pairs_of g False ?ls) k of None \<Rightarrow> d | Some v \<Rightarrow> v) \<and>
          cfg_get_bool cfg grp k b =
            Inr (case map_of (pairs_of g False ?ls) k of None \<Rightarrow> b
                 | Some v \<Rightarrow> map lower v \<in> {ascii ''true'', ascii ''yes''})))"
    by (rule cfg_file_lookup [where rest = "\<lambda>w fd. fst w", OF op _ demo_read_doc _ eq _ ok len])
      (simp_all add: MAX_FILENAME_LEN_def)
  then obtain cfg w' where c: "cfg_create demo_sys [120] (?t, []) = Some (Inr (Some cfg, w'))"
      "\<And>g k d. cstr_ok k \<Longrightarrow> \<exists>grp. cfg_find_group (Some cfg) g = Inr grp \<and> (grp \<noteq> None \<longleftrightarrow> has_group ?ls g) \<and>
         cfg_get_string cfg grp k d = Inr (case map_of (pairs_of g False ?ls) k of None \<Rightarrow> d | Some v \<Rightarrow> v)"
    by meson
  from c(2) [OF k, of "ascii ''NET''" "[]"] obtain grp where "cfg_find_group (Some cfg) (ascii ''NET'') = Inr grp"
      "grp \<noteq> None" "cfg_get_string cfg grp (ascii ''port'') [] = Inr (ascii ''80'')"
    using p by auto
  then show ?thesis using c(1) by blast
qed

section \<open>Lines that are not read as they are meant\<close>

text \<open>A pair whose key begins with the word \<open>group\<close> is taken for a group with a part of the line as its name.\<close>

lemma group_prefix_pair:
  "\<exists>kv. parse_line (ascii ''group_id = 5'' @ [0]) = Inr (Some kv) \<and> kv_value kv = None \<and>
     region_str (tf_strptr (kv_key kv)) = Inr (ascii '' = 5'')"
proof -
  have "strip (ascii ''group_id = 5'') = ascii ''group_id = 5''" by (rule strip_same) (simp_all add: ascii_def c_space_def)
  then obtain r where r: "tf_strtrim (ascii ''group_id = 5'' @ [0]) = Inr (ascii ''group_id = 5'' @ 0 # r)"
    using trim_line [of "ascii ''group_id = 5''"] by (auto simp: cstr_ok_def ascii_def)
  obtain x where x: "tf_strnew2 (ascii '' = 5'') = Inr x" "str_is x (ascii '' = 5'')"
    using tf_strnew2_is [of "ascii '' = 5''"] by (auto simp: ascii_def int_max_def)
  have "group_key (ascii ''group_id = 5'' @ 0 # r) = Inr (ascii '' = 5'')"
    by (simp add: group_key_def ascii_def str_at_def)
  then have "parse_line (ascii ''group_id = 5'' @ [0]) = Inr (Some \<lparr>kv_key = x, kv_value = None\<rparr>)"
    using r x(1) by (simp add: parse_line_def group_kv_def) (simp add: ascii_def starts_with_def)
  then show ?thesis using region_str_is [OF x(2)] by (simp add: cstr_ok_def ascii_def)
qed

text \<open>A name of 128 bytes or more is stored without a terminator, and looking it up leaves the array.\<close>

lemma long_name_overrun:
  assumes "length n = MAX_FILENAME_LEN" "cstr_ok n"
  shows "name_is n n = Inl Out_Of_Bounds"
proof -
  have "0 \<notin> set n" using assms(2) by (auto simp: cstr_ok_def)
  then show ?thesis using stricmp_order [of n n] by (simp add: name_is_def)
qed

end
