(* ===== verification/TF_Path.thy ===== *)
theory TF_Path
  imports TF_Conf
begin

text \<open>
  The rest of \<open>tf_file.c\<close>: canonical paths, the status of a file, the names in a directory, the removal of a
  directory tree and the advisory locks.  The system calls are an argument, as in the theory of the
  file functions.  The property is that of the removal: in a tree the process may change it always ends, and
  takes away exactly the subtree of its path.
\<close>

section \<open>The system\<close>

text \<open>What \<open>realpath\<close> gives: a path, or an error, which is \<open>ENOENT\<close> or another one.\<close>

datatype path_result = Real_Path cstr | Path_Err bool

datatype lock_type = F_WRLCK | F_RDLCK | F_UNLCK

text \<open>A \<open>stat\<close> gives whether the file is a directory, its size and its time; \<open>fcntl\<close> is told to wait or not.\<close>

record 'w fs =
  fs_realpath :: "cstr \<Rightarrow> 'w \<Rightarrow> path_result \<times> 'w"
  fs_stat :: "cstr \<Rightarrow> 'w \<Rightarrow> (bool \<times> int \<times> int) option \<times> 'w"
  fs_lstat :: "cstr \<Rightarrow> 'w \<Rightarrow> bool option \<times> 'w"
  fs_unlink :: "cstr \<Rightarrow> 'w \<Rightarrow> bool \<times> 'w"
  fs_rmdir :: "cstr \<Rightarrow> 'w \<Rightarrow> bool \<times> 'w"
  fs_opendir :: "cstr \<Rightarrow> 'w \<Rightarrow> int option \<times> 'w"
  fs_readdir :: "int \<Rightarrow> 'w \<Rightarrow> cstr option \<times> 'w"
  fs_closedir :: "int \<Rightarrow> 'w \<Rightarrow> 'w"
  fs_setlk :: "int \<Rightarrow> bool \<Rightarrow> lock_type \<Rightarrow> 'w \<Rightarrow> bool option \<times> 'w"

definition MYPATHCHR :: byte where "MYPATHCHR = 47"
definition MYCDIRSTR :: cstr where "MYCDIRSTR = ascii ''.''"
definition MYPDIRSTR :: cstr where "MYPDIRSTR = ascii ''..''"

section \<open>Paths and status\<close>

text \<open>\<open>strrchr\<close>: the index of the last separator.\<close>

fun strrchr :: "cstr \<Rightarrow> byte \<Rightarrow> nat option" where
  "strrchr [] c = None"
| "strrchr (x # s) c = (case strrchr s c of Some i \<Rightarrow> Some (i + 1) | None \<Rightarrow> if x = c then Some 0 else None)"

text \<open>
  The block of the result comes from the allocator of the C library (\<open>strdup\<close>) or from that of tflib, whose
  pointers are not those \<open>malloc\<close> gave: they have to be released by different functions.
\<close>

datatype owner = Libc | Tflib

definition full_name :: "cstr \<Rightarrow> cstr \<Rightarrow> c_error + region" where
  "full_name buf pv =
     (let buf = (if buf = [MYPATHCHR] then [] else buf)
      in blit (replicate (length buf + length pv + 2) None) 0 (map Some (buf @ [MYPATHCHR] @ pv @ [0])))"

definition tf_fullpath :: "'w fs \<Rightarrow> cstr \<Rightarrow> 'w \<Rightarrow> c_error + (owner \<times> region) option \<times> 'w" where
  "tf_fullpath F path w =
     (case fs_realpath F path w of
        (Real_Path buf, w) \<Rightarrow> Inr (Some (Libc, map Some (buf @ [0])), w)
      | (Path_Err False, w) \<Rightarrow> Inr (None, w)
      | (Path_Err True, w) \<Rightarrow>
          (case strrchr path MYPATHCHR of
             Some 0 \<Rightarrow> Inr (Some (Libc, map Some (path @ [0])), w)
           | Some (Suc k) \<Rightarrow>
               (case fs_realpath F (take (Suc k) path) w of
                  (Real_Path buf, w) \<Rightarrow> rbind (full_name buf (drop (Suc (Suc k)) path)) (\<lambda>r. Inr (Some (Tflib, r), w))
                | (Path_Err _, w) \<Rightarrow> Inr (None, w))
           | None \<Rightarrow>
               (case fs_realpath F MYCDIRSTR w of
                  (Real_Path buf, w) \<Rightarrow> rbind (full_name buf path) (\<lambda>r. Inr (Some (Tflib, r), w))
                | (Path_Err _, w) \<Rightarrow> Inr (None, w))))"

text \<open>The three values are stored where the caller gave a pointer.\<close>

definition tf_statfile :: "'w fs \<Rightarrow> cstr \<Rightarrow> 'w \<Rightarrow> (bool \<times> int \<times> int) option \<times> 'w" where
  "tf_statfile F path w = fs_stat F path w"

section \<open>Directories\<close>

partial_function (option) readdir_loop :: "'w fs \<Rightarrow> int \<Rightarrow> tf_list \<Rightarrow> 'w \<Rightarrow> (c_error + tf_list \<times> 'w) option" where
  "readdir_loop F DD l w =
     (case fs_readdir F DD w of
        (None, w) \<Rightarrow> Some (Inr (l, w))
      | (Some d_name, w) \<Rightarrow>
          if d_name = MYCDIRSTR \<or> d_name = MYPDIRSTR then readdir_loop F DD l w
          else (case tf_list_push l d_name (to_int (int (length d_name))) of
                  Inl e \<Rightarrow> Some (Inl e) | Inr l \<Rightarrow> readdir_loop F DD l w))"

definition tf_readdir :: "'w fs \<Rightarrow> cstr \<Rightarrow> 'w \<Rightarrow> (c_error + tf_list option \<times> 'w) option" where
  "tf_readdir F path w =
     (case fs_opendir F path w of
        (None, w) \<Rightarrow> Some (Inr (None, w))
      | (Some DD, w) \<Rightarrow>
          map_option (\<lambda>r. rbind r (\<lambda>(l, w). Inr (Some l, fs_closedir F DD w))) (readdir_loop F DD tf_list_new w))"

text \<open>The path of an element of the list, or none for the links to the directory itself and its parent.\<close>

definition child_path ::
    "(cstr \<Rightarrow> fmt_arg \<Rightarrow> byte list) \<Rightarrow> cstr \<Rightarrow> tf_list \<Rightarrow> nat \<Rightarrow> c_error + cstr option" where
  "child_path spf path l i =
     rbind (tf_list_val2 l (int i)) (\<lambda>r. case r of None \<Rightarrow> Inl Out_Of_Bounds | Some r \<Rightarrow>
     rbind (region_str r) (\<lambda>elem.
     if elem = MYCDIRSTR \<or> elem = MYPDIRSTR then Inr None
     else rbind (if path \<noteq> [] \<and> last path = MYPATHCHR
                 then tf_sprintf spf (ascii ''%s%s'') [Arg_str (Some path), Arg_str (Some elem)]
                 else tf_sprintf spf (ascii ''%s%c%s'') [Arg_str (Some path), Arg_num (ucast MYPATHCHR), Arg_str (Some elem)]) (\<lambda>cpath.
          rbind (region_str cpath) (\<lambda>cpath. Inr (Some cpath)))))"

text \<open>The loop over the elements; what the calls for them report is not looked at.\<close>

fun child_loop ::
    "(cstr \<times> 'w \<Rightarrow> (c_error + bool \<times> 'w) option) \<Rightarrow> (nat \<Rightarrow> c_error + cstr option) \<Rightarrow> nat list \<Rightarrow> 'w \<Rightarrow>
     (c_error + 'w) option" where
  "child_loop removelink child [] w = Some (Inr w)"
| "child_loop removelink child (i # is) w =
     (case child i of
        Inl e \<Rightarrow> Some (Inl e)
      | Inr None \<Rightarrow> child_loop removelink child is w
      | Inr (Some cpath) \<Rightarrow>
          Option.bind (removelink (cpath, w)) (\<lambda>r. case r of
            Inl e \<Rightarrow> Some (Inl e) | Inr (_, w) \<Rightarrow> child_loop removelink child is w))"

lemma child_loop_mono [partial_function_mono]:
  assumes "\<And>p. mono_option (\<lambda>f. R f p)"
  shows "mono_option (\<lambda>f. child_loop (R f) child is w)"
proof (induction "is" arbitrary: w)
  case Nil
  show ?case by (simp add: option.const_mono)
next
  case (Cons i "is")
  have rest: "mono_option (\<lambda>f. case r of Inl e \<Rightarrow> Some (Inl e) | Inr (_, w) \<Rightarrow> child_loop (R f) child is w)" for r
    using Cons by (cases r) (auto simp: option.const_mono)
  have "mono_option (\<lambda>f. Option.bind (R f p) (\<lambda>r. case r of
      Inl e \<Rightarrow> Some (Inl e) | Inr (_, w) \<Rightarrow> child_loop (R f) child is w))" for p
    by (intro bind_mono assms rest)
  then show ?case using Cons
    by (cases "child i" rule: sum.exhaust [case_product option.exhaust [of "projr (child i)"]]) (simp_all add: option.const_mono)
qed

partial_function (option) tf_removelink ::
    "'w fs \<Rightarrow> (cstr \<Rightarrow> fmt_arg \<Rightarrow> byte list) \<Rightarrow> cstr \<Rightarrow> 'w \<Rightarrow> (c_error + bool \<times> 'w) option" where
  "tf_removelink F spf path w =
     (case fs_lstat F path w of
        (None, w) \<Rightarrow> Some (Inr (False, w))
      | (Some isdir, w) \<Rightarrow>
          (case fs_unlink F path w of (unlinked, w) \<Rightarrow>
               if unlinked then Some (Inr (True, w))
               else if \<not> isdir then Some (Inr (False, w))
               else Option.bind (tf_readdir F path w) (\<lambda>r. case r of
                      Inl e \<Rightarrow> Some (Inl e)
                    | Inr (None, w) \<Rightarrow> Some (Inr (False, w))
                    | Inr (Some l, w) \<Rightarrow>
                        Option.bind (child_loop (\<lambda>(cpath, w). tf_removelink F spf cpath w) (child_path spf path l) [0..<tf_list_num l] w)
                          (\<lambda>r. case r of Inl e \<Rightarrow> Some (Inl e) | Inr w \<Rightarrow> Some (Inr (fs_rmdir F path w))))))"

section \<open>Locks\<close>

text \<open>An interrupted \<open>fcntl\<close> is called again; \<^term>\<open>None\<close> of the call is success.\<close>

partial_function (option) lock_loop :: "'w fs \<Rightarrow> int \<Rightarrow> bool \<Rightarrow> lock_type \<Rightarrow> 'w \<Rightarrow> (bool \<times> 'w) option" where
  "lock_loop F fd nb t w =
     (case fs_setlk F fd nb t w of
        (None, w) \<Rightarrow> Some (True, w)
      | (Some eintr, w) \<Rightarrow> if \<not> eintr then Some (False, w) else lock_loop F fd nb t w)"

definition tf_lock :: "'w fs \<Rightarrow> int \<Rightarrow> bool \<Rightarrow> bool \<Rightarrow> 'w \<Rightarrow> (c_error + bool \<times> 'w) option" where
  "tf_lock F fd ex nb w =
     (if fd < 0 then Some (Inl Assert_Fail)
      else map_option Inr (lock_loop F fd nb (if ex then F_WRLCK else F_RDLCK) w))"

definition tf_unlock :: "'w fs \<Rightarrow> int \<Rightarrow> 'w \<Rightarrow> (c_error + bool \<times> 'w) option" where
  "tf_unlock F fd w =
     (if fd < 0 then Some (Inl Assert_Fail) else map_option Inr (lock_loop F fd False F_UNLCK w))"

section \<open>A tree of files\<close>

text \<open>What a path names, the change of the directory it names, and the removal of what it names.\<close>

datatype fnode = File | Dir "(cstr \<times> fnode) list"

fun fn_at :: "fnode \<Rightarrow> cstr list \<Rightarrow> fnode option" where
  "fn_at t [] = Some t"
| "fn_at File (c # cs) = None"
| "fn_at (Dir es) (c # cs) = Option.bind (map_of es c) (\<lambda>t. fn_at t cs)"

definition in_entry :: "cstr \<Rightarrow> (fnode \<Rightarrow> fnode) \<Rightarrow> (cstr \<times> fnode) list \<Rightarrow> (cstr \<times> fnode) list" where
  "in_entry c f = map (\<lambda>(n, t). (n, if n = c then f t else t))"

fun fn_upd :: "cstr list \<Rightarrow> ((cstr \<times> fnode) list \<Rightarrow> (cstr \<times> fnode) list) \<Rightarrow> fnode \<Rightarrow> fnode" where
  "fn_upd cs f File = File"
| "fn_upd [] f (Dir es) = Dir (f es)"
| "fn_upd (c # cs) f (Dir es) = Dir (in_entry c (fn_upd cs f) es)"

definition fn_del :: "cstr list \<Rightarrow> fnode \<Rightarrow> fnode" where
  "fn_del cs = fn_upd (butlast cs) (filter (\<lambda>e. fst e \<noteq> last cs))"

lemma in_entry_at: "map_of (in_entry c f es) c = map_option f (map_of es c)"
  by (induction es) (auto simp: in_entry_def)

lemma in_entry_in_entry: "in_entry c g (in_entry c f es) = in_entry c (g \<circ> f) es"
  by (simp add: in_entry_def case_prod_unfold comp_def)

lemma filter_in_entry: "filter (\<lambda>e. fst e \<noteq> c) (in_entry c f es) = filter (\<lambda>e. fst e \<noteq> c) es"
  by (induction es) (auto simp: in_entry_def)

lemma fn_at_append: "fn_at t (cs @ ds) = Option.bind (fn_at t cs) (\<lambda>t. fn_at t ds)"
  by (induction t cs rule: fn_at.induct) (simp_all, cases ds, simp_all split: bind_split)

lemma fn_at_upd: "fn_at t cs = Some (Dir es) \<Longrightarrow> fn_at (fn_upd cs f t) cs = Some (Dir (f es))"
  by (induction cs f t arbitrary: es rule: fn_upd.induct) (auto simp: in_entry_at split: bind_splits elim: fn_at.elims)

lemma fn_upd_upd: "fn_upd cs g (fn_upd cs f t) = fn_upd cs (g \<circ> f) t"
  by (induction cs f t rule: fn_upd.induct) (auto simp: in_entry_in_entry in_entry_def)

lemma fn_upd_snoc: "fn_upd (bs @ [n]) f t = fn_upd bs (in_entry n (fn_upd [] f)) t"
  by (induction bs f t rule: fn_upd.induct) (auto simp: in_entry_def)

lemma fn_del_upd: "cs \<noteq> [] \<Longrightarrow> fn_del cs (fn_upd cs f t) = fn_del cs t"
  using fn_upd_snoc [of "butlast cs" "last cs" f t] by (simp add: fn_del_def fn_upd_upd comp_def filter_in_entry)

section \<open>Paths as lists of names\<close>

text \<open>A plain path names something below the root without going through the links to a directory itself or its parent.\<close>

definition PATH_MAX :: nat where "PATH_MAX = 4096"

definition comps :: "cstr \<Rightarrow> cstr list" where
  "comps p = filter (\<lambda>c. c \<noteq> []) (TF_Strings.fields {MYPATHCHR} p)"

definition plain_path :: "cstr \<Rightarrow> bool" where
  "plain_path p \<longleftrightarrow> comps p \<noteq> [] \<and> MYCDIRSTR \<notin> set (comps p) \<and> MYPDIRSTR \<notin> set (comps p) \<and> cstr_ok p \<and> length p < PATH_MAX"

definition trailing :: "cstr \<Rightarrow> bool" where
  "trailing p \<longleftrightarrow> p \<noteq> [] \<and> last p = MYPATHCHR"

definition entry_name :: "cstr \<Rightarrow> bool" where
  "entry_name n \<longleftrightarrow> n \<noteq> [] \<and> MYPATHCHR \<notin> set n \<and> cstr_ok n \<and> n \<noteq> MYCDIRSTR \<and> n \<noteq> MYPDIRSTR"

definition join_path :: "cstr \<Rightarrow> cstr \<Rightarrow> cstr" where
  "join_path p n = (if trailing p then p @ n else p @ [MYPATHCHR] @ n)"

lemma fields_one: "d \<notin> set n \<Longrightarrow> TF_Strings.fields {d} n = [n]"
  by (induction n) auto

lemma fields_append: "TF_Strings.fields {d} (a @ d # b) = TF_Strings.fields {d} a @ TF_Strings.fields {d} b"
proof (induction a)
  case (Cons x a)
  then show ?case using TF_Strings.fields_not_Nil [of "{d}" a]
    by (cases "TF_Strings.fields {d} a") auto
qed simp

lemma comps_join:
  assumes "entry_name n"
  shows "comps (join_path p n) = comps p @ [n]"
proof (cases "trailing p")
  case True
  then obtain q where "p = q @ [MYPATHCHR]" by (metis append_butlast_last_id trailing_def)
  then show ?thesis using True assms fields_append [of MYPATHCHR q n] fields_append [of MYPATHCHR q "[]"]
    by (simp add: comps_def join_path_def entry_name_def fields_one)
next
  case False
  then show ?thesis using assms fields_append [of MYPATHCHR p n]
    by (simp add: comps_def join_path_def entry_name_def fields_one)
qed

lemma plain_join:
  assumes "plain_path p" "entry_name n" "length p + length n + 1 < PATH_MAX"
  shows "plain_path (join_path p n)" "\<not> trailing (join_path p n)"
proof -
  have n: "last n \<noteq> MYPATHCHR" "n \<noteq> []" using assms(2) last_in_set by (metis entry_name_def)+
  have "cstr_ok (join_path p n)" "length (join_path p n) < PATH_MAX"
    using assms by (auto simp: plain_path_def entry_name_def cstr_ok_def join_path_def MYPATHCHR_def)
  then show "plain_path (join_path p n)"
    using assms(1,2) by (auto simp: plain_path_def comps_join entry_name_def)
  show "\<not> trailing (join_path p n)" using n by (simp add: join_path_def trailing_def [of "_ @ _"] trailing_def [of "_ # _"])
qed

section \<open>The path of a child\<close>

definition percent_c :: "(cstr \<Rightarrow> fmt_arg \<Rightarrow> byte list) \<Rightarrow> bool" where
  "percent_c spf \<longleftrightarrow> (\<forall>c. spf (ascii ''%c'') (Arg_num (ucast (c :: byte))) = [c])"

lemma format_s:
  assumes "str_is x s" "length s + length e + 1 \<le> int_max"
  shows "\<exists>x'. tf_vstrprintf spf (37 # 115 # fmt) x (Arg_str (Some e) # args) = tf_vstrprintf spf fmt x' args \<and> str_is x' (s @ e)"
proof -
  obtain x' where x': "tf_strcat2 x e = Inr x'" "str_is x' (s @ e)"
    using tf_strcat2_is [OF assms(1), of e] assms(2) by (auto simp: int_max_def)
  have "115 \<notin> set flag_chars" by (simp add: flag_chars_def ascii_def)
  then show ?thesis using x' by (intro exI [of _ x']) (simp add: directive_plain convert_def arg_str_def)
qed

lemma format_c:
  assumes "str_is x s" "length s + 2 \<le> int_max" "percent_c spf"
  shows "\<exists>x'. tf_vstrprintf spf (37 # 99 # fmt) x (Arg_num (ucast MYPATHCHR) # args) = tf_vstrprintf spf fmt x' args \<and>
    str_is x' (s @ [MYPATHCHR])"
proof -
  obtain x' where x': "cat_bytes x [MYPATHCHR] = Inr x'" "str_is x' (s @ [MYPATHCHR])"
    using cat_bytes_is [OF assms(1), of "[MYPATHCHR]"] assms(2) by (auto simp: int_max_def)
  have f: "99 \<notin> set flag_chars" "(99 :: byte) \<in> set (ascii ''douxXc'')" by (simp_all add: flag_chars_def ascii_def)
  have "take_bit 32 (ucast MYPATHCHR :: u64) = ucast MYPATHCHR" by (simp add: MYPATHCHR_def)
  moreover have "spf [37, 99] (Arg_num (ucast MYPATHCHR)) = [MYPATHCHR]"
    using assms(3) [unfolded percent_c_def, THEN spec, of MYPATHCHR] by (simp add: ascii_def)
  ultimately show ?thesis using x' f
    by (intro exI [of _ x']) (simp add: directive_plain convert_def arg_num_def sprintf_tbuf_def TFNUMBUFSIZ_def)
qed

lemma region_str_holds: "holds_str r s \<Longrightarrow> cstr_ok s \<Longrightarrow> region_str r = Inr s"
proof -
  assume h: "holds_str r s" and s: "cstr_ok s"
  have "r = map Some s @ Some 0 # drop (Suc (length s)) r"
    using h append_take_drop_id [of "Suc (length s)" r] by (simp add: holds_str_def)
  moreover have "cstr_ok s \<Longrightarrow> region_str (map Some s @ Some 0 # q) = Inr s" for q
    by (induction s) (auto simp: cstr_ok_def)
  ultimately show ?thesis using s by metis
qed

lemma child_path_ok:
  assumes "tf_list_wf l" "i < length (tf_list_elems l)" "tf_list_elems l ! i = n" "entry_name n" "cstr_ok p"
    "length p + length n + 2 \<le> int_max" "percent_c spf"
  shows "child_path spf p l i = Inr (Some (join_path p n))"
proof -
  obtain r where r: "tf_list_val2 l (int i) = Inr (Some r)" "holds_str r n"
    using val_ok [OF assms(1), of i] assms(2,3) num_ok [OF assms(1)] by (auto simp: tf_list_num_def)
  have n: "cstr_ok n" "n \<noteq> MYCDIRSTR" "n \<noteq> MYPDIRSTR" using assms(4) by (simp_all add: entry_name_def)
  have f: "ascii ''%s%s'' = [37, 115, 37, 115]" "ascii ''%s%c%s'' = [37, 115, 37, 99, 37, 115]" by (simp_all add: ascii_def)
  let ?e = "if trailing p then tf_sprintf spf (ascii ''%s%s'') [Arg_str (Some p), Arg_str (Some n)]
     else tf_sprintf spf (ascii ''%s%c%s'') [Arg_str (Some p), Arg_num (ucast MYPATHCHR), Arg_str (Some n)]"
  have start: "\<exists>x. tf_vstrprintf spf (37 # 115 # fmt) tf_strnew (Arg_str (Some p) # args) = tf_vstrprintf spf fmt x args \<and> str_is x p" for fmt args
    using format_s [OF str_is_new, of p] assms(6) by simp
  have "\<exists>x. ?e = Inr (tf_strtomalloc x) \<and> str_is x (join_path p n)"
  proof (cases "trailing p")
    case True
    obtain x where "tf_vstrprintf spf [37, 115, 37, 115] tf_strnew [Arg_str (Some p), Arg_str (Some n)] =
        tf_vstrprintf spf [37, 115] x [Arg_str (Some n)]" "str_is x p" using start by blast
    then show ?thesis using True format_s [of x p n spf "[]" "[]"] assms(6)
      unfolding f by (auto simp: tf_sprintf_def join_path_def)
  next
    case False
    obtain x where x: "tf_vstrprintf spf [37, 115, 37, 99, 37, 115] tf_strnew [Arg_str (Some p), Arg_num (ucast MYPATHCHR), Arg_str (Some n)] =
        tf_vstrprintf spf [37, 99, 37, 115] x [Arg_num (ucast MYPATHCHR), Arg_str (Some n)]" "str_is x p" using start by blast
    obtain y where "tf_vstrprintf spf [37, 99, 37, 115] x [Arg_num (ucast MYPATHCHR), Arg_str (Some n)] =
        tf_vstrprintf spf [37, 115] y [Arg_str (Some n)]" "str_is y (p @ [MYPATHCHR])"
      using format_c [OF x(2) _ assms(7), of "[37, 115]"] assms(6) by fastforce
    then show ?thesis using False x(1) format_s [of y "p @ [MYPATHCHR]" n spf "[]" "[]"] assms(6)
      unfolding f by (auto simp: tf_sprintf_def join_path_def)
  qed
  then obtain x where x: "?e = Inr (tf_strtomalloc x)" "str_is x (join_path p n)" by blast
  have "cstr_ok (join_path p n)" using n(1) assms(5) by (auto simp: join_path_def cstr_ok_def MYPATHCHR_def)
  then have "region_str (tf_strtomalloc x) = Inr (join_path p n)"
    using region_str_is [OF x(2)] by (simp add: tf_strtomalloc_def tf_strptr_def)
  then show ?thesis
    using r(1) region_str_holds [OF r(2) n(1)] n(2,3) x(1) by (simp add: child_path_def trailing_def)
qed

section \<open>What the system promises\<close>

definition proper :: "cstr list \<Rightarrow> cstr list" where
  "proper = filter (\<lambda>n. n \<noteq> MYCDIRSTR \<and> n \<noteq> MYPDIRSTR)"

text \<open>
  A tree of files without symbolic links to directories in which the process may remove: \<open>unlink\<close> takes files only, \<open>rmdir\<close>
  empty directories only, and the entries of a directory are read once each, with those of the
  directory itself and its parent among them.
\<close>

definition dir_doc :: "'w fs \<Rightarrow> ('w \<Rightarrow> fnode) \<Rightarrow> ('w \<Rightarrow> int \<Rightarrow> cstr list) \<Rightarrow> cstr \<Rightarrow> 'w \<Rightarrow> (cstr \<times> fnode) list \<Rightarrow> bool" where
  "dir_doc F tree pend p w es \<longleftrightarrow>
     fst (fs_lstat F p w) = Some True \<and> tree (snd (fs_lstat F p w)) = tree w \<and>
     \<not> fst (fs_unlink F p w) \<and> tree (snd (fs_unlink F p w)) = tree w \<and>
     fst (fs_rmdir F p w) = (es = []) \<and>
     (es = [] \<longrightarrow> tree (snd (fs_rmdir F p w)) = fn_del (comps p) (tree w)) \<and>
     (\<exists>d w'. fs_opendir F p w = (Some d, w') \<and> tree w' = tree w \<and>
        distinct (proper (pend w' d)) \<and> set (proper (pend w' d)) = set (proper (map fst es)))"

definition path_doc :: "'w fs \<Rightarrow> ('w \<Rightarrow> fnode) \<Rightarrow> ('w \<Rightarrow> int \<Rightarrow> cstr list) \<Rightarrow> cstr \<Rightarrow> 'w \<Rightarrow> bool" where
  "path_doc F tree pend p w \<longleftrightarrow> (case fn_at (tree w) (comps p) of
     None \<Rightarrow> fst (fs_lstat F p w) = None \<and> tree (snd (fs_lstat F p w)) = tree w
   | Some File \<Rightarrow> \<not> trailing p \<longrightarrow>
       fst (fs_lstat F p w) = Some False \<and> tree (snd (fs_lstat F p w)) = tree w \<and>
       fst (fs_unlink F p w) \<and> tree (snd (fs_unlink F p w)) = fn_del (comps p) (tree w)
   | Some (Dir es) \<Rightarrow> dir_doc F tree pend p w es)"

definition fs_doc :: "'w fs \<Rightarrow> ('w \<Rightarrow> fnode) \<Rightarrow> ('w \<Rightarrow> int \<Rightarrow> cstr list) \<Rightarrow> bool" where
  "fs_doc F tree pend \<longleftrightarrow>
     (\<forall>p w. plain_path p \<longrightarrow> path_doc F tree pend p w) \<and>
     (\<forall>d w. tree (snd (fs_readdir F d w)) = tree w \<and>
        (case pend w d of [] \<Rightarrow> fst (fs_readdir F d w) = None
         | n # ns \<Rightarrow> fst (fs_readdir F d w) = Some n \<and> pend (snd (fs_readdir F d w)) d = ns)) \<and>
     (\<forall>d w. tree (fs_closedir F d w) = tree w)"

text \<open>Trees whose names are names, whose paths are not too long and whose directories are not too large for a list.\<close>

fun tree_fits :: "nat \<Rightarrow> fnode \<Rightarrow> bool" where
  "tree_fits k File \<longleftrightarrow> k < PATH_MAX"
| "tree_fits k (Dir es) \<longleftrightarrow> k < PATH_MAX \<and> 2 * length es \<le> int_max \<and> distinct (map fst es) \<and>
     (\<forall>e \<in> set es. entry_name (fst e) \<and> tree_fits (k + 1 + length (fst e)) (snd e))"

lemma tree_fits_bound: "tree_fits k t \<Longrightarrow> k < PATH_MAX"
  by (cases t) auto

lemma fs_docD:
  assumes "fs_doc F tree pend"
  shows "plain_path p \<Longrightarrow> path_doc F tree pend p w" "tree (snd (fs_readdir F d w)) = tree w" "tree (fs_closedir F d w) = tree w"
    "pend w d = [] \<Longrightarrow> fst (fs_readdir F d w) = None"
    "pend w d = n # ns \<Longrightarrow> fst (fs_readdir F d w) = Some n \<and> pend (snd (fs_readdir F d w)) d = ns"
proof -
  note r = conjunct1 [OF conjunct2 [OF assms [unfolded fs_doc_def]], THEN spec, THEN spec, of d w]
  show "plain_path p \<Longrightarrow> path_doc F tree pend p w" "tree (fs_closedir F d w) = tree w" using assms by (auto simp: fs_doc_def)
  show "tree (snd (fs_readdir F d w)) = tree w" by (rule conjunct1 [OF r])
  show "pend w d = [] \<Longrightarrow> fst (fs_readdir F d w) = None"
    "pend w d = n # ns \<Longrightarrow> fst (fs_readdir F d w) = Some n \<and> pend (snd (fs_readdir F d w)) d = ns"
    using conjunct2 [OF r] by simp_all
qed

lemma tree_fits_mono: "tree_fits k t \<Longrightarrow> j \<le> k \<Longrightarrow> tree_fits j t"
proof (induction t arbitrary: j k)
  case (Dir es)
  have "tree_fits (j + 1 + length (fst e)) (snd e)" if "e \<in> set es" for e
    using Dir.IH [of e "snd e" "k + 1 + length (fst e)" "j + 1 + length (fst e)"] Dir.prems that by (cases e) auto
  then show ?case using Dir.prems by auto
qed simp

section \<open>Reading a directory\<close>

lemma to_int_small: "k < int_max \<Longrightarrow> to_int (int k) = int k"
  using sint_u32 [of "of_nat k"] by (simp add: to_int_def int_max_def unat_of_nat)

lemma readdir_loop_ok:
  assumes "fs_doc F tree pend"
  shows "list_inv l (length (proper (pend w d)) + k) \<Longrightarrow> \<forall>n \<in> set (pend w d). length n < int_max \<Longrightarrow>
    \<exists>l' w'. readdir_loop F d l w = Some (Inr (l', w')) \<and> tree w' = tree w \<and> list_inv l' k \<and>
      tf_list_elems l' = tf_list_elems l @ proper (pend w d)"
proof (induction "pend w d" arbitrary: l w)
  case Nil
  obtain w1 where "fs_readdir F d w = (None, w1)" "tree w1 = tree w"
    using fs_docD(2,4) [OF assms, where d = d and w = w] Nil(1) [symmetric] by (cases "fs_readdir F d w") simp
  then show ?case using Nil(2) Nil(1) [symmetric] by (subst readdir_loop.simps) (simp add: proper_def)
next
  case (Cons n ns)
  define w1 where "w1 = snd (fs_readdir F d w)"
  have r: "fs_readdir F d w = (Some n, w1)" "pend w1 d = ns" "tree w1 = tree w"
    using fs_docD(2,5) [OF assms, where d = d and w = w] Cons.hyps(2) [symmetric] unfolding w1_def by (auto simp: prod_eq_iff)
  show ?case
  proof (cases "n = MYCDIRSTR \<or> n = MYPDIRSTR")
    case True
    then show ?thesis using Cons.hyps(1) [of w1 l] Cons.prems r Cons.hyps(2) [symmetric]
      by (subst readdir_loop.simps) (auto simp: proper_def)
  next
    case False
    have small: "length n < int_max" using Cons.prems(2) Cons.hyps(2) [symmetric] by simp
    have n: "to_int (int (length n)) = int (length n)" by (rule to_int_small [OF small])
    obtain l1 where l1: "tf_list_push l n (int (length n)) = Inr l1" "list_inv l1 (length (proper ns) + k)"
        "tf_list_elems l1 = tf_list_elems l @ [n]"
      using push_ok [of l "length (proper ns) + k" "length n" n] Cons.prems(1) small False Cons.hyps(2) [symmetric]
      by (auto simp: list_inv_def proper_def)
    have "readdir_loop F d l w = readdir_loop F d l1 w1"
      using r(1) False l1(1) n by (subst readdir_loop.simps) simp
    then show ?thesis using Cons.hyps(1) [of w1 l1] l1 r Cons.prems(2) False Cons.hyps(2) [symmetric]
      by (auto simp: proper_def)
  qed
qed

lemma tf_readdir_ok:
  assumes "fs_doc F tree pend" "fs_opendir F p w = (Some d, w1)" "2 * length (proper (pend w1 d)) \<le> int_max"
    "\<forall>n \<in> set (proper (pend w1 d)). length n < int_max"
  shows "\<exists>l w'. tf_readdir F p w = Some (Inr (Some l, w')) \<and> tree w' = tree w1 \<and> tf_list_wf l \<and>
    tf_list_elems l = proper (pend w1 d)"
proof -
  have "length n < int_max" if "n \<in> set (pend w1 d)" for n
    using that assms(4) by (cases "n = MYCDIRSTR \<or> n = MYPDIRSTR")
      (auto simp: proper_def MYCDIRSTR_def MYPDIRSTR_def ascii_def int_max_def)
  moreover have "list_inv tf_list_new (length (proper (pend w1 d)) + 0)" using list_inv_new [OF assms(3)] by simp
  ultimately obtain l w' where r: "readdir_loop F d tf_list_new w1 = Some (Inr (l, w'))" "tree w' = tree w1" "list_inv l 0"
      "tf_list_elems l = tf_list_elems tf_list_new @ proper (pend w1 d)"
    using readdir_loop_ok [OF assms(1)] by blast
  have "tf_readdir F p w = Some (Inr (Some l, fs_closedir F d w'))" using assms(2) r(1) by (simp add: tf_readdir_def)
  then show ?thesis using r(2-4) fs_docD(3) [OF assms(1)] new_ok [of 0] by (auto simp: list_inv_def)
qed

section \<open>Removing a tree\<close>

definition without :: "cstr set \<Rightarrow> (cstr \<times> fnode) list \<Rightarrow> (cstr \<times> fnode) list" where
  "without N = filter (\<lambda>e. fst e \<notin> N)"

lemma map_of_without: "m \<notin> N \<Longrightarrow> map_of (without N es) m = map_of es m"
  by (induction es) (auto simp: without_def)

lemma fn_del_child: "fn_del (cs @ [n]) t = fn_upd cs (without {n}) t"
  by (simp add: fn_del_def without_def)

lemma without_without: "without N \<circ> without M = without (M \<union> N)"
  by (auto simp: without_def fun_eq_iff intro: filter_cong)

lemma child_loop_ok:
  assumes "map child is = map (\<lambda>n. Inr (Some (join_path p n))) ns" "distinct ns" "fn_at (tree w) cs = Some (Dir es)"
    "\<forall>n \<in> set ns. map_of es n \<noteq> None"
    "\<And>n w t. n \<in> set ns \<Longrightarrow> map_of es n = Some t \<Longrightarrow> fn_at (tree w) (cs @ [n]) = Some t \<Longrightarrow>
       \<exists>b w'. R (join_path p n, w) = Some (Inr (b, w')) \<and> tree w' = fn_del (cs @ [n]) (tree w)"
  shows "\<exists>w'. child_loop R child is w = Some (Inr w') \<and> tree w' = fn_upd cs (without (set ns)) (tree w)"
  using assms
proof (induction ns arbitrary: "is" w es)
  case Nil
  have "fn_upd cs f t = t" if "\<And>es. f es = es" for f t
    using that by (induction cs f t rule: fn_upd.induct) (auto simp: in_entry_def case_prod_unfold intro!: map_idI)
  then show ?case using Nil by (simp add: without_def)
next
  case (Cons n ns)
  obtain i "is'" where i: "is = i # is'" "child i = Inr (Some (join_path p n))" "map child is' = map (\<lambda>n. Inr (Some (join_path p n))) ns"
    using Cons.prems(1) by (cases "is") auto
  obtain t where t: "map_of es n = Some t" using Cons.prems(4) by auto
  have "fn_at (tree w) (cs @ [n]) = Some t" using Cons.prems(3) t by (simp add: fn_at_append)
  then obtain b w1 where w1: "R (join_path p n, w) = Some (Inr (b, w1))" "tree w1 = fn_del (cs @ [n]) (tree w)"
    using Cons.prems(5) [of n t w] t by auto
  have "fn_at (tree w1) cs = Some (Dir (without {n} es))"
    unfolding w1(2) fn_del_child by (rule fn_at_upd [OF Cons.prems(3)])
  moreover have same: "map_of (without {n} es) m = map_of es m" if "m \<in> set ns" for m
    using that Cons.prems(2) by (intro map_of_without) auto
  ultimately obtain w' where w': "child_loop R child is' w1 = Some (Inr w')" "tree w' = fn_upd cs (without (set ns)) (tree w1)"
    using Cons.IH [OF i(3), of w1 "without {n} es"] Cons.prems(2,4,5) by (auto simp: same)
  have "tree w' = fn_upd cs (without (set (n # ns))) (tree w)"
    unfolding w'(2) w1(2) fn_del_child fn_upd_upd without_without by simp
  then show ?case using i(1,2) w1(1) w'(1) by simp
qed

lemma child_paths:
  assumes "tf_list_wf l" "tf_list_elems l = ns" "cstr_ok p" "percent_c spf" "\<forall>n \<in> set ns. entry_name n \<and> length p + length n + 2 \<le> int_max"
  shows "map (child_path spf p l) [0..<tf_list_num l] = map (\<lambda>n. Inr (Some (join_path p n))) ns"
  using assms num_ok [OF assms(1)] by (intro nth_equalityI) (auto intro!: child_path_ok)

definition removes :: "'w fs \<Rightarrow> (cstr \<Rightarrow> fmt_arg \<Rightarrow> byte list) \<Rightarrow> ('w \<Rightarrow> fnode) \<Rightarrow> cstr \<Rightarrow> 'w \<Rightarrow> bool" where
  "removes F spf tree p w \<longleftrightarrow>
     (\<exists>w'. tf_removelink F spf p w = Some (Inr (True, w')) \<and> tree w' = fn_del (comps p) (tree w))"

lemma remove_file:
  assumes "fs_doc F tree pend" "plain_path p" "fn_at (tree w) (comps p) = Some File" "\<not> trailing p"
  shows "removes F spf tree p w"
proof -
  define w1 where "w1 = snd (fs_lstat F p w)"
  have l: "fs_lstat F p w = (Some False, w1)" "tree w1 = tree w"
    using fs_docD(1) [OF assms(1,2), of w] assms(3,4) unfolding path_doc_def w1_def by (auto simp: prod_eq_iff)
  then have "fst (fs_unlink F p w1)" "tree (snd (fs_unlink F p w1)) = fn_del (comps p) (tree w1)"
    using fs_docD(1) [OF assms(1,2), of w1] assms(3,4) unfolding path_doc_def by simp_all
  then show ?thesis using l unfolding removes_def by (subst tf_removelink.simps) (auto split: prod.split)
qed

text \<open>The directory is emptied by the calls for its entries.\<close>

lemma empty_dir:
  assumes doc: "fs_doc F tree pend" and p: "plain_path p" and c: "percent_c spf" and d: "fn_at (tree w) (comps p) = Some (Dir es)"
    and fits: "tree_fits (length p) (Dir es)"
    and sub: "\<And>n t w. (n, t) \<in> set es \<Longrightarrow> fn_at (tree w) (comps p @ [n]) = Some t \<Longrightarrow> removes F spf tree (join_path p n) w"
  shows "\<exists>ls w1 w2. tf_readdir F p w = Some (Inr (Some ls, w1)) \<and>
    child_loop (\<lambda>(cpath, w). tf_removelink F spf cpath w) (child_path spf p ls) [0..<tf_list_num ls] w1 = Some (Inr w2) \<and>
    tree w2 = fn_upd (comps p) (without (fst ` set es)) (tree w)"
proof -
  have "dir_doc F tree pend p w es" using fs_docD(1) [OF doc p, of w] d by (simp add: path_doc_def)
  moreover have "set (proper (map fst es)) = fst ` set es" using fits by (auto simp: proper_def entry_name_def)
  ultimately obtain DD w3 where o: "fs_opendir F p w = (Some DD, w3)" "tree w3 = tree w" "distinct (proper (pend w3 DD))"
      "set (proper (pend w3 DD)) = fst ` set es" unfolding dir_doc_def by auto
  let ?ns = "proper (pend w3 DD)" and ?rm = "\<lambda>(cpath, w). tf_removelink F spf cpath w"
  have n: "entry_name n \<and> length p + length n + 1 < PATH_MAX" if "n \<in> set ?ns" for n
    using that o(4) fits by (auto dest!: tree_fits_bound)
  have "length ?ns \<le> length es" using distinct_card [OF o(3)] o(4) card_image_le [of "set es" fst] card_length [of es] by simp
  then have "2 * length ?ns \<le> int_max" using fits by simp
  then obtain ls w4 where r: "tf_readdir F p w = Some (Inr (Some ls, w4))" "tree w4 = tree w" "tf_list_wf ls" "tf_list_elems ls = ?ns"
    using tf_readdir_ok [OF doc o(1)] o(2) n by (force simp: PATH_MAX_def int_max_def)
  have "map (child_path spf p ls) [0..<tf_list_num ls] = map (\<lambda>n. Inr (Some (join_path p n))) ?ns"
    using p n by (intro child_paths [OF r(3,4) _ c]) (force simp: plain_path_def PATH_MAX_def int_max_def)+
  moreover have "\<exists>b w'. ?rm (join_path p n, w) = Some (Inr (b, w')) \<and> tree w' = fn_del (comps p @ [n]) (tree w)"
    if "n \<in> set ?ns" "map_of es n = Some t" "fn_at (tree w) (comps p @ [n]) = Some t" for n t w
    using sub [OF map_of_SomeD [OF that(2)] that(3)] comps_join n [OF that(1)] by (auto simp: removes_def)
  moreover have "\<forall>n \<in> set ?ns. map_of es n \<noteq> None" using o(4) by (simp add: map_of_eq_None_iff)
  ultimately obtain w5 where "child_loop ?rm (child_path spf p ls) [0..<tf_list_num ls] w4 = Some (Inr w5)"
      "tree w5 = fn_upd (comps p) (without (set ?ns)) (tree w)"
    using child_loop_ok [of "child_path spf p ls" "[0..<tf_list_num ls]" p ?ns tree w4 "comps p" es ?rm] o(3) d r(2) by auto
  then show ?thesis using r(1) unfolding o(4) by blast
qed

lemma remove_dir:
  assumes doc: "fs_doc F tree pend" and p: "plain_path p" and c: "percent_c spf" and d: "fn_at (tree w) (comps p) = Some (Dir es)"
    and fits: "tree_fits (length p) (Dir es)"
    and sub: "\<And>n t w. (n, t) \<in> set es \<Longrightarrow> fn_at (tree w) (comps p @ [n]) = Some t \<Longrightarrow> removes F spf tree (join_path p n) w"
  shows "removes F spf tree p w"
proof -
  define w1 where "w1 = snd (fs_lstat F p w)"
  define w2 where "w2 = snd (fs_unlink F p w1)"
  have l: "fs_lstat F p w = (Some True, w1)" "tree w1 = tree w"
    using fs_docD(1) [OF doc p, of w] d unfolding path_doc_def dir_doc_def w1_def by (auto simp: prod_eq_iff)
  have u: "fs_unlink F p w1 = (False, w2)" "tree w2 = tree w"
    using fs_docD(1) [OF doc p, of w1] d l(2) unfolding path_doc_def dir_doc_def w2_def by (auto simp: prod_eq_iff)
  have d2: "fn_at (tree w2) (comps p) = Some (Dir es)" using d u(2) by simp
  have "\<exists>ls w4 w5. tf_readdir F p w2 = Some (Inr (Some ls, w4)) \<and>
      child_loop (\<lambda>(cpath, w). tf_removelink F spf cpath w) (child_path spf p ls) [0..<tf_list_num ls] w4 = Some (Inr w5) \<and>
      tree w5 = fn_upd (comps p) (without (fst ` set es)) (tree w2)"
    by (rule empty_dir [OF doc p c d2 fits]) (rule sub)
  then obtain ls w4 w5 where r: "tf_readdir F p w2 = Some (Inr (Some ls, w4))"
      "child_loop (\<lambda>(cpath, w). tf_removelink F spf cpath w) (child_path spf p ls) [0..<tf_list_num ls] w4 = Some (Inr w5)"
      "tree w5 = fn_upd (comps p) (without (fst ` set es)) (tree w)"
    unfolding u(2) by blast
  have "without (fst ` set es) es = []" unfolding without_def by (auto simp: filter_empty_conv)
  then have "fn_at (tree w5) (comps p) = Some (Dir [])" using fn_at_upd [OF d] r(3) by simp
  then have "dir_doc F tree pend p w5 []" using fs_docD(1) [OF doc p, of w5] by (simp add: path_doc_def)
  then obtain w6 where w6: "fs_rmdir F p w5 = (True, w6)" "tree w6 = fn_del (comps p) (tree w5)"
    unfolding dir_doc_def by (cases "fs_rmdir F p w5") simp
  have "tf_removelink F spf p w = Some (Inr (True, w6))"
    using l(1) u(1) r(1,2) w6(1) by (subst tf_removelink.simps) simp
  moreover have "comps p \<noteq> []" using p by (simp add: plain_path_def)
  ultimately show ?thesis unfolding removes_def using w6(2) r(3) fn_del_upd by metis
qed

lemma remove_tree:
  "fs_doc F tree pend \<Longrightarrow> percent_c spf \<Longrightarrow> plain_path p \<Longrightarrow> fn_at (tree w) (comps p) = Some t \<Longrightarrow> tree_fits (length p) t \<Longrightarrow>
     (t = File \<longrightarrow> \<not> trailing p) \<Longrightarrow> removes F spf tree p w"
proof (induction t arbitrary: p w)
  case File
  then show ?case by (intro remove_file) auto
next
  case (Dir es)
  show ?case
  proof (rule remove_dir [OF Dir.prems(1,3,2,4,5)])
    fix n t w
    assume e: "(n, t) \<in> set es" and at: "fn_at (tree w) (comps p @ [n]) = Some t"
    have f: "entry_name n" "tree_fits (length p + 1 + length n) t" using Dir.prems(5) e by auto
    have s: "tree_fits (length (join_path p n)) t \<and> length p + length n + 1 < PATH_MAX"
      using f(2) tree_fits_bound by (auto simp: join_path_def intro: tree_fits_mono)
    show "removes F spf tree (join_path p n) w"
      using Dir.IH [OF e, of t "join_path p n" w] Dir.prems(1,2) plain_join [OF Dir.prems(3) f(1)] comps_join [OF f(1)] at s by simp
  qed
qed

text \<open>What is removed is gone, and what is neither below nor above it is what it was.\<close>

lemma fn_del_cons: "cs \<noteq> [] \<Longrightarrow> fn_del (c # cs) (Dir es) = Dir (in_entry c (fn_del cs) es)"
  by (simp add: fn_del_def)

lemma in_entry_other: "m \<noteq> c \<Longrightarrow> map_of (in_entry c f es) m = map_of es m"
  by (induction es) (auto simp: in_entry_def)

lemma fn_del_gone: "cs \<noteq> [] \<Longrightarrow> fn_at (fn_del cs t) (cs @ ds) = None"
proof (induction cs arbitrary: t)
  case (Cons c cs)
  show ?case
  proof (cases t)
    case File
    then show ?thesis by (simp add: fn_del_def)
  next
    case (Dir es)
    have "map_of (filter (\<lambda>e. fst e \<noteq> c) es) c = None" by (induction es) auto
    then show ?thesis using Cons Dir
      by (cases "cs = []") (simp add: fn_del_def, cases "map_of es c", simp_all add: fn_del_cons in_entry_at)
  qed
qed simp

lemma fn_del_other:
  "cs \<noteq> [] \<Longrightarrow> take (length cs) ds \<noteq> cs \<Longrightarrow> take (length ds) cs \<noteq> ds \<Longrightarrow> fn_at (fn_del cs t) ds = fn_at t ds"
proof (induction cs arbitrary: ds t)
  case (Cons c cs)
  obtain d ds' where ds: "ds = d # ds'" using Cons.prems(3) by (cases ds) auto
  show ?case
  proof (cases t)
    case File
    then show ?thesis by (simp add: fn_del_def)
  next
    case (Dir es)
    have "d \<noteq> c \<Longrightarrow> map_of (filter (\<lambda>e. fst e \<noteq> c) es) d = map_of es d" by (induction es) auto
    then show ?thesis using Cons.IH [of ds'] Cons.prems Dir ds
      by (cases "cs = []"; cases "d = c"; cases "map_of es c") (simp_all add: fn_del_def [of "[c]"] fn_del_cons in_entry_at in_entry_other)
  qed
qed simp

lemma remove_nothing:
  assumes "fs_doc F tree pend" "plain_path p" "fn_at (tree w) (comps p) = None"
  shows "\<exists>w'. tf_removelink F spf p w = Some (Inr (False, w')) \<and> tree w' = tree w"
proof -
  obtain w1 where "fs_lstat F p w = (None, w1)" "tree w1 = tree w"
    using fs_docD(1) [OF assms(1,2), of w] assms(3) unfolding path_doc_def by (cases "fs_lstat F p w") simp
  then show ?thesis by (subst tf_removelink.simps) simp
qed

section \<open>Properties\<close>

text \<open>
  C35: Removing a path ends and reports the truth: where the path names a file or a directory, however deep the
  tree below it, exactly that subtree is taken away, and where it names nothing the tree is left as it is.
\<close>

theorem tf_removelink_removes:
  assumes "fs_doc F tree pend" "percent_c spf" "plain_path p"
    "\<And>t. fn_at (tree w) (comps p) = Some t \<Longrightarrow> tree_fits (length p) t \<and> (t = File \<longrightarrow> \<not> trailing p)"
  shows "\<exists>w'. tf_removelink F spf p w = Some (Inr (fn_at (tree w) (comps p) \<noteq> None, w')) \<and>
    tree w' = (if fn_at (tree w) (comps p) = None then tree w else fn_del (comps p) (tree w))"
proof (cases "fn_at (tree w) (comps p)")
  case None
  then show ?thesis using remove_nothing [OF assms(1,3)] by simp
next
  case (Some t)
  then show ?thesis using remove_tree [OF assms(1,2,3) Some] assms(4) [OF Some] by (auto simp: removes_def)
qed

text \<open>A system for the witness: a tree, and the entries of the open directory that are still to be read.\<close>

definition demo_fs :: "(fnode \<times> cstr list) fs" where
  "demo_fs = \<lparr>fs_realpath = (\<lambda>p w. (Path_Err True, w)), fs_stat = (\<lambda>p w. (None, w)),
     fs_lstat = (\<lambda>p (t, q). (map_option (\<lambda>n. n \<noteq> File) (fn_at t (comps p)), t, q)),
     fs_unlink = (\<lambda>p (t, q). if fn_at t (comps p) = Some File then (True, fn_del (comps p) t, q) else (False, t, q)),
     fs_rmdir = (\<lambda>p (t, q). if fn_at t (comps p) = Some (Dir []) then (True, fn_del (comps p) t, q) else (False, t, q)),
     fs_opendir = (\<lambda>p (t, q). case fn_at t (comps p) of
        Some (Dir es) \<Rightarrow> (Some 3, t, MYCDIRSTR # MYPDIRSTR # remdups (map fst es)) | _ \<Rightarrow> (None, t, q)),
     fs_readdir = (\<lambda>d (t, q). case q of [] \<Rightarrow> (None, t, q) | n # ns \<Rightarrow> (Some n, t, ns)),
     fs_closedir = (\<lambda>d w. w), fs_setlk = (\<lambda>fd nb t w. (None, w))\<rparr>"

lemma demo_fs_simps:
  "fs_lstat demo_fs p (t, q) = (map_option (\<lambda>n. n \<noteq> File) (fn_at t (comps p)), t, q)"
  "fs_unlink demo_fs p (t, q) = (if fn_at t (comps p) = Some File then (True, fn_del (comps p) t, q) else (False, t, q))"
  "fs_rmdir demo_fs p (t, q) = (if fn_at t (comps p) = Some (Dir []) then (True, fn_del (comps p) t, q) else (False, t, q))"
  "fs_opendir demo_fs p (t, q) = (case fn_at t (comps p) of
     Some (Dir es) \<Rightarrow> (Some 3, t, MYCDIRSTR # MYPDIRSTR # remdups (map fst es)) | _ \<Rightarrow> (None, t, q))"
  "fs_readdir demo_fs d (t, q) = (case q of [] \<Rightarrow> (None, t, q) | n # ns \<Rightarrow> (Some n, t, ns))"
  "fs_closedir demo_fs d w = w"
  by (simp_all add: demo_fs_def)

lemma demo_dir_doc: "fn_at t (comps p) = Some (Dir es) \<Longrightarrow> dir_doc demo_fs fst (\<lambda>w d. snd w) p (t, q) es"
  by (cases "es = []") (simp_all add: dir_doc_def demo_fs_simps proper_def, blast+)

lemma demo_fs_doc: "fs_doc demo_fs fst (\<lambda>w d. snd w)"
proof -
  have "path_doc demo_fs fst (\<lambda>w d. snd w) p (t, q)" for p t q
    using demo_dir_doc [of t p] by (auto simp: path_doc_def demo_fs_simps split: option.split fnode.split)
  then show ?thesis by (auto simp: fs_doc_def demo_fs_simps split: list.splits)
qed

text \<open>The tree with a file \<open>a\<close> and a directory \<open>d\<close> that holds a file and an empty directory; \<open>/d\<close> is removed.\<close>

definition demo_tree :: fnode where
  "demo_tree = Dir [(ascii ''a'', File), (ascii ''d'', Dir [(ascii ''b'', File), (ascii ''c'', Dir [])])]"

definition demo_sprintf :: "cstr \<Rightarrow> fmt_arg \<Rightarrow> byte list" where
  "demo_sprintf f a = (case a of Arg_num n \<Rightarrow> [ucast n] | _ \<Rightarrow> [])"

theorem tf_removelink_removes_witness:
  "\<exists>w'. tf_removelink demo_fs demo_sprintf (ascii ''/d/'') (demo_tree, []) = Some (Inr (True, w')) \<and>
     fst w' = Dir [(ascii ''a'', File)]"
proof -
  have c: "comps (ascii ''/d/'') = [ascii ''d'']" by (simp add: comps_def ascii_def MYPATHCHR_def)
  have p: "plain_path (ascii ''/d/'')"
    unfolding plain_path_def c by (simp add: cstr_ok_def ascii_def MYCDIRSTR_def MYPDIRSTR_def PATH_MAX_def)
  have a: "fn_at (fst (demo_tree, [])) (comps (ascii ''/d/'')) = Some (Dir [(ascii ''b'', File), (ascii ''c'', Dir [])])"
    unfolding c demo_tree_def by (simp add: ascii_def)
  have f: "tree_fits (length (ascii ''/d/'')) (Dir [(ascii ''b'', File), (ascii ''c'', Dir [])])"
    by (simp add: ascii_def entry_name_def cstr_ok_def MYPATHCHR_def MYCDIRSTR_def MYPDIRSTR_def PATH_MAX_def int_max_def)
  have "ucast (ucast c :: u64) = c" for c :: byte by (rule bit_word_eqI) (simp add: bit_simps)
  then have "percent_c demo_sprintf" by (simp add: percent_c_def demo_sprintf_def)
  moreover have "fn_del [ascii ''d''] demo_tree = Dir [(ascii ''a'', File)]" by (simp add: fn_del_def demo_tree_def ascii_def)
  ultimately show ?thesis
    using tf_removelink_removes [OF demo_fs_doc _ p, of demo_sprintf "(demo_tree, [])"] f unfolding a by (auto simp: c)
qed

section \<open>Paths, directories and locks\<close>

text \<open>The owner of the block of a canonical path depends on whether the file exists.\<close>

lemma tf_fullpath_owner:
  "fs_realpath F path w = (Real_Path buf, w1) \<Longrightarrow> tf_fullpath F path w = Inr (Some (Libc, map Some (buf @ [0])), w1)"
  "fs_realpath F path w = (Path_Err True, w1) \<Longrightarrow> MYPATHCHR \<notin> set path \<Longrightarrow> fs_realpath F MYCDIRSTR w1 = (Real_Path buf, w2) \<Longrightarrow>
     buf \<noteq> [MYPATHCHR] \<Longrightarrow> tf_fullpath F path w = Inr (Some (Tflib, map Some (buf @ MYPATHCHR # path @ [0])), w2)"
proof -
  have "strrchr path c = None" if "c \<notin> set path" for c using that by (induction path) auto
  moreover have "blit (replicate (length xs) None) 0 (map Some xs) = Inr (map Some xs)" for xs :: "byte list" by (simp add: blit_def)
  ultimately show "fs_realpath F path w = (Path_Err True, w1) \<Longrightarrow> MYPATHCHR \<notin> set path \<Longrightarrow>
      fs_realpath F MYCDIRSTR w1 = (Real_Path buf, w2) \<Longrightarrow> buf \<noteq> [MYPATHCHR] \<Longrightarrow>
      tf_fullpath F path w = Inr (Some (Tflib, map Some (buf @ MYPATHCHR # path @ [0])), w2)"
    by (simp add: tf_fullpath_def full_name_def blit_def)
qed (simp add: tf_fullpath_def)

text \<open>A lock waits through interruptions and reports every other failure.\<close>

lemma tf_lock_interrupted:
  "0 \<le> fd \<Longrightarrow> fs_setlk F fd nb (if ex then F_WRLCK else F_RDLCK) w = (Some True, w1) \<Longrightarrow> tf_lock F fd ex nb w = tf_lock F fd ex nb w1"
  unfolding tf_lock_def by (subst lock_loop.simps) simp

end
