(* ===== verification/TF_Float.thy ===== *)
theory TF_Float
  imports Complex_Main TF_Conf
begin

text \<open>
  The conversions of \<open>tf_util.c\<close> that compute in \<open>long double\<close>: integers with a binary prefix and real
  numbers, and the getters of the configuration that use them.  The arithmetic is an argument, a record of the
  operations of the machine; what the proofs need of it is that an operation is exact when its result is an integer
  that the format can hold, as the 64 bits of the significand of an extended double promise.
\<close>

section \<open>The arithmetic\<close>

text \<open>\<open>lf_pow n\<close> is \<open>pow(10, n)\<close> converted to \<open>long double\<close>; the last three give a \<open>double\<close>.\<close>

record ('f, 'd) ldouble =
  lf_of :: "int \<Rightarrow> 'f"
  lf_add :: "'f \<Rightarrow> 'f \<Rightarrow> 'f"
  lf_sub :: "'f \<Rightarrow> 'f \<Rightarrow> 'f"
  lf_mul :: "'f \<Rightarrow> 'f \<Rightarrow> 'f"
  lf_div :: "'f \<Rightarrow> 'f \<Rightarrow> 'f"
  lf_less :: "'f \<Rightarrow> 'f \<Rightarrow> bool"
  lf_to_i64 :: "'f \<Rightarrow> int"
  lf_pow :: "int \<Rightarrow> 'f"
  lf_double :: "'f \<Rightarrow> 'd"
  lf_inf :: "int \<Rightarrow> 'd"
  lf_nan :: 'd

section \<open>Integers with a prefix\<close>

text \<open>\<open>num = num * 10 + *str - '0'\<close>, from the left.\<close>

definition next_digit :: "('f, 'd) ldouble \<Rightarrow> 'f \<Rightarrow> byte \<Rightarrow> 'f" where
  "next_digit L num c = lf_sub L (lf_add L (lf_mul L num (lf_of L 10)) (lf_of L (sint c))) (lf_of L 48)"

fun ix_digits :: "('f, 'd) ldouble \<Rightarrow> cstr \<Rightarrow> 'f \<Rightarrow> 'f \<times> cstr" where
  "ix_digits L [] num = (num, [])"
| "ix_digits L (c # str) num =
     (if sint c < 48 \<or> 57 < sint c then (num, c # str) else ix_digits L str (next_digit L num c))"

fun ix_fract :: "('f, 'd) ldouble \<Rightarrow> cstr \<Rightarrow> 'f \<Rightarrow> 'f \<Rightarrow> 'f \<times> cstr" where
  "ix_fract L [] num base = (num, [])"
| "ix_fract L (c # str) num base =
     (if sint c < 48 \<or> 57 < sint c then (num, c # str)
      else ix_fract L str (lf_add L num (lf_div L (lf_of L (sint c - 48)) base)) (lf_mul L base (lf_of L 10)))"

definition sign_of :: "cstr \<Rightarrow> int \<times> cstr" where
  "sign_of str = (case str of [] \<Rightarrow> (1, []) | c # r \<Rightarrow> if c = 45 then (- 1, r) else if c = 43 then (1, r) else (1, str))"

definition ix_suffix :: "('f, 'd) ldouble \<Rightarrow> cstr \<Rightarrow> 'f \<Rightarrow> 'f" where
  "ix_suffix L str num = (case str of [] \<Rightarrow> num | c # _ \<Rightarrow>
     if c = 107 \<or> c = 75 then lf_mul L num (lf_of L (2 ^ 10))
     else if c = 109 \<or> c = 77 then lf_mul L num (lf_of L (2 ^ 20))
     else if c = 103 \<or> c = 71 then lf_mul L num (lf_of L (2 ^ 30))
     else if c = 116 \<or> c = 84 then lf_mul L num (lf_of L (2 ^ 40))
     else if c = 112 \<or> c = 80 then lf_mul L num (lf_of L (2 ^ 50))
     else if c = 101 \<or> c = 69 then lf_mul L num (lf_of L (2 ^ 60))
     else num)"

definition tf_atoix :: "('f, 'd) ldouble \<Rightarrow> cstr \<Rightarrow> int" where
  "tf_atoix L str =
     (let (sign, str) = sign_of (dropWhile c_space str);
          (num, str) = ix_digits L str (lf_of L 0);
          (num, str) = (case str of [] \<Rightarrow> (num, str)
            | c # r \<Rightarrow> if c = 46 then ix_fract L r num (lf_of L 10) else (num, str));
          num = ix_suffix L (dropWhile c_space str) (lf_mul L num (lf_of L sign))
      in if lf_less L (lf_of L i64_max) num then i64_max
         else if lf_less L num (lf_of L (- i64_max - 1)) then - i64_max - 1
         else lf_to_i64 L num)"

section \<open>Real numbers\<close>

definition TFLDBLCOLMAX :: nat where "TFLDBLCOLMAX = 16"

fun atof_digits :: "('f, 'd) ldouble \<Rightarrow> cstr \<Rightarrow> 'f \<Rightarrow> nat \<Rightarrow> 'f \<times> nat \<times> cstr" where
  "atof_digits L [] num col = (num, col, [])"
| "atof_digits L (c # str) num col =
     (if sint c < 48 \<or> 57 < sint c then (num, col, c # str)
      else let num = next_digit L num c
           in atof_digits L str num (if lf_less L (lf_of L 0) num then col + 1 else col))"

fun atof_fract :: "('f, 'd) ldouble \<Rightarrow> cstr \<Rightarrow> 'f \<Rightarrow> 'f \<Rightarrow> nat \<Rightarrow> 'f \<times> cstr" where
  "atof_fract L [] fract base col = (fract, [])"
| "atof_fract L (c # str) fract base col =
     (if \<not> col < TFLDBLCOLMAX \<or> sint c < 48 \<or> 57 < sint c then (fract, c # str)
      else atof_fract L str (lf_add L fract (lf_div L (lf_of L (sint c - 48)) base)) (lf_mul L base (lf_of L 10)) (col + 1))"

definition tf_atof :: "('f, 'd) ldouble \<Rightarrow> cstr \<Rightarrow> c_error + 'd" where
  "tf_atof L str =
     (let (sign, str) = sign_of (dropWhile c_space str)
      in if tf_strifwm str (ascii ''inf'') then Inr (lf_inf L sign)
         else if tf_strifwm str (ascii ''nan'') then Inr (lf_nan L)
         else let (num, col, str) = atof_digits L str (lf_of L 0) 0;
                  (num, str) = (case str of [] \<Rightarrow> (num, str)
                    | c # r \<Rightarrow> if c = 46 then (let (fract, r) = atof_fract L r (lf_of L 0) (lf_of L 10) col in (lf_add L num fract, r))
                              else (num, str))
              in rbind (case str of [] \<Rightarrow> Inr num
                   | c # r \<Rightarrow> if c = 101 \<or> c = 69 then rbind (tf_atoi r) (\<lambda>n. Inr (lf_mul L num (lf_pow L n))) else Inr num) (\<lambda>num.
                 Inr (lf_double L (lf_mul L num (lf_of L sign)))))"

section \<open>Getters of the configuration\<close>

definition cfg_get_intx :: "('f, 'd) ldouble \<Rightarrow> cfg_file \<Rightarrow> cfg_group option \<Rightarrow> cstr \<Rightarrow> int \<Rightarrow> c_error + int" where
  "cfg_get_intx L cfg grp key dft =
     rbind (cfg_get_kv cfg grp key) (\<lambda>r. case r of
       None \<Rightarrow> Inr dft
     | Some kv \<Rightarrow> rbind (value_str kv) (\<lambda>v. Inr (tf_atoix L v)))"

definition cfg_get_float :: "('f, 'd) ldouble \<Rightarrow> cfg_file \<Rightarrow> cfg_group option \<Rightarrow> cstr \<Rightarrow> 'd \<Rightarrow> c_error + 'd" where
  "cfg_get_float L cfg grp key dft =
     rbind (cfg_get_kv cfg grp key) (\<lambda>r. case r of
       None \<Rightarrow> Inr dft
     | Some kv \<Rightarrow> rbind (value_str kv) (\<lambda>v. tf_atof L v))"

section \<open>Exact arithmetic\<close>

text \<open>The numbers with a significand of 64 bits and a moderate exponent, and their exact operations; \<open>v\<close> is the value of a finite number.\<close>

definition holds_exactly :: "int \<Rightarrow> bool" where
  "holds_exactly x \<longleftrightarrow> (\<exists>m e. x = m * 2 ^ e \<and> \<bar>m\<bar> \<le> 2 ^ 64 \<and> e \<le> (1000 :: nat))"

definition ldouble_doc :: "('f, 'd) ldouble \<Rightarrow> ('f \<Rightarrow> rat option) \<Rightarrow> bool" where
  "ldouble_doc L v \<longleftrightarrow>
     (\<forall>i. holds_exactly i \<longrightarrow> v (lf_of L i) = Some (of_int i)) \<and>
     (\<forall>x y a b. v x = Some (of_int a) \<and> v y = Some (of_int b) \<longrightarrow>
        (holds_exactly (a + b) \<longrightarrow> v (lf_add L x y) = Some (of_int (a + b))) \<and>
        (holds_exactly (a - b) \<longrightarrow> v (lf_sub L x y) = Some (of_int (a - b))) \<and>
        (holds_exactly (a * b) \<longrightarrow> v (lf_mul L x y) = Some (of_int (a * b))) \<and>
        lf_less L x y = (a < b)) \<and>
     (\<forall>x a. v x = Some (of_int a) \<and> - i64_max - 1 \<le> a \<and> a \<le> i64_max \<longrightarrow> lf_to_i64 L x = a)"

lemma exact_small: "\<bar>i\<bar> \<le> 2 ^ 64 \<Longrightarrow> holds_exactly i"
  unfolding holds_exactly_def by (intro exI [of _ i] exI [of _ 0]) simp

lemma ldouble_docD:
  assumes "ldouble_doc L v"
  shows "holds_exactly i \<Longrightarrow> v (lf_of L i) = Some (of_int i)"
    "v x = Some (of_int a) \<Longrightarrow> v y = Some (of_int b) \<Longrightarrow> holds_exactly (a + b) \<Longrightarrow> v (lf_add L x y) = Some (of_int (a + b))"
    "v x = Some (of_int a) \<Longrightarrow> v y = Some (of_int b) \<Longrightarrow> holds_exactly (a - b) \<Longrightarrow> v (lf_sub L x y) = Some (of_int (a - b))"
    "v x = Some (of_int a) \<Longrightarrow> v y = Some (of_int b) \<Longrightarrow> holds_exactly (a * b) \<Longrightarrow> v (lf_mul L x y) = Some (of_int (a * b))"
    "v x = Some (of_int a) \<Longrightarrow> v y = Some (of_int b) \<Longrightarrow> lf_less L x y = (a < b)"
    "v x = Some (of_int a) \<Longrightarrow> - i64_max - 1 \<le> a \<Longrightarrow> a \<le> i64_max \<Longrightarrow> lf_to_i64 L x = a"
  using assms unfolding ldouble_doc_def by blast+

lemma next_digit_exact:
  assumes "ldouble_doc L v" "v num = Some (of_int n)" "0 \<le> n" "n * 10 + digit_val c \<le> 2 ^ 63" "c_digit c"
  shows "v (next_digit L num c) = Some (of_int (n * 10 + digit_val c))"
proof -
  note D = ldouble_docD [OF assms(1)]
  have s: "sint c = digit_val c + 48" "0 \<le> digit_val c" using digit_val [OF assms(5)] by (simp_all add: digit_val_def)
  have "v (lf_mul L num (lf_of L 10)) = Some (of_int (n * 10))"
    by (rule D(4) [OF assms(2) D(1)]; rule exact_small) (use assms(3,4) s in simp_all)
  then have "v (lf_add L (lf_mul L num (lf_of L 10)) (lf_of L (sint c))) = Some (of_int (n * 10 + sint c))"
    by (rule D(2) [OF _ D(1)]; intro exact_small) (use assms(3,4) s digit_val [OF assms(5)] in simp_all)
  then have "v (next_digit L num c) = Some (of_int (n * 10 + sint c - 48))"
    unfolding next_digit_def by (rule D(3) [OF _ D(1)]; intro exact_small) (use assms(3,4) s in simp_all)
  then show ?thesis using s(1) by simp
qed

lemma ix_digits_exact:
  assumes "ldouble_doc L v" "r = [] \<or> \<not> c_digit (hd r)"
  shows "v num = Some (of_int n) \<Longrightarrow> 0 \<le> n \<Longrightarrow> list_all c_digit ds \<Longrightarrow> dec_val ds n \<le> 2 ^ 63 \<Longrightarrow>
    \<exists>num'. ix_digits L (ds @ r) num = (num', r) \<and> v num' = Some (of_int (dec_val ds n))"
proof (induction ds arbitrary: num n)
  case Nil
  then show ?case using assms(2) by (cases r) (auto simp: c_digit_def)
next
  case (Cons c ds)
  let ?n = "n * 10 + digit_val c"
  have d: "0 \<le> digit_val c" "c_digit c" using Cons.prems(3) digit_val [of c] by auto
  have "?n \<le> dec_val ds ?n" using Cons.prems d by (intro dec_val_mono) auto
  then have "v (next_digit L num c) = Some (of_int ?n)"
    using Cons.prems d by (intro next_digit_exact [OF assms(1)]) auto
  then show ?case using Cons.IH [of "next_digit L num c" ?n] Cons.prems d by (auto simp: c_digit_def)
qed

section \<open>The value of a prefixed integer\<close>

definition suffix_bits :: "cstr \<Rightarrow> nat" where
  "suffix_bits str = (case str of [] \<Rightarrow> 0 | c # _ \<Rightarrow>
     if c = 107 \<or> c = 75 then 10 else if c = 109 \<or> c = 77 then 20 else if c = 103 \<or> c = 71 then 30
     else if c = 116 \<or> c = 84 then 40 else if c = 112 \<or> c = 80 then 50 else if c = 101 \<or> c = 69 then 60 else 0)"

lemma suffix_bits_60: "suffix_bits str \<le> 60"
  by (simp add: suffix_bits_def split: list.split)

lemma ix_suffix_bits:
  "ix_suffix L str num = (if suffix_bits str = 0 then num else lf_mul L num (lf_of L (2 ^ suffix_bits str)))"
  by (simp add: ix_suffix_def suffix_bits_def split: list.split)

lemma ix_suffix_exact:
  assumes "ldouble_doc L v" "v num = Some (of_int n)" "\<bar>n\<bar> \<le> 2 ^ 64"
  shows "v (ix_suffix L str num) = Some (of_int (n * 2 ^ suffix_bits str))"
proof (cases "suffix_bits str = 0")
  case False
  have "(2 :: int) ^ suffix_bits str \<le> 2 ^ 60" using suffix_bits_60 [of str] by (intro power_increasing) simp_all
  then have p: "holds_exactly (2 ^ suffix_bits str)" by (intro exact_small) simp
  have "holds_exactly (n * 2 ^ suffix_bits str)"
    unfolding holds_exactly_def using assms(3) suffix_bits_60 [of str] by (intro exI [of _ n] exI [of _ "suffix_bits str"]) simp
  then show ?thesis
    using ldouble_docD(4) [OF assms(1,2) ldouble_docD(1) [OF assms(1) p]] False by (simp add: ix_suffix_bits)
qed (simp add: ix_suffix_bits assms(2))

lemma clamp_exact:
  assumes "ldouble_doc L v" "v num = Some (of_int n)"
  shows "(if lf_less L (lf_of L i64_max) num then i64_max
     else if lf_less L num (lf_of L (- i64_max - 1)) then - i64_max - 1 else lf_to_i64 L num) = max (- i64_max - 1) (min i64_max n)"
proof -
  note D = ldouble_docD [OF assms(1)]
  have c: "v (lf_of L i64_max) = Some (of_int i64_max)" "v (lf_of L (- i64_max - 1)) = Some (of_int (- i64_max - 1))"
    by (rule D(1), rule exact_small, simp add: i64_max_def)+
  show ?thesis
    unfolding D(5) [OF c(1) assms(2)] D(5) [OF assms(2) c(2)] using D(6) [OF assms(2)] by (simp add: max_def min_def i64_max_def)
qed

lemma sign_of_text:
  assumes "sg \<in> {[], [43], [45]}" "c_digit d"
  shows "sign_of (sg @ d # r) = (if sg = [45] then - 1 else 1, d # r)" "dropWhile c_space (sg @ d # r) = sg @ d # r"
proof -
  have "d \<noteq> 45" "d \<noteq> 43" "\<not> c_space d" using assms(2) by (auto simp: c_digit_def c_space_def)
  then show "sign_of (sg @ d # r) = (if sg = [45] then - 1 else 1, d # r)" "dropWhile c_space (sg @ d # r) = sg @ d # r"
    using assms(1) by (auto simp: sign_of_def c_space_def)
qed

section \<open>Properties\<close>

text \<open>
  C36: A decimal integer up to 2 ^ 63 after spaces and a sign, followed by spaces and one of the binary prefixes, is read as its
  value times the power of two of the prefix, and as the nearest end of the range of 64 bits when it is not in that
  range, whatever follows the prefix.
\<close>

theorem tf_atoix_value:
  assumes "ldouble_doc L v" "list_all c_space sp" "sg \<in> {[], [43], [45]}" "ds \<noteq> []" "list_all c_digit ds" "dec_val ds 0 \<le> 2 ^ 63"
    "list_all c_space sp2" "suf = [] \<or> \<not> c_space (hd suf) \<and> \<not> c_digit (hd suf) \<and> hd suf \<noteq> 46"
  shows "tf_atoix L (sp @ sg @ ds @ sp2 @ suf) =
    max (- i64_max - 1) (min i64_max ((if sg = [45] then - 1 else 1) * dec_val ds 0 * 2 ^ suffix_bits suf))"
proof -
  let ?r = "sp2 @ suf" and ?s = "if sg = [45] then - 1 else 1 :: int"
  obtain d ds' where d: "ds = d # ds'" "c_digit d" using assms(4,5) by (cases ds) auto
  have r: "?r = [] \<or> \<not> c_digit (hd ?r) \<and> hd ?r \<noteq> 46"
    using assms(7,8) by (cases sp2) (auto simp: c_space_def c_digit_def)
  have skip: "dropWhile c_space (sp @ x) = dropWhile c_space x" "dropWhile c_space (sp2 @ x) = dropWhile c_space x" for x
    using assms(2,7) by (auto simp: list_all_iff dropWhile_append)
  have suf: "dropWhile c_space ?r = suf" using assms(8) unfolding skip by (cases suf) auto
  have "v (lf_of L 0) = Some (of_int 0)" by (rule ldouble_docD(1) [OF assms(1)]) (simp add: exact_small)
  then obtain num where num: "ix_digits L (ds @ ?r) (lf_of L 0) = (num, ?r)" "v num = Some (of_int (dec_val ds 0))"
    using ix_digits_exact [OF assms(1), of ?r "lf_of L 0" 0 ds] r assms(5,6) by auto
  have n: "\<bar>?s * dec_val ds 0\<bar> \<le> 2 ^ 64" using dec_val_mono [OF assms(5), of 0] assms(6) by simp
  have "v (lf_mul L num (lf_of L ?s)) = Some (of_int (dec_val ds 0 * ?s))"
    by (rule ldouble_docD(4) [OF assms(1) num(2) ldouble_docD(1) [OF assms(1)]]; rule exact_small) (use n in \<open>auto split: if_splits\<close>)
  then have "v (ix_suffix L suf (lf_mul L num (lf_of L ?s))) = Some (of_int (?s * dec_val ds 0 * 2 ^ suffix_bits suf))"
    using ix_suffix_exact [OF assms(1) _ n] by (simp add: mult.commute)
  note c = clamp_exact [OF assms(1) this]
  have "(case ?r of [] \<Rightarrow> (num, ?r) | c # r' \<Rightarrow> if c = 46 then ix_fract L r' num (lf_of L 10) else (num, ?r)) = (num, ?r)"
    using r by (auto split: list.split)
  moreover have "sign_of (dropWhile c_space (sp @ sg @ ds @ ?r)) = (?s, ds @ ?r)"
    using sign_of_text [OF assms(3) d(2), of "ds' @ ?r"] unfolding skip(1) d(1) by simp
  ultimately show ?thesis using num(1) suf c unfolding tf_atoix_def by (simp only: Let_def prod.case)
qed

text \<open>Exact rational arithmetic, for the witness.\<close>

definition rat_ldouble :: "(rat, rat) ldouble" where
  "rat_ldouble = \<lparr>lf_of = of_int, lf_add = (+), lf_sub = (-), lf_mul = (*), lf_div = (/), lf_less = (<),
     lf_to_i64 = (\<lambda>x. \<lfloor>x\<rfloor>), lf_pow = (\<lambda>n. if 0 \<le> n then 10 ^ nat n else 1 / 10 ^ nat (- n)), lf_double = (\<lambda>x. x),
     lf_inf = (\<lambda>s. of_int s * 340282346638528860000000000000000000000), lf_nan = 0\<rparr>"

lemma rat_ldouble_doc: "ldouble_doc rat_ldouble Some"
  by (auto simp: ldouble_doc_def rat_ldouble_def)

theorem tf_atoix_value_witness:
  "tf_atoix rat_ldouble (ascii '' -12 KB'') = - 12288 \<and> tf_atoix rat_ldouble (ascii ''+8E'') = i64_max"
proof -
  have t: "ascii '' -12 KB'' = [32] @ [45] @ [49, 50] @ [32] @ [75, 66]" "ascii ''+8E'' = [] @ [43] @ [56] @ [] @ [69]"
    by (simp_all add: ascii_def)
  show ?thesis unfolding t
    using tf_atoix_value [OF rat_ldouble_doc, of "[32]" "[45]" "[49, 50]" "[32]" "[75, 66]"]
      tf_atoix_value [OF rat_ldouble_doc, of "[]" "[43]" "[56]" "[]" "[69]"]
    by (simp add: c_space_def c_digit_def digit_val_def suffix_bits_def i64_max_def)
qed

section \<open>An exponent that is not read\<close>

text \<open>After sixteen significant digits the remaining ones are not skipped, so the exponent behind them is lost.\<close>

lemma tf_atof_exponent_lost:
  "tf_atof rat_ldouble (ascii ''1.00000000000000015e3'') = tf_atof rat_ldouble (ascii ''1.000000000000000'')"
  by (simp add: tf_atof_def rat_ldouble_def ascii_def sign_of_def c_space_def TFLDBLCOLMAX_def next_digit_def fold_signed_def Let_def)

end
