(* ===== verification/TF_Log.thy ===== *)
theory TF_Log
  imports TF_Prelude
begin

text \<open>
  The log of \<open>tf_log.c\<close> and the date functions of \<open>tf_util.c\<close> it uses.  A message comes already expanded:
  what \<open>vsprintf\<close> makes of the format is an argument.  The buffer of a message has 2048 bytes, and every step
  that fills it is checked.
\<close>

section \<open>Dates\<close>

fun dec :: "nat \<Rightarrow> byte list" where
  "dec n = (if n < 10 then [of_nat (48 + n)] else dec (n div 10) @ [of_nat (48 + n mod 10)])"

declare dec.simps [simp del]

definition dec_pad :: "nat \<Rightarrow> nat \<Rightarrow> byte list" where
  "dec_pad k n = replicate (k - length (dec n)) 48 @ dec n"

text \<open>The broken-down time, as \<open>localtime\<close> gives it.\<close>

record tm =
  tm_year :: nat
  tm_mon :: nat
  tm_mday :: nat
  tm_hour :: nat
  tm_min :: nat
  tm_sec :: nat

definition tf_datetime_mmddhhmiss :: "tm \<Rightarrow> byte list" where
  "tf_datetime_mmddhhmiss t =
     dec_pad 2 (tm_mon t + 1) @ dec_pad 2 (tm_mday t) @ dec_pad 2 (tm_hour t) @ dec_pad 2 (tm_min t) @ dec_pad 2 (tm_sec t)"

definition tf_datetime :: "tm \<Rightarrow> byte list" where
  "tf_datetime t = dec_pad 4 (tm_year t + 1900) @ dec_pad 2 (tm_mon t + 1) @ dec_pad 2 (tm_mday t) @
     dec_pad 2 (tm_hour t) @ dec_pad 2 (tm_min t) @ dec_pad 2 (tm_sec t)"

section \<open>State and system\<close>

datatype log_level = DEBUG | INFO | NOTICE | WARN | ERROR | CRIT | ALERT | EMERG

definition level_num :: "log_level \<Rightarrow> byte" where
  "level_num l = (case l of DEBUG \<Rightarrow> 0 | INFO \<Rightarrow> 1 | NOTICE \<Rightarrow> 2 | WARN \<Rightarrow> 3 | ERROR \<Rightarrow> 4 | CRIT \<Rightarrow> 5 | ALERT \<Rightarrow> 6 | EMERG \<Rightarrow> 7)"

definition err_levels :: "log_level \<Rightarrow> byte list" where
  "err_levels l = ascii (case l of DEBUG \<Rightarrow> ''[DBG]'' | INFO \<Rightarrow> ''[INF]'' | NOTICE \<Rightarrow> ''[NTC]'' | WARN \<Rightarrow> ''[WAR]''
     | ERROR \<Rightarrow> ''[ERR]'' | CRIT \<Rightarrow> ''[CRT]'' | ALERT \<Rightarrow> ''[ALT]'' | EMERG \<Rightarrow> ''[EMG]'')"

record tf_log =
  lg_level :: byte
  lg_opened :: bool
  lg_file :: "nat option"

record 'w log_sys =
  lo_open :: "cstr \<Rightarrow> 'w \<Rightarrow> nat option \<times> 'w"
  lo_print :: "nat \<Rightarrow> byte list \<Rightarrow> 'w \<Rightarrow> 'w"
  lo_close :: "nat \<Rightarrow> 'w \<Rightarrow> 'w"
  lo_stderr :: "byte list \<Rightarrow> 'w \<Rightarrow> 'w"
  lo_now :: "'w \<Rightarrow> tm \<times> 'w"
  lo_tid :: nat
  lo_strerror :: "int \<Rightarrow> cstr"
  lo_errno :: "'w \<Rightarrow> int"

definition TF_MAX_ERROR_STR :: nat where "TF_MAX_ERROR_STR = 2048"

section \<open>Writing a message\<close>

text \<open>A string with its terminator in a buffer of \<open>n\<close> bytes.\<close>

definition fits :: "nat \<Rightarrow> byte list \<Rightarrow> c_error + byte list" where
  "fits n s = (if length s < n then Inr s else Inl Out_Of_Bounds)"

definition log_stderr :: "'w log_sys \<Rightarrow> byte list \<Rightarrow> 'w \<Rightarrow> 'w" where
  "log_stderr L s w = lo_stderr L [10] (lo_stderr L s w)"

definition log_write :: "'w log_sys \<Rightarrow> int \<Rightarrow> log_level \<Rightarrow> cstr \<Rightarrow> tf_log \<times> 'w \<Rightarrow> c_error + 'w" where
  "log_write L error_no level msg = (\<lambda>(lg, w).
     let (t, w) = lo_now L w
     in rbind (fits 12 (tf_datetime_mmddhhmiss t)) (\<lambda>tf_log_time.
        let prefix = err_levels level @ ascii ''['' @ tf_log_time @ ascii ''-'' @ dec_pad 3 (lo_tid L mod 1000) @ ascii ''] ''
        in rbind (fits TF_MAX_ERROR_STR prefix) (\<lambda>outbuf.
           rbind (fits TF_MAX_ERROR_STR (outbuf @ msg)) (\<lambda>outbuf.
           rbind (if error_no > 0
                  then rbind (fits TF_MAX_ERROR_STR (outbuf @ ascii '':'')) (\<lambda>outbuf.
                       fits TF_MAX_ERROR_STR (outbuf @ lo_strerror L error_no))
                  else Inr outbuf) (\<lambda>outbuf.
           let w = (if lg_opened lg
                    then (case lg_file lg of
                            None \<Rightarrow> w
                          | Some f \<Rightarrow> if level_num level \<ge> lg_level lg then lo_print L f (outbuf @ [10]) w else w)
                    else w)
           in Inr (log_stderr L outbuf w))))))"

definition debug :: "'w log_sys \<Rightarrow> int \<Rightarrow> cstr \<Rightarrow> tf_log \<times> 'w \<Rightarrow> c_error + 'w" where "debug L err = log_write L err DEBUG"
definition info :: "'w log_sys \<Rightarrow> int \<Rightarrow> cstr \<Rightarrow> tf_log \<times> 'w \<Rightarrow> c_error + 'w" where "info L err = log_write L err INFO"
definition notice :: "'w log_sys \<Rightarrow> int \<Rightarrow> cstr \<Rightarrow> tf_log \<times> 'w \<Rightarrow> c_error + 'w" where "notice L err = log_write L err NOTICE"
definition warn :: "'w log_sys \<Rightarrow> int \<Rightarrow> cstr \<Rightarrow> tf_log \<times> 'w \<Rightarrow> c_error + 'w" where "warn L err = log_write L err WARN"
definition error :: "'w log_sys \<Rightarrow> int \<Rightarrow> cstr \<Rightarrow> tf_log \<times> 'w \<Rightarrow> c_error + 'w" where "error L err = log_write L err ERROR"
definition crit :: "'w log_sys \<Rightarrow> int \<Rightarrow> cstr \<Rightarrow> tf_log \<times> 'w \<Rightarrow> c_error + 'w" where "crit L err = log_write L err CRIT"
definition alert :: "'w log_sys \<Rightarrow> int \<Rightarrow> cstr \<Rightarrow> tf_log \<times> 'w \<Rightarrow> c_error + 'w" where "alert L err = log_write L err ALERT"
definition emerg :: "'w log_sys \<Rightarrow> int \<Rightarrow> cstr \<Rightarrow> tf_log \<times> 'w \<Rightarrow> c_error + 'w" where "emerg L err = log_write L err EMERG"

section \<open>Opening and closing\<close>

definition log_create :: "'w log_sys \<Rightarrow> byte \<Rightarrow> cstr \<Rightarrow> tf_log \<times> 'w \<Rightarrow> c_error + tf_log \<times> 'w" where
  "log_create L level name = (\<lambda>(lg, w).
     case lo_open L name w of
       (None, w) \<Rightarrow>
         let lg = lg\<lparr>lg_level := level, lg_file := None\<rparr>
         in rbind (error L (lo_errno L w) (ascii ''Couldn'' @ [39] @ ascii ''t open logfile '' @ [96] @ name @ [39] @ ascii ''.'') (lg, w)) (\<lambda>w.
            Inr (lg\<lparr>lg_opened := False\<rparr>, w))
     | (Some f, w) \<Rightarrow>
         let (t, w) = lo_now L w
         in rbind (fits 12 (tf_datetime_mmddhhmiss t)) (\<lambda>_.
            Inr (lg\<lparr>lg_level := level, lg_file := Some f, lg_opened := True\<rparr>, w)))"

definition log_destroy :: "'w log_sys \<Rightarrow> tf_log \<times> 'w \<Rightarrow> tf_log \<times> 'w" where
  "log_destroy L = (\<lambda>(lg, w).
     if lg_opened lg then (case lg_file lg of
       None \<Rightarrow> (lg, w)
     | Some f \<Rightarrow> (lg\<lparr>lg_file := None, lg_opened := False\<rparr>, lo_close L f w))
     else (lg, w))"

definition log_append :: "'w log_sys \<Rightarrow> byte \<Rightarrow> cstr \<Rightarrow> tf_log \<times> 'w \<Rightarrow> c_error + tf_log \<times> 'w" where
  "log_append L level name st = log_create L level name (if lg_opened (fst st) then log_destroy L st else st)"

definition log_set_level :: "byte \<Rightarrow> tf_log \<Rightarrow> tf_log" where
  "log_set_level level lg = lg\<lparr>lg_level := level\<rparr>"

section \<open>The line of a message\<close>

lemma dec_digit: "n < 10 \<Longrightarrow> dec n = [of_nat (48 + n)]"
  by (subst dec.simps) simp

lemma dec_two: "10 \<le> n \<Longrightarrow> n < 100 \<Longrightarrow> dec n = [of_nat (48 + n div 10), of_nat (48 + n mod 10)]"
  by (subst dec.simps) (simp add: dec_digit)

lemma dec_three: "100 \<le> n \<Longrightarrow> n < 1000 \<Longrightarrow> length (dec n) = 3"
  by (subst dec.simps) (simp add: dec_two)

lemma length_pad2: "n < 100 \<Longrightarrow> length (dec_pad 2 n) = 2"
  by (cases "n < 10") (simp_all add: dec_pad_def dec_digit dec_two)

lemma length_pad3: "n < 1000 \<Longrightarrow> length (dec_pad 3 n) = 3"
proof -
  assume "n < 1000"
  then consider "n < 10" | "10 \<le> n" "n < 100" | "100 \<le> n" "n < 1000" by linarith
  then show ?thesis by cases (simp_all add: dec_pad_def dec_digit dec_two dec_three)
qed

text \<open>The ranges that \<open>localtime\<close> promises, a leap second included.\<close>

definition tm_ok :: "tm \<Rightarrow> bool" where
  "tm_ok t \<longleftrightarrow> tm_mon t < 12 \<and> tm_mday t < 32 \<and> tm_hour t < 24 \<and> tm_min t < 60 \<and> tm_sec t \<le> 60"

lemma length_mmddhhmiss: "tm_ok t \<Longrightarrow> length (tf_datetime_mmddhhmiss t) = 10"
  by (simp add: tf_datetime_mmddhhmiss_def tm_ok_def length_pad2)

definition log_line :: "'w log_sys \<Rightarrow> int \<Rightarrow> log_level \<Rightarrow> tm \<Rightarrow> cstr \<Rightarrow> byte list" where
  "log_line L error_no level t msg =
     err_levels level @ ascii ''['' @ tf_datetime_mmddhhmiss t @ ascii ''-'' @ dec_pad 3 (lo_tid L mod 1000) @ ascii ''] '' @ msg @
     (if error_no > 0 then ascii '':'' @ lo_strerror L error_no else [])"

lemma length_log_line:
  "tm_ok t \<Longrightarrow> length (log_line L error_no level t msg) =
     22 + length msg + (if error_no > 0 then 1 + length (lo_strerror L error_no) else 0)"
  by (cases level) (simp_all add: log_line_def err_levels_def ascii_def length_mmddhhmiss length_pad3)

text \<open>
  C34: A message is one line: the level, the time, the thread, the text, and the description of the error number if there is one.  It goes
  to the file exactly if the log is open and the level is not below that of the log, and to the standard error always.
  The line must be shorter than 2048 bytes, that is the text and the description at most 2025: a longer one overruns the
  buffer, whatever the level of the log.
\<close>

theorem log_write_line:
  assumes "lo_now L w = (t, w1)" "tm_ok t"
  shows "log_write L error_no level msg (lg, w) =
    (let line = log_line L error_no level t msg
     in if 22 + length msg + (if error_no > 0 then 1 + length (lo_strerror L error_no) else 0) < 2048
        then Inr (log_stderr L line
          (case lg_file lg of
             Some f \<Rightarrow> if lg_opened lg \<and> lg_level lg \<le> level_num level then lo_print L f (line @ [10]) w1 else w1
           | None \<Rightarrow> w1))
        else Inl Out_Of_Bounds)"
proof -
  let ?time = "tf_datetime_mmddhhmiss t"
  let ?pre = "err_levels level @ ascii ''['' @ ?time @ ascii ''-'' @ dec_pad 3 (lo_tid L mod 1000) @ ascii ''] ''"
  have l: "length ?pre = 22" using assms(2)
    by (cases level) (simp_all add: err_levels_def ascii_def length_mmddhhmiss length_pad3)
  have t: "fits 12 ?time = Inr ?time" using length_mmddhhmiss [OF assms(2)] by (simp add: fits_def)
  have c: "length (ascii '':'') = 1" by (simp add: ascii_def)
  have pre: "fits TF_MAX_ERROR_STR ?pre = Inr ?pre" using l by (simp add: fits_def TF_MAX_ERROR_STR_def)
  have line: "log_line L error_no level t msg = ?pre @ msg @ (if error_no > 0 then ascii '':'' @ lo_strerror L error_no else [])"
    by (simp add: log_line_def)
  define pre' where "pre' = ?pre"
  show ?thesis unfolding line log_write_def prod.case assms(1) Let_def t rbind_Inr pre unfolding pre'_def [symmetric]
    using l [folded pre'_def] c by (auto simp: fits_def TF_MAX_ERROR_STR_def split: option.splits)
qed

text \<open>The levels in the order of their numbers, so that the test of a message is monotone in its level.\<close>

lemma level_num_inj: "level_num a = level_num b \<Longrightarrow> a = b"
  by (cases a; cases b) (simp_all add: level_num_def)

instantiation log_level :: linorder
begin

definition less_eq_log_level :: "log_level \<Rightarrow> log_level \<Rightarrow> bool" where
  "less_eq_log_level a b \<longleftrightarrow> level_num a \<le> level_num b"

definition less_log_level :: "log_level \<Rightarrow> log_level \<Rightarrow> bool" where
  "less_log_level a b \<longleftrightarrow> level_num a < level_num b"

instance
  by standard (auto simp: less_eq_log_level_def less_log_level_def dest: level_num_inj)

end

definition goes_to_file :: "tf_log \<Rightarrow> log_level \<Rightarrow> bool" where
  "goes_to_file lg level \<longleftrightarrow> lg_opened lg \<and> lg_file lg \<noteq> None \<and> lg_level lg \<le> level_num level"

lemma goes_to_file_levels: "{level. goes_to_file lg level} = {} \<or> (\<exists>least. {level. goes_to_file lg level} = {least..})"
proof (cases "\<exists>level. goes_to_file lg level")
  case True
  have fin: "finite (UNIV :: log_level set)"
    by (rule finite_subset [of _ "{DEBUG, INFO, NOTICE, WARN, ERROR, CRIT, ALERT, EMERG}"]) (auto intro: log_level.exhaust)
  define least where "least = Min {level. goes_to_file lg level}"
  have m: "goes_to_file lg least" "\<And>l. goes_to_file lg l \<Longrightarrow> least \<le> l"
    using True finite_subset [OF subset_UNIV fin] Min_in [of "{level. goes_to_file lg level}"] Min_le [of "{level. goes_to_file lg level}"]
    by (auto simp: least_def)
  then show ?thesis by (intro disjI2 exI [of _ least]) (auto simp: goes_to_file_def less_eq_log_level_def)
qed auto

text \<open>A log whose file and standard error are lists of bytes, for the witness.\<close>

definition demo_log :: "(byte list \<times> byte list) log_sys" where
  "demo_log = \<lparr>lo_open = (\<lambda>n w. (Some 3, w)), lo_print = (\<lambda>f s (o1, o2). (o1 @ s, o2)), lo_close = (\<lambda>f w. w),
     lo_stderr = (\<lambda>s (o1, o2). (o1, o2 @ s)), lo_now = (\<lambda>w. (\<lparr>tm_year = 114, tm_mon = 11, tm_mday = 5, tm_hour = 23, tm_min = 7, tm_sec = 0\<rparr>, w)),
     lo_tid = 70007, lo_strerror = (\<lambda>e. ascii ''bad''), lo_errno = (\<lambda>w. 0)\<rparr>"

theorem log_write_line_witness:
  "\<exists>line. log_write demo_log 5 INFO (ascii ''hi'') (\<lparr>lg_level = 1, lg_opened = True, lg_file = Some 3\<rparr>, [], []) =
     Inr (line @ [10], line @ [10]) \<and> length line = 28"
proof -
  let ?t = "\<lparr>tm_year = 114, tm_mon = 11, tm_mday = 5, tm_hour = 23, tm_min = 7, tm_sec = 0\<rparr>"
  have n: "lo_now demo_log ([], []) = (?t, [], [])" by (simp add: demo_log_def)
  have ok: "tm_ok ?t" by (simp add: tm_ok_def)
  let ?line = "log_line demo_log 5 INFO ?t (ascii ''hi'')"
  have l: "length (ascii ''hi'') = 2" "length (lo_strerror demo_log 5) = 3" by (simp_all add: ascii_def demo_log_def)
  have "length ?line = 28" using length_log_line [OF ok, of demo_log 5 INFO "ascii ''hi''"] l by simp
  moreover have "log_write demo_log 5 INFO (ascii ''hi'') (\<lparr>lg_level = 1, lg_opened = True, lg_file = Some 3\<rparr>, [], []) =
     Inr (?line @ [10], ?line @ [10])"
    using log_write_line [OF n ok, of 5 INFO "ascii ''hi''" "\<lparr>lg_level = 1, lg_opened = True, lg_file = Some 3\<rparr>"] l
    by (simp add: Let_def log_stderr_def level_num_def demo_log_def)
  ultimately show ?thesis by blast
qed

end
