(* ===== verification/TF_System.thy ===== *)
theory TF_System
  imports TF_Log
begin

text \<open>
  The process functions of \<open>tf_system.c\<close>: the file with the process id, the change to a daemon and the choice of
  processors.  The system calls are an argument; a process that exits has no state any more.
\<close>

section \<open>The system\<close>

record 'w os =
  os_fopen :: "cstr \<Rightarrow> 'w \<Rightarrow> int option \<times> 'w"
  os_fputs :: "int \<Rightarrow> byte list \<Rightarrow> 'w \<Rightarrow> 'w"
  os_fclose :: "int \<Rightarrow> 'w \<Rightarrow> 'w"
  os_getpid :: "'w \<Rightarrow> nat"
  os_fork :: "'w \<Rightarrow> int \<times> 'w"
  os_setsid :: "'w \<Rightarrow> 'w"
  os_open :: "cstr \<Rightarrow> 'w \<Rightarrow> int \<times> 'w"
  os_dup2 :: "int \<Rightarrow> int \<Rightarrow> 'w \<Rightarrow> 'w"
  os_close :: "int \<Rightarrow> 'w \<Rightarrow> 'w"
  os_setaffinity :: "nat set \<Rightarrow> 'w \<Rightarrow> bool \<times> 'w"

section \<open>The process id and the daemon\<close>

definition create_pid_file :: "'w os \<Rightarrow> cstr \<Rightarrow> 'w \<Rightarrow> 'w" where
  "create_pid_file S filename w =
     (case os_fopen S filename w of
        (None, w) \<Rightarrow> w
      | (Some fp, w) \<Rightarrow> os_fclose S fp (os_fputs S fp (dec (os_getpid S w) @ [10]) w))"

text \<open>The parent exits, and so does a process that cannot fork.\<close>

definition daemonize :: "'w os \<Rightarrow> 'w \<Rightarrow> 'w option" where
  "daemonize S w =
     (let (r, w) = os_fork S w
      in if r \<noteq> 0 then None
         else let (fd, w) = os_open S (ascii ''/dev/null'') (os_setsid S w)
              in if fd \<noteq> - 1
                 then let w = os_dup2 S fd 2 (os_dup2 S fd 1 (os_dup2 S fd 0 w))
                      in Some (if fd > 2 then os_close S fd w else w)
                 else Some w)"

section \<open>Processors\<close>

lemma drop_bit_1_less: "drop_bit 1 (w :: u32) \<noteq> 0 \<Longrightarrow> unat (drop_bit 1 w) < unat w"
proof -
  assume "drop_bit 1 w \<noteq> 0"
  then have "unat w \<noteq> 0" by (auto simp: unat_eq_0)
  moreover have "unat (drop_bit 1 w) = unat w div 2" using unat_drop_bit_eq [of 1 w] by (simp add: drop_bit_eq_div)
  ultimately show ?thesis by simp
qed

function affinity_loop :: "u32 \<Rightarrow> nat \<Rightarrow> nat set \<Rightarrow> nat set" where
  "affinity_loop cpu i cpus =
     (let cpus = (if cpu AND 1 \<noteq> 0 then insert i cpus else cpus); cpu = drop_bit 1 cpu
      in if cpu \<noteq> 0 then affinity_loop cpu (i + 1) cpus else cpus)"
  by pat_completeness auto
termination
  by (relation "measure (\<lambda>(cpu, i, cpus). unat cpu)") (auto dest: drop_bit_1_less simp del: One_nat_def)

declare affinity_loop.simps [simp del]

definition setaffinity :: "'w os \<Rightarrow> u32 \<Rightarrow> 'w \<Rightarrow> bool \<times> 'w" where
  "setaffinity S cpu w = os_setaffinity S (affinity_loop cpu 0 {}) w"

lemma shifted_set: "{i + n | n. P n} = (if P 0 then {i} else {}) \<union> {i + 1 + n | n. P (Suc n)}"
proof (rule set_eqI)
  fix x
  have "(\<exists>n. P n \<and> x = i + n) \<longleftrightarrow> P 0 \<and> x = i \<or> (\<exists>n. P (Suc n) \<and> x = i + Suc n)" by (metis add_0_right not0_implies_Suc)
  then show "x \<in> {i + n | n. P n} \<longleftrightarrow> x \<in> (if P 0 then {i} else {}) \<union> {i + 1 + n | n. P (Suc n)}" by auto
qed

lemma affinity_loop_bits: "affinity_loop cpu i cpus = cpus \<union> {i + n | n. bit cpu n}"
proof (induction cpu i cpus rule: affinity_loop.induct)
  case (1 cpu i cpus)
  let ?c = "if cpu AND 1 \<noteq> 0 then insert i cpus else cpus"
  have z: "cpu AND 1 \<noteq> 0 \<longleftrightarrow> bit cpu 0" by (simp add: and_one_eq bit_0 odd_iff_mod_2_eq_one)
  have s: "{i + n | n. bit cpu n} = (if bit cpu 0 then {i} else {}) \<union> {i + 1 + n | n. bit (drop_bit 1 cpu) n}"
    using shifted_set [of i "bit cpu"] by (simp add: bit_drop_bit_eq)
  have "affinity_loop cpu i cpus = ?c \<union> {i + 1 + n | n. bit (drop_bit 1 cpu) n}"
  proof (cases "drop_bit 1 cpu = 0")
    case True
    then show ?thesis by (subst affinity_loop.simps) (simp add: Let_def)
  next
    case False
    then show ?thesis using 1 [OF refl refl] by (subst affinity_loop.simps) (simp only: Let_def if_True if_False not_False_eq_True)
  qed
  then show ?case unfolding s z by auto
qed

text \<open>The processors chosen are the bits of the argument.\<close>

lemma setaffinity_bits: "setaffinity S cpu w = os_setaffinity S {n. bit cpu n} w"
  by (simp add: setaffinity_def affinity_loop_bits)

text \<open>A process that cannot fork ends without a word.\<close>

lemma daemonize_no_fork: "os_fork S w = (- 1, w') \<Longrightarrow> daemonize S w = None"
  by (simp add: daemonize_def)

end
