(* ===== verification/TF_Net.thy ===== *)
theory TF_Net
  imports TF_Prelude "HOL-Library.Signed_Division"
begin

text \<open>
  The socket functions of \<open>tf_socket.c\<close>.  The system calls are an argument, a record of functions on
  the state of the system; a call that fails yields its error number where the code looks at it.
  Addresses and ports are kept in network order inside a socket address, as the code stores them, and
  the machine is little-endian.  Messages that go to the log are left out.
\<close>

section \<open>The system calls\<close>

datatype errno = EINTR | EAGAIN | EINPROGRESS | E_Other

datatype net_domain = AF_INET | AF_LOCAL

datatype sockopt =
  SO_KEEPALIVE | TCP_KEEPIDLE | TCP_KEEPINTVL | TCP_KEEPCNT | TCP_NODELAY | SO_SNDBUF | SO_REUSEADDR

text \<open>A port and an address in network order; the path of a local socket, 108 bytes.\<close>

datatype sockaddr = Sockaddr_In u16 u32 | Sockaddr_Un region

record 'w net =
  nt_socket :: "net_domain \<Rightarrow> 'w \<Rightarrow> (errno + int) \<times> 'w"
  nt_setopt :: "int \<Rightarrow> sockopt \<Rightarrow> int \<Rightarrow> 'w \<Rightarrow> bool \<times> 'w"
  nt_getfl :: "int \<Rightarrow> 'w \<Rightarrow> (errno + u32) \<times> 'w"
  nt_setfl :: "int \<Rightarrow> u32 \<Rightarrow> 'w \<Rightarrow> bool \<times> 'w"
  nt_connect :: "int \<Rightarrow> sockaddr \<Rightarrow> 'w \<Rightarrow> errno option \<times> 'w"
  nt_bind :: "int \<Rightarrow> sockaddr \<Rightarrow> 'w \<Rightarrow> bool \<times> 'w"
  nt_listen :: "int \<Rightarrow> int \<Rightarrow> 'w \<Rightarrow> bool \<times> 'w"
  nt_accept :: "int \<Rightarrow> 'w \<Rightarrow> (errno + int \<times> sockaddr) \<times> 'w"
  nt_close :: "int \<Rightarrow> 'w \<Rightarrow> 'w"
  nt_read :: "int \<Rightarrow> nat \<Rightarrow> 'w \<Rightarrow> (errno + byte list) \<times> 'w"
  nt_write :: "int \<Rightarrow> byte list \<Rightarrow> 'w \<Rightarrow> (errno + nat) \<times> 'w"
  nt_peername :: "int \<Rightarrow> 'w \<Rightarrow> (errno + sockaddr) \<times> 'w"
  nt_chmod :: "region \<Rightarrow> u32 \<Rightarrow> 'w \<Rightarrow> 'w"
  nt_gethost :: "cstr \<Rightarrow> 'w \<Rightarrow> u32 option \<times> 'w"
  nt_aton :: "cstr \<Rightarrow> u32 option"
  nt_ntoa :: "u32 \<Rightarrow> cstr"
  nt_pton :: "cstr \<Rightarrow> errno + u32 option"

abbreviation (input) TFNET_ERR :: int where "TFNET_ERR \<equiv> - 1"

section \<open>Byte order\<close>

definition htons :: "u16 \<Rightarrow> u16" where
  "htons x = push_bit 8 x OR drop_bit 8 x"

definition htonl :: "u32 \<Rightarrow> u32" where
  "htonl x = push_bit 24 x OR push_bit 8 (x AND 0xff00) OR (drop_bit 8 x AND 0xff00) OR drop_bit 24 x"

definition bytes16 :: "u16 \<Rightarrow> byte list" where
  "bytes16 x = [ucast x, ucast (drop_bit 8 x)]"

definition bytes32 :: "u32 \<Rightarrow> byte list" where
  "bytes32 x = [ucast x, ucast (drop_bit 8 x), ucast (drop_bit 16 x), ucast (drop_bit 24 x)]"

fun word16 :: "byte list \<Rightarrow> u16" where
  "word16 [a, b] = ucast a OR push_bit 8 (ucast b)"
| "word16 _ = 0"

fun word32 :: "byte list \<Rightarrow> u32" where
  "word32 [a, b, c, d] = ucast a OR push_bit 8 (ucast b) OR push_bit 16 (ucast c) OR push_bit 24 (ucast d)"
| "word32 _ = 0"

definition net16cpy :: "byte list \<Rightarrow> nat \<Rightarrow> c_error + u16" where
  "net16cpy buf off = rbind (slice buf off 2) (\<lambda>bs. Inr (htons (word16 bs)))"

definition net32cpy :: "byte list \<Rightarrow> nat \<Rightarrow> c_error + u32" where
  "net32cpy buf off = rbind (slice buf off 4) (\<lambda>bs. Inr (htonl (word32 bs)))"

definition host16cpy :: "byte list \<Rightarrow> nat \<Rightarrow> u16 \<Rightarrow> c_error + byte list" where
  "host16cpy buf off src = blit buf off (bytes16 (htons src))"

definition host32cpy :: "byte list \<Rightarrow> nat \<Rightarrow> u32 \<Rightarrow> c_error + byte list" where
  "host32cpy buf off src = blit buf off (bytes32 (htonl src))"

section \<open>Options\<close>

definition O_NONBLOCK :: u32 where "O_NONBLOCK = 0x800"

definition tfnet_nonblock :: "'w net \<Rightarrow> int \<Rightarrow> 'w \<Rightarrow> bool \<times> 'w" where
  "tfnet_nonblock N fd w =
     (case nt_getfl N fd w of
        (Inl _, w) \<Rightarrow> (False, w)
      | (Inr flags, w) \<Rightarrow> nt_setfl N fd (flags OR O_NONBLOCK) w)"

text \<open>The system is Linux: the interval is set as well.\<close>

definition tfnet_keepalive :: "'w net \<Rightarrow> int \<Rightarrow> int \<Rightarrow> 'w \<Rightarrow> bool \<times> 'w" where
  "tfnet_keepalive N fd interval w =
     (case nt_setopt N fd SO_KEEPALIVE 1 w of (ok, w) \<Rightarrow> if \<not> ok then (False, w)
      else case nt_setopt N fd TCP_KEEPIDLE interval w of (ok, w) \<Rightarrow> if \<not> ok then (False, w)
      else let val = interval sdiv 3; val = (if val = 0 then 1 else val)
      in case nt_setopt N fd TCP_KEEPINTVL val w of (ok, w) \<Rightarrow> if \<not> ok then (False, w)
      else case nt_setopt N fd TCP_KEEPCNT 3 w of (ok, w) \<Rightarrow> if \<not> ok then (False, w) else (True, w))"

definition tfnet_tcp_nodelay :: "'w net \<Rightarrow> int \<Rightarrow> int \<Rightarrow> 'w \<Rightarrow> bool \<times> 'w" where
  "tfnet_tcp_nodelay N fd val w = nt_setopt N fd TCP_NODELAY val w"

definition tfnet_enable_tcp_nodelay :: "'w net \<Rightarrow> int \<Rightarrow> 'w \<Rightarrow> bool \<times> 'w" where
  "tfnet_enable_tcp_nodelay N fd w = tfnet_tcp_nodelay N fd 1 w"

definition tfnet_disable_tcp_nodelay :: "'w net \<Rightarrow> int \<Rightarrow> 'w \<Rightarrow> bool \<times> 'w" where
  "tfnet_disable_tcp_nodelay N fd w = tfnet_tcp_nodelay N fd 0 w"

definition tfnet_set_send_buffer :: "'w net \<Rightarrow> int \<Rightarrow> int \<Rightarrow> 'w \<Rightarrow> bool \<times> 'w" where
  "tfnet_set_send_buffer N fd buffsize w = nt_setopt N fd SO_SNDBUF buffsize w"

definition tfnet_tcp_keepalive :: "'w net \<Rightarrow> int \<Rightarrow> 'w \<Rightarrow> bool \<times> 'w" where
  "tfnet_tcp_keepalive N fd w = nt_setopt N fd SO_KEEPALIVE 1 w"

section \<open>Creating sockets\<close>

text \<open>The address of a host, numeric or looked up.\<close>

definition host_addr :: "'w net \<Rightarrow> cstr \<Rightarrow> 'w \<Rightarrow> u32 option \<times> 'w" where
  "host_addr N host w = (case nt_aton N host of Some a \<Rightarrow> (Some a, w) | None \<Rightarrow> nt_gethost N host w)"

definition tfnet_resolve :: "'w net \<Rightarrow> cstr \<Rightarrow> 'w \<Rightarrow> cstr option \<times> 'w" where
  "tfnet_resolve N host w =
     (case host_addr N host w of (None, w) \<Rightarrow> (None, w) | (Some a, w) \<Rightarrow> (Some (nt_ntoa N a), w))"

definition tfnet_create_socket :: "'w net \<Rightarrow> net_domain \<Rightarrow> 'w \<Rightarrow> int \<times> 'w" where
  "tfnet_create_socket N domain w =
     (case nt_socket N domain w of
        (Inl _, w) \<Rightarrow> (TFNET_ERR, w)
      | (Inr s, w) \<Rightarrow>
          (case nt_setopt N s SO_REUSEADDR 1 w of (ok, w) \<Rightarrow> if ok then (s, w) else (TFNET_ERR, w)))"

text \<open>
  What the three functions that connect have in common, once the address is known.  A refused
  connection is logged with the address as a string; \<open>loggable\<close> tells whether it is one.
\<close>

definition connect_to :: "'w net \<Rightarrow> bool \<Rightarrow> int \<Rightarrow> sockaddr \<Rightarrow> bool \<Rightarrow> 'w \<Rightarrow> c_error + int \<times> 'w" where
  "connect_to N loggable s sa nonblock w =
     (case (if nonblock then tfnet_nonblock N s w else (True, w)) of
        (False, w) \<Rightarrow> Inr (TFNET_ERR, w)
      | (True, w) \<Rightarrow>
          (case nt_connect N s sa w of
             (None, w) \<Rightarrow> Inr (s, w)
           | (Some e, w) \<Rightarrow>
               if e = EINPROGRESS \<and> nonblock then Inr (s, w)
               else if \<not> loggable then Inl Wrong_Argument
               else Inr (TFNET_ERR, nt_close N s w)))"

definition port16 :: "int \<Rightarrow> u16" where
  "port16 port = htons (word_of_int port)"

definition tfnet_tcp_generic_connect :: "'w net \<Rightarrow> cstr \<Rightarrow> int \<Rightarrow> bool \<Rightarrow> 'w \<Rightarrow> c_error + int \<times> 'w" where
  "tfnet_tcp_generic_connect N addr port nonblock w =
     (case tfnet_create_socket N AF_INET w of (s, w) \<Rightarrow>
        if s = TFNET_ERR then Inr (TFNET_ERR, w)
        else case host_addr N addr w of
               (None, w) \<Rightarrow> Inr (TFNET_ERR, nt_close N s w)
             | (Some a, w) \<Rightarrow> connect_to N True s (Sockaddr_In (port16 port) a) nonblock w)"

definition tfnet_tcp_generic_connect2 :: "'w net \<Rightarrow> u32 \<Rightarrow> int \<Rightarrow> bool \<Rightarrow> 'w \<Rightarrow> c_error + int \<times> 'w" where
  "tfnet_tcp_generic_connect2 N addr port nonblock w =
     (case tfnet_create_socket N AF_INET w of (s, w) \<Rightarrow>
        if s = TFNET_ERR then Inr (TFNET_ERR, w)
        else connect_to N False s (Sockaddr_In (port16 port) (htonl addr)) nonblock w)"

definition tfnet_tcp_connect :: "'w net \<Rightarrow> cstr \<Rightarrow> int \<Rightarrow> 'w \<Rightarrow> c_error + int \<times> 'w" where
  "tfnet_tcp_connect N addr port w = tfnet_tcp_generic_connect N addr port False w"

definition tfnet_tcp_connect2 :: "'w net \<Rightarrow> u32 \<Rightarrow> int \<Rightarrow> 'w \<Rightarrow> c_error + int \<times> 'w" where
  "tfnet_tcp_connect2 N addr port w = tfnet_tcp_generic_connect2 N addr port False w"

definition tfnet_tcp_nonblock_connect :: "'w net \<Rightarrow> cstr \<Rightarrow> int \<Rightarrow> 'w \<Rightarrow> c_error + int \<times> 'w" where
  "tfnet_tcp_nonblock_connect N addr port w = tfnet_tcp_generic_connect N addr port True w"

definition tfnet_tcp_nonblock_connect2 :: "'w net \<Rightarrow> u32 \<Rightarrow> int \<Rightarrow> 'w \<Rightarrow> c_error + int \<times> 'w" where
  "tfnet_tcp_nonblock_connect2 N addr port w = tfnet_tcp_generic_connect2 N addr port True w"

text \<open>\<open>strncpy\<close> of at most 107 bytes, padded with zeros; the last byte of the array keeps its old value.\<close>

definition sun_path :: "byte option \<Rightarrow> cstr \<Rightarrow> region" where
  "sun_path last_byte path = map Some (take 107 path) @ replicate (107 - length path) (Some 0) @ [last_byte]"

definition tfnet_unix_generic_connect :: "'w net \<Rightarrow> cstr \<Rightarrow> bool \<Rightarrow> 'w \<Rightarrow> c_error + int \<times> 'w" where
  "tfnet_unix_generic_connect N path nonblock w =
     (case tfnet_create_socket N AF_LOCAL w of (s, w) \<Rightarrow>
        if s = TFNET_ERR then Inr (TFNET_ERR, w)
        else connect_to N True s (Sockaddr_Un (sun_path None path)) nonblock w)"

definition tfnet_unix_connect :: "'w net \<Rightarrow> cstr \<Rightarrow> 'w \<Rightarrow> c_error + int \<times> 'w" where
  "tfnet_unix_connect N path w = tfnet_unix_generic_connect N path False w"

definition tfnet_unix_nonblock_connect :: "'w net \<Rightarrow> cstr \<Rightarrow> 'w \<Rightarrow> c_error + int \<times> 'w" where
  "tfnet_unix_nonblock_connect N path w = tfnet_unix_generic_connect N path True w"

section \<open>Reading and writing\<close>

text \<open>
  A call that is interrupted or would block is tried again, twenty times in all; the end of the stream
  is a failure.  \<open>got\<close> is what was read so far; it is in the buffer after a failure, too.
\<close>

function read_loop :: "'w net \<Rightarrow> int \<Rightarrow> nat \<Rightarrow> byte list \<Rightarrow> nat \<Rightarrow> 'w \<Rightarrow> c_error + (bool \<times> byte list) \<times> 'w" where
  "read_loop N fd count got loop w =
     (if length got = count then Inr ((True, got), w)
      else case nt_read N fd (count - length got) w of
        (Inr bs, w) \<Rightarrow>
          if bs = [] then Inr ((False, got), w)
          else if count - length got < length bs then Inl Out_Of_Bounds
          else read_loop N fd count (got @ bs) loop w
      | (Inl e, w) \<Rightarrow>
          if e = EAGAIN \<or> e = EINTR
          then (if loop + 1 > 20 then Inr ((False, got), w) else read_loop N fd count got (loop + 1) w)
          else Inr ((False, got), w))"
  by pat_completeness auto
termination
  by (relation "measures [\<lambda>(N, fd, count, got, loop, w). 20 - loop, \<lambda>(N, fd, count, got, loop, w). count - length got]")
    (auto simp: neq_Nil_conv)

definition tfnet_read :: "'w net \<Rightarrow> int \<Rightarrow> nat \<Rightarrow> 'w \<Rightarrow> c_error + (bool \<times> byte list) \<times> 'w" where
  "tfnet_read N fd count w = read_loop N fd count [] 0 w"

text \<open>The bytes that are left to write; a count above what was asked for would move the pointer out of the buffer.\<close>

function write_loop :: "'w net \<Rightarrow> int \<Rightarrow> byte list \<Rightarrow> nat \<Rightarrow> 'w \<Rightarrow> c_error + bool \<times> 'w" where
  "write_loop N fd buf loop w =
     (if buf = [] then Inr (True, w)
      else case nt_write N fd buf w of
        (Inr n, w) \<Rightarrow>
          if n = 0 then Inr (False, w)
          else if length buf < n then Inl Out_Of_Bounds
          else write_loop N fd (drop n buf) loop w
      | (Inl e, w) \<Rightarrow>
          if e = EAGAIN \<or> e = EINTR
          then (if loop + 1 > 20 then Inr (False, w) else write_loop N fd buf (loop + 1) w)
          else Inr (False, w))"
  by pat_completeness auto
termination
  by (relation "measures [\<lambda>(N, fd, buf, loop, w). 20 - loop, \<lambda>(N, fd, buf, loop, w). length buf]") auto

definition tfnet_write :: "'w net \<Rightarrow> int \<Rightarrow> byte list \<Rightarrow> 'w \<Rightarrow> c_error + bool \<times> 'w" where
  "tfnet_write N fd buf w = write_loop N fd buf 0 w"

declare read_loop.simps [simp del] write_loop.simps [simp del]

section \<open>Servers\<close>

definition tfnet_listen :: "'w net \<Rightarrow> int \<Rightarrow> sockaddr \<Rightarrow> 'w \<Rightarrow> bool \<times> 'w" where
  "tfnet_listen N s sa w =
     (case nt_bind N s sa w of
        (False, w) \<Rightarrow> (False, nt_close N s w)
      | (True, w) \<Rightarrow>
          (case nt_listen N s 511 w of (False, w) \<Rightarrow> (False, nt_close N s w) | (True, w) \<Rightarrow> (True, w)))"

definition serve_on :: "'w net \<Rightarrow> int \<Rightarrow> sockaddr \<Rightarrow> 'w \<Rightarrow> int \<times> 'w" where
  "serve_on N s sa w = (case tfnet_listen N s sa w of (ok, w) \<Rightarrow> (if ok then s else TFNET_ERR, w))"

definition tfnet_tcp_server :: "'w net \<Rightarrow> int \<Rightarrow> cstr option \<Rightarrow> 'w \<Rightarrow> int \<times> 'w" where
  "tfnet_tcp_server N port bindaddr w =
     (case tfnet_create_socket N AF_INET w of (s, w) \<Rightarrow>
        if s = TFNET_ERR then (TFNET_ERR, w)
        else case (case bindaddr of None \<Rightarrow> Some 0 | Some b \<Rightarrow> nt_aton N b) of
               None \<Rightarrow> (TFNET_ERR, nt_close N s w)
             | Some a \<Rightarrow> serve_on N s (Sockaddr_In (port16 port) a) w)"

definition tfnet_tcp_server2 :: "'w net \<Rightarrow> int \<Rightarrow> u32 \<Rightarrow> 'w \<Rightarrow> int \<times> 'w" where
  "tfnet_tcp_server2 N port ip w =
     (case tfnet_create_socket N AF_INET w of (s, w) \<Rightarrow>
        if s = TFNET_ERR then (TFNET_ERR, w)
        else serve_on N s (Sockaddr_In (port16 port) (htonl ip)) w)"

definition tfnet_unix_server :: "'w net \<Rightarrow> cstr \<Rightarrow> u32 \<Rightarrow> 'w \<Rightarrow> int \<times> 'w" where
  "tfnet_unix_server N path perm w =
     (case tfnet_create_socket N AF_LOCAL w of (s, w) \<Rightarrow>
        if s = TFNET_ERR then (TFNET_ERR, w)
        else case serve_on N s (Sockaddr_Un (sun_path (Some 0) path)) w of (r, w) \<Rightarrow>
               (r, if r \<noteq> TFNET_ERR \<and> perm \<noteq> 0 then nt_chmod N (sun_path (Some 0) path) perm w else w))"

text \<open>An interrupted \<open>accept\<close> is tried again, as often as it is interrupted.\<close>

partial_function (option) tfnet_generic_accept ::
    "'w net \<Rightarrow> int \<Rightarrow> 'w \<Rightarrow> ((int \<times> sockaddr) option \<times> 'w) option" where
  "tfnet_generic_accept N s w =
     (case nt_accept N s w of
        (Inl e, w) \<Rightarrow> if e = EINTR then tfnet_generic_accept N s w else Some (None, w)
      | (Inr c, w) \<Rightarrow> Some (Some c, w))"

text \<open>The address and the port of a peer, in host order; a local socket has none.\<close>

definition in_addr :: "sockaddr \<Rightarrow> u32" where
  "in_addr sa = (case sa of Sockaddr_In p a \<Rightarrow> a | Sockaddr_Un _ \<Rightarrow> 0)"

definition in_port :: "sockaddr \<Rightarrow> u16" where
  "in_port sa = (case sa of Sockaddr_In p a \<Rightarrow> p | Sockaddr_Un _ \<Rightarrow> 0)"

definition tfnet_tcp_accept :: "'w net \<Rightarrow> int \<Rightarrow> 'w \<Rightarrow> ((int \<times> cstr \<times> u16) option \<times> 'w) option" where
  "tfnet_tcp_accept N s w =
     map_option (\<lambda>(r, w). (map_option (\<lambda>(fd, sa). (fd, nt_ntoa N (in_addr sa), htons (in_port sa))) r, w))
       (tfnet_generic_accept N s w)"

definition tfnet_tcp_accept2 :: "'w net \<Rightarrow> int \<Rightarrow> 'w \<Rightarrow> ((int \<times> u32 \<times> u16) option \<times> 'w) option" where
  "tfnet_tcp_accept2 N s w =
     map_option (\<lambda>(r, w). (map_option (\<lambda>(fd, sa). (fd, htonl (in_addr sa), htons (in_port sa))) r, w))
       (tfnet_generic_accept N s w)"

definition tfnet_unix_accept :: "'w net \<Rightarrow> int \<Rightarrow> 'w \<Rightarrow> (int \<times> 'w) option" where
  "tfnet_unix_accept N s w =
     map_option (\<lambda>(r, w). (case r of None \<Rightarrow> TFNET_ERR | Some (fd, _) \<Rightarrow> fd, w)) (tfnet_generic_accept N s w)"

definition tfnet_sock_peer :: "'w net \<Rightarrow> int \<Rightarrow> 'w \<Rightarrow> (bool \<times> cstr \<times> u16) \<times> 'w" where
  "tfnet_sock_peer N fd w =
     (case nt_peername N fd w of
        (Inl _, w) \<Rightarrow> ((False, [63], 0), w)
      | (Inr sa, w) \<Rightarrow> ((True, nt_ntoa N (in_addr sa), htons (in_port sa)), w))"

section \<open>Addresses as text\<close>

text \<open>
  \<open>inet_pton\<close> is negative for an unknown family only; for a text that is not an address it is zero and
  stores nothing, and the structure is read all the same.
\<close>

definition tfnet_pton :: "'w net \<Rightarrow> cstr \<Rightarrow> c_error + u32" where
  "tfnet_pton N src =
     (case nt_pton N src of
        Inl _ \<Rightarrow> Inr 0
      | Inr None \<Rightarrow> Inl Uninitialised
      | Inr (Some a) \<Rightarrow> Inr (htonl a))"

definition tfnet_ntop :: "'w net \<Rightarrow> u32 \<Rightarrow> cstr" where
  "tfnet_ntop N addr = nt_ntoa N (htonl addr)"

section \<open>Byte order: facts\<close>

lemma bit_u16: "bit (x :: u16) n \<Longrightarrow> n < 16"
  using bit_imp_le_length [of x n] by simp

lemma bit_u32: "bit (x :: u32) n \<Longrightarrow> n < 32"
  using bit_imp_le_length [of x n] by simp

lemma bit_word16: "bit (word16 [a, b]) n \<longleftrightarrow> (if n < 8 then bit a n else bit b (n - 8))"
  by (auto simp: bit_simps dest: bit_byte)

lemma bit_word32:
  "bit (word32 [a, b, c, d]) n \<longleftrightarrow>
     (if n < 8 then bit a n else if n < 16 then bit b (n - 8) else if n < 24 then bit c (n - 16) else bit d (n - 24))"
  by (auto simp: bit_simps dest: bit_byte)

lemma bit_htons: "bit (htons x) n \<longleftrightarrow> (if n < 8 then bit x (8 + n) else n < 16 \<and> bit x (n - 8))"
  by (auto simp: htons_def bit_simps dest: bit_u16)

lemma mask_ff00: "(0xff00 :: u32) = push_bit 8 (mask 8)"
  by (simp add: mask_eq_exp_minus_1)

lemma bit_htonl:
  "bit (htonl x) n \<longleftrightarrow>
     (if n < 8 then bit x (24 + n) else if n < 16 then bit x (8 + n)
      else if n < 24 then bit x (n - 8) else n < 32 \<and> bit x (n - 24))"
  unfolding htonl_def mask_ff00 by (auto simp: bit_simps dest: bit_u32)

lemma word16_bytes16: "word16 (bytes16 x) = x"
  unfolding bytes16_def by (rule bit_word_eqI) (auto simp: bit_word16 bit_simps simp del: word16.simps)

lemma word32_bytes32: "word32 (bytes32 x) = x"
  unfolding bytes32_def by (rule bit_word_eqI) (auto simp: bit_word32 bit_simps simp del: word32.simps)

text \<open>The bytes that are sent are those of the number, the most significant one first.\<close>

definition big16 :: "u16 \<Rightarrow> byte list" where
  "big16 x = [ucast (drop_bit 8 x), ucast x]"

definition big32 :: "u32 \<Rightarrow> byte list" where
  "big32 x = [ucast (drop_bit 24 x), ucast (drop_bit 16 x), ucast (drop_bit 8 x), ucast x]"

lemma length_big [simp]: "length (big16 x) = 2" "length (big32 y) = 4"
  by (simp_all add: big16_def big32_def)

lemma bytes_htons: "bytes16 (htons x) = big16 x"
  by (auto simp: bytes16_def big16_def bit_htons bit_simps intro!: bit_word_eqI)

lemma bytes_htonl: "bytes32 (htonl x) = big32 x"
  by (auto simp: bytes32_def big32_def bit_htonl bit_simps ac_simps intro!: bit_word_eqI)

lemma htons_htons: "htons (htons x) = x"
  by (rule bit_word_eqI) (auto simp: bit_htons)

lemma htonl_htonl: "htonl (htonl x) = x"
  by (rule bit_word_eqI) (auto simp: bit_htonl)

lemma htons_word16: "htons (word16 (big16 x)) = x"
  using word16_bytes16 [of "htons x"] by (simp add: bytes_htons htons_htons)

lemma htonl_word32: "htonl (word32 (big32 x)) = x"
  using word32_bytes32 [of "htonl x"] by (simp add: bytes_htonl htonl_htonl)

lemma host16cpy_ok: "off + 2 \<le> length buf \<Longrightarrow> host16cpy buf off x = Inr (take off buf @ big16 x @ drop (off + 2) buf)"
  by (simp add: host16cpy_def bytes_htons)

lemma host32cpy_ok: "off + 4 \<le> length buf \<Longrightarrow> host32cpy buf off x = Inr (take off buf @ big32 x @ drop (off + 4) buf)"
  by (simp add: host32cpy_def bytes_htonl)

lemma net16cpy_ok: "length p = off \<Longrightarrow> net16cpy (p @ big16 x @ r) off = Inr x"
  by (simp add: net16cpy_def htons_word16 del: word16.simps)

lemma net32cpy_ok: "length p = off \<Longrightarrow> net32cpy (p @ big32 x @ r) off = Inr x"
  by (simp add: net32cpy_def htonl_word32 del: word32.simps)

section \<open>What the system promises\<close>

text \<open>
  \<open>rest\<close> is what will still arrive on a descriptor: a read takes a prefix of it that is not longer than
  asked for, or nothing when it fails.  \<open>out\<close> is what was sent, and a write sends a prefix.
\<close>

definition nt_read_doc :: "'w net \<Rightarrow> ('w \<Rightarrow> int \<Rightarrow> byte list) \<Rightarrow> int \<Rightarrow> bool" where
  "nt_read_doc N rest fd \<longleftrightarrow>
     (\<forall>n w. case nt_read N fd n w of
        (Inl e, w') \<Rightarrow> rest w' fd = rest w fd
      | (Inr bs, w') \<Rightarrow> length bs \<le> n \<and> rest w fd = bs @ rest w' fd)"

definition nt_write_doc :: "'w net \<Rightarrow> ('w \<Rightarrow> int \<Rightarrow> byte list) \<Rightarrow> int \<Rightarrow> bool" where
  "nt_write_doc N out fd \<longleftrightarrow>
     (\<forall>buf w. case nt_write N fd buf w of
        (Inl e, w') \<Rightarrow> out w' fd = out w fd
      | (Inr n, w') \<Rightarrow> n \<le> length buf \<and> out w' fd = out w fd @ take n buf)"

text \<open>Data that has arrived is delivered without a failure, at least one byte at a time.\<close>

definition nt_read_steady :: "'w net \<Rightarrow> ('w \<Rightarrow> int \<Rightarrow> byte list) \<Rightarrow> int \<Rightarrow> bool" where
  "nt_read_steady N rest fd \<longleftrightarrow>
     (\<forall>n w. 0 < n \<longrightarrow> rest w fd \<noteq> [] \<longrightarrow> (case fst (nt_read N fd n w) of Inl e \<Rightarrow> False | Inr bs \<Rightarrow> bs \<noteq> []))"

lemma nt_read_docD:
  assumes "nt_read_doc N rest fd"
  shows "nt_read N fd n w = (Inl e, w') \<Longrightarrow> rest w' fd = rest w fd"
    and "nt_read N fd n w = (Inr bs, w') \<Longrightarrow> length bs \<le> n \<and> rest w fd = bs @ rest w' fd"
proof -
  have "case nt_read N fd n w of (Inl e, w') \<Rightarrow> rest w' fd = rest w fd
      | (Inr bs, w') \<Rightarrow> length bs \<le> n \<and> rest w fd = bs @ rest w' fd"
    using assms by (simp add: nt_read_doc_def)
  then show "nt_read N fd n w = (Inl e, w') \<Longrightarrow> rest w' fd = rest w fd"
    "nt_read N fd n w = (Inr bs, w') \<Longrightarrow> length bs \<le> n \<and> rest w fd = bs @ rest w' fd" by simp_all
qed

lemma nt_write_docD:
  assumes "nt_write_doc N out fd"
  shows "nt_write N fd buf w = (Inl e, w') \<Longrightarrow> out w' fd = out w fd"
    and "nt_write N fd buf w = (Inr n, w') \<Longrightarrow> n \<le> length buf \<and> out w' fd = out w fd @ take n buf"
proof -
  have "case nt_write N fd buf w of (Inl e, w') \<Rightarrow> out w' fd = out w fd
      | (Inr n, w') \<Rightarrow> n \<le> length buf \<and> out w' fd = out w fd @ take n buf"
    using assms by (simp add: nt_write_doc_def)
  then show "nt_write N fd buf w = (Inl e, w') \<Longrightarrow> out w' fd = out w fd"
    "nt_write N fd buf w = (Inr n, w') \<Longrightarrow> n \<le> length buf \<and> out w' fd = out w fd @ take n buf" by simp_all
qed

lemma nt_read_steadyD:
  assumes "nt_read_steady N rest fd" "0 < n" "rest w fd \<noteq> []"
  shows "\<exists>bs w'. nt_read N fd n w = (Inr bs, w') \<and> bs \<noteq> []"
proof -
  have "case fst (nt_read N fd n w) of Inl e \<Rightarrow> False | Inr bs \<Rightarrow> bs \<noteq> []"
    using assms unfolding nt_read_steady_def by blast
  then show ?thesis by (cases "nt_read N fd n w"; cases "fst (nt_read N fd n w)") auto
qed

text \<open>
  What a read of \<open>n\<close> bytes leaves: all of them were taken from the stream, or fewer, which are lost, and
  then not enough had arrived if the system is steady.
\<close>

definition read_post ::
    "'w net \<Rightarrow> ('w \<Rightarrow> int \<Rightarrow> byte list) \<Rightarrow> int \<Rightarrow> nat \<Rightarrow> 'w \<Rightarrow> bool \<Rightarrow> byte list \<Rightarrow> 'w \<Rightarrow> bool" where
  "read_post N rest fd n w ok bs w' \<longleftrightarrow> rest w fd = bs @ rest w' fd \<and>
     (if ok then length bs = n
      else length bs < n \<and> (nt_read_steady N rest fd \<longrightarrow> length (rest w fd) < n))"

lemma read_post_same: "rest w1 fd = rest w fd \<Longrightarrow> read_post N rest fd n w1 ok bs w' = read_post N rest fd n w ok bs w'"
  by (simp add: read_post_def)

lemma read_loop_ok:
  "nt_read_doc N rest fd \<Longrightarrow> length got \<le> count \<Longrightarrow>
     \<exists>ok bs w'. read_loop N fd count got loop w = Inr ((ok, got @ bs), w') \<and>
       read_post N rest fd (count - length got) w ok bs w'"
proof (induction N fd count got loop w rule: read_loop.induct)
  case (1 N fd count got loop w)
  show ?case
  proof (cases "length got = count")
    case True
    then show ?thesis
      by (intro exI [of _ True] exI [of _ "[]"] exI [of _ w]) (simp add: read_loop.simps read_post_def)
  next
    case False
    then have lt: "0 < count - length got" using "1.prems"(2) by simp
    obtain res w1 where w1: "nt_read N fd (count - length got) w = (res, w1)" by fastforce
    note steady = nt_read_steadyD [OF _ lt, of N rest fd w]
    have stop: "\<exists>ok bs w'. read_loop N fd count got loop w = Inr ((ok, got @ bs), w') \<and>
        read_post N rest fd (count - length got) w ok bs w'"
      if "read_loop N fd count got loop w = Inr ((False, got), w1)" "rest w1 fd = rest w fd"
        "nt_read_steady N rest fd \<Longrightarrow> rest w fd = []"
      using that lt by (intro exI [of _ False] exI [of _ "[]"] exI [of _ w1]) (auto simp: read_post_def)
    show ?thesis
    proof (cases res)
      case (Inl e)
      note same = nt_read_docD(1) [OF "1.prems"(1) w1 [unfolded Inl]]
      show ?thesis
      proof (cases "(e = EAGAIN \<or> e = EINTR) \<and> loop + 1 \<le> 20")
        case True
        then have "read_loop N fd count got loop w = read_loop N fd count got (loop + 1) w1"
          using False w1 Inl by (subst read_loop.simps) simp
        then show ?thesis using "1.IH"(1) [OF False w1 [symmetric] Inl] True "1.prems"
            read_post_same [of rest w1 fd w, OF same]
          by simp
      next
        case r: False
        then show ?thesis using False w1 Inl steady same by (intro stop) (subst read_loop.simps, auto)
      qed
    next
      case (Inr bs)
      note b = nt_read_docD(2) [OF "1.prems"(1) w1 [unfolded Inr]]
      show ?thesis
      proof (cases "bs = []")
        case True
        then show ?thesis using False w1 Inr steady b by (intro stop) (subst read_loop.simps, auto)
      next
        case ne: False
        have "read_loop N fd count got loop w = read_loop N fd count (got @ bs) loop w1"
          using False w1 Inr ne b by (subst read_loop.simps) simp
        moreover obtain ok cs w' where r: "read_loop N fd count (got @ bs) loop w1 = Inr ((ok, (got @ bs) @ cs), w')"
            "read_post N rest fd (count - length (got @ bs)) w1 ok cs w'"
          using "1.IH"(2) [OF False w1 [symmetric] Inr ne _ "1.prems"(1)] b "1.prems"(2) by fastforce
        ultimately show ?thesis using b lt
          by (intro exI [of _ ok] exI [of _ "bs @ cs"] exI [of _ w']) (auto simp: read_post_def split: if_splits)
      qed
    qed
  qed
qed

lemma tfnet_read_ok:
  assumes "nt_read_doc N rest fd"
  shows "\<exists>ok bs w'. tfnet_read N fd n w = Inr ((ok, bs), w') \<and> read_post N rest fd n w ok bs w'"
  using read_loop_ok [OF assms, of "[]" n 0 w] by (simp add: tfnet_read_def)

text \<open>The same for a write: everything was sent, or a proper prefix.\<close>

lemma write_loop_ok:
  "nt_write_doc N out fd \<Longrightarrow>
     \<exists>ok w' k. write_loop N fd buf loop w = Inr (ok, w') \<and> out w' fd = out w fd @ take k buf \<and>
       (if ok then k = length buf else k < length buf)"
proof (induction N fd buf loop w rule: write_loop.induct)
  case (1 N fd buf loop w)
  show ?case
  proof (cases "buf = []")
    case True
    then show ?thesis by (intro exI [of _ True] exI [of _ w] exI [of _ 0]) (simp add: write_loop.simps)
  next
    case False
    have fail: "\<exists>ok w' k. write_loop N fd buf loop w = Inr (ok, w') \<and> out w' fd = out w fd @ take k buf \<and>
        (if ok then k = length buf else k < length buf)"
      if "write_loop N fd buf loop w = Inr (False, w1)" "out w1 fd = out w fd" for w1
      using that False by (intro exI [of _ False] exI [of _ w1] exI [of _ 0]) simp
    obtain res w1 where w1: "nt_write N fd buf w = (res, w1)" by fastforce
    show ?thesis
    proof (cases res)
      case (Inl e)
      note same = nt_write_docD(1) [OF "1.prems" w1 [unfolded Inl]]
      show ?thesis
      proof (cases "(e = EAGAIN \<or> e = EINTR) \<and> loop + 1 \<le> 20")
        case True
        then have "write_loop N fd buf loop w = write_loop N fd buf (loop + 1) w1"
          using False w1 Inl by (subst write_loop.simps) simp
        then show ?thesis using "1.IH"(1) [OF False w1 [symmetric] Inl] True "1.prems" same by simp
      next
        case r: False
        then show ?thesis using False w1 Inl by (intro fail [OF _ same]) (subst write_loop.simps, auto)
      qed
    next
      case (Inr n)
      note b = nt_write_docD(2) [OF "1.prems" w1 [unfolded Inr]]
      show ?thesis
      proof (cases "n = 0")
        case True
        then show ?thesis using False w1 Inr b by (intro fail [of w1]) (subst write_loop.simps, simp_all)
      next
        case n: False
        have "write_loop N fd buf loop w = write_loop N fd (drop n buf) loop w1"
          using False w1 Inr n b by (subst write_loop.simps) simp
        moreover obtain ok w' k where r: "write_loop N fd (drop n buf) loop w1 = Inr (ok, w')"
            "out w' fd = out w1 fd @ take k (drop n buf)" "if ok then k = length (drop n buf) else k < length (drop n buf)"
          using "1.IH"(2) [OF False w1 [symmetric] Inr n _ "1.prems"] b by fastforce
        ultimately show ?thesis using b
          by (intro exI [of _ ok] exI [of _ w'] exI [of _ "n + k"]) (auto simp: take_add split: if_splits)
      qed
    qed
  qed
qed

section \<open>Descriptors\<close>

text \<open>
  \<open>opn\<close> is the set of the open descriptors: a new one was not open before, closing removes one, and the
  other calls do not change the set.
\<close>

definition nt_fds_doc :: "'w net \<Rightarrow> ('w \<Rightarrow> int set) \<Rightarrow> bool" where
  "nt_fds_doc N opn \<longleftrightarrow>
     (\<forall>d w. case nt_socket N d w of (Inl _, w') \<Rightarrow> opn w' = opn w
       | (Inr s, w') \<Rightarrow> 0 \<le> s \<and> s \<notin> opn w \<and> opn w' = insert s (opn w)) \<and>
     (\<forall>s w. case nt_accept N s w of (Inl _, w') \<Rightarrow> opn w' = opn w
       | (Inr (fd, _), w') \<Rightarrow> 0 \<le> fd \<and> fd \<notin> opn w \<and> opn w' = insert fd (opn w)) \<and>
     (\<forall>s w. opn (nt_close N s w) = opn w - {s}) \<and>
     (\<forall>s x v w. opn (snd (nt_setopt N s x v w)) = opn w) \<and> (\<forall>s w. opn (snd (nt_getfl N s w)) = opn w) \<and>
     (\<forall>s v w. opn (snd (nt_setfl N s v w)) = opn w) \<and> (\<forall>s sa w. opn (snd (nt_connect N s sa w)) = opn w) \<and>
     (\<forall>s sa w. opn (snd (nt_bind N s sa w)) = opn w) \<and> (\<forall>s n w. opn (snd (nt_listen N s n w)) = opn w) \<and>
     (\<forall>h w. opn (snd (nt_gethost N h w)) = opn w) \<and> (\<forall>p m w. opn (nt_chmod N p m w) = opn w) \<and>
     (\<forall>s n w. opn (snd (nt_read N s n w)) = opn w) \<and> (\<forall>s b w. opn (snd (nt_write N s b w)) = opn w)"

text \<open>The options that the code sets are accepted.\<close>

definition nt_opts_ok :: "'w net \<Rightarrow> bool" where
  "nt_opts_ok N \<longleftrightarrow>
     (\<forall>s x v w. fst (nt_setopt N s x v w)) \<and> (\<forall>s v w. fst (nt_setfl N s v w)) \<and>
     (\<forall>s w. \<exists>v. fst (nt_getfl N s w) = Inr v)"

definition fresh_fd :: "('w \<Rightarrow> int set) \<Rightarrow> 'w \<Rightarrow> int \<Rightarrow> 'w \<Rightarrow> bool" where
  "fresh_fd opn w r w' \<longleftrightarrow>
     (if r = TFNET_ERR then opn w' = opn w else r \<notin> opn w \<and> opn w' = insert r (opn w))"

lemma nt_fdsD:
  assumes "nt_fds_doc N opn"
  shows "nt_socket N d w = (Inl e, w') \<Longrightarrow> opn w' = opn w"
    "nt_socket N d w = (Inr s, w') \<Longrightarrow> 0 \<le> s \<and> s \<notin> opn w \<and> opn w' = insert s (opn w)"
    "nt_accept N s w = (Inl e, w') \<Longrightarrow> opn w' = opn w"
    "nt_accept N s w = (Inr (fd, sa), w') \<Longrightarrow> 0 \<le> fd \<and> fd \<notin> opn w \<and> opn w' = insert fd (opn w)"
    "opn (nt_close N s w) = opn w - {s}" "opn (snd (nt_setopt N s x v w)) = opn w"
    "opn (snd (nt_getfl N s w)) = opn w" "opn (snd (nt_setfl N s fl w)) = opn w"
    "opn (snd (nt_connect N s sa w)) = opn w" "opn (snd (nt_bind N s sa w)) = opn w"
    "opn (snd (nt_listen N s b w)) = opn w" "opn (snd (nt_gethost N h w)) = opn w" "opn (nt_chmod N p m w) = opn w"
proof -
  have s: "case nt_socket N d w of (Inl _, w') \<Rightarrow> opn w' = opn w
      | (Inr s, w') \<Rightarrow> 0 \<le> s \<and> s \<notin> opn w \<and> opn w' = insert s (opn w)"
    and a: "case nt_accept N s w of (Inl _, w') \<Rightarrow> opn w' = opn w
      | (Inr (fd, _), w') \<Rightarrow> 0 \<le> fd \<and> fd \<notin> opn w \<and> opn w' = insert fd (opn w)"
    using assms by (simp_all add: nt_fds_doc_def)
  show "nt_socket N d w = (Inl e, w') \<Longrightarrow> opn w' = opn w"
    "nt_socket N d w = (Inr s, w') \<Longrightarrow> 0 \<le> s \<and> s \<notin> opn w \<and> opn w' = insert s (opn w)" using s by simp_all
  show "nt_accept N s w = (Inl e, w') \<Longrightarrow> opn w' = opn w"
    "nt_accept N s w = (Inr (fd, sa), w') \<Longrightarrow> 0 \<le> fd \<and> fd \<notin> opn w \<and> opn w' = insert fd (opn w)" using a by simp_all
qed (use assms in \<open>simp_all add: nt_fds_doc_def\<close>)

lemma rw_fds:
  assumes "nt_fds_doc N opn"
  shows "nt_read N fd n w = (r, w') \<Longrightarrow> opn w' = opn w" "nt_write N fd buf w = (k, w') \<Longrightarrow> opn w' = opn w"
proof -
  have "opn (snd (nt_read N fd n w)) = opn w" "opn (snd (nt_write N fd buf w)) = opn w"
    using assms by (simp_all add: nt_fds_doc_def)
  then show "nt_read N fd n w = (r, w') \<Longrightarrow> opn w' = opn w" "nt_write N fd buf w = (k, w') \<Longrightarrow> opn w' = opn w" by simp_all
qed

lemma read_loop_fds: "nt_fds_doc N opn \<Longrightarrow> read_loop N fd count got loop w = Inr (r, w') \<Longrightarrow> opn w' = opn w"
proof (induction N fd count got loop w rule: read_loop.induct)
  case (1 N fd count got loop w)
  obtain res w1 where w1: "nt_read N fd (count - length got) w = (res, w1)" by fastforce
  note o = rw_fds(1) [OF "1.prems"(1) w1]
  show ?case using "1.prems"(2) "1.IH"(1) [OF _ w1 [symmetric] _ _ _ "1.prems"(1)] "1.IH"(2) [OF _ w1 [symmetric] _ _ _ "1.prems"(1)] o w1
    by (subst (asm) read_loop.simps) (auto split: if_splits sum.splits)
qed

lemma write_loop_fds: "nt_fds_doc N opn \<Longrightarrow> write_loop N fd buf loop w = Inr (r, w') \<Longrightarrow> opn w' = opn w"
proof (induction N fd buf loop w rule: write_loop.induct)
  case (1 N fd buf loop w)
  obtain res w1 where w1: "nt_write N fd buf w = (res, w1)" by fastforce
  note o = rw_fds(2) [OF "1.prems"(1) w1]
  show ?case using "1.prems"(2) "1.IH"(1) [OF _ w1 [symmetric] _ _ _ "1.prems"(1)] "1.IH"(2) [OF _ w1 [symmetric] _ _ _ "1.prems"(1)] o w1
    by (subst (asm) write_loop.simps) (auto split: if_splits sum.splits)
qed

lemma transfer_fds:
  "nt_fds_doc N opn \<Longrightarrow> tfnet_read N fd n w = Inr (r, w') \<Longrightarrow> opn w' = opn w"
  "nt_fds_doc N opn \<Longrightarrow> tfnet_write N fd buf w = Inr (ok, w') \<Longrightarrow> opn w' = opn w"
  by (auto simp: tfnet_read_def tfnet_write_def dest: read_loop_fds write_loop_fds)

lemma generic_accept_fds:
  "tfnet_generic_accept N s w = Some (r, w') \<Longrightarrow> nt_fds_doc N opn \<Longrightarrow>
     (case r of None \<Rightarrow> opn w' = opn w | Some (fd, sa) \<Rightarrow> 0 \<le> fd \<and> fd \<notin> opn w \<and> opn w' = insert fd (opn w))"
proof (induction N s w "(r, w')" rule: tfnet_generic_accept.raw_induct [rotated, consumes 1, case_names 1])
  case (1 loop N s w)
  obtain res w1 where w1: "nt_accept N s w = (res, w1)" by fastforce
  show ?case
  proof (cases res)
    case (Inl e)
    then show ?thesis using 1(1) [of N s w1] 1(2,3) w1 nt_fdsD(3) [OF 1(3), of s w e w1]
      by (auto split: if_splits option.splits)
  next
    case (Inr c)
    then show ?thesis using 1(2) w1 nt_fdsD(4) [OF 1(3), of s w "fst c" "snd c" w1] by auto
  qed
qed

lemma accept2_fds:
  "tfnet_tcp_accept2 N s w = Some (r, w') \<Longrightarrow> nt_fds_doc N opn \<Longrightarrow>
     (case r of None \<Rightarrow> opn w' = opn w | Some (fd, ip, port) \<Rightarrow> 0 \<le> fd \<and> fd \<notin> opn w \<and> opn w' = insert fd (opn w))"
  by (auto simp: tfnet_tcp_accept2_def dest!: generic_accept_fds split: option.splits)

lemma nonblock_fds: "nt_fds_doc N opn \<Longrightarrow> opn (snd (tfnet_nonblock N fd w)) = opn w"
  using nt_fdsD(7) [of N opn fd w] nt_fdsD(8) [of N opn]
  by (auto simp: tfnet_nonblock_def split: prod.splits sum.splits)

lemma nonblock_ok: "nt_opts_ok N \<Longrightarrow> fst (tfnet_nonblock N fd w)"
proof -
  assume a: "nt_opts_ok N"
  then obtain v where "fst (nt_getfl N fd w) = Inr v" unfolding nt_opts_ok_def by blast
  then obtain w1 where "nt_getfl N fd w = (Inr v, w1)" by (cases "nt_getfl N fd w") simp
  then show ?thesis using a by (simp add: tfnet_nonblock_def nt_opts_ok_def)
qed

lemma create_socket_fresh:
  assumes "nt_fds_doc N opn" "nt_opts_ok N"
  shows "fresh_fd opn w (fst (tfnet_create_socket N d w)) (snd (tfnet_create_socket N d w))"
proof -
  obtain r w1 where w1: "nt_socket N d w = (r, w1)" by fastforce
  show ?thesis
  proof (cases r)
    case (Inl e)
    then show ?thesis using nt_fdsD(1) [OF assms(1)] w1 by (simp add: tfnet_create_socket_def fresh_fd_def)
  next
    case (Inr s)
    obtain ok w2 where w2: "nt_setopt N s SO_REUSEADDR 1 w1 = (ok, w2)" by fastforce
    have "fst (nt_setopt N s SO_REUSEADDR 1 w1)" using assms(2) by (simp add: nt_opts_ok_def)
    then have ok: "ok" "opn w2 = opn w1" using w2 nt_fdsD(6) [OF assms(1), of s SO_REUSEADDR 1 w1] by simp_all
    have new: "0 \<le> s" "s \<notin> opn w" "opn w1 = insert s (opn w)" using nt_fdsD(2) [OF assms(1) w1 [unfolded Inr]] by auto
    have "tfnet_create_socket N d w = (s, w2)" using w1 w2 Inr ok(1) by (simp add: tfnet_create_socket_def)
    then show ?thesis using new ok(2) by (simp add: fresh_fd_def)
  qed
qed

lemma connect_to_fresh:
  assumes "nt_fds_doc N opn" "nt_opts_ok N" "fresh_fd opn w s w1" "s \<noteq> TFNET_ERR" "opn w2 = opn w1"
    and r: "connect_to N lg s sa nb w2 = Inr (r, w')"
  shows "fresh_fd opn w r w'"
proof -
  obtain ok w3 where w3: "(if nb then tfnet_nonblock N s w2 else (True, w2)) = (ok, w3)" by fastforce
  have ok: "ok" "opn w3 = opn w2"
    using w3 nonblock_ok [OF assms(2), of s w2] nonblock_fds [OF assms(1), of s w2] by (auto split: if_splits)
  obtain c w4 where w4: "nt_connect N s sa w3 = (c, w4)" by fastforce
  then have "opn w4 = opn w3" using nt_fdsD(9) [OF assms(1), of s sa w3] by simp
  moreover have "r = s \<and> w' = w4 \<or> r = TFNET_ERR \<and> w' = nt_close N s w4"
    using r w3 w4 ok(1) by (auto simp: connect_to_def split: option.splits if_splits)
  ultimately show ?thesis
    using assms(3-5) ok(2) nt_fdsD(5) [OF assms(1), of s w4] by (auto simp: fresh_fd_def)
qed

lemma serve_on_fresh:
  assumes "nt_fds_doc N opn" "fresh_fd opn w s w1" "s \<noteq> TFNET_ERR" "opn w2 = opn w1"
  shows "fresh_fd opn w (fst (serve_on N s sa w2)) (snd (serve_on N s sa w2))"
proof -
  obtain b w3 where w3: "nt_bind N s sa w2 = (b, w3)" by fastforce
  obtain l w4 where w4: "nt_listen N s 511 w3 = (l, w4)" by fastforce
  have "opn w3 = opn w2" "opn w4 = opn w3"
    using nt_fdsD(10) [OF assms(1), of s sa w2] nt_fdsD(11) [OF assms(1), of s 511 w3] w3 w4 by simp_all
  then show ?thesis using assms(2-4) w3 w4 nt_fdsD(5) [OF assms(1), of s]
    by (auto simp: serve_on_def tfnet_listen_def fresh_fd_def split: bool.splits)
qed

lemma connect_fresh:
  assumes "nt_fds_doc N opn" "nt_opts_ok N"
  shows "tfnet_tcp_generic_connect N addr port nb w = Inr (r, w') \<Longrightarrow> fresh_fd opn w r w'"
    "tfnet_tcp_generic_connect2 N ip port nb w = Inr (r, w') \<Longrightarrow> fresh_fd opn w r w'"
    "tfnet_unix_generic_connect N path nb w = Inr (r, w') \<Longrightarrow> fresh_fd opn w r w'"
proof -
  have new: "fresh_fd opn w s w1" if "tfnet_create_socket N d w = (s, w1)" for d s w1
    using create_socket_fresh [OF assms, of w d] that by simp
  note go = connect_to_fresh [OF assms new]
  show "tfnet_tcp_generic_connect N addr port nb w = Inr (r, w') \<Longrightarrow> fresh_fd opn w r w'"
  proof -
    assume r: "tfnet_tcp_generic_connect N addr port nb w = Inr (r, w')"
    obtain s w1 where s: "tfnet_create_socket N AF_INET w = (s, w1)" by fastforce
    obtain a w2 where a: "host_addr N addr w1 = (a, w2)" by fastforce
    have "opn w2 = opn w1" using a nt_fdsD(12) [OF assms(1), of addr w1] by (auto simp: host_addr_def split: option.splits)
    then show ?thesis
      using r s a new [OF s] go [OF s, of w2] nt_fdsD(5) [OF assms(1), of s w2]
      by (auto simp: tfnet_tcp_generic_connect_def fresh_fd_def split: option.splits if_splits)
  qed
  show "tfnet_tcp_generic_connect2 N ip port nb w = Inr (r, w') \<Longrightarrow> fresh_fd opn w r w'"
    using new [of AF_INET] go [OF _ _ refl]
    by (auto simp: tfnet_tcp_generic_connect2_def fresh_fd_def split: prod.splits if_splits)
  show "tfnet_unix_generic_connect N path nb w = Inr (r, w') \<Longrightarrow> fresh_fd opn w r w'"
    using new [of AF_LOCAL] go [OF _ _ refl]
    by (auto simp: tfnet_unix_generic_connect_def fresh_fd_def split: prod.splits if_splits)
qed

lemma serve_fresh:
  assumes "nt_fds_doc N opn" "nt_opts_ok N"
  shows "tfnet_tcp_server N port b w = (r, w') \<Longrightarrow> fresh_fd opn w r w'"
    "tfnet_tcp_server2 N port ip w = (r, w') \<Longrightarrow> fresh_fd opn w r w'"
    "tfnet_unix_server N path perm w = (r, w') \<Longrightarrow> fresh_fd opn w r w'"
proof -
  have new: "fresh_fd opn w s w1" if "tfnet_create_socket N d w = (s, w1)" for d s w1
    using create_socket_fresh [OF assms, of w d] that by simp
  have go: "fresh_fd opn w x w2" if "tfnet_create_socket N d w = (s, w1)" "s \<noteq> TFNET_ERR" "serve_on N s sa w1 = (x, w2)"
    for d s w1 sa x w2
    using serve_on_fresh [OF assms(1) new [OF that(1)] that(2) refl, of sa] that(3) by simp
  show "tfnet_tcp_server N port b w = (r, w') \<Longrightarrow> fresh_fd opn w r w'"
    using new [of AF_INET] go [of AF_INET] nt_fdsD(5) [OF assms(1)]
    by (auto simp: tfnet_tcp_server_def fresh_fd_def split: prod.splits if_splits option.splits)
  show "tfnet_tcp_server2 N port ip w = (r, w') \<Longrightarrow> fresh_fd opn w r w'"
    using new [of AF_INET] go [of AF_INET] by (auto simp: tfnet_tcp_server2_def split: prod.splits if_splits)
  show "tfnet_unix_server N path perm w = (r, w') \<Longrightarrow> fresh_fd opn w r w'"
    using new [of AF_LOCAL] go [of AF_LOCAL] nt_fdsD(13) [OF assms(1)]
    by (auto simp: tfnet_unix_server_def fresh_fd_def split: prod.splits if_splits)
qed

section \<open>Properties\<close>

text \<open>
  C11: Connecting and serving never lose a descriptor as long as the options of a socket can be set: a call
  that fails leaves the set of open descriptors as it was, and one that succeeds adds the descriptor it
  returns, which was not open before.
\<close>

theorem sockets_keep_descriptors:
  assumes "nt_fds_doc N opn" "nt_opts_ok N"
  shows "(\<forall>r w'. tfnet_tcp_generic_connect N addr port nb w = Inr (r, w') \<longrightarrow> fresh_fd opn w r w') \<and>
    (\<forall>r w'. tfnet_tcp_generic_connect2 N ip port nb w = Inr (r, w') \<longrightarrow> fresh_fd opn w r w') \<and>
    (\<forall>r w'. tfnet_unix_generic_connect N path nb w = Inr (r, w') \<longrightarrow> fresh_fd opn w r w') \<and>
    (\<forall>r w'. tfnet_tcp_server N port b w = (r, w') \<longrightarrow> fresh_fd opn w r w') \<and>
    (\<forall>r w'. tfnet_tcp_server2 N port ip w = (r, w') \<longrightarrow> fresh_fd opn w r w') \<and>
    (\<forall>r w'. tfnet_unix_server N path perm w = (r, w') \<longrightarrow> fresh_fd opn w r w')"
  by (intro conjI allI impI; (rule connect_fresh [OF assms] serve_fresh [OF assms], assumption))

text \<open>
  C33: A read of \<open>n\<close> bytes ends, after at most twenty calls that would block, and yields exactly the next \<open>n\<close> bytes
  of the stream, or it fails and has taken fewer than \<open>n\<close> bytes, in which case a system that delivers
  what has arrived had fewer than \<open>n\<close>.  A write sends the whole buffer in order, or a proper prefix when it fails.
\<close>

theorem transfers_exact:
  assumes "nt_read_doc N rest fd" "nt_write_doc N out fd"
  shows "(\<exists>ok bs w'. tfnet_read N fd n w = Inr ((ok, bs), w') \<and> rest w fd = bs @ rest w' fd \<and>
      (if ok then length bs = n
       else length bs < n \<and> (nt_read_steady N rest fd \<longrightarrow> length (rest w fd) < n))) \<and>
    (\<exists>ok w' k. tfnet_write N fd buf w = Inr (ok, w') \<and> out w' fd = out w fd @ take k buf \<and>
      (if ok then k = length buf else k < length buf))"
  using tfnet_read_ok [OF assms(1), of n w] write_loop_ok [OF assms(2), of buf 0 w]
  by (simp add: read_post_def tfnet_write_def)

text \<open>A system for the witnesses: nothing fails, a read delivers two bytes, a write takes one, and \<open>connect\<close> is refused.\<close>

definition demo_net :: "(nat list \<times> byte list \<times> byte list) net" where
  "demo_net = \<lparr>nt_socket = (\<lambda>d (fds, w). (Inr (int (Suc (sum_list fds))), Suc (sum_list fds) # fds, w)),
     nt_setopt = (\<lambda>s x v w. (True, w)), nt_getfl = (\<lambda>s w. (Inr 0, w)), nt_setfl = (\<lambda>s v w. (True, w)),
     nt_connect = (\<lambda>s sa w. (Some E_Other, w)), nt_bind = (\<lambda>s sa w. (True, w)), nt_listen = (\<lambda>s n w. (True, w)),
     nt_accept = (\<lambda>s (fds, w).
       (Inr (int (Suc (sum_list fds)), Sockaddr_In 0 0), Suc (sum_list fds) # fds, w)),
     nt_close = (\<lambda>s (fds, w). (filter (\<lambda>x. int x \<noteq> s) fds, w)),
     nt_read = (\<lambda>fd n (fds, i, out). (Inr (take (min n 2) i), fds, drop (min n 2) i, out)),
     nt_write = (\<lambda>fd buf (fds, i, out). (Inr (min 1 (length buf)), fds, i, out @ take 1 buf)),
     nt_peername = (\<lambda>fd w. (Inl E_Other, w)), nt_chmod = (\<lambda>p m w. w), nt_gethost = (\<lambda>h w. (None, w)),
     nt_aton = (\<lambda>h. Some 0), nt_ntoa = (\<lambda>a. []), nt_pton = (\<lambda>h. Inr None)\<rparr>"

abbreviation demo_fds :: "nat list \<times> byte list \<times> byte list \<Rightarrow> int set" where
  "demo_fds w \<equiv> int ` set (fst w)"

lemma demo_net_fds: "nt_fds_doc demo_net demo_fds"
proof -
  have "Suc (sum_list xs) \<notin> set xs" for xs :: "nat list"
    using member_le_sum_list [of "Suc (sum_list xs)" xs] by auto
  moreover have "1 + int n = int x \<longleftrightarrow> x = Suc n" for n x by auto
  ultimately show ?thesis by (auto simp: nt_fds_doc_def demo_net_def)
qed

lemma demo_net_opts: "nt_opts_ok demo_net"
  by (simp add: nt_opts_ok_def demo_net_def)

theorem sockets_keep_descriptors_witness:
  "\<exists>r w'. tfnet_tcp_generic_connect demo_net [] 80 False ([4], [], []) = Inr (r, w') \<and> r = - 1 \<and> fst w' = [4]"
proof -
  have "tfnet_tcp_generic_connect demo_net [] 80 False ([4], [], []) = Inr (- 1, [4], [], [])"
    by (simp add: tfnet_tcp_generic_connect_def tfnet_create_socket_def connect_to_def host_addr_def demo_net_def)
  moreover from this have "fresh_fd demo_fds ([4], [], []) (- 1) ([4], [], [])"
    using sockets_keep_descriptors [OF demo_net_fds demo_net_opts] by blast
  ultimately show ?thesis by (simp add: fresh_fd_def)
qed

theorem transfers_exact_witness:
  "\<exists>bs w' w''. tfnet_read demo_net 3 3 ([3], [1, 2, 3, 4], []) = Inr ((True, bs), w') \<and> [1, 2, 3, 4] = bs @ fst (snd w') \<and>
     length bs = 3 \<and> tfnet_write demo_net 3 [7, 8] ([3], [], []) = Inr (True, w'') \<and> snd (snd w'') = [7, 8]"
proof -
  have "min (Suc 0) n = (if n = 0 then 0 else 1)" for n by simp
  then have doc: "nt_read_doc demo_net (\<lambda>w fd. fst (snd w)) 3" "nt_write_doc demo_net (\<lambda>w fd. snd (snd w)) 3"
    by (auto simp: nt_read_doc_def nt_write_doc_def demo_net_def Suc_le_eq)
  have "nt_read_steady demo_net (\<lambda>w fd. fst (snd w)) 3"
    by (auto simp: nt_read_steady_def demo_net_def)
  have "tfnet_read demo_net 3 3 ([3], [1, 2, 3, 4], []) = Inr ((True, [1, 2, 3]), [3], [4], [])"
    unfolding tfnet_read_def by (simp add: read_loop.simps demo_net_def)
  moreover have "tfnet_write demo_net 3 [7, 8] ([3], [], []) = Inr (True, [3], [], [7, 8])"
    unfolding tfnet_write_def by (simp add: write_loop.simps demo_net_def)
  moreover note transfers_exact [OF doc, of 3 "([3], [1, 2, 3, 4], [])" "[7, 8]"]
  ultimately show ?thesis by auto
qed

section \<open>Where a descriptor is lost\<close>

text \<open>When an option cannot be set, or a socket not be made non-blocking, it stays open although the call fails.\<close>

lemma create_socket_leak:
  "nt_socket N d w = (Inr s, w1) \<Longrightarrow> nt_setopt N s SO_REUSEADDR 1 w1 = (False, w2) \<Longrightarrow>
     tfnet_create_socket N d w = (TFNET_ERR, w2)"
  by (simp add: tfnet_create_socket_def)

lemma nonblock_leak:
  "tfnet_nonblock N s w = (False, w1) \<Longrightarrow> connect_to N lg s sa True w = Inr (TFNET_ERR, w1)"
  by (simp add: connect_to_def)

text \<open>A refused connection to a numeric address passes the number to a string conversion of the log.\<close>

lemma connect2_refused:
  "tfnet_create_socket N AF_INET w = (s, w1) \<Longrightarrow> s \<noteq> TFNET_ERR \<Longrightarrow>
     nt_connect N s (Sockaddr_In (port16 port) (htonl ip)) w1 = (Some e, w2) \<Longrightarrow>
     tfnet_tcp_connect2 N ip port w = Inl Wrong_Argument"
  by (simp add: tfnet_tcp_connect2_def tfnet_tcp_generic_connect2_def connect_to_def)

end
