(* ===== verification/TF_Inet.thy ===== *)
theory TF_Inet
  imports TF_Net TF_Numbers TF_Strings
begin

text \<open>
  The two functions that are compiled for Solaris, where the C library has none: the address parser \<open>inet_aton\<close> of
  \<open>tf_socket.c\<close> and the tokeniser \<open>strsep\<close> of \<open>tf_string.c\<close>.  The accumulators of the parser are unsigned of 64
  bits and wrap.  The property gives the strings it accepts and the address of each; the lemmas after it show
  where that is not the dotted form the manual of \<open>inet_aton\<close> describes.
\<close>

section \<open>The parser\<close>

text \<open>The loop over the characters; the case of a separator falls through to that of the terminator.\<close>

definition end_part :: "u64 \<Rightarrow> u64 \<Rightarrow> u64 option" where
  "end_part addr val = (if val > 255 then None else Some (push_bit 8 addr OR val))"

fun aton_loop :: "cstr \<Rightarrow> nat \<Rightarrow> u64 \<Rightarrow> u64 \<Rightarrow> (nat \<times> u64) option" where
  "aton_loop [] dots addr val = map_option (\<lambda>addr. (dots, addr)) (end_part addr val)"
| "aton_loop (c # cp) dots addr val =
     (if c_digit c then aton_loop cp dots addr (val * 10 + (ucast c - 48))
      else if c = 46 then
        (if dots + 1 > 3 then None
         else case end_part addr val of None \<Rightarrow> None | Some addr \<Rightarrow> aton_loop cp (dots + 1) addr 0)
      else None)"

definition inet_aton :: "cstr \<Rightarrow> u32 option" where
  "inet_aton cp =
     (case aton_loop cp 0 0 0 of
        None \<Rightarrow> None
      | Some (dots, addr) \<Rightarrow>
          let addr = (if dots < 3 then push_bit (8 * (3 - dots)) addr else addr)
          in Some (htonl (ucast addr)))"

section \<open>The parts between the dots\<close>

definition part_val :: "u64 \<Rightarrow> cstr \<Rightarrow> u64" where
  "part_val = foldl (\<lambda>v c. v * 10 + (ucast c - 48))"

definition part_ok :: "u64 \<Rightarrow> cstr \<Rightarrow> bool" where
  "part_ok v f \<longleftrightarrow> list_all c_digit f \<and> part_val v f \<le> 255"

definition join_parts :: "u64 \<Rightarrow> u64 list \<Rightarrow> u64" where
  "join_parts = foldl (\<lambda>a v. push_bit 8 a OR v)"

lemma parts_simps [simp]:
  "part_val v [] = v" "part_val v (c # f) = part_val (v * 10 + (ucast c - 48)) f"
  "join_parts a [] = a" "join_parts a (v # vs) = join_parts (push_bit 8 a OR v) vs"
  by (simp_all add: part_val_def join_parts_def)

text \<open>One field, up to a dot or to the end.\<close>

lemma aton_field:
  "46 \<notin> set f \<Longrightarrow> r = [] \<or> hd r = 46 \<Longrightarrow> aton_loop (f @ r) dots addr val =
     (if \<not> list_all c_digit f then None
      else case r of [] \<Rightarrow> aton_loop [] dots addr (part_val val f)
           | c # cp \<Rightarrow> aton_loop (46 # cp) dots addr (part_val val f))"
proof (induction f arbitrary: val)
  case Nil
  then show ?case by (cases r) auto
next
  case (Cons c f)
  then show ?case by (cases "c_digit c"; cases r) simp_all
qed

lemma dot_not_digit: "\<not> c_digit 46"
  by (simp add: c_digit_def)

lemma fields_dot: "TF_Strings.fields {46} s = takeWhile (\<lambda>c. c \<noteq> 46) s #
    (case dropWhile (\<lambda>c. c \<noteq> 46) s of [] \<Rightarrow> [] | c # r \<Rightarrow> TF_Strings.fields {46} r)"
  using TF_Strings.fields_split [of "{46}" s] by simp

lemma aton_loop_eq:
  "dots \<le> 3 \<Longrightarrow> aton_loop s dots addr 0 =
     (let fs = TF_Strings.fields {46} s
      in if dots + length fs \<le> 4 \<and> list_all (part_ok 0) fs
         then Some (dots + length fs - 1, join_parts addr (map (part_val 0) fs)) else None)"
proof (induction "length s" arbitrary: s dots addr rule: less_induct)
  case less
  let ?f = "takeWhile (\<lambda>c. c \<noteq> 46) s" and ?r = "dropWhile (\<lambda>c. c \<noteq> 46) s"
  have f: "46 \<notin> set ?f" "?r = [] \<or> hd ?r = 46" using hd_dropWhile [of "\<lambda>c. c \<noteq> 46" s] by (auto dest: set_takeWhileD)
  note s = aton_field [OF f, of dots addr 0, unfolded takeWhile_dropWhile_id]
  show ?case
  proof (cases ?r)
    case Nil
    show ?thesis using less.prems unfolding s fields_dot [of s] Nil
      by (simp add: part_ok_def end_part_def Let_def not_le)
  next
    case (Cons c cp)
    have l: "length cp < length s" using arg_cong [OF Cons, of length] length_dropWhile_le [of "\<lambda>c. c \<noteq> 46" s] by simp
    show ?thesis
    proof (cases "dots + 1 > 3")
      case True
      then show ?thesis using less.prems unfolding s fields_dot [of s] Cons
        by (cases "TF_Strings.fields {46} cp") (auto simp: dot_not_digit)
    next
      case False
      then show ?thesis using less.hyps [OF l, of "dots + 1"] unfolding s fields_dot [of s] Cons
        by (auto simp: dot_not_digit part_ok_def end_part_def Let_def not_less split: option.splits)
    qed
  qed
qed

section \<open>Properties\<close>

text \<open>
  C37: The parser accepts exactly the strings of at most four fields of digits between dots whose values, counted modulo
  2 ^ 64, are below 256, and gives the address with these bytes from the top, zero for those that are missing,
  in network order.
\<close>

theorem inet_aton_fields:
  "inet_aton s =
     (let fs = TF_Strings.fields {46} s
      in if length fs \<le> 4 \<and> list_all (part_ok 0) fs
         then Some (htonl (ucast (push_bit (8 * (4 - length fs)) (join_parts 0 (map (part_val 0) fs))))) else None)"
proof -
  have "length (TF_Strings.fields {46} s) = Suc (length (TF_Strings.fields {46} s) - 1)" by simp
  then obtain n where "length (TF_Strings.fields {46} s) = Suc n" by blast
  then show ?thesis by (auto simp: inet_aton_def aton_loop_eq Let_def)
qed

section \<open>Addresses the manual reads otherwise\<close>

text \<open>A last part is not widened, an empty part is zero, and a part of 2 ^ 64 + 1 is one.\<close>

lemma inet_aton_short:
  "inet_aton (ascii ''1.2'') = Some (htonl 0x01020000)" "inet_aton (ascii ''..'') = Some 0"
  "inet_aton (ascii ''18446744073709551617'') = Some (htonl 0x01000000)"
  by (simp_all add: inet_aton_def ascii_def c_digit_def end_part_def htonl_def)

section \<open>Tokens\<close>

text \<open>
  \<open>strstr\<close> and \<open>strsep\<close>: the token, and the pointer to what follows.  The separator is searched for as a
  whole, but only its first character is skipped.  An empty separator in an empty string moves the pointer behind the
  terminator.
\<close>

fun strstr :: "cstr \<Rightarrow> cstr \<Rightarrow> nat option" where
  "strstr s del = (if take (length del) s = del then Some 0
     else case s of [] \<Rightarrow> None | _ # r \<Rightarrow> map_option Suc (strstr r del))"

declare strstr.simps [simp del]

definition strsep :: "cstr option \<Rightarrow> cstr \<Rightarrow> c_error + cstr option \<times> cstr option" where
  "strsep s del =
     (case s of
        None \<Rightarrow> Inr (None, None)
      | Some tok \<Rightarrow> (case strstr tok del of
          Some d \<Rightarrow> if d < length tok then Inr (Some (take d tok), Some (drop (d + 1) tok)) else Inl Out_Of_Bounds
        | None \<Rightarrow> Inr (Some tok, None)))"

lemma strstr_found: "strstr s del = Some d \<Longrightarrow> d + length del \<le> length s \<and> take (length del) (drop d s) = del"
proof (induction s del arbitrary: d rule: strstr.induct)
  case (1 s del)
  have start: "take (length del) s = del \<Longrightarrow> length del \<le> length s" by (metis length_take min.cobounded1)
  show ?case
  proof (cases "take (length del) s = del")
    case True
    then show ?thesis using 1(2) start by (subst (asm) strstr.simps) simp
  next
    case False
    then obtain c r k where "s = c # r" "strstr r del = Some k" "d = Suc k"
      using 1(2) by (subst (asm) strstr.simps) (auto split: list.splits)
    then show ?thesis using 1(1) [OF False] by simp
  qed
qed

text \<open>
  The string is the token, the separator and more; the next call starts behind the first character of the
  separator, so a longer separator leaves its tail in front of the next token.
\<close>

lemma strsep_parts:
  assumes "strsep (Some s) del = Inr (Some tok, Some r)" "del \<noteq> []"
  shows "\<exists>r'. s = tok @ del @ r' \<and> r = tl del @ r'"
proof -
  obtain d where d: "strstr s del = Some d" "tok = take d s" "r = drop (d + 1) s"
    using assms(1) by (auto simp: strsep_def split: option.splits if_splits)
  define r' where "r' = drop (length del) (drop d s)"
  have "drop d s = del @ r'" unfolding r'_def using strstr_found [OF d(1)] by (metis append_take_drop_id)
  moreover from this have "r = tl del @ r'" using assms(2) by (cases del) (simp_all add: d(3) drop_Suc flip: tl_drop)
  ultimately show ?thesis using append_take_drop_id [of d s] d(2) by metis
qed

lemma strsep_tail: "strsep (Some (ascii ''a::b'')) (ascii ''::'') = Inr (Some (ascii ''a''), Some (ascii '':b''))"
  by (simp add: strsep_def strstr.simps ascii_def)

end
