(* ===== verification/TF_IPC.thy ===== *)
theory TF_IPC
  imports TF_Prelude
begin

text \<open>
  Message queues and shared memory: \<open>tf_ipc.c\<close>.  The System V calls are an argument.  A shared segment is
  known by its address; \<open>shmat\<close> yields the value \<open>(void * ) -1\<close>, here \<open>Failed\<close>, and not the null pointer when it fails.
\<close>

definition MAX_MQUEUE_LEN :: nat where "MAX_MQUEUE_LEN = 4096"

datatype shm_ptr = Attached nat | Failed

record 'w ipc =
  ip_access :: "cstr \<Rightarrow> 'w \<Rightarrow> bool"
  ip_ftok :: "cstr \<Rightarrow> int \<Rightarrow> 'w \<Rightarrow> int"
  ip_msgget :: "int \<Rightarrow> 'w \<Rightarrow> int \<times> 'w"
  ip_msgrm :: "int \<Rightarrow> 'w \<Rightarrow> bool \<times> 'w"
  ip_msgstat :: "int \<Rightarrow> 'w \<Rightarrow> nat option"
  ip_msgsnd :: "int \<Rightarrow> int \<Rightarrow> byte list \<Rightarrow> 'w \<Rightarrow> bool \<times> 'w"
  ip_shmget :: "int \<Rightarrow> nat \<Rightarrow> bool \<Rightarrow> 'w \<Rightarrow> int \<times> 'w"
  ip_shmat :: "int \<Rightarrow> 'w \<Rightarrow> shm_ptr \<times> 'w"

definition ipc_unique_key :: "'w ipc \<Rightarrow> cstr \<Rightarrow> int \<Rightarrow> 'w \<Rightarrow> int" where
  "ipc_unique_key I filename i w =
     (if \<not> ip_access I filename w then - 1
      else let keyv = ip_ftok I filename i w in if keyv = - 1 then - 1 else keyv)"

definition ipc_queue_create :: "'w ipc \<Rightarrow> cstr \<Rightarrow> int \<Rightarrow> 'w \<Rightarrow> int \<times> 'w" where
  "ipc_queue_create I filename i w =
     (let key = ipc_unique_key I filename i w
      in if key < 0 then (- 1, w)
         else case ip_msgget I key w of (msgid, w) \<Rightarrow> (if msgid < 0 then - 1 else msgid, w))"

definition ipc_queue_delete :: "'w ipc \<Rightarrow> int \<Rightarrow> 'w \<Rightarrow> bool \<times> 'w" where
  "ipc_queue_delete I msgid w = (if msgid < 0 then (False, w) else ip_msgrm I msgid w)"

definition ipc_queue_size :: "'w ipc \<Rightarrow> int \<Rightarrow> 'w \<Rightarrow> nat" where
  "ipc_queue_size I msgid w = (case ip_msgstat I msgid w of None \<Rightarrow> 0 | Some n \<Rightarrow> n)"

text \<open>A package is its type and the bytes of its buffer; \<open>len\<close> of them are sent.\<close>

definition ipc_write_queue :: "'w ipc \<Rightarrow> int \<Rightarrow> int \<Rightarrow> byte list \<Rightarrow> int \<Rightarrow> 'w \<Rightarrow> c_error + bool \<times> 'w" where
  "ipc_write_queue I qid msg_type data len w =
     (if len \<ge> int MAX_MQUEUE_LEN \<or> len \<le> 0 then Inr (False, w)
      else if qid < 0 \<or> msg_type = 0 then Inr (False, w)
      else rbind (slice data 0 (nat len)) (\<lambda>bytes. Inr (ip_msgsnd I qid msg_type bytes w)))"

definition ipc_shm_create :: "'w ipc \<Rightarrow> cstr \<Rightarrow> int \<Rightarrow> nat \<Rightarrow> 'w \<Rightarrow> shm_ptr option \<times> 'w" where
  "ipc_shm_create I filename i sz w =
     (let key = ipc_unique_key I filename i w
      in if key < 0 then (None, w)
         else case ip_shmget I key sz True w of (shmid, w) \<Rightarrow>
                if shmid < 0 then (None, w)
                else case ip_shmat I shmid w of (ptr, w) \<Rightarrow> (Some ptr, w))"

definition ipc_shm_open :: "'w ipc \<Rightarrow> cstr \<Rightarrow> int \<Rightarrow> 'w \<Rightarrow> shm_ptr option \<times> 'w" where
  "ipc_shm_open I filename i w =
     (let key = ipc_unique_key I filename i w
      in if key < 0 then (None, w)
         else case ip_shmget I key 0 False w of (shmid, w) \<Rightarrow>
                if shmid < 0 then (None, w)
                else case ip_shmat I shmid w of (ptr, w) \<Rightarrow> (Some ptr, w))"

text \<open>A message of at most 4095 bytes of a positive type is handed to the queue as it is.\<close>

lemma ipc_write_ok:
  "0 \<le> qid \<Longrightarrow> t \<noteq> 0 \<Longrightarrow> 0 < n \<Longrightarrow> n < MAX_MQUEUE_LEN \<Longrightarrow> n \<le> length data \<Longrightarrow>
     ipc_write_queue I qid t data (int n) w = Inr (ip_msgsnd I qid t (take n data) w)"
  by (simp add: ipc_write_queue_def)

lemma ipc_write_refused:
  "n \<ge> MAX_MQUEUE_LEN \<or> qid < 0 \<or> t = 0 \<Longrightarrow> ipc_write_queue I qid t data (int n) w = Inr (False, w)"
  by (auto simp: ipc_write_queue_def)

text \<open>An attachment that fails is reported as a pointer: the test for the null pointer never holds.\<close>

lemma shm_open_failed:
  "ipc_unique_key I f i w \<ge> 0 \<Longrightarrow> ip_shmget I (ipc_unique_key I f i w) 0 False w = (s, w1) \<Longrightarrow> 0 \<le> s \<Longrightarrow>
     ip_shmat I s w1 = (Failed, w2) \<Longrightarrow> ipc_shm_open I f i w = (Some Failed, w2)"
  by (simp add: ipc_shm_open_def Let_def)

end
