(* ===== verification/TF_Nac.thy ===== *)
theory TF_Nac
  imports TF_Net TF_IPC TF_AE_Inv
begin

text \<open>
  The relay \<open>tfnac/main.c\<close>: peers connect over TCP, their requests are put on a message queue, and the
  responses that a thread takes from another queue come back to the event loop over a pair of sockets.
  The slots of the shared memory are a list; a pointer to a slot is its index, which is the client data
  of the slot's file event.  The event loop is the one of \<open>TF_AE\<close>, over any polling layer.  Buffers are
  cleared when the process starts.  A handler yields the state after it, with all the calls it makes.
\<close>

section \<open>State\<close>

definition MAX_PEER_NUMS :: nat where "MAX_PEER_NUMS = 10000"
definition PEER_ID_OFFSET :: u32 where "PEER_ID_OFFSET = 20140000"
definition MAX_PACKET_LEN :: nat where "MAX_PACKET_LEN = 4096"

record peer_info =
  pi_id :: u32
  pi_fd :: int
  pi_active :: bool
  pi_authed :: bool
  pi_ip :: u32
  pi_port :: u16
  pi_timer :: u16

record 'k process_mgr =
  pm_log_level :: byte
  pm_app_id :: int
  pm_timeout :: u16
  pm_connections :: u16
  pm_step :: u32
  pm_in_queue :: int
  pm_out_queue :: int
  pm_el :: "'k ae_loop"
  pm_pipe :: "int \<times> int"
  pm_mq_exit :: bool
  pm_quitting :: bool
  pm_slots :: "peer_info list"
  pm_mq_type :: int
  pm_mq_data :: "byte list"
  pm_buffer :: "byte list"

record ('k, 'w) nac_env =
  ne_net :: "'w net"
  ne_ipc :: "'w ipc"
  ne_api :: "'k ae_api"
  ne_time :: "'w \<Rightarrow> u32 \<times> 'w"

type_synonym ('k, 'w) nac = "'k process_mgr \<times> 'w"

text \<open>The handlers as procedures of the event table.\<close>

abbreviation (input) ACCEPT_TCP :: nat where "ACCEPT_TCP \<equiv> 0"
abbreviation (input) PEER_REQUEST :: nat where "PEER_REQUEST \<equiv> 1"
abbreviation (input) MESSAGE_RESPONSE :: nat where "MESSAGE_RESPONSE \<equiv> 2"

section \<open>Slots\<close>

fun find_idle :: "peer_info list \<Rightarrow> nat \<Rightarrow> nat option" where
  "find_idle [] i = None"
| "find_idle (p # ps) i = (if \<not> pi_active p then Some i else find_idle ps (i + 1))"

definition get_idle_peer :: "'k process_mgr \<Rightarrow> nat option" where
  "get_idle_peer pm = find_idle (pm_slots pm) 0"

definition get_active_peer :: "'k process_mgr \<Rightarrow> u32 \<Rightarrow> c_error + nat option" where
  "get_active_peer pm i =
     (let index = sint (i - PEER_ID_OFFSET)
      in if index > 0 \<and> index < int MAX_PEER_NUMS
         then rbind (rd (pm_slots pm) (nat index)) (\<lambda>peer. Inr (if pi_active peer then Some (nat index) else None))
         else Inr None)"

definition close_peer :: "('k, 'w) nac_env \<Rightarrow> nat \<Rightarrow> ('k, 'w) nac \<Rightarrow> c_error + ('k, 'w) nac" where
  "close_peer E i = (\<lambda>(pm, w).
     rbind (rd (pm_slots pm) i) (\<lambda>peer.
     rbind (aeDeleteFileEvent (ne_api E) (pm_el pm) (pi_fd peer) AE_READABLE) (\<lambda>el.
     Inr (pm\<lparr>pm_el := el, pm_slots := (pm_slots pm)[i := peer\<lparr>pi_active := False, pi_authed := False\<rparr>],
             pm_connections := pm_connections pm - 1\<rparr>,
          nt_close (ne_net E) (pi_fd peer) w))))"

definition set_timer :: "nat \<Rightarrow> u16 \<Rightarrow> 'k process_mgr \<Rightarrow> c_error + 'k process_mgr" where
  "set_timer i t pm =
     rbind (rd (pm_slots pm) i) (\<lambda>peer. Inr (pm\<lparr>pm_slots := (pm_slots pm)[i := peer\<lparr>pi_timer := t\<rparr>]\<rparr>))"

section \<open>The life cycle\<close>

fun life_loop :: "('k, 'w) nac_env \<Rightarrow> nat list \<Rightarrow> ('k, 'w) nac \<Rightarrow> c_error + ('k, 'w) nac" where
  "life_loop E [] st = Inr st"
| "life_loop E (i # is) (pm, w) =
     rbind (rd (pm_slots pm) i) (\<lambda>peer.
     if pi_active peer
     then rbind (set_timer i (pi_timer peer - 1) pm) (\<lambda>pm.
          rbind (if pi_timer peer - 1 = 0 then close_peer E i (pm, w) else Inr (pm, w)) (life_loop E is))
     else life_loop E is (pm, w))"

definition life_cycle_handler :: "('k, 'w) nac_env \<Rightarrow> ('k, 'w) nac \<Rightarrow> c_error + ('k, 'w) nac \<times> int" where
  "life_cycle_handler E st =
     rbind (life_loop E [0..<MAX_PEER_NUMS] st) (\<lambda>st. Inr (st, sint (pm_step (fst st))))"

section \<open>A new connection\<close>

definition accept_peer ::
    "('k, 'w) nac_env \<Rightarrow> int \<Rightarrow> u32 \<Rightarrow> u16 \<Rightarrow> ('k, 'w) nac \<Rightarrow> c_error + ('k, 'w) nac" where
  "accept_peer E cfd cip cport = (\<lambda>(pm, w). case get_idle_peer pm of
     None \<Rightarrow> Inr (pm, w)
   | Some i \<Rightarrow>
       let (_, w) = tfnet_nonblock (ne_net E) cfd w;
           (_, w) = tfnet_enable_tcp_nodelay (ne_net E) cfd w
       in rbind (rd (pm_slots pm) i) (\<lambda>peer.
          let pm = pm\<lparr>pm_slots := (pm_slots pm)[i := peer\<lparr>pi_fd := cfd, pi_ip := cip, pi_port := cport, pi_active := True\<rparr>],
                      pm_connections := pm_connections pm + 1\<rparr>
          in rbind (aeCreateFileEvent (ne_api E) (pm_el pm) cfd AE_READABLE PEER_REQUEST i) (\<lambda>(el, r).
             let pm = pm\<lparr>pm_el := el\<rparr>
             in if r = AE_ERR then close_peer E i (pm, w)
                else rbind (set_timer i (pm_timeout pm) pm) (\<lambda>pm. Inr (pm, w)))))"

definition accept_tcp_handler :: "('k, 'w) nac_env \<Rightarrow> int \<Rightarrow> ('k, 'w) nac \<Rightarrow> (c_error + ('k, 'w) nac) option" where
  "accept_tcp_handler E fd = (\<lambda>(pm, w).
     map_option (\<lambda>(r, w). case r of
         None \<Rightarrow> Inr (pm, w)
       | Some (cfd, cip, cport) \<Rightarrow> accept_peer E cfd cip cport (pm, w))
       (tfnet_tcp_accept2 (ne_net E) fd w))"

section \<open>A request of a peer\<close>

text \<open>The message for the queue: a header of six words and what follows the eight bytes of the packet's own header.\<close>

definition build_request ::
    "byte list \<Rightarrow> byte list \<Rightarrow> nat \<Rightarrow> int \<Rightarrow> u32 \<Rightarrow> u32 \<Rightarrow> u32 \<Rightarrow> u32 \<Rightarrow> c_error + byte list" where
  "build_request data buffer len app_id dstid peer_id now cmd =
     rbind (host32cpy data 0 (word_of_int app_id)) (\<lambda>data.
     rbind (host32cpy data 4 dstid) (\<lambda>data.
     rbind (host32cpy data 8 peer_id) (\<lambda>data.
     rbind (host32cpy data 12 now) (\<lambda>data.
     rbind (host32cpy data 16 cmd) (\<lambda>data.
     rbind (host32cpy data 20 0) (\<lambda>data.
     rbind (slice buffer 8 (len - 8)) (\<lambda>body. blit data 24 body)))))))"

definition forward_request ::
    "('k, 'w) nac_env \<Rightarrow> nat \<Rightarrow> nat \<Rightarrow> ('k, 'w) nac \<Rightarrow> c_error + ('k, 'w) nac" where
  "forward_request E i len = (\<lambda>(pm, w).
     rbind (rd (pm_slots pm) i) (\<lambda>peer.
     rbind (net32cpy (pm_buffer pm) 0) (\<lambda>cmd.
     let dstid = drop_bit 16 (cmd AND 0x0fff0000); (now, w) = ne_time E w
     in rbind (build_request (pm_mq_data pm) (pm_buffer pm) len (pm_app_id pm) dstid (pi_id peer) now cmd) (\<lambda>data.
        let pm = pm\<lparr>pm_mq_data := data, pm_mq_type := uint dstid\<rparr>
        in rbind (ipc_write_queue (ne_ipc E) (pm_out_queue pm) (uint dstid) data (int (24 + (len - 8))) w) (\<lambda>(ok, w).
           if ok then rbind (set_timer i (pm_timeout pm) pm) (\<lambda>pm. Inr (pm, w))
           else close_peer E i (pm, w))))))"

definition peer_request_handler ::
    "('k, 'w) nac_env \<Rightarrow> int \<Rightarrow> nat \<Rightarrow> ('k, 'w) nac \<Rightarrow> c_error + ('k, 'w) nac" where
  "peer_request_handler E fd i = (\<lambda>(pm, w).
     rbind (tfnet_read (ne_net E) fd 2 w) (\<lambda>((ok, bs), w).
     if \<not> ok then close_peer E i (pm, w)
     else let len = unat (htons (word16 bs))
          in if len > MAX_PACKET_LEN \<or> len < 8 then close_peer E i (pm, w)
             else rbind (tfnet_read (ne_net E) fd len w) (\<lambda>((ok, bs), w).
                  rbind (blit (pm_buffer pm) 0 bs) (\<lambda>buffer.
                  let pm = pm\<lparr>pm_buffer := buffer\<rparr>
                  in if \<not> ok then close_peer E i (pm, w) else forward_request E i len (pm, w)))))"

section \<open>A response\<close>

definition forward_response ::
    "('k, 'w) nac_env \<Rightarrow> u16 \<Rightarrow> ('k, 'w) nac \<Rightarrow> c_error + ('k, 'w) nac" where
  "forward_response E len = (\<lambda>(pm, w).
     rbind (net32cpy (pm_buffer pm) 8) (\<lambda>pid.
     rbind (get_active_peer pm pid) (\<lambda>peer. case peer of
       None \<Rightarrow> Inr (pm, w)
     | Some i \<Rightarrow>
         let wlen = len - 16
         in rbind (host16cpy (pm_buffer pm) 14 wlen) (\<lambda>buffer.
            let pm = pm\<lparr>pm_buffer := buffer\<rparr>
            in rbind (slice buffer 14 (unat wlen + 2)) (\<lambda>out.
               rbind (rd (pm_slots pm) i) (\<lambda>peer.
               rbind (tfnet_write (ne_net E) (pi_fd peer) out w) (\<lambda>(ok, w).
               if \<not> ok then close_peer E i (pm, w)
               else rbind (set_timer i (pm_timeout pm) pm) (\<lambda>pm. Inr (pm, w)))))))))"

definition message_response_handler ::
    "('k, 'w) nac_env \<Rightarrow> int \<Rightarrow> ('k, 'w) nac \<Rightarrow> c_error + ('k, 'w) nac" where
  "message_response_handler E fd = (\<lambda>(pm, w).
     rbind (tfnet_read (ne_net E) fd 2 w) (\<lambda>((ok, bs), w).
     if \<not> ok then Inr (pm, w)
     else let len = htons (word16 bs)
          in rbind (tfnet_read (ne_net E) fd (unat len) w) (\<lambda>((ok, bs), w).
             rbind (blit (pm_buffer pm) 0 bs) (\<lambda>buffer.
             let pm = pm\<lparr>pm_buffer := buffer\<rparr>
             in if \<not> ok then Inr (pm, w) else forward_response E len (pm, w)))))"

text \<open>
  One turn of the thread, with what \<open>msgrcv\<close> returned (\<^term>\<open>None\<close> for an error): a message goes into the pair
  of sockets with its length in front; whether the writes succeed is not looked at.
\<close>

definition wait_response_turn ::
    "('k, 'w) nac_env \<Rightarrow> byte list option \<Rightarrow> ('k, 'w) nac \<Rightarrow> c_error + ('k, 'w) nac" where
  "wait_response_turn E received = (\<lambda>(pm, w). case received of
     None \<Rightarrow> Inr (pm, w)
   | Some data \<Rightarrow>
       if length data = 4 then Inr (pm, w)
       else if length data < 24 then Inr (pm, w)
       else rbind (tfnet_write (ne_net E) (snd (pm_pipe pm)) (bytes16 (htons (of_nat (length data)))) w) (\<lambda>(_, w).
            rbind (tfnet_write (ne_net E) (snd (pm_pipe pm)) data w) (\<lambda>(_, w). Inr (pm, w))))"

section \<open>Signals\<close>

datatype signum = SIGINT | SIGTERM | SIGHUP | SIGQUIT | SIGPIPE | SIGUSR1 | SIGUSR2

definition LOG_LEVEL_NUMS :: byte where "LOG_LEVEL_NUMS = 8"

definition safe_quit :: "('k, 'w) nac_env \<Rightarrow> ('k, 'w) nac \<Rightarrow> c_error + ('k, 'w) nac" where
  "safe_quit E = (\<lambda>(pm, w).
     let pm = pm\<lparr>pm_el := aeStop (pm_el pm)\<rparr>
     in if pm_mq_exit pm then Inr (pm, w)
        else rbind (blit (pm_mq_data pm) 0 (ascii ''0000'')) (\<lambda>data.
             let pm = pm\<lparr>pm_mq_data := data, pm_mq_type := pm_app_id pm\<rparr>
             in rbind (ipc_write_queue (ne_ipc E) (pm_in_queue pm) (pm_mq_type pm) data 4 w) (\<lambda>(_, w). Inr (pm, w))))"

definition signal_handler :: "('k, 'w) nac_env \<Rightarrow> signum \<Rightarrow> ('k, 'w) nac \<Rightarrow> c_error + ('k, 'w) nac" where
  "signal_handler E signum = (\<lambda>(pm, w).
     if signum \<in> {SIGINT, SIGTERM, SIGQUIT}
     then (if \<not> pm_quitting pm then safe_quit E (pm\<lparr>pm_quitting := True\<rparr>, w) else Inr (pm, w))
     else if signum = SIGUSR1
     then Inr (pm\<lparr>pm_log_level := (if pm_log_level pm < LOG_LEVEL_NUMS then pm_log_level pm + 1 else 0)\<rparr>, w)
     else if signum = SIGUSR2
     then Inr (pm\<lparr>pm_log_level := (if pm_log_level pm > 0 then pm_log_level pm - 1 else 4)\<rparr>, w)
     else Inr (pm, w))"

section \<open>Dispatch\<close>

text \<open>
  What the event loop does with a readable descriptor, and the other events of the process.  A
  descriptor whose event is not readable in the table is not dispatched.
\<close>

datatype nac_event =
    Readable int
  | Cycle
  | Queue_Message "byte list option"
  | Signal signum

definition dispatch :: "('k, 'w) nac_env \<Rightarrow> int \<Rightarrow> ('k, 'w) nac \<Rightarrow> (c_error + ('k, 'w) nac) option" where
  "dispatch E fd = (\<lambda>(pm, w).
     if fd < 0 \<or> length (el_events (pm_el pm)) \<le> nat fd then Some (Inl Out_Of_Bounds)
     else let fe = el_events (pm_el pm) ! nat fd
     in if fe_mask fe AND AE_READABLE = 0 then Some (Inr (pm, w))
        else case (fe_rproc fe, fe_data fe) of
          (Some proc, Some data) \<Rightarrow>
            (if proc = ACCEPT_TCP then accept_tcp_handler E fd (pm, w)
             else if proc = PEER_REQUEST then Some (peer_request_handler E fd data (pm, w))
             else if proc = MESSAGE_RESPONSE then Some (message_response_handler E fd (pm, w))
             else Some (Inl Uninitialised))
        | _ \<Rightarrow> Some (Inl Uninitialised))"

definition nac_step :: "('k, 'w) nac_env \<Rightarrow> nac_event \<Rightarrow> ('k, 'w) nac \<Rightarrow> (c_error + ('k, 'w) nac) option" where
  "nac_step E ev st = (case ev of
     Readable fd \<Rightarrow> dispatch E fd st
   | Cycle \<Rightarrow> Some (rbind (life_cycle_handler E st) (\<lambda>(st, _). Inr st))
   | Queue_Message m \<Rightarrow> Some (wait_response_turn E m st)
   | Signal s \<Rightarrow> Some (signal_handler E s st))"

text \<open>The states the process can be in from a state it started the loop with.\<close>

inductive nac_reach :: "('k, 'w) nac_env \<Rightarrow> ('k, 'w) nac \<Rightarrow> ('k, 'w) nac \<Rightarrow> bool" for E st0 where
  start: "nac_reach E st0 st0"
| step: "nac_reach E st0 st \<Longrightarrow> nac_step E ev st = Some (Inr st') \<Longrightarrow> nac_reach E st0 st'"

end
