(* ===== verification/TF_Nac_Inv.thy ===== *)
theory TF_Nac_Inv
  imports TF_Nac
begin

text \<open>
  The invariant of the relay: the slots, the event table and the open descriptors agree.  It is stated on
  the components first; the handlers are then shown to keep it, over any polling layer that keeps the
  contract of \<open>ae_backend\<close>.
\<close>

section \<open>The tables\<close>

text \<open>The file event of the slot \<open>i\<close> in the table.\<close>

definition registered :: "file_event list \<Rightarrow> int \<Rightarrow> nat \<Rightarrow> bool" where
  "registered ev fd i \<longleftrightarrow> 0 \<le> fd \<and> nat fd < length ev \<and> fe_mask (ev ! nat fd) = AE_READABLE \<and>
     fe_rproc (ev ! nat fd) = Some PEER_REQUEST \<and> fe_data (ev ! nat fd) = Some i"

text \<open>
  \<open>kept\<close> are the descriptors of the process itself: the listening socket and the pair.  \<open>opened\<close> are the
  open descriptors.
\<close>

definition slot_ok :: "int set \<Rightarrow> peer_info list \<Rightarrow> file_event list \<Rightarrow> int set \<Rightarrow> nat \<Rightarrow> bool" where
  "slot_ok kept slots ev opened i \<longleftrightarrow>
     registered ev (pi_fd (slots ! i)) i \<and> pi_fd (slots ! i) \<in> opened \<and> pi_fd (slots ! i) \<notin> kept"

definition table_entry_ok :: "int set \<Rightarrow> peer_info list \<Rightarrow> file_event list \<Rightarrow> nat \<Rightarrow> bool" where
  "table_entry_ok kept slots ev j \<longleftrightarrow>
     fe_mask (ev ! j) = AE_NONE \<or>
     (\<exists>i < length slots. pi_active (slots ! i) \<and> pi_fd (slots ! i) = int j) \<or>
     fe_mask (ev ! j) = AE_READABLE \<and> fe_rproc (ev ! j) \<in> {Some ACCEPT_TCP, Some MESSAGE_RESPONSE} \<and>
       fe_data (ev ! j) \<noteq> None \<and> int j \<in> kept"

definition tables_ok :: "int set \<Rightarrow> peer_info list \<Rightarrow> file_event list \<Rightarrow> u16 \<Rightarrow> int set \<Rightarrow> bool" where
  "tables_ok kept slots ev conn opened \<longleftrightarrow>
     length slots = MAX_PEER_NUMS \<and> conn = of_nat (length (filter pi_active slots)) \<and> kept \<subseteq> opened \<and>
     (\<forall>i < length slots. pi_id (slots ! i) = of_nat i + PEER_ID_OFFSET) \<and>
     (\<forall>i < length slots. pi_active (slots ! i) \<longrightarrow> slot_ok kept slots ev opened i) \<and>
     (\<forall>j < length ev. table_entry_ok kept slots ev j)"

lemma tablesD:
  assumes "tables_ok kept slots ev conn opened"
  shows "length slots = MAX_PEER_NUMS" "conn = of_nat (length (filter pi_active slots))" "kept \<subseteq> opened"
    "i < length slots \<Longrightarrow> pi_id (slots ! i) = of_nat i + PEER_ID_OFFSET"
    "i < length slots \<Longrightarrow> pi_active (slots ! i) \<Longrightarrow> slot_ok kept slots ev opened i"
    "j < length ev \<Longrightarrow> table_entry_ok kept slots ev j"
  using assms unfolding tables_ok_def by blast+

lemma count_update:
  "i < length xs \<Longrightarrow> length (filter P (xs[i := x])) + (if P (xs ! i) then 1 else 0) =
     length (filter P xs) + (if P x then 1 else 0)"
proof (induction xs arbitrary: i)
  case (Cons y xs)
  then show ?case by (cases i) auto
qed simp

lemma same_fd:
  assumes "tables_ok kept slots ev conn opened" "i < length slots" "j < length slots" "pi_active (slots ! i)"
    "pi_active (slots ! j)" "pi_fd (slots ! i) = pi_fd (slots ! j)"
  shows "i = j"
proof -
  have "registered ev (pi_fd (slots ! i)) i" "registered ev (pi_fd (slots ! i)) j"
    using tablesD(5) [OF assms(1,2,4)] tablesD(5) [OF assms(1,3,5)] assms(6) by (simp_all add: slot_ok_def)
  then show ?thesis by (simp add: registered_def)
qed

text \<open>A change of fields that nothing depends on.\<close>

lemma tables_same:
  assumes t: "tables_ok kept slots ev conn opened" and i: "i < length slots"
    and p: "pi_id p = pi_id (slots ! i)" "pi_active p = pi_active (slots ! i)" "pi_active p \<Longrightarrow> pi_fd p = pi_fd (slots ! i)"
  shows "tables_ok kept (slots[i := p]) ev conn opened"
proof -
  let ?s = "slots[i := p]"
  have c: "length (filter pi_active ?s) = length (filter pi_active slots)"
    using count_update [OF i, of pi_active p] p(2) by (auto split: if_splits)
  have f: "pi_active (?s ! j) = pi_active (slots ! j)" "pi_id (?s ! j) = pi_id (slots ! j)"
    "pi_active (slots ! j) \<Longrightarrow> pi_fd (?s ! j) = pi_fd (slots ! j)" for j
    using i p by (cases "j = i", simp_all)+
  have "slot_ok kept ?s ev opened j" if "j < length slots" "pi_active (?s ! j)" for j
    using tablesD(5) [OF t that(1)] that(2) f by (simp add: slot_ok_def)
  moreover have "table_entry_ok kept ?s ev j" if "j < length ev" for j
    using tablesD(6) [OF t that] f unfolding table_entry_ok_def by (metis length_list_update)
  moreover have "pi_id (?s ! j) = of_nat j + PEER_ID_OFFSET" if "j < length slots" for j
    using tablesD(4) [OF t that] f(2) by simp
  ultimately show ?thesis using tablesD(1-3) [OF t] c by (simp add: tables_ok_def)
qed

lemma registered_other:
  "registered ev fd i \<Longrightarrow> 0 \<le> fd' \<Longrightarrow> fd \<noteq> fd' \<Longrightarrow> registered (ev[nat fd' := e]) fd i"
  by (auto simp: registered_def nth_list_update eq_nat_nat_iff)

lemma tables_close:
  assumes t: "tables_ok kept slots ev conn opened" and i: "i < length slots" "pi_active (slots ! i)"
    and fd: "fd = pi_fd (slots ! i)"
    and p: "pi_id p = pi_id (slots ! i)" "\<not> pi_active p" and e: "fe_mask e = AE_NONE"
  shows "tables_ok kept (slots[i := p]) (ev[nat fd := e]) (conn - 1) (opened - {fd})"
proof -
  let ?s = "slots[i := p]" and ?e = "ev[nat fd := e]"
  have r: "registered ev fd i" "fd \<notin> kept" "fd \<in> opened" "0 \<le> fd"
    using tablesD(5) [OF t i] fd by (simp_all add: slot_ok_def registered_def)
  have "length (filter pi_active slots) = Suc (length (filter pi_active ?s))"
    using count_update [OF i(1), of pi_active p] i(2) p(2) by simp
  then have conn: "conn - 1 = of_nat (length (filter pi_active ?s))"
    using tablesD(2) [OF t] by simp
  have "slot_ok kept ?s ?e (opened - {fd}) j" if "j < length slots" "pi_active (?s ! j)" for j
  proof -
    have j: "j \<noteq> i" using that(2) i(1) p(2) by (cases "j = i") simp_all
    then have a: "pi_active (slots ! j)" "pi_fd (?s ! j) = pi_fd (slots ! j)" using that(2) by simp_all
    then have "pi_fd (slots ! j) \<noteq> fd" using same_fd [OF t that(1) i(1)] i(2) j fd by blast
    then show ?thesis using tablesD(5) [OF t that(1) a(1)] a(2) registered_other [OF _ r(4)]
      by (simp add: slot_ok_def)
  qed
  moreover have "table_entry_ok kept ?s ?e j" if "j < length ev" for j
  proof (cases "j = nat fd")
    case True
    then show ?thesis using that e by (simp add: table_entry_ok_def)
  next
    case False
    then have "fd \<noteq> int j" by auto
    then show ?thesis using tablesD(6) [OF t that] False fd unfolding table_entry_ok_def
      by (metis length_list_update nth_list_update_neq)
  qed
  moreover have "pi_id (?s ! j) = of_nat j + PEER_ID_OFFSET" if "j < length slots" for j
    using tablesD(4) [OF t that] i(1) p(1) by (cases "j = i") simp_all
  ultimately show ?thesis using tablesD(1,3) [OF t] r(2) conn by (auto simp: tables_ok_def)
qed

lemma tables_accept:
  assumes t: "tables_ok kept slots ev conn opened" and i: "i < length slots" "\<not> pi_active (slots ! i)"
    and fd: "0 \<le> fd" "nat fd < length ev" "fd \<notin> opened"
    and p: "pi_id p = pi_id (slots ! i)" "pi_active p" "pi_fd p = fd"
    and e: "fe_mask e = AE_READABLE" "fe_rproc e = Some PEER_REQUEST" "fe_data e = Some i"
  shows "tables_ok kept (slots[i := p]) (ev[nat fd := e]) (conn + 1) (insert fd opened)"
proof -
  let ?s = "slots[i := p]" and ?e = "ev[nat fd := e]"
  have "length (filter pi_active ?s) = Suc (length (filter pi_active slots))"
    using count_update [OF i(1), of pi_active p] i(2) p(2) by simp
  then have conn: "conn + 1 = of_nat (length (filter pi_active ?s))" using tablesD(2) [OF t] by (simp add: add.commute)
  have "slot_ok kept ?s ?e (insert fd opened) j" if "j < length slots" "pi_active (?s ! j)" for j
  proof (cases "j = i")
    case True
    then show ?thesis using i(1) fd p e tablesD(3) [OF t] by (auto simp: slot_ok_def registered_def)
  next
    case False
    then have a: "pi_active (slots ! j)" "?s ! j = slots ! j" using that(2) by simp_all
    note r = tablesD(5) [OF t that(1) a(1), unfolded slot_ok_def]
    then have "pi_fd (slots ! j) \<noteq> fd" using fd(3) by blast
    then show ?thesis using r a(2) registered_other [OF _ fd(1)] by (simp add: slot_ok_def)
  qed
  moreover have "table_entry_ok kept ?s ?e j" if "j < length ev" for j
  proof (cases "j = nat fd")
    case True
    then have "pi_active (?s ! i) \<and> pi_fd (?s ! i) = int j" using fd(1) i(1) p(2,3) by simp
    then show ?thesis using i(1) by (auto simp: table_entry_ok_def)
  next
    case False
    then show ?thesis using tablesD(6) [OF t that] i(2) unfolding table_entry_ok_def
      by (metis length_list_update nth_list_update_neq)
  qed
  moreover have "pi_id (?s ! j) = of_nat j + PEER_ID_OFFSET" if "j < length slots" for j
    using tablesD(4) [OF t that] i(1) p(1) by (cases "j = i") simp_all
  ultimately show ?thesis using tablesD(1,3) [OF t] conn by (auto simp: tables_ok_def)
qed

section \<open>Results that are not errors\<close>

text \<open>A call that returns, with a postcondition; and one that may also leave a buffer.\<close>

definition returns :: "('a \<Rightarrow> bool) \<Rightarrow> c_error + 'a \<Rightarrow> bool" where
  "returns P r \<longleftrightarrow> (case r of Inl e \<Rightarrow> False | Inr x \<Rightarrow> P x)"

definition bounded :: "('a \<Rightarrow> bool) \<Rightarrow> c_error + 'a \<Rightarrow> bool" where
  "bounded P r \<longleftrightarrow> (case r of Inl e \<Rightarrow> e = Out_Of_Bounds | Inr x \<Rightarrow> P x)"

lemma ok_simps [simp]: "returns P (Inr x) = P x" "returns P (Inl e) = False"
  by (simp_all add: returns_def)

lemma bounded_simps [simp]: "bounded P (Inr x) = P x" "bounded P (Inl e) = (e = Out_Of_Bounds)"
  by (simp_all add: bounded_def)

lemma ok_bind: "returns P m \<Longrightarrow> (\<And>x. m = Inr x \<Longrightarrow> P x \<Longrightarrow> returns Q (f x)) \<Longrightarrow> returns Q (rbind m f)"
  by (cases m) auto

lemma bounded_bind: "bounded P m \<Longrightarrow> (\<And>x. m = Inr x \<Longrightarrow> P x \<Longrightarrow> bounded Q (f x)) \<Longrightarrow> bounded Q (rbind m f)"
  by (cases m) auto

lemma ok_bounded: "returns P r \<Longrightarrow> bounded P r"
  by (cases r) auto

lemma ok_mono: "returns P r \<Longrightarrow> (\<And>x. P x \<Longrightarrow> Q x) \<Longrightarrow> returns Q r"
  by (cases r) auto

section \<open>The event table under registration\<close>

lemma create_events:
  "aeCreateFileEvent A el fd m p d = Inr (el', r) \<Longrightarrow>
     r = AE_ERR \<and> el_events el' = el_events el \<or>
     r = AE_OK \<and> 0 \<le> fd \<and> nat fd < length (el_events el) \<and>
       el_events el' = (el_events el)[nat fd := fe_register (el_events el ! nat fd) m p d]"
  by (auto simp: aeCreateFileEvent_def rbind_eq_Inr rd_def split: if_splits)

lemma delete_events:
  "aeDeleteFileEvent A el fd m = Inr el' \<Longrightarrow> fd < el_setsize el \<Longrightarrow> fe_mask (el_events el ! nat fd) = m \<Longrightarrow>
     \<exists>e. fe_mask e = 0 \<and> el_events el' = (el_events el)[nat fd := e]"
  by (auto simp: aeDeleteFileEvent_def rbind_eq_Inr rd_def Let_def split: if_splits
      intro: exI [of _ "el_events el ! nat fd"] exI [of _ "(el_events el ! nat fd)\<lparr>fe_mask := 0\<rparr>"])

lemma delete_nothing:
  "0 \<le> fd \<Longrightarrow> nat fd < length (el_events el) \<Longrightarrow> fe_mask (el_events el ! nat fd) = AE_NONE \<Longrightarrow>
     aeDeleteFileEvent A el fd m = Inr el"
  by (simp add: aeDeleteFileEvent_def)

section \<open>The invariant\<close>

text \<open>
  \<open>kept\<close> are the listening socket and the pair, \<open>opn\<close> the open descriptors of the system, \<open>sync\<close> relates
  the masks of the table to what the polling layer watches.
\<close>

definition relay_ok ::
    "(mask list \<Rightarrow> 'k \<Rightarrow> bool) \<Rightarrow> ('w \<Rightarrow> int set) \<Rightarrow> int set \<Rightarrow> ('k, 'w) nac \<Rightarrow> bool" where
  "relay_ok sync opn kept = (\<lambda>(pm, w).
     tables_ok kept (pm_slots pm) (el_events (pm_el pm)) (pm_connections pm) (opn w) \<and>
     loop_ok (pm_el pm) \<and> sync (el_masks (pm_el pm)) (el_api (pm_el pm)) \<and>
     length (pm_mq_data pm) = MAX_MQUEUE_LEN \<and> length (pm_buffer pm) = MAX_MQUEUE_LEN)"

text \<open>What the relay relies on: the descriptors of the system, and a queue and a clock that leave them alone.\<close>

definition env_doc :: "('k, 'w) nac_env \<Rightarrow> ('w \<Rightarrow> int set) \<Rightarrow> bool" where
  "env_doc E opn \<longleftrightarrow> nt_fds_doc (ne_net E) opn \<and>
     (\<forall>q t bs w. opn (snd (ip_msgsnd (ne_ipc E) q t bs w)) = opn w) \<and> (\<forall>w. opn (snd (ne_time E w)) = opn w)"

text \<open>A polling layer whose only failure is an access outside the table.\<close>

definition del_total :: "'k ae_api \<Rightarrow> bool" where
  "del_total A \<longleftrightarrow> (\<forall>ms k fd m e. api_del A ms k fd m = Inl e \<longrightarrow> e = Out_Of_Bounds) \<and>
     (\<forall>ms k fd m e. api_add A ms k fd m = Inl e \<longrightarrow> e = Out_Of_Bounds)"

lemma delete_ok: "del_total A \<Longrightarrow> safe P (aeDeleteFileEvent A el fd m) \<Longrightarrow> returns P (aeDeleteFileEvent A el fd m)"
  by (auto simp: aeDeleteFileEvent_def Let_def rd_def del_total_def returns_def safe_def rbind_def split: sum.splits if_splits)

lemma create_ok: "del_total A \<Longrightarrow> safe P (aeCreateFileEvent A el fd m p d) \<Longrightarrow> returns P (aeCreateFileEvent A el fd m p d)"
  by (auto simp: aeCreateFileEvent_def Let_def rd_def del_total_def returns_def safe_def rbind_def split: sum.splits if_splits)

lemma set_timer_ok:
  assumes "relay_ok sync opn kept (pm, w)" "i < MAX_PEER_NUMS"
  shows "returns (\<lambda>pm. relay_ok sync opn kept (pm, w)) (set_timer i t pm)"
proof -
  have t: "tables_ok kept (pm_slots pm) (el_events (pm_el pm)) (pm_connections pm) (opn w)"
    using assms(1) by (simp add: relay_ok_def)
  have i: "i < length (pm_slots pm)" using tablesD(1) [OF t] assms(2) by simp
  show ?thesis using assms(1) i tables_same [OF t i, of "(pm_slots pm ! i)\<lparr>pi_timer := t\<rparr>"]
    by (simp add: set_timer_def relay_ok_def)
qed

end
