(* ===== verification/TF_Nac_Relay.thy ===== *)
theory TF_Nac_Relay
  imports TF_Nac_Inv TF_AE_Props
begin

text \<open>
  The handlers of the relay keep its invariant: first over any polling layer with the contract
  \<open>ae_backend\<close>, then with epoll, the layer that the relay is built with on Linux.
\<close>

lemma env_docD:
  assumes "env_doc E opn"
  shows "nt_fds_doc (ne_net E) opn" "opn (snd (ip_msgsnd (ne_ipc E) q t bs w)) = opn w" "opn (snd (ne_time E w)) = opn w"
  using assms by (simp_all add: env_doc_def)

lemma relay_tables:
  "relay_ok sync opn kept (pm, w) \<Longrightarrow> tables_ok kept (pm_slots pm) (el_events (pm_el pm)) (pm_connections pm) (opn w)"
  by (simp add: relay_ok_def)

lemma relay_slots: "relay_ok sync opn kept (pm, w) \<Longrightarrow> length (pm_slots pm) = MAX_PEER_NUMS"
  using tablesD(1) [OF relay_tables] .

section \<open>Closing a peer\<close>

text \<open>What a cycle of the life does to a slot.\<close>

definition aged :: "peer_info \<Rightarrow> peer_info" where
  "aged p =
     (if \<not> pi_active p then p
      else if pi_timer p = 1 then p\<lparr>pi_timer := 0, pi_active := False, pi_authed := False\<rparr>
      else p\<lparr>pi_timer := pi_timer p - 1\<rparr>)"

text \<open>The slot \<open>i\<close> with the data of a new connection.\<close>

definition taken :: "nat \<Rightarrow> int \<Rightarrow> u32 \<Rightarrow> u16 \<Rightarrow> 'a process_mgr \<Rightarrow> peer_info" where
  "taken i cfd cip cport pm = (pm_slots pm ! i)\<lparr>pi_fd := cfd, pi_ip := cip, pi_port := cport, pi_active := True\<rparr>"

definition with_peer :: "nat \<Rightarrow> int \<Rightarrow> u32 \<Rightarrow> u16 \<Rightarrow> 'a process_mgr \<Rightarrow> 'a process_mgr" where
  "with_peer i cfd cip cport pm =
     pm\<lparr>pm_slots := (pm_slots pm)[i := taken i cfd cip cport pm], pm_connections := pm_connections pm + 1\<rparr>"

definition aged_at :: "nat set \<Rightarrow> peer_info list \<Rightarrow> peer_info list \<Rightarrow> bool" where
  "aged_at J slots slots' \<longleftrightarrow> length slots' = length slots \<and>
     (\<forall>j < length slots. slots' ! j = (if j \<in> J then aged (slots ! j) else slots ! j))"

text \<open>The descriptors of the slots whose last cycle it is.\<close>

definition expired :: "peer_info list \<Rightarrow> nat set \<Rightarrow> int set" where
  "expired slots J = {pi_fd (slots ! j) | j. j \<in> J \<and> pi_active (slots ! j) \<and> pi_timer (slots ! j) = 1}"

lemma expired_cong: "(\<And>j. j \<in> J \<Longrightarrow> slots ! j = slots' ! j) \<Longrightarrow> expired slots J = expired slots' J"
  unfolding expired_def by (metis (no_types, opaque_lifting))

lemma rbind_Inr_right [simp]: "rbind m Inr = m"
  by (cases m) simp_all

lemma life_loop_Cons: "life_loop E (i # is) st = rbind (life_loop E [i] st) (life_loop E is)"
  by (cases st) (simp add: rbind_def split: sum.splits)

section \<open>Calls that only fail by leaving a buffer\<close>

lemma blit_bounded: "bounded (\<lambda>d'. length d' = length d) (blit d off s)"
  by (simp add: blit_def)

lemma slice_bounded: "bounded (\<lambda>_. True) (slice d off n)"
  by (simp add: slice_def)

lemma net32_bounded: "bounded (\<lambda>_. True) (net32cpy d off)"
  by (simp add: net32cpy_def slice_def)

lemma host_bounded:
  "bounded (\<lambda>d'. length d' = length d) (host32cpy d off x)" "bounded (\<lambda>d'. length d' = length d) (host16cpy d off y)"
  unfolding host32cpy_def host16cpy_def by (rule blit_bounded)+

lemma read_loop_error: "read_loop N fd count got loop w = Inl e \<Longrightarrow> e = Out_Of_Bounds"
proof (induction N fd count got loop w rule: read_loop.induct)
  case (1 N fd count got loop w)
  obtain res w1 where w1: "nt_read N fd (count - length got) w = (res, w1)" by fastforce
  show ?case using "1.prems" "1.IH"(1) [OF _ w1 [symmetric]] "1.IH"(2) [OF _ w1 [symmetric]] w1
    by (subst (asm) read_loop.simps) (auto split: if_splits sum.splits)
qed

lemma write_loop_error: "write_loop N fd buf loop w = Inl e \<Longrightarrow> e = Out_Of_Bounds"
proof (induction N fd buf loop w rule: write_loop.induct)
  case (1 N fd buf loop w)
  obtain res w1 where w1: "nt_write N fd buf w = (res, w1)" by fastforce
  show ?case using "1.prems" "1.IH"(1) [OF _ w1 [symmetric]] "1.IH"(2) [OF _ w1 [symmetric]] w1
    by (subst (asm) write_loop.simps) (auto split: if_splits sum.splits)
qed

lemma transfer_bounded:
  assumes "nt_fds_doc N opn"
  shows "bounded (\<lambda>(_, w'). opn w' = opn w) (tfnet_read N fd n w)"
    "bounded (\<lambda>(_, w'). opn w' = opn w) (tfnet_write N fd buf w)"
  using transfer_fds [OF assms]
  by (auto simp: bounded_def tfnet_read_def tfnet_write_def dest: read_loop_error write_loop_error split: sum.splits)

lemma write_queue_bounded:
  "env_doc E opn \<Longrightarrow> bounded (\<lambda>(_, w'). opn w' = opn w) (ipc_write_queue (ne_ipc E) q t d len w)"
  by (simp add: ipc_write_queue_def slice_def split_def env_docD(2))

lemma read_step:
  assumes "nt_fds_doc N opn" "\<And>good bs w'. opn w' = opn w \<Longrightarrow> bounded P (f good bs w')"
  shows "bounded P (rbind (tfnet_read N fd n w) (\<lambda>((good, bs), w'). f good bs w'))"
  using transfer_bounded(1) [OF assms(1), of w fd n] assms(2) by (cases "tfnet_read N fd n w") auto

lemma write_step:
  assumes "nt_fds_doc N opn" "\<And>good w'. opn w' = opn w \<Longrightarrow> bounded P (f good w')"
  shows "bounded P (rbind (tfnet_write N fd buf w) (\<lambda>(good, w'). f good w'))"
  using transfer_bounded(2) [OF assms(1), of w fd buf] assms(2) by (cases "tfnet_write N fd buf w") auto

lemma queue_step:
  assumes "env_doc E opn" "\<And>good w'. opn w' = opn w \<Longrightarrow> bounded P (f good w')"
  shows "bounded P (rbind (ipc_write_queue (ne_ipc E) q t d len w) (\<lambda>(good, w'). f good w'))"
  using write_queue_bounded [OF assms(1), of w q t d len] assms(2) by (cases "ipc_write_queue (ne_ipc E) q t d len w") auto

lemma blit_step:
  "(\<And>d'. length d' = length d \<Longrightarrow> bounded P (f d')) \<Longrightarrow> bounded P (rbind (blit d off s) f)"
  by (rule bounded_bind [OF blit_bounded])

lemma net32_step: "(\<And>x. bounded P (f x)) \<Longrightarrow> bounded P (rbind (net32cpy d off) f)"
  by (rule bounded_bind [OF net32_bounded])

lemma host_step:
  "length data = n \<Longrightarrow> (\<And>d. length d = n \<Longrightarrow> bounded P (f d)) \<Longrightarrow> bounded P (rbind (host32cpy data off x) f)"
  by (rule bounded_bind [OF host_bounded(1)]) simp

lemma slice_step: "(\<And>b. bounded P (f b)) \<Longrightarrow> bounded P (rbind (slice d off n) f)"
  by (rule bounded_bind [OF slice_bounded])

lemma build_request_bounded:
  "bounded (\<lambda>d. length d = length data) (build_request data buffer len app dst pid now cmd)"
  unfolding build_request_def
  apply (intro host_step slice_step, (rule refl | assumption)+)
  subgoal for d1 d2 d3 d4 d5 d6 body using blit_bounded [of d6 24 body] by simp
  done

context ae_backend
begin

lemma relay_state: "relay_ok sync opn kept (pm, w) \<Longrightarrow> state_ok (pm_el pm)"
  by (simp add: relay_ok_def state_ok_def)

lemma state_relay:
  "state_ok el \<Longrightarrow> tables_ok kept slots (el_events el) conn (opn w) \<Longrightarrow> length (pm_mq_data pm) = MAX_MQUEUE_LEN \<Longrightarrow>
     length (pm_buffer pm) = MAX_MQUEUE_LEN \<Longrightarrow>
     relay_ok sync opn kept (pm\<lparr>pm_el := el, pm_slots := slots, pm_connections := conn\<rparr>, w)"
  by (simp add: relay_ok_def state_ok_def)

text \<open>A closed peer: its slot is idle, its descriptor closed, and every other slot as it was.\<close>

lemma close_peer_ok:
  assumes r: "relay_ok sync opn kept (pm, w)" and E: "ne_api E = A" "del_total A" "env_doc E opn"
    and i: "i < MAX_PEER_NUMS" "pi_active (pm_slots pm ! i)"
  shows "returns (\<lambda>(pm', w'). relay_ok sync opn kept (pm', w') \<and> opn w' = opn w - {pi_fd (pm_slots pm ! i)} \<and>
      pm_slots pm' = (pm_slots pm)[i := (pm_slots pm ! i)\<lparr>pi_active := False, pi_authed := False\<rparr>])
    (close_peer E i (pm, w))"
proof -
  let ?el = "pm_el pm" and ?p = "pm_slots pm ! i"
  let ?fd = "pi_fd ?p" and ?q = "?p\<lparr>pi_active := False, pi_authed := False\<rparr>"
  have t: "tables_ok kept (pm_slots pm) (el_events ?el) (pm_connections pm) (opn w)" by (rule relay_tables [OF r])
  have l: "i < length (pm_slots pm)" using relay_slots [OF r] i(1) by simp
  have reg: "registered (el_events ?el) ?fd i" using tablesD(5) [OF t l i(2)] by (simp add: slot_ok_def)
  have fd: "0 \<le> ?fd" "?fd < el_setsize ?el" "fe_mask (el_events ?el ! nat ?fd) = AE_READABLE"
    using reg r by (auto simp: registered_def relay_ok_def loop_ok_def)
  have "returns (keeps ?el) (aeDeleteFileEvent A ?el ?fd AE_READABLE)"
    by (rule delete_ok [OF E(2) delete_file [OF relay_state [OF r] fd(1)]])
  then obtain el where el: "aeDeleteFileEvent A ?el ?fd AE_READABLE = Inr el" "state_ok el"
    by (cases "aeDeleteFileEvent A ?el ?fd AE_READABLE") (auto simp: keeps_def)
  obtain e where e: "fe_mask e = 0" "el_events el = (el_events ?el)[nat ?fd := e]"
    using delete_events [OF el(1) fd(2,3)] by blast
  have o: "opn (nt_close (ne_net E) ?fd w) = opn w - {?fd}" by (rule nt_fdsD(5) [OF env_docD(1) [OF E(3)]])
  have "tables_ok kept ((pm_slots pm)[i := ?q]) (el_events el) (pm_connections pm - 1) (opn (nt_close (ne_net E) ?fd w))"
    using tables_close [OF t l i(2) refl, of ?q e] e o by simp
  then show ?thesis using el E(1) l r o
    by (simp add: close_peer_def relay_ok_def state_ok_def)
qed

text \<open>Anything that leaves the slots, the table, the connections and the descriptors alone keeps the invariant.\<close>

lemma relay_same:
  "relay_ok sync opn kept (pm, w) \<Longrightarrow> pm_slots pm' = pm_slots pm \<Longrightarrow> pm_el pm' = pm_el pm \<Longrightarrow>
     pm_connections pm' = pm_connections pm \<Longrightarrow> length (pm_mq_data pm') = length (pm_mq_data pm) \<Longrightarrow>
     length (pm_buffer pm') = length (pm_buffer pm) \<Longrightarrow> opn w' = opn w \<Longrightarrow> relay_ok sync opn kept (pm', w')"
  by (simp add: relay_ok_def)

section \<open>The life cycle\<close>

lemma life_loop_one:
  assumes E: "ne_api E = A" "del_total A" "env_doc E opn"
    and r: "relay_ok sync opn kept (pm, w)" and i: "i < MAX_PEER_NUMS"
  shows "returns (\<lambda>(pm', w'). relay_ok sync opn kept (pm', w') \<and> pm_slots pm' = (pm_slots pm)[i := aged (pm_slots pm ! i)] \<and>
        opn w' = opn w - expired (pm_slots pm) {i})
      (life_loop E [i] (pm, w))"
proof -
  let ?p = "pm_slots pm ! i"
  have l: "i < length (pm_slots pm)" using relay_slots [OF r] i by simp
  define q where "q = ?p\<lparr>pi_timer := pi_timer ?p - 1\<rparr>"
  define pm1 where "pm1 = pm\<lparr>pm_slots := (pm_slots pm)[i := q]\<rparr>"
  have q: "set_timer i (pi_timer ?p - 1) pm = Inr pm1" using l by (simp add: set_timer_def pm1_def q_def)
  then have r1: "relay_ok sync opn kept (pm1, w)" using set_timer_ok [OF r i, of "pi_timer ?p - 1"] by simp
  consider "\<not> pi_active ?p" | "pi_active ?p" "pi_timer ?p \<noteq> 1" | "pi_active ?p" "pi_timer ?p = 1" by blast
  then show ?thesis
  proof cases
    case 1
    then show ?thesis using r l by (simp add: aged_def expired_def)
  next
    case 2
    then show ?thesis using r1 l q by (simp add: aged_def pm1_def q_def expired_def)
  next
    case 3
    then have a: "pi_active (pm_slots pm1 ! i)" using l by (simp add: pm1_def q_def)
    have "life_loop E [] = Inr" by (rule ext) simp
    then have "life_loop E [i] (pm, w) = close_peer E i (pm1, w)" using 3 l q by simp
    moreover have "returns (\<lambda>(pm', w'). relay_ok sync opn kept (pm', w') \<and> pm_slots pm' = (pm_slots pm)[i := aged ?p] \<and>
        opn w' = opn w - expired (pm_slots pm) {i}) (close_peer E i (pm1, w))"
      using close_peer_ok [OF r1 E i a] 3 l by (elim ok_mono) (auto simp: aged_def pm1_def q_def expired_def)
    ultimately show ?thesis by simp
  qed
qed

lemma life_loop_ok:
  assumes E: "ne_api E = A" "del_total A" "env_doc E opn"
  shows "relay_ok sync opn kept (pm, w) \<Longrightarrow> set is \<subseteq> {..<MAX_PEER_NUMS} \<Longrightarrow> distinct is \<Longrightarrow>
    returns (\<lambda>(pm', w'). relay_ok sync opn kept (pm', w') \<and> aged_at (set is) (pm_slots pm) (pm_slots pm') \<and>
        opn w' = opn w - expired (pm_slots pm) (set is))
      (life_loop E is (pm, w))"
proof (induction "is" arbitrary: pm w)
  case (Cons i "is")
  have l: "i < length (pm_slots pm)" "i < MAX_PEER_NUMS" using relay_slots [OF Cons.prems(1)] Cons.prems(2) by simp_all
  have d: "set is \<subseteq> {..<MAX_PEER_NUMS}" "distinct is" "i \<notin> set is" using Cons.prems(2,3) by simp_all
  have step: "returns (\<lambda>(pm', w'). relay_ok sync opn kept (pm', w') \<and> aged_at (set (i # is)) (pm_slots pm) (pm_slots pm') \<and>
        opn w' = opn w - expired (pm_slots pm) (set (i # is))) (life_loop E is (pm1, w1))"
    if s: "relay_ok sync opn kept (pm1, w1)" "pm_slots pm1 = (pm_slots pm)[i := aged (pm_slots pm ! i)]"
      "opn w1 = opn w - expired (pm_slots pm) {i}" for pm1 w1
    using Cons.IH [OF s(1) d(1,2)]
  proof (elim ok_mono)
    fix st
    have "expired (pm_slots pm1) (set is) = expired (pm_slots pm) (set is)"
      using s(2) d(3) by (intro expired_cong) (metis nth_list_update_neq)
    then show "case st of (pm', w') \<Rightarrow> relay_ok sync opn kept (pm', w') \<and> aged_at (set (i # is)) (pm_slots pm) (pm_slots pm') \<and>
        opn w' = opn w - expired (pm_slots pm) (set (i # is))"
      if "case st of (pm', w') \<Rightarrow> relay_ok sync opn kept (pm', w') \<and> aged_at (set is) (pm_slots pm1) (pm_slots pm') \<and>
        opn w' = opn w1 - expired (pm_slots pm1) (set is)"
      using that s l(1) d(3) by (auto simp: aged_at_def nth_list_update expired_def)
  qed
  show ?case unfolding life_loop_Cons [of E i "is"]
    by (rule ok_bind [OF life_loop_one [OF E Cons.prems(1) l(2)]]) (use step in auto)
qed (simp add: aged_at_def expired_def)

text \<open>A cycle returns, keeps the invariant, ages every slot, and closes the descriptors of the expired ones.\<close>

lemma cycle_ok:
  assumes "ne_api E = A" "del_total A" "env_doc E opn" "relay_ok sync opn kept (pm, w)"
  shows "returns (\<lambda>((pm', w'), step). relay_ok sync opn kept (pm', w') \<and> pm_slots pm' = map aged (pm_slots pm) \<and>
        opn w' = opn w - expired (pm_slots pm) {..<MAX_PEER_NUMS})
      (life_cycle_handler E (pm, w))"
  unfolding life_cycle_handler_def
  using relay_slots [OF assms(4)]
  by (intro ok_bind [OF life_loop_ok [OF assms]])
    (auto simp: aged_at_def lessThan_atLeast0 intro!: nth_equalityI)

section \<open>A new connection\<close>

lemma tables_more:
  "tables_ok kept slots ev conn opened \<Longrightarrow> opened \<subseteq> opened' \<Longrightarrow> tables_ok kept slots ev conn opened'"
  by (auto simp: tables_ok_def slot_ok_def)

lemma fresh_entry:
  assumes "tables_ok kept slots ev conn opened" "j < length ev" "int j \<notin> opened"
  shows "fe_mask (ev ! j) = AE_NONE"
proof (rule ccontr)
  assume m: "fe_mask (ev ! j) \<noteq> AE_NONE"
  have "int j \<notin> kept" using tablesD(3) [OF assms(1)] assms(3) by blast
  then obtain i where i: "i < length slots" "pi_active (slots ! i)" "pi_fd (slots ! i) = int j"
    using tablesD(6) [OF assms(1,2)] m by (auto simp: table_entry_ok_def)
  then show False using tablesD(5) [OF assms(1) i(1,2)] assms(3) by (simp add: slot_ok_def)
qed

lemma idle_bound: "find_idle ps i = Some k \<Longrightarrow> i \<le> k \<and> k < i + length ps \<and> \<not> pi_active (ps ! (k - i))"
proof (induction ps arbitrary: i)
  case (Cons p ps)
  show ?case
  proof (cases "pi_active p")
    case True
    then have k: "i + 1 \<le> k \<and> k < i + 1 + length ps \<and> \<not> pi_active (ps ! (k - (i + 1)))"
      using Cons.IH [of "i + 1"] Cons.prems by simp
    then have "k - i = Suc (k - (i + 1))" by arith
    then show ?thesis using k by simp
  qed (use Cons.prems in auto)
qed simp

lemma fresh_event:
  "relay_ok sync opn kept (pm, w) \<Longrightarrow> 0 \<le> cfd \<Longrightarrow> cfd \<notin> opn w \<Longrightarrow> nat cfd < length (el_events (pm_el pm)) \<Longrightarrow>
     fe_mask (el_events (pm_el pm) ! nat cfd) = AE_NONE"
  using fresh_entry [OF relay_tables] by fastforce

lemma accept_refused:
  assumes r: "relay_ok sync opn kept (pm, w)" and E: "ne_api E = A" "env_doc E opn"
    and i: "i < length (pm_slots pm)" "\<not> pi_active (pm_slots pm ! i)"
    and fd: "0 \<le> cfd" "cfd \<notin> opn w" "opn w3 = insert cfd (opn w)"
    and el: "state_ok el" "el_events el = el_events (pm_el pm)"
  shows "returns (relay_ok sync opn kept) (close_peer E i (with_peer i cfd cip cport pm\<lparr>pm_el := el\<rparr>, w3))"
proof -
  let ?q = "(taken i cfd cip cport pm)\<lparr>pi_active := False, pi_authed := False\<rparr>"
  have "nat cfd < length (el_events el)" if "cfd < el_setsize el"
    using that fd(1) el(1) by (simp add: state_ok_def loop_ok_def)
  then have "aeDeleteFileEvent A el cfd AE_READABLE = Inr el"
    using delete_nothing [OF fd(1), of el A AE_READABLE] fresh_event [OF r fd(1,2)] el(2)
    by (cases "cfd < el_setsize el") (auto simp: aeDeleteFileEvent_def)
  then have "close_peer E i (with_peer i cfd cip cport pm\<lparr>pm_el := el\<rparr>, w3) =
      Inr (pm\<lparr>pm_el := el, pm_slots := (pm_slots pm)[i := ?q]\<rparr>, nt_close (ne_net E) cfd w3)"
    using i(1) E(1) by (simp add: close_peer_def with_peer_def taken_def)
  moreover have "tables_ok kept ((pm_slots pm)[i := ?q]) (el_events el) (pm_connections pm) (opn (nt_close (ne_net E) cfd w3))"
    using tables_same [OF relay_tables [OF r] i(1), of ?q] i(2) el(2) fd(2,3) nt_fdsD(5) [OF env_docD(1) [OF E(2)], of cfd w3]
    by (simp add: taken_def)
  ultimately show ?thesis using r el(1) by (simp add: relay_ok_def state_ok_def)
qed

lemma accept_registered:
  assumes r: "relay_ok sync opn kept (pm, w)" and i: "i < length (pm_slots pm)" "\<not> pi_active (pm_slots pm ! i)"
    and fd: "0 \<le> cfd" "cfd \<notin> opn w" "opn w3 = insert cfd (opn w)"
    and el: "state_ok el" "nat cfd < length (el_events (pm_el pm))"
      "el_events el = (el_events (pm_el pm))[nat cfd := fe_register (el_events (pm_el pm) ! nat cfd) AE_READABLE PEER_REQUEST i]"
  shows "relay_ok sync opn kept (with_peer i cfd cip cport pm\<lparr>pm_el := el\<rparr>, w3)"
proof -
  have "tables_ok kept ((pm_slots pm)[i := taken i cfd cip cport pm]) (el_events el) (pm_connections pm + 1) (insert cfd (opn w))"
    unfolding el(3) using fresh_event [OF r fd(1,2) el(2)]
    by (intro tables_accept [OF relay_tables [OF r] i fd(1) el(2) fd(2)]) (simp_all add: taken_def fe_register_def)
  then show ?thesis using r el(1) fd(3) by (simp add: relay_ok_def state_ok_def with_peer_def)
qed

lemma accept_peer_ok:
  assumes r: "relay_ok sync opn kept (pm, w)" and E: "ne_api E = A" "del_total A" "env_doc E opn"
    and fd: "0 \<le> cfd" "cfd \<notin> opn w" "opn w1 = insert cfd (opn w)"
  shows "returns (relay_ok sync opn kept) (accept_peer E cfd cip cport (pm, w1))"
proof (cases "get_idle_peer pm")
  case None
  have "tables_ok kept (pm_slots pm) (el_events (pm_el pm)) (pm_connections pm) (opn w1)"
    by (rule tables_more [OF relay_tables [OF r]]) (auto simp: fd(3))
  then show ?thesis using r None by (simp add: accept_peer_def relay_ok_def)
next
  case (Some i)
  let ?el = "pm_el pm"
  have i: "i < length (pm_slots pm)" "\<not> pi_active (pm_slots pm ! i)" "i < MAX_PEER_NUMS"
    using idle_bound [of "pm_slots pm" 0 i] Some relay_slots [OF r] by (simp_all add: get_idle_peer_def)
  obtain b2 w2 where w2: "tfnet_nonblock (ne_net E) cfd w1 = (b2, w2)" by fastforce
  obtain b3 w3 where w3: "tfnet_enable_tcp_nodelay (ne_net E) cfd w2 = (b3, w3)" by fastforce
  note net = env_docD(1) [OF E(3)]
  have o: "opn w3 = insert cfd (opn w)"
    using nonblock_fds [OF net, of cfd w1] nt_fdsD(6) [OF net, of cfd TCP_NODELAY 1 w2] w2 w3 fd(3)
    by (simp add: tfnet_enable_tcp_nodelay_def tfnet_tcp_nodelay_def)
  have "returns (\<lambda>(el', r). keeps ?el el') (aeCreateFileEvent A ?el cfd AE_READABLE PEER_REQUEST i)"
    by (rule create_ok [OF E(2) create_file [OF relay_state [OF r] fd(1)]]) simp
  then obtain el ret where c: "aeCreateFileEvent A ?el cfd AE_READABLE PEER_REQUEST i = Inr (el, ret)" "state_ok el"
    by (cases "aeCreateFileEvent A ?el cfd AE_READABLE PEER_REQUEST i") (auto simp: keeps_def)
  let ?pm = "with_peer i cfd cip cport pm\<lparr>pm_el := el\<rparr>"
  have eq: "accept_peer E cfd cip cport (pm, w1) =
      (if ret = AE_ERR then close_peer E i (?pm, w3) else rbind (set_timer i (pm_timeout pm) ?pm) (\<lambda>pm. Inr (pm, w3)))"
    using Some w2 w3 c(1) i(1) E(1) by (simp add: accept_peer_def with_peer_def taken_def)
  show ?thesis
  proof (cases "ret = AE_ERR")
    case True
    then show ?thesis using eq accept_refused [OF r E(1,3) i(1,2) fd(1,2) o c(2)] create_events [OF c(1)] by auto
  next
    case False
    then have "relay_ok sync opn kept (?pm, w3)"
      using accept_registered [OF r i(1,2) fd(1,2) o c(2)] create_events [OF c(1)] by auto
    from set_timer_ok [OF this i(3), of "pm_timeout pm"] show ?thesis
      unfolding eq using False by (auto elim: ok_bind)
  qed
qed

lemma accept_tcp_ok:
  assumes r: "relay_ok sync opn kept (pm, w)" and E: "ne_api E = A" "del_total A" "env_doc E opn"
    and a: "accept_tcp_handler E fd (pm, w) = Some res"
  shows "returns (relay_ok sync opn kept) res"
proof -
  obtain c w1 where c: "tfnet_tcp_accept2 (ne_net E) fd w = Some (c, w1)"
      "res = (case c of None \<Rightarrow> Inr (pm, w1) | Some (cfd, cip, cport) \<Rightarrow> accept_peer E cfd cip cport (pm, w1))"
    using a by (auto simp: accept_tcp_handler_def)
  note o = accept2_fds [OF c(1) env_docD(1) [OF E(3)]]
  show ?thesis
  proof (cases c)
    case None
    then show ?thesis using c(2) o relay_same [OF r refl refl refl refl refl] by simp
  next
    case (Some x)
    then show ?thesis using c(2) o accept_peer_ok [OF r E] by (cases x) simp
  qed
qed

section \<open>Requests and responses\<close>

lemma refresh_ok:
  assumes "relay_ok sync opn kept (pm, w)" "i < MAX_PEER_NUMS"
  shows "returns (relay_ok sync opn kept) (rbind (set_timer i t pm) (\<lambda>pm. Inr (pm, w)))"
  by (rule ok_bind [OF set_timer_ok [OF assms]]) simp

lemma close_relay:
  assumes "relay_ok sync opn kept (pm, w)" "ne_api E = A" "del_total A" "env_doc E opn"
    "i < MAX_PEER_NUMS" "pi_active (pm_slots pm ! i)"
  shows "returns (relay_ok sync opn kept) (close_peer E i (pm, w))"
  by (rule ok_mono [OF close_peer_ok [OF assms]]) auto

lemma end_request:
  assumes r: "relay_ok sync opn kept (pm, w)" and E: "ne_api E = A" "del_total A" "env_doc E opn"
    and i: "i < MAX_PEER_NUMS" "pi_active (pm_slots pm ! i)"
  shows "bounded (relay_ok sync opn kept)
    (if good then rbind (set_timer i t pm) (\<lambda>pm. Inr (pm, w)) else close_peer E i (pm, w))"
    "bounded (relay_ok sync opn kept)
    (if \<not> good then close_peer E i (pm, w) else rbind (set_timer i t pm) (\<lambda>pm. Inr (pm, w)))"
  using refresh_ok [OF r i(1)] close_relay [OF r E i] by (simp_all add: ok_bounded)

lemma forward_request_ok:
  assumes r: "relay_ok sync opn kept (pm, w)" and E: "ne_api E = A" "del_total A" "env_doc E opn"
    and i: "i < MAX_PEER_NUMS" "pi_active (pm_slots pm ! i)"
  shows "bounded (relay_ok sync opn kept) (forward_request E i len (pm, w))"
proof -
  have l: "i < length (pm_slots pm)" using relay_slots [OF r] i(1) by simp
  obtain now w1 where now: "ne_time E w = (now, w1)" "opn w1 = opn w"
    using env_docD(3) [OF E(3), of w] by (cases "ne_time E w") simp
  have "relay_ok sync opn kept (pm\<lparr>pm_mq_data := data, pm_mq_type := t\<rparr>, w2)"
    if "length data = length (pm_mq_data pm)" "opn w2 = opn w1" for data t w2
    by (rule relay_same [OF r]) (use that now in simp_all)
  then show ?thesis unfolding forward_request_def using l now(1) i(2)
    by (auto simp: Let_def intro!: net32_step bounded_bind [OF build_request_bounded] queue_step [OF E(3)] end_request(1) [OF _ E i(1)])
qed

lemma peer_request_ok:
  assumes r: "relay_ok sync opn kept (pm, w)" and E: "ne_api E = A" "del_total A" "env_doc E opn"
    and i: "i < MAX_PEER_NUMS" "pi_active (pm_slots pm ! i)"
  shows "bounded (relay_ok sync opn kept) (peer_request_handler E fd i (pm, w))"
proof -
  note net = env_docD(1) [OF E(3)]
  have same: "relay_ok sync opn kept (pm, w')" if "opn w' = opn w" for w'
    by (rule relay_same [OF r]) (use that in simp_all)
  have closed: "bounded (relay_ok sync opn kept) (close_peer E i (pm, w'))" if "opn w' = opn w" for w'
    using close_relay [OF same [OF that] E i] by (rule ok_bounded)
  have body: "bounded (relay_ok sync opn kept)
      (if \<not> good then close_peer E i (pm\<lparr>pm_buffer := b\<rparr>, w') else forward_request E i len (pm\<lparr>pm_buffer := b\<rparr>, w'))"
    if "length b = length (pm_buffer pm)" "opn w' = opn w" for good b w' len
  proof -
    have r2: "relay_ok sync opn kept (pm\<lparr>pm_buffer := b\<rparr>, w')" by (rule relay_same [OF r]) (use that in simp_all)
    show ?thesis using close_relay [OF r2 E i(1)] forward_request_ok [OF r2 E i(1)] i(2) by (simp add: ok_bounded)
  qed
  show ?thesis unfolding peer_request_handler_def using closed body
    by (auto simp: Let_def intro!: read_step [OF net] blit_step)
qed

lemma active_peer:
  assumes "relay_ok sync opn kept (pm, w)"
  shows "\<exists>r. get_active_peer pm pid = Inr r \<and> (\<forall>i. r = Some i \<longrightarrow> i < MAX_PEER_NUMS \<and> pi_active (pm_slots pm ! i))"
  using relay_slots [OF assms] by (auto simp: get_active_peer_def Let_def rbind_def rd_def nat_less_iff)

lemma forward_response_ok:
  assumes r: "relay_ok sync opn kept (pm, w)" and E: "ne_api E = A" "del_total A" "env_doc E opn"
  shows "bounded (relay_ok sync opn kept) (forward_response E len (pm, w))"
proof -
  note net = env_docD(1) [OF E(3)]
  have same: "relay_ok sync opn kept (pm\<lparr>pm_buffer := b\<rparr>, w')"
    if "length b = length (pm_buffer pm)" "opn w' = opn w" for b w'
    by (rule relay_same [OF r]) (use that in simp_all)
  obtain peer where g: "\<And>pid. get_active_peer pm pid = Inr (peer pid)"
      "\<And>pid i. peer pid = Some i \<Longrightarrow> i < MAX_PEER_NUMS \<and> pi_active (pm_slots pm ! i)"
    using active_peer [OF r] by metis
  show ?thesis unfolding forward_response_def prod.case
  proof (rule net32_step, unfold g(1) rbind_Inr)
    fix pid
    show "bounded (relay_ok sync opn kept)
      (case peer pid of None \<Rightarrow> Inr (pm, w)
       | Some i \<Rightarrow> let wlen = len - 16
          in rbind (host16cpy (pm_buffer pm) 14 wlen) (\<lambda>b. let pm = pm\<lparr>pm_buffer := b\<rparr>
             in rbind (slice b 14 (unat wlen + 2)) (\<lambda>out. rbind (rd (pm_slots pm) i) (\<lambda>peer.
                rbind (tfnet_write (ne_net E) (pi_fd peer) out w) (\<lambda>(ok, w). if \<not> ok then close_peer E i (pm, w)
                  else rbind (set_timer i (pm_timeout pm) pm) (\<lambda>pm. Inr (pm, w)))))))"
    proof (cases "peer pid")
      case (Some i)
      then show ?thesis using g(2) [OF Some] relay_slots [OF r]
        by (auto simp: Let_def intro!: bounded_bind [OF host_bounded(2)] slice_step write_step [OF net] end_request(2) [OF same E])
    qed (simp add: r)
  qed
qed

lemma message_response_ok:
  assumes r: "relay_ok sync opn kept (pm, w)" and E: "ne_api E = A" "del_total A" "env_doc E opn"
  shows "bounded (relay_ok sync opn kept) (message_response_handler E fd (pm, w))"
proof -
  have same: "relay_ok sync opn kept (pm\<lparr>pm_buffer := b\<rparr>, w')" "relay_ok sync opn kept (pm, w')"
    if "length b = length (pm_buffer pm)" "opn w' = opn w" for b w'
    by (rule relay_same [OF r], use that in simp_all)+
  then show ?thesis unfolding message_response_handler_def using forward_response_ok [OF same(1) E]
    by (auto simp: Let_def intro!: read_step [OF env_docD(1) [OF E(3)]] blit_step)
qed

section \<open>The other events\<close>

lemma wait_response_ok:
  assumes r: "relay_ok sync opn kept (pm, w)" and E: "env_doc E opn"
  shows "bounded (relay_ok sync opn kept) (wait_response_turn E m (pm, w))"
proof -
  have "relay_ok sync opn kept (pm, w')" if "opn w' = opn w" for w'
    by (rule relay_same [OF r]) (use that in simp_all)
  then show ?thesis unfolding wait_response_turn_def using r
    by (auto split: option.splits intro!: write_step [OF env_docD(1) [OF E]])
qed

lemma quit_ok:
  assumes r: "relay_ok sync opn kept (pm, w)" and E: "env_doc E opn"
  shows "returns (relay_ok sync opn kept) (safe_quit E (pm, w))"
proof -
  have s: "relay_ok sync opn kept (pm\<lparr>pm_el := aeStop (pm_el pm)\<rparr>, w)"
    using r by (simp add: relay_ok_def loop_ok_def aeStop_def)
  have l: "length (ascii ''0000'') = 4" "length (pm_mq_data pm) = MAX_MQUEUE_LEN" using r by (simp_all add: ascii_def relay_ok_def)
  let ?d = "ascii ''0000'' @ drop 4 (pm_mq_data pm)"
  let ?pm = "pm\<lparr>pm_el := aeStop (pm_el pm), pm_mq_data := ?d, pm_mq_type := pm_app_id pm\<rparr>"
  obtain b w1 where w1: "ipc_write_queue (ne_ipc E) (pm_in_queue pm) (pm_app_id pm) ?d 4 w = Inr (b, w1)"
  proof (cases "pm_in_queue pm < 0 \<or> pm_app_id pm = 0")
    case True
    then show ?thesis using that [of False w] by (simp add: ipc_write_queue_def MAX_MQUEUE_LEN_def)
  next
    case False
    then show ?thesis using l that by (cases "ip_msgsnd (ne_ipc E) (pm_in_queue pm) (pm_app_id pm) (take 4 ?d) w")
        (simp add: ipc_write_queue_def MAX_MQUEUE_LEN_def)
  qed
  then have "relay_ok sync opn kept (?pm, w1)" using write_queue_bounded [OF E, of w "pm_in_queue pm" "pm_app_id pm" ?d 4] l
    by (intro relay_same [OF s]) (simp_all add: MAX_MQUEUE_LEN_def)
  then show ?thesis using s l w1 by (simp add: safe_quit_def Let_def MAX_MQUEUE_LEN_def)
qed

lemma signal_ok:
  assumes r: "relay_ok sync opn kept (pm, w)" and E: "env_doc E opn"
  shows "returns (relay_ok sync opn kept) (signal_handler E s (pm, w))"
proof -
  have "relay_ok sync opn kept (pm\<lparr>pm_quitting := q, pm_log_level := l\<rparr>, w)" for q l
    by (rule relay_same [OF r]) simp_all
  from this [where q = True and l = "pm_log_level pm"] this [where q = "pm_quitting pm"] show ?thesis
    using r quit_ok [OF _ E, of kept "pm\<lparr>pm_quitting := True\<rparr>" w] by (simp add: signal_handler_def)
qed

section \<open>Every step\<close>

text \<open>
  The events other than a readable descriptor always return; a handler of a descriptor in the table may
  only fail by leaving a buffer.
\<close>

lemma dispatch_ok:
  assumes r: "relay_ok sync opn kept (pm, w)" and E: "ne_api E = A" "del_total A" "env_doc E opn"
    and d: "dispatch E fd (pm, w) = Some res"
  shows "bounded (relay_ok sync opn kept) res"
proof (cases "fd < 0 \<or> length (el_events (pm_el pm)) \<le> nat fd")
  case True
  then show ?thesis using d by (auto simp: dispatch_def)
next
  case False
  let ?fe = "el_events (pm_el pm) ! nat fd"
  have e: "table_entry_ok kept (pm_slots pm) (el_events (pm_el pm)) (nat fd)"
    using tablesD(6) [OF relay_tables [OF r]] False by simp
  consider "fe_mask ?fe = AE_NONE"
    | i where "i < MAX_PEER_NUMS" "pi_active (pm_slots pm ! i)" "registered (el_events (pm_el pm)) fd i"
    | d where "fe_mask ?fe = AE_READABLE" "fe_rproc ?fe \<in> {Some ACCEPT_TCP, Some MESSAGE_RESPONSE}" "fe_data ?fe = Some d"
  proof -
    consider "fe_mask ?fe = AE_NONE" | i where "i < length (pm_slots pm)" "pi_active (pm_slots pm ! i)" "pi_fd (pm_slots pm ! i) = fd"
      | d where "fe_mask ?fe = AE_READABLE" "fe_rproc ?fe \<in> {Some ACCEPT_TCP, Some MESSAGE_RESPONSE}" "fe_data ?fe = Some d"
      using e False by (auto simp: table_entry_ok_def)
    then show thesis using that tablesD(5) [OF relay_tables [OF r]] relay_slots [OF r]
      by cases (auto simp: slot_ok_def)
  qed
  then show ?thesis
  proof cases
    case 1
    then show ?thesis using d False r by (auto simp: dispatch_def)
  next
    case 2
    then show ?thesis using d False peer_request_ok [OF r E 2(1,2), of fd] by (auto simp: dispatch_def Let_def registered_def)
  next
    case 3
    then show ?thesis using d False accept_tcp_ok [OF r E] message_response_ok [OF r E]
      by (auto simp: dispatch_def Let_def ok_bounded)
  qed
qed

lemma step_ok:
  assumes r: "relay_ok sync opn kept st" and E: "ne_api E = A" "del_total A" "env_doc E opn"
    and s: "nac_step E ev st = Some res"
  shows "bounded (relay_ok sync opn kept) res"
proof (cases st)
  case (Pair pm w)
  note r = r [unfolded Pair] and s = s [unfolded Pair]
  have "bounded (relay_ok sync opn kept) (rbind (life_cycle_handler E (pm, w)) (\<lambda>(st, _). Inr st))"
    by (rule ok_bounded, rule ok_bind [OF cycle_ok [OF E r]]) auto
  then show ?thesis using s dispatch_ok [OF r E] wait_response_ok [OF r E(3)] signal_ok [OF r E(3)]
    by (auto simp: nac_step_def ok_bounded split: nac_event.splits)
qed

lemma reach_ok:
  "nac_reach E st0 st \<Longrightarrow> relay_ok sync opn kept st0 \<Longrightarrow> ne_api E = A \<Longrightarrow> del_total A \<Longrightarrow> env_doc E opn \<Longrightarrow>
     relay_ok sync opn kept st"
proof (induction rule: nac_reach.induct)
  case (step st ev st')
  then show ?case using step_ok [of opn kept st E ev "Inr st'"] by simp
qed

end

end
