(* ===== verification/TF_Nac_Demo.thy ===== *)
theory TF_Nac_Demo
  imports TF_Nac_Relay
begin

text \<open>
  A relay for the witnesses: it listens at 3, the slot 1 has a peer at 4 with two cycles left, and the pair of
  sockets is 5 and 6, of which what is written to 6 is read again.
\<close>

definition pair_net :: "(nat list \<times> byte list \<times> byte list) net" where
  "pair_net = demo_net\<lparr>nt_write := (\<lambda>fd buf (fds, i, out).
     (Inr (min 1 (length buf)), fds, if fd = 6 then i @ take 1 buf else i, if fd = 6 then out else out @ take 1 buf))\<rparr>"

definition demo_ipc :: "'w ipc" where
  "demo_ipc = \<lparr>ip_access = (\<lambda>f w. True), ip_ftok = (\<lambda>f i w. i), ip_msgget = (\<lambda>k w. (k, w)), ip_msgrm = (\<lambda>q w. (True, w)),
     ip_msgstat = (\<lambda>q w. Some 0), ip_msgsnd = (\<lambda>q t bs w. (True, w)), ip_shmget = (\<lambda>k n c w. (k, w)),
     ip_shmat = (\<lambda>s w. (Failed, w))\<rparr>"

definition demo_nac :: "((int \<Rightarrow> (u32 \<times> int) option) epoll_state, nat list \<times> byte list \<times> byte list) nac_env" where
  "demo_nac = \<lparr>ne_net = pair_net, ne_ipc = demo_ipc, ne_api = epoll_api demo_ctl demo_wait, ne_time = (\<lambda>w. (1, w))\<rparr>"

definition idle_slots :: "peer_info list" where
  "idle_slots = map (\<lambda>i. \<lparr>pi_id = of_nat i + PEER_ID_OFFSET, pi_fd = 0, pi_active = False, pi_authed = False,
     pi_ip = 0, pi_port = 0, pi_timer = 0\<rparr>) [0..<MAX_PEER_NUMS]"

definition demo_peer :: peer_info where
  "demo_peer = \<lparr>pi_id = 1 + PEER_ID_OFFSET, pi_fd = 4, pi_active = True, pi_authed = False, pi_ip = 0, pi_port = 0, pi_timer = 2\<rparr>"

definition own_events :: "file_event list" where
  "own_events = [blank_event, blank_event, blank_event, fe_register blank_event AE_READABLE ACCEPT_TCP 0, blank_event,
     fe_register blank_event AE_READABLE MESSAGE_RESPONSE 0]"

definition demo_el :: "(int \<Rightarrow> (u32 \<times> int) option) epoll_state ae_loop" where
  "demo_el = \<lparr>el_maxfd = 5, el_setsize = 6, el_next = 0, el_last = 0,
     el_events = own_events[4 := fe_register blank_event AE_READABLE PEER_REQUEST 1],
     el_fired = replicate 6 None, el_timers = [], el_stop = False,
     el_api = \<lparr>ep_fd = 7, ep_kern = [3 \<mapsto> (EPOLLIN, 3), 4 \<mapsto> (EPOLLIN, 4), 5 \<mapsto> (EPOLLIN, 5)]\<rparr>, el_sleep = None\<rparr>"

definition demo_pm :: "(int \<Rightarrow> (u32 \<times> int) option) epoll_state process_mgr" where
  "demo_pm = \<lparr>pm_log_level = 0, pm_app_id = 120, pm_timeout = 300, pm_connections = 1, pm_step = 1000, pm_in_queue = 0,
     pm_out_queue = 0,
     pm_el = demo_el,
     pm_pipe = (5, 6), pm_mq_exit = False, pm_quitting = False, pm_slots = idle_slots[1 := demo_peer], pm_mq_type = 0,
     pm_mq_data = replicate 4096 0, pm_buffer = replicate 4096 0\<rparr>"

lemma demo_nac_doc: "env_doc demo_nac demo_fds"
proof -
  have "nt_fds_doc pair_net demo_fds" using demo_net_fds
    by (simp add: nt_fds_doc_def pair_net_def demo_net_def split_def)
  then show ?thesis by (simp add: env_doc_def demo_nac_def demo_ipc_def)
qed

lemma idle_tables: "tables_ok {3, 5, 6} idle_slots own_events 0 {3, 5, 6}"
proof -
  have e: "table_entry_ok {3, 5, 6} idle_slots own_events j" if "j < 6" for j
  proof -
    consider "j = 0" | "j = 1" | "j = 2" | "j = 3" | "j = 4" | "j = 5" using \<open>j < 6\<close> by linarith
    then show ?thesis by cases (simp_all add: table_entry_ok_def own_events_def blank_event_def fe_register_def)
  qed
  have "length own_events = 6" by (simp add: own_events_def)
  moreover have "filter pi_active idle_slots = []" by (simp add: idle_slots_def filter_empty_conv)
  ultimately show ?thesis using e by (simp add: tables_ok_def idle_slots_def)
qed

lemma demo_relay: "relay_ok (epoll_sync (\<lambda>q. q)) demo_fds {3, 5, 6} (demo_pm, [3, 4, 5, 6], i, out)"
proof -
  have "tables_ok {3, 5, 6} (idle_slots[1 := demo_peer]) (own_events[nat 4 := fe_register blank_event AE_READABLE PEER_REQUEST 1])
      (0 + 1) (insert 4 {3, 5, 6})"
    by (rule tables_accept [OF idle_tables])
      (simp_all add: idle_slots_def MAX_PEER_NUMS_def demo_peer_def own_events_def fe_register_def blank_event_def)
  moreover have "loop_ok demo_el"
    by (simp add: loop_ok_def demo_el_def own_events_def max_registered_def blank_event_def fe_register_def event_ok_def timers_ok_def)
  moreover have "epoll_sync (\<lambda>q. q) (el_masks demo_el) (el_api demo_el)"
    unfolding epoll_sync_def
  proof
    fix fd :: int
    consider "fd < 0 \<or> 6 \<le> fd" | "fd = 0" | "fd = 1" | "fd = 2" | "fd = 3" | "fd = 4" | "fd = 5" by linarith
    then show "ep_kern (el_api demo_el) fd = (if 0 \<le> fd \<and> nat fd < length (el_masks demo_el) \<and> el_masks demo_el ! nat fd \<noteq> 0
        then Some (epoll_bits (el_masks demo_el ! nat fd), fd) else None)"
      by cases (auto simp: demo_el_def own_events_def blank_event_def fe_register_def epoll_bits_def)
  qed
  ultimately show ?thesis
    by (simp add: relay_ok_def demo_pm_def demo_el_def MAX_MQUEUE_LEN_def insert_commute)
qed

end
