(* ===== verification/TF_Nac_Flow.thy ===== *)
theory TF_Nac_Flow
  imports TF_Nac_Demo
begin

text \<open>
  The way of a request from a peer to the message queue, and of a response from the queue over the pair of
  sockets to the peer, as byte sequences.
\<close>

section \<open>Reading and writing whole messages\<close>

lemma read_full:
  assumes "nt_read_doc N rest fd" "nt_read_steady N rest fd" "rest w fd = bs @ r" "length bs = n"
  shows "\<exists>w'. tfnet_read N fd n w = Inr ((True, bs), w') \<and> rest w' fd = r"
proof -
  obtain good cs w' where t: "tfnet_read N fd n w = Inr ((good, cs), w')" "read_post N rest fd n w good cs w'"
    using tfnet_read_ok [OF assms(1)] by blast
  have "n \<le> length (rest w fd)" using assms(3,4) by simp
  then have "good" using t(2) assms(2) by (auto simp: read_post_def split: if_splits)
  then show ?thesis using t assms(3,4) by (auto simp: read_post_def append_eq_append_conv)
qed

text \<open>A descriptor that takes at least one byte of what is written.\<close>

definition nt_write_steady :: "'w net \<Rightarrow> int \<Rightarrow> bool" where
  "nt_write_steady N fd \<longleftrightarrow> (\<forall>buf w. buf \<noteq> [] \<longrightarrow> (case fst (nt_write N fd buf w) of Inl e \<Rightarrow> False | Inr n \<Rightarrow> 0 < n))"

lemma write_loop_steady:
  "nt_write_doc N out fd \<Longrightarrow> nt_write_steady N fd \<Longrightarrow> \<exists>w'. write_loop N fd buf loop w = Inr (True, w')"
proof (induction N fd buf loop w rule: write_loop.induct)
  case (1 N fd buf loop w)
  show ?case
  proof (cases "buf = []")
    case True
    then show ?thesis by (simp add: write_loop.simps)
  next
    case False
    have "case fst (nt_write N fd buf w) of Inl e \<Rightarrow> False | Inr n \<Rightarrow> 0 < n"
      using "1.prems"(2) False unfolding nt_write_steady_def by blast
    then obtain n w1 where w1: "nt_write N fd buf w = (Inr n, w1)" "n \<noteq> 0"
      by (cases "nt_write N fd buf w"; cases "fst (nt_write N fd buf w)") auto
    have "n \<le> length buf" using nt_write_docD(2) [OF "1.prems"(1) w1(1)] by simp
    then have "write_loop N fd buf loop w = write_loop N fd (drop n buf) loop w1"
      using False w1 by (subst write_loop.simps) simp
    then show ?thesis
      using "1.IH"(2) [OF False w1(1) [symmetric] refl w1(2) _ "1.prems"] \<open>n \<le> length buf\<close> by simp
  qed
qed

lemma write_full:
  assumes "nt_write_doc N out fd" "nt_write_steady N fd"
  shows "\<exists>w'. tfnet_write N fd buf w = Inr (True, w') \<and> out w' fd = out w fd @ buf"
proof -
  obtain w' where w': "write_loop N fd buf 0 w = Inr (True, w')" using write_loop_steady [OF assms] by blast
  then show ?thesis using write_loop_ok [OF assms(1), of buf 0 w] by (auto simp: tfnet_write_def)
qed

section \<open>A request\<close>

definition request_message :: "int \<Rightarrow> u32 \<Rightarrow> u32 \<Rightarrow> u32 \<Rightarrow> u32 \<Rightarrow> byte list \<Rightarrow> byte list" where
  "request_message app dst peer_id now cmd body =
     big32 (word_of_int app) @ big32 dst @ big32 peer_id @ big32 now @ big32 cmd @ big32 0 @ body"

lemma length_request [simp]: "length (request_message app dst peer_id now cmd body) = 24 + length body"
  by (simp add: request_message_def)

lemma build_request_message:
  assumes "24 + (n - 8) \<le> length data" "8 + (n - 8) \<le> length buffer"
  shows "build_request data buffer n app dst pid now cmd =
    Inr (request_message app dst pid now cmd (take (n - 8) (drop 8 buffer)) @ drop (24 + (n - 8)) data)"
proof -
  define q where "q = drop 24 data"
  obtain d where d: "data = d @ q" "length d = 24"
    using assms(1) by (intro that [of "take 24 data"]) (simp_all add: q_def)
  have "length q \<ge> n - 8" using assms(1) d by simp
  have "build_request data buffer n app dst pid now cmd =
      rbind (slice buffer 8 (n - 8)) (\<lambda>body. blit (request_message app dst pid now cmd [] @ q) 24 body)"
    unfolding build_request_def d(1) request_message_def
    using d(2) by (simp add: host32cpy_ok)
  then show ?thesis using assms d \<open>length q \<ge> n - 8\<close> by (simp add: request_message_def)
qed

lemma build_request_overrun:
  assumes "length data < 24 + (n - 8)" "24 \<le> length data" "8 + (n - 8) \<le> length buffer"
  shows "build_request data buffer n app dst pid now cmd = Inl Out_Of_Bounds"
  using assms by (simp add: build_request_def host32cpy_ok blit_def)

text \<open>
  The outcome of a request of \<open>n\<close> bytes \<open>p\<close> that came from the peer of slot \<open>i\<close>, in the state \<open>pm\<close>
  whose buffer holds it, when the system is in \<open>w\<close>.
\<close>

definition request_outcome ::
    "('k, 'w) nac_env \<Rightarrow> nat \<Rightarrow> byte list \<Rightarrow> ('k, 'w) nac \<Rightarrow> c_error + ('k, 'w) nac" where
  "request_outcome E i p = (\<lambda>(pm, w).
     let cmd = htonl (word32 (take 4 p)); dst = drop_bit 16 (cmd AND 0x0fff0000); (now, w) = ne_time E w;
         msg = request_message (pm_app_id pm) dst (pi_id (pm_slots pm ! i)) now cmd (drop 8 p);
         pm = pm\<lparr>pm_mq_data := msg @ drop (length msg) (pm_mq_data pm), pm_mq_type := uint dst\<rparr>
     in if length msg > MAX_MQUEUE_LEN then Inl Out_Of_Bounds
        else if length msg = MAX_MQUEUE_LEN \<or> dst = 0 \<or> pm_out_queue pm < 0 then close_peer E i (pm, w)
        else case ip_msgsnd (ne_ipc E) (pm_out_queue pm) (uint dst) msg w of
          (True, w) \<Rightarrow> rbind (set_timer i (pm_timeout pm) pm) (\<lambda>pm. Inr (pm, w))
        | (False, w) \<Rightarrow> close_peer E i (pm, w))"

text \<open>The last part of a request: the message is handed to the queue.\<close>

definition send_request ::
    "('k, 'w) nac_env \<Rightarrow> nat \<Rightarrow> u32 \<Rightarrow> byte list \<Rightarrow> nat \<Rightarrow> ('k, 'w) nac \<Rightarrow> c_error + ('k, 'w) nac" where
  "send_request E i dst data len = (\<lambda>(pm, w).
     let pm = pm\<lparr>pm_mq_data := data, pm_mq_type := uint dst\<rparr>
     in rbind (ipc_write_queue (ne_ipc E) (pm_out_queue pm) (uint dst) data (int len) w) (\<lambda>(ok, w).
        if ok then rbind (set_timer i (pm_timeout pm) pm) (\<lambda>pm. Inr (pm, w)) else close_peer E i (pm, w)))"

lemma send_request_outcome:
  assumes "length msg \<le> MAX_MQUEUE_LEN" "0 < length msg"
  shows "send_request E i dst (msg @ q) (length msg) (pm, w) =
    (let pm = pm\<lparr>pm_mq_data := msg @ q, pm_mq_type := uint dst\<rparr>
     in if length msg = MAX_MQUEUE_LEN \<or> dst = 0 \<or> pm_out_queue pm < 0 then close_peer E i (pm, w)
        else case ip_msgsnd (ne_ipc E) (pm_out_queue pm) (uint dst) msg w of
          (True, w) \<Rightarrow> rbind (set_timer i (pm_timeout pm) pm) (\<lambda>pm. Inr (pm, w))
        | (False, w) \<Rightarrow> close_peer E i (pm, w))"
proof -
  have "uint dst = 0 \<longleftrightarrow> dst = 0" by (metis uint_0_iff)
  then show ?thesis using assms
    by (auto simp: send_request_def Let_def ipc_write_queue_def split: prod.splits bool.splits)
qed

lemma forward_request_outcome:
  assumes "i < length (pm_slots pm)" "length (pm_mq_data pm) = MAX_MQUEUE_LEN" "pm_buffer pm = p @ q"
    "length p = n" "8 \<le> n"
  shows "forward_request E i n (pm, w) = request_outcome E i p (pm, w)"
proof -
  define cmd where "cmd = htonl (word32 (take 4 p))"
  define dst where "dst = drop_bit 16 (cmd AND 0x0fff0000)"
  obtain now w1 where now: "ne_time E w = (now, w1)" by fastforce
  define msg where "msg = request_message (pm_app_id pm) dst (pi_id (pm_slots pm ! i)) now cmd (drop 8 p)"
  have cmd: "net32cpy (pm_buffer pm) 0 = Inr cmd"
    using assms by (simp add: net32cpy_def slice_def cmd_def)
  have body: "take (n - 8) (drop 8 (pm_buffer pm)) = drop 8 p" "8 + (n - 8) \<le> length (pm_buffer pm)"
    using assms(3-5) by simp_all
  have len: "length msg = 24 + (n - 8)" using assms(4) by (simp add: msg_def)
  have fr: "forward_request E i n (pm, w) =
      rbind (build_request (pm_mq_data pm) (pm_buffer pm) n (pm_app_id pm) dst (pi_id (pm_slots pm ! i)) now cmd) (\<lambda>data.
        send_request E i dst data (length msg) (pm, w1))"
    by (simp only: forward_request_def send_request_def prod.case Let_def cmd rd_ok [OF assms(1)] rbind_Inr now dst_def len)
  have ro: "request_outcome E i p (pm, w) =
      (let pm = pm\<lparr>pm_mq_data := msg @ drop (length msg) (pm_mq_data pm), pm_mq_type := uint dst\<rparr>
       in if length msg > MAX_MQUEUE_LEN then Inl Out_Of_Bounds
          else if length msg = MAX_MQUEUE_LEN \<or> dst = 0 \<or> pm_out_queue pm < 0 then close_peer E i (pm, w1)
          else case ip_msgsnd (ne_ipc E) (pm_out_queue pm) (uint dst) msg w1 of
            (True, w) \<Rightarrow> rbind (set_timer i (pm_timeout pm) pm) (\<lambda>pm. Inr (pm, w))
          | (False, w) \<Rightarrow> close_peer E i (pm, w))"
    by (simp only: request_outcome_def prod.case Let_def now dst_def cmd_def msg_def)
  show ?thesis
  proof (cases "24 + (n - 8) \<le> MAX_MQUEUE_LEN")
    case True
    note m = build_request_message [OF True [folded assms(2)] body(2), unfolded body(1)]
    have le: "length msg \<le> MAX_MQUEUE_LEN" "0 < length msg" using True len by simp_all
    then have ng: "(MAX_MQUEUE_LEN < length msg) = False" by simp
    have "forward_request E i n (pm, w) = send_request E i dst (msg @ drop (length msg) (pm_mq_data pm)) (length msg) (pm, w1)"
      unfolding fr m rbind_Inr by (simp add: msg_def len [unfolded msg_def] assms(4))
    then show ?thesis unfolding ro send_request_outcome [OF le] by (simp only: Let_def ng if_False)
  next
    case False
    then have "forward_request E i n (pm, w) = Inl Out_Of_Bounds"
      using assms(2) body(2) build_request_overrun [of "pm_mq_data pm" n "pm_buffer pm"] unfolding fr
      by (simp add: MAX_MQUEUE_LEN_def)
    then show ?thesis using False len unfolding ro by (simp add: Let_def)
  qed
qed

text \<open>
  C3: A request that has arrived whole, its length in front, is taken from the stream of its peer exactly,
  however the system divides it.  A length below 8 or above 4096 closes the peer.  Otherwise the message is the header of six
  numbers and what follows the first eight bytes of the packet, and it is handed to the queue under the type in bits 16 to 27
  of the packet's first word; the peer's timer starts again when the queue takes it, and the peer is closed when it does
  not, or when the type is 0.  A packet of exactly 4080 bytes is always refused, and a longer one overruns the message buffer.
\<close>

theorem request_relayed:
  assumes "nt_read_doc (ne_net E) rest fd" "nt_read_steady (ne_net E) rest fd"
    "i < length (pm_slots pm)" "length (pm_mq_data pm) = MAX_MQUEUE_LEN" "length (pm_buffer pm) = MAX_MQUEUE_LEN"
    "rest w fd = big16 (of_nat (length p)) @ p @ r" "length p < 2 ^ 16"
  shows "\<exists>w1. if length p < 8 \<or> length p > 4096
    then rest w1 fd = p @ r \<and> peer_request_handler E fd i (pm, w) = close_peer E i (pm, w1)
    else rest w1 fd = r \<and> peer_request_handler E fd i (pm, w) =
           request_outcome E i p (pm\<lparr>pm_buffer := p @ drop (length p) (pm_buffer pm)\<rparr>, w1)"
proof -
  obtain w1 where w1: "tfnet_read (ne_net E) fd 2 w = Inr ((True, big16 (of_nat (length p))), w1)" "rest w1 fd = p @ r"
    using read_full [OF assms(1,2,6)] by auto
  have len: "unat (htons (word16 (big16 (of_nat (length p))))) = length p"
    using assms(7) by (simp add: htons_word16 unsigned_of_nat take_bit_eq_mod del: word16.simps)
  show ?thesis
  proof (cases "length p < 8 \<or> length p > 4096")
    case True
    then show ?thesis using w1 len
      by (intro exI [of _ w1]) (auto simp: peer_request_handler_def Let_def MAX_PACKET_LEN_def simp del: word16.simps)
  next
    case False
    obtain w2 where w2: "tfnet_read (ne_net E) fd (length p) w1 = Inr ((True, p), w2)" "rest w2 fd = r"
      using read_full [OF assms(1,2) w1(2) refl] by blast
    have "peer_request_handler E fd i (pm, w) =
        forward_request E i (length p) (pm\<lparr>pm_buffer := p @ drop (length p) (pm_buffer pm)\<rparr>, w2)"
      using False w1 w2 len assms(5)
      by (simp add: peer_request_handler_def Let_def MAX_PACKET_LEN_def MAX_MQUEUE_LEN_def del: word16.simps)
    also have "\<dots> = request_outcome E i p (pm\<lparr>pm_buffer := p @ drop (length p) (pm_buffer pm)\<rparr>, w2)"
      by (rule forward_request_outcome) (use assms(3,4) False in simp_all)
    finally show ?thesis using False w2(2) by auto
  qed
qed

text \<open>The system of the witnesses keeps what is documented.\<close>

lemma pair_docs:
  "nt_read_doc pair_net (\<lambda>w fd. fst (snd w)) 4" "nt_read_steady pair_net (\<lambda>w fd. fst (snd w)) 4"
  "nt_read_doc pair_net (\<lambda>w fd. fst (snd w)) 5" "nt_read_steady pair_net (\<lambda>w fd. fst (snd w)) 5"
  "nt_write_doc pair_net (\<lambda>w fd. fst (snd w)) 6" "nt_write_steady pair_net 6"
  "nt_write_doc pair_net (\<lambda>w fd. snd (snd w)) 4" "nt_write_steady pair_net 4"
proof -
  have "min (Suc 0) n = (if n = 0 then 0 else 1)" for n by simp
  then show "nt_read_doc pair_net (\<lambda>w fd. fst (snd w)) 4" "nt_read_steady pair_net (\<lambda>w fd. fst (snd w)) 4"
    "nt_read_doc pair_net (\<lambda>w fd. fst (snd w)) 5" "nt_read_steady pair_net (\<lambda>w fd. fst (snd w)) 5"
    "nt_write_doc pair_net (\<lambda>w fd. fst (snd w)) 6" "nt_write_steady pair_net 6"
    "nt_write_doc pair_net (\<lambda>w fd. snd (snd w)) 4" "nt_write_steady pair_net 4"
    by (auto simp: nt_read_doc_def nt_read_steady_def nt_write_doc_def nt_write_steady_def pair_net_def demo_net_def Suc_le_eq)
qed

lemma demo_lengths:
  "length (pm_slots demo_pm) = MAX_PEER_NUMS" "length (pm_mq_data demo_pm) = MAX_MQUEUE_LEN"
  "length (pm_buffer demo_pm) = MAX_MQUEUE_LEN" "pm_slots demo_pm ! 1 = demo_peer" "ne_net demo_nac = pair_net"
  by (simp_all add: demo_pm_def idle_slots_def MAX_MQUEUE_LEN_def MAX_PEER_NUMS_def demo_nac_def)

theorem request_relayed_witness:
  "\<exists>w1. fst (snd w1) = [] \<and> peer_request_handler demo_nac 4 1 (demo_pm, [], [0, 8, 0, 9, 0, 0, 1, 2, 3, 4], []) =
     request_outcome demo_nac 1 [0, 9, 0, 0, 1, 2, 3, 4] (demo_pm\<lparr>pm_buffer := [0, 9, 0, 0, 1, 2, 3, 4] @ replicate 4088 0\<rparr>, w1)"
proof -
  let ?p = "[0, 9, 0, 0, 1, 2, 3, 4] :: byte list"
  have b: "big16 (of_nat (length ?p)) = [0, 8]" by (simp add: big16_def)
  have d: "drop (length ?p) (pm_buffer demo_pm) = replicate 4088 0" by (simp add: demo_pm_def)
  have l: "1 < length (pm_slots demo_pm)" using demo_lengths(1) by (simp add: MAX_PEER_NUMS_def)
  from request_relayed [of demo_nac "\<lambda>w fd. fst (snd w)" 4 1 demo_pm "([], [0, 8] @ ?p, [])" ?p "[]", unfolded b d]
  show ?thesis using pair_docs demo_lengths l by simp
qed

section \<open>A response\<close>

lemma index_of_id:
  assumes "i < MAX_PEER_NUMS"
  shows "sint (of_nat i + PEER_ID_OFFSET - PEER_ID_OFFSET) = int i"
proof -
  have "unat (of_nat i :: u32) = i" using assms by (simp add: unat_u32 MAX_PEER_NUMS_def)
  then show ?thesis using sint_u32 [of "of_nat i"] assms by (simp add: MAX_PEER_NUMS_def)
qed

lemma get_active_peer_id:
  assumes "length (pm_slots pm) = MAX_PEER_NUMS" "i < MAX_PEER_NUMS"
  shows "get_active_peer pm (of_nat i + PEER_ID_OFFSET) =
    Inr (if 0 < i \<and> pi_active (pm_slots pm ! i) then Some i else None)"
  using assms unfolding get_active_peer_def index_of_id [OF assms(2)] by (simp add: Let_def)

text \<open>What a peer is sent: the length and the message without its first 16 bytes.\<close>

definition response_bytes :: "byte list \<Rightarrow> byte list" where
  "response_bytes m = big16 (of_nat (length m - 16)) @ drop 16 m"

lemma response_buffer:
  assumes "24 \<le> length m" "length m \<le> 4096" "length q + length m = 4096"
  shows "\<exists>b. host16cpy (m @ q) 14 (of_nat (length m) - 16) = Inr b \<and> length b = 4096 \<and>
    slice b 14 (unat (of_nat (length m) - 16 :: u16) + 2) = Inr (response_bytes m)"
proof -
  define k where "k = length m - 16"
  have k: "length m = 16 + k" "k < 2 ^ 16" using assms(1,2) by (simp_all add: k_def)
  have w: "of_nat (length m) - 16 = (of_nat k :: u16)" by (simp add: k(1))
  have u: "unat (of_nat k :: u16) = k" using k(2) by (simp add: unsigned_of_nat take_bit_eq_mod)
  have h: "host16cpy (m @ q) 14 (of_nat k) = Inr (take 14 m @ big16 (of_nat k) @ drop 16 m @ q)"
    using assms k(1) by (simp add: host16cpy_ok)
  have "slice (take 14 m @ big16 (of_nat k) @ drop 16 m @ q) 14 (k + 2) = Inr (response_bytes m)"
    using k(1) assms(1) unfolding response_bytes_def by (simp add: slice_def)
  then show ?thesis unfolding w u using h k(1) assms by (intro exI [of _ "take 14 m @ big16 (of_nat k) @ drop 16 m @ q"]) simp
qed

lemma forward_response_sends:
  assumes l: "length (pm_slots pm) = MAX_PEER_NUMS" and i: "0 < i" "i < MAX_PEER_NUMS" "pi_active (pm_slots pm ! i)"
    and m: "24 \<le> length m" "length m \<le> 4096" "pm_buffer pm = m @ q" "length (pm_buffer pm) = 4096"
    and pid: "take 4 (drop 8 m) = big32 (of_nat i + PEER_ID_OFFSET)"
    and w: "tfnet_write (ne_net E) (pi_fd (pm_slots pm ! i)) (response_bytes m) w = Inr (True, w')"
  shows "\<exists>b. length b = 4096 \<and> forward_response E (of_nat (length m)) (pm, w) =
    Inr (pm\<lparr>pm_buffer := b, pm_slots := (pm_slots pm)[i := (pm_slots pm ! i)\<lparr>pi_timer := pm_timeout pm\<rparr>]\<rparr>, w')"
proof -
  have "net32cpy (pm_buffer pm) 8 = Inr (of_nat i + PEER_ID_OFFSET)"
    using m pid by (simp add: net32cpy_def slice_def htonl_word32 del: word32.simps)
  moreover obtain b where "host16cpy (pm_buffer pm) 14 (of_nat (length m) - 16) = Inr b" "length b = 4096"
      "slice b 14 (unat (of_nat (length m) - 16 :: u16) + 2) = Inr (response_bytes m)"
    using response_buffer [OF m(1,2), of q] m(3,4) by auto
  ultimately show ?thesis using get_active_peer_id [OF l i(2)] i l w
    by (intro exI [of _ b]) (simp add: forward_response_def Let_def set_timer_def)
qed

lemma turn_sends:
  assumes "nt_write_doc N (\<lambda>w fd. arrived w) b" "nt_write_steady N b" "ne_net E = N" "snd (pm_pipe pm) = b" "24 \<le> length m"
  shows "\<exists>w1. wait_response_turn E (Some m) (pm, w) = Inr (pm, w1) \<and> arrived w1 = arrived w @ big16 (of_nat (length m)) @ m"
proof -
  obtain w1 where w1: "tfnet_write N b (big16 (of_nat (length m))) w = Inr (True, w1)" "arrived w1 = arrived w @ big16 (of_nat (length m))"
    using write_full [OF assms(1,2), of "big16 (of_nat (length m))" w] by blast
  obtain w2 where "tfnet_write N b m w1 = Inr (True, w2)" "arrived w2 = arrived w1 @ m"
    using write_full [OF assms(1,2), of m w1] by blast
  then show ?thesis using w1 assms(3-5) by (simp add: wait_response_turn_def bytes_htons)
qed

text \<open>
  What the calls leave alone: an observation of the system that writing to a descriptor, or reading from it,
  does not change.
\<close>

definition write_apart :: "'w net \<Rightarrow> ('w \<Rightarrow> 'x) \<Rightarrow> int \<Rightarrow> bool" where
  "write_apart N obs fd \<longleftrightarrow> (\<forall>buf w. obs (snd (nt_write N fd buf w)) = obs w)"

definition read_apart :: "'w net \<Rightarrow> ('w \<Rightarrow> 'x) \<Rightarrow> int \<Rightarrow> bool" where
  "read_apart N obs fd \<longleftrightarrow> (\<forall>n w. obs (snd (nt_read N fd n w)) = obs w)"

lemma write_loop_apart: "write_apart N obs fd \<Longrightarrow> write_loop N fd buf loop w = Inr (r, w') \<Longrightarrow> obs w' = obs w"
proof (induction N fd buf loop w rule: write_loop.induct)
  case (1 N fd buf loop w)
  obtain res w1 where w1: "nt_write N fd buf w = (res, w1)" by fastforce
  have o: "obs w1 = obs w" using "1.prems"(1) w1 unfolding write_apart_def by (metis snd_conv)
  show ?case using "1.prems" "1.IH"(1) [OF _ w1 [symmetric]] "1.IH"(2) [OF _ w1 [symmetric]] o w1
    by (subst (asm) write_loop.simps) (auto split: if_splits sum.splits)
qed

lemma read_loop_apart: "read_apart N obs fd \<Longrightarrow> read_loop N fd cnt got loop w = Inr (r, w') \<Longrightarrow> obs w' = obs w"
proof (induction N fd cnt got loop w rule: read_loop.induct)
  case (1 N fd cnt got loop w)
  obtain res w1 where w1: "nt_read N fd (cnt - length got) w = (res, w1)" by fastforce
  have o: "obs w1 = obs w" using "1.prems"(1) w1 unfolding read_apart_def by (metis snd_conv)
  show ?case using "1.prems" "1.IH"(1) [OF _ w1 [symmetric]] "1.IH"(2) [OF _ w1 [symmetric]] o w1
    by (subst (asm) read_loop.simps) (auto split: if_splits sum.splits)
qed

lemma transfer_apart:
  "write_apart N obs fd \<Longrightarrow> tfnet_write N fd buf w = Inr (r, w') \<Longrightarrow> obs w' = obs w"
  "read_apart N obs fd \<Longrightarrow> tfnet_read N fd n w = Inr (q, w') \<Longrightarrow> obs w' = obs w"
  unfolding tfnet_write_def tfnet_read_def by (erule (1) write_loop_apart, erule (1) read_loop_apart)

lemma turn_apart:
  assumes "write_apart (ne_net E) obs (snd (pm_pipe pm))" "wait_response_turn E r (pm, w) = Inr (pm', w')"
  shows "obs w' = obs w"
  using assms(2) transfer_apart(1) [OF assms(1)]
  by (auto simp: wait_response_turn_def rbind_eq_Inr split: option.splits if_splits dest: transfer_apart(1) [OF assms(1)])

text \<open>
  The descriptors of the way of a response are apart: \<open>out w fd\<close> is all that was written to \<open>fd\<close>, \<open>rest w a\<close> what has not been
  read from the pair.  A write changes only what was written to its own descriptor, a read nothing of it, and what is
  written to the peer does not get into the pair.
\<close>

definition descriptors_apart ::
    "'w net \<Rightarrow> ('w \<Rightarrow> int \<Rightarrow> byte list) \<Rightarrow> ('w \<Rightarrow> int \<Rightarrow> byte list) \<Rightarrow> int \<Rightarrow> int \<Rightarrow> int \<Rightarrow> bool" where
  "descriptors_apart N rest out a b p \<longleftrightarrow> p \<noteq> b \<and>
     (\<forall>fd. fd \<noteq> b \<longrightarrow> write_apart N (\<lambda>w. out w fd) b) \<and> (\<forall>fd. fd \<noteq> p \<longrightarrow> write_apart N (\<lambda>w. out w fd) p) \<and>
     (\<forall>fd. read_apart N (\<lambda>w. out w fd) a) \<and> write_apart N (\<lambda>w. rest w a) p"

text \<open>
  C4: A response of 24 to 4096 bytes that names an active peer other than the one in slot 0 goes from the queue through the pair of
  sockets to that peer, if the pair was empty and the pair and the peer take what is written to them: the turn of the thread and the
  handler of the event loop return, nothing is left in the pair, from the beginning of the turn to the end of
  the handler the peer is written exactly the length and the message without its first 16 bytes, nothing is
  written to any other descriptor but the pair's, and the peer's timer starts again.
\<close>

theorem response_delivered:
  assumes "nt_write_doc (ne_net E) (\<lambda>w fd. rest w a) b" "nt_write_steady (ne_net E) b"
    "nt_read_doc (ne_net E) rest a" "nt_read_steady (ne_net E) rest a" "pm_pipe pm = (a, b)" "rest w a = []"
    "length (pm_slots pm) = MAX_PEER_NUMS" "length (pm_buffer pm) = MAX_MQUEUE_LEN" "0 < i" "i < MAX_PEER_NUMS" "pi_active (pm_slots pm ! i)"
    "nt_write_doc (ne_net E) out (pi_fd (pm_slots pm ! i))" "nt_write_steady (ne_net E) (pi_fd (pm_slots pm ! i))"
    "24 \<le> length m" "length m \<le> 4096" "take 4 (drop 8 m) = big32 (of_nat i + PEER_ID_OFFSET)"
    "descriptors_apart (ne_net E) rest out a b (pi_fd (pm_slots pm ! i))"
  shows "\<exists>w1 w2 buf. wait_response_turn E (Some m) (pm, w) = Inr (pm, w1) \<and>
    message_response_handler E a (pm, w1) =
      Inr (pm\<lparr>pm_buffer := buf, pm_slots := (pm_slots pm)[i := (pm_slots pm ! i)\<lparr>pi_timer := pm_timeout pm\<rparr>]\<rparr>, w2) \<and>
    rest w2 a = [] \<and> out w2 (pi_fd (pm_slots pm ! i)) = out w (pi_fd (pm_slots pm ! i)) @ big16 (of_nat (length m - 16)) @ drop 16 m \<and>
    (\<forall>fd. fd \<noteq> pi_fd (pm_slots pm ! i) \<and> fd \<noteq> b \<longrightarrow> out w2 fd = out w fd)"
proof -
  let ?p = "pi_fd (pm_slots pm ! i)" and ?N = "ne_net E"
  have ap: "?p \<noteq> b" "\<And>fd. fd \<noteq> b \<Longrightarrow> write_apart ?N (\<lambda>w. out w fd) b" "\<And>fd. fd \<noteq> ?p \<Longrightarrow> write_apart ?N (\<lambda>w. out w fd) ?p"
    "\<And>fd. read_apart ?N (\<lambda>w. out w fd) a" "write_apart ?N (\<lambda>w. rest w a) ?p"
    using assms(17) by (simp_all add: descriptors_apart_def)
  obtain w1 where w1: "wait_response_turn E (Some m) (pm, w) = Inr (pm, w1)" "rest w1 a = big16 (of_nat (length m)) @ m @ []"
    using turn_sends [of ?N "\<lambda>w. rest w a" b E pm m w] assms(1,2,5,6,14) by auto
  obtain v where v: "tfnet_read ?N a 2 w1 = Inr ((True, big16 (of_nat (length m))), v)" "rest v a = m @ []"
    using read_full [OF assms(3,4) w1(2)] by auto
  obtain u where u: "tfnet_read ?N a (length m) v = Inr ((True, m), u)" "rest u a = []"
    using read_full [OF assms(3,4) v(2) refl] by blast
  obtain w2 where w2: "tfnet_write ?N ?p (response_bytes m) u = Inr (True, w2)" "out w2 ?p = out u ?p @ response_bytes m"
    using write_full [OF assms(12,13)] by blast
  have same: "out u fd = out w fd" if "fd \<noteq> b" for fd
    using transfer_apart(2) [OF ap(4) u(1)] transfer_apart(2) [OF ap(4) v(1)] turn_apart [OF _ w1(1), of "\<lambda>w. out w fd"] ap(2) [OF that] assms(5) by simp
  have "out w2 ?p = out w ?p @ response_bytes m" "\<forall>fd. fd \<noteq> ?p \<and> fd \<noteq> b \<longrightarrow> out w2 fd = out w fd" "rest w2 a = []"
    using w2(2) same ap(1) transfer_apart(1) [OF ap(3) w2(1)] transfer_apart(1) [OF ap(5) w2(1)] u(2) by simp_all
  moreover let ?pm = "pm\<lparr>pm_buffer := m @ drop (length m) (pm_buffer pm)\<rparr>"
  obtain buf where "forward_response E (of_nat (length m)) (?pm, u) =
      Inr (?pm\<lparr>pm_buffer := buf, pm_slots := (pm_slots pm)[i := (pm_slots pm ! i)\<lparr>pi_timer := pm_timeout pm\<rparr>]\<rparr>, w2)"
    using forward_response_sends [of ?pm i m "drop (length m) (pm_buffer pm)" E u w2] assms(7-11,14-16) w2(1)
    by (auto simp: MAX_MQUEUE_LEN_def)
  moreover have "unat (of_nat (length m) :: u16) = length m" using assms(15) by (simp add: unsigned_of_nat take_bit_eq_mod)
  then have "message_response_handler E a (pm, w1) = forward_response E (of_nat (length m)) (?pm, u)"
    using v u assms(8,15) by (simp add: message_response_handler_def htons_word16 MAX_MQUEUE_LEN_def del: word16.simps)
  ultimately show ?thesis using w1(1) unfolding response_bytes_def by fastforce
qed

theorem response_delivered_witness:
  "\<exists>w1 w2 pm'. wait_response_turn demo_nac (Some (replicate 8 0 @ big32 (1 + PEER_ID_OFFSET) @ replicate 4 0 @ [1, 2, 3, 4, 5, 6, 7, 8]))
       (demo_pm, [], [], []) = Inr (demo_pm, w1) \<and>
     message_response_handler demo_nac 5 (demo_pm, w1) = Inr (pm', w2) \<and> fst (snd w2) = [] \<and>
     snd (snd w2) = [0, 8, 1, 2, 3, 4, 5, 6, 7, 8]"
proof -
  let ?m = "replicate 8 0 @ big32 (1 + PEER_ID_OFFSET) @ replicate 4 0 @ [1, 2, 3, 4, 5, 6, 7, 8]"
  let ?rest = "\<lambda>w (fd :: int). fst (snd (w :: nat list \<times> byte list \<times> byte list))" and ?out = "\<lambda>w fd. if fd = 4 then snd (snd w) else []"
  have m: "length ?m = 24" "take 4 (drop 8 ?m) = big32 (of_nat 1 + PEER_ID_OFFSET)" "drop 16 ?m = [1, 2, 3, 4, 5, 6, 7, 8]" by simp_all
  have b: "big16 (of_nat (24 - 16)) = [0, 8]" by (simp add: big16_def)
  have p: "pi_fd demo_peer = 4" "pi_active demo_peer" "pm_pipe demo_pm = (5, 6)" "0 < (1 :: nat)" "1 < MAX_PEER_NUMS"
    by (simp_all add: demo_peer_def demo_pm_def MAX_PEER_NUMS_def)
  have le: "24 \<le> length ?m" "length ?m \<le> 4096" using m(1) by simp_all
  have d: "descriptors_apart pair_net ?rest ?out 5 6 4"
    by (auto simp: descriptors_apart_def write_apart_def read_apart_def pair_net_def demo_net_def)
  have o: "nt_write_doc pair_net ?out 4" using pair_docs(7) by (simp add: nt_write_doc_def)
  have "\<exists>w1 w2 buf. wait_response_turn demo_nac (Some ?m) (demo_pm, [], [], []) = Inr (demo_pm, w1) \<and>
      message_response_handler demo_nac 5 (demo_pm, w1) =
        Inr (demo_pm\<lparr>pm_buffer := buf, pm_slots := (pm_slots demo_pm)[1 := demo_peer\<lparr>pi_timer := pm_timeout demo_pm\<rparr>]\<rparr>, w2) \<and>
      fst (snd w2) = [] \<and> snd (snd w2) = big16 (of_nat (length ?m - 16)) @ drop 16 ?m"
    using response_delivered [of demo_nac ?rest 5 6 demo_pm "([], [], [])" 1 ?out ?m]
      pair_docs o d demo_lengths p m(2) le by simp
  then show ?thesis unfolding m(1,3) b by fastforce
qed

end
