(* ===== verification/TF_Nac_Start.thy ===== *)
theory TF_Nac_Start
  imports TF_Nac TF_Conf TF_Log
begin

text \<open>
  How the relay starts: \<open>tfnac/config.c\<close> and the function \<open>main\<close> of \<open>tfnac/main.c\<close> up to the event loop.  The configuration is
  read with the functions of \<open>TF_Conf\<close> into a record, the shared memory and the queues are opened, and the
  listening socket, the event loop and the pair of sockets are made.  The configuration part of the structure
  of the process is a record of its own here.  Messages of the log are left out, except that opening the log file is a step.
\<close>

section \<open>State\<close>

record conf_state =
  cs_log_level :: byte
  cs_log_file :: cstr
  cs_app_id :: int
  cs_device_id :: int
  cs_reload :: bool
  cs_share_path :: cstr
  cs_memory_id :: int
  cs_queue_path :: cstr
  cs_in_msg_id :: int
  cs_out_msg_id :: int
  cs_server_ip :: u32
  cs_server_port :: u16
  cs_timeout :: u16
  cs_step :: u32
  cs_in_queue :: int
  cs_out_queue :: int
  cs_slots :: "peer_info list"

text \<open>
  The system: \<open>se_segment\<close> is what a shared memory that is already there holds, \<open>se_loop\<close> the environment of the event
  loop, \<open>se_poll\<close> creates the state of its polling layer.
\<close>

record ('k, 'w) start_env =
  se_nac :: "('k, 'w) nac_env"
  se_sys :: "'w sys"
  se_log :: "'w log_sys"
  se_home :: "cstr option"
  se_segment :: "nat \<Rightarrow> 'w \<Rightarrow> peer_info list"
  se_loop :: "('k, 'w) ae_env"
  se_poll :: "'w \<Rightarrow> 'k option \<times> 'w"
  se_pair :: "'w \<Rightarrow> (int \<times> int) option \<times> 'w"
  se_getrlimit :: "'w \<Rightarrow> u64 option \<times> 'w"
  se_setrlimit :: "u64 \<Rightarrow> 'w \<Rightarrow> bool \<times> 'w"

section \<open>Peers and shared memory\<close>

text \<open>The address and the port of a slot are not reset.\<close>

definition init_slot :: "peer_info list \<Rightarrow> nat \<Rightarrow> peer_info" where
  "init_slot slots i =
     (slots ! i)\<lparr>pi_id := of_nat i + PEER_ID_OFFSET, pi_fd := 0, pi_active := False, pi_authed := False, pi_timer := 0\<rparr>"

definition init_peers :: "conf_state \<Rightarrow> conf_state" where
  "init_peers cs =
     (if \<not> cs_reload cs then cs else cs\<lparr>cs_slots := map (init_slot (cs_slots cs)) [0..<MAX_PEER_NUMS]\<rparr>)"

definition zero_slot :: peer_info where
  "zero_slot = \<lparr>pi_id = 0, pi_fd = 0, pi_active = False, pi_authed = False, pi_ip = 0, pi_port = 0, pi_timer = 0\<rparr>"

text \<open>The size of the structure, packed: a counter of two bytes and 10000 slots of 17 bytes.\<close>

definition SHMEM_SIZE :: nat where "SHMEM_SIZE = 2 + MAX_PEER_NUMS * 17"

text \<open>
  The pointer of a failed attachment is not null, so it is used; the access it leads to, here or in the
  loop, is an error.
\<close>

definition load_sharememory :: "('k, 'w) start_env \<Rightarrow> conf_state \<times> 'w \<Rightarrow> c_error + conf_state option \<times> 'w" where
  "load_sharememory S = (\<lambda>(cs, w).
     case ipc_shm_open (ne_ipc (se_nac S)) (cs_share_path cs) (cs_memory_id cs) w of
       (Some (Attached a), w) \<Rightarrow> Inr (Some (cs\<lparr>cs_slots := se_segment S a w\<rparr>), w)
     | (Some Failed, w) \<Rightarrow> Inl Out_Of_Bounds
     | (None, w) \<Rightarrow>
         (case ipc_shm_create (ne_ipc (se_nac S)) (cs_share_path cs) (cs_memory_id cs) SHMEM_SIZE w of
            (Some (Attached a), w) \<Rightarrow> Inr (Some (cs\<lparr>cs_slots := replicate MAX_PEER_NUMS zero_slot, cs_reload := True\<rparr>), w)
          | (Some Failed, w) \<Rightarrow> Inl Out_Of_Bounds
          | (None, w) \<Rightarrow> Inr (None, w)))"

definition create_messagequeue :: "('k, 'w) start_env \<Rightarrow> conf_state \<times> 'w \<Rightarrow> conf_state option \<times> 'w" where
  "create_messagequeue S = (\<lambda>(cs, w).
     case ipc_queue_create (ne_ipc (se_nac S)) (cs_queue_path cs) (cs_in_msg_id cs) w of (qi, w) \<Rightarrow>
     case ipc_queue_create (ne_ipc (se_nac S)) (cs_queue_path cs) (cs_out_msg_id cs) w of (qo, w) \<Rightarrow>
       (if qi < 0 \<or> qo < 0 then None else Some (cs\<lparr>cs_in_queue := qi, cs_out_queue := qo\<rparr>), w))"

section \<open>The configuration\<close>

text \<open>\<open>strcpy\<close> into an array of 128 bytes.\<close>

definition store_name :: "cstr \<Rightarrow> c_error + cstr" where
  "store_name s = (if length s < MAX_FILENAME_LEN then Inr s else Inl Out_Of_Bounds)"

definition read_conf :: "'w net \<Rightarrow> cfg_file \<Rightarrow> cfg_group option \<Rightarrow> c_error + conf_state" where
  "read_conf N cfg grp =
     rbind (cfg_get_int cfg grp (ascii ''log_file_level'') 0) (\<lambda>level.
     rbind (rbind (cfg_get_string cfg grp (ascii ''log_file_name'') (ascii ''/tmp/nac-service.log'')) store_name) (\<lambda>log_file.
     rbind (cfg_get_int cfg grp (ascii ''app_id'') 120) (\<lambda>app_id.
     rbind (cfg_get_int cfg grp (ascii ''device_id'') 1200) (\<lambda>device_id.
     rbind (cfg_get_bool cfg grp (ascii ''reload'') False) (\<lambda>reload.
     rbind (rbind (cfg_get_string cfg grp (ascii ''app_share_path'') (ascii ''/opt/kris/etc/memory.ipc'')) store_name) (\<lambda>share.
     rbind (cfg_get_int cfg grp (ascii ''app_memory_id'') 1) (\<lambda>memory_id.
     rbind (rbind (cfg_get_string cfg grp (ascii ''device_queue_path'') (ascii ''/opt/kris/etc/msgqueue.ipc'')) store_name) (\<lambda>queue.
     rbind (cfg_get_int cfg grp (ascii ''device_in_msg_id'') 15) (\<lambda>in_id.
     rbind (cfg_get_int cfg grp (ascii ''device_out_msg_id'') 16) (\<lambda>out_id.
     rbind (rbind (cfg_get_string cfg grp (ascii ''server_ip'') (ascii ''127.0.0.1'')) (tfnet_pton N)) (\<lambda>ip.
     rbind (cfg_get_int cfg grp (ascii ''server_port'') 7960) (\<lambda>port.
     rbind (cfg_get_int cfg grp (ascii ''socket_timeout'') 300) (\<lambda>timeout.
     rbind (cfg_get_int cfg grp (ascii ''cycle_step'') 1000) (\<lambda>step.
     Inr \<lparr>cs_log_level = word_of_int level, cs_log_file = log_file, cs_app_id = app_id, cs_device_id = device_id,
          cs_reload = reload, cs_share_path = share, cs_memory_id = memory_id, cs_queue_path = queue,
          cs_in_msg_id = in_id, cs_out_msg_id = out_id, cs_server_ip = ip, cs_server_port = word_of_int port,
          cs_timeout = word_of_int timeout, cs_step = word_of_int step, cs_in_queue = - 1, cs_out_queue = - 1,
          cs_slots = []\<rparr>))))))))))))))"

text \<open>What follows once the configuration is read: \<^term>\<open>None\<close> is the value false.\<close>

definition open_resources ::
    "('k, 'w) start_env \<Rightarrow> bool \<Rightarrow> tf_log \<Rightarrow> conf_state \<times> 'w \<Rightarrow> c_error + (conf_state \<times> tf_log) option \<times> 'w" where
  "open_resources S console lg st =
     rbind (load_sharememory S st) (\<lambda>(cs, w). case cs of
       None \<Rightarrow> Inr (None, w)
     | Some cs \<Rightarrow> (case create_messagequeue S (cs, w) of
         (None, w) \<Rightarrow> Inr (None, w)
       | (Some cs, w) \<Rightarrow>
           let cs = (if console then cs else init_peers cs)
           in rbind (log_create (se_log S) (cs_log_level cs) (cs_log_file cs) (lg, w)) (\<lambda>(lg, w).
              Inr (Some (cs, lg), w))))"

definition initialize ::
    "('k, 'w) start_env \<Rightarrow> cstr \<Rightarrow> bool \<Rightarrow> tf_log \<times> 'w \<Rightarrow> (c_error + (conf_state \<times> tf_log) option \<times> 'w) option" where
  "initialize S filename console = (\<lambda>(lg, w).
     case se_home S of
       None \<Rightarrow> Some (Inl Wrong_Argument)
     | Some home \<Rightarrow>
         map_option (\<lambda>r. rbind r (\<lambda>(cfg, w). case cfg of
             None \<Rightarrow> Inr (None, w)
           | Some c \<Rightarrow>
               rbind (cfg_find_group cfg (ascii ''general'')) (\<lambda>grp.
               rbind (if grp = None then Inr (None, w)
                      else rbind (read_conf (ne_net (se_nac S)) c grp) (\<lambda>cs. open_resources S console lg (cs, w))) (\<lambda>res.
               rbind (cfg_destroy cfg) (\<lambda>_. Inr res)))))
           (cfg_create (se_sys S) (home @ ascii ''/cfg/'' @ filename) w))"

section \<open>The limit of open files\<close>

definition NAC_MAXFILES :: u64 where "NAC_MAXFILES = of_nat (MAX_PEER_NUMS + 32)"

partial_function (option) limit_loop :: "('k, 'w) start_env \<Rightarrow> u64 \<Rightarrow> u64 \<Rightarrow> 'w \<Rightarrow> (u64 \<times> 'w) option" where
  "limit_loop S oldlimit f w =
     (if f > oldlimit
      then case se_setrlimit S f w of (ok, w) \<Rightarrow> if ok then Some (f, w) else limit_loop S oldlimit (f - 128) w
      else Some (f, w))"

text \<open>The number of peers it computes is not used by anything, so only the calls count.\<close>

definition adjust_peers_limit :: "('k, 'w) start_env \<Rightarrow> 'w \<Rightarrow> 'w option" where
  "adjust_peers_limit S w =
     (case se_getrlimit S w of
        (None, w) \<Rightarrow> Some w
      | (Some oldlimit, w) \<Rightarrow>
          if oldlimit < NAC_MAXFILES then map_option snd (limit_loop S oldlimit NAC_MAXFILES w) else Some w)"

section \<open>The main function\<close>

text \<open>The arguments after the name: the configuration file and whether a console is wanted.\<close>

function main_args :: "cstr list \<Rightarrow> cstr option \<times> bool \<Rightarrow> c_error + cstr option \<times> bool" where
  "main_args [] st = Inr st"
| "main_args (a # as) (conf, console) =
     (if take 1 a = ascii ''-'' \<and> 1 < length a
      then (if a = ascii ''-v'' then main_args as (conf, console)
            else if a = ascii ''-f'' \<and> as \<noteq> []
            then rbind (store_name (hd as)) (\<lambda>f. main_args (tl as) (Some f, console))
            else if a = ascii ''-cli'' then main_args as (conf, True)
            else main_args as (conf, console))
      else Inr (conf, console))"
  by pat_completeness auto
termination by (relation "measure (\<lambda>(as, st). length as)") (auto simp: neq_Nil_conv)

text \<open>The listening socket and the event loop; \<^term>\<open>None\<close> when the process is to quit.\<close>

definition start_server :: "('k, 'w) start_env \<Rightarrow> conf_state \<Rightarrow> 'w \<Rightarrow> c_error + (int \<times> 'k ae_loop) option \<times> 'w" where
  "start_server S cs w =
     (case tfnet_tcp_server2 (ne_net (se_nac S)) (uint (cs_server_port cs)) (cs_server_ip cs) w of (server, w) \<Rightarrow>
        if server = TFNET_ERR then Inr (None, w)
        else let (created, w) = se_poll S w; (now, w) = env_clock (se_loop S) w
             in rbind (aeCreateEventLoop created now (int MAX_PEER_NUMS + 1024)) (\<lambda>el. case el of
                  None \<Rightarrow> Inr (None, w)
                | Some el \<Rightarrow>
                    rbind (aeCreateFileEvent (ne_api (se_nac S)) el server AE_READABLE ACCEPT_TCP 0) (\<lambda>(el, r).
                    if r = AE_ERR then Inr (None, nt_close (ne_net (se_nac S)) server w)
                    else Inr (Some (server, el), w))))"

definition new_process :: "conf_state \<Rightarrow> 'k ae_loop \<Rightarrow> int \<times> int \<Rightarrow> 'k process_mgr" where
  "new_process cs el pair =
     \<lparr>pm_log_level = cs_log_level cs, pm_app_id = cs_app_id cs, pm_timeout = cs_timeout cs, pm_connections = 0,
      pm_step = cs_step cs, pm_in_queue = cs_in_queue cs, pm_out_queue = cs_out_queue cs, pm_el = el, pm_pipe = pair,
      pm_mq_exit = False, pm_quitting = False, pm_slots = cs_slots cs, pm_mq_type = 0,
      pm_mq_data = replicate MAX_MQUEUE_LEN 0, pm_buffer = replicate MAX_MQUEUE_LEN 0\<rparr>"

abbreviation (input) LIFE_CYCLE :: nat where "LIFE_CYCLE \<equiv> 0"

text \<open>The pair of sockets and the timer; the state the event loop starts with.\<close>

definition start_pair ::
    "('k, 'w) start_env \<Rightarrow> conf_state \<Rightarrow> int \<times> 'k ae_loop \<Rightarrow> 'w \<Rightarrow> c_error + (('k process_mgr \<times> int) option) \<times> 'w" where
  "start_pair S cs = (\<lambda>(server, el) w. case se_pair S w of
       (None, w) \<Rightarrow> Inr (None, w)
     | (Some (a, b), w) \<Rightarrow>
         let N = ne_net (se_nac S)
         in rbind (aeCreateFileEvent (ne_api (se_nac S)) el a AE_READABLE MESSAGE_RESPONSE 0) (\<lambda>(el, r).
            if r = AE_ERR then Inr (None, nt_close N server (nt_close N b (nt_close N a w)))
            else rbind (aeCreateTimeEvent (se_loop S) (uint (cs_step cs)) LIFE_CYCLE 0 None (el, w)) (\<lambda>((el, w), _).
                 Inr (Some (new_process cs el (a, b), server), w))))"

text \<open>
  Without a port there is no event loop, and the null pointer is used in its place, whether the pair can be
  made or not.
\<close>

definition nac_start ::
    "('k, 'w) start_env \<Rightarrow> conf_state \<Rightarrow> 'w \<Rightarrow> (c_error + (('k process_mgr \<times> int) option) \<times> 'w) option" where
  "nac_start S cs w =
     (case adjust_peers_limit S w of
        None \<Rightarrow> None
      | Some w \<Rightarrow>
          if cs_server_port cs = 0
          then Some (Inl Out_Of_Bounds)
          else Some (rbind (start_server S cs w) (\<lambda>(r, w). case r of
                 None \<Rightarrow> Inr (None, w) | Some se \<Rightarrow> start_pair S cs se w)))"

text \<open>What is closed when the event loop has ended.\<close>

definition nac_end :: "('k, 'w) start_env \<Rightarrow> int \<Rightarrow> ('k, 'w) nac \<Rightarrow> tf_log \<Rightarrow> tf_log \<times> 'w" where
  "nac_end S server = (\<lambda>(pm, w) lg.
     let N = ne_net (se_nac S)
     in log_destroy (se_log S) (lg, nt_close N server (nt_close N (snd (pm_pipe pm)) (nt_close N (fst (pm_pipe pm)) w))))"

datatype 'a main_result = Usage | Not_Initialised | Console | Quitting | Running 'a

definition nac_main ::
    "('k, 'w) start_env \<Rightarrow> cstr list \<Rightarrow> tf_log \<times> 'w \<Rightarrow> (c_error + ('k process_mgr \<times> int \<times> tf_log) main_result \<times> 'w) option" where
  "nac_main S args = (\<lambda>(lg, w).
     case main_args args (None, False) of
       Inl e \<Rightarrow> Some (Inl e)
     | Inr (None, _) \<Rightarrow> Some (Inr (Usage, w))
     | Inr (Some conf, console) \<Rightarrow>
         Option.bind (initialize S conf console (lg, w)) (\<lambda>r. case r of
           Inl e \<Rightarrow> Some (Inl e)
         | Inr (None, w) \<Rightarrow> Some (Inr (Not_Initialised, w))
         | Inr (Some (cs, lg), w) \<Rightarrow>
             if console then Some (Inr (Console, snd (log_destroy (se_log S) (lg, w))))
             else map_option (\<lambda>r. rbind r (\<lambda>(p, w). case p of
                    None \<Rightarrow> Inr (Quitting, snd (log_destroy (se_log S) (lg, w)))
                  | Some (pm, server) \<Rightarrow> Inr (Running (pm, server, lg), w))) (nac_start S cs w)))"

end
