(* ===== verification/TF_Nac_Props.thy ===== *)
theory TF_Nac_Props
  imports TF_Nac_Demo
begin

text \<open>
  The properties of the relay with epoll, the polling layer it is built with on Linux: the invariant of
  every reachable state, the timeout of silent sessions, and the way of a request and of a response.
\<close>

section \<open>Runs\<close>

fun nac_run ::
    "('k, 'w) nac_env \<Rightarrow> nac_event list \<Rightarrow> ('k, 'w) nac \<Rightarrow> (c_error + ('k, 'w) nac) option" where
  "nac_run E [] st = Some (Inr st)"
| "nac_run E (ev # evs) st =
     (case nac_step E ev st of Some (Inr st') \<Rightarrow> nac_run E evs st' | r \<Rightarrow> r)"

lemma epoll_total: "del_total (epoll_api ctl wait)"
  by (auto simp: del_total_def epoll_api_def epoll_add_def epoll_del_def rbind_def rd_def Let_def
      split: if_splits prod.splits)

text \<open>
  C1: In every state the relay can reach, the slots, the event table, the interest list of the kernel and the
  open descriptors agree: the number of connections is the number of active slots, every active slot has an
  open descriptor of its own that is registered for reading with that slot, no other descriptor is watched
  but those of the process itself.  A step from such a state never loses this; a handler of a
  descriptor that fails does so by leaving a buffer.
\<close>

theorem relay_invariant:
  assumes "epoll_doc ctl wait watched" "ne_api E = epoll_api ctl wait" "env_doc E opn"
    "relay_ok (epoll_sync watched) opn kept st0" "nac_reach E st0 st"
  shows "relay_ok (epoll_sync watched) opn kept st \<and>
    (\<forall>ev r. nac_step E ev st = Some r \<longrightarrow> bounded (relay_ok (epoll_sync watched) opn kept) r)"
proof -
  note B = epoll_backend [OF assms(1)]
  have ok: "relay_ok (epoll_sync watched) opn kept st"
    by (rule ae_backend.reach_ok [OF B assms(5,4,2) epoll_total assms(3)])
  then show ?thesis using ae_backend.step_ok [OF B ok assms(2) epoll_total assms(3)] by blast
qed

theorem relay_invariant_witness:
  "\<exists>pm. nac_reach demo_nac (demo_pm, [3, 4, 5, 6], [], []) (pm, [3, 4, 5, 6], [], []) \<and> pm_log_level pm = 1 \<and>
     relay_ok (epoll_sync (\<lambda>q. q)) demo_fds {3, 5, 6} (pm, [3, 4, 5, 6], [], [])"
proof -
  let ?pm = "demo_pm\<lparr>pm_log_level := 1\<rparr>" and ?w = "([3, 4, 5, 6], [], [])"
  have "nac_step demo_nac (Signal SIGUSR1) (demo_pm, ?w) = Some (Inr (?pm, ?w))"
    by (simp add: nac_step_def signal_handler_def demo_pm_def LOG_LEVEL_NUMS_def)
  then have r: "nac_reach demo_nac (demo_pm, ?w) (?pm, ?w)" by (rule nac_reach.step [OF nac_reach.start])
  have "ne_api demo_nac = epoll_api demo_ctl demo_wait" by (simp add: demo_nac_def)
  from relay_invariant [OF demo_epoll_doc this demo_nac_doc demo_relay r] show ?thesis
    using r by (intro exI [of _ ?pm]) simp
qed

section \<open>The timeout of a session\<close>

text \<open>The cycles a session has left: a timer of zero wraps around.\<close>

definition cycles_left :: "peer_info \<Rightarrow> nat" where
  "cycles_left p = (if pi_timer p = 0 then 2 ^ 16 else unat (pi_timer p))"

lemma cycles_left_1: "cycles_left p = 1 \<longleftrightarrow> pi_timer p = 1"
proof -
  have "unat (pi_timer p) = unat (1 :: u16) \<longleftrightarrow> pi_timer p = 1" by (metis unsigned_word_eqI)
  then show ?thesis by (auto simp: cycles_left_def)
qed

lemma cycles_left_pos: "0 < cycles_left p"
  by (auto simp: cycles_left_def unat_gt_0)

lemma cycles_left_aged: "pi_timer p \<noteq> 1 \<Longrightarrow> cycles_left (p\<lparr>pi_timer := pi_timer p - 1\<rparr>) = cycles_left p - 1"
proof -
  assume "pi_timer p \<noteq> 1"
  moreover have "unat (- 1 :: u16) = 65535" by (simp add: unsigned_minus_1_eq_mask mask_eq_exp_minus_1)
  moreover have "pi_timer p \<noteq> 0 \<Longrightarrow> 0 < unat (pi_timer p)" by (simp add: unat_gt_0)
  ultimately show ?thesis by (cases "pi_timer p = 0") (auto simp: cycles_left_def unat_minus_one)
qed

text \<open>The descriptors of the sessions that end within \<open>n\<close> cycles.\<close>

definition ending :: "peer_info list \<Rightarrow> nat \<Rightarrow> int set" where
  "ending slots n = {pi_fd (slots ! j) | j. j < length slots \<and> pi_active (slots ! j) \<and> cycles_left (slots ! j) \<le> n}"

lemma ending_0: "ending slots 0 = {}"
  using cycles_left_pos by (auto simp: ending_def)

lemma ending_Suc:
  "ending slots (Suc n) = expired slots {..<length slots} \<union> ending (map aged slots) n"
proof -
  have split: "pi_active (slots ! j) \<and> cycles_left (slots ! j) \<le> Suc n \<longleftrightarrow>
      pi_active (slots ! j) \<and> pi_timer (slots ! j) = 1 \<or> pi_active (aged (slots ! j)) \<and> cycles_left (aged (slots ! j)) \<le> n" for j
    using cycles_left_aged [of "slots ! j"] cycles_left_1 [of "slots ! j"] cycles_left_pos [of "slots ! j"]
    by (cases "pi_timer (slots ! j) = 1") (auto simp: aged_def)
  have fd: "pi_fd (aged p) = pi_fd p" for p by (simp add: aged_def)
  have "ending (map aged slots) n = {pi_fd (slots ! j) | j. j < length slots \<and> pi_active (aged (slots ! j)) \<and> cycles_left (aged (slots ! j)) \<le> n}"
    unfolding ending_def using fd by (metis (no_types, lifting) length_map nth_map)
  then show ?thesis unfolding ending_def expired_def split by blast
qed

text \<open>A write reports at most what it was given.\<close>

definition writes_fit :: "'w net \<Rightarrow> bool" where
  "writes_fit N \<longleftrightarrow> (\<forall>fd buf w n w'. nt_write N fd buf w = (Inr n, w') \<longrightarrow> n \<le> length buf)"

lemma write_loop_fits: "writes_fit N \<Longrightarrow> \<exists>r. write_loop N fd buf loop w = Inr r"
proof (induction N fd buf loop w rule: write_loop.induct)
  case (1 N fd buf loop w)
  obtain res w1 where w1: "nt_write N fd buf w = (res, w1)" by fastforce
  have fit: "res = Inr n \<Longrightarrow> n \<le> length buf" for n using "1.prems" w1 unfolding writes_fit_def by blast
  show ?case using "1.IH"(1) [OF _ w1 [symmetric] _ _ _ "1.prems"] "1.IH"(2) [OF _ w1 [symmetric] _ _ _ "1.prems"] w1 fit
    by (subst write_loop.simps) (auto split: sum.splits)
qed

fun is_cycle :: "nac_event \<Rightarrow> bool" where
  "is_cycle Cycle = True"
| "is_cycle _ = False"

fun is_quiet :: "nac_event \<Rightarrow> bool" where
  "is_quiet (Readable _) = False"
| "is_quiet _ = True"

lemma tfnet_write_returns:
  assumes "writes_fit N" "nt_fds_doc N opn"
  shows "\<exists>good w'. tfnet_write N fd buf w = Inr (good, w') \<and> opn w' = opn w"
  using write_loop_fits [OF assms(1), of fd buf 0 w] transfer_fds(2) [OF assms(2), of fd buf w]
  by (fastforce simp: tfnet_write_def)

lemma wait_response_quiet:
  assumes "writes_fit (ne_net E)" "env_doc E opn"
  shows "\<exists>w'. wait_response_turn E m (pm, w) = Inr (pm, w') \<and> opn w' = opn w"
proof (cases "\<exists>data. m = Some data \<and> 24 \<le> length data")
  case True
  then obtain data where m: "m = Some data" "24 \<le> length data" by blast
  note net = env_docD(1) [OF assms(2)]
  obtain g1 w1 where w1: "tfnet_write (ne_net E) (snd (pm_pipe pm)) (bytes16 (htons (of_nat (length data)))) w = Inr (g1, w1)"
      "opn w1 = opn w" using tfnet_write_returns [OF assms(1) net] by blast
  obtain g2 w2 where w2: "tfnet_write (ne_net E) (snd (pm_pipe pm)) data w1 = Inr (g2, w2)"
      "opn w2 = opn w1" using tfnet_write_returns [OF assms(1) net] by blast
  show ?thesis using m w1 w2 by (simp add: wait_response_turn_def)
next
  case False
  then show ?thesis by (cases m) (auto simp: wait_response_turn_def)
qed

lemma quit_slots:
  assumes "env_doc E opn" "safe_quit E (pm, w) = Inr (pm', w')"
  shows "pm_slots pm' = pm_slots pm \<and> opn w' = opn w"
proof (cases "pm_mq_exit pm")
  case True
  then show ?thesis using assms(2) by (auto simp: safe_quit_def Let_def)
next
  case False
  then obtain data b where q: "ipc_write_queue (ne_ipc E) (pm_in_queue pm) (pm_app_id pm) data 4 w = Inr (b, w')"
      "pm_slots pm' = pm_slots pm"
    using assms(2) by (auto simp: safe_quit_def Let_def rbind_eq_Inr)
  then show ?thesis
    using write_queue_bounded [OF assms(1), of w "pm_in_queue pm" "pm_app_id pm" data 4] by simp
qed

lemma signal_slots:
  assumes "env_doc E opn" "signal_handler E s (pm, w) = Inr (pm', w')"
  shows "pm_slots pm' = pm_slots pm \<and> opn w' = opn w"
  using assms(2) quit_slots [OF assms(1), of "pm\<lparr>pm_quitting := True\<rparr>" w pm' w']
  by (auto simp: signal_handler_def split: if_splits)

text \<open>What a step without traffic does to the slots and the descriptors.\<close>

lemma quiet_step:
  assumes B: "ae_backend A sync" and r: "relay_ok sync opn kept (pm, w)"
    and E: "ne_api E = A" "del_total A" "env_doc E opn" "writes_fit (ne_net E)" and q: "is_quiet ev"
  shows "\<exists>pm' w'. nac_step E ev (pm, w) = Some (Inr (pm', w')) \<and> relay_ok sync opn kept (pm', w') \<and>
    (if is_cycle ev
     then pm_slots pm' = map aged (pm_slots pm) \<and> opn w' = opn w - expired (pm_slots pm) {..<MAX_PEER_NUMS}
     else pm_slots pm' = pm_slots pm \<and> opn w' = opn w)"
proof (cases ev)
  case Cycle
  obtain x where x: "life_cycle_handler E (pm, w) = Inr x" "case x of ((pm', w'), step) \<Rightarrow> relay_ok sync opn kept (pm', w') \<and>
      pm_slots pm' = map aged (pm_slots pm) \<and> opn w' = opn w - expired (pm_slots pm) {..<MAX_PEER_NUMS}"
    using ae_backend.cycle_ok [OF B E(1-3) r] by (cases "life_cycle_handler E (pm, w)") auto
  then show ?thesis using Cycle by (cases x) (auto simp: nac_step_def)
next
  case (Queue_Message m)
  obtain w' where w': "wait_response_turn E m (pm, w) = Inr (pm, w')" "opn w' = opn w"
    using wait_response_quiet [OF E(4,3)] by blast
  then show ?thesis using Queue_Message ae_backend.relay_same [OF B r refl refl refl refl refl w'(2)]
    by (simp add: nac_step_def)
next
  case (Signal s)
  obtain pm' w' where s: "signal_handler E s (pm, w) = Inr (pm', w')" "relay_ok sync opn kept (pm', w')"
    using ae_backend.signal_ok [OF B r E(3), of s] by (cases "signal_handler E s (pm, w)") auto
  then show ?thesis using Signal signal_slots [OF E(3) s(1)] by (simp add: nac_step_def)
qed (use q in simp)

lemma quiet_run:
  assumes B: "ae_backend A sync" and E: "ne_api E = A" "del_total A" "env_doc E opn" "writes_fit (ne_net E)"
  shows "relay_ok sync opn kept (pm, w) \<Longrightarrow> list_all is_quiet evs \<Longrightarrow> n = length (filter is_cycle evs) \<Longrightarrow>
    \<exists>pm' w'. nac_run E evs (pm, w) = Some (Inr (pm', w')) \<and> relay_ok sync opn kept (pm', w') \<and>
      pm_slots pm' = map (aged ^^ n) (pm_slots pm) \<and> opn w' = opn w - ending (pm_slots pm) n"
proof (induction evs arbitrary: pm w n)
  case Nil
  then show ?case by (simp add: ending_0)
next
  case (Cons ev evs)
  obtain pm1 w1 where s: "nac_step E ev (pm, w) = Some (Inr (pm1, w1))" "relay_ok sync opn kept (pm1, w1)"
      "if is_cycle ev
       then pm_slots pm1 = map aged (pm_slots pm) \<and> opn w1 = opn w - expired (pm_slots pm) {..<MAX_PEER_NUMS}
       else pm_slots pm1 = pm_slots pm \<and> opn w1 = opn w"
    using quiet_step [OF B Cons.prems(1) E, of ev] Cons.prems(2) by auto
  define m where "m = length (filter is_cycle evs)"
  obtain pm2 w2 where t: "nac_run E evs (pm1, w1) = Some (Inr (pm2, w2))" "relay_ok sync opn kept (pm2, w2)"
      "pm_slots pm2 = map (aged ^^ m) (pm_slots pm1)" "opn w2 = opn w1 - ending (pm_slots pm1) m"
    using Cons.IH [OF s(2) _ m_def] Cons.prems(2) by auto
  have "n = (if is_cycle ev then Suc m else m)" using Cons.prems(3) by (simp add: m_def)
  moreover have "length (pm_slots pm) = MAX_PEER_NUMS" by (rule relay_slots [OF Cons.prems(1)])
  ultimately show ?case using s t
    by (auto simp: ending_Suc funpow_Suc_right simp del: funpow.simps split: if_splits)
qed

lemma aged_funpow:
  "pi_active p \<Longrightarrow> (aged ^^ n) p =
     (if n < cycles_left p then p\<lparr>pi_timer := pi_timer p - of_nat n\<rparr>
      else p\<lparr>pi_timer := 0, pi_active := False, pi_authed := False\<rparr>)"
proof (induction n arbitrary: p)
  case 0
  then show ?case using cycles_left_pos [of p] by simp
next
  case (Suc n)
  show ?case
  proof (cases "pi_timer p = 1")
    case True
    have "(aged ^^ k) q = q" if "\<not> pi_active q" for k q using that by (induction k) (simp_all add: aged_def)
    moreover have "aged p = p\<lparr>pi_timer := 0, pi_active := False, pi_authed := False\<rparr>"
      using Suc.prems True by (simp add: aged_def)
    ultimately show ?thesis using Suc.prems True cycles_left_1 [of p]
      by (simp add: funpow_Suc_right del: funpow.simps)
  next
    case False
    moreover have "aged p = p\<lparr>pi_timer := pi_timer p - 1\<rparr>" using Suc.prems False by (simp add: aged_def)
    ultimately show ?thesis using Suc.prems Suc.IH [of "p\<lparr>pi_timer := pi_timer p - 1\<rparr>"] cycles_left_aged [OF False] cycles_left_pos [of p]
      by (auto simp: funpow_Suc_right algebra_simps simp del: funpow.simps)
  qed
qed

lemma ending_fd:
  assumes r: "relay_ok sync opn kept (pm, w)" and i: "i < MAX_PEER_NUMS" "pi_active (pm_slots pm ! i)"
  shows "pi_fd (pm_slots pm ! i) \<in> ending (pm_slots pm) n \<longleftrightarrow> cycles_left (pm_slots pm ! i) \<le> n"
proof
  assume "pi_fd (pm_slots pm ! i) \<in> ending (pm_slots pm) n"
  then obtain j where j: "pi_fd (pm_slots pm ! i) = pi_fd (pm_slots pm ! j)" "j < length (pm_slots pm)" "pi_active (pm_slots pm ! j)"
      "cycles_left (pm_slots pm ! j) \<le> n" unfolding ending_def by blast
  have "i = j" by (rule same_fd [OF relay_tables [OF r] _ j(2) i(2) j(3,1)]) (use relay_slots [OF r] i in simp)
  then show "cycles_left (pm_slots pm ! i) \<le> n" using j(4) by simp
next
  assume "cycles_left (pm_slots pm ! i) \<le> n"
  then show "pi_fd (pm_slots pm ! i) \<in> ending (pm_slots pm) n"
    unfolding ending_def by (intro CollectI exI [of _ i]) (use relay_slots [OF r] i in simp)
qed

text \<open>
  C2: A session without traffic ends after exactly as many cycles as its timer says: along any run of cycles, signals and messages
  for other peers, which always returns, an active slot stays active with its timer counted down and its
  descriptor open as long as fewer cycles have passed, and is idle with its descriptor closed from then on; a
  timer of zero counts as 65536.
\<close>

theorem session_timeout:
  assumes "epoll_doc ctl wait watched" "ne_api E = epoll_api ctl wait" "env_doc E opn" "writes_fit (ne_net E)"
    "relay_ok (epoll_sync watched) opn kept (pm, w)" "list_all is_quiet evs"
    "i < MAX_PEER_NUMS" "pi_active (pm_slots pm ! i)"
  shows "\<exists>pm' w'. nac_run E evs (pm, w) = Some (Inr (pm', w')) \<and>
    (let p = pm_slots pm ! i; p' = pm_slots pm' ! i; n = length (filter is_cycle evs)
     in if n < cycles_left p then pi_active p' \<and> pi_timer p' = pi_timer p - of_nat n \<and> pi_fd p \<in> opn w'
        else \<not> pi_active p' \<and> pi_fd p \<notin> opn w')"
proof -
  let ?p = "pm_slots pm ! i" and ?n = "length (filter is_cycle evs)"
  note B = epoll_backend [OF assms(1)]
  obtain pm' w' where r: "nac_run E evs (pm, w) = Some (Inr (pm', w'))" "pm_slots pm' = map (aged ^^ ?n) (pm_slots pm)"
      "opn w' = opn w - ending (pm_slots pm) ?n"
    using quiet_run [OF B assms(2) epoll_total assms(3,4,5,6) refl] by blast
  have l: "i < length (pm_slots pm)" using relay_slots [OF assms(5)] assms(7) by simp
  have o: "pi_fd ?p \<in> opn w" using tablesD(5) [OF relay_tables [OF assms(5)] l assms(8)] by (simp add: slot_ok_def)
  have o': "pi_fd ?p \<in> opn w' \<longleftrightarrow> ?n < cycles_left ?p"
    unfolding r(3) using o ending_fd [OF assms(5,7,8), of ?n] by auto
  have p': "pm_slots pm' ! i = (aged ^^ ?n) ?p" unfolding r(2) using l by (rule nth_map)
  show ?thesis
    by (intro exI [of _ pm'] exI [of _ w'] conjI r(1), unfold Let_def p' aged_funpow [OF assms(8)] o')
      (cases "?n < cycles_left ?p", simp_all add: assms(8))
qed

theorem session_timeout_witness:
  "\<exists>pm' w'. nac_run demo_nac [Cycle, Signal SIGHUP, Cycle] (demo_pm, [3, 4, 5, 6], [], []) = Some (Inr (pm', w')) \<and>
     \<not> pi_active (pm_slots pm' ! 1) \<and> 4 \<notin> demo_fds w'"
proof -
  let ?w = "([3, 4, 5, 6], [], [])" and ?evs = "[Cycle, Signal SIGHUP, Cycle]"
  have api: "ne_api demo_nac = epoll_api demo_ctl demo_wait" by (simp add: demo_nac_def)
  have fits: "writes_fit (ne_net demo_nac)"
    by (auto simp: writes_fit_def demo_nac_def pair_net_def demo_net_def)
  have p: "pm_slots demo_pm ! 1 = demo_peer" by (simp add: demo_pm_def idle_slots_def MAX_PEER_NUMS_def)
  have "cycles_left demo_peer = 2" "pi_fd demo_peer = 4" "pi_active demo_peer"
    by (simp_all add: cycles_left_def demo_peer_def)
  moreover have "length (filter is_cycle ?evs) = 2" "list_all is_quiet ?evs" by simp_all
  moreover have "1 < MAX_PEER_NUMS" by (simp add: MAX_PEER_NUMS_def)
  ultimately show ?thesis
    using session_timeout [OF demo_epoll_doc api demo_nac_doc fits demo_relay, of ?evs 1] unfolding p Let_def by simp
qed

end
