(* ===== verification/TF_Nac_Init.thy ===== *)
theory TF_Nac_Init
  imports TF_Nac_Start TF_Nac_Props
begin

text \<open>
  The start of the relay establishes its invariant, the raising of the limit of open files ends, and what
  happens with a shared memory that an earlier process left behind.
\<close>

section \<open>The slots\<close>

definition slots_idle :: "peer_info list \<Rightarrow> bool" where
  "slots_idle slots \<longleftrightarrow> length slots = MAX_PEER_NUMS \<and>
     (\<forall>i < length slots. \<not> pi_active (slots ! i) \<and> pi_id (slots ! i) = of_nat i + PEER_ID_OFFSET)"

lemma init_peers_idle: "cs_reload cs \<Longrightarrow> slots_idle (cs_slots (init_peers cs))"
  by (simp add: init_peers_def slots_idle_def init_slot_def)

lemma tables_idle:
  assumes "slots_idle slots" "kept \<subseteq> opened"
    "\<And>j. j < length ev \<Longrightarrow> fe_mask (ev ! j) = AE_NONE \<or>
       fe_mask (ev ! j) = AE_READABLE \<and> fe_rproc (ev ! j) \<in> {Some ACCEPT_TCP, Some MESSAGE_RESPONSE} \<and>
       fe_data (ev ! j) \<noteq> None \<and> int j \<in> kept"
  shows "tables_ok kept slots ev 0 opened"
proof -
  have "filter pi_active slots = []"
    using assms(1) by (auto simp: slots_idle_def filter_empty_conv in_set_conv_nth)
  then show ?thesis using assms by (auto simp: tables_ok_def slots_idle_def table_entry_ok_def)
qed

section \<open>The event loop\<close>

text \<open>What the start relies on beside the sockets: the clocks leave the descriptors alone, a pair is new, a polling layer starts empty.\<close>

definition start_doc :: "('k, 'w) start_env \<Rightarrow> ('w \<Rightarrow> int set) \<Rightarrow> (mask list \<Rightarrow> 'k \<Rightarrow> bool) \<Rightarrow> bool" where
  "start_doc S opn sync \<longleftrightarrow> env_doc (se_nac S) opn \<and> nt_opts_ok (ne_net (se_nac S)) \<and>
     (\<forall>w. opn (snd (env_time (se_loop S) w)) = opn w) \<and> (\<forall>w. opn (snd (env_clock (se_loop S) w)) = opn w) \<and>
     (\<forall>w. case se_pair S w of (None, w') \<Rightarrow> opn w' = opn w
        | (Some (a, b), w') \<Rightarrow> 0 \<le> a \<and> 0 \<le> b \<and> a \<notin> opn w \<and> b \<notin> opn w \<and> a \<noteq> b \<and> opn w' = opn w \<union> {a, b}) \<and>
     (\<forall>w. opn w \<subseteq> opn (snd (se_poll S w))) \<and>
     (\<forall>w k w' n. se_poll S w = (Some k, w') \<longrightarrow> sync (replicate n AE_NONE) k)"

lemma start_docD:
  assumes "start_doc S opn sync"
  shows "env_doc (se_nac S) opn" "nt_opts_ok (ne_net (se_nac S))" "opn (snd (env_time (se_loop S) w)) = opn w"
    "opn (snd (env_clock (se_loop S) w)) = opn w"
    "se_pair S w = (Some (a, b), w') \<Longrightarrow> a \<notin> opn w \<and> opn w' = opn w \<union> {a, b}"
    "opn w \<subseteq> opn (snd (se_poll S w))" "se_poll S w = (Some k, w') \<Longrightarrow> sync (replicate n AE_NONE) k"
proof -
  note c1 = assms [unfolded start_doc_def]
  note c2 = c1 [THEN conjunct2] note c3 = c2 [THEN conjunct2] note c4 = c3 [THEN conjunct2]
  note c5 = c4 [THEN conjunct2] note c6 = c5 [THEN conjunct2]
  show "env_doc (se_nac S) opn" "nt_opts_ok (ne_net (se_nac S))"
    by (fact c1 [THEN conjunct1] c2 [THEN conjunct1])+
  show "opn (snd (env_time (se_loop S) w)) = opn w" "opn (snd (env_clock (se_loop S) w)) = opn w"
    by (fact c3 [THEN conjunct1, THEN spec] c4 [THEN conjunct1, THEN spec])+
  show "opn w \<subseteq> opn (snd (se_poll S w))" by (fact c6 [THEN conjunct1, THEN spec])
  show "se_poll S w = (Some k, w') \<Longrightarrow> sync (replicate n AE_NONE) k"
    using c6 [THEN conjunct2] by (elim allE impE)
  show "se_pair S w = (Some (a, b), w') \<Longrightarrow> a \<notin> opn w \<and> opn w' = opn w \<union> {a, b}"
    using c5 [THEN conjunct1, THEN spec, of w] by simp
qed

text \<open>The entry of one descriptor of the process itself.\<close>

definition own_entry :: "int set \<Rightarrow> file_event \<Rightarrow> nat \<Rightarrow> bool" where
  "own_entry kept e j \<longleftrightarrow> fe_mask e = AE_NONE \<or>
     fe_mask e = AE_READABLE \<and> fe_rproc e \<in> {Some ACCEPT_TCP, Some MESSAGE_RESPONSE} \<and> fe_data e \<noteq> None \<and> int j \<in> kept"

definition own_table :: "int set \<Rightarrow> file_event list \<Rightarrow> bool" where
  "own_table kept ev \<longleftrightarrow> (\<forall>j < length ev. own_entry kept (ev ! j) j)"

lemma own_table_register:
  assumes "own_table kept ev" "nat fd < length ev" "0 \<le> fd" "fd \<in> kept'" "kept \<subseteq> kept'" "proc \<in> {ACCEPT_TCP, MESSAGE_RESPONSE}"
    "fe_mask (ev ! nat fd) = AE_NONE \<or> fe_mask (ev ! nat fd) = AE_READABLE"
  shows "own_table kept' (ev[nat fd := fe_register (ev ! nat fd) AE_READABLE proc d])"
  unfolding own_table_def
proof (intro allI impI)
  fix j assume j: "j < length (ev[nat fd := fe_register (ev ! nat fd) AE_READABLE proc d])"
  show "own_entry kept' (ev[nat fd := fe_register (ev ! nat fd) AE_READABLE proc d] ! j) j"
  proof (cases "j = nat fd")
    case True
    then show ?thesis using assms(2-7) by (auto simp: own_entry_def fe_register_def)
  next
    case False
    then show ?thesis using assms(1,5) j by (auto simp: own_table_def own_entry_def)
  qed
qed

lemma scan_blank: "k \<le> n \<Longrightarrow> maxfd_scan (replicate n blank_event) k = - 1"
  by (induction k) (simp_all add: blank_event_def)

lemma new_loop_ok:
  assumes "aeCreateEventLoop (Some k) now n = Inr (Some el)"
  shows "loop_ok el \<and> el_events el = replicate (nat n) blank_event \<and> el_api el = k"
  using assms scan_blank [of "nat n" "nat n"]
  by (auto simp: aeCreateEventLoop_def loop_ok_def max_registered_def list_all_iff event_ok_def blank_event_def timers_ok_def
      split: if_splits)

context ae_backend
begin

lemma register_own:
  assumes el: "state_ok el" "own_table kept (el_events el)" and c: "aeCreateFileEvent A el fd AE_READABLE proc d = Inr (el', r)"
    and r: "r \<noteq> AE_ERR" and k: "fd \<in> kept'" "kept \<subseteq> kept'" "proc \<in> {ACCEPT_TCP, MESSAGE_RESPONSE}"
  shows "state_ok el' \<and> own_table kept' (el_events el')"
proof -
  have fd: "0 \<le> fd" "nat fd < length (el_events el)"
      "el_events el' = (el_events el)[nat fd := fe_register (el_events el ! nat fd) AE_READABLE proc d]"
    using create_events [OF c] r by auto
  have "safe (\<lambda>(el', r). keeps el el') (aeCreateFileEvent A el fd AE_READABLE proc d)"
    by (rule create_file [OF el(1) fd(1)]) simp
  then have "state_ok el'" using c by (simp add: keeps_def)
  moreover have "fe_mask (el_events el ! nat fd) = AE_NONE \<or> fe_mask (el_events el ! nat fd) = AE_READABLE"
    using el(2) fd(2) by (auto simp: own_table_def own_entry_def)
  ultimately show ?thesis using own_table_register [OF el(2) fd(2,1) k] fd(3) by simp
qed

lemma server_ok:
  assumes S: "start_doc S opn sync" "ne_api (se_nac S) = A" and s: "start_server S cs w = Inr (Some (server, el), w')"
  shows "state_ok el \<and> own_table {server} (el_events el) \<and> server \<in> opn w'"
proof -
  obtain w1 where w1: "tfnet_tcp_server2 (ne_net (se_nac S)) (uint (cs_server_port cs)) (cs_server_ip cs) w = (server, w1)"
      "server \<noteq> TFNET_ERR"
    using s by (auto simp: start_server_def Let_def rbind_eq_Inr split: prod.splits if_splits option.splits)
  obtain created w2 where w2: "se_poll S w1 = (created, w2)" by fastforce
  obtain now w3 where w3: "env_clock (se_loop S) w2 = (now, w3)" by fastforce
  obtain el0 where el0: "aeCreateEventLoop created now (int MAX_PEER_NUMS + 1024) = Inr (Some el0)"
      "\<exists>r. aeCreateFileEvent A el0 server AE_READABLE ACCEPT_TCP 0 = Inr (el, r) \<and> r \<noteq> AE_ERR" "w' = w3"
    using s w1 w2 w3 S(2) by (auto simp: start_server_def Let_def rbind_eq_Inr split: if_splits option.splits)
  obtain k where k: "created = Some k" using el0(1) by (cases created) (simp_all add: aeCreateEventLoop_def)
  note new = new_loop_ok [OF el0(1) [unfolded k]]
  have "sync (el_masks el0) (el_api el0)"
    using start_docD(7) [OF S(1) w2 [unfolded k]] new by (simp add: blank_event_def)
  then have ok: "state_ok el0" using new by (simp add: state_ok_def)
  have t: "own_table {} (el_events el0)" using new by (simp add: own_table_def own_entry_def blank_event_def)
  have "fresh_fd opn w server w1" by (rule serve_fresh(2) [OF env_docD(1) [OF start_docD(1) [OF S(1)]] start_docD(2) [OF S(1)] w1(1)])
  then have "server \<in> opn w1" using w1(2) by (simp add: fresh_fd_def)
  then have "server \<in> opn w'"
    using start_docD(6) [OF S(1), of w1] start_docD(4) [OF S(1), of w2] w2 w3 el0(3) by auto
  then show ?thesis using register_own [OF ok t, of server ACCEPT_TCP 0 el _ "{server}"] el0(2) by auto
qed

lemma time_event_events:
  "aeCreateTimeEvent env ms p d f (el, w) = Inr ((el', w'), r) \<Longrightarrow>
     el_events el' = el_events el \<and> (\<exists>w1. w1 = w \<and> w' = snd (env_time env w1))"
  by (auto simp: aeCreateTimeEvent_def aeAddMillisecondsToNow_def aeGetTime_def rbind_eq_Inr Let_def split: prod.splits)

lemma pair_ok:
  assumes S: "start_doc S opn sync" "ne_api (se_nac S) = A"
    and el: "state_ok el" "own_table {server} (el_events el)" "server \<in> opn w" and idle: "slots_idle (cs_slots cs)"
    and s: "start_pair S cs (server, el) w = Inr (Some (pm, server'), w')"
  shows "server' = server \<and> relay_ok sync opn {server, fst (pm_pipe pm), snd (pm_pipe pm)} (pm, w')"
proof -
  obtain a b w1 where w1: "se_pair S w = (Some (a, b), w1)"
    using s by (auto simp: start_pair_def split: prod.splits option.splits)
  obtain el1 r where e1: "aeCreateFileEvent A el a AE_READABLE MESSAGE_RESPONSE 0 = Inr (el1, r)" "r \<noteq> AE_ERR"
    using s w1 S(2) by (auto simp: start_pair_def Let_def rbind_eq_Inr split: if_splits)
  obtain el2 id where e2: "aeCreateTimeEvent (se_loop S) (uint (cs_step cs)) LIFE_CYCLE 0 None (el1, w1) = Inr ((el2, w'), id)"
      "pm = new_process cs el2 (a, b)" "server' = server"
    using s w1 S(2) e1 by (auto simp: start_pair_def Let_def rbind_eq_Inr)
  let ?kept = "{server, a, b}"
  have t1: "state_ok el1" "own_table ?kept (el_events el1)"
    using register_own [OF el(1,2) e1, of ?kept] by auto
  have "safe (\<lambda>((el', w), r). keeps el1 el') (aeCreateTimeEvent (se_loop S) (uint (cs_step cs)) LIFE_CYCLE 0 None (el1, w1))"
    by (rule create_time [OF t1(1)])
  then have ok: "state_ok el2" using e2(1) by (simp add: keeps_def)
  have ev: "el_events el2 = el_events el1" "w' = snd (env_time (se_loop S) w1)" using time_event_events [OF e2(1)] by auto
  have "?kept \<subseteq> opn w'" using start_docD(3) [OF S(1), of w1] start_docD(5) [OF S(1) w1] el(3) ev(2) by auto
  then have "tables_ok ?kept (cs_slots cs) (el_events el2) 0 (opn w')"
    using t1(2) ev(1) by (intro tables_idle [OF idle]) (auto simp: own_table_def own_entry_def)
  then show ?thesis using ok e2(2,3) by (simp add: relay_ok_def state_ok_def new_process_def)
qed

lemma nac_start_ok:
  assumes S: "start_doc S opn sync" "ne_api (se_nac S) = A" and idle: "slots_idle (cs_slots cs)"
    and s: "nac_start S cs w = Some (Inr (Some (pm, server), w'))"
  shows "relay_ok sync opn {server, fst (pm_pipe pm), snd (pm_pipe pm)} (pm, w')"
proof -
  obtain w0 server0 el w1 where "start_server S cs w0 = Inr (Some (server0, el), w1)"
      "start_pair S cs (server0, el) w1 = Inr (Some (pm, server), w')"
    using s by (auto simp: nac_start_def rbind_eq_Inr split: option.splits if_splits)
  then show ?thesis using server_ok [OF S] pair_ok [OF S _ _ _ idle] by blast
qed

end

section \<open>The limit of open files\<close>

text \<open>The loop ends when the old limit is at least 48: the values it tries are 10032, 9904, and so on down to 48.\<close>

lemma limit_loop_ends:
  "f = of_nat (48 + 128 * k) \<Longrightarrow> k < 2 ^ 32 \<Longrightarrow> 48 \<le> oldlimit \<Longrightarrow> limit_loop S oldlimit f w \<noteq> None"
proof (induction k arbitrary: f w)
  case 0
  then have "\<not> oldlimit < f" by (simp add: not_less)
  then show ?case by (simp add: limit_loop.simps)
next
  case (Suc k)
  have "f - 128 = of_nat (48 + 128 * k)" unfolding Suc.prems(1) by simp
  then show ?case using Suc.IH Suc.prems(2,3) by (subst limit_loop.simps) (auto split: prod.splits)
qed

lemma adjust_ends:
  assumes "\<And>w l. fst (se_getrlimit S w) = Some l \<Longrightarrow> 48 \<le> l"
  shows "adjust_peers_limit S w \<noteq> None"
proof -
  have m: "NAC_MAXFILES = of_nat (48 + 128 * 78)" by (simp add: NAC_MAXFILES_def MAX_PEER_NUMS_def)
  obtain l w1 where l: "se_getrlimit S w = (l, w1)" by fastforce
  show ?thesis
  proof (cases l)
    case None
    then show ?thesis using l by (simp add: adjust_peers_limit_def)
  next
    case (Some x)
    then have "limit_loop S x NAC_MAXFILES w1 \<noteq> None" using limit_loop_ends [OF m, of x S w1] assms [of w x] l by simp
    then show ?thesis using l Some by (auto simp: adjust_peers_limit_def)
  qed
qed

text \<open>With a lower limit that cannot be raised the loop never ends: the value wraps around and is never small enough.\<close>

lemma minus_128: "unat (f - 128 :: u64) mod 128 = unat f mod 128"
proof -
  have "uint (f - 128) = (uint f - 128) mod 2 ^ 64" by (simp add: uint_word_ariths)
  then have "uint (f - 128) mod 128 = (uint f - 128) mod 128" by (simp add: mod_mod_cancel)
  then have "uint (f - 128) mod 128 = uint f mod 128" by (simp add: mod_diff_right_eq [symmetric])
  then show ?thesis by (metis nat_mod_distrib nat_numeral uint_ge_0 zero_le_numeral unat_eq_nat_uint)
qed

lemma limit_loop_some:
  "limit_loop S oldlimit f w = Some r \<Longrightarrow> unat f mod 128 = 48 \<Longrightarrow> oldlimit < 48 \<Longrightarrow>
     (\<forall>f w. se_setrlimit S f w = (False, w)) \<Longrightarrow> False"
proof (induction S oldlimit f w r rule: limit_loop.raw_induct [rotated, consumes 1, case_names 1])
  case (1 loop S oldlimit f w r)
  have "oldlimit < f"
  proof (rule ccontr)
    assume "\<not> oldlimit < f"
    then have "unat f < 48" using 1(4) by (simp add: word_less_nat_alt)
    then show False using 1(3) by simp
  qed
  then show False using 1(1) [of S oldlimit "f - 128" w r] 1(2-5) minus_128 [of f] by simp
qed

lemma limit_loop_hangs:
  assumes "oldlimit < 48" "\<And>f w. se_setrlimit S f w = (False, w)"
  shows "limit_loop S oldlimit NAC_MAXFILES w = None"
proof (rule ccontr)
  assume "limit_loop S oldlimit NAC_MAXFILES w \<noteq> None"
  then obtain r where "limit_loop S oldlimit NAC_MAXFILES w = Some r" by blast
  then show False using limit_loop_some [of S oldlimit NAC_MAXFILES w r] assms
    by (simp add: NAC_MAXFILES_def MAX_PEER_NUMS_def)
qed

section \<open>From the configuration to the running relay\<close>

lemma opened_parts:
  assumes "open_resources S False lg (cs0, w) = Inr (Some (cs, lg'), w')"
  shows "\<exists>cs1 w1 cs2 w2. load_sharememory S (cs0, w) = Inr (Some cs1, w1) \<and> create_messagequeue S (cs1, w1) = (Some cs2, w2) \<and>
    cs = init_peers cs2"
proof -
  obtain r w1 where l: "load_sharememory S (cs0, w) = Inr (r, w1)"
    using assms by (auto simp: open_resources_def rbind_eq_Inr)
  then obtain cs1 where r: "r = Some cs1" using assms by (cases r) (auto simp: open_resources_def)
  obtain q w2 where q: "create_messagequeue S (cs1, w1) = (q, w2)" by fastforce
  then obtain cs2 where "q = Some cs2" using assms l r by (cases q) (auto simp: open_resources_def)
  then show ?thesis using assms l r q by (auto simp: open_resources_def rbind_eq_Inr Let_def)
qed

lemma opened_slots:
  assumes "open_resources S False lg (cs0, w) = Inr (Some (cs, lg'), w')" "cs_reload cs"
  shows "slots_idle (cs_slots cs)"
proof -
  obtain cs1 w1 cs2 w2 where "load_sharememory S (cs0, w) = Inr (Some cs1, w1)" "create_messagequeue S (cs1, w1) = (Some cs2, w2)"
      "cs = init_peers cs2"
    using opened_parts [OF assms(1)] by blast
  moreover have "cs_reload (init_peers cs2) = cs_reload cs2" by (simp add: init_peers_def)
  ultimately show ?thesis using assms(2) init_peers_idle [of cs2] by simp
qed

text \<open>A shared memory that is created is always initialised.\<close>

lemma created_memory_reloads:
  assumes "ipc_shm_open (ne_ipc (se_nac S)) (cs_share_path cs0) (cs_memory_id cs0) w = (None, w1)"
    "open_resources S False lg (cs0, w) = Inr (Some (cs, lg'), w')"
  shows "cs_reload cs"
proof -
  obtain cs1 w1 cs2 w2 where c: "load_sharememory S (cs0, w) = Inr (Some cs1, w1)" "create_messagequeue S (cs1, w1) = (Some cs2, w2)"
      "cs = init_peers cs2"
    using opened_parts [OF assms(2)] by blast
  have "cs_reload cs1" using c(1) assms(1) by (auto simp: load_sharememory_def split: option.splits prod.splits shm_ptr.splits)
  moreover have "cs_reload cs2 = cs_reload cs1" using c(2) by (auto simp: create_messagequeue_def split: prod.splits if_splits)
  ultimately show ?thesis using c(3) by (simp add: init_peers_def)
qed

text \<open>
  C9: When the relay starts with initialised slots, that is with a new shared memory or the option \<open>reload\<close>, the event
  loop begins in a state that keeps the invariant of the relay, with the listening socket and the pair as the
  descriptors of the process, and so does every state it reaches from there.
\<close>

theorem relay_started:
  assumes "epoll_doc ctl wait watched" "ne_api (se_nac S) = epoll_api ctl wait" "start_doc S opn (epoll_sync watched)"
    "open_resources S False lg (cs0, w0) = Inr (Some (cs, lg'), w1)"
    "cs_reload cs \<or> fst (ipc_shm_open (ne_ipc (se_nac S)) (cs_share_path cs0) (cs_memory_id cs0) w0) = None"
    "nac_start S cs w1 = Some (Inr (Some (pm, server), w2))" "nac_reach (se_nac S) (pm, w2) st"
  shows "relay_ok (epoll_sync watched) opn {server, fst (pm_pipe pm), snd (pm_pipe pm)} st"
proof -
  note B = epoll_backend [OF assms(1)]
  have "cs_reload cs" using assms(5) created_memory_reloads [OF _ assms(4)]
    by (cases "ipc_shm_open (ne_ipc (se_nac S)) (cs_share_path cs0) (cs_memory_id cs0) w0") auto
  then have "slots_idle (cs_slots cs)" by (rule opened_slots [OF assms(4)])
  then have "relay_ok (epoll_sync watched) opn {server, fst (pm_pipe pm), snd (pm_pipe pm)} (pm, w2)"
    by (rule ae_backend.nac_start_ok [OF B assms(3,2) _ assms(6)])
  then show ?thesis
    by (rule ae_backend.reach_ok [OF B assms(7) _ assms(2) epoll_total start_docD(1) [OF assms(3)]])
qed

text \<open>
  Without \<open>reload\<close> the slots of a shared memory that is already there are used as they are: a slot that an earlier process left
  active makes the count of the connections wrong from the start, and its descriptor means something else now.
\<close>

lemma stale_slot:
  assumes "i < length (cs_slots cs)" "pi_active (cs_slots cs ! i)"
  shows "\<not> relay_ok sync opn kept (new_process cs el pair, w)"
proof
  assume r: "relay_ok sync opn kept (new_process cs el pair, w)"
  let ?n = "length (filter pi_active (cs_slots cs))"
  have "length (cs_slots cs) = MAX_PEER_NUMS" using relay_slots [OF r] by (simp add: new_process_def)
  then have "?n < 65536" using length_filter_le [of pi_active "cs_slots cs"] by (simp add: MAX_PEER_NUMS_def)
  then have "unat (of_nat ?n :: u16) = ?n" by (simp add: unsigned_of_nat take_bit_eq_mod)
  moreover have "(of_nat ?n :: u16) = 0" using tablesD(2) [OF relay_tables [OF r]] by (simp add: new_process_def)
  ultimately have "?n = 0" by (metis unsigned_0)
  then show False using assms by (auto simp: filter_empty_conv)
qed

text \<open>A system for the witness: there is no shared memory yet, and one can be made.\<close>

definition start_ipc :: "'w ipc" where
  "start_ipc = demo_ipc\<lparr>ip_shmget := (\<lambda>k n create w. (if create then 1 else - 1, w)), ip_shmat := (\<lambda>s w. (Attached 0, w))\<rparr>"

definition demo_start :: "((int \<Rightarrow> (u32 \<times> int) option) epoll_state, nat list \<times> byte list \<times> byte list) start_env" where
  "demo_start = \<lparr>se_nac = demo_nac\<lparr>ne_ipc := start_ipc\<rparr>,
     se_sys = \<lparr>io_open = (\<lambda>p c w. (- 1, w)), io_close = (\<lambda>f w. (True, w)), io_read = (\<lambda>f n w. (R_Data [], w)),
       io_write = (\<lambda>f b w. (W_Count (length b), w)), io_stat = (\<lambda>f w. (None, w))\<rparr>,
     se_log = \<lparr>lo_open = (\<lambda>n w. (Some 9, w)), lo_print = (\<lambda>f s w. w), lo_close = (\<lambda>f w. w), lo_stderr = (\<lambda>s w. w),
       lo_now = (\<lambda>w. (\<lparr>tm_year = 114, tm_mon = 0, tm_mday = 1, tm_hour = 0, tm_min = 0, tm_sec = 0\<rparr>, w)), lo_tid = 0,
       lo_strerror = (\<lambda>e. []), lo_errno = (\<lambda>w. 0)\<rparr>,
     se_home = Some (ascii ''/root''), se_segment = (\<lambda>a w. []),
     se_loop = \<lparr>env_api = epoll_api demo_ctl demo_wait, env_time = (\<lambda>w. ((1, 0), w)), env_clock = (\<lambda>w. (1, w)),
       env_call = (\<lambda>c w. (Return 0, w)), env_final = (\<lambda>f d w. w)\<rparr>,
     se_poll = (\<lambda>w. (Some \<lparr>ep_fd = 9, ep_kern = (\<lambda>_. None)\<rparr>, w)),
     se_pair = (\<lambda>(fds, w). let a = Suc (sum_list fds) in (Some (int a, int (Suc a)), a # Suc a # fds, w)),
     se_getrlimit = (\<lambda>w. (None, w)), se_setrlimit = (\<lambda>l w. (False, w))\<rparr>"

definition demo_conf :: conf_state where
  "demo_conf = \<lparr>cs_log_level = 0, cs_log_file = [], cs_app_id = 120, cs_device_id = 1200, cs_reload = False, cs_share_path = [],
     cs_memory_id = 1, cs_queue_path = [], cs_in_msg_id = 15, cs_out_msg_id = 16, cs_server_ip = 0, cs_server_port = 7960,
     cs_timeout = 300, cs_step = 1000, cs_in_queue = - 1, cs_out_queue = - 1, cs_slots = []\<rparr>"

lemma demo_start_doc: "start_doc demo_start demo_fds (epoll_sync (\<lambda>q. q))"
proof -
  have "env_doc (demo_nac\<lparr>ne_ipc := start_ipc\<rparr>) demo_fds"
    using demo_nac_doc by (simp add: env_doc_def start_ipc_def demo_ipc_def)
  moreover have "nt_opts_ok pair_net" using demo_net_opts by (simp add: nt_opts_ok_def pair_net_def demo_net_def)
  ultimately show ?thesis
    by (auto simp: start_doc_def demo_start_def demo_nac_def Let_def epoll_sync_def dest!: member_le_sum_list split: prod.splits)
qed

lemma demo_register:
  assumes "el_setsize el = int (length (el_events el))" "0 \<le> fd" "fd < el_setsize el" "fe_mask (el_events el ! nat fd) = AE_NONE"
    "ep_kern (el_api el) fd = None"
  shows "\<exists>el'. aeCreateFileEvent (epoll_api demo_ctl demo_wait) el fd AE_READABLE p d = Inr (el', AE_OK) \<and>
    el_setsize el' = el_setsize el \<and> el_events el' = (el_events el)[nat fd := fe_register (el_events el ! nat fd) AE_READABLE p d] \<and>
    (\<forall>x. x \<noteq> fd \<longrightarrow> ep_kern (el_api el') x = ep_kern (el_api el) x) \<and> el_next el' = el_next el"
  using assms by (auto simp: aeCreateFileEvent_def epoll_api_def epoll_add_def Let_def demo_ctl_def)

lemma demo_server: "\<exists>el. start_server demo_start cs ([], i, out) = Inr (Some (1, el), [1], i, out) \<and>
    el_setsize el = int (length (el_events el)) \<and> 3 < el_setsize el \<and> fe_mask (el_events el ! 2) = AE_NONE \<and>
    ep_kern (el_api el) 2 = None \<and> el_next el = 0"
proof -
  define n where "n = nat (int MAX_PEER_NUMS + 1024)"
  have n: "3 < n" "int MAX_PEER_NUMS + 1024 = int n" by (simp_all add: n_def MAX_PEER_NUMS_def)
  define el where "el = \<lparr>el_maxfd = - 1, el_setsize = int n, el_next = 0, el_last = 1, el_events = replicate n blank_event,
    el_fired = replicate n None, el_timers = [], el_stop = False, el_api = \<lparr>ep_fd = 9, ep_kern = (\<lambda>_ :: int. None :: (u32 \<times> int) option)\<rparr>, el_sleep = None\<rparr>"
  have c: "aeCreateEventLoop (Some \<lparr>ep_fd = 9, ep_kern = (\<lambda>_ :: int. None :: (u32 \<times> int) option)\<rparr>) 1 (int n) = Inr (Some el)"
    by (simp add: aeCreateEventLoop_def el_def)
  obtain el' where el': "aeCreateFileEvent (epoll_api demo_ctl demo_wait) el 1 AE_READABLE ACCEPT_TCP 0 = Inr (el', AE_OK)"
      "el_setsize el' = el_setsize el" "el_events el' = (el_events el)[nat 1 := fe_register (el_events el ! nat 1) AE_READABLE ACCEPT_TCP 0]"
      "\<forall>x. x \<noteq> 1 \<longrightarrow> ep_kern (el_api el') x = ep_kern (el_api el) x" "el_next el' = el_next el"
    using demo_register [of el 1 ACCEPT_TCP 0] n(1) by (auto simp: el_def blank_event_def)
  have s: "tfnet_tcp_server2 pair_net p a ([], i, out) = (1, [1], i, out)" for p a
    by (simp add: tfnet_tcp_server2_def tfnet_create_socket_def serve_on_def tfnet_listen_def pair_net_def demo_net_def)
  have "start_server demo_start cs ([], i, out) = Inr (Some (1, el'), [1], i, out)"
    using s c el'(1) by (simp add: start_server_def demo_start_def demo_nac_def n(2))
  then show ?thesis using el'(2-5) n(1) by (intro exI [of _ el']) (simp add: el_def blank_event_def)
qed

theorem relay_started_witness:
  "\<exists>cs lg pm w. open_resources demo_start False \<lparr>lg_level = 0, lg_opened = False, lg_file = None\<rparr> (demo_conf, [], [], []) = Inr (Some (cs, lg), [], [], []) \<and>
     nac_start demo_start cs ([], [], []) = Some (Inr (Some (pm, 1), w)) \<and>
     relay_ok (epoll_sync (\<lambda>q. q)) demo_fds {1, fst (pm_pipe pm), snd (pm_pipe pm)} (pm, w)"
proof -
  let ?lg = "\<lparr>lg_level = 0, lg_opened = False, lg_file = None\<rparr>" and ?w = "([], [], []) :: nat list \<times> byte list \<times> byte list"
  have shm: "ipc_shm_open start_ipc [] 1 ?w = (None, ?w)" "ipc_shm_create start_ipc [] 1 SHMEM_SIZE ?w = (Some (Attached 0), ?w)"
    by (simp_all add: ipc_shm_open_def ipc_shm_create_def ipc_unique_key_def start_ipc_def demo_ipc_def)
  have q: "ipc_queue_create start_ipc [] n ?w = (n, ?w)" if "0 \<le> n" for n
    using that by (simp add: ipc_queue_create_def ipc_unique_key_def start_ipc_def demo_ipc_def)
  have lim: "adjust_peers_limit demo_start ?w = Some ?w" by (simp add: adjust_peers_limit_def demo_start_def)
  define cs1 where "cs1 = demo_conf\<lparr>cs_slots := replicate MAX_PEER_NUMS zero_slot, cs_reload := True\<rparr>"
  define cs where "cs = init_peers (cs1\<lparr>cs_in_queue := 15, cs_out_queue := 16\<rparr>)"
  have l: "load_sharememory demo_start (demo_conf, ?w) = Inr (Some cs1, ?w)"
    using shm by (simp add: load_sharememory_def demo_start_def demo_conf_def cs1_def)
  have m: "create_messagequeue demo_start (cs1, ?w) = (Some (cs1\<lparr>cs_in_queue := 15, cs_out_queue := 16\<rparr>), ?w)"
    using q by (simp add: create_messagequeue_def demo_start_def cs1_def demo_conf_def)
  obtain lg where g: "log_create (se_log demo_start) (cs_log_level cs) (cs_log_file cs) (?lg, ?w) = Inr (lg, ?w)"
    using length_mmddhhmiss [of "\<lparr>tm_year = 114, tm_mon = 0, tm_mday = 1, tm_hour = 0, tm_min = 0, tm_sec = 0\<rparr>"]
    by (simp add: log_create_def demo_start_def fits_def tm_ok_def)
  have o: "open_resources demo_start False ?lg (demo_conf, ?w) = Inr (Some (cs, lg), ?w)"
    using l m g by (simp add: open_resources_def cs_def)
  have port: "cs_server_port cs \<noteq> 0" by (simp add: cs_def cs1_def init_peers_def demo_conf_def)
  obtain el where el: "start_server demo_start cs ?w = Inr (Some (1, el), [1], [], [])"
      "el_setsize el = int (length (el_events el))" "3 < el_setsize el" "fe_mask (el_events el ! 2) = AE_NONE"
      "ep_kern (el_api el) 2 = None" "el_next el = 0" using demo_server [of cs] by blast
  obtain el' where el': "aeCreateFileEvent (epoll_api demo_ctl demo_wait) el 2 AE_READABLE MESSAGE_RESPONSE 0 = Inr (el', AE_OK)"
      "el_next el' = 0" using demo_register [OF el(2), of 2 MESSAGE_RESPONSE 0] el(3-6) by auto
  have pair: "se_pair demo_start ([1], [], []) = (Some (2, 3), [2, 3, 1], [], [])" by (simp add: demo_start_def)
  have time: "\<exists>el2 id. aeCreateTimeEvent (se_loop demo_start) ms LIFE_CYCLE 0 None (el', v) = Inr ((el2, v), id)" for ms v
    using el'(2) by (simp add: aeCreateTimeEvent_def Let_def aeAddMillisecondsToNow_def aeGetTime_def i64_max_def demo_start_def split: prod.splits)
  have api: "ne_api (se_nac demo_start) = epoll_api demo_ctl demo_wait" by (simp add: demo_start_def demo_nac_def)
  obtain el2 id where e2: "aeCreateTimeEvent (se_loop demo_start) (uint (cs_step cs)) LIFE_CYCLE 0 None (el', [2, 3, 1], [], []) =
      Inr ((el2, [2, 3, 1], [], []), id)" using time by blast
  have p: "start_pair demo_start cs (1, el) ([1], [], []) = Inr (Some (new_process cs el2 (2, 3), 1), [2, 3, 1], [], [])"
    using pair el'(1) e2 by (simp add: start_pair_def api)
  obtain pm w where s: "nac_start demo_start cs ?w = Some (Inr (Some (pm, 1), w))"
    using lim port el(1) p by (simp add: nac_start_def)
  have "fst (ipc_shm_open (ne_ipc (se_nac demo_start)) (cs_share_path demo_conf) (cs_memory_id demo_conf) ?w) = None"
    using shm(1) by (simp add: demo_start_def demo_conf_def)
  then have "relay_ok (epoll_sync (\<lambda>q. q)) demo_fds {1, fst (pm_pipe pm), snd (pm_pipe pm)} (pm, w)"
    using relay_started [OF demo_epoll_doc api demo_start_doc o _ s nac_reach.start] by blast
  then show ?thesis using o s by blast
qed

end
