(* ===== verification/TF_Thread.thy ===== *)
theory TF_Thread
  imports TF_Prelude "HOL-Library.Signed_Division"
begin

text \<open>
  The thread functions of \<open>tf_thread.c\<close>.  The calls of the thread library are an argument, a record of
  functions on the state of the system; each yields its error number, zero for success.  The three
  static variables are a record.  Messages to the log are left out.
\<close>

section \<open>State\<close>

record thread_state =
  nthreads :: u32
  max_threads :: u32
  thread_inited :: bool

definition TF_MAX_THREADS :: u32 where "TF_MAX_THREADS = 128"

definition threads_start :: thread_state where
  "threads_start = \<lparr>nthreads = 0, max_threads = TF_MAX_THREADS, thread_inited = False\<rparr>"

text \<open>
  The library: \<open>th_create\<close> is told whether the attributes of \<open>tf_init_threads\<close> are used; mutexes and
  condition variables are known by the block that \<open>tf_alloc\<close> gave them.
\<close>

record 'w thread_calls =
  th_create :: "bool \<Rightarrow> 'w \<Rightarrow> int \<times> 'w"
  th_attr_init :: "'w \<Rightarrow> int \<times> 'w"
  th_attr_stack :: "nat \<Rightarrow> 'w \<Rightarrow> int \<times> 'w"
  th_alloc :: "'w \<Rightarrow> nat option \<times> 'w"
  th_free :: "nat \<Rightarrow> 'w \<Rightarrow> 'w"
  th_mutex_init :: "nat \<Rightarrow> 'w \<Rightarrow> int \<times> 'w"
  th_mutex_destroy :: "nat \<Rightarrow> 'w \<Rightarrow> int \<times> 'w"
  th_mutex_lock :: "nat \<Rightarrow> 'w \<Rightarrow> int \<times> 'w"
  th_mutex_trylock :: "nat \<Rightarrow> 'w \<Rightarrow> int \<times> 'w"
  th_mutex_unlock :: "nat \<Rightarrow> 'w \<Rightarrow> int \<times> 'w"
  th_cond_init :: "nat \<Rightarrow> 'w \<Rightarrow> int \<times> 'w"
  th_cond_destroy :: "nat \<Rightarrow> 'w \<Rightarrow> int \<times> 'w"
  th_cond_wait :: "nat \<Rightarrow> nat \<Rightarrow> 'w \<Rightarrow> int \<times> 'w"
  th_cond_signal :: "nat \<Rightarrow> 'w \<Rightarrow> int \<times> 'w"
  th_nanosleep :: "int \<times> int \<Rightarrow> 'w \<Rightarrow> (int \<times> int) option \<times> 'w"

section \<open>Creating threads\<close>

definition tf_create_thread :: "'w thread_calls \<Rightarrow> thread_state \<times> 'w \<Rightarrow> bool \<times> thread_state \<times> 'w" where
  "tf_create_thread T = (\<lambda>(s, w).
     if nthreads s \<ge> max_threads s then (False, s, w)
     else case th_create T (thread_inited s) w of (err, w) \<Rightarrow>
       if err \<noteq> 0 then (False, s, w) else (True, s\<lparr>nthreads := nthreads s + 1\<rparr>, w))"

text \<open>The limit is set even when the rest fails; a negative number becomes a huge limit.\<close>

definition tf_init_threads :: "'w thread_calls \<Rightarrow> int \<Rightarrow> nat \<Rightarrow> thread_state \<times> 'w \<Rightarrow> bool \<times> thread_state \<times> 'w" where
  "tf_init_threads T n sz = (\<lambda>(s, w).
     let s = s\<lparr>max_threads := word_of_int n\<rparr>
     in case th_attr_init T w of (err, w) \<Rightarrow>
       if err \<noteq> 0 then (False, s, w)
       else case th_attr_stack T sz w of (err, w) \<Rightarrow>
         if err \<noteq> 0 then (False, s, w) else (True, s\<lparr>thread_inited := True\<rparr>, w))"

section \<open>Mutexes\<close>

text \<open>A mutex that cannot be initialised is not freed.\<close>

definition tf_mutex_init :: "'w thread_calls \<Rightarrow> 'w \<Rightarrow> nat option \<times> 'w" where
  "tf_mutex_init T w =
     (case th_alloc T w of
        (None, w) \<Rightarrow> (None, w)
      | (Some m, w) \<Rightarrow> (case th_mutex_init T m w of (err, w) \<Rightarrow> (if err \<noteq> 0 then None else Some m, w)))"

definition tf_mutex_destroy :: "'w thread_calls \<Rightarrow> nat \<Rightarrow> 'w \<Rightarrow> 'w" where
  "tf_mutex_destroy T m w = (case th_mutex_destroy T m w of (_, w) \<Rightarrow> th_free T m w)"

definition EBUSY :: int where "EBUSY = 16"
datatype tf_status = TF_OK | TF_AGAIN

text \<open>Nothing is locked before \<open>tf_init_threads\<close> has succeeded; an error of the library aborts.\<close>

definition tf_mutex_lock :: "'w thread_calls \<Rightarrow> nat \<Rightarrow> thread_state \<times> 'w \<Rightarrow> c_error + 'w" where
  "tf_mutex_lock T m = (\<lambda>(s, w).
     if \<not> thread_inited s then Inr w
     else case th_mutex_lock T m w of (err, w) \<Rightarrow> if err \<noteq> 0 then Inl Assert_Fail else Inr w)"

definition tf_mutex_trylock :: "'w thread_calls \<Rightarrow> nat \<Rightarrow> thread_state \<times> 'w \<Rightarrow> c_error + tf_status \<times> 'w" where
  "tf_mutex_trylock T m = (\<lambda>(s, w).
     if \<not> thread_inited s then Inr (TF_OK, w)
     else case th_mutex_trylock T m w of (err, w) \<Rightarrow>
       if err = EBUSY then Inr (TF_AGAIN, w) else if err \<noteq> 0 then Inl Assert_Fail else Inr (TF_OK, w))"

definition tf_mutex_unlock :: "'w thread_calls \<Rightarrow> nat \<Rightarrow> thread_state \<times> 'w \<Rightarrow> c_error + 'w" where
  "tf_mutex_unlock T m = (\<lambda>(s, w).
     if \<not> thread_inited s then Inr w
     else case th_mutex_unlock T m w of (err, w) \<Rightarrow> if err \<noteq> 0 then Inl Assert_Fail else Inr w)"

section \<open>Condition variables\<close>

definition tf_cond_init :: "'w thread_calls \<Rightarrow> 'w \<Rightarrow> nat option \<times> 'w" where
  "tf_cond_init T w =
     (case th_alloc T w of
        (None, w) \<Rightarrow> (None, w)
      | (Some cv, w) \<Rightarrow> (case th_cond_init T cv w of (err, w) \<Rightarrow> (if err \<noteq> 0 then None else Some cv, w)))"

definition tf_cond_destroy :: "'w thread_calls \<Rightarrow> nat \<Rightarrow> 'w \<Rightarrow> 'w" where
  "tf_cond_destroy T cv w = (case th_cond_destroy T cv w of (_, w) \<Rightarrow> th_free T cv w)"

definition tf_cond_wait :: "'w thread_calls \<Rightarrow> nat \<Rightarrow> nat \<Rightarrow> 'w \<Rightarrow> bool \<times> 'w" where
  "tf_cond_wait T cv m w = (case th_cond_wait T cv m w of (err, w) \<Rightarrow> (err = 0, w))"

definition tf_cond_signal :: "'w thread_calls \<Rightarrow> nat \<Rightarrow> 'w \<Rightarrow> bool \<times> 'w" where
  "tf_cond_signal T cv w = (case th_cond_signal T cv w of (err, w) \<Rightarrow> (err = 0, w))"

section \<open>Sleeping\<close>

text \<open>
  The argument is a number of milliseconds.  What remains is written only by a sleep that is cut short; after
  a whole one (\<^term>\<open>None\<close>) the structure is read all the same.
\<close>

definition tf_sleep :: "'w thread_calls \<Rightarrow> int \<Rightarrow> 'w \<Rightarrow> c_error + int \<times> 'w" where
  "tf_sleep T microsec w =
     (case th_nanosleep T (microsec sdiv 1000, (microsec smod 1000) * 1000000) w of
        (None, w) \<Rightarrow> Inl Uninitialised
      | (Some (sec, nsec), w) \<Rightarrow> Inr (sec * 1000 + nsec sdiv 1000000, w))"

section \<open>The limit\<close>

text \<open>Any number of calls to create a thread, and how many of them succeed.\<close>

fun create_threads :: "'w thread_calls \<Rightarrow> nat \<Rightarrow> thread_state \<times> 'w \<Rightarrow> nat \<times> thread_state \<times> 'w" where
  "create_threads T 0 st = (0, st)"
| "create_threads T (Suc n) st =
     (case tf_create_thread T st of (ok, st) \<Rightarrow>
      case create_threads T n st of (k, st) \<Rightarrow> (if ok then Suc k else k, st))"

lemma create_threads_limit:
  "nthreads s \<le> max_threads s \<Longrightarrow> create_threads T n (s, w) = (k, s', w') \<Longrightarrow>
     max_threads s' = max_threads s \<and> nthreads s' \<le> max_threads s \<and> unat (nthreads s') = unat (nthreads s) + k"
proof (induction n arbitrary: s w k)
  case (Suc n)
  obtain ok s1 w1 where c: "tf_create_thread T (s, w) = (ok, s1, w1)" by (cases "tf_create_thread T (s, w)") simp
  obtain j where j: "create_threads T n (s1, w1) = (j, s', w')" "k = (if ok then Suc j else j)"
    using Suc.prems(2) c by (auto split: prod.splits)
  have "max_threads s1 = max_threads s \<and> nthreads s1 \<le> max_threads s \<and>
      unat (nthreads s1) = unat (nthreads s) + (if ok then 1 else 0)"
  proof (cases "nthreads s \<ge> max_threads s")
    case True
    then show ?thesis using c Suc.prems(1) by (simp add: tf_create_thread_def)
  next
    case False
    then have lt: "unat (nthreads s) < unat (max_threads s)" by (simp add: word_le_nat_alt)
    have "unat (max_threads s) < 2 ^ 32" using unsigned_less [of "max_threads s"] by simp
    then have "unat (nthreads s + 1) = unat (nthreads s) + 1"
      using lt by (simp add: unat_word_ariths)
    then show ?thesis using c False lt Suc.prems(1)
      by (auto simp: tf_create_thread_def word_le_nat_alt split: prod.splits if_splits)
  qed
  then show ?case using Suc.IH [of s1 w1 j] j by auto
qed simp

text \<open>
  However many threads are asked for, at most as many are created as the limit allows, and the counter is their
  number; it is never lowered, so once the limit is reached no thread can be created again.
\<close>

lemma thread_limit:
  assumes "create_threads T n (threads_start, w) = (k, s, w')"
  shows "unat (nthreads s) = k \<and> k \<le> 128 \<and> (k = 128 \<longrightarrow> tf_create_thread T (s, w') = (False, s, w'))"
proof -
  have "max_threads s = 128 \<and> nthreads s \<le> 128 \<and> unat (nthreads s) = k"
    using create_threads_limit [OF _ assms] by (simp add: threads_start_def TF_MAX_THREADS_def)
  then show ?thesis by (auto simp: tf_create_thread_def word_le_nat_alt)
qed

text \<open>Calls that succeed, for the witness.\<close>

definition calm_threads :: "nat thread_calls" where
  "calm_threads = \<lparr>th_create = (\<lambda>a w. (0, w)), th_attr_init = (\<lambda>w. (0, w)), th_attr_stack = (\<lambda>n w. (0, w)),
     th_alloc = (\<lambda>w. (Some w, w + 1)), th_free = (\<lambda>m w. w), th_mutex_init = (\<lambda>m w. (0, w)),
     th_mutex_destroy = (\<lambda>m w. (0, w)), th_mutex_lock = (\<lambda>m w. (0, w)), th_mutex_trylock = (\<lambda>m w. (EBUSY, w)),
     th_mutex_unlock = (\<lambda>m w. (0, w)), th_cond_init = (\<lambda>m w. (0, w)), th_cond_destroy = (\<lambda>m w. (0, w)),
     th_cond_wait = (\<lambda>c m w. (0, w)), th_cond_signal = (\<lambda>c w. (0, w)), th_nanosleep = (\<lambda>t w. (None, w))\<rparr>"

lemma thread_limit_example:
  "\<exists>s. create_threads calm_threads 3 (threads_start, 0) = (3, s, 0) \<and> unat (nthreads s) = 3"
proof -
  have step: "tf_create_thread calm_threads (\<lparr>nthreads = n, max_threads = 128, thread_inited = False\<rparr>, w) =
      (True, \<lparr>nthreads = n + 1, max_threads = 128, thread_inited = False\<rparr>, w)" if "n < 128" for n w
    using that by (simp add: tf_create_thread_def calm_threads_def not_le [symmetric])
  obtain s where s: "create_threads calm_threads 3 (threads_start, 0) = (3, s, 0)"
    by (simp add: numeral_3_eq_3 step threads_start_def TF_MAX_THREADS_def)
  then show ?thesis using thread_limit [OF s] by simp
qed

text \<open>
  Threads can be created before \<open>tf_init_threads\<close>, but locks do nothing until it has succeeded; and a sleep
  that is not cut short yields a value that was never stored.
\<close>

lemma unprotected:
  "th_create T False w = (0, w1) \<Longrightarrow> tf_create_thread T (threads_start, w) = (True, threads_start\<lparr>nthreads := 1\<rparr>, w1)"
  "tf_mutex_lock T m (threads_start\<lparr>nthreads := n\<rparr>, w) = Inr w"
  by (simp_all add: tf_create_thread_def tf_mutex_lock_def threads_start_def TF_MAX_THREADS_def)

lemma sleep_uninitialised: "th_nanosleep T (1, 0) w = (None, w1) \<Longrightarrow> tf_sleep T 1000 w = Inl Uninitialised"
  by (simp add: tf_sleep_def)

end
