(* ===== verification/TF_Malloc_Conc.thy ===== *)
theory TF_Malloc_Conc
  imports TF_Malloc
begin

text \<open>
  The counter \<open>used_memory\<close> of \<open>tf_malloc.c\<close> under threads.  A thread is a program of updates and
  reads of the counter with its place inside the current one; one step is one access to the shared
  memory: a load, a store, a lock, an unlock, or one atomic operation.  A schedule is any sequence of
  thread numbers.  The two ways the file is built, with \<open>HAVE_ATOMIC\<close> and without, are a parameter;
  the flag \<open>tf_malloc_thread_safe\<close> is part of the state.
\<close>

section \<open>The code\<close>

datatype stat_build = Have_Atomic | Use_Mutex
datatype stat_op = Stat_Alloc u64 | Stat_Free u64 | Used_Memory

text \<open>Where a thread is: before its operation, with the lock, with the counter in a register, after the store.\<close>

datatype stat_pc = At_Op | Locked | Loaded u64 | Stored

record stat_thread =
  mt_todo :: "stat_op list"
  mt_pc :: stat_pc
  mt_seen :: "u64 list"

record stat_state =
  mc_used :: u64
  mc_owner :: "nat option"
  mc_safe :: bool
  mc_threads :: "stat_thread list"

definition stat_value :: "stat_op \<Rightarrow> u64 \<Rightarrow> u64" where
  "stat_value c v = (case c of
     Stat_Alloc n \<Rightarrow> v + round_long n
   | Stat_Free n \<Rightarrow> v - round_long n
   | Used_Memory \<Rightarrow> v)"

text \<open>An operation returns: a read of the counter yields the value \<open>um\<close>.\<close>

definition op_return :: "u64 \<Rightarrow> stat_thread \<Rightarrow> stat_thread" where
  "op_return um t = t\<lparr>mt_todo := tl (mt_todo t), mt_pc := At_Op,
     mt_seen := (if hd (mt_todo t) = Used_Memory then mt_seen t @ [um] else mt_seen t)\<rparr>"

text \<open>\<open>used_memory += _n\<close> with nothing around it is a load and a store.\<close>

definition plain_step :: "nat \<Rightarrow> stat_thread \<Rightarrow> stat_state \<Rightarrow> stat_state" where
  "plain_step i t s = (case mt_pc t of
     Loaded v \<Rightarrow> s\<lparr>mc_used := stat_value (hd (mt_todo t)) v, mc_threads := (mc_threads s)[i := op_return v t]\<rparr>
   | _ \<Rightarrow> if hd (mt_todo t) = Used_Memory
         then s\<lparr>mc_threads := (mc_threads s)[i := op_return (mc_used s) t]\<rparr>
         else s\<lparr>mc_threads := (mc_threads s)[i := t\<lparr>mt_pc := Loaded (mc_used s)\<rparr>]\<rparr>)"

definition mutex_step :: "nat \<Rightarrow> stat_thread \<Rightarrow> stat_state \<Rightarrow> stat_state option" where
  "mutex_step i t s = (case mt_pc t of
     At_Op \<Rightarrow> (case mc_owner s of
        None \<Rightarrow> Some (s\<lparr>mc_owner := Some i, mc_threads := (mc_threads s)[i := t\<lparr>mt_pc := Locked\<rparr>]\<rparr>)
      | Some _ \<Rightarrow> None)
   | Locked \<Rightarrow> Some (s\<lparr>mc_threads := (mc_threads s)[i := t\<lparr>mt_pc := Loaded (mc_used s)\<rparr>]\<rparr>)
   | Loaded v \<Rightarrow>
       if hd (mt_todo t) = Used_Memory
       then Some (s\<lparr>mc_owner := None, mc_threads := (mc_threads s)[i := op_return v t]\<rparr>)
       else Some (s\<lparr>mc_used := stat_value (hd (mt_todo t)) v, mc_threads := (mc_threads s)[i := t\<lparr>mt_pc := Stored\<rparr>]\<rparr>)
   | Stored \<Rightarrow> Some (s\<lparr>mc_owner := None, mc_threads := (mc_threads s)[i := op_return (mc_used s) t]\<rparr>))"

definition atomic_step :: "nat \<Rightarrow> stat_thread \<Rightarrow> stat_state \<Rightarrow> stat_state" where
  "atomic_step i t s = s\<lparr>mc_used := stat_value (hd (mt_todo t)) (mc_used s),
     mc_threads := (mc_threads s)[i := op_return (mc_used s) t]\<rparr>"

text \<open>The next step of thread \<open>i\<close>, if it has one: a thread may be done, or wait for the lock.\<close>

definition stat_step :: "stat_build \<Rightarrow> nat \<Rightarrow> stat_state \<Rightarrow> stat_state option" where
  "stat_step b i s =
     (if i \<ge> length (mc_threads s) \<or> mt_todo (mc_threads s ! i) = [] then None
      else if \<not> mc_safe s then Some (plain_step i (mc_threads s ! i) s)
      else case b of
        Have_Atomic \<Rightarrow> Some (atomic_step i (mc_threads s ! i) s)
      | Use_Mutex \<Rightarrow> mutex_step i (mc_threads s ! i) s)"

primrec stat_run :: "stat_build \<Rightarrow> nat list \<Rightarrow> stat_state \<Rightarrow> stat_state" where
  "stat_run b [] s = s"
| "stat_run b (i # is) s = stat_run b is (case stat_step b i s of None \<Rightarrow> s | Some s' \<Rightarrow> s')"

definition stat_start :: "bool \<Rightarrow> u64 \<Rightarrow> stat_op list list \<Rightarrow> stat_state" where
  "stat_start ts u progs = \<lparr>mc_used = u, mc_owner = None, mc_safe = ts,
     mc_threads = map (\<lambda>cs. \<lparr>mt_todo = cs, mt_pc = At_Op, mt_seen = []\<rparr>) progs\<rparr>"

definition all_returned :: "stat_state \<Rightarrow> bool" where
  "all_returned s \<longleftrightarrow> (\<forall>t \<in> set (mc_threads s). mt_todo t = [])"

text \<open>The updates of the allocator of one thread are these operations on its counter.\<close>

lemma stat_value_alloc: "hp_used (tf_malloc_stat_alloc n h) = stat_value (Stat_Alloc n) (hp_used h)"
  by (simp add: tf_malloc_stat_alloc_def stat_value_def)

lemma stat_value_free: "hp_used (tf_malloc_stat_free n h) = stat_value (Stat_Free n) (hp_used h)"
  by (simp add: tf_malloc_stat_free_def stat_value_def)

lemma stat_value_read: "tf_malloc_used_memory h = stat_value Used_Memory (hp_used h)"
  by (simp add: tf_malloc_used_memory_def stat_value_def)

section \<open>The specification: one operation after the other\<close>

definition seq_op :: "nat \<times> stat_op \<Rightarrow> u64 \<times> (nat \<Rightarrow> u64 list) \<Rightarrow> u64 \<times> (nat \<Rightarrow> u64 list)" where
  "seq_op = (\<lambda>(i, c) (v, seen).
     (stat_value c v, if c = Used_Memory then seen(i := seen i @ [v]) else seen))"

definition ops_of :: "nat \<Rightarrow> (nat \<times> stat_op) list \<Rightarrow> stat_op list" where
  "ops_of i order = map snd (filter (\<lambda>(j, _). j = i) order)"

lemma ops_of_snoc: "ops_of i (order @ [(j, c)]) = ops_of i order @ (if j = i then [c] else [])"
  by (simp add: ops_of_def)

definition seen_by :: "stat_state \<Rightarrow> nat \<Rightarrow> u64 list" where
  "seen_by s i = (if i < length (mc_threads s) then mt_seen (mc_threads s ! i) else [])"

text \<open>What a thread has still to do; an update takes effect when it is stored, a read when it returns.\<close>

definition pending :: "stat_thread \<Rightarrow> stat_op list" where
  "pending t = (if mt_pc t = Stored then tl (mt_todo t) else mt_todo t)"

definition thread_ok :: "stat_state \<Rightarrow> nat \<Rightarrow> bool" where
  "thread_ok s i \<longleftrightarrow> (case mt_pc (mc_threads s ! i) of
     At_Op \<Rightarrow> mc_owner s \<noteq> Some i
   | Locked \<Rightarrow> mc_owner s = Some i \<and> mt_todo (mc_threads s ! i) \<noteq> []
   | Loaded v \<Rightarrow> mc_owner s = Some i \<and> mt_todo (mc_threads s ! i) \<noteq> [] \<and> v = mc_used s
   | Stored \<Rightarrow> mc_owner s = Some i \<and> mt_todo (mc_threads s ! i) \<noteq> [] \<and> hd (mt_todo (mc_threads s ! i)) \<noteq> Used_Memory)"

definition lin :: "stat_op list list \<Rightarrow> u64 \<Rightarrow> (nat \<times> stat_op) list \<Rightarrow> stat_state \<Rightarrow> bool" where
  "lin progs u order s \<longleftrightarrow>
     mc_safe s \<and> length (mc_threads s) = length progs \<and>
     (\<forall>i. mc_owner s = Some i \<longrightarrow> i < length progs) \<and>
     (\<forall>i < length progs. thread_ok s i) \<and>
     (\<forall>(i, c) \<in> set order. i < length progs) \<and>
     fold seq_op order (u, \<lambda>_. []) = (mc_used s, seen_by s) \<and>
     (\<forall>i < length progs. progs ! i = ops_of i order @ pending (mc_threads s ! i))"

lemma lin_start: "lin progs u [] (stat_start True u progs)"
  by (auto simp: lin_def stat_start_def thread_ok_def seen_by_def ops_of_def pending_def)

text \<open>Only the owner of the lock is inside its operation.\<close>

lemma lin_thread: "lin progs u order s \<Longrightarrow> i < length progs \<Longrightarrow> thread_ok s i"
  by (simp add: lin_def)

lemma lin_others_out:
  assumes "lin progs u order s" "j < length progs" "mc_owner s \<noteq> Some j"
  shows "mt_pc (mc_threads s ! j) = At_Op"
  using lin_thread [OF assms(1, 2)] assms(3) by (auto simp: thread_ok_def split: stat_pc.splits)

text \<open>A step of thread \<open>i\<close> that is not the effect of an operation, and one that is.\<close>

lemma lin_step_quiet:
  assumes "lin progs u order s" "i < length progs" "t = mc_threads s ! i"
    and s': "s' = s\<lparr>mc_owner := ow, mc_threads := (mc_threads s)[i := t']\<rparr>"
    and "mc_owner s = None \<or> mc_owner s = Some i" "ow = None \<or> ow = Some i" "thread_ok s' i"
    and "pending t' = pending t" "mt_seen t' = mt_seen t"
  shows "lin progs u order s'"
proof -
  have ok: "thread_ok s' j" if "j < length progs" for j
  proof (cases "j = i")
    case False
    then have "mt_pc (mc_threads s ! j) = At_Op" using assms that by (intro lin_others_out) auto
    then show ?thesis using False s' \<open>ow = None \<or> ow = Some i\<close> by (auto simp: thread_ok_def)
  qed (use assms in simp)
  have i: "i < length (mc_threads s)" using assms(1, 2) by (simp add: lin_def)
  have "seen_by s' = seen_by s" using i assms(3-) by (auto simp: seen_by_def fun_eq_iff nth_list_update)
  then show ?thesis using assms ok by (auto simp: lin_def nth_list_update)
qed

lemma lin_step_store:
  assumes "lin progs u order s" "i < length progs" "t = mc_threads s ! i" "mt_todo t \<noteq> []"
    and s': "s' = s\<lparr>mc_used := stat_value (hd (mt_todo t)) (mc_used s), mc_owner := ow, mc_threads := (mc_threads s)[i := t']\<rparr>"
    and t': "mt_pc t \<noteq> Stored" "pending t' = tl (mt_todo t)"
      "mt_seen t' = (if hd (mt_todo t) = Used_Memory then mt_seen t @ [mc_used s] else mt_seen t)"
    and "mc_owner s = None \<or> mc_owner s = Some i" "ow = None \<or> ow = Some i" "thread_ok s' i"
  shows "lin progs u (order @ [(i, hd (mt_todo t))]) s'"
proof -
  have i: "i < length (mc_threads s)" using assms by (simp add: lin_def)
  have ok: "thread_ok s' j" if "j < length progs" for j
  proof (cases "j = i")
    case False
    then have "mt_pc (mc_threads s ! j) = At_Op" using assms that by (intro lin_others_out) auto
    then show ?thesis using False s' \<open>ow = None \<or> ow = Some i\<close> by (auto simp: thread_ok_def)
  qed (use assms in simp)
  have "seen_by s' = (if hd (mt_todo t) = Used_Memory then (seen_by s)(i := seen_by s i @ [mc_used s]) else seen_by s)"
    using assms(3) i s' t'(3) by (auto simp: seen_by_def fun_eq_iff nth_list_update)
  then have "fold seq_op (order @ [(i, hd (mt_todo t))]) (u, \<lambda>_. []) = (mc_used s', seen_by s')"
    using assms(1) s' by (simp add: lin_def seq_op_def)
  moreover have "progs ! j = ops_of j (order @ [(i, hd (mt_todo t))]) @ pending (mc_threads s' ! j)" if "j < length progs" for j
    using assms that i by (auto simp: lin_def ops_of_snoc nth_list_update pending_def)
  ultimately show ?thesis using assms ok by (auto simp: lin_def)
qed

lemma op_return_simps [simp]:
  "mt_todo (op_return v t) = tl (mt_todo t)" "mt_pc (op_return v t) = At_Op"
  "mt_seen (op_return v t) = (if hd (mt_todo t) = Used_Memory then mt_seen t @ [v] else mt_seen t)"
  by (simp_all add: op_return_def)

lemma pending_return [simp]: "pending (op_return v t) = tl (mt_todo t)"
  by (simp add: pending_def)

lemma lin_atomic:
  assumes "lin progs u order s" "i < length progs" "mt_todo (mc_threads s ! i) \<noteq> []" "\<forall>j. mc_owner s \<noteq> Some j"
  shows "lin progs u (order @ [(i, hd (mt_todo (mc_threads s ! i)))]) (atomic_step i (mc_threads s ! i) s)"
proof (rule lin_step_store [OF assms(1, 2) refl assms(3), where ow = None and t' = "op_return (mc_used s) (mc_threads s ! i)"])
  show "mt_pc (mc_threads s ! i) \<noteq> Stored" using lin_others_out [OF assms(1, 2)] assms(4) by simp
qed (use assms in \<open>auto simp: atomic_step_def lin_def thread_ok_def\<close>)

lemma lin_mutex:
  assumes l: "lin progs u order s" and i: "i < length progs" and todo: "mt_todo (mc_threads s ! i) \<noteq> []"
    and s': "mutex_step i (mc_threads s ! i) s = Some s'"
  shows "\<exists>order'. lin progs u order' s'"
proof -
  let ?t = "mc_threads s ! i"
  have len: "i < length (mc_threads s)" using l i by (simp add: lin_def)
  have ok: "thread_ok s i" using l i by (rule lin_thread)
  show ?thesis
  proof (cases "mt_pc ?t")
    case At_Op
    then have "lin progs u order s'" using s' todo len
      by (intro lin_step_quiet [OF l i refl, where ow = "Some i" and t' = "?t\<lparr>mt_pc := Locked\<rparr>"])
        (auto simp: mutex_step_def thread_ok_def pending_def split: option.splits)
    then show ?thesis ..
  next
    case Locked
    then have "lin progs u order s'" using s' todo len ok
      by (intro lin_step_quiet [OF l i refl, where ow = "Some i" and t' = "?t\<lparr>mt_pc := Loaded (mc_used s)\<rparr>"])
        (auto simp: mutex_step_def thread_ok_def pending_def)
    then show ?thesis ..
  next
    case (Loaded v)
    then have v: "v = mc_used s" "mc_owner s = Some i" using ok by (simp_all add: thread_ok_def)
    show ?thesis
    proof (cases "hd (mt_todo ?t) = Used_Memory")
      case True
      then have "lin progs u (order @ [(i, hd (mt_todo ?t))]) s'" using s' todo len v Loaded
        by (intro lin_step_store [OF l i refl todo, where ow = None and t' = "op_return v ?t"])
          (auto simp: mutex_step_def thread_ok_def stat_value_def)
      then show ?thesis ..
    next
      case False
      then have "lin progs u (order @ [(i, hd (mt_todo ?t))]) s'" using s' todo len v Loaded
        by (intro lin_step_store [OF l i refl todo, where ow = "Some i" and t' = "?t\<lparr>mt_pc := Stored\<rparr>"])
          (auto simp: mutex_step_def thread_ok_def pending_def)
      then show ?thesis ..
    qed
  next
    case Stored
    then have "lin progs u order s'" using s' todo len ok
      by (intro lin_step_quiet [OF l i refl, where ow = None and t' = "op_return (mc_used s) ?t"])
        (auto simp: mutex_step_def thread_ok_def pending_def)
    then show ?thesis ..
  qed
qed

text \<open>An atomic build never takes the lock.\<close>

definition lin_state :: "stat_build \<Rightarrow> stat_op list list \<Rightarrow> u64 \<Rightarrow> stat_state \<Rightarrow> bool" where
  "lin_state b progs u s \<longleftrightarrow> (\<exists>order. lin progs u order s) \<and> (b = Have_Atomic \<longrightarrow> mc_owner s = None)"

lemma stat_step_someD:
  assumes "stat_step b i s = Some s'"
  shows "i < length (mc_threads s)" "mt_todo (mc_threads s ! i) \<noteq> []"
  using assms by (auto simp: stat_step_def split: if_splits)

lemma lin_state_step:
  assumes l: "lin_state b progs u s" and s': "stat_step b i s = Some s'"
  shows "lin_state b progs u s'"
proof -
  obtain order where o: "lin progs u order s" using l by (auto simp: lin_state_def)
  then have sz: "mc_safe s" "length (mc_threads s) = length progs" by (simp_all add: lin_def)
  note i = stat_step_someD [OF s'] then have i': "i < length progs" using sz by simp
  show ?thesis
  proof (cases b)
    case Have_Atomic
    then have "mc_owner s = None" using l by (simp add: lin_state_def)
    then have "lin progs u (order @ [(i, hd (mt_todo (mc_threads s ! i)))]) (atomic_step i (mc_threads s ! i) s)"
      using lin_atomic [OF o i' i(2)] by simp
    then show ?thesis using s' i sz Have_Atomic \<open>mc_owner s = None\<close>
      by (auto simp: lin_state_def stat_step_def atomic_step_def)
  next
    case Use_Mutex
    then have "mutex_step i (mc_threads s ! i) s = Some s'" using s' i sz by (simp add: stat_step_def)
    then show ?thesis using lin_mutex [OF o i' i(2)] Use_Mutex by (simp add: lin_state_def)
  qed
qed

lemma lin_state_run: "lin_state b progs u s \<Longrightarrow> lin_state b progs u (stat_run b sched s)"
  by (induction sched arbitrary: s) (auto split: option.split dest: lin_state_step)

lemma lin_state_start: "lin_state b progs u (stat_start True u progs)"
proof -
  have "mc_owner (stat_start True u progs) = None" by (simp add: stat_start_def)
  then show ?thesis using lin_start by (auto simp: lin_state_def)
qed

lemma lin_run: "\<exists>order. lin progs u order (stat_run b sched (stat_start True u progs))"
  using lin_state_run [OF lin_state_start] unfolding lin_state_def by blast

section \<open>The total\<close>

definition delta :: "stat_op \<Rightarrow> u64" where
  "delta c = stat_value c 0"

lemma stat_value_delta: "stat_value c v = v + delta c"
  by (simp add: stat_value_def delta_def split: stat_op.split)

lemma seq_total: "fst (fold seq_op order st) = fst st + sum_list (map (delta \<circ> snd) order)"
proof (induction order arbitrary: st)
  case (Cons x order)
  have "fst (seq_op x st) = fst st + delta (snd x)"
    by (simp add: seq_op_def stat_value_delta split: prod.split)
  then show ?case using Cons by (simp add: add.assoc)
qed simp

lemma order_total:
  assumes "\<forall>(i, c) \<in> set order. i < n"
  shows "sum_list (map (delta \<circ> snd) order) = (\<Sum>i<n. sum_list (map delta (ops_of i order)))"
  using assms
proof (induction order rule: rev_induct)
  case (snoc x order)
  obtain j c where x: "x = (j, c)" by force
  have "(\<Sum>i<n. sum_list (map delta (ops_of i (order @ [x])))) =
      (\<Sum>i<n. sum_list (map delta (ops_of i order)) + (if i = j then delta c else 0))"
    by (intro sum.cong) (auto simp: x ops_of_snoc)
  then show ?case using snoc x by (simp add: sum.distrib)
qed (simp add: ops_of_def)

lemma all_returned_pending:
  assumes "lin progs u order s" "all_returned s" "i < length progs"
  shows "pending (mc_threads s ! i) = []"
  using assms by (auto simp: all_returned_def lin_def pending_def)

text \<open>
  C38: With the flag of \<open>tf_malloc_enable_thread_safeness\<close> set, the counter is linearisable in both builds: for any number of threads
  and any interleaving of their loads, stores, locks and atomic operations, once all calls have
  returned there is an order of the operations, with those of each thread in the order of its program, such that
  executing them one after the other yields the same counter and the same values read; the counter is the initial
  value plus all that was allocated minus all that was freed.
\<close>
theorem stat_run_linearizable:
  assumes "all_returned (stat_run b sched (stat_start True u progs))"
  shows "\<exists>order. (\<forall>i < length progs. ops_of i order = progs ! i) \<and>
      fold seq_op order (u, \<lambda>_. []) =
        (mc_used (stat_run b sched (stat_start True u progs)), seen_by (stat_run b sched (stat_start True u progs))) \<and>
      mc_used (stat_run b sched (stat_start True u progs)) = u + (\<Sum>i < length progs. sum_list (map delta (progs ! i)))"
proof -
  let ?s = "stat_run b sched (stat_start True u progs)"
  obtain order where l: "lin progs u order ?s"
    using lin_run by blast
  have ops: "ops_of i order = progs ! i" if "i < length progs" for i
    using all_returned_pending [OF l assms that] l that by (simp add: lin_def)
  have f: "fold seq_op order (u, \<lambda>_. []) = (mc_used ?s, seen_by ?s)" and r: "\<forall>(i, c) \<in> set order. i < length progs"
    using l by (simp_all add: lin_def)
  have "mc_used ?s = u + sum_list (map (delta \<circ> snd) order)"
    using seq_total [of order "(u, \<lambda>_. [])"] f by simp
  also have "\<dots> = u + (\<Sum>i < length progs. sum_list (map delta (progs ! i)))"
    by (simp add: order_total [OF r] ops)
  finally show ?thesis using ops f by blast
qed

lemma stat_run_linearizable_witness:
  "\<exists>order. (\<forall>i < length [[Stat_Alloc 13, Used_Memory], [Stat_Free 8]]. ops_of i order = [[Stat_Alloc 13, Used_Memory], [Stat_Free 8]] ! i) \<and>
      fold seq_op order (100, \<lambda>_. []) =
        (mc_used (stat_run Use_Mutex [0, 0, 1, 0, 0, 1, 0, 1, 1, 1, 0, 0, 0] (stat_start True 100 [[Stat_Alloc 13, Used_Memory], [Stat_Free 8]])),
         seen_by (stat_run Use_Mutex [0, 0, 1, 0, 0, 1, 0, 1, 1, 1, 0, 0, 0] (stat_start True 100 [[Stat_Alloc 13, Used_Memory], [Stat_Free 8]]))) \<and>
      mc_used (stat_run Use_Mutex [0, 0, 1, 0, 0, 1, 0, 1, 1, 1, 0, 0, 0] (stat_start True 100 [[Stat_Alloc 13, Used_Memory], [Stat_Free 8]])) =
        100 + (\<Sum>i < length [[Stat_Alloc 13, Used_Memory], [Stat_Free 8]]. sum_list (map delta ([[Stat_Alloc 13, Used_Memory], [Stat_Free 8]] ! i)))"
  by (rule stat_run_linearizable) code_simp

section \<open>Every call returns\<close>

definition pc_rank :: "stat_pc \<Rightarrow> nat" where
  "pc_rank p = (case p of At_Op \<Rightarrow> 0 | Locked \<Rightarrow> 1 | Loaded _ \<Rightarrow> 2 | Stored \<Rightarrow> 3)"

definition steps_left :: "stat_thread \<Rightarrow> nat" where
  "steps_left t = 4 * length (mt_todo t) - pc_rank (mt_pc t)"

definition run_left :: "stat_state \<Rightarrow> nat" where
  "run_left s = sum_list (map steps_left (mc_threads s))"

lemma run_left_update:
  assumes "i < length (mc_threads s)" "mc_threads s' = (mc_threads s)[i := t']" "steps_left t' < steps_left (mc_threads s ! i)"
  shows "run_left s' < run_left s"
proof -
  have "run_left s' + steps_left (mc_threads s ! i) = run_left s + steps_left t'"
    using assms(1, 2) member_le_sum_list [of "steps_left (mc_threads s ! i)" "map steps_left (mc_threads s)"]
    by (simp add: run_left_def map_update sum_list_update)
  then show ?thesis using assms(3) by simp
qed

lemma steps_left_less:
  assumes "mt_todo t \<noteq> []"
  shows "steps_left (op_return v t) < steps_left t"
    "pc_rank (mt_pc t) < pc_rank p \<Longrightarrow> steps_left (t\<lparr>mt_pc := p\<rparr>) < steps_left t"
  using assms by (cases "mt_todo t"; auto simp: steps_left_def pc_rank_def split: stat_pc.splits)+

lemma run_left_step:
  assumes "stat_step b i s = Some s'" "mc_safe s"
  shows "run_left s' < run_left s"
proof -
  note i = stat_step_someD [OF assms(1)]
  let ?t = "mc_threads s ! i"
  have "\<exists>t'. mc_threads s' = (mc_threads s)[i := t'] \<and> steps_left t' < steps_left ?t"
  proof (cases b)
    case Have_Atomic
    then show ?thesis using assms i
      by (intro exI [of _ "op_return (mc_used s) ?t"]) (auto simp: stat_step_def atomic_step_def steps_left_less)
  next
    case Use_Mutex
    then have "mutex_step i ?t s = Some s'" using assms i by (simp add: stat_step_def)
    then show ?thesis using steps_left_less [OF i(2)]
      by (auto simp: mutex_step_def pc_rank_def split: stat_pc.splits if_splits option.splits)
  qed
  then show ?thesis using run_left_update i(1) by blast
qed

lemma someone_steps:
  assumes "lin_state b progs u s" "\<not> all_returned s"
  shows "\<exists>i < length progs. stat_step b i s \<noteq> None"
proof -
  obtain order where l: "lin progs u order s" using assms by (auto simp: lin_state_def)
  then have sz: "mc_safe s" "length (mc_threads s) = length progs" by (simp_all add: lin_def)
  show ?thesis
  proof (cases "mc_owner s")
    case None
    obtain i where "i < length progs" "mt_todo (mc_threads s ! i) \<noteq> []"
      using assms(2) sz by (auto simp: all_returned_def in_set_conv_nth)
    then show ?thesis using sz None lin_others_out [OF l, of i]
      by (intro exI [of _ i]) (auto simp: stat_step_def mutex_step_def split: stat_build.split)
  next
    case (Some j)
    then have j: "j < length progs" using l by (simp add: lin_def)
    then have "thread_ok s j" using l by (simp add: lin_def)
    then show ?thesis using sz Some j assms(1)
      by (intro exI [of _ j])
        (auto simp: lin_state_def thread_ok_def stat_step_def mutex_step_def split: stat_build.split stat_pc.splits)
  qed
qed

lemma stat_run_append: "stat_run b (xs @ ys) s = stat_run b ys (stat_run b xs s)"
  by (induction xs arbitrary: s) simp_all

lemma lin_state_safe: "lin_state b progs u s \<Longrightarrow> mc_safe s"
  by (auto simp: lin_state_def lin_def)

lemma run_left_le:
  "lin_state b progs u s \<Longrightarrow> run_left (stat_run b sched s) \<le> run_left s"
proof (induction sched arbitrary: s)
  case (Cons i sched)
  show ?case
  proof (cases "stat_step b i s")
    case (Some s')
    then show ?thesis using Cons.IH [of s'] Cons.prems lin_state_step run_left_step lin_state_safe by fastforce
  qed (use Cons in simp)
qed simp

text \<open>A round in which a thread that can step has its turn makes progress.\<close>

lemma round_progress:
  assumes "lin_state b progs u s" "i \<in> set sched" "stat_step b i s \<noteq> None"
  shows "run_left (stat_run b sched s) < run_left s"
  using assms
proof (induction sched)
  case (Cons j sched)
  show ?case
  proof (cases "stat_step b j s")
    case (Some s')
    then have "run_left s' < run_left s" using Cons.prems(1) run_left_step lin_state_safe by blast
    moreover have "run_left (stat_run b sched s') \<le> run_left s'"
      by (rule run_left_le [OF lin_state_step [OF Cons.prems(1) Some]])
    ultimately show ?thesis using Some by simp
  qed (use Cons in auto)
qed simp

lemma returned_stays:
  assumes "all_returned s"
  shows "stat_run b sched s = s"
proof -
  have "stat_step b i s = None" for i using assms stat_step_someD [of b i s] by (cases "stat_step b i s") (auto simp: all_returned_def)
  then show ?thesis by (induction sched) simp_all
qed

lemma rounds_return:
  assumes "lin_state b progs u s" "\<forall>r \<in> set rounds. {..<length progs} \<subseteq> set r" "run_left s \<le> length rounds"
  shows "all_returned (stat_run b (concat rounds) s)"
  using assms
proof (induction rounds arbitrary: s)
  case Nil
  then show ?case using someone_steps [OF Nil(1)] run_left_step [OF _ lin_state_safe [OF Nil(1)]] by fastforce
next
  case (Cons r rounds)
  show ?case
  proof (cases "all_returned s")
    case False
    then obtain i where "i < length progs" "stat_step b i s \<noteq> None" using someone_steps [OF Cons.prems(1)] by blast
    then have "run_left (stat_run b r s) < run_left s" using Cons.prems by (intro round_progress) auto
    then show ?thesis using Cons.prems lin_state_run by (simp add: stat_run_append Cons.IH)
  qed (simp add: returned_stays)
qed

lemma run_left_start: "run_left (stat_start True u progs) = 4 * sum_list (map length progs)"
  by (induction progs) (simp_all add: run_left_def stat_start_def steps_left_def pc_rank_def)

text \<open>
  C39: The lock of the counter neither deadlocks nor starves: under a schedule of rounds that gives every thread at least one turn
  each, in any order and with any repetitions, all calls of all threads have returned after four rounds for every call, in
  both builds.
\<close>
theorem stat_run_returns:
  assumes "\<forall>r \<in> set rounds. {..<length progs} \<subseteq> set r" "4 * sum_list (map length progs) \<le> length rounds"
  shows "all_returned (stat_run b (concat rounds) (stat_start True u progs))"
  using assms by (intro rounds_return [OF lin_state_start]) (simp_all add: run_left_start)

lemma stat_run_returns_witness:
  "all_returned (stat_run Use_Mutex (concat (replicate 12 [0, 1])) (stat_start True 0 [[Stat_Alloc 5, Stat_Free 5], [Used_Memory]]))"
  by (rule stat_run_returns) auto

text \<open>Without the flag an update can be lost; nothing in the repository sets it.\<close>

lemma stat_run_lost_update:
  "mc_used (stat_run b [0, 1, 0, 1] (stat_start False 0 [[Stat_Alloc 8], [Stat_Alloc 8]])) = 8 \<and>
   all_returned (stat_run b [0, 1, 0, 1] (stat_start False 0 [[Stat_Alloc 8], [Stat_Alloc 8]]))"
  by (cases b) code_simp+

end
