(* ===== verification/TF_Dump.thy ===== *)
theory TF_Dump
  imports TF_Log
begin

text \<open>
  The hexadecimal dump of \<open>tf_log.c\<close>.  It grows its two strings by printing a buffer into itself,
  \<open>sprintf(buf, "%s %02X", buf, B)\<close>, which C leaves undefined: what such a call leaves in the buffer is an
  argument, and \<open>prints_in_place\<close> is what the code relies on, that the rest is appended; C does not promise it,
  and where such a call fails every dump but the empty one fails (\<open>dump_undefined\<close>).  The sizes
  of both buffers are checked.  A specification gives the layout row by row.
\<close>

section \<open>The code\<close>

definition hex_upper :: "nat \<Rightarrow> byte" where
  "hex_upper n = of_nat (if n < 10 then 48 + n else 55 + n)"

text \<open>The directives \<open>%02X\<close> and the printable character or a dot.\<close>

definition hex2 :: "byte \<Rightarrow> byte list" where
  "hex2 B = [hex_upper (unat B div 16), hex_upper (unat B mod 16)]"

definition isprint :: "byte \<Rightarrow> bool" where
  "isprint c \<longleftrightarrow> 32 \<le> c \<and> c \<le> 126"

definition shown :: "byte \<Rightarrow> byte" where
  "shown B = (if isprint B then B else 46)"

type_synonym self_print = "byte list \<Rightarrow> byte list \<Rightarrow> c_error + byte list"

definition append_to :: "self_print \<Rightarrow> nat \<Rightarrow> byte list \<Rightarrow> byte list \<Rightarrow> c_error + byte list" where
  "append_to sp n buf s = rbind (sp buf s) (fits n)"

abbreviation (input) BUF_LEN :: nat where "BUF_LEN \<equiv> TF_MAX_ERROR_STR * 4"

definition dump_byte :: "self_print \<Rightarrow> nat \<Rightarrow> byte \<Rightarrow> byte list \<times> byte list \<Rightarrow> c_error + byte list \<times> byte list" where
  "dump_byte sp i B = (\<lambda>(buf, buf2).
     rbind (append_to sp BUF_LEN buf (32 # hex2 B)) (\<lambda>buf.
     rbind (append_to sp TF_MAX_ERROR_STR buf2 [shown B]) (\<lambda>buf2.
     rbind (if (i + 1) mod 8 = 0
            then rbind (append_to sp BUF_LEN buf [32]) (\<lambda>buf.
                 rbind (append_to sp TF_MAX_ERROR_STR buf2 [32]) (\<lambda>buf2. Inr (buf, buf2)))
            else Inr (buf, buf2)) (\<lambda>(buf, buf2).
     if (i + 1) mod 16 = 0
     then rbind (append_to sp BUF_LEN buf (32 # buf2 @ [10])) (\<lambda>buf. Inr (buf, []))
     else Inr (buf, buf2)))))"

fun dump_loop :: "self_print \<Rightarrow> byte list \<Rightarrow> nat list \<Rightarrow> byte list \<times> byte list \<Rightarrow> c_error + byte list \<times> byte list" where
  "dump_loop sp data [] st = Inr st"
| "dump_loop sp data (i # is) st = rbind (rd data i) (\<lambda>B. rbind (dump_byte sp i B st) (dump_loop sp data is))"

text \<open>The first byte is printed into the empty buffers.\<close>

definition dump_first :: "byte list \<Rightarrow> nat \<Rightarrow> c_error + byte list \<times> byte list" where
  "dump_first data len =
     (if len > 0 then rbind (rd data 0) (\<lambda>B. Inr (32 # hex2 B, [shown B])) else Inr ([], []))"

function dump_pad :: "self_print \<Rightarrow> nat \<Rightarrow> byte list \<Rightarrow> c_error + byte list" where
  "dump_pad sp i buf =
     (if i mod 16 \<noteq> 0
      then rbind (append_to sp BUF_LEN buf [32, 32, 32]) (\<lambda>buf.
           rbind (if i mod 8 = 0 then append_to sp BUF_LEN buf [32] else Inr buf) (dump_pad sp (i + 1)))
      else Inr buf)"
  by pat_completeness auto
termination
proof (relation "measure (\<lambda>(sp, i, buf). (16 - i mod 16) mod 16)")
  show "((sp, i + 1, buf'), sp, i, buf) \<in> measure (\<lambda>(sp, i, buf). (16 - i mod 16) mod 16)" if "i mod 16 \<noteq> 0"
    for sp :: self_print and i buf buf'
  proof -
    have "i mod 16 < 16" by simp
    moreover have "Suc i mod 16 = (if i mod 16 = 15 then 0 else Suc (i mod 16))" by (simp add: mod_Suc)
    ultimately show ?thesis using that by (auto split: if_splits)
  qed
qed simp

declare dump_pad.simps [simp del]

definition dump_rest :: "self_print \<Rightarrow> byte list \<times> byte list \<Rightarrow> c_error + byte list" where
  "dump_rest sp = (\<lambda>(buf, buf2).
     let i = length buf2
     in if i > 0
        then rbind (append_to sp BUF_LEN buf [32]) (\<lambda>buf.
             rbind (dump_pad sp (if i > 8 then i - 1 else i) buf) (\<lambda>buf. append_to sp BUF_LEN buf (32 # buf2)))
        else Inr buf)"

definition dump :: "'w log_sys \<Rightarrow> self_print \<Rightarrow> byte list \<Rightarrow> int \<Rightarrow> tf_log \<times> 'w \<Rightarrow> c_error + 'w" where
  "dump L sp data len = (\<lambda>(lg, w).
     rbind (dump_first data (nat len)) (\<lambda>st.
     rbind (dump_loop sp data [1..<nat len] st) (\<lambda>st.
     rbind (dump_rest sp st) (\<lambda>buf.
     let w = (if lg_opened lg then (case lg_file lg of None \<Rightarrow> w | Some f \<Rightarrow> lo_print L f (buf @ [10]) w) else w)
     in Inr (log_stderr L buf w)))))"

definition prints_in_place :: "self_print \<Rightarrow> bool" where
  "prints_in_place sp \<longleftrightarrow> (\<forall>buf s. sp buf s = Inr (buf @ s))"

section \<open>The layout\<close>

text \<open>Sixteen columns in two halves, for the bytes and for the characters.\<close>

definition halves :: "'a list \<Rightarrow> ('a \<Rightarrow> byte list) \<Rightarrow> byte list" where
  "halves row f = concat (map f (take 8 row)) @ (if length row \<ge> 8 then [32] else []) @
     concat (map f (drop 8 row)) @ (if length row \<ge> 16 then [32] else [])"

definition hex_part :: "byte list \<Rightarrow> byte list" where
  "hex_part row = halves row (\<lambda>B. 32 # hex2 B)"

definition text_part :: "byte list \<Rightarrow> byte list" where
  "text_part row = halves row (\<lambda>B. [shown B])"

definition full_row :: "byte list \<Rightarrow> byte list" where
  "full_row row = hex_part row @ 32 # text_part row @ [10]"

text \<open>The spaces of a row that is not full; there is one too many behind exactly eight bytes.\<close>

definition last_row :: "byte list \<Rightarrow> byte list" where
  "last_row row = (if row = [] then [] else
     hex_part row @ replicate (1 + 3 * (16 - length row) + (if length row \<le> 8 then 1 else 0)) 32 @ 32 # text_part row)"

function full_rows :: "byte list \<Rightarrow> byte list" where
  "full_rows bs = (if length bs < 16 then [] else full_row (take 16 bs) @ full_rows (drop 16 bs))"
  by pat_completeness auto
termination by (relation "measure length") auto

declare full_rows.simps [simp del]

definition rest_row :: "byte list \<Rightarrow> byte list" where
  "rest_row bs = drop (16 * (length bs div 16)) bs"

definition dump_text :: "byte list \<Rightarrow> byte list" where
  "dump_text bs = full_rows bs @ last_row (rest_row bs)"

section \<open>Appending within a buffer\<close>

lemma rbind_assoc: "rbind (rbind m f) g = rbind m (\<lambda>x. rbind (f x) g)"
  by (cases m) simp_all

lemma append_to_fits: "prints_in_place sp \<Longrightarrow> append_to sp n buf s = fits n (buf @ s)"
  by (simp add: prints_in_place_def append_to_def)

lemma fits_then_fits: "rbind (fits n a) (\<lambda>a. fits n (a @ b)) = fits n (a @ b)"
  by (simp add: fits_def)

lemma halves_snoc:
  "length row < 16 \<Longrightarrow> halves (row @ [B]) f = halves row f @ f B @ (if (length row + 1) mod 8 = 0 then [32] else [])"
proof -
  assume "length row < 16"
  then consider "length row < 7" | "length row = 7" | "8 \<le> length row" "length row < 15" | "length row = 15" by linarith
  then show ?thesis
  proof cases
    case 3
    then have "Suc (length row) mod 8 \<noteq> 0" by presburger
    then show ?thesis using 3 by (simp add: halves_def)
  qed (simp_all add: halves_def)
qed

lemma length_rest: "length (rest_row bs) = length bs mod 16"
  by (simp add: rest_row_def minus_mult_div_eq_mod)

lemma full_rows_append: "length xs mod 16 = 0 \<Longrightarrow> full_rows (xs @ ys) = full_rows xs @ full_rows ys"
proof (induction xs rule: full_rows.induct)
  case (1 xs)
  show ?case
  proof (cases "length xs < 16")
    case True
    then have "xs = []" using 1(2) by simp
    then show ?thesis by (simp add: full_rows.simps)
  next
    case False
    then have "length (drop 16 xs) mod 16 = 0" using 1(2) by (simp add: le_mod_geq)
    then show ?thesis using 1(1) False
      by (subst (1 2) full_rows.simps) simp
  qed
qed

lemma rows_split:
  fixes bs :: "byte list"
  obtains xs row where "bs = xs @ row" "length xs mod 16 = 0" "length row < 16"
proof (rule that)
  show "bs = take (16 * (length bs div 16)) bs @ rest_row bs" by (simp add: rest_row_def)
  have "16 * (length bs div 16) \<le> length bs" by simp
  then show "length (take (16 * (length bs div 16)) bs) mod 16 = 0" by simp
qed (simp add: length_rest)

lemma rest_row_append: "length xs mod 16 = 0 \<Longrightarrow> length row < 16 \<Longrightarrow> rest_row (xs @ row) = row"
  by (auto simp: rest_row_def)

lemma rows_snoc:
  "full_rows (bs @ [B]) = (if length (rest_row bs) = 15 then full_rows bs @ full_row (rest_row bs @ [B]) else full_rows bs)"
  "rest_row (bs @ [B]) = (if length (rest_row bs) = 15 then [] else rest_row bs @ [B])"
proof -
  obtain xs row where bs: "bs = xs @ row" "length xs mod 16 = 0" "length row < 16"
    by (rule rows_split)
  have row: "rest_row bs = row" using bs by (simp add: rest_row_append)
  have f: "full_rows r = (if length r = 16 then full_row r else [])" if "length r \<le> 16" for r
    using that by (simp add: full_rows.simps)
  show "full_rows (bs @ [B]) = (if length (rest_row bs) = 15 then full_rows bs @ full_row (rest_row bs @ [B]) else full_rows bs)"
    unfolding row unfolding bs(1) append_assoc full_rows_append [OF bs(2)] using bs(3) f by simp
  show "rest_row (bs @ [B]) = (if length (rest_row bs) = 15 then [] else rest_row bs @ [B])"
  proof (cases "length row = 15")
    case True
    then have "length (rest_row (bs @ [B])) = 0" unfolding length_rest using bs(2) by (simp add: bs(1) mod_add_eq [symmetric])
    then show ?thesis using True row by simp
  next
    case False
    then show ?thesis unfolding row unfolding bs(1) append_assoc using rest_row_append [OF bs(2), of "row @ [B]"] bs(3) by simp
  qed
qed

section \<open>The loop\<close>

definition dump_at :: "byte list \<Rightarrow> byte list \<times> byte list" where
  "dump_at bs = (full_rows bs @ hex_part (rest_row bs), text_part (rest_row bs))"

lemma length_text_part: "length (text_part row) = length row + (if length row \<ge> 8 then 1 else 0) + (if length row \<ge> 16 then 1 else 0)"
  by (simp add: text_part_def halves_def length_concat comp_def)

lemma length_hex_part: "length (hex_part row) = 3 * length row + (if length row \<ge> 8 then 1 else 0) + (if length row \<ge> 16 then 1 else 0)"
  by (simp add: hex_part_def halves_def length_concat comp_def hex2_def sum_list_triv)

lemma dump_byte_plain:
  assumes "prints_in_place sp" "length buf2 + 2 < TF_MAX_ERROR_STR" "(i + 1) mod 8 \<noteq> 0" "(i + 1) mod 16 \<noteq> 0"
  shows "dump_byte sp i B (buf, buf2) = rbind (fits BUF_LEN (buf @ 32 # hex2 B)) (\<lambda>b. Inr (b, buf2 @ [shown B]))"
  using assms by (simp add: dump_byte_def append_to_fits [OF assms(1)] fits_def)

lemma dump_byte_half:
  assumes "prints_in_place sp" "length buf2 + 2 < TF_MAX_ERROR_STR" "(i + 1) mod 8 = 0" "(i + 1) mod 16 \<noteq> 0"
  shows "dump_byte sp i B (buf, buf2) =
    rbind (fits BUF_LEN (buf @ 32 # hex2 B @ [32])) (\<lambda>b. Inr (b, buf2 @ [shown B, 32]))"
proof -
  have "fits TF_MAX_ERROR_STR (buf2 @ [shown B]) = Inr (buf2 @ [shown B])"
    "fits TF_MAX_ERROR_STR (buf2 @ [shown B, 32]) = Inr (buf2 @ [shown B, 32])"
    using assms(2) by (simp_all add: fits_def)
  then show ?thesis using assms(3, 4) by (simp add: dump_byte_def append_to_fits [OF assms(1)] fits_def [of BUF_LEN])
qed

lemma dump_byte_row:
  assumes "prints_in_place sp" "length buf2 + 2 < TF_MAX_ERROR_STR" "(i + 1) mod 16 = 0"
  shows "dump_byte sp i B (buf, buf2) =
    rbind (fits BUF_LEN (buf @ 32 # hex2 B @ 32 # 32 # buf2 @ [shown B, 32, 10])) (\<lambda>b. Inr (b, []))"
proof -
  have "fits TF_MAX_ERROR_STR (buf2 @ [shown B]) = Inr (buf2 @ [shown B])"
    "fits TF_MAX_ERROR_STR (buf2 @ [shown B, 32]) = Inr (buf2 @ [shown B, 32])"
    using assms(2) by (simp_all add: fits_def)
  moreover have "(i + 1) mod 8 = 0" using assms(3) by presburger
  ultimately show ?thesis using assms(3) by (simp add: dump_byte_def append_to_fits [OF assms(1)] fits_def [of BUF_LEN])
qed

lemma dump_byte_step:
  assumes sp: "prints_in_place sp"
  shows "dump_byte sp (length bs) B (dump_at bs) =
    rbind (fits BUF_LEN (fst (dump_at (bs @ [B])))) (\<lambda>b. Inr (b, snd (dump_at (bs @ [B]))))"
proof -
  let ?r = "rest_row bs"
  have r: "length ?r < 16" "length ?r = length bs mod 16" by (simp_all add: length_rest)
  have m: "(length bs + 1) mod 16 = 0 \<longleftrightarrow> length ?r = 15" "(length bs + 1) mod 8 = 0 \<longleftrightarrow> Suc (length ?r) mod 8 = 0"
    unfolding r(2) by presburger+
  have t: "length (text_part ?r) + 2 < TF_MAX_ERROR_STR" using r by (simp add: length_text_part TF_MAX_ERROR_STR_def)
  have h: "hex_part (?r @ [B]) = hex_part ?r @ (32 # hex2 B) @ (if Suc (length ?r) mod 8 = 0 then [32] else [])"
    "text_part (?r @ [B]) = text_part ?r @ [shown B] @ (if Suc (length ?r) mod 8 = 0 then [32] else [])"
    using r(1) by (simp_all add: hex_part_def text_part_def halves_snoc)
  have e: "hex_part [] = []" "text_part [] = []" by (simp_all add: hex_part_def text_part_def halves_def)
  consider "Suc (length ?r) mod 8 \<noteq> 0" "length ?r \<noteq> 15" | "Suc (length ?r) mod 8 = 0" "length ?r \<noteq> 15" | "length ?r = 15" by blast
  then show ?thesis
  proof cases
    case 1
    then have i: "(length bs + 1) mod 8 \<noteq> 0" "(length bs + 1) mod 16 \<noteq> 0" by (simp_all only: m not_False_eq_True)
    then show ?thesis using 1 unfolding dump_at_def [of bs] dump_byte_plain [OF sp t i] by (simp add: dump_at_def rows_snoc h)
  next
    case 2
    then have i: "(length bs + 1) mod 8 = 0" "(length bs + 1) mod 16 \<noteq> 0" by (simp_all only: m not_False_eq_True)
    then show ?thesis using 2 unfolding dump_at_def [of bs] dump_byte_half [OF sp t i] by (simp add: dump_at_def rows_snoc h)
  next
    case 3
    then have i: "(length bs + 1) mod 16 = 0" using m by blast
    then show ?thesis using 3 unfolding dump_at_def [of bs] dump_byte_row [OF sp t i]
      by (simp add: dump_at_def rows_snoc h e full_row_def)
  qed
qed

lemma dump_at_mono: "length (fst (dump_at bs)) \<le> length (fst (dump_at (bs @ [B])))"
proof (cases "length (rest_row bs) = 15")
  case True
  then show ?thesis by (simp add: dump_at_def rows_snoc full_row_def length_hex_part)
next
  case False
  then show ?thesis by (simp add: dump_at_def rows_snoc length_hex_part)
qed

lemma dump_loop_append: "dump_loop sp data (is @ js) st = rbind (dump_loop sp data is st) (dump_loop sp data js)"
  by (induction "is" arbitrary: st) (simp_all add: rbind_def split: sum.split)

lemma dump_loop_at:
  assumes sp: "prints_in_place sp" and "k \<le> n" "n \<le> length data" "length (fst (dump_at (take k data))) < BUF_LEN"
  shows "dump_loop sp data [k..<n] (dump_at (take k data)) =
    (if length (fst (dump_at (take n data))) < BUF_LEN then Inr (dump_at (take n data)) else Inl Out_Of_Bounds)"
  using assms(2, 3)
proof (induction n rule: dec_induct)
  case base
  then show ?case using assms(4) by simp
next
  case (step n)
  have t: "take (Suc n) data = take n data @ [data ! n]" using step.prems by (simp add: take_Suc_conv_app_nth)
  have l: "length (take n data) = n" using step.prems by simp
  have "dump_byte sp n (data ! n) (dump_at (take n data)) =
      rbind (fits BUF_LEN (fst (dump_at (take (Suc n) data)))) (\<lambda>b. Inr (b, snd (dump_at (take (Suc n) data))))"
    using dump_byte_step [OF sp, of "take n data" "data ! n"] by (simp only: l t)
  moreover have "length (fst (dump_at (take n data))) \<le> length (fst (dump_at (take (Suc n) data)))"
    by (simp only: t dump_at_mono)
  ultimately show ?case using step by (simp add: dump_loop_append fits_def)
qed

section \<open>The last row\<close>

lemma dump_pad_spaces:
  assumes sp: "prints_in_place sp" and "0 < i" "i \<le> 16" "length buf < BUF_LEN"
  shows "dump_pad sp i buf = fits BUF_LEN (buf @ replicate (3 * (16 - i) + (if i \<le> 8 then 1 else 0)) 32)"
  using assms(2-4)
proof (induction "16 - i" arbitrary: i buf)
  case 0
  then have "i = 16" by simp
  then show ?case using 0 by (subst dump_pad.simps) (simp add: fits_def)
next
  case (Suc k)
  then have i: "i mod 16 \<noteq> 0" "i < 16" by simp_all
  have m: "i mod 8 = 0 \<longleftrightarrow> i = 8" using Suc.prems i by presburger
  have k: "k = 16 - (i + 1)" using Suc.hyps(2) by simp
  have IH: "dump_pad sp (i + 1) b = fits BUF_LEN (b @ replicate (3 * (16 - (i + 1)) + (if i + 1 \<le> 8 then 1 else 0)) 32)"
    if "length b < BUF_LEN" for b using Suc.hyps(1) [OF k] Suc.prems i that by simp
  define n where "n = (if i = 8 then 4 else 3 :: nat)"
  have "3 * (16 - i) = 3 + 3 * (15 - i)" using i(2) by simp
  then have r: "replicate (3 * (16 - i) + (if i \<le> 8 then 1 else 0)) (32 :: byte) =
      replicate n 32 @ replicate (3 * (16 - (i + 1)) + (if i + 1 \<le> 8 then 1 else 0)) 32"
    using i by (simp add: n_def flip: replicate_add)
  have "dump_pad sp i buf = rbind (fits BUF_LEN (buf @ replicate n 32)) (dump_pad sp (i + 1))"
  proof (cases "i = 8")
    case True
    have "replicate n (32 :: byte) = [32, 32, 32] @ [32]" using True by (simp add: n_def numeral_eq_Suc)
    then show ?thesis using True
      by (subst dump_pad.simps) (simp add: append_to_fits [OF sp] fits_def)
  next
    case False
    have "replicate n (32 :: byte) = [32, 32, 32]" using False by (simp add: n_def numeral_eq_Suc)
    then show ?thesis using False i(1) m by (subst dump_pad.simps) (simp add: append_to_fits [OF sp])
  qed
  also have "\<dots> = fits BUF_LEN (buf @ replicate (3 * (16 - i) + (if i \<le> 8 then 1 else 0)) 32)"
  proof (cases "length (buf @ replicate n 32) < BUF_LEN")
    case True
    then have f: "fits BUF_LEN (buf @ replicate n 32) = Inr (buf @ replicate n 32)" unfolding fits_def by (rule if_P)
    show ?thesis unfolding f rbind_Inr IH [OF True] r append_assoc ..
  qed (simp add: r fits_def)
  finally show ?case .
qed

lemma dump_rest_row:
  assumes sp: "prints_in_place sp" and len: "length (fst (dump_at bs)) < BUF_LEN"
  shows "dump_rest sp (dump_at bs) = fits BUF_LEN (dump_text bs)"
proof (cases "rest_row bs = []")
  case True
  then show ?thesis using len
    by (simp add: dump_rest_def dump_at_def dump_text_def last_row_def hex_part_def text_part_def halves_def fits_def)
next
  case False
  let ?r = "rest_row bs" and ?buf = "full_rows bs @ hex_part (rest_row bs)"
  let ?n = "3 * (16 - length ?r) + (if length ?r \<le> 8 then 1 else 0)"
  have r: "0 < length ?r" using False by simp
  have r16: "length ?r < 16" by (simp add: length_rest)
  have i: "(if length (text_part ?r) > 8 then length (text_part ?r) - 1 else length (text_part ?r)) = length ?r"
    using r r16 by (simp add: length_text_part)
  have t: "0 < length (text_part ?r)" using r by (simp add: length_text_part)
  have "dump_rest sp (dump_at bs) =
      rbind (fits BUF_LEN (?buf @ [32])) (\<lambda>buf. rbind (dump_pad sp (length ?r) buf) (\<lambda>buf. append_to sp BUF_LEN buf (32 # text_part ?r)))"
    unfolding dump_rest_def dump_at_def Let_def prod.case i using t by (simp add: append_to_fits [OF sp])
  also have "\<dots> = fits BUF_LEN (?buf @ [32] @ replicate ?n 32 @ 32 # text_part ?r)"
  proof (cases "length (?buf @ [32]) < BUF_LEN")
    case True
    then have f: "fits BUF_LEN (?buf @ [32]) = Inr (?buf @ [32])" unfolding fits_def by (rule if_P)
    show ?thesis unfolding f rbind_Inr dump_pad_spaces [OF sp r less_imp_le [OF r16] True] append_to_fits [OF sp] fits_then_fits
      by simp
  qed (simp add: fits_def)
  also have "?buf @ [32] @ replicate ?n 32 @ 32 # text_part ?r = dump_text bs"
    using False by (simp add: dump_text_def last_row_def)
  finally show ?thesis .
qed

lemma dump_text_at: "length (fst (dump_at bs)) \<le> length (dump_text bs)"
  by (simp add: dump_at_def dump_text_def last_row_def hex_part_def text_part_def halves_def)

text \<open>The size of the text: seventy characters for a full row.\<close>

lemma length_full_rows: "length (full_rows bs) = 70 * (length bs div 16)"
proof (induction bs rule: full_rows.induct)
  case (1 bs)
  show ?case
  proof (cases "length bs < 16")
    case False
    then have "length (full_row (take 16 bs)) = 70" by (simp add: full_row_def length_hex_part length_text_part)
    then show ?thesis using 1 False by (subst full_rows.simps) (simp add: le_div_geq)
  qed (simp add: full_rows.simps)
qed

lemma length_dump_text:
  "length (dump_text bs) = 70 * (length bs div 16) +
     (let r = length bs mod 16 in if r = 0 then 0 else 51 + r + (if r = 8 then 2 else if r > 8 then 1 else 0))"
proof -
  have "length (last_row (rest_row bs)) = (let r = length (rest_row bs) in
      if r = 0 then 0 else 51 + r + (if r = 8 then 2 else if r > 8 then 1 else 0))" if "length (rest_row bs) < 16"
  proof -
    have "3 * length (rest_row bs) + 3 * (16 - length (rest_row bs)) = 48" using that by simp
    then show ?thesis using that by (simp add: last_row_def length_hex_part length_text_part Let_def)
  qed
  then show ?thesis by (simp add: dump_text_def length_full_rows length_rest)
qed

lemma dump_text_fits: "length (dump_text bs) < BUF_LEN \<longleftrightarrow> length bs \<le> 1872"
proof -
  define q r where "q = length bs div 16" and "r = length bs mod 16"
  then have n: "length bs = 16 * q + r" "r < 16" by simp_all
  define e where "e = (if r = 0 then 0 else 51 + r + (if r = 8 then 2 else if r > 8 then 1 else 0))"
  have e: "e \<le> 67" "r = 0 \<longrightarrow> e = 0" "0 < r \<longrightarrow> 51 < e" using n(2) by (auto simp: e_def)
  have l: "length (dump_text bs) = 70 * q + e" by (simp add: length_dump_text Let_def q_def r_def e_def)
  consider "q \<le> 116" | "q = 117" | "118 \<le> q" by linarith
  then show ?thesis unfolding TF_MAX_ERROR_STR_def l unfolding n(1) using e n(2) by cases (cases "r = 0"; simp)+
qed

text \<open>
  Where \<open>sprintf\<close> of a buffer into itself appends, which C does not promise, the dump of up to 1872 bytes is exactly
  the layout of the specification, row by row, in the file if the log is open and on the standard error; a longer one
  overruns the buffer.
\<close>

lemma dump_layout:
  assumes "prints_in_place sp" "nat len \<le> length data"
  shows "dump L sp data len (lg, w) =
    (let line = dump_text (take (nat len) data)
     in if nat len \<le> 1872
        then Inr (log_stderr L line
          (case lg_file lg of Some f \<Rightarrow> if lg_opened lg then lo_print L f (line @ [10]) w else w | None \<Rightarrow> w))
        else Inl Out_Of_Bounds)"
proof -
  let ?bs = "take (nat len) data"
  have "rbind (rbind (dump_first data (nat len)) (dump_loop sp data [1..<nat len])) (dump_rest sp) = fits BUF_LEN (dump_text ?bs)"
  proof (cases "nat len = 0")
    case True
    have "dump_at [] = ([], [])" by (simp add: dump_at_def rest_row_def full_rows.simps hex_part_def text_part_def halves_def)
    then show ?thesis using True dump_rest_row [OF assms(1), of "[]"] by (simp add: dump_first_def TF_MAX_ERROR_STR_def)
  next
    case False
    have "take 1 data = [data ! 0]" using False assms(2) by (cases data) auto
    then have at1: "dump_at (take 1 data) = (32 # hex2 (data ! 0), [shown (data ! 0)])"
      by (simp add: dump_at_def rest_row_def full_rows.simps hex_part_def text_part_def halves_def)
    moreover have "0 < nat len" "0 < length data" using False assms(2) by linarith+
    ultimately have f: "dump_first data (nat len) = Inr (dump_at (take 1 data))" by (simp add: dump_first_def)
    have l: "length (fst (dump_at (take 1 data))) < BUF_LEN" unfolding at1 by (simp add: hex2_def TF_MAX_ERROR_STR_def)
    show ?thesis
    proof (cases "length (fst (dump_at ?bs)) < BUF_LEN")
      case True
      then show ?thesis using False dump_loop_at [OF assms(1) _ assms(2) l] dump_rest_row [OF assms(1) True] by (simp add: f)
    next
      case over: False
      then have "\<not> length (dump_text ?bs) < BUF_LEN" using dump_text_at [of ?bs] by linarith
      then show ?thesis using False over dump_loop_at [OF assms(1) _ assms(2) l] by (simp add: f fits_def)
    qed
  qed
  then have r: "rbind (dump_first data (nat len)) (\<lambda>st. rbind (dump_loop sp data [1..<nat len] st) (\<lambda>st. rbind (dump_rest sp st) g)) =
      rbind (fits BUF_LEN (dump_text ?bs)) g" for g :: "byte list \<Rightarrow> c_error + 'a"
    unfolding rbind_assoc [symmetric] by (simp only:)
  have "length ?bs = nat len" using assms(2) by simp
  then show ?thesis using dump_text_fits [of ?bs]
    unfolding dump_def prod.case r by (simp add: fits_def Let_def split: option.split)
qed

lemma dump_layout_example:
  "\<exists>line. dump demo_log (\<lambda>b s. Inr (b @ s)) (ascii ''0123456789abcdef!'') 17 (\<lparr>lg_level = 1, lg_opened = True, lg_file = Some 3\<rparr>, [], []) =
     Inr (line @ [10], line @ [10]) \<and> length line = 122"
proof -
  have l: "length (ascii ''0123456789abcdef!'') = 17" by (simp add: ascii_def)
  have "prints_in_place (\<lambda>b s. Inr (b @ s))" by (simp add: prints_in_place_def)
  from dump_layout [OF this, of 17 "ascii ''0123456789abcdef!''" demo_log "\<lparr>lg_level = 1, lg_opened = True, lg_file = Some 3\<rparr>" "([], [])"]
  show ?thesis using l length_dump_text [of "ascii ''0123456789abcdef!''"]
    by (intro exI [of _ "dump_text (ascii ''0123456789abcdef!'')"]) (simp add: Let_def log_stderr_def demo_log_def)
qed

text \<open>
  The characters of every row start in the column 51, except those of a last row of exactly eight bytes, which
  start one column further to the right.
\<close>

lemma last_row_column:
  assumes "row \<noteq> []" "length row < 16"
  shows "\<exists>pre. last_row row = pre @ text_part row \<and> length pre = (if length row = 8 then 52 else 51)"
  using assms
  by (intro exI [of _ "hex_part row @ replicate (1 + 3 * (16 - length row) + (if length row \<le> 8 then 1 else 0)) 32 @ [32]"])
    (auto simp: last_row_def length_hex_part)

lemma full_row_column: "length row = 16 \<Longrightarrow> \<exists>pre. full_row row = pre @ text_part row @ [10] \<and> length pre = 51"
  by (intro exI [of _ "hex_part row @ [32]"]) (simp add: full_row_def length_hex_part)

text \<open>
  Where every such call fails, as C allows, nothing but the empty buffer can be dumped: the first byte is already
  printed into an empty string, everything after it into itself.
\<close>

lemma dump_undefined:
  assumes "\<And>buf s. sp buf s = Inl e" "nat len \<le> length data"
  shows "dump L sp data len (lg, w) =
    (if 0 < len then Inl e
     else Inr (log_stderr L [] (case lg_file lg of Some f \<Rightarrow> if lg_opened lg then lo_print L f [10] w else w | None \<Rightarrow> w)))"
proof -
  have a: "append_to sp n buf s = Inl e" for n buf s by (simp add: append_to_def assms(1))
  consider "nat len = 0" | "nat len = 1" | "2 \<le> nat len" by linarith
  then show ?thesis
  proof cases
    case 1
    then show ?thesis by (simp add: dump_def dump_first_def dump_rest_def split: option.split)
  next
    case 2
    then have "0 < len" "0 < length data" using assms(2) by linarith+
    then show ?thesis using 2 by (simp add: dump_def dump_first_def dump_rest_def a)
  next
    case 3
    then have "0 < len" "0 < length data" "1 < length data" using assms(2) by linarith+
    moreover have "[Suc 0..<nat len] = 1 # [2..<nat len]" using 3 by (simp add: upt_rec numeral_2_eq_2)
    ultimately show ?thesis by (simp add: dump_def dump_first_def dump_byte_def a)
  qed
qed

end
