(* ===== verification/TF_Nac_Exit.thy ===== *)
theory TF_Nac_Exit
  imports TF_Nac_Start TF_Nac_Props
begin

text \<open>
  The end of the relay: the receiving thread \<open>wait_response_thread\<close> of \<open>tfnac/main.c\<close> access by access, interleaved
  with the handlers, the signals, and the last steps of \<open>main\<close>, which frees the process block without waiting for the thread.
  The queue the thread receives from belongs to the system; \<open>rcv\<close> is \<open>msgrcv\<close>, with \<^term>\<open>None\<close> while it blocks.
\<close>

section \<open>The code\<close>

text \<open>The first thing \<open>main\<close> does; every signal goes to \<open>signal_handler\<close>.\<close>

datatype disposition = Default_Action | Signal_Handler

definition setup_signal_handlers :: "(signum \<Rightarrow> disposition) \<Rightarrow> signum \<Rightarrow> disposition" where
  "setup_signal_handlers act = act(SIGINT := Signal_Handler, SIGTERM := Signal_Handler, SIGQUIT := Signal_Handler,
     SIGHUP := Signal_Handler, SIGPIPE := Signal_Handler, SIGUSR1 := Signal_Handler, SIGUSR2 := Signal_Handler)"

lemma all_signals_handled: "setup_signal_handlers act g = Signal_Handler"
  by (cases g) (simp_all add: setup_signal_handlers_def)

text \<open>Where the thread is; inside \<open>msgrcv\<close> it holds only the arguments of the call.\<close>

datatype thread_pc = At_Start | At_Check | At_Receive | Waiting int int | Received "byte list option" | At_End | Gone

datatype main_pc = In_Loop | Loop_Ended | Block_Freed | Process_Over

record ('k, 'w) exit_state =
  xs_pm :: "'k process_mgr option"
  xs_w :: 'w
  xs_log :: tf_log
  xs_thread :: thread_pc
  xs_main :: main_pc

type_synonym 'w msgrcv = "int \<Rightarrow> int \<Rightarrow> 'w \<Rightarrow> (byte list option \<times> 'w) option"

text \<open>An access to the process block, which may have been freed.\<close>

definition on_block :: "('k, 'w) exit_state \<Rightarrow> ('k process_mgr \<Rightarrow> c_error + 'b) \<Rightarrow> c_error + 'b" where
  "on_block s f = (case xs_pm s of None \<Rightarrow> Inl Use_After_Free | Some pm \<Rightarrow> f pm)"

definition is_response :: "byte list option \<Rightarrow> bool" where
  "is_response r = (case r of None \<Rightarrow> False | Some data \<Rightarrow> 24 \<le> length data)"

text \<open>A turn of the thread; \<^term>\<open>None\<close> when it cannot go on.\<close>

definition thread_turn ::
    "('k, 'w) nac_env \<Rightarrow> 'w msgrcv \<Rightarrow> ('k, 'w) exit_state \<Rightarrow> (c_error + ('k, 'w) exit_state) option" where
  "thread_turn E rcv s = (case xs_thread s of
     At_Start \<Rightarrow> Some (on_block s (\<lambda>pm. Inr (s\<lparr>xs_pm := Some (pm\<lparr>pm_mq_exit := False\<rparr>), xs_thread := At_Check\<rparr>)))
   | At_Check \<Rightarrow> Some (on_block s (\<lambda>pm. Inr (s\<lparr>xs_thread := (if pm_quitting pm then At_End else At_Receive)\<rparr>)))
   | At_Receive \<Rightarrow> Some (on_block s (\<lambda>pm. Inr (s\<lparr>xs_thread := Waiting (pm_in_queue pm) (pm_app_id pm)\<rparr>)))
   | Waiting q t \<Rightarrow> map_option (\<lambda>(r, w). Inr (s\<lparr>xs_w := w, xs_thread := Received r\<rparr>)) (rcv q t (xs_w s))
   | Received r \<Rightarrow> Some (
       if is_response r
       then on_block s (\<lambda>pm. rbind (wait_response_turn E r (pm, xs_w s)) (\<lambda>(pm, w).
            Inr (s\<lparr>xs_pm := Some pm, xs_w := w, xs_thread := At_Check\<rparr>)))
       else Inr (s\<lparr>xs_thread := At_Check\<rparr>))
   | At_End \<Rightarrow> Some (on_block s (\<lambda>pm. Inr (s\<lparr>xs_pm := Some (pm\<lparr>pm_mq_exit := True\<rparr>), xs_thread := Gone\<rparr>)))
   | Gone \<Rightarrow> None)"

text \<open>The main thread after the loop: close and clean up, free the block, exit, which ends every thread.\<close>

definition main_turn ::
    "('k, 'w) start_env \<Rightarrow> int \<Rightarrow> ('k, 'w) exit_state \<Rightarrow> (c_error + ('k, 'w) exit_state) option" where
  "main_turn S server s = (case xs_main s of
     In_Loop \<Rightarrow> (case xs_pm s of
         None \<Rightarrow> Some (Inl Use_After_Free)
       | Some pm \<Rightarrow> if el_stop (pm_el pm)
           then Some (case nac_end S server (pm, xs_w s) (xs_log s) of (lg, w) \<Rightarrow>
             Inr (s\<lparr>xs_w := w, xs_log := lg, xs_main := Loop_Ended\<rparr>))
           else None)
   | Loop_Ended \<Rightarrow> Some (on_block s (\<lambda>pm. Inr (s\<lparr>xs_pm := None, xs_main := Block_Freed\<rparr>)))
   | Block_Freed \<Rightarrow> Some (Inr (s\<lparr>xs_thread := Gone, xs_main := Process_Over\<rparr>))
   | Process_Over \<Rightarrow> None)"

text \<open>The handlers of the loop; a signal arrives at any time, and those without a case do not look at the block.\<close>

definition handler_turn ::
    "('k, 'w) nac_env \<Rightarrow> nac_event \<Rightarrow> ('k, 'w) exit_state \<Rightarrow> (c_error + ('k, 'w) exit_state) option" where
  "handler_turn E ev s =
     (if xs_main s = Process_Over then None else
      case xs_pm s of
        None \<Rightarrow> if ev \<in> {Signal SIGHUP, Signal SIGPIPE} then Some (Inr s) else Some (Inl Use_After_Free)
      | Some pm \<Rightarrow> map_option (\<lambda>r. rbind r (\<lambda>(pm, w). Inr (s\<lparr>xs_pm := Some pm, xs_w := w\<rparr>))) (nac_step E ev (pm, xs_w s)))"

datatype exit_event = Thread_Turn | Main_Turn | Loop_Event nac_event | Signal_Event signum

definition exit_step ::
    "('k, 'w) start_env \<Rightarrow> 'w msgrcv \<Rightarrow> int \<Rightarrow> exit_event \<Rightarrow> ('k, 'w) exit_state \<Rightarrow> (c_error + ('k, 'w) exit_state) option" where
  "exit_step S rcv server e s = (case e of
     Thread_Turn \<Rightarrow> thread_turn (se_nac S) rcv s
   | Main_Turn \<Rightarrow> main_turn S server s
   | Loop_Event ev \<Rightarrow> if xs_main s = In_Loop \<and> (\<forall>m. ev \<noteq> Queue_Message m) then handler_turn (se_nac S) ev s else None
   | Signal_Event g \<Rightarrow> handler_turn (se_nac S) (Signal g) s)"

text \<open>A schedule; an event that is not possible at its place is passed over.\<close>

fun exit_run ::
    "('k, 'w) start_env \<Rightarrow> 'w msgrcv \<Rightarrow> int \<Rightarrow> exit_event list \<Rightarrow> ('k, 'w) exit_state \<Rightarrow> c_error + ('k, 'w) exit_state" where
  "exit_run S rcv server [] s = Inr s"
| "exit_run S rcv server (e # es) s =
     (case exit_step S rcv server e s of
        None \<Rightarrow> exit_run S rcv server es s
      | Some r \<Rightarrow> rbind r (exit_run S rcv server es))"

section \<open>What the handlers leave alone\<close>

definition control :: "'k process_mgr \<Rightarrow> bool \<times> bool \<times> int \<times> int" where
  "control pm = (pm_quitting pm, pm_mq_exit pm, pm_in_queue pm, pm_app_id pm)"

text \<open>
  \<open>Q\<close> says that the queue holds a message for the thread: no call of the main thread takes it away, sending one
  puts one there, and then \<open>msgrcv\<close> returns.
\<close>

definition net_keeps :: "'w net \<Rightarrow> ('w \<Rightarrow> bool) \<Rightarrow> bool" where
  "net_keeps N Q \<longleftrightarrow>
     (\<forall>s w. Q w \<longrightarrow> Q (snd (nt_accept N s w))) \<and> (\<forall>s w. Q w \<longrightarrow> Q (nt_close N s w)) \<and>
     (\<forall>s x v w. Q w \<longrightarrow> Q (snd (nt_setopt N s x v w))) \<and> (\<forall>s w. Q w \<longrightarrow> Q (snd (nt_getfl N s w))) \<and>
     (\<forall>s v w. Q w \<longrightarrow> Q (snd (nt_setfl N s v w))) \<and> (\<forall>s n w. Q w \<longrightarrow> Q (snd (nt_read N s n w))) \<and>
     (\<forall>s b w. Q w \<longrightarrow> Q (snd (nt_write N s b w)))"

definition queue_doc :: "('k, 'w) nac_env \<Rightarrow> 'w msgrcv \<Rightarrow> int \<Rightarrow> int \<Rightarrow> ('w \<Rightarrow> bool) \<Rightarrow> bool" where
  "queue_doc E rcv q t Q \<longleftrightarrow>
     net_keeps (ne_net E) Q \<and> (\<forall>w. Q w \<longrightarrow> Q (snd (ne_time E w))) \<and>
     (\<forall>q' t' bs w. Q w \<longrightarrow> Q (snd (ip_msgsnd (ne_ipc E) q' t' bs w))) \<and>
     (\<forall>bs w. fst (ip_msgsnd (ne_ipc E) q t bs w) \<longrightarrow> Q (snd (ip_msgsnd (ne_ipc E) q t bs w))) \<and>
     (\<forall>w. Q w \<longrightarrow> rcv q t w \<noteq> None)"

lemma net_keepsD:
  assumes "net_keeps N Q" "Q w"
  shows "nt_accept N s w = (a, w') \<Longrightarrow> Q w'" "Q (nt_close N s w)" "nt_setopt N s x v w = (b, w') \<Longrightarrow> Q w'"
    "nt_getfl N s w = (c, w') \<Longrightarrow> Q w'" "nt_setfl N s fl w = (b, w') \<Longrightarrow> Q w'" "nt_read N s n w = (d, w') \<Longrightarrow> Q w'"
    "nt_write N s bs w = (k, w') \<Longrightarrow> Q w'"
proof -
  have "Q (snd (nt_accept N s w))" "Q (nt_close N s w)" "Q (snd (nt_setopt N s x v w))" "Q (snd (nt_getfl N s w))"
    "Q (snd (nt_setfl N s fl w))" "Q (snd (nt_read N s n w))" "Q (snd (nt_write N s bs w))"
    using assms by (simp_all add: net_keeps_def)
  then show "nt_accept N s w = (a, w') \<Longrightarrow> Q w'" "Q (nt_close N s w)" "nt_setopt N s x v w = (b, w') \<Longrightarrow> Q w'"
    "nt_getfl N s w = (c, w') \<Longrightarrow> Q w'" "nt_setfl N s fl w = (b, w') \<Longrightarrow> Q w'" "nt_read N s n w = (d, w') \<Longrightarrow> Q w'"
    "nt_write N s bs w = (k, w') \<Longrightarrow> Q w'" by simp_all
qed

lemma read_loop_keeps: "net_keeps N Q \<Longrightarrow> Q w \<Longrightarrow> read_loop N fd cnt got loop w = Inr (r, w') \<Longrightarrow> Q w'"
proof (induction N fd cnt got loop w rule: read_loop.induct)
  case (1 N fd cnt got loop w)
  obtain res w1 where w1: "nt_read N fd (cnt - length got) w = (res, w1)" by fastforce
  note o = net_keepsD(6) [OF "1.prems"(1,2) w1]
  show ?case using "1.prems"(2,3) "1.IH"(1) [OF _ w1 [symmetric] _ _ _ "1.prems"(1) o] "1.IH"(2) [OF _ w1 [symmetric] _ _ _ "1.prems"(1) o] o w1
    by (subst (asm) read_loop.simps) (auto split: if_splits sum.splits)
qed

lemma write_loop_keeps: "net_keeps N Q \<Longrightarrow> Q w \<Longrightarrow> write_loop N fd buf loop w = Inr (r, w') \<Longrightarrow> Q w'"
proof (induction N fd buf loop w rule: write_loop.induct)
  case (1 N fd buf loop w)
  obtain res w1 where w1: "nt_write N fd buf w = (res, w1)" by fastforce
  note o = net_keepsD(7) [OF "1.prems"(1,2) w1]
  show ?case using "1.prems"(2,3) "1.IH"(1) [OF _ w1 [symmetric] _ _ _ "1.prems"(1) o] "1.IH"(2) [OF _ w1 [symmetric] _ _ _ "1.prems"(1) o] o w1
    by (subst (asm) write_loop.simps) (auto split: if_splits sum.splits)
qed

lemma transfer_keeps:
  assumes "net_keeps N Q" "Q w"
  shows "tfnet_read N fd n w = Inr (r, w') \<Longrightarrow> Q w'" "tfnet_write N fd buf w = Inr (b, w') \<Longrightarrow> Q w'"
  using read_loop_keeps [OF assms] write_loop_keeps [OF assms] unfolding tfnet_read_def tfnet_write_def by blast+

lemma accept_keeps:
  "tfnet_generic_accept N s w = Some (r, w') \<Longrightarrow> net_keeps N Q \<Longrightarrow> Q w \<Longrightarrow> Q w'"
proof (induction N s w "(r, w')" rule: tfnet_generic_accept.raw_induct [rotated, consumes 1, case_names 1])
  case (1 loop N s w)
  obtain res w1 where w1: "nt_accept N s w = (res, w1)" by fastforce
  then have "Q w1" using net_keepsD(1) [OF 1(3,4)] by blast
  then show ?case using 1(1) [of N s w1] 1(2,3) w1 by (auto split: if_splits option.splits sum.splits)
qed

lemma options_keep:
  assumes "net_keeps N Q" "Q w"
  shows "Q (snd (tfnet_nonblock N fd w))" "Q (snd (tfnet_enable_tcp_nodelay N fd w))"
proof -
  obtain r w1 where w1: "nt_getfl N fd w = (r, w1)" by fastforce
  then have q: "Q w1" using net_keepsD(4) [OF assms] by blast
  have "Q (snd (nt_setfl N fd v w1))" for v using assms(1) q by (simp add: net_keeps_def)
  then show "Q (snd (tfnet_nonblock N fd w))" using w1 q by (cases r) (simp_all add: tfnet_nonblock_def)
  have "Q (snd (nt_setopt N fd x v w))" for x v using assms by (simp add: net_keeps_def)
  then show "Q (snd (tfnet_enable_tcp_nodelay N fd w))" by (simp add: tfnet_enable_tcp_nodelay_def tfnet_tcp_nodelay_def)
qed

section \<open>The handlers\<close>

text \<open>The control fields stay as they are, and a message that waits in the queue stays there.\<close>

definition stays :: "('w \<Rightarrow> bool) \<Rightarrow> ('k, 'w) nac \<Rightarrow> c_error + ('k, 'w) nac \<Rightarrow> bool" where
  "stays Q st r \<longleftrightarrow> (case r of
     Inl _ \<Rightarrow> True
   | Inr st' \<Rightarrow> control (fst st') = control (fst st) \<and> (Q (snd st) \<longrightarrow> Q (snd st')))"

lemma stays_Inl [simp]: "stays Q st (Inl e)"
  by (simp add: stays_def)

lemma stays_Inr: "control pm' = control pm \<Longrightarrow> (Q w \<Longrightarrow> Q w') \<Longrightarrow> stays Q (pm, w) (Inr (pm', w'))"
  by (simp add: stays_def)

lemma stays_bind: "(\<And>x. m = Inr x \<Longrightarrow> stays Q st (f x)) \<Longrightarrow> stays Q st (rbind m f)"
  by (cases m) simp_all

lemma stays_bind_state: "stays Q st m \<Longrightarrow> (\<And>st'. stays Q st' (f st')) \<Longrightarrow> stays Q st (rbind m f)"
  by (cases m) (fastforce simp: stays_def split: sum.splits)+

lemma stays_trans:
  "control pm1 = control pm \<Longrightarrow> (Q w \<Longrightarrow> Q w1) \<Longrightarrow> stays Q (pm1, w1) r \<Longrightarrow> stays Q (pm, w) r"
  by (cases r) (auto simp: stays_def)

lemma queue_docD:
  assumes "queue_doc E rcv q t Q"
  shows "net_keeps (ne_net E) Q" "Q w \<Longrightarrow> ne_time E w = (now, w') \<Longrightarrow> Q w'"
    "Q w \<Longrightarrow> ip_msgsnd (ne_ipc E) q' t' bs w = (b, w') \<Longrightarrow> Q w'"
    "ip_msgsnd (ne_ipc E) q t bs w = (True, w') \<Longrightarrow> Q w'" "Q w \<Longrightarrow> rcv q t w \<noteq> None"
proof -
  show "Q w \<Longrightarrow> ne_time E w = (now, w') \<Longrightarrow> Q w'" using assms unfolding queue_doc_def by (metis snd_conv)
  show "Q w \<Longrightarrow> ip_msgsnd (ne_ipc E) q' t' bs w = (b, w') \<Longrightarrow> Q w'" using assms unfolding queue_doc_def by (metis snd_conv)
  show "ip_msgsnd (ne_ipc E) q t bs w = (True, w') \<Longrightarrow> Q w'" using assms unfolding queue_doc_def by (metis fst_conv snd_conv)
qed (use assms in \<open>simp_all add: queue_doc_def\<close>)

lemma write_queue_keeps:
  "queue_doc E rcv q t Q \<Longrightarrow> Q w \<Longrightarrow> ipc_write_queue (ne_ipc E) i ty data len w = Inr (b, w') \<Longrightarrow> Q w'"
  by (auto simp: ipc_write_queue_def rbind_eq_Inr dest: queue_docD(3) split: if_splits)

lemma close_peer_stays:
  assumes "queue_doc E rcv q t Q"
  shows "stays Q st (close_peer E i st)"
proof -
  have "Q w \<Longrightarrow> Q (nt_close (ne_net E) fd w)" for w fd using net_keepsD(2) [OF queue_docD(1) [OF assms]] .
  then show ?thesis by (cases st) (auto simp: close_peer_def control_def intro!: stays_bind stays_Inr)
qed

lemma stays_close:
  "queue_doc E rcv q t Q \<Longrightarrow> control pm1 = control pm \<Longrightarrow> (Q w \<Longrightarrow> Q w1) \<Longrightarrow> stays Q (pm, w) (close_peer E i (pm1, w1))"
  by (rule stays_trans [OF _ _ close_peer_stays])

lemma set_timer_control: "set_timer i x pm = Inr pm' \<Longrightarrow> control pm' = control pm"
  by (auto simp: set_timer_def rbind_eq_Inr control_def)

lemma stays_timer:
  "control pm1 = control pm \<Longrightarrow> (Q w \<Longrightarrow> Q w1) \<Longrightarrow> stays Q (pm, w) (rbind (set_timer i x pm1) (\<lambda>pm. Inr (pm, w1)))"
  by (rule stays_bind) (auto intro!: stays_Inr dest: set_timer_control)

lemma life_loop_stays: "queue_doc E rcv q t Q \<Longrightarrow> stays Q st (life_loop E is st)"
proof (induction "is" arbitrary: st)
  case Nil
  then show ?case by (cases st) (simp add: stays_def)
next
  case (Cons i "is")
  obtain pm w where st: "st = (pm, w)" by force
  have "stays Q (pm, w) (rbind (set_timer i x pm) (\<lambda>pm. rbind (if d then close_peer E i (pm, w) else Inr (pm, w)) (life_loop E is)))"
    for x d
  proof (rule stays_bind)
    fix pm1
    assume "set_timer i x pm = Inr pm1"
    then have c: "control pm1 = control pm" by (rule set_timer_control)
    have "stays Q (pm1, w) (rbind (if d then close_peer E i (pm1, w) else Inr (pm1, w)) (life_loop E is))"
      using close_peer_stays [OF Cons.prems] Cons.IH [OF Cons.prems] by (intro stays_bind_state) (auto intro: stays_Inr)
    then show "stays Q (pm, w) (rbind (if d then close_peer E i (pm1, w) else Inr (pm1, w)) (life_loop E is))"
      using c by (intro stays_trans [of pm1 pm Q w w])
  qed
  then show ?case using Cons.IH [OF Cons.prems] by (auto simp: st intro: stays_bind)
qed

lemma accept_peer_stays:
  assumes "queue_doc E rcv q t Q"
  shows "stays Q (pm, w) (accept_peer E cfd cip cport (pm, w))"
proof (cases "get_idle_peer pm")
  case (Some i)
  note net = queue_docD(1) [OF assms]
  obtain b1 w1 where w1: "tfnet_nonblock (ne_net E) cfd w = (b1, w1)" by force
  obtain b2 w2 where w2: "tfnet_enable_tcp_nodelay (ne_net E) cfd w1 = (b2, w2)" by force
  have q: "Q w \<Longrightarrow> Q w2" using options_keep(1) [OF net, of w cfd] options_keep(2) [OF net, of w1 cfd] w1 w2 by simp
  show ?thesis unfolding accept_peer_def prod.case Some option.case w1 w2 Let_def
    by (intro stays_bind) (auto simp: control_def split: prod.split intro!: stays_close [OF assms] stays_timer q)
qed (auto simp: accept_peer_def intro: stays_Inr)

lemma forward_request_stays:
  assumes "queue_doc E rcv q t Q"
  shows "stays Q (pm, w) (forward_request E i len (pm, w))"
proof -
  obtain now w1 where w1: "ne_time E w = (now, w1)" by force
  have q1: "Q w \<Longrightarrow> Q w1" using queue_docD(2) [OF assms _ w1] .
  have q2: "Q w \<Longrightarrow> Q w2" if "ipc_write_queue (ne_ipc E) qd ty data len' w1 = Inr (b, w2)" for qd ty data len' b w2
    using write_queue_keeps [OF assms q1 that] .
  show ?thesis unfolding forward_request_def prod.case w1 Let_def
    by (intro stays_bind) (auto simp: control_def split: prod.split intro!: stays_close [OF assms] stays_timer elim: q2)
qed

lemma peer_request_stays:
  assumes "queue_doc E rcv q t Q"
  shows "stays Q (pm, w) (peer_request_handler E fd i (pm, w))"
proof -
  note net = queue_docD(1) [OF assms]
  have r: "Q w' \<Longrightarrow> Q w2" if "tfnet_read (ne_net E) fd n w' = Inr (x, w2)" for n x w' w2
    using transfer_keeps(1) [OF net _ that] .
  have f: "stays Q (pm, w) (forward_request E i len (pm1, w1))" if "control pm1 = control pm" "Q w \<Longrightarrow> Q w1" for len pm1 w1
    by (rule stays_trans [OF that forward_request_stays [OF assms]])
  show ?thesis unfolding peer_request_handler_def prod.case Let_def
    by (intro stays_bind) (auto simp: control_def split: prod.split intro!: stays_bind stays_close [OF assms] f intro: r; metis r)
qed

lemma forward_response_stays:
  assumes "queue_doc E rcv q t Q"
  shows "stays Q (pm, w) (forward_response E len (pm, w))"
proof -
  have r: "Q w' \<Longrightarrow> Q w2" if "tfnet_write (ne_net E) fd out w' = Inr (x, w2)" for fd out x w' w2
    using transfer_keeps(2) [OF queue_docD(1) [OF assms] _ that] .
  show ?thesis unfolding forward_response_def prod.case Let_def
    by (intro stays_bind)
      (auto simp: control_def split: prod.split option.split intro!: stays_bind stays_close [OF assms] stays_Inr intro: r dest!: set_timer_control)
qed

lemma message_response_stays:
  assumes "queue_doc E rcv q t Q"
  shows "stays Q (pm, w) (message_response_handler E fd (pm, w))"
proof -
  have r: "Q w' \<Longrightarrow> Q w2" if "tfnet_read (ne_net E) fd n w' = Inr (x, w2)" for n x w' w2
    using transfer_keeps(1) [OF queue_docD(1) [OF assms] _ that] .
  have f: "stays Q (pm, w) (forward_response E len (pm1, w1))" if "control pm1 = control pm" "Q w \<Longrightarrow> Q w1" for len pm1 w1
    by (rule stays_trans [OF that forward_response_stays [OF assms]])
  show ?thesis unfolding message_response_handler_def prod.case Let_def
    by (intro stays_bind) (auto simp: control_def split: prod.split intro!: stays_bind f stays_Inr intro: r; metis r)
qed

lemma accept_handler_stays:
  assumes "queue_doc E rcv q t Q" "accept_tcp_handler E fd (pm, w) = Some r"
  shows "stays Q (pm, w) r"
proof -
  obtain c w1 where a: "tfnet_tcp_accept2 (ne_net E) fd w = Some (c, w1)"
    and r: "r = (case c of None \<Rightarrow> Inr (pm, w1) | Some (cfd, cip, cport) \<Rightarrow> accept_peer E cfd cip cport (pm, w1))"
    using assms(2) by (auto simp: accept_tcp_handler_def)
  have q: "Q w \<Longrightarrow> Q w1" using a accept_keeps [OF _ queue_docD(1) [OF assms(1)]]
    by (auto simp: tfnet_tcp_accept2_def)
  show ?thesis unfolding r
    by (cases c) (auto intro!: stays_Inr q stays_trans [OF refl _ accept_peer_stays [OF assms(1)]])
qed

text \<open>A signal to a process that is quitting sends no message.\<close>

lemma signal_stays: "pm_quitting pm \<Longrightarrow> stays Q (pm, w) (signal_handler E g (pm, w))"
  by (auto simp: signal_handler_def control_def intro: stays_Inr)

lemma step_stays:
  assumes "queue_doc E rcv q t Q" "pm_quitting pm" "\<forall>m. ev \<noteq> Queue_Message m" "nac_step E ev (pm, w) = Some r"
  shows "stays Q (pm, w) r"
proof (cases ev)
  case (Readable fd)
  then have d: "dispatch E fd (pm, w) = Some r" using assms(4) by (simp add: nac_step_def)
  show ?thesis
  proof (cases r)
    case (Inr st)
    then have "accept_tcp_handler E fd (pm, w) = Some r \<or> (\<exists>i. peer_request_handler E fd i (pm, w) = r) \<or>
        message_response_handler E fd (pm, w) = r \<or> r = Inr (pm, w)"
      using d by (auto simp: dispatch_def Let_def split: if_splits option.splits)
    then show ?thesis
      using accept_handler_stays [OF assms(1)] peer_request_stays [OF assms(1)] message_response_stays [OF assms(1)]
      by (auto intro: stays_Inr)
  qed simp
next
  case Cycle
  then have r: "r = rbind (life_cycle_handler E (pm, w)) (\<lambda>(st, _). Inr st)" using assms(4) by (simp add: nac_step_def)
  have "stays Q (pm, w) (life_loop E [0..<MAX_PEER_NUMS] (pm, w))" by (rule life_loop_stays [OF assms(1)])
  then show ?thesis unfolding r life_cycle_handler_def by (cases "life_loop E [0..<MAX_PEER_NUMS] (pm, w)") simp_all
qed (use assms signal_stays in \<open>auto simp: nac_step_def\<close>)

section \<open>The thread ends\<close>

definition exit_doc :: "('k, 'w) start_env \<Rightarrow> 'w msgrcv \<Rightarrow> int \<Rightarrow> int \<Rightarrow> ('w \<Rightarrow> bool) \<Rightarrow> bool" where
  "exit_doc S rcv q t Q \<longleftrightarrow> queue_doc (se_nac S) rcv q t Q \<and> (\<forall>f w. Q w \<longrightarrow> Q (lo_close (se_log S) f w)) \<and>
     writes_fit (ne_net (se_nac S))"

lemma exit_docD:
  assumes "exit_doc S rcv q t Q"
  shows "queue_doc (se_nac S) rcv q t Q" "Q w \<Longrightarrow> Q (lo_close (se_log S) f w)" "writes_fit (ne_net (se_nac S))"
  using assms by (simp_all add: exit_doc_def)

text \<open>The process is quitting, and a thread that is going to wait will find a message.\<close>

definition quit_ok :: "int \<Rightarrow> int \<Rightarrow> ('w \<Rightarrow> bool) \<Rightarrow> ('k, 'w) exit_state \<Rightarrow> bool" where
  "quit_ok q t Q s \<longleftrightarrow> xs_main s \<in> {In_Loop, Loop_Ended} \<and> (\<exists>pm. xs_pm s = Some pm \<and> pm_quitting pm \<and> pm_in_queue pm = q \<and> pm_app_id pm = t \<and>
     (case xs_thread s of
        At_Receive \<Rightarrow> Q (xs_w s)
      | Waiting q' t' \<Rightarrow> q' = q \<and> t' = t \<and> Q (xs_w s)
      | Gone \<Rightarrow> pm_mq_exit pm
      | _ \<Rightarrow> True))"

definition turns_left :: "thread_pc \<Rightarrow> nat" where
  "turns_left p = (case p of At_Receive \<Rightarrow> 5 | Waiting _ _ \<Rightarrow> 4 | Received _ \<Rightarrow> 3 | At_Start \<Rightarrow> 3 | At_Check \<Rightarrow> 2 | At_End \<Rightarrow> 1 | Gone \<Rightarrow> 0)"

lemma wait_response_returns:
  assumes "writes_fit (ne_net E)"
  shows "\<exists>w'. wait_response_turn E m (pm, w) = Inr (pm, w')"
proof -
  have r: "\<exists>b w'. tfnet_write (ne_net E) fd out w = Inr (b, w')" for fd out w
    using write_loop_fits [OF assms, of fd out 0 w] by (auto simp: tfnet_write_def)
  show ?thesis
  proof (cases "is_response m")
    case True
    then obtain data where m: "m = Some data" "24 \<le> length data" by (auto simp: is_response_def split: option.splits)
    obtain b1 w1 where w1: "tfnet_write (ne_net E) (snd (pm_pipe pm)) (bytes16 (htons (of_nat (length data)))) w = Inr (b1, w1)"
      using r by blast
    obtain b2 w2 where w2: "tfnet_write (ne_net E) (snd (pm_pipe pm)) data w1 = Inr (b2, w2)" using r by blast
    show ?thesis using m w1 w2 by (simp add: wait_response_turn_def)
  qed (auto simp: is_response_def wait_response_turn_def split: option.splits)
qed

lemma thread_turn_quits:
  assumes d: "exit_doc S rcv q t Q" and s: "quit_ok q t Q s" and "xs_thread s \<noteq> Gone"
  shows "\<exists>s'. exit_step S rcv server Thread_Turn s = Some (Inr s') \<and> quit_ok q t Q s' \<and>
    turns_left (xs_thread s') < turns_left (xs_thread s)"
proof -
  obtain pm where pm: "xs_pm s = Some pm" "pm_quitting pm" "pm_in_queue pm = q" "pm_app_id pm = t"
    using s by (auto simp: quit_ok_def)
  note defs = exit_step_def thread_turn_def on_block_def quit_ok_def turns_left_def
  show ?thesis
  proof (cases "xs_thread s")
    case (Waiting q' t')
    then have "q' = q" "t' = t" "Q (xs_w s)" using s Waiting by (auto simp: quit_ok_def)
    then obtain r w where "rcv q' t' (xs_w s) = Some (r, w)" using queue_docD(5) [OF exit_docD(1) [OF d]] by fastforce
    then show ?thesis using s Waiting pm by (simp add: defs)
  next
    case (Received r)
    obtain w where "wait_response_turn (se_nac S) r (pm, xs_w s) = Inr (pm, w)"
      using wait_response_returns [OF exit_docD(3) [OF d]] by blast
    then show ?thesis using s Received pm by (simp add: defs)
  next
    case Gone
    then show ?thesis using assms(3) by simp
  qed (use s pm in \<open>auto simp: defs\<close>)
qed

lemma handler_turn_quits:
  assumes d: "exit_doc S rcv q t Q" and s: "quit_ok q t Q s"
    and h: "handler_turn (se_nac S) ev s = Some (Inr s')" "\<forall>m. ev \<noteq> Queue_Message m"
  shows "quit_ok q t Q s' \<and> xs_thread s' = xs_thread s"
proof -
  obtain pm where pm: "xs_pm s = Some pm" "pm_quitting pm" "pm_in_queue pm = q" "pm_app_id pm = t"
    using s by (auto simp: quit_ok_def)
  then obtain r where r: "nac_step (se_nac S) ev (pm, xs_w s) = Some r"
    and r': "Inr s' = rbind r (\<lambda>(pm, w). Inr (s\<lparr>xs_pm := Some pm, xs_w := w\<rparr>))"
    using h(1) by (auto simp: handler_turn_def split: if_splits)
  obtain pm' w' where w': "r = Inr (pm', w')" using r' by (cases r) auto
  have "stays Q (pm, xs_w s) (Inr (pm', w'))" using step_stays [OF exit_docD(1) [OF d] pm(2) h(2) r] w' by simp
  then have "control pm' = control pm" "Q (xs_w s) \<Longrightarrow> Q w'" by (auto simp: stays_def)
  then show ?thesis using r' w' s pm by (auto simp: quit_ok_def control_def split: thread_pc.splits)
qed

lemma main_turn_quits:
  assumes d: "exit_doc S rcv q t Q" and s: "quit_ok q t Q s"
    and m: "main_turn S server s = Some (Inr s')" "xs_pm s' \<noteq> None"
  shows "quit_ok q t Q s' \<and> xs_thread s' = xs_thread s"
proof -
  obtain pm where pm: "xs_pm s = Some pm" using s by (auto simp: quit_ok_def)
  have c: "Q w \<Longrightarrow> Q (nt_close (ne_net (se_nac S)) fd w)" for w fd
    using net_keepsD(2) [OF queue_docD(1) [OF exit_docD(1) [OF d]]] .
  have e: "Q (snd (nac_end S server (pm, xs_w s) (xs_log s)))" if "Q (xs_w s)"
    using that c exit_docD(2) [OF d] by (auto simp: nac_end_def log_destroy_def Let_def split: option.split)
  show ?thesis
  proof (cases "xs_main s")
    case In_Loop
    then have "s' = s\<lparr>xs_w := snd (nac_end S server (pm, xs_w s) (xs_log s)), xs_log := fst (nac_end S server (pm, xs_w s) (xs_log s)),
        xs_main := Loop_Ended\<rparr>" using m(1) pm by (auto simp: main_turn_def split: if_splits prod.splits)
    then show ?thesis using s e by (auto simp: quit_ok_def split: thread_pc.splits)
  next
    case Loop_Ended
    then show ?thesis using m pm by (auto simp: main_turn_def on_block_def)
  qed (use s in \<open>auto simp: quit_ok_def\<close>)
qed

lemma exit_step_quits:
  assumes d: "exit_doc S rcv q t Q" and s: "quit_ok q t Q s"
    and e: "exit_step S rcv server e s = Some (Inr s')" "xs_pm s' \<noteq> None"
  shows "quit_ok q t Q s' \<and> turns_left (xs_thread s') \<le> turns_left (xs_thread s) - (if e = Thread_Turn then 1 else 0)"
proof (cases e)
  case Thread_Turn
  then have "xs_thread s \<noteq> Gone" using e(1) by (auto simp: exit_step_def thread_turn_def)
  then show ?thesis using thread_turn_quits [OF d s, of server] e(1) Thread_Turn by force
next
  case Main_Turn
  then show ?thesis using main_turn_quits [OF d s _ e(2)] e(1) by (simp add: exit_step_def)
next
  case (Loop_Event ev)
  then show ?thesis using handler_turn_quits [OF d s, of ev s'] e(1) by (simp add: exit_step_def split: if_splits)
next
  case (Signal_Event g)
  then show ?thesis using handler_turn_quits [OF d s, of "Signal g" s'] e(1) by (simp add: exit_step_def)
qed

text \<open>A freed block stays freed.\<close>

lemma freed_step: "xs_pm s = None \<Longrightarrow> exit_step S rcv server e s = Some (Inr s') \<Longrightarrow> xs_pm s' = None"
  by (auto simp: exit_step_def thread_turn_def main_turn_def handler_turn_def on_block_def
    split: exit_event.splits thread_pc.splits main_pc.splits if_splits)

lemma exit_run_Cons:
  "exit_run S rcv server (e # es) s = Inr s' \<longleftrightarrow>
     (exit_step S rcv server e s = None \<and> exit_run S rcv server es s = Inr s') \<or>
     (\<exists>s1. exit_step S rcv server e s = Some (Inr s1) \<and> exit_run S rcv server es s1 = Inr s')"
  by (auto simp: rbind_eq_Inr split: option.split)

lemma freed_run: "exit_run S rcv server es s = Inr s' \<Longrightarrow> xs_pm s = None \<Longrightarrow> xs_pm s' = None"
  by (induction es arbitrary: s) (auto simp: exit_run_Cons simp del: exit_run.simps(2) dest: freed_step)

lemma exit_run_quits:
  assumes "exit_doc S rcv q t Q" "quit_ok q t Q s" "exit_run S rcv server es s = Inr s'" "xs_pm s' \<noteq> None"
  shows "quit_ok q t Q s' \<and> turns_left (xs_thread s') \<le> turns_left (xs_thread s) - count_list es Thread_Turn"
  using assms(2-3)
proof (induction es arbitrary: s)
  case (Cons e es)
  from Cons.prems(2) consider (skip) "exit_step S rcv server e s = None" "exit_run S rcv server es s = Inr s'"
    | (go) s1 where "exit_step S rcv server e s = Some (Inr s1)" "exit_run S rcv server es s1 = Inr s'"
    unfolding exit_run_Cons by (elim disjE exE conjE) simp_all
  then show ?case
  proof cases
    case skip
    have "xs_thread s = Gone" if "e = Thread_Turn"
      using thread_turn_quits [OF assms(1) Cons.prems(1), of server] skip(1) that by force
    then show ?thesis using Cons.IH [OF Cons.prems(1) skip(2)] by (auto simp: turns_left_def)
  next
    case go
    have "xs_pm s1 \<noteq> None" using freed_run [OF go(2)] assms(4) by blast
    note st = exit_step_quits [OF assms(1) Cons.prems(1) go(1) this]
    then show ?thesis using Cons.IH [OF _ go(2)] by (auto split: if_splits)
  qed
qed simp

lemma thread_runs_out:
  assumes "exit_doc S rcv q t Q" "quit_ok q t Q s" "turns_left (xs_thread s) \<le> n"
  shows "\<exists>s'. exit_run S rcv server (replicate n Thread_Turn) s = Inr s' \<and> quit_ok q t Q s' \<and> xs_thread s' = Gone"
  using assms(2,3)
proof (induction n arbitrary: s)
  case 0
  then show ?case by (auto simp: turns_left_def split: thread_pc.splits)
next
  case (Suc n)
  show ?case
  proof (cases "xs_thread s = Gone")
    case True
    then have "exit_step S rcv server Thread_Turn s = None" by (simp add: exit_step_def thread_turn_def)
    then show ?thesis using Suc.IH [OF Suc.prems(1)] True by (simp add: turns_left_def)
  next
    case False
    obtain s1 where s1: "exit_step S rcv server Thread_Turn s = Some (Inr s1)" "quit_ok q t Q s1"
        "turns_left (xs_thread s1) < turns_left (xs_thread s)"
      using thread_turn_quits [OF assms(1) Suc.prems(1) False] by blast
    then show ?thesis using Suc.IH [OF s1(2)] Suc.prems(2) by simp
  qed
qed

text \<open>A relay in its loop whose thread runs, and to which a signal is sent that ends it.\<close>

definition before_quit :: "('k, 'w) start_env \<Rightarrow> 'k process_mgr \<Rightarrow> ('k, 'w) exit_state \<Rightarrow> bool" where
  "before_quit S pm s \<longleftrightarrow> xs_pm s = Some pm \<and> xs_main s = In_Loop \<and> \<not> pm_quitting pm \<and> \<not> pm_mq_exit pm \<and>
     length (pm_mq_data pm) = MAX_MQUEUE_LEN \<and> 0 \<le> pm_in_queue pm \<and> pm_app_id pm \<noteq> 0 \<and>
     fst (ip_msgsnd (ne_ipc (se_nac S)) (pm_in_queue pm) (pm_app_id pm) (ascii ''0000'') (xs_w s)) \<and>
     xs_thread s \<noteq> Gone \<and>
     (\<forall>q t. xs_thread s = Waiting q t \<longrightarrow> q = pm_in_queue pm \<and> t = pm_app_id pm)"

lemma signal_quits:
  assumes d: "exit_doc S rcv (pm_in_queue pm) (pm_app_id pm) Q" and b: "before_quit S pm s"
    and g: "g \<in> {SIGINT, SIGTERM, SIGQUIT}"
  shows "\<exists>s1 pm1. exit_step S rcv server (Signal_Event g) s = Some (Inr s1) \<and> quit_ok (pm_in_queue pm) (pm_app_id pm) Q s1 \<and>
    xs_thread s1 = xs_thread s \<and> xs_main s1 = In_Loop \<and> xs_pm s1 = Some pm1 \<and> el_stop (pm_el pm1)"
proof -
  have b': "xs_pm s = Some pm" "xs_main s = In_Loop" "\<not> pm_quitting pm" "\<not> pm_mq_exit pm" "length (pm_mq_data pm) = MAX_MQUEUE_LEN"
    "0 \<le> pm_in_queue pm" "pm_app_id pm \<noteq> 0" "xs_thread s \<noteq> Gone"
    "\<And>q t. xs_thread s = Waiting q t \<Longrightarrow> q = pm_in_queue pm \<and> t = pm_app_id pm"
    using b by (simp_all add: before_quit_def)
  obtain w1 where w1: "ip_msgsnd (ne_ipc (se_nac S)) (pm_in_queue pm) (pm_app_id pm) (ascii ''0000'') (xs_w s) = (True, w1)"
    using b by (cases "ip_msgsnd (ne_ipc (se_nac S)) (pm_in_queue pm) (pm_app_id pm) (ascii ''0000'') (xs_w s)") (auto simp: before_quit_def)
  have l: "length (ascii ''0000'') = 4" by (simp add: ascii_def)
  let ?data = "ascii ''0000'' @ drop 4 (pm_mq_data pm)"
  have blit: "blit (pm_mq_data pm) 0 (ascii ''0000'') = Inr ?data" using b'(5) l by (simp add: MAX_MQUEUE_LEN_def)
  have "ipc_write_queue (ne_ipc (se_nac S)) (pm_in_queue pm) (pm_app_id pm) ?data 4 (xs_w s) = Inr (True, w1)"
    using b'(5-7) l w1 by (simp add: ipc_write_queue_def MAX_MQUEUE_LEN_def)
  then have "safe_quit (se_nac S) (pm\<lparr>pm_quitting := True\<rparr>, xs_w s) =
      Inr (pm\<lparr>pm_quitting := True, pm_el := aeStop (pm_el pm), pm_mq_data := ?data, pm_mq_type := pm_app_id pm\<rparr>, w1)"
    using b'(4) blit by (simp add: safe_quit_def)
  then have "exit_step S rcv server (Signal_Event g) s = Some (Inr (s\<lparr>xs_pm := Some (pm\<lparr>pm_quitting := True, pm_el := aeStop (pm_el pm),
      pm_mq_data := ?data, pm_mq_type := pm_app_id pm\<rparr>), xs_w := w1\<rparr>))"
    using b'(1-3) g by (auto simp: exit_step_def handler_turn_def nac_step_def signal_handler_def)
  moreover have "Q w1" using queue_docD(4) [OF exit_docD(1) [OF d] w1] .
  ultimately show ?thesis using b'(2,8,9) by (auto simp: quit_ok_def aeStop_def split: thread_pc.split)
qed

text \<open>
  The message is sent without waiting.  When the queue does not take it the relay is quitting all the same, but a thread that waits
  on an empty queue goes on waiting, and later signals do not send the message again.
\<close>

lemma quit_refused:
  assumes "xs_pm s = Some pm" "xs_main s = In_Loop" "\<not> pm_quitting pm" "\<not> pm_mq_exit pm" "length (pm_mq_data pm) = MAX_MQUEUE_LEN"
    "0 \<le> pm_in_queue pm" "pm_app_id pm \<noteq> 0" "xs_thread s = Waiting q t" "g \<in> {SIGINT, SIGTERM, SIGQUIT}" "g' \<in> {SIGINT, SIGTERM, SIGQUIT}"
    and refused: "ip_msgsnd (ne_ipc (se_nac S)) (pm_in_queue pm) (pm_app_id pm) (ascii ''0000'') (xs_w s) = (False, w1)"
    and empty: "rcv q t w1 = None"
  shows "\<exists>s1. exit_step S rcv server (Signal_Event g) s = Some (Inr s1) \<and> xs_thread s1 = Waiting q t \<and>
    exit_step S rcv server Thread_Turn s1 = None \<and> exit_step S rcv server (Signal_Event g') s1 = Some (Inr s1)"
proof -
  have l: "length (ascii ''0000'') = 4" by (simp add: ascii_def)
  let ?data = "ascii ''0000'' @ drop 4 (pm_mq_data pm)"
  let ?pm = "pm\<lparr>pm_quitting := True, pm_el := aeStop (pm_el pm), pm_mq_data := ?data, pm_mq_type := pm_app_id pm\<rparr>"
  have blit: "blit (pm_mq_data pm) 0 (ascii ''0000'') = Inr ?data" using assms(5) l by (simp add: MAX_MQUEUE_LEN_def)
  have "ipc_write_queue (ne_ipc (se_nac S)) (pm_in_queue pm) (pm_app_id pm) ?data 4 (xs_w s) = Inr (False, w1)"
    using assms(5-7) l refused by (simp add: ipc_write_queue_def MAX_MQUEUE_LEN_def)
  then have "safe_quit (se_nac S) (pm\<lparr>pm_quitting := True\<rparr>, xs_w s) = Inr (?pm, w1)"
    using assms(4) blit by (simp add: safe_quit_def)
  then have s1: "exit_step S rcv server (Signal_Event g) s = Some (Inr (s\<lparr>xs_pm := Some ?pm, xs_w := w1\<rparr>))"
    using assms(1-3,9) by (auto simp: exit_step_def handler_turn_def nac_step_def signal_handler_def)
  have "exit_step S rcv server (Signal_Event g') (s\<lparr>xs_pm := Some ?pm, xs_w := w1\<rparr>) = Some (Inr (s\<lparr>xs_pm := Some ?pm, xs_w := w1\<rparr>))"
    using assms(2,10) by (auto simp: exit_step_def handler_turn_def nac_step_def signal_handler_def)
  moreover have "exit_step S rcv server Thread_Turn (s\<lparr>xs_pm := Some ?pm, xs_w := w1\<rparr>) = None"
    using assms(8) empty by (simp add: exit_step_def thread_turn_def)
  ultimately show ?thesis using s1 assms(8) by auto
qed

text \<open>
  C10: If the queue takes the message \<open>0000\<close>, a signal that ends the relay ends its receiving thread, wherever it is: the message
  reaches it even if it has looked at the flag already and is not waiting yet.  Under every interleaving with the handlers, further
  signals and the end of the main thread, in every state reached in which the process block has not been freed, the
  thread is gone with \<open>mq_exit\<close> set or its next turn neither blocks nor fails, and it is gone when it has had five turns.
\<close>

theorem quit_ends_thread:
  assumes "exit_doc S rcv (pm_in_queue pm) (pm_app_id pm) Q" "before_quit S pm s" "g \<in> {SIGINT, SIGTERM, SIGQUIT}"
  shows "(\<forall>es s'. exit_run S rcv server (Signal_Event g # es) s = Inr s' \<and> xs_pm s' \<noteq> None \<longrightarrow>
      (if xs_thread s' = Gone then pm_mq_exit (the (xs_pm s'))
       else \<exists>s''. exit_step S rcv server Thread_Turn s' = Some (Inr s''))) \<and>
    (\<forall>es s'. exit_run S rcv server (Signal_Event g # es) s = Inr s' \<and> 5 \<le> count_list es Thread_Turn \<and> xs_pm s' \<noteq> None \<longrightarrow>
      xs_thread s' = Gone \<and> pm_mq_exit (the (xs_pm s'))) \<and>
    (\<exists>s'. exit_run S rcv server (Signal_Event g # replicate 5 Thread_Turn) s = Inr s' \<and> xs_thread s' = Gone)"
proof -
  obtain s1 where s1: "exit_step S rcv server (Signal_Event g) s = Some (Inr s1)" "quit_ok (pm_in_queue pm) (pm_app_id pm) Q s1"
    using signal_quits [OF assms] by blast
  have le: "turns_left (xs_thread s1) \<le> 5" by (simp add: turns_left_def split: thread_pc.split)
  have run: "quit_ok (pm_in_queue pm) (pm_app_id pm) Q s'"
      "turns_left (xs_thread s') \<le> turns_left (xs_thread s1) - count_list es Thread_Turn"
    if "exit_run S rcv server (Signal_Event g # es) s = Inr s'" "xs_pm s' \<noteq> None" for es s'
    using exit_run_quits [OF assms(1) s1(2) _ that(2), of server es] that(1) s1(1) by simp_all
  have "xs_thread s' = Gone \<and> pm_mq_exit (the (xs_pm s'))"
    if "exit_run S rcv server (Signal_Event g # es) s = Inr s'" "5 \<le> count_list es Thread_Turn" "xs_pm s' \<noteq> None" for es s'
  proof -
    have "turns_left (xs_thread s') = 0" using run(2) [OF that(1,3)] le that(2) by linarith
    then have "xs_thread s' = Gone" by (simp add: turns_left_def split: thread_pc.splits)
    then show ?thesis using run(1) [OF that(1,3)] by (auto simp: quit_ok_def)
  qed
  moreover have "if xs_thread s' = Gone then pm_mq_exit (the (xs_pm s'))
      else \<exists>s''. exit_step S rcv server Thread_Turn s' = Some (Inr s'')"
    if "exit_run S rcv server (Signal_Event g # es) s = Inr s'" "xs_pm s' \<noteq> None" for es s'
    using run(1) [OF that] thread_turn_quits [OF assms(1) run(1) [OF that], of server] by (auto simp: quit_ok_def)
  moreover have "\<exists>s'. exit_run S rcv server (Signal_Event g # replicate 5 Thread_Turn) s = Inr s' \<and> xs_thread s' = Gone"
    using thread_runs_out [OF assms(1) s1(2) le] s1(1) by fastforce
  ultimately show ?thesis by blast
qed

text \<open>
  The main thread does not wait for it.  When it goes first, the thread looks at a freed block.
\<close>

lemma thread_uses_freed_block:
  assumes "exit_doc S rcv (pm_in_queue pm) (pm_app_id pm) Q" "before_quit S pm s" "g \<in> {SIGINT, SIGTERM, SIGQUIT}"
    and "xs_thread s = At_Check"
  shows "exit_run S rcv server [Signal_Event g, Main_Turn, Main_Turn, Thread_Turn] s = Inl Use_After_Free"
proof -
  obtain s1 pm1 where s1: "exit_step S rcv server (Signal_Event g) s = Some (Inr s1)" "xs_thread s1 = At_Check" "xs_main s1 = In_Loop"
      "xs_pm s1 = Some pm1" "el_stop (pm_el pm1)"
    using signal_quits [OF assms(1-3), of server] assms(4) by force
  show ?thesis using s1(2-5)
    by (cases "nac_end S server (pm1, xs_w s1) (xs_log s1)")
      (simp add: s1(1), simp add: exit_step_def main_turn_def thread_turn_def on_block_def)
qed

text \<open>
  A signal that comes before \<open>aeMain\<close> is entered is lost: \<open>aeMain\<close> clears the request to stop, and later
  signals find the flag \<open>quitting\<close> set and do nothing.
\<close>

lemma early_quit_lost:
  assumes "g \<in> {SIGINT, SIGTERM, SIGQUIT}" "\<not> pm_quitting pm" "signal_handler E g (pm, w) = Inr (pm', w')"
  shows "aeMain env (pm_el pm', v) = aeMain env (pm_el pm, v)"
    and "g' \<in> {SIGINT, SIGTERM, SIGQUIT} \<Longrightarrow> signal_handler E g' (pm', v') = Inr (pm', v')"
proof -
  have q: "safe_quit E (pm\<lparr>pm_quitting := True\<rparr>, w) = Inr (pm', w')" using assms by (auto simp: signal_handler_def)
  then have "pm_el pm' = aeStop (pm_el pm) \<and> pm_quitting pm'"
    by (auto simp: safe_quit_def Let_def rbind_eq_Inr split: if_splits)
  then show "aeMain env (pm_el pm', v) = aeMain env (pm_el pm, v)"
    and "g' \<in> {SIGINT, SIGTERM, SIGQUIT} \<Longrightarrow> signal_handler E g' (pm', v') = Inr (pm', v')"
    by (auto simp: aeMain_def aeStop_def signal_handler_def)
qed

section \<open>A system with one queue\<close>

text \<open>A system whose state is the messages in the queue; its sockets do nothing.\<close>

definition idle_net :: "byte list list net" where
  "idle_net = \<lparr>nt_socket = (\<lambda>d w. (Inl E_Other, w)), nt_setopt = (\<lambda>s x v w. (True, w)), nt_getfl = (\<lambda>s w. (Inr 0, w)),
     nt_setfl = (\<lambda>s v w. (True, w)), nt_connect = (\<lambda>s sa w. (None, w)), nt_bind = (\<lambda>s sa w. (True, w)),
     nt_listen = (\<lambda>s n w. (True, w)), nt_accept = (\<lambda>s w. (Inl E_Other, w)), nt_close = (\<lambda>s w. w),
     nt_read = (\<lambda>s n w. (Inr [], w)), nt_write = (\<lambda>s b w. (Inr (length b), w)), nt_peername = (\<lambda>s w. (Inl E_Other, w)),
     nt_chmod = (\<lambda>p m w. w), nt_gethost = (\<lambda>h w. (None, w)), nt_aton = (\<lambda>s. None), nt_ntoa = (\<lambda>a. []), nt_pton = (\<lambda>s. Inr None)\<rparr>"

definition one_queue :: "byte list list ipc" where
  "one_queue = \<lparr>ip_access = (\<lambda>f w. True), ip_ftok = (\<lambda>f i w. i), ip_msgget = (\<lambda>k w. (k, w)), ip_msgrm = (\<lambda>q w. (True, w)),
     ip_msgstat = (\<lambda>q w. Some (length w)), ip_msgsnd = (\<lambda>q t bs w. (True, w @ [bs])), ip_shmget = (\<lambda>k n c w. (k, w)),
     ip_shmat = (\<lambda>s w. (Failed, w))\<rparr>"

definition take_message :: "byte list list msgrcv" where
  "take_message q t w = (case w of [] \<Rightarrow> None | m # ms \<Rightarrow> Some (Some m, ms))"

definition quit_system :: "((int \<Rightarrow> (u32 \<times> int) option) epoll_state, byte list list) start_env" where
  "quit_system = \<lparr>se_nac = \<lparr>ne_net = idle_net, ne_ipc = one_queue, ne_api = ne_api demo_nac, ne_time = (\<lambda>w. (1, w))\<rparr>,
     se_sys = \<lparr>io_open = (\<lambda>p c w. (- 1, w)), io_close = (\<lambda>f w. (True, w)), io_read = (\<lambda>f n w. (R_Data [], w)),
       io_write = (\<lambda>f b w. (W_Count (length b), w)), io_stat = (\<lambda>f w. (None, w))\<rparr>,
     se_log = \<lparr>lo_open = (\<lambda>n w. (None, w)), lo_print = (\<lambda>f s w. w), lo_close = (\<lambda>f w. w), lo_stderr = (\<lambda>s w. w),
       lo_now = (\<lambda>w. (\<lparr>tm_year = 114, tm_mon = 0, tm_mday = 1, tm_hour = 0, tm_min = 0, tm_sec = 0\<rparr>, w)), lo_tid = 0,
       lo_strerror = (\<lambda>e. []), lo_errno = (\<lambda>w. 0)\<rparr>,
     se_home = None, se_segment = (\<lambda>a w. []),
     se_loop = \<lparr>env_api = ne_api demo_nac, env_time = (\<lambda>w. ((1, 0), w)), env_clock = (\<lambda>w. (1, w)),
       env_call = (\<lambda>c w. (Return 0, w)), env_final = (\<lambda>f d w. w)\<rparr>,
     se_poll = (\<lambda>w. (None, w)), se_pair = (\<lambda>w. (None, w)), se_getrlimit = (\<lambda>w. (None, w)), se_setrlimit = (\<lambda>l w. (False, w))\<rparr>"

lemma quit_system_doc: "exit_doc quit_system take_message q t (\<lambda>w. w \<noteq> [])"
  by (auto simp: exit_doc_def queue_doc_def net_keeps_def writes_fit_def quit_system_def idle_net_def one_queue_def take_message_def
    split: list.split)

definition waiting_relay :: "((int \<Rightarrow> (u32 \<times> int) option) epoll_state, byte list list) exit_state" where
  "waiting_relay = \<lparr>xs_pm = Some demo_pm, xs_w = [], xs_log = \<lparr>lg_level = 0, lg_opened = False, lg_file = None\<rparr>,
     xs_thread = Waiting 0 120, xs_main = In_Loop\<rparr>"

lemma waiting_relay_ready: "before_quit quit_system demo_pm waiting_relay"
  by (simp add: before_quit_def waiting_relay_def demo_pm_def MAX_MQUEUE_LEN_def quit_system_def one_queue_def)

lemma quit_ends_thread_witness:
  "\<exists>s'. exit_run quit_system take_message 3 (Signal_Event SIGTERM # replicate 5 Thread_Turn) waiting_relay = Inr s' \<and>
     xs_thread s' = Gone"
  using quit_ends_thread [OF quit_system_doc waiting_relay_ready, of SIGTERM 3] by blast

end
