(* ===== verification/TF_Malloc_Own.thy ===== *)
theory TF_Malloc_Own
  imports TF_Malloc "HOL-Library.Multiset"
begin

text \<open>
  What the components that own memory use of the allocator: the effect of each call on the blocks, with the possibility
  that the memory is exhausted, and the cost of a part of the heap.
\<close>

type_synonym 'a heap_result = "c_error + tf_heap \<times> 'a"

section \<open>The calls\<close>

text \<open>A result with a postcondition, or the end of the process for want of memory.\<close>

definition or_oom :: "(u64 \<Rightarrow> bool) \<Rightarrow> ('a \<Rightarrow> bool) \<Rightarrow> c_error + 'a \<Rightarrow> bool" where
  "or_oom avail P r \<longleftrightarrow> (case r of Inl e \<Rightarrow> e = Out_Of_Memory \<and> (\<exists>n. \<not> avail n) | Inr x \<Rightarrow> P x)"

lemma or_oom_simps [simp]: "or_oom avail P (Inr x) = P x" "or_oom avail P (Inl e) = (e = Out_Of_Memory \<and> (\<exists>n. \<not> avail n))"
  by (simp_all add: or_oom_def)

lemma or_oom_bind: "or_oom avail P m \<Longrightarrow> (\<And>x. P x \<Longrightarrow> or_oom avail Q (f x)) \<Longrightarrow> or_oom avail Q (rbind m f)"
  by (cases m) simp_all

lemma or_oom_mono: "or_oom avail P r \<Longrightarrow> (\<And>x. P x \<Longrightarrow> Q x) \<Longrightarrow> or_oom avail Q r"
  by (cases r) simp_all

definition adds_block :: "tf_heap \<Rightarrow> block \<Rightarrow> tf_heap \<times> nat \<Rightarrow> bool" where
  "adds_block h b = (\<lambda>(h', q). heap_ok h' \<and> hp_blocks h q = None \<and> hp_blocks h' = (hp_blocks h)(q \<mapsto> b))"

lemma size_ok: "unat sz + 8 < 2 ^ 64 \<Longrightarrow> \<not> sz + PREFIX_SIZE < (PREFIX_SIZE :: u64)"
proof -
  assume "unat sz + 8 < 2 ^ 64"
  then have "unat (sz + 8) = unat sz + 8" by (simp add: unat_word_ariths)
  then show ?thesis by (simp add: word_less_nat_alt)
qed

lemma alloc_adds:
  assumes "heap_ok h" "unat sz + 8 < 2 ^ 64"
  shows "or_oom avail (adds_block h \<lparr>bk_size = sz, bk_data = replicate (unat sz) None\<rparr>) (tf_alloc avail sz h)"
proof (cases "tf_alloc avail sz h")
  case (Inl e)
  then show ?thesis using size_ok [OF assms(2)] by (auto simp: tf_alloc_def new_block_def split: if_splits)
next
  case (Inr r)
  obtain h' q where r: "r = (h', q)" by force
  have ok: "heap_ok h'" using alloc_ok [of avail sz h h' q] Inr assms(1) r by simp
  have "q = hp_next h" "hp_blocks h' = (hp_blocks h)(q \<mapsto> \<lparr>bk_size = sz, bk_data = replicate (unat sz) None\<rparr>)"
    using Inr r by (auto simp: tf_alloc_def new_block_def tf_malloc_stat_alloc_def split: if_splits)
  then show ?thesis using Inr r ok heap_ok_fresh [OF assms(1)] by (simp add: adds_block_def)
qed

lemma memdup_adds:
  assumes "heap_ok h" "length e < int_max"
  shows "or_oom avail (adds_block h \<lparr>bk_size = of_nat (length e) + 1, bk_data = map Some e @ [Some 0]\<rparr>)
    (tf_memdup avail (map Some e) (of_nat (length e)) h)"
proof -
  let ?sz = "of_nat (length e) :: u64"
  have sz: "unat ?sz = length e" using assms(2) by (simp add: int_max_def unsigned_of_nat take_bit_eq_mod)
  have sz1: "unat (?sz + 1) = length e + 1" using assms(2) sz by (simp add: unat_word_ariths int_max_def)
  have "unat (?sz + 1) + 8 < 2 ^ 64" using assms(2) sz1 by (simp add: int_max_def)
  note a = alloc_adds [OF assms(1) this, of avail]
  have d: "(blit (replicate (Suc (length e)) None) 0 (map Some e) :: c_error + region) = Inr (map Some e @ [None])"
    by (simp add: drop_replicate del: replicate_Suc) simp
  have w: "(wr (map Some e @ [None]) (length e) (Some 0) :: c_error + region) = Inr (map Some e @ [Some 0])"
    by (simp add: wr_def list_update_append)
  show ?thesis
  proof (cases "tf_alloc avail (?sz + 1) h")
    case (Inl err)
    then show ?thesis using a by (simp add: tf_memdup_def)
  next
    case (Inr r)
    obtain h' q where r: "r = (h', q)" by force
    then have b: "heap_ok h'" "hp_blocks h q = None"
      "hp_blocks h' = (hp_blocks h)(q \<mapsto> \<lparr>bk_size = ?sz + 1, bk_data = replicate (Suc (length e)) None\<rparr>)"
      using a Inr sz1 by (simp_all add: adds_block_def)
    let ?h = "h'\<lparr>hp_blocks := (hp_blocks h')(q \<mapsto> \<lparr>bk_size = ?sz + 1, bk_data = map Some e @ [Some 0]\<rparr>)\<rparr>"
    have m: "tf_memdup avail (map Some e) ?sz h = Inr (?h, q)"
      unfolding tf_memdup_def Inr r rbind_Inr prod.case using b(3) sz d w by (simp add: live_def)
    then have "heap_ok ?h" using memdup_ok assms(1) by blast
    then show ?thesis using m b by (simp add: adds_block_def)
  qed
qed

definition moves_block :: "tf_heap \<Rightarrow> nat \<Rightarrow> block \<Rightarrow> tf_heap \<times> nat \<Rightarrow> bool" where
  "moves_block h p b = (\<lambda>(h', q). heap_ok h' \<and> (q = p \<or> hp_blocks h q = None) \<and> hp_blocks h' = (hp_blocks h)(p := None, q \<mapsto> b))"

lemma realloc_moves:
  assumes "heap_ok h" "hp_blocks h p = Some b" "unat sz + 8 < 2 ^ 64"
  shows "or_oom avail (moves_block h p \<lparr>bk_size = sz, bk_data = resize (bk_data b) (unat sz)\<rparr>) (tf_realloc avail (Some p) sz h)"
proof (cases "tf_realloc avail (Some p) sz h")
  case (Inl e)
  then show ?thesis using size_ok [OF assms(3)] assms(2)
    by (auto simp: tf_realloc_def live_def new_block_def split: if_splits)
next
  case (Inr r)
  obtain h' q where r: "r = (h', q)" by force
  have ok: "heap_ok h'" using realloc_ok [of avail "Some p" sz h h' q] Inr assms(1) r by simp
  have "q = hp_next h" "hp_blocks h' = (hp_blocks h)(p := None, q \<mapsto> \<lparr>bk_size = sz, bk_data = resize (bk_data b) (unat sz)\<rparr>)"
    using Inr r assms(2)
    by (auto simp: tf_realloc_def live_def new_block_def tf_malloc_stat_alloc_def tf_malloc_stat_free_def split: if_splits)
  then show ?thesis using Inr r ok heap_ok_fresh [OF assms(1)] by (simp add: moves_block_def)
qed

lemma free_removes:
  assumes "heap_ok h" "hp_blocks h p = Some b"
  shows "\<exists>h'. tf_free (Some p) h = Inr h' \<and> heap_ok h' \<and> hp_blocks h' = (hp_blocks h)(p := None)"
proof -
  obtain h' where h': "tf_free (Some p) h = Inr h'" "hp_blocks h' = (hp_blocks h)(p := None)"
    using assms(2) by (simp add: tf_free_def live_def tf_malloc_stat_free_def)
  then show ?thesis using free_ok assms(1) by blast
qed

definition block_holds :: "block \<Rightarrow> byte list \<Rightarrow> bool" where
  "block_holds b e \<longleftrightarrow> length e < length (bk_data b) \<and> take (length e) (bk_data b) = map Some e \<and> bk_data b ! length e = Some 0"

section \<open>Owning a list of blocks\<close>

text \<open>The blocks \<open>ps\<close> are live and different, and the others are \<open>base\<close>.\<close>

definition owns :: "tf_heap \<Rightarrow> nat list \<Rightarrow> (nat \<Rightarrow> block option) \<Rightarrow> bool" where
  "owns h ps base \<longleftrightarrow> heap_ok h \<and> distinct ps \<and> set ps \<subseteq> dom (hp_blocks h) \<and> hp_blocks h |` (- set ps) = base"

lemma owns_nothing: "heap_ok h \<Longrightarrow> owns h [] (hp_blocks h)"
  by (simp add: owns_def restrict_map_def)

lemma owns_perm: "mset ps = mset qs \<Longrightarrow> owns h ps base = owns h qs base"
  unfolding owns_def by (metis mset_eq_imp_distinct_iff mset_eq_setD)

lemma owns_live: "owns h ps base \<Longrightarrow> p \<in> set ps \<Longrightarrow> live h p = Inr (the (hp_blocks h p))"
  by (auto simp: owns_def live_def split: option.splits)

lemma owns_alloc:
  assumes o: "owns h ps base" and sz: "unat sz + 8 < 2 ^ 64"
  shows "or_oom avail (\<lambda>(h', p). owns h' (p # ps) base \<and> hp_blocks h' p = Some \<lparr>bk_size = sz, bk_data = replicate (unat sz) None\<rparr> \<and>
    (\<forall>q \<in> set ps. hp_blocks h' q = hp_blocks h q)) (tf_alloc avail sz h)"
proof (rule or_oom_mono [OF alloc_adds [OF _ sz]])
  show "heap_ok h" using o by (simp add: owns_def)
  fix y
  assume "adds_block h \<lparr>bk_size = sz, bk_data = replicate (unat sz) None\<rparr> y"
  then obtain h' p where y: "y = (h', p)" "heap_ok h'" "hp_blocks h p = None"
    "hp_blocks h' = (hp_blocks h)(p \<mapsto> \<lparr>bk_size = sz, bk_data = replicate (unat sz) None\<rparr>)"
    by (cases y) (simp add: adds_block_def)
  have p: "p \<notin> set ps" "set (p # ps) \<subseteq> dom (hp_blocks h')" using o y(3,4) by (auto simp: owns_def)
  have "base = hp_blocks h |` (- set ps)" using o by (simp add: owns_def)
  then have r: "hp_blocks h' |` (- set (p # ps)) = base" using y(3,4) by (auto simp: restrict_map_def fun_eq_iff)
  then show "case y of (h', p) \<Rightarrow> owns h' (p # ps) base \<and> hp_blocks h' p = Some \<lparr>bk_size = sz, bk_data = replicate (unat sz) None\<rparr> \<and>
    (\<forall>q \<in> set ps. hp_blocks h' q = hp_blocks h q)"
    using o y r by (auto simp: owns_def)
qed

lemma owns_free:
  assumes o: "owns h (p # ps) base"
  shows "\<exists>h'. tf_free (Some p) h = Inr h' \<and> owns h' ps base \<and> (\<forall>q \<in> set ps. hp_blocks h' q = hp_blocks h q)"
proof -
  obtain b where b: "heap_ok h" "hp_blocks h p = Some b" using o by (auto simp: owns_def)
  from free_removes [OF this] obtain h' where "tf_free (Some p) h = Inr h'" "heap_ok h'" "hp_blocks h' = (hp_blocks h)(p := None)"
    by blast
  moreover have "p \<notin> set ps" "set ps \<subseteq> dom ((hp_blocks h)(p := None))" using o by (auto simp: owns_def)
  moreover have "base = hp_blocks h |` (- set (p # ps))" using o by (simp add: owns_def)
  then have "((hp_blocks h)(p := None)) |` (- set ps) = base" by (auto simp: restrict_map_def fun_eq_iff)
  ultimately show ?thesis using o by (intro exI [of _ h']) (auto simp: owns_def)
qed

lemma owns_fresh: "owns h ps base \<Longrightarrow> set ps \<inter> dom base = {}"
  by (auto simp: owns_def restrict_map_def split: if_splits)

section \<open>The cost of a part of the heap\<close>

text \<open>What the blocks that were handed out cost.\<close>

lemma live_cost_split:
  assumes "finite (dom m)" "distinct gs" "set gs \<subseteq> dom m"
  shows "live_cost m = live_cost (m |` (- set gs)) + sum_list (map (\<lambda>p. block_cost (the (m p))) gs)"
proof -
  have "dom m = dom (m |` (- set gs)) \<union> set gs" "dom (m |` (- set gs)) \<inter> set gs = {}" using assms(3) by auto
  then have "live_cost m = (\<Sum>p \<in> dom (m |` (- set gs)). block_cost (the (m p))) + (\<Sum>p \<in> set gs. block_cost (the (m p)))"
    unfolding live_cost_def using assms(1) by (metis finite_Un sum.union_disjoint)
  also have "(\<Sum>p \<in> dom (m |` (- set gs)). block_cost (the (m p))) = live_cost (m |` (- set gs))"
    unfolding live_cost_def by (intro sum.cong) (auto simp: restrict_map_def split: if_splits)
  also have "(\<Sum>p \<in> set gs. block_cost (the (m p))) = sum_list (map (\<lambda>p. block_cost (the (m p))) gs)"
    using assms(2) by (simp add: sum_list_distinct_conv_sum_set)
  finally show ?thesis .
qed

lemma owns_cost:
  assumes o: "owns h ps base"
  shows "tf_malloc_used_memory h = live_cost base + sum_list (map (\<lambda>p. block_cost (the (hp_blocks h p))) ps)"
  using live_cost_split [of "hp_blocks h" ps] o by (auto simp: owns_def heap_ok_def tf_malloc_used_memory_def)

end
