(* ===== verification/TF_List_Heap.thy ===== *)
theory TF_List_Heap
  imports TF_Malloc_Own TF_List_Spec
begin

text \<open>
  The array list of \<open>tf_list.c\<close> on the heap of \<open>tf_malloc.c\<close>: the object, its array and the region of every
  element are blocks, and a list is the addresses of its blocks.  Here the operations allocate, move and free;
  what they do to the contents is the specification \<open>abs_step\<close> again.  A region that is popped or removed
  belongs to the caller.  The string variants differ from the others only in taking the length from the string, and
  the start of a list is 0 in every list that the file makes.
\<close>

section \<open>The code\<close>

record heap_node =
  hn_ptr :: nat
  hn_size :: nat

record heap_list =
  hl_self :: nat
  hl_array :: nat
  hl_anum :: nat
  hl_nodes :: "heap_node list"

text \<open>\<open>sizeof(*list)\<close> and \<open>sizeof(list->array[0])\<close>.\<close>

definition LIST_SIZE :: u64 where "LIST_SIZE = 24"
definition NODE_SIZE :: u64 where "NODE_SIZE = 16"

text \<open>An access to the object and to the first \<open>k\<close> slots of its array.\<close>

definition hl_reach :: "heap_list \<Rightarrow> nat \<Rightarrow> tf_heap \<Rightarrow> c_error + unit" where
  "hl_reach l k h =
     rbind (live h (hl_self l)) (\<lambda>_.
     rbind (live h (hl_array l)) (\<lambda>b.
     if k * unat NODE_SIZE \<le> unat (bk_size b) then Inr () else Inl Out_Of_Bounds))"

definition hl_new :: "(u64 \<Rightarrow> bool) \<Rightarrow> tf_heap \<Rightarrow> heap_list heap_result" where
  "hl_new avail h =
     rbind (tf_alloc avail LIST_SIZE h) (\<lambda>(h, self).
     rbind (tf_alloc avail (NODE_SIZE * of_nat TF_LIST_UNIT) h) (\<lambda>(h, array).
     Inr (h, \<lparr>hl_self = self, hl_array = array, hl_anum = TF_LIST_UNIT, hl_nodes = []\<rparr>)))"

definition hl_grow :: "(u64 \<Rightarrow> bool) \<Rightarrow> heap_list \<Rightarrow> tf_heap \<Rightarrow> heap_list heap_result" where
  "hl_grow avail l h =
     rbind (hl_reach l 0 h) (\<lambda>_.
     if length (hl_nodes l) \<ge> hl_anum l
     then rbind (chk_int (hl_anum l + (length (hl_nodes l) + 1))) (\<lambda>a.
          rbind (tf_realloc avail (Some (hl_array l)) (of_nat a * NODE_SIZE) h) (\<lambda>(h, array).
          Inr (h, l\<lparr>hl_anum := a, hl_array := array\<rparr>)))
     else Inr (h, l))"

definition hl_node :: "(u64 \<Rightarrow> bool) \<Rightarrow> byte list \<Rightarrow> nat \<Rightarrow> tf_heap \<Rightarrow> heap_node heap_result" where
  "hl_node avail ptr sz h =
     rbind (chk_int (sz + 1)) (\<lambda>_.
     rbind (tf_memdup avail (map Some ptr) (of_nat sz) h) (\<lambda>(h, p).
     Inr (h, \<lparr>hn_ptr = p, hn_size = sz\<rparr>)))"

definition hl_insert :: "(u64 \<Rightarrow> bool) \<Rightarrow> int \<Rightarrow> byte list \<Rightarrow> heap_list \<Rightarrow> tf_heap \<Rightarrow> heap_list heap_result" where
  "hl_insert avail index ptr l h =
     (if index < 0 then Inl Assert_Fail
      else if index > int (length (hl_nodes l)) then Inr (h, l)
      else rbind (hl_grow avail l h) (\<lambda>(h, l).
           rbind (hl_reach l (length (hl_nodes l) + 1) h) (\<lambda>_.
           rbind (hl_node avail ptr (length ptr) h) (\<lambda>(h, n).
           Inr (h, l\<lparr>hl_nodes := take (nat index) (hl_nodes l) @ n # drop (nat index) (hl_nodes l)\<rparr>)))))"

definition hl_push :: "(u64 \<Rightarrow> bool) \<Rightarrow> byte list \<Rightarrow> heap_list \<Rightarrow> tf_heap \<Rightarrow> heap_list heap_result" where
  "hl_push avail ptr l h =
     rbind (hl_grow avail l h) (\<lambda>(h, l).
     rbind (hl_reach l (length (hl_nodes l) + 1) h) (\<lambda>_.
     rbind (hl_node avail ptr (length ptr) h) (\<lambda>(h, n).
     Inr (h, l\<lparr>hl_nodes := hl_nodes l @ [n]\<rparr>))))"

text \<open>The pointer that is returned is the caller's from then on.\<close>

definition hl_remove :: "int \<Rightarrow> heap_list \<Rightarrow> tf_heap \<Rightarrow> (heap_list \<times> nat option) heap_result" where
  "hl_remove index l h =
     (if index < 0 then Inl Assert_Fail
      else rbind (hl_reach l (length (hl_nodes l)) h) (\<lambda>_.
           if index \<ge> int (length (hl_nodes l)) then Inr (h, l, None)
           else Inr (h, l\<lparr>hl_nodes := take (nat index) (hl_nodes l) @ drop (Suc (nat index)) (hl_nodes l)\<rparr>,
                     Some (hn_ptr (hl_nodes l ! nat index)))))"

definition hl_pop :: "heap_list \<Rightarrow> tf_heap \<Rightarrow> (heap_list \<times> nat option) heap_result" where
  "hl_pop l h =
     rbind (hl_reach l (length (hl_nodes l)) h) (\<lambda>_.
     if length (hl_nodes l) < 1 then Inr (h, l, None)
     else Inr (h, l\<lparr>hl_nodes := butlast (hl_nodes l)\<rparr>, Some (hn_ptr (last (hl_nodes l)))))"

definition hl_store :: "nat \<Rightarrow> byte list \<Rightarrow> nat \<Rightarrow> tf_heap \<Rightarrow> c_error + tf_heap" where
  "hl_store p ptr sz h =
     rbind (live h p) (\<lambda>b.
     rbind (slice ptr 0 sz) (\<lambda>bs.
     rbind (blit (bk_data b) 0 (map Some bs)) (\<lambda>d.
     rbind (wr d sz (Some 0)) (\<lambda>d.
     Inr (h\<lparr>hp_blocks := (hp_blocks h)(p \<mapsto> b\<lparr>bk_data := d\<rparr>)\<rparr>)))))"

definition hl_over :: "(u64 \<Rightarrow> bool) \<Rightarrow> int \<Rightarrow> byte list \<Rightarrow> heap_list \<Rightarrow> tf_heap \<Rightarrow> heap_list heap_result" where
  "hl_over avail index ptr l h =
     (if index < 0 then Inl Assert_Fail
      else rbind (hl_reach l (length (hl_nodes l)) h) (\<lambda>_.
           if index \<ge> int (length (hl_nodes l)) then Inr (h, l)
           else let n = hl_nodes l ! nat index; sz = length ptr
           in rbind (if sz > hn_size n
                     then rbind (chk_int (sz + 1)) (\<lambda>k. tf_realloc avail (Some (hn_ptr n)) (of_nat k) h)
                     else Inr (h, hn_ptr n)) (\<lambda>(h, p).
              rbind (hl_store p ptr sz h) (\<lambda>h.
              Inr (h, l\<lparr>hl_nodes := (hl_nodes l)[nat index := \<lparr>hn_ptr = p, hn_size = sz\<rparr>]\<rparr>)))))"

text \<open>Sorting moves the nodes; the comparator reads the blocks.\<close>

definition node_cmp :: "tf_heap \<Rightarrow> heap_node \<Rightarrow> heap_node \<Rightarrow> c_error + int" where
  "node_cmp h a b =
     rbind (live h (hn_ptr a)) (\<lambda>ba.
     rbind (live h (hn_ptr b)) (\<lambda>bb.
     tf_list_elemcmp \<lparr>n_ptr = bk_data ba, n_size = hn_size a\<rparr> \<lparr>n_ptr = bk_data bb, n_size = hn_size b\<rparr>))"

definition hl_sort :: "heap_list \<Rightarrow> tf_heap \<Rightarrow> heap_list heap_result" where
  "hl_sort l h =
     rbind (hl_reach l (length (hl_nodes l)) h) (\<lambda>_.
     rbind (c_qsort (node_cmp h) (hl_nodes l)) (\<lambda>ns. Inr (h, l\<lparr>hl_nodes := ns\<rparr>)))"

fun free_nodes :: "heap_node list \<Rightarrow> tf_heap \<Rightarrow> c_error + tf_heap" where
  "free_nodes [] h = Inr h"
| "free_nodes (n # ns) h = rbind (tf_free (Some (hn_ptr n)) h) (free_nodes ns)"

definition hl_clear :: "heap_list \<Rightarrow> tf_heap \<Rightarrow> heap_list heap_result" where
  "hl_clear l h =
     rbind (hl_reach l (length (hl_nodes l)) h) (\<lambda>_.
     rbind (free_nodes (hl_nodes l) h) (\<lambda>h. Inr (h, l\<lparr>hl_nodes := []\<rparr>)))"

definition tf_list_del :: "heap_list \<Rightarrow> tf_heap \<Rightarrow> c_error + tf_heap" where
  "tf_list_del l h =
     rbind (hl_reach l (length (hl_nodes l)) h) (\<lambda>_.
     rbind (free_nodes (hl_nodes l) h) (\<lambda>h.
     rbind (tf_free (Some (hl_array l)) h) (\<lambda>h.
     tf_free (Some (hl_self l)) h)))"

text \<open>The operations that touch the memory, and the life of a list: the caller keeps what is handed out.\<close>

datatype own_op = Own_Push "byte list" | Own_Insert int "byte list" | Own_Remove int | Own_Pop | Own_Over int "byte list" | Own_Sort | Own_Clear

definition own_step :: "(u64 \<Rightarrow> bool) \<Rightarrow> own_op \<Rightarrow> heap_list \<Rightarrow> tf_heap \<Rightarrow> (heap_list \<times> nat option) heap_result" where
  "own_step avail c l h = (case c of
     Own_Push e \<Rightarrow> rbind (hl_push avail e l h) (\<lambda>(h, l). Inr (h, l, None))
   | Own_Insert i e \<Rightarrow> rbind (hl_insert avail i e l h) (\<lambda>(h, l). Inr (h, l, None))
   | Own_Remove i \<Rightarrow> hl_remove i l h
   | Own_Pop \<Rightarrow> hl_pop l h
   | Own_Over i e \<Rightarrow> rbind (hl_over avail i e l h) (\<lambda>(h, l). Inr (h, l, None))
   | Own_Sort \<Rightarrow> rbind (hl_sort l h) (\<lambda>(h, l). Inr (h, l, None))
   | Own_Clear \<Rightarrow> rbind (hl_clear l h) (\<lambda>(h, l). Inr (h, l, None)))"

fun own_run :: "(u64 \<Rightarrow> bool) \<Rightarrow> own_op list \<Rightarrow> heap_list \<Rightarrow> tf_heap \<Rightarrow> (heap_list \<times> nat list) heap_result" where
  "own_run avail [] l h = Inr (h, l, [])"
| "own_run avail (c # cs) l h =
     rbind (own_step avail c l h) (\<lambda>(h, l, g).
     rbind (own_run avail cs l h) (\<lambda>(h, l, gs).
     Inr (h, l, (case g of None \<Rightarrow> gs | Some p \<Rightarrow> p # gs))))"

definition list_life :: "(u64 \<Rightarrow> bool) \<Rightarrow> own_op list \<Rightarrow> tf_heap \<Rightarrow> (nat list) heap_result" where
  "list_life avail cs h =
     rbind (hl_new avail h) (\<lambda>(h, l).
     rbind (own_run avail cs l h) (\<lambda>(h, l, gs).
     rbind (tf_list_del l h) (\<lambda>h. Inr (h, gs))))"

section \<open>What a list owns\<close>

definition owned :: "heap_list \<Rightarrow> nat list" where
  "owned l = hl_self l # hl_array l # map hn_ptr (hl_nodes l)"

text \<open>The blocks of everybody else.\<close>

definition outside :: "tf_heap \<Rightarrow> heap_list \<Rightarrow> nat \<Rightarrow> block option" where
  "outside h l = hp_blocks h |` (- set (owned l))"

definition node_holds :: "tf_heap \<Rightarrow> heap_node \<Rightarrow> byte list \<Rightarrow> bool" where
  "node_holds h n e \<longleftrightarrow> hn_size n = length e \<and> (\<exists>b. hp_blocks h (hn_ptr n) = Some b \<and> block_holds b e)"

definition hl_ok :: "tf_heap \<Rightarrow> heap_list \<Rightarrow> byte list list \<Rightarrow> bool" where
  "hl_ok h l es \<longleftrightarrow> heap_ok h \<and> distinct (owned l) \<and> hp_blocks h (hl_self l) \<noteq> None \<and>
     (\<exists>b. hp_blocks h (hl_array l) = Some b \<and> hl_anum l * 16 \<le> unat (bk_size b)) \<and>
     length (hl_nodes l) \<le> hl_anum l \<and> list_all2 (node_holds h) (hl_nodes l) es"

lemma hl_okD:
  assumes "hl_ok h l es"
  shows "heap_ok h" "distinct (owned l)" "list_all2 (node_holds h) (hl_nodes l) es" "length (hl_nodes l) = length es"
    "length (hl_nodes l) \<le> hl_anum l"
  using assms by (auto simp: hl_ok_def dest: list_all2_lengthD)

lemma holds_cong:
  "list_all2 (node_holds h) ns es \<Longrightarrow> (\<And>n. n \<in> set ns \<Longrightarrow> hp_blocks h' (hn_ptr n) = hp_blocks h (hn_ptr n)) \<Longrightarrow>
   list_all2 (node_holds h') ns es"
  by (simp add: list_all2_conv_all_nth node_holds_def)

lemma holds_live: "list_all2 (node_holds h) ns es \<Longrightarrow> n \<in> set ns \<Longrightarrow> \<exists>b. hp_blocks h (hn_ptr n) = Some b"
  by (induction rule: list_all2_induct) (auto simp: node_holds_def)

lemma owned_live: "hl_ok h l es \<Longrightarrow> p \<in> set (owned l) \<Longrightarrow> hp_blocks h p \<noteq> None"
  by (auto simp: hl_ok_def owned_def dest: holds_live)

lemma node_ptr:
  assumes "distinct (owned l)" "n \<in> set (hl_nodes l)"
  shows "hn_ptr n \<in> set (owned l)" "hn_ptr n \<noteq> hl_self l" "hn_ptr n \<noteq> hl_array l"
proof -
  have "hn_ptr n \<in> set (map hn_ptr (hl_nodes l))" using assms(2) by simp
  then show "hn_ptr n \<in> set (owned l)" "hn_ptr n \<noteq> hl_self l" "hn_ptr n \<noteq> hl_array l"
    using assms(1) unfolding owned_def by (metis list.set_intros distinct.simps(2))+
qed

lemma hl_reach_ok: "hl_ok h l es \<Longrightarrow> k \<le> hl_anum l \<Longrightarrow> hl_reach l k h = Inr ()"
  by (auto simp: hl_ok_def hl_reach_def live_def NODE_SIZE_def)

lemma hl_new_ok:
  assumes "heap_ok h"
  shows "or_oom avail (\<lambda>(h', l). hl_ok h' l [] \<and> outside h' l = hp_blocks h \<and> hl_nodes l = []) (hl_new avail h)"
  unfolding hl_new_def
proof (rule or_oom_bind [OF alloc_adds [OF assms]])
  show "unat LIST_SIZE + 8 < 2 ^ 64" by (simp add: LIST_SIZE_def)
  fix x
  assume x: "adds_block h \<lparr>bk_size = LIST_SIZE, bk_data = replicate (unat LIST_SIZE) None\<rparr> x"
  obtain h1 p where hp: "x = (h1, p)" by force
  have sz: "unat (NODE_SIZE * of_nat TF_LIST_UNIT) = 1024" by (simp add: NODE_SIZE_def TF_LIST_UNIT_def)
  have ok1: "heap_ok h1" using x hp by (simp add: adds_block_def)
  have "or_oom avail (\<lambda>(h', l). hl_ok h' l [] \<and> outside h' l = hp_blocks h \<and> hl_nodes l = [])
    (rbind (tf_alloc avail (NODE_SIZE * of_nat TF_LIST_UNIT) h1)
       (\<lambda>(h, array). Inr (h, \<lparr>hl_self = p, hl_array = array, hl_anum = TF_LIST_UNIT, hl_nodes = []\<rparr>)))"
  proof (rule or_oom_bind [OF alloc_adds [OF ok1]])
    show "unat (NODE_SIZE * of_nat TF_LIST_UNIT) + 8 < 2 ^ 64" by (simp only: sz) simp
    fix y
    assume y: "adds_block h1 \<lparr>bk_size = NODE_SIZE * of_nat TF_LIST_UNIT,
      bk_data = replicate (unat (NODE_SIZE * of_nat TF_LIST_UNIT)) None\<rparr> y"
    obtain h2 q where "y = (h2, q)" by force
    then show "or_oom avail (\<lambda>(h', l). hl_ok h' l [] \<and> outside h' l = hp_blocks h \<and> hl_nodes l = [])
        ((\<lambda>(h, array). Inr (h, \<lparr>hl_self = p, hl_array = array, hl_anum = TF_LIST_UNIT, hl_nodes = []\<rparr>)) y)"
      using x y hp sz by (auto simp: adds_block_def hl_ok_def owned_def outside_def TF_LIST_UNIT_def restrict_map_def fun_eq_iff)
  qed
  then show "or_oom avail (\<lambda>(h', l). hl_ok h' l [] \<and> outside h' l = hp_blocks h \<and> hl_nodes l = [])
      ((\<lambda>(h, self). rbind (tf_alloc avail (NODE_SIZE * of_nat TF_LIST_UNIT) h)
         (\<lambda>(h, array). Inr (h, \<lparr>hl_self = self, hl_array = array, hl_anum = TF_LIST_UNIT, hl_nodes = []\<rparr>))) x)"
    by (simp add: hp)
qed

section \<open>The operations keep what they do not own\<close>

text \<open>A block of the list moves: the address changes in the list, and nobody else notices.\<close>

lemma move_owned:
  assumes l: "hl_ok h l es" and m: "moves_block h p b (h', q)" and p: "p \<in> set (owned l)"
    and l': "owned l' = map (\<lambda>x. if x = p then q else x) (owned l)"
  shows "distinct (owned l')" "outside h' l' = outside h l" "x \<in> set (owned l) \<Longrightarrow> x \<noteq> p \<Longrightarrow> hp_blocks h' x = hp_blocks h x"
proof -
  have q: "q = p \<or> q \<notin> set (owned l)" using owned_live [OF l, of q] m by (auto simp: moves_block_def)
  have d: "distinct (owned l)" using l by (simp add: hl_ok_def)
  have "inj_on (\<lambda>x. if x = p then q else x) (set (owned l))" using q by (auto simp: inj_on_def)
  then show "distinct (owned l')" using d by (simp add: l' distinct_map)
  have "set (owned l') = insert q (set (owned l) - {p})" using p by (auto simp: l')
  then show "outside h' l' = outside h l" using m p by (auto simp: outside_def moves_block_def restrict_map_def fun_eq_iff)
  show "x \<in> set (owned l) \<Longrightarrow> x \<noteq> p \<Longrightarrow> hp_blocks h' x = hp_blocks h x" using m q by (auto simp: moves_block_def)
qed

lemma size_of_slots: "a \<le> int_max \<Longrightarrow> unat (of_nat a * NODE_SIZE) = a * 16"
  by (simp add: NODE_SIZE_def unat_word_ariths unsigned_of_nat take_bit_eq_mod int_max_def)

lemma hl_grow_ok:
  assumes l: "hl_ok h l es" and room: "2 * (length (hl_nodes l) + 1) \<le> int_max"
  shows "or_oom avail (\<lambda>(h', l'). hl_ok h' l' es \<and> outside h' l' = outside h l \<and> hl_nodes l' = hl_nodes l \<and>
    length (hl_nodes l') < hl_anum l') (hl_grow avail l h)"
proof (cases "length (hl_nodes l) \<ge> hl_anum l")
  case False
  then show ?thesis using l hl_reach_ok [OF l, of 0] by (simp add: hl_grow_def)
next
  case True
  define a where "a = hl_anum l + (length (hl_nodes l) + 1)"
  have a: "a \<le> int_max" using room True by (simp add: a_def)
  obtain b where b: "hp_blocks h (hl_array l) = Some b" using l by (auto simp: hl_ok_def)
  let ?sz = "of_nat a * NODE_SIZE"
  have sz: "unat ?sz = a * 16" "unat ?sz + 8 < 2 ^ 64" using size_of_slots [OF a] a by (simp_all add: int_max_def)
  have g: "hl_grow avail l h = rbind (tf_realloc avail (Some (hl_array l)) ?sz h)
      (\<lambda>(h, array). Inr (h, l\<lparr>hl_anum := a, hl_array := array\<rparr>))"
    using True hl_reach_ok [OF l, of 0] a by (simp add: hl_grow_def a_def)
  show ?thesis unfolding g
  proof (rule or_oom_bind [OF realloc_moves [OF hl_okD(1) [OF l] b sz(2)]], clarsimp simp del: or_oom_simps)
    fix h' q
    let ?l = "l\<lparr>hl_anum := a, hl_array := q\<rparr>"
    assume m: "moves_block h (hl_array l) \<lparr>bk_size = ?sz, bk_data = resize (bk_data b) (unat ?sz)\<rparr> (h', q)"
    have d: "distinct (owned l)" using l by (simp add: hl_ok_def)
    then have na: "hl_array l \<notin> set (map hn_ptr (hl_nodes l))" unfolding owned_def by simp
    then have "p \<noteq> hl_array l" if "p \<in> set (map hn_ptr (hl_nodes l))" for p using that by blast
    then have "map (\<lambda>x. if x = hl_array l then q else x) (map hn_ptr (hl_nodes l)) = map hn_ptr (hl_nodes l)"
      by (intro map_idI) auto
    then have o: "owned ?l = map (\<lambda>x. if x = hl_array l then q else x) (owned l)" using d by (simp add: owned_def)
    note mv = move_owned [OF l m _ o]
    have "list_all2 (node_holds h') (hl_nodes l) es"
      by (rule holds_cong [OF hl_okD(3) [OF l]]) (simp add: mv(3) node_ptr [OF d] owned_def)
    moreover have "hp_blocks h' (hl_self l) \<noteq> None" using mv(3) [of "hl_self l"] d l by (auto simp: owned_def hl_ok_def)
    moreover have "heap_ok h'" "hp_blocks h' q = Some \<lparr>bk_size = ?sz, bk_data = resize (bk_data b) (unat ?sz)\<rparr>"
      using m by (simp_all add: moves_block_def)
    ultimately show "or_oom avail (\<lambda>(h', l'). hl_ok h' l' es \<and> outside h' l' = outside h l \<and> hl_nodes l' = hl_nodes l \<and>
        length (hl_nodes l') < hl_anum l') (Inr (h', ?l))"
      using mv(1,2) sz hl_okD(5) [OF l] by (auto simp: hl_ok_def owned_def a_def)
  qed
qed

text \<open>A new node, and putting it into the list.\<close>

definition new_node :: "tf_heap \<Rightarrow> byte list \<Rightarrow> tf_heap \<times> heap_node \<Rightarrow> bool" where
  "new_node h e = (\<lambda>(h', n). heap_ok h' \<and> hp_blocks h (hn_ptr n) = None \<and> hn_size n = length e \<and>
     (\<exists>b. hp_blocks h' = (hp_blocks h)(hn_ptr n \<mapsto> b) \<and> block_holds b e))"

lemma block_holds_new: "block_holds \<lparr>bk_size = n, bk_data = map Some e @ [Some 0]\<rparr> e"
  by (simp add: block_holds_def nth_append)

lemma hl_node_ok:
  assumes "heap_ok h" "length e < int_max"
  shows "or_oom avail (new_node h e) (hl_node avail e (length e) h)"
proof -
  have c: "chk_int (length e + 1) = Inr (length e + 1)" using assms(2) by (intro chk_int_ok) simp
  show ?thesis unfolding hl_node_def c rbind_Inr
    by (rule or_oom_bind [OF memdup_adds [OF assms]])
      (use block_holds_new in \<open>fastforce simp: adds_block_def new_node_def\<close>)
qed

lemma add_node:
  fixes i :: nat
  assumes l: "hl_ok h l es" and n: "new_node h e (h', n)" and i: "length (hl_nodes l) < hl_anum l"
  defines "l' \<equiv> l\<lparr>hl_nodes := take i (hl_nodes l) @ n # drop i (hl_nodes l)\<rparr>"
  shows "hl_ok h' l' (take i es @ e # drop i es)" "outside h' l' = outside h l"
proof -
  obtain b where b: "hp_blocks h' = (hp_blocks h)(hn_ptr n \<mapsto> b)" "block_holds b e" "hp_blocks h (hn_ptr n) = None"
      "heap_ok h'" "hn_size n = length e"
    using n by (auto simp: new_node_def)
  have fresh: "hn_ptr n \<notin> set (owned l)" using owned_live [OF l, of "hn_ptr n"] b(3) by auto
  have perm: "mset (hl_nodes l') = add_mset n (mset (hl_nodes l))"
    by (simp add: l'_def) (metis append_take_drop_id mset_append)
  have own2: "mset (owned l') = mset (hn_ptr n # owned l)"
  proof -
    have "hl_self l' = hl_self l" "hl_array l' = hl_array l" by (simp_all add: l'_def)
    then show ?thesis using perm by (simp add: owned_def)
  qed
  have own: "set (owned l') = insert (hn_ptr n) (set (owned l))" using mset_eq_setD [OF own2] by simp
  have d: "distinct (owned l')" using fresh hl_okD(2) [OF l] own2 by (metis distinct.simps(2) mset_eq_imp_distinct_iff)
  have "hn_ptr m \<noteq> hn_ptr n" if "m \<in> set (hl_nodes l)" for m
    using node_ptr(1) [OF hl_okD(2) [OF l] that] fresh by metis
  then have h: "list_all2 (node_holds h') (hl_nodes l) es"
    by (intro holds_cong [OF hl_okD(3) [OF l]]) (simp add: b(1))
  have "list_all2 (node_holds h') (hl_nodes l') (take i es @ e # drop i es)" unfolding l'_def using h b
    by (auto simp: node_holds_def intro!: list_all2_appendI list_all2_takeI list_all2_dropI)
  then show "hl_ok h' l' (take i es @ e # drop i es)" using l b d i fresh
    by (auto simp: hl_ok_def l'_def owned_def)
  show "outside h' l' = outside h l" using own b(1,3) fresh by (auto simp: outside_def restrict_map_def fun_eq_iff)
qed

lemma hl_insert_ok:
  assumes l: "hl_ok h l es" and room: "2 * (length (hl_nodes l) + 1) \<le> int_max" and e: "length e < int_max" and i: "0 \<le> i"
  shows "or_oom avail (\<lambda>(h', l'). hl_ok h' l' (if i \<le> int (length es) then take (nat i) es @ e # drop (nat i) es else es) \<and>
    outside h' l' = outside h l) (hl_insert avail i e l h)"
proof (cases "i > int (length (hl_nodes l))")
  case True
  then show ?thesis using l hl_okD(4) [OF l] i by (simp add: hl_insert_def)
next
  case False
  have r: "hl_insert avail i e l h = rbind (hl_grow avail l h) (\<lambda>(h, l).
           rbind (hl_reach l (length (hl_nodes l) + 1) h) (\<lambda>_.
           rbind (hl_node avail e (length e) h) (\<lambda>(h, n).
           Inr (h, l\<lparr>hl_nodes := take (nat i) (hl_nodes l) @ n # drop (nat i) (hl_nodes l)\<rparr>))))"
    using False i by (simp add: hl_insert_def)
  show ?thesis unfolding r
  proof (rule or_oom_bind [OF hl_grow_ok [OF l room]], clarify)
    fix h1 l1
    assume g: "hl_ok h1 l1 es" "outside h1 l1 = outside h l" "hl_nodes l1 = hl_nodes l" "length (hl_nodes l1) < hl_anum l1"
    have r: "hl_reach l1 (length (hl_nodes l1) + 1) h1 = Inr ()" using hl_reach_ok [OF g(1)] g(4) by simp
    show "or_oom avail (\<lambda>(h', l'). hl_ok h' l' (if i \<le> int (length es) then take (nat i) es @ e # drop (nat i) es else es) \<and>
        outside h' l' = outside h l)
      (rbind (hl_reach l1 (length (hl_nodes l1) + 1) h1) (\<lambda>_. rbind (hl_node avail e (length e) h1)
         (\<lambda>(h, n). Inr (h, l1\<lparr>hl_nodes := take (nat i) (hl_nodes l1) @ n # drop (nat i) (hl_nodes l1)\<rparr>))))"
      unfolding r rbind_Inr
    proof (rule or_oom_bind [OF hl_node_ok [OF hl_okD(1) [OF g(1)] e]], clarify)
      fix h2 n
      assume n: "new_node h1 e (h2, n)"
      show "or_oom avail (\<lambda>(h', l'). hl_ok h' l' (if i \<le> int (length es) then take (nat i) es @ e # drop (nat i) es else es) \<and>
          outside h' l' = outside h l) (Inr (h2, l1\<lparr>hl_nodes := take (nat i) (hl_nodes l1) @ n # drop (nat i) (hl_nodes l1)\<rparr>))"
        using add_node [OF g(1) n g(4), of "nat i"] g(2) False hl_okD(4) [OF l] by simp
    qed
  qed
qed

text \<open>Pushing is inserting behind the last element.\<close>

lemma hl_push_insert: "hl_push avail e l h = hl_insert avail (int (length (hl_nodes l))) e l h"
proof -
  have "hl_grow avail l h = Inr (h1, l1) \<Longrightarrow> hl_nodes l1 = hl_nodes l" for h1 l1
    by (auto simp: hl_grow_def rbind_eq_Inr split: if_splits)
  then show ?thesis
    by (cases "hl_grow avail l h") (auto simp: hl_push_def hl_insert_def split: prod.split)
qed

lemma hl_push_ok:
  assumes "hl_ok h l es" "2 * (length (hl_nodes l) + 1) \<le> int_max" "length e < int_max"
  shows "or_oom avail (\<lambda>(h', l'). hl_ok h' l' (es @ [e]) \<and> outside h' l' = outside h l) (hl_push avail e l h)"
  using hl_insert_ok [OF assms, of "int (length es)" avail] hl_okD(4) [OF assms(1)] by (simp add: hl_push_insert)

text \<open>A block that leaves the list is somebody else's now, with the contents of its element.\<close>

definition hands_out :: "tf_heap \<Rightarrow> heap_list \<Rightarrow> byte list \<Rightarrow> tf_heap \<Rightarrow> heap_list \<Rightarrow> nat \<Rightarrow> bool" where
  "hands_out h l e h' l' p \<longleftrightarrow> (\<exists>b. p \<in> set (owned l) \<and> outside h l p = None \<and> outside h' l' = (outside h l)(p \<mapsto> b) \<and> block_holds b e)"

lemma take_node:
  assumes l: "hl_ok h l es" and i: "i < length es"
  defines "l' \<equiv> l\<lparr>hl_nodes := take i (hl_nodes l) @ drop (Suc i) (hl_nodes l)\<rparr>"
  shows "hl_ok h l' (take i es @ drop (Suc i) es)" "hands_out h l (es ! i) h l' (hn_ptr (hl_nodes l ! i))"
proof -
  let ?n = "hl_nodes l ! i"
  have i': "i < length (hl_nodes l)" using i hl_okD(4) [OF l] by simp
  have n: "node_holds h ?n (es ! i)" using list_all2_nthD [OF hl_okD(3) [OF l] i'] .
  then obtain b where b: "hp_blocks h (hn_ptr ?n) = Some b" "block_holds b (es ! i)" by (auto simp: node_holds_def)
  have split: "hl_nodes l = take i (hl_nodes l) @ ?n # drop (Suc i) (hl_nodes l)" using i' by (rule id_take_nth_drop)
  have "mset (hl_nodes l) = add_mset ?n (mset (hl_nodes l'))"
    by (subst split) (simp add: l'_def)
  then have m: "mset (owned l) = add_mset (hn_ptr ?n) (mset (owned l'))" by (simp add: owned_def l'_def)
  then have "distinct (hn_ptr ?n # owned l')" using hl_okD(2) [OF l] by (metis mset.simps(2) mset_eq_imp_distinct_iff)
  then have d: "distinct (owned l')" "hn_ptr ?n \<notin> set (owned l')" by simp_all
  have own: "set (owned l) = insert (hn_ptr ?n) (set (owned l'))" using m by (metis mset.simps(2) mset_eq_setD list.simps(15))
  have "list_all2 (node_holds h) (hl_nodes l') (take i es @ drop (Suc i) es)" unfolding l'_def using hl_okD(3) [OF l]
    by (auto intro!: list_all2_appendI list_all2_takeI list_all2_dropI)
  then show "hl_ok h l' (take i es @ drop (Suc i) es)" using l d(1) by (auto simp: hl_ok_def l'_def)
  have "outside h l' = (outside h l)(hn_ptr ?n \<mapsto> b)" "outside h l (hn_ptr ?n) = None"
    using own b(1) d(2) by (auto simp: outside_def restrict_map_def fun_eq_iff)
  then show "hands_out h l (es ! i) h l' (hn_ptr ?n)" using b(2) own by (auto simp: hands_out_def)
qed

lemma hl_remove_ok:
  assumes l: "hl_ok h l es" and i: "0 \<le> i"
  shows "\<exists>l' g. hl_remove i l h = Inr (h, l', g) \<and> hl_ok h l' (fst (abs_step es (Remove i))) \<and>
    (case g of None \<Rightarrow> abs_elem es i = None \<and> outside h l' = outside h l
     | Some p \<Rightarrow> \<exists>e. abs_elem es i = Some e \<and> hands_out h l e h l' p)"
proof (cases "i < int (length es)")
  case True
  then have "nat i < length es" using i by linarith
  from take_node [OF l this] show ?thesis using True i l hl_reach_ok [OF l hl_okD(5) [OF l]] hl_okD(4) [OF l]
    by (intro exI [of _ "l\<lparr>hl_nodes := take (nat i) (hl_nodes l) @ drop (Suc (nat i)) (hl_nodes l)\<rparr>"]
        exI [of _ "Some (hn_ptr (hl_nodes l ! nat i))"]) (simp add: hl_remove_def abs_elem_def)
qed (use l i hl_reach_ok [OF l hl_okD(5) [OF l]] hl_okD(4) [OF l] in \<open>simp add: hl_remove_def abs_elem_def\<close>)

lemma hl_pop_remove: "hl_nodes l \<noteq> [] \<Longrightarrow> hl_pop l h = hl_remove (int (length (hl_nodes l)) - 1) l h"
proof -
  assume n: "hl_nodes l \<noteq> []"
  then have i: "nat (int (length (hl_nodes l)) - 1) = length (hl_nodes l) - 1" "\<not> int (length (hl_nodes l)) - 1 < 0"
    by (cases "hl_nodes l"; simp)+
  show ?thesis using n i by (simp add: hl_pop_def hl_remove_def butlast_conv_take last_conv_nth)
qed

lemma hl_pop_ok:
  assumes l: "hl_ok h l es"
  shows "\<exists>l' g. hl_pop l h = Inr (h, l', g) \<and> hl_ok h l' (butlast es) \<and>
    (case g of None \<Rightarrow> es = [] \<and> outside h l' = outside h l | Some p \<Rightarrow> es \<noteq> [] \<and> hands_out h l (last es) h l' p)"
proof (cases "es = []")
  case True
  then show ?thesis using l hl_reach_ok [OF l, of 0] hl_okD(4) [OF l] by (simp add: hl_pop_def)
next
  case False
  then have n: "hl_nodes l \<noteq> []" "0 \<le> int (length es) - 1" using hl_okD(4) [OF l] by (cases "hl_nodes l"; cases es; simp)+
  have e: "abs_elem es (int (length es) - 1) = Some (last es)" "fst (abs_step es (Remove (int (length es) - 1))) = butlast es"
    using False by (simp_all add: abs_elem_def last_conv_nth butlast_conv_take nat_diff_distrib')
  show ?thesis using hl_remove_ok [OF l n(2)] False hl_okD(4) [OF l] unfolding hl_pop_remove [OF n(1)] e
    by (auto split: option.splits)
qed

text \<open>Overwriting: the region moves when it is too small, and is filled again.\<close>

lemma map_subst_update:
  "distinct xs \<Longrightarrow> i < length xs \<Longrightarrow> map (\<lambda>x. if x = xs ! i then q else x) xs = xs[i := q]"
  by (rule nth_equalityI) (auto simp: nth_list_update nth_eq_iff_index_eq)

lemma replace_node:
  assumes l: "hl_ok h l es" and i: "i < length es" and m: "moves_block h (hn_ptr (hl_nodes l ! i)) b (h', q)" and b: "block_holds b e"
  defines "l' \<equiv> l\<lparr>hl_nodes := (hl_nodes l)[i := \<lparr>hn_ptr = q, hn_size = length e\<rparr>]\<rparr>"
  shows "hl_ok h' l' (es[i := e])" "outside h' l' = outside h l"
proof -
  let ?p = "hn_ptr (hl_nodes l ! i)" and ?f = "\<lambda>x. if x = hn_ptr (hl_nodes l ! i) then q else x"
  have i': "i < length (hl_nodes l)" using i hl_okD(4) [OF l] by simp
  have d: "distinct (owned l)" "distinct (map hn_ptr (hl_nodes l))" using hl_okD(2) [OF l] by (simp_all add: owned_def)
  note np = node_ptr [OF d(1) nth_mem [OF i']]
  have "map ?f (map hn_ptr (hl_nodes l)) = (map hn_ptr (hl_nodes l))[i := q]"
    using map_subst_update [OF d(2), of i q] i' by simp
  then have o: "owned l' = map ?f (owned l)" using np by (simp add: owned_def l'_def map_update)
  note mv = move_owned [OF l m np(1) o]
  have same: "hp_blocks h' (hn_ptr (hl_nodes l ! j)) = hp_blocks h (hn_ptr (hl_nodes l ! j))" if "j < length es" "j \<noteq> i" for j
  proof -
    have j: "j < length (hl_nodes l)" using that hl_okD(4) [OF l] by simp
    then have "hn_ptr (hl_nodes l ! j) \<noteq> ?p" using d(2) i' that(2) nth_eq_iff_index_eq [OF d(2), of j i] by simp
    then show ?thesis by (rule mv(3) [OF node_ptr(1) [OF d(1) nth_mem [OF j]]])
  qed
  have "hp_blocks h' q = Some b" using m by (simp add: moves_block_def)
  then have "list_all2 (node_holds h') (hl_nodes l') (es[i := e])" using hl_okD(3) [OF l] same b i'
    by (auto simp: list_all2_conv_all_nth l'_def nth_list_update node_holds_def)
  moreover have "hp_blocks h' (hl_self l) \<noteq> None" "hp_blocks h' (hl_array l) = hp_blocks h (hl_array l)"
    using mv(3) [of "hl_self l"] mv(3) [of "hl_array l"] np l by (auto simp: owned_def hl_ok_def)
  ultimately show "hl_ok h' l' (es[i := e])" using l mv(1) m by (auto simp: hl_ok_def l'_def moves_block_def)
  show "outside h' l' = outside h l" by (rule mv(2))
qed

lemma hl_store_ok:
  assumes "heap_ok h" "hp_blocks h p = Some b" "length e < length (bk_data b)"
  shows "\<exists>h' d. hl_store p e (length e) h = Inr h' \<and> heap_ok h' \<and> hp_blocks h' = (hp_blocks h)(p \<mapsto> d) \<and> block_holds d e"
proof -
  let ?data = "(map Some e @ drop (length e) (bk_data b))[length e := Some 0]"
  let ?h = "h\<lparr>hp_blocks := (hp_blocks h)(p \<mapsto> b\<lparr>bk_data := ?data\<rparr>)\<rparr>"
  have "hl_store p e (length e) h = Inr ?h" using assms(2,3) by (simp add: hl_store_def live_def)
  moreover have "heap_ok ?h" using assms(3) by (intro set_data_ok [OF assms(1,2)]) simp
  moreover have "block_holds (b\<lparr>bk_data := ?data\<rparr>) e" using assms(3) by (simp add: block_holds_def)
  ultimately show ?thesis by (intro exI [of _ ?h] exI [of _ "b\<lparr>bk_data := ?data\<rparr>"]) simp
qed

lemma hl_over_ok:
  assumes l: "hl_ok h l es" and i: "0 \<le> i" and e: "length e < int_max"
  shows "or_oom avail (\<lambda>(h', l'). hl_ok h' l' (if i < int (length es) then es[nat i := e] else es) \<and> outside h' l' = outside h l)
    (hl_over avail i e l h)"
proof (cases "i < int (length es)")
  case False
  then show ?thesis using l i hl_reach_ok [OF l hl_okD(5) [OF l]] hl_okD(4) [OF l] by (simp add: hl_over_def)
next
  case True
  then have j: "nat i < length es" using i by linarith
  let ?n = "hl_nodes l ! nat i"
  have "node_holds h ?n (es ! nat i)" using list_all2_nthD2 [OF hl_okD(3) [OF l] j] .
  then obtain b where b: "hp_blocks h (hn_ptr ?n) = Some b" "block_holds b (es ! nat i)" "hn_size ?n = length (es ! nat i)"
    by (auto simp: node_holds_def)
  let ?room = "if length e > hn_size ?n
     then rbind (chk_int (length e + 1)) (\<lambda>k. tf_realloc avail (Some (hn_ptr ?n)) (of_nat k) h) else Inr (h, hn_ptr ?n)"
  have sz: "unat (of_nat (length e + 1) :: u64) = length e + 1" "unat (of_nat (length e + 1) :: u64) + 8 < 2 ^ 64"
    using e by (simp_all add: int_max_def unsigned_of_nat take_bit_eq_mod del: of_nat_Suc of_nat_add)
  have room: "or_oom avail (\<lambda>(h1, q). \<exists>c. moves_block h (hn_ptr ?n) c (h1, q) \<and> length e < length (bk_data c)) ?room"
  proof (cases "length e > hn_size ?n")
    case True
    have c: "chk_int (length e + 1) = Inr (length e + 1)" using e by (intro chk_int_ok) simp
    let ?c = "\<lparr>bk_size = of_nat (length e + 1), bk_data = resize (bk_data b) (unat (of_nat (length e + 1) :: u64))\<rparr>"
    have "length e < length (bk_data ?c)" unfolding block.select_convs length_resize sz(1) by simp
    then show ?thesis unfolding if_P [OF True] c rbind_Inr
      by (intro or_oom_mono [OF realloc_moves [OF hl_okD(1) [OF l] b(1) sz(2)]]) blast
  next
    case False
    have "moves_block h (hn_ptr ?n) b (h, hn_ptr ?n)" using b(1) hl_okD(1) [OF l] by (auto simp: moves_block_def)
    moreover have "length e < length (bk_data b)" using b(2,3) False by (simp add: block_holds_def)
    ultimately show ?thesis using False by auto
  qed
  have o: "hl_over avail i e l h = rbind ?room (\<lambda>(h, p). rbind (hl_store p e (length e) h)
      (\<lambda>h. Inr (h, l\<lparr>hl_nodes := (hl_nodes l)[nat i := \<lparr>hn_ptr = p, hn_size = length e\<rparr>]\<rparr>)))"
    using True i hl_reach_ok [OF l hl_okD(5) [OF l]] hl_okD(4) [OF l] by (simp add: hl_over_def Let_def)
  show ?thesis unfolding o
  proof (rule or_oom_bind [OF room], clarify)
    fix h1 q c
    assume m: "moves_block h (hn_ptr ?n) c (h1, q)" "length e < length (bk_data c)"
    then have "heap_ok h1" "hp_blocks h1 q = Some c" by (simp_all add: moves_block_def)
    from hl_store_ok [OF this m(2)] obtain h2 d where h2: "hl_store q e (length e) h1 = Inr h2" "heap_ok h2"
        "hp_blocks h2 = (hp_blocks h1)(q \<mapsto> d)" "block_holds d e" by blast
    have "moves_block h (hn_ptr ?n) d (h2, q)" using m(1) h2(2,3) by (simp add: moves_block_def)
    from replace_node [OF l j this h2(4)] show "or_oom avail (\<lambda>(h', l'). hl_ok h' l' (if i < int (length es) then es[nat i := e] else es) \<and>
        outside h' l' = outside h l) (rbind (hl_store q e (length e) h1)
          (\<lambda>h. Inr (h, l\<lparr>hl_nodes := (hl_nodes l)[nat i := \<lparr>hn_ptr = q, hn_size = length e\<rparr>]\<rparr>)))"
      using h2(1) True by simp
  qed
qed

text \<open>Sorting only permutes the nodes.\<close>

definition node_view :: "tf_heap \<Rightarrow> heap_node \<Rightarrow> tf_node" where
  "node_view h n = \<lparr>n_ptr = bk_data (the (hp_blocks h (hn_ptr n))), n_size = hn_size n\<rparr>"

definition node_live :: "tf_heap \<Rightarrow> heap_node \<Rightarrow> bool" where
  "node_live h n \<longleftrightarrow> (\<exists>e. node_holds h n e)"

definition node_key :: "tf_heap \<Rightarrow> heap_node \<Rightarrow> byte list" where
  "node_key h n = node_bytes (node_view h n)"

lemma node_holds_view:
  assumes "node_holds h n e"
  shows "node_rd (node_view h n)" "node_key h n = e" "live h (hn_ptr n) = Inr (the (hp_blocks h (hn_ptr n)))"
proof -
  obtain b where b: "hp_blocks h (hn_ptr n) = Some b" "hn_size n = length e" "length e < length (bk_data b)"
      "take (length e) (bk_data b) = map Some e"
    using assms by (auto simp: node_holds_def block_holds_def)
  have "bk_data b ! i = Some (e ! i)" if "i < length e" for i
    using that b(4) by (metis nth_map nth_take)
  then show "node_rd (node_view h n)" using b by (simp add: node_rd_def node_view_def)
  show "node_key h n = e" using b by (simp add: node_key_def node_bytes_def node_view_def comp_def)
  show "live h (hn_ptr n) = Inr (the (hp_blocks h (hn_ptr n)))" using b by (simp add: live_def)
qed

interpretation heap_order: comparator "node_cmp h" "node_key h" "node_live h" for h
proof
  fix a b
  assume "node_live h a" "node_live h b"
  then obtain ea eb where "node_holds h a ea" "node_holds h b eb" by (auto simp: node_live_def)
  note a = node_holds_view [OF this(1)] and b = node_holds_view [OF this(2)]
  show "\<exists>c. node_cmp h a b = Inr c \<and> (c < 0 \<longleftrightarrow> node_key h a < node_key h b) \<and> (c = 0 \<longleftrightarrow> node_key h a = node_key h b)"
    using elemcmp_ok [OF a(1) b(1)] a(3) b(3) by (simp add: node_cmp_def node_key_def node_view_def)
qed

lemma holds_keys: "list_all2 (node_holds h) ns es \<longleftrightarrow> list_all (node_live h) ns \<and> map (node_key h) ns = es"
proof
  assume "list_all2 (node_holds h) ns es"
  then show "list_all (node_live h) ns \<and> map (node_key h) ns = es"
    by (induction rule: list_all2_induct) (auto simp: node_live_def node_holds_view)
next
  have n: "node_holds h n (node_key h n)" if "node_live h n" for n
    using that node_holds_view(2) [of h n] by (auto simp: node_live_def)
  assume "list_all (node_live h) ns \<and> map (node_key h) ns = es"
  then show "list_all2 (node_holds h) ns es"
    by (auto simp: list_all_length list_all2_conv_all_nth n)
qed

lemma hl_sort_ok:
  assumes l: "hl_ok h l es"
  shows "\<exists>l'. hl_sort l h = Inr (h, l') \<and> hl_ok h l' (sort es) \<and> outside h l' = outside h l"
proof -
  have k: "list_all (node_live h) (hl_nodes l)" "map (node_key h) (hl_nodes l) = es"
    using hl_okD(3) [OF l] by (simp_all add: holds_keys)
  obtain ns where ns: "c_qsort (node_cmp h) (hl_nodes l) = Inr ns" "mset ns = mset (hl_nodes l)" "sorted (map (node_key h) ns)"
    using heap_order.c_qsort_ok [OF k(1)] by blast
  let ?l = "l\<lparr>hl_nodes := ns\<rparr>"
  have "mset (map (node_key h) ns) = mset es" using ns(2) k(2) by (metis mset_map)
  then have "map (node_key h) ns = sort es" using ns(3) by (intro properties_for_sort [symmetric])
  moreover have "list_all (node_live h) ns" using k(1) mset_eq_setD [OF ns(2)] by (simp add: list_all_iff)
  ultimately have "list_all2 (node_holds h) ns (sort es)" by (simp add: holds_keys)
  moreover have own: "mset (owned ?l) = mset (owned l)" using ns(2) by (simp add: owned_def)
  then have "distinct (owned ?l)" using hl_okD(2) [OF l] mset_eq_imp_distinct_iff by blast
  moreover have "length ns = length (hl_nodes l)" using ns(2) by (rule mset_eq_length)
  ultimately have "hl_ok h ?l (sort es)" using l by (auto simp: hl_ok_def)
  then show ?thesis using ns(1) hl_reach_ok [OF l hl_okD(5) [OF l]] mset_eq_setD [OF own]
    by (intro exI [of _ ?l]) (simp add: hl_sort_def outside_def)
qed

section \<open>Clearing and deleting\<close>

lemma free_nodes_ok:
  "heap_ok h \<Longrightarrow> distinct (map hn_ptr ns) \<Longrightarrow> (\<And>n. n \<in> set ns \<Longrightarrow> hp_blocks h (hn_ptr n) \<noteq> None) \<Longrightarrow>
   \<exists>h'. free_nodes ns h = Inr h' \<and> heap_ok h' \<and> hp_blocks h' = hp_blocks h |` (- set (map hn_ptr ns))"
proof (induction ns arbitrary: h)
  case Nil
  then show ?case by simp
next
  case (Cons n ns)
  obtain b where "hp_blocks h (hn_ptr n) = Some b" using Cons.prems(3) by fastforce
  from free_removes [OF Cons.prems(1) this] obtain h1 where h1: "tf_free (Some (hn_ptr n)) h = Inr h1" "heap_ok h1"
      "hp_blocks h1 = (hp_blocks h)(hn_ptr n := None)" by blast
  have "hp_blocks h1 (hn_ptr m) \<noteq> None" if "m \<in> set ns" for m
  proof -
    have "hn_ptr m \<noteq> hn_ptr n" using Cons.prems(2) that by (metis distinct.simps(2) image_eqI list.set_map list.simps(9))
    then show ?thesis using Cons.prems(3) [of m] that h1(3) by simp
  qed
  then obtain h2 where "free_nodes ns h1 = Inr h2" "heap_ok h2" "hp_blocks h2 = hp_blocks h1 |` (- set (map hn_ptr ns))"
    using Cons.IH [OF h1(2)] Cons.prems(2) by auto
  then show ?case using h1 by (intro exI [of _ h2]) (auto simp: restrict_map_def fun_eq_iff)
qed

lemma free_list_nodes:
  assumes l: "hl_ok h l es"
  shows "\<exists>h'. free_nodes (hl_nodes l) h = Inr h' \<and> heap_ok h' \<and> hp_blocks h' = hp_blocks h |` (- set (map hn_ptr (hl_nodes l))) \<and>
    hp_blocks h' (hl_self l) = hp_blocks h (hl_self l) \<and> hp_blocks h' (hl_array l) = hp_blocks h (hl_array l)"
proof -
  have d: "distinct (map hn_ptr (hl_nodes l))" "hl_self l \<notin> set (map hn_ptr (hl_nodes l))" "hl_array l \<notin> set (map hn_ptr (hl_nodes l))"
    using hl_okD(2) [OF l] by (simp_all add: owned_def)
  have "hp_blocks h (hn_ptr n) \<noteq> None" if "n \<in> set (hl_nodes l)" for n using holds_live [OF hl_okD(3) [OF l] that] by simp
  from free_nodes_ok [OF hl_okD(1) [OF l] d(1) this] show ?thesis using d(2,3) by (auto simp: restrict_map_def)
qed

lemma hl_clear_ok:
  assumes l: "hl_ok h l es"
  shows "\<exists>h' l'. hl_clear l h = Inr (h', l') \<and> hl_ok h' l' [] \<and> outside h' l' = outside h l"
proof -
  obtain h' where h': "free_nodes (hl_nodes l) h = Inr h'" "heap_ok h'" "hp_blocks h' = hp_blocks h |` (- set (map hn_ptr (hl_nodes l)))"
      "hp_blocks h' (hl_self l) = hp_blocks h (hl_self l)" "hp_blocks h' (hl_array l) = hp_blocks h (hl_array l)"
    using free_list_nodes [OF l] by blast
  let ?l = "l\<lparr>hl_nodes := []\<rparr>"
  have "outside h' ?l = outside h l" by (auto simp: outside_def owned_def h'(3) restrict_map_def fun_eq_iff)
  moreover have "hl_ok h' ?l []" using l h' by (simp add: hl_ok_def owned_def)
  ultimately show ?thesis using h'(1) hl_reach_ok [OF l hl_okD(5) [OF l]] by (simp add: hl_clear_def)
qed

lemma tf_list_del_ok:
  assumes l: "hl_ok h l es"
  shows "\<exists>h'. tf_list_del l h = Inr h' \<and> heap_ok h' \<and> hp_blocks h' = outside h l"
proof -
  obtain h1 where h1: "free_nodes (hl_nodes l) h = Inr h1" "heap_ok h1" "hp_blocks h1 = hp_blocks h |` (- set (map hn_ptr (hl_nodes l)))"
      "hp_blocks h1 (hl_self l) = hp_blocks h (hl_self l)" "hp_blocks h1 (hl_array l) = hp_blocks h (hl_array l)"
    using free_list_nodes [OF l] by blast
  have ne: "hl_self l \<noteq> hl_array l" using hl_okD(2) [OF l] by (simp add: owned_def)
  obtain b1 b2 where b: "hp_blocks h1 (hl_array l) = Some b1" "hp_blocks h1 (hl_self l) = Some b2"
    using l h1(4,5) by (auto simp: hl_ok_def)
  obtain h2 where h2: "tf_free (Some (hl_array l)) h1 = Inr h2" "heap_ok h2" "hp_blocks h2 = (hp_blocks h1)(hl_array l := None)"
    using free_removes [OF h1(2) b(1)] by blast
  have "hp_blocks h2 (hl_self l) = Some b2" using h2(3) b(2) ne by simp
  from free_removes [OF h2(2) this] obtain h3 where h3: "tf_free (Some (hl_self l)) h2 = Inr h3" "heap_ok h3"
      "hp_blocks h3 = (hp_blocks h2)(hl_self l := None)" by blast
  have "hp_blocks h3 = outside h l" by (auto simp: outside_def owned_def h3(3) h2(3) h1(3) restrict_map_def fun_eq_iff)
  then show ?thesis using h1(1) h2(1) h3 hl_reach_ok [OF l hl_okD(5) [OF l]] by (simp add: tf_list_del_def)
qed

section \<open>The life of a list\<close>

primrec own_abs :: "own_op \<Rightarrow> list_op" where
  "own_abs (Own_Push e) = Push e"
| "own_abs (Own_Insert i e) = Insert i e"
| "own_abs (Own_Remove i) = Remove i"
| "own_abs Own_Pop = Pop"
| "own_abs (Own_Over i e) = Over i e"
| "own_abs Own_Sort = Sort"
| "own_abs Own_Clear = Clear"

fun handed :: "abs_out \<Rightarrow> byte list option" where
  "handed (AElem e) = e"
| "handed _ = None"

text \<open>The elements that a sequence of operations hands out.\<close>

fun abs_given :: "byte list list \<Rightarrow> own_op list \<Rightarrow> byte list list" where
  "abs_given es [] = []"
| "abs_given es (c # cs) = (case abs_step es (own_abs c) of (es', out) \<Rightarrow>
     case handed out of None \<Rightarrow> abs_given es' cs | Some e \<Rightarrow> e # abs_given es' cs)"

definition step_owns :: "tf_heap \<Rightarrow> heap_list \<Rightarrow> byte list list \<Rightarrow> own_op \<Rightarrow> tf_heap \<times> heap_list \<times> nat option \<Rightarrow> bool" where
  "step_owns h l es c = (\<lambda>(h', l', g). hl_ok h' l' (fst (abs_step es (own_abs c))) \<and>
     (case g of
        None \<Rightarrow> handed (snd (abs_step es (own_abs c))) = None \<and> outside h' l' = outside h l
      | Some p \<Rightarrow> \<exists>e. handed (snd (abs_step es (own_abs c))) = Some e \<and> hands_out h l e h' l' p))"

lemma own_step_ok:
  assumes l: "hl_ok h l es" and room: "2 * (length es + 1) \<le> int_max" and c: "op_ok (own_abs c)"
  shows "or_oom avail (step_owns h l es c) (own_step avail c l h)"
proof -
  have room': "2 * (length (hl_nodes l) + 1) \<le> int_max" using room hl_okD(4) [OF l] by simp
  show ?thesis
  proof (cases c)
    case (Own_Push e)
    then show ?thesis using c
      by (simp add: own_step_def) (rule or_oom_bind [OF hl_push_ok [OF l room']], auto simp: step_owns_def)
  next
    case (Own_Insert i e)
    then show ?thesis using c
      by (simp add: own_step_def) (rule or_oom_bind [OF hl_insert_ok [OF l room', where i = i]], auto simp: step_owns_def)
  next
    case (Own_Remove i)
    then obtain l' g where "hl_remove i l h = Inr (h, l', g)" "hl_ok h l' (fst (abs_step es (Remove i)))"
      "case g of None \<Rightarrow> abs_elem es i = None \<and> outside h l' = outside h l
       | Some p \<Rightarrow> \<exists>e. abs_elem es i = Some e \<and> hands_out h l e h l' p"
      using hl_remove_ok [OF l, of i] c by auto
    then show ?thesis using Own_Remove by (cases g) (simp_all add: own_step_def step_owns_def)
  next
    case Own_Pop
    then show ?thesis using hl_pop_ok [OF l] by (auto simp: own_step_def step_owns_def split: option.splits)
  next
    case (Own_Over i e)
    then show ?thesis using c
      by (simp add: own_step_def) (rule or_oom_bind [OF hl_over_ok [OF l, where i = i]], auto simp: step_owns_def)
  next
    case Own_Sort
    then show ?thesis using hl_sort_ok [OF l] by (auto simp: own_step_def step_owns_def)
  next
    case Own_Clear
    then show ?thesis using hl_clear_ok [OF l] by (auto simp: own_step_def step_owns_def)
  qed
qed

lemma abs_step_length: "op_ok c \<Longrightarrow> length (fst (abs_step es c)) \<le> length es + 1"
  by (cases c) auto

definition run_owns :: "tf_heap \<Rightarrow> heap_list \<Rightarrow> byte list list \<Rightarrow> tf_heap \<times> heap_list \<times> nat list \<Rightarrow> bool" where
  "run_owns h l given = (\<lambda>(h', l', gs). (\<exists>es'. hl_ok h' l' es') \<and> distinct gs \<and> set gs \<inter> dom (outside h l) = {} \<and>
     outside h' l' |` (- set gs) = outside h l \<and>
     list_all2 (\<lambda>p e. \<exists>b. outside h' l' p = Some b \<and> block_holds b e) gs given)"

lemma run_owns_given:
  assumes "hands_out h l e h1 l1 p" "run_owns h1 l1 given (h', l', gs)"
  shows "run_owns h l (e # given) (h', l', p # gs)"
proof -
  obtain b where b: "outside h l p = None" "outside h1 l1 = (outside h l)(p \<mapsto> b)" "block_holds b e"
    using assms(1) by (auto simp: hands_out_def)
  have r: "\<exists>es'. hl_ok h' l' es'" "distinct gs" "set gs \<inter> dom (outside h1 l1) = {}" "outside h' l' |` (- set gs) = outside h1 l1"
    "list_all2 (\<lambda>p e. \<exists>b. outside h' l' p = Some b \<and> block_holds b e) gs given"
    using assms(2) by (simp_all add: run_owns_def)
  have p: "p \<notin> set gs" using r(3) b(2) by auto
  then have "outside h' l' p = Some b" using fun_cong [OF r(4), of p] b(2) by simp
  moreover have "outside h' l' |` (- set (p # gs)) = outside h l"
  proof
    fix x
    show "(outside h' l' |` (- set (p # gs))) x = outside h l x"
      using fun_cong [OF r(4), of x] b(1,2) by (auto simp: restrict_map_def split: if_splits)
  qed
  ultimately show ?thesis using r p b by (auto simp: run_owns_def)
qed

lemma own_run_ok:
  "hl_ok h l es \<Longrightarrow> 2 * (length es + length cs) \<le> int_max \<Longrightarrow> list_all (\<lambda>c. op_ok (own_abs c)) cs \<Longrightarrow>
   or_oom avail (run_owns h l (abs_given es cs)) (own_run avail cs l h)"
proof (induction cs arbitrary: h l es)
  case Nil
  then have "outside h l |` (- {}) = outside h l" by (simp add: restrict_map_def)
  then show ?case using Nil by (auto simp: run_owns_def)
next
  case (Cons c cs)
  have room: "2 * (length es + 1) \<le> int_max" "op_ok (own_abs c)" using Cons.prems by simp_all
  show ?case unfolding own_run.simps
  proof (rule or_oom_bind [OF own_step_ok [OF Cons.prems(1) room]], clarify)
    fix h1 l1 g
    assume s: "step_owns h l es c (h1, l1, g)"
    let ?es = "fst (abs_step es (own_abs c))"
    have "2 * (length ?es + length cs) \<le> int_max" using abs_step_length [OF room(2), of es] Cons.prems(2) by simp
    then have IH: "or_oom avail (run_owns h1 l1 (abs_given ?es cs)) (own_run avail cs l1 h1)"
      using Cons.IH [of h1 l1 ?es] s Cons.prems(3) by (simp add: step_owns_def)
    show "or_oom avail (run_owns h l (abs_given es (c # cs)))
       (rbind (own_run avail cs l1 h1) (\<lambda>(h, l, gs). Inr (h, l, case g of None \<Rightarrow> gs | Some p \<Rightarrow> p # gs)))"
    proof (rule or_oom_bind [OF IH], clarify)
      fix h' l' gs
      assume r: "run_owns h1 l1 (abs_given ?es cs) (h', l', gs)"
      show "or_oom avail (run_owns h l (abs_given es (c # cs))) (Inr (h', l', case g of None \<Rightarrow> gs | Some p \<Rightarrow> p # gs))"
      proof (cases g)
        case None
        then show ?thesis using s r by (auto simp: step_owns_def run_owns_def split: prod.split)
      next
        case (Some p)
        obtain e where "handed (snd (abs_step es (own_abs c))) = Some e" "hands_out h l e h1 l1 p"
          using s Some by (auto simp: step_owns_def)
        then show ?thesis using run_owns_given [OF _ r, of h l e p] Some by (cases "abs_step es (own_abs c)") simp
      qed
    qed
  qed
qed

lemma given_live: "list_all2 (\<lambda>p e. \<exists>b. m p = Some b \<and> block_holds b e) gs given \<Longrightarrow> set gs \<subseteq> dom m"
  by (induction rule: list_all2_induct) auto

text \<open>
  C6: A list owns its memory.  It is created, any sequence of operations is executed on it, growing its array, overwriting,
  sorting and clearing included, and it is deleted: unless an allocation fails, no access
  is outside a block or to a freed one and nothing is freed twice, and in the end the heap is exactly what it was
  before, with in addition the regions that were popped or removed; these hold the bytes that the specification
  says, and \<open>used_memory\<close> has grown by their cost.
\<close>
theorem list_owns_memory:
  assumes "heap_ok h" "2 * length cs \<le> int_max" "list_all (\<lambda>c. op_ok (own_abs c)) cs"
  shows "case list_life avail cs h of
      Inl e \<Rightarrow> e = Out_Of_Memory \<and> (\<exists>n. \<not> avail n)
    | Inr (h', gs) \<Rightarrow>
        distinct gs \<and> set gs \<inter> dom (hp_blocks h) = {} \<and> hp_blocks h' |` (- set gs) = hp_blocks h \<and>
        list_all2 (\<lambda>p e. \<exists>b. hp_blocks h' p = Some b \<and> block_holds b e) gs (abs_given [] cs) \<and>
        tf_malloc_used_memory h' = tf_malloc_used_memory h + sum_list (map (\<lambda>p. block_cost (the (hp_blocks h' p))) gs)"
proof -
  let ?P = "\<lambda>(h', gs). heap_ok h' \<and> distinct gs \<and> set gs \<inter> dom (hp_blocks h) = {} \<and> hp_blocks h' |` (- set gs) = hp_blocks h \<and>
        list_all2 (\<lambda>p e. \<exists>b. hp_blocks h' p = Some b \<and> block_holds b e) gs (abs_given [] cs)"
  have "or_oom avail ?P (list_life avail cs h)" unfolding list_life_def
  proof (rule or_oom_bind [OF hl_new_ok [OF assms(1)]], clarify)
    fix h1 l1
    assume n: "hl_ok h1 l1 []" "outside h1 l1 = hp_blocks h"
    have room: "2 * (length ([] :: byte list list) + length cs) \<le> int_max" using assms(2) by simp
    show "or_oom avail ?P (rbind (own_run avail cs l1 h1) (\<lambda>(h, l, gs). rbind (tf_list_del l h) (\<lambda>h. Inr (h, gs))))"
    proof (rule or_oom_bind [OF own_run_ok [OF n(1) room assms(3)]], clarify)
      fix h2 l2 gs
      assume r: "run_owns h1 l1 (abs_given [] cs) (h2, l2, gs)"
      then obtain es where "hl_ok h2 l2 es" by (auto simp: run_owns_def)
      from tf_list_del_ok [OF this] obtain h3 where "tf_list_del l2 h2 = Inr h3" "heap_ok h3" "hp_blocks h3 = outside h2 l2" by blast
      then show "or_oom avail ?P (rbind (tf_list_del l2 h2) (\<lambda>h. Inr (h, gs)))" using r n(2) by (simp add: run_owns_def)
    qed
  qed
  moreover have "tf_malloc_used_memory h' = tf_malloc_used_memory h + sum_list (map (\<lambda>p. block_cost (the (hp_blocks h' p))) gs)"
    if "?P (h', gs)" for h' gs
  proof -
    have "set gs \<subseteq> dom (hp_blocks h')" using that given_live by blast
    then show ?thesis using live_cost_split [of "hp_blocks h'" gs] that assms(1) by (simp add: tf_malloc_used_memory_def heap_ok_def)
  qed
  ultimately show ?thesis by (cases "list_life avail cs h") auto
qed

lemma list_owns_memory_witness:
  "\<exists>h' gs. list_life (\<lambda>_. True) [Own_Push [7, 8], Own_Insert 0 [9], Own_Over 0 [1, 2, 3], Own_Sort, Own_Pop] empty_heap = Inr (h', gs) \<and>
     dom (hp_blocks h') = set gs \<and> length gs = 1"
proof -
  let ?cs = "[Own_Push [7, 8], Own_Insert 0 [9], Own_Over 0 [1, 2, 3], Own_Sort, Own_Pop]"
  have ok: "heap_ok empty_heap" by (simp add: heap_ok_def empty_heap_def live_cost_def)
  have "2 * length ?cs \<le> int_max" "list_all (\<lambda>c. op_ok (own_abs c)) ?cs" by (simp_all add: int_max_def)
  note t = list_owns_memory [OF ok this, of "\<lambda>_. True"]
  then obtain h' gs where l: "list_life (\<lambda>_. True) ?cs empty_heap = Inr (h', gs)" by (cases "list_life (\<lambda>_. True) ?cs empty_heap") auto
  have g: "length (abs_given [] ?cs) = 1" by simp
  have r: "hp_blocks h' |` (- set gs) = hp_blocks empty_heap" "list_all2 (\<lambda>p e. \<exists>b. hp_blocks h' p = Some b \<and> block_holds b e) gs (abs_given [] ?cs)"
    using t l by auto
  have "dom (hp_blocks h' |` (- set gs)) = {}" unfolding r(1) by (simp add: empty_heap_def)
  then have "dom (hp_blocks h') \<subseteq> set gs" by auto
  moreover have "set gs \<subseteq> dom (hp_blocks h')" using r(2) by (rule given_live)
  ultimately show ?thesis using l list_all2_lengthD [OF r(2)] g by auto
qed

section \<open>The unchecked accessors\<close>

text \<open>The macros of \<open>tf_list.h\<close> read a slot without looking at the number of elements; within it they agree with \<open>tf_list_val\<close>.\<close>

definition TFLISTVAL :: "tf_list \<Rightarrow> nat \<Rightarrow> c_error + region \<times> nat" where
  "TFLISTVAL l index = rbind (rdi (l_array l) (index + l_start l)) (\<lambda>n. Inr (n_ptr n, n_size n))"

definition TFLISTVALPTR :: "tf_list \<Rightarrow> nat \<Rightarrow> c_error + region" where
  "TFLISTVALPTR l index = rbind (rdi (l_array l) (index + l_start l)) (\<lambda>n. Inr (n_ptr n))"

definition TFLISTVALSIZ :: "tf_list \<Rightarrow> nat \<Rightarrow> c_error + nat" where
  "TFLISTVALSIZ l index = rbind (rdi (l_array l) (index + l_start l)) (\<lambda>n. Inr (n_size n))"

lemma TFLISTVAL_checked:
  "i < l_num l \<Longrightarrow> tf_list_val l (int i) = rbind (TFLISTVAL l i) (\<lambda>r. Inr (Some r))"
  "TFLISTVALPTR l i = rbind (TFLISTVAL l i) (\<lambda>r. Inr (fst r))" "TFLISTVALSIZ l i = rbind (TFLISTVAL l i) (\<lambda>r. Inr (snd r))"
  by (simp_all add: tf_list_val_def TFLISTVAL_def TFLISTVALPTR_def TFLISTVALSIZ_def rbind_def split: sum.split)

end
