(* ===== verification/TF_Str_Heap.thy ===== *)
theory TF_Str_Heap
  imports TF_Malloc_Own TF_Str
begin

text \<open>
  The extensible string of \<open>tf_string.c\<close> on the heap of \<open>tf_malloc.c\<close>: the object and its buffer are blocks, and
  the bytes that are appended come from memory of the caller or from a block.  \<open>str_view\<close> forgets the addresses
  and gives the string of \<open>TF_Str\<close>; every operation here does to the view what the operation there does.
\<close>

section \<open>The code\<close>

record heap_str =
  hs_self :: nat
  hs_ptr :: nat
  hs_size :: u32
  hs_asize :: u32

text \<open>\<open>sizeof(*xstr)\<close>.\<close>

definition STR_SIZE :: u64 where "STR_SIZE = 16"

datatype mem_source = Elsewhere region | At_Block nat nat

definition read_source :: "mem_source \<Rightarrow> nat \<Rightarrow> tf_heap \<Rightarrow> c_error + region" where
  "read_source src n h = (case src of
     Elsewhere r \<Rightarrow> slice r 0 n
   | At_Block p off \<Rightarrow> rbind (live h p) (\<lambda>b. slice (bk_data b) off n))"

definition update_block :: "nat \<Rightarrow> (region \<Rightarrow> c_error + region) \<Rightarrow> tf_heap \<Rightarrow> c_error + tf_heap" where
  "update_block p f h =
     rbind (live h p) (\<lambda>b.
     rbind (f (bk_data b)) (\<lambda>d.
     Inr (h\<lparr>hp_blocks := (hp_blocks h)(p \<mapsto> b\<lparr>bk_data := d\<rparr>)\<rparr>)))"

definition hs_new3 :: "(u64 \<Rightarrow> bool) \<Rightarrow> int \<Rightarrow> tf_heap \<Rightarrow> heap_str heap_result" where
  "hs_new3 avail asiz h =
     (if asiz < 0 then Inl Assert_Fail
      else let asiz = max (nat asiz) TF_STR_UNIT
      in rbind (tf_alloc avail STR_SIZE h) (\<lambda>(h, self).
         rbind (tf_alloc avail (of_nat asiz) h) (\<lambda>(h, ptr).
         rbind (update_block ptr (\<lambda>d. wr d 0 (Some 0)) h) (\<lambda>h.
         Inr (h, \<lparr>hs_self = self, hs_ptr = ptr, hs_size = 0, hs_asize = of_nat asiz\<rparr>)))))"

definition hs_new :: "(u64 \<Rightarrow> bool) \<Rightarrow> tf_heap \<Rightarrow> heap_str heap_result" where
  "hs_new avail h =
     rbind (tf_alloc avail STR_SIZE h) (\<lambda>(h, self).
     rbind (tf_alloc avail (of_nat TF_STR_UNIT) h) (\<lambda>(h, ptr).
     rbind (update_block ptr (\<lambda>d. wr d 0 (Some 0)) h) (\<lambda>h.
     Inr (h, \<lparr>hs_self = self, hs_ptr = ptr, hs_size = 0, hs_asize = of_nat TF_STR_UNIT\<rparr>))))"

definition hs_new2 :: "(u64 \<Rightarrow> bool) \<Rightarrow> cstr \<Rightarrow> tf_heap \<Rightarrow> heap_str heap_result" where
  "hs_new2 avail str h =
     rbind (tf_alloc avail STR_SIZE h) (\<lambda>(h, self).
     rbind (chk_int (length str)) (\<lambda>sz.
     rbind (chk_int (sz + 1)) (\<lambda>n.
     let asize = max n TF_STR_UNIT
     in rbind (tf_alloc avail (of_nat asize) h) (\<lambda>(h, ptr).
        rbind (update_block ptr (\<lambda>d. blit d 0 (map Some (str @ [0]))) h) (\<lambda>h.
        Inr (h, \<lparr>hs_self = self, hs_ptr = ptr, hs_size = of_nat sz, hs_asize = of_nat asize\<rparr>))))))"

text \<open>The allocated size of the copy is an \<open>int\<close>, which is extended with its sign.\<close>

definition hs_dup :: "(u64 \<Rightarrow> bool) \<Rightarrow> heap_str \<Rightarrow> tf_heap \<Rightarrow> heap_str heap_result" where
  "hs_dup avail x h =
     rbind (tf_alloc avail STR_SIZE h) (\<lambda>(h, self).
     rbind (live h (hs_self x)) (\<lambda>_.
     let asize = max (hs_size x + 1) (of_nat TF_STR_UNIT)
     in rbind (tf_alloc avail (scast asize) h) (\<lambda>(h, ptr).
        rbind (read_source (At_Block (hs_ptr x) 0) (unat (hs_size x + 1)) h) (\<lambda>bytes.
        rbind (update_block ptr (\<lambda>d. blit d 0 bytes) h) (\<lambda>h.
        Inr (h, \<lparr>hs_self = self, hs_ptr = ptr, hs_size = hs_size x, hs_asize = asize\<rparr>))))))"

definition hs_grow :: "(u64 \<Rightarrow> bool) \<Rightarrow> u32 \<Rightarrow> heap_str \<Rightarrow> tf_heap \<Rightarrow> heap_str heap_result" where
  "hs_grow avail nsize x h =
     (if hs_asize x < nsize
      then let asize = hs_asize x * 2; asize = (if asize < nsize then nsize else asize)
           in rbind (tf_realloc avail (Some (hs_ptr x)) (ucast asize) h) (\<lambda>(h, ptr).
              Inr (h, x\<lparr>hs_asize := asize, hs_ptr := ptr\<rparr>))
      else Inr (h, x))"

definition hs_cat :: "(u64 \<Rightarrow> bool) \<Rightarrow> mem_source \<Rightarrow> int \<Rightarrow> heap_str \<Rightarrow> tf_heap \<Rightarrow> heap_str heap_result" where
  "hs_cat avail src n x h =
     (if n < 0 then Inl Assert_Fail
      else rbind (live h (hs_self x)) (\<lambda>_.
           rbind (hs_grow avail (hs_size x + word_of_int n + 1) x h) (\<lambda>(h, x).
           rbind (read_source src (nat n) h) (\<lambda>bytes.
           rbind (update_block (hs_ptr x) (\<lambda>d. blit d (unat (hs_size x)) bytes) h) (\<lambda>h.
           let x = x\<lparr>hs_size := hs_size x + word_of_int n\<rparr>
           in rbind (update_block (hs_ptr x) (\<lambda>d. wr d (unat (hs_size x)) (Some 0)) h) (\<lambda>h.
              Inr (h, x)))))))"

definition hs_cat2 :: "(u64 \<Rightarrow> bool) \<Rightarrow> cstr \<Rightarrow> heap_str \<Rightarrow> tf_heap \<Rightarrow> heap_str heap_result" where
  "hs_cat2 avail str x h =
     rbind (chk_int (length str)) (\<lambda>n.
     rbind (live h (hs_self x)) (\<lambda>_.
     rbind (hs_grow avail (hs_size x + of_nat n + 1) x h) (\<lambda>(h, x).
     rbind (update_block (hs_ptr x) (\<lambda>d. blit d (unat (hs_size x)) (map Some (str @ [0]))) h) (\<lambda>h.
     Inr (h, x\<lparr>hs_size := hs_size x + of_nat n\<rparr>)))))"

definition hs_clear :: "heap_str \<Rightarrow> tf_heap \<Rightarrow> heap_str heap_result" where
  "hs_clear x h =
     rbind (live h (hs_self x)) (\<lambda>_.
     rbind (update_block (hs_ptr x) (\<lambda>d. wr d 0 (Some 0)) h) (\<lambda>h.
     Inr (h, x\<lparr>hs_size := 0\<rparr>)))"

definition tf_strdel :: "heap_str \<Rightarrow> tf_heap \<Rightarrow> c_error + tf_heap" where
  "tf_strdel x h =
     rbind (live h (hs_self x)) (\<lambda>_.
     rbind (tf_free (Some (hs_ptr x)) h) (tf_free (Some (hs_self x))))"

text \<open>The buffer becomes the caller's.\<close>

definition hs_tomalloc :: "heap_str \<Rightarrow> tf_heap \<Rightarrow> nat heap_result" where
  "hs_tomalloc x h =
     rbind (live h (hs_self x)) (\<lambda>_.
     rbind (tf_free (Some (hs_self x)) h) (\<lambda>h. Inr (h, hs_ptr x)))"

definition hs_frommalloc :: "(u64 \<Rightarrow> bool) \<Rightarrow> nat \<Rightarrow> nat \<Rightarrow> tf_heap \<Rightarrow> heap_str heap_result" where
  "hs_frommalloc avail p sz h =
     rbind (tf_alloc avail STR_SIZE h) (\<lambda>(h, self).
     rbind (chk_int (sz + 1)) (\<lambda>n.
     rbind (tf_realloc avail (Some p) (of_nat n) h) (\<lambda>(h, ptr).
     rbind (update_block ptr (\<lambda>d. wr d sz (Some 0)) h) (\<lambda>h.
     Inr (h, \<lparr>hs_self = self, hs_ptr = ptr, hs_size = of_nat sz, hs_asize = of_nat sz\<rparr>)))))"

text \<open>The life of a string: how it is made, what is done to it, and how it ends.  A copy takes the place of the original.\<close>

datatype str_make = New | New2 cstr | New3 int | From_Malloc nat nat
datatype str_end = Del | To_Malloc

definition hs_make :: "(u64 \<Rightarrow> bool) \<Rightarrow> str_make \<Rightarrow> tf_heap \<Rightarrow> heap_str heap_result" where
  "hs_make avail mk h = (case mk of
     New \<Rightarrow> hs_new avail h
   | New2 s \<Rightarrow> hs_new2 avail s h
   | New3 n \<Rightarrow> hs_new3 avail n h
   | From_Malloc p n \<Rightarrow> hs_frommalloc avail p n h)"

definition hs_step :: "(u64 \<Rightarrow> bool) \<Rightarrow> str_op \<Rightarrow> heap_str \<Rightarrow> tf_heap \<Rightarrow> heap_str heap_result" where
  "hs_step avail c x h = (case c of
     Cat bs \<Rightarrow> hs_cat avail (Elsewhere (map Some bs)) (int (length bs)) x h
   | Cat2 s \<Rightarrow> hs_cat2 avail s x h
   | Clear \<Rightarrow> hs_clear x h
   | Dup \<Rightarrow> rbind (hs_dup avail x h) (\<lambda>(h, y). rbind (tf_strdel x h) (\<lambda>h. Inr (h, y))))"

fun hs_run :: "(u64 \<Rightarrow> bool) \<Rightarrow> str_op list \<Rightarrow> heap_str \<Rightarrow> tf_heap \<Rightarrow> heap_str heap_result" where
  "hs_run avail [] x h = Inr (h, x)"
| "hs_run avail (c # cs) x h = rbind (hs_step avail c x h) (\<lambda>(h, x). hs_run avail cs x h)"

definition hs_end :: "str_end \<Rightarrow> heap_str \<Rightarrow> tf_heap \<Rightarrow> nat option heap_result" where
  "hs_end e x h = (case e of
     Del \<Rightarrow> rbind (tf_strdel x h) (\<lambda>h. Inr (h, None))
   | To_Malloc \<Rightarrow> rbind (hs_tomalloc x h) (\<lambda>(h, p). Inr (h, Some p)))"

definition str_life :: "(u64 \<Rightarrow> bool) \<Rightarrow> str_make \<Rightarrow> str_op list \<Rightarrow> str_end \<Rightarrow> tf_heap \<Rightarrow> nat option heap_result" where
  "str_life avail mk cs e h =
     rbind (hs_make avail mk h) (\<lambda>(h, x).
     rbind (hs_run avail cs x h) (\<lambda>(h, x). hs_end e x h))"

section \<open>The view\<close>

definition str_view :: "tf_heap \<Rightarrow> heap_str \<Rightarrow> tf_str" where
  "str_view h x = \<lparr>st_size = hs_size x, st_asize = hs_asize x, st_ptr = bk_data (the (hp_blocks h (hs_ptr x)))\<rparr>"

definition hs_inv :: "tf_heap \<Rightarrow> heap_str \<Rightarrow> bool" where
  "hs_inv h x \<longleftrightarrow> heap_ok h \<and> hs_self x \<noteq> hs_ptr x \<and> hp_blocks h (hs_self x) \<noteq> None \<and> hp_blocks h (hs_ptr x) \<noteq> None"

text \<open>The blocks of everybody else.\<close>

definition str_rest :: "tf_heap \<Rightarrow> heap_str \<Rightarrow> nat \<Rightarrow> block option" where
  "str_rest h x = hp_blocks h |` (- {hs_self x, hs_ptr x})"

definition str_post :: "(nat \<Rightarrow> block option) \<Rightarrow> tf_str \<Rightarrow> tf_heap \<times> heap_str \<Rightarrow> bool" where
  "str_post m y = (\<lambda>(h, x). hs_inv h x \<and> str_rest h x = m \<and> str_view h x = y)"

lemma hs_inv_live: "hs_inv h x \<Longrightarrow> live h (hs_self x) = Inr (the (hp_blocks h (hs_self x)))"
  "hs_inv h x \<Longrightarrow> live h (hs_ptr x) = Inr (the (hp_blocks h (hs_ptr x)))"
  by (auto simp: hs_inv_def live_def)

lemma str_view_simps [simp]: "st_size (str_view h x) = hs_size x" "st_asize (str_view h x) = hs_asize x"
  by (simp_all add: str_view_def)

lemma set_size_simps [simp]: "hs_inv h (x\<lparr>hs_size := n\<rparr>) = hs_inv h x" "str_rest h (x\<lparr>hs_size := n\<rparr>) = str_rest h x"
  "str_view h (x\<lparr>hs_size := n\<rparr>) = (str_view h x)\<lparr>st_size := n\<rparr>"
  by (simp_all add: hs_inv_def str_rest_def str_view_def)

text \<open>Writing into the buffer.\<close>

lemma update_view:
  assumes x: "hs_inv h x" and f: "f (st_ptr (str_view h x)) = Inr d" and len: "length d = length (st_ptr (str_view h x))"
  shows "\<exists>h'. update_block (hs_ptr x) f h = Inr h' \<and> str_post (str_rest h x) ((str_view h x)\<lparr>st_ptr := d\<rparr>) (h', x)"
proof -
  obtain b where b: "hp_blocks h (hs_ptr x) = Some b" using x by (auto simp: hs_inv_def)
  let ?h = "h\<lparr>hp_blocks := (hp_blocks h)(hs_ptr x \<mapsto> b\<lparr>bk_data := d\<rparr>)\<rparr>"
  have "update_block (hs_ptr x) f h = Inr ?h" using f b by (simp add: update_block_def live_def str_view_def)
  moreover have "heap_ok ?h" using set_data_ok [of h "hs_ptr x" b d] x b len by (simp add: hs_inv_def str_view_def)
  ultimately show ?thesis using x b
    by (auto simp: str_post_def hs_inv_def str_rest_def str_view_def restrict_map_def fun_eq_iff)
qed

lemma blit_length: "blit d off s = Inr d' \<Longrightarrow> length d' = length d"
  by (auto simp: blit_def split: if_splits)

lemma wr_length: "wr d i v = Inr d' \<Longrightarrow> length d' = length d"
  by (auto simp: wr_def split: if_splits)

section \<open>Each operation does to the view what \<open>TF_Str\<close> says\<close>

lemma hs_grow_ok:
  assumes x: "hs_inv h x"
  shows "or_oom avail (str_post (str_rest h x) (str_grow (str_view h x) n)) (hs_grow avail n x h)"
proof (cases "hs_asize x < n")
  case True
  obtain b where b: "hp_blocks h (hs_ptr x) = Some b" using x by (auto simp: hs_inv_def)
  define a where "a = (if hs_asize x * 2 < n then n else hs_asize x * 2)"
  have "unat a < 2 ^ LENGTH(32)" by (rule unsigned_less)
  then have lt: "unat a < 2 ^ 32" by simp
  then have u: "unat (ucast a :: u64) = unat a" by (simp add: unsigned_ucast_eq take_bit_nat_eq_self)
  have "unat (ucast a :: u64) + 8 < 2 ^ 64" using lt u by simp
  note r = realloc_moves [OF _ b this, of avail]
  have g: "hs_grow avail n x h = rbind (tf_realloc avail (Some (hs_ptr x)) (ucast a) h) (\<lambda>(h, ptr). Inr (h, x\<lparr>hs_asize := a, hs_ptr := ptr\<rparr>))"
    using True by (simp add: hs_grow_def a_def Let_def)
  have v: "str_grow (str_view h x) n = \<lparr>st_size = hs_size x, st_asize = a, st_ptr = resize (bk_data b) (unat a)\<rparr>"
    using True b by (simp add: str_grow_def str_view_def a_def Let_def)
  show ?thesis unfolding g v
  proof (rule or_oom_bind [OF r], goal_cases)
    case 1
    then show ?case using x by (simp add: hs_inv_def)
  next
    case (2 y)
    then show ?case using x u
      by (cases y) (auto simp: moves_block_def str_post_def hs_inv_def str_view_def str_rest_def restrict_map_def fun_eq_iff)
  qed
qed (use x in \<open>simp add: hs_grow_def str_grow_def str_post_def\<close>)

lemma hs_cat_ok:
  assumes x: "hs_inv h x" and y: "tf_strcat (str_view h x) src n = Inr y"
  shows "or_oom avail (str_post (str_rest h x) y) (hs_cat avail (Elsewhere src) n x h)"
proof -
  let ?g = "str_grow (str_view h x) (hs_size x + word_of_int n + 1)"
  have n: "\<not> n < 0" using y by (auto simp: tf_strcat_def)
  obtain bytes d d' where t: "slice src 0 (nat n) = Inr bytes" "blit (st_ptr ?g) (unat (st_size ?g)) bytes = Inr d"
      "wr d (unat (st_size ?g + word_of_int n)) (Some 0) = Inr d'" "y = ?g\<lparr>st_ptr := d', st_size := st_size ?g + word_of_int n\<rparr>"
    using y n by (auto simp: tf_strcat_def Let_def rbind_eq_Inr)
  show ?thesis unfolding hs_cat_def hs_inv_live(1) [OF x] rbind_Inr if_not_P [OF n]
  proof (rule or_oom_bind [OF hs_grow_ok [OF x]], clarify)
    fix h1 x1
    assume "str_post (str_rest h x) ?g (h1, x1)"
    then have p: "hs_inv h1 x1" "str_rest h1 x1 = str_rest h x" "str_view h1 x1 = ?g" by (simp_all add: str_post_def)
    have sz: "st_size ?g = hs_size x1" using p(3) by (metis str_view_simps(1))
    have "blit (st_ptr (str_view h1 x1)) (unat (hs_size x1)) bytes = Inr d" using t(2) p(3) sz by simp
    from update_view [where f = "\<lambda>d. blit d (unat (hs_size x1)) bytes", OF p(1) this blit_length [OF this]] obtain h2 where
      h2: "update_block (hs_ptr x1) (\<lambda>d. blit d (unat (hs_size x1)) bytes) h1 = Inr h2"
        "str_post (str_rest h1 x1) (?g\<lparr>st_ptr := d\<rparr>) (h2, x1)" using p(3) by auto
    let ?x = "x1\<lparr>hs_size := hs_size x1 + word_of_int n\<rparr>"
    have q: "hs_inv h2 ?x" "str_rest h2 ?x = str_rest h x" "str_view h2 ?x = ?g\<lparr>st_ptr := d, st_size := hs_size x1 + word_of_int n\<rparr>"
      using h2(2) p(2) by (simp_all add: str_post_def)
    have "wr (st_ptr (str_view h2 ?x)) (unat (hs_size ?x)) (Some 0) = Inr d'" using t(3) q(3) sz by simp
    note u = update_view [where f = "\<lambda>d. wr d (unat (hs_size ?x)) (Some 0)", OF q(1) this wr_length [OF this]]
    have "(str_view h2 ?x)\<lparr>st_ptr := d'\<rparr> = y" unfolding q(3) t(4) sz by simp
    from u [unfolded this q(2)] obtain h3 where
      h3: "update_block (hs_ptr x1) (\<lambda>d. wr d (unat (hs_size x1 + word_of_int n)) (Some 0)) h2 = Inr h3"
        "str_post (str_rest h x) y (h3, ?x)" by auto
    show "or_oom avail (str_post (str_rest h x) y) (rbind (read_source (Elsewhere src) (nat n) h1) (\<lambda>bytes.
       rbind (update_block (hs_ptr x1) (\<lambda>d. blit d (unat (hs_size x1)) bytes) h1) (\<lambda>h.
       let x = x1\<lparr>hs_size := hs_size x1 + word_of_int n\<rparr>
       in rbind (update_block (hs_ptr x) (\<lambda>d. wr d (unat (hs_size x)) (Some 0)) h) (\<lambda>h. Inr (h, x)))))"
      using t(1) h2(1) h3 by (simp add: read_source_def)
  qed
qed

lemma hs_cat2_ok:
  assumes x: "hs_inv h x" and y: "tf_strcat2 (str_view h x) s = Inr y"
  shows "or_oom avail (str_post (str_rest h x) y) (hs_cat2 avail s x h)"
proof -
  define k where "k = length s"
  let ?g = "str_grow (str_view h x) (hs_size x + of_nat k + 1)"
  have n: "chk_int k = Inr k" using y by (auto simp: tf_strcat2_def rbind_eq_Inr chk_int_Inr k_def)
  obtain d where t: "blit (st_ptr ?g) (unat (st_size ?g)) (map Some (s @ [0])) = Inr d"
      "y = ?g\<lparr>st_ptr := d, st_size := st_size ?g + of_nat k\<rparr>"
    using y n by (auto simp: tf_strcat2_def Let_def rbind_eq_Inr k_def)
  show ?thesis unfolding hs_cat2_def k_def [symmetric] n rbind_Inr hs_inv_live(1) [OF x]
  proof (rule or_oom_bind [OF hs_grow_ok [OF x]], clarify)
    fix h1 x1
    assume "str_post (str_rest h x) ?g (h1, x1)"
    then have p: "hs_inv h1 x1" "str_rest h1 x1 = str_rest h x" "str_view h1 x1 = ?g" by (simp_all add: str_post_def)
    have sz: "st_size ?g = hs_size x1" using p(3) by (metis str_view_simps(1))
    have "blit (st_ptr (str_view h1 x1)) (unat (hs_size x1)) (map Some (s @ [0])) = Inr d" using t(1) p(3) sz by simp
    from update_view [where f = "\<lambda>d. blit d (unat (hs_size x1)) (map Some (s @ [0]))", OF p(1) this blit_length [OF this]] obtain h2 where
      h2: "update_block (hs_ptr x1) (\<lambda>d. blit d (unat (hs_size x1)) (map Some (s @ [0]))) h1 = Inr h2"
        "str_post (str_rest h1 x1) (?g\<lparr>st_ptr := d\<rparr>) (h2, x1)" using p(3) by auto
    then have "str_post (str_rest h x) y (h2, x1\<lparr>hs_size := hs_size x1 + of_nat k\<rparr>)"
      unfolding t(2) sz using p(2) by (simp add: str_post_def)
    then show "or_oom avail (str_post (str_rest h x) y)
       (rbind (update_block (hs_ptr x1) (\<lambda>d. blit d (unat (hs_size x1)) (map Some (s @ [0]))) h1)
         (\<lambda>h. Inr (h, x1\<lparr>hs_size := hs_size x1 + of_nat k\<rparr>)))"
      using h2(1) by simp
  qed
qed

lemma hs_clear_ok:
  assumes x: "hs_inv h x" and y: "tf_strclear (str_view h x) = Inr y"
  shows "or_oom avail (str_post (str_rest h x) y) (hs_clear x h)"
proof -
  obtain d where d: "wr (st_ptr (str_view h x)) 0 (Some 0) = Inr d" "y = (str_view h x)\<lparr>st_size := 0, st_ptr := d\<rparr>"
    using y by (auto simp: tf_strclear_def rbind_eq_Inr)
  from update_view [where f = "\<lambda>d. wr d 0 (Some 0)", OF x d(1) wr_length [OF d(1)]] obtain h' where
    "update_block (hs_ptr x) (\<lambda>d. wr d 0 (Some 0)) h = Inr h'" "str_post (str_rest h x) ((str_view h x)\<lparr>st_ptr := d\<rparr>) (h', x)" by blast
  then show ?thesis using d(2) by (simp add: hs_clear_def hs_inv_live(1) [OF x] str_post_def)
qed

section \<open>Making and ending\<close>

lemma buffer_made:
  assumes "adds_block h b1 (h1, self)" "adds_block h1 b2 (h2, ptr)" "f (bk_data b2) = Inr d" "length d = length (bk_data b2)"
  shows "\<exists>h3. update_block ptr f h2 = Inr h3 \<and>
    str_post (hp_blocks h) \<lparr>st_size = n, st_asize = a, st_ptr = d\<rparr> (h3, \<lparr>hs_self = self, hs_ptr = ptr, hs_size = n, hs_asize = a\<rparr>)"
proof -
  let ?x = "\<lparr>hs_self = self, hs_ptr = ptr, hs_size = n, hs_asize = a\<rparr>"
  have "hs_inv h2 ?x" "str_rest h2 ?x = hp_blocks h" "str_view h2 ?x = \<lparr>st_size = n, st_asize = a, st_ptr = bk_data b2\<rparr>"
    using assms(1,2)
    by (auto simp: adds_block_def hs_inv_def str_rest_def str_view_def restrict_map_def fun_eq_iff split: if_splits)
  then show ?thesis using update_view [of h2 ?x f d] assms(3,4) by simp
qed

lemma alloc_pair:
  assumes h: "heap_ok h" and sz: "unat sz + 8 < 2 ^ 64" and f: "f (replicate (unat sz) None) = Inr d" "length d = unat sz"
  shows "or_oom avail (str_post (hp_blocks h) \<lparr>st_size = n, st_asize = a, st_ptr = d\<rparr>)
    (rbind (tf_alloc avail STR_SIZE h) (\<lambda>(h, self).
     rbind (tf_alloc avail sz h) (\<lambda>(h, ptr).
     rbind (update_block ptr f h) (\<lambda>h.
     Inr (h, \<lparr>hs_self = self, hs_ptr = ptr, hs_size = n, hs_asize = a\<rparr>)))))"
proof (rule or_oom_bind [OF alloc_adds [OF h]], goal_cases)
  case 1
  then show ?case by (simp add: STR_SIZE_def)
next
  case (2 y)
  obtain h1 self where y: "y = (h1, self)" by force
  have h1: "heap_ok h1" using 2 y by (simp add: adds_block_def)
  show ?case unfolding y prod.case
  proof (rule or_oom_bind [OF alloc_adds [OF h1 sz]], clarify)
    fix h2 ptr
    assume "adds_block h1 \<lparr>bk_size = sz, bk_data = replicate (unat sz) None\<rparr> (h2, ptr)"
    from buffer_made [where f = f and d = d and n = n and a = a, OF 2 [unfolded y] this] f obtain h3 where
      "update_block ptr f h2 = Inr h3"
      "str_post (hp_blocks h) \<lparr>st_size = n, st_asize = a, st_ptr = d\<rparr> (h3, \<lparr>hs_self = self, hs_ptr = ptr, hs_size = n, hs_asize = a\<rparr>)"
      by auto
    then show "or_oom avail (str_post (hp_blocks h) \<lparr>st_size = n, st_asize = a, st_ptr = d\<rparr>)
       (rbind (update_block ptr f h2) (\<lambda>h. Inr (h, \<lparr>hs_self = self, hs_ptr = ptr, hs_size = n, hs_asize = a\<rparr>)))" by simp
  qed
qed

lemma first_cell: "0 < n \<Longrightarrow> wr (replicate n None) 0 (Some v) = Inr (Some v # replicate (n - 1) None)"
  by (cases n) (simp_all add: wr_def)

lemma hs_new_ok: "heap_ok h \<Longrightarrow> or_oom avail (str_post (hp_blocks h) tf_strnew) (hs_new avail h)"
  unfolding hs_new_def tf_strnew_def by (rule alloc_pair) (simp_all add: TF_STR_UNIT_def first_cell del: wr_ok)

lemma unat_small: "n \<le> int_max \<Longrightarrow> unat (of_nat n :: u64) = n"
  by (simp add: int_max_def unsigned_of_nat take_bit_eq_mod)

lemma unat_scast_small:
  assumes "unat (a :: u32) \<le> int_max"
  shows "unat (scast a :: u64) = unat a"
proof -
  have "sint a = int (unat a)" using sint_u32 [of a] assms by (simp add: int_max_def)
  then have "(scast a :: u64) = of_nat (unat a)" by (metis of_int_of_nat_eq of_int_sint)
  then show ?thesis using unat_small [OF assms] by simp
qed

lemma hs_new3_ok:
  assumes h: "heap_ok h" and n: "n \<le> int int_max" and y: "tf_strnew3 n = Inr y"
  shows "or_oom avail (str_post (hp_blocks h) y) (hs_new3 avail n h)"
proof -
  define a where "a = max (nat n) TF_STR_UNIT"
  have a: "a \<le> int_max" "0 < a" using n by (simp_all add: a_def int_max_def TF_STR_UNIT_def)
  have v: "\<not> n < 0" "y = \<lparr>st_size = 0, st_asize = of_nat a, st_ptr = Some 0 # replicate (a - 1) None\<rparr>"
    using y by (auto simp: tf_strnew3_def a_def Let_def split: if_splits)
  show ?thesis unfolding hs_new3_def Let_def if_not_P [OF v(1)] v(2) a_def [symmetric]
    by (rule alloc_pair [OF h]) (use a in \<open>simp_all add: unat_small first_cell int_max_def del: wr_ok\<close>)
qed

lemma hs_new2_ok:
  assumes h: "heap_ok h" and y: "tf_strnew2 s = Inr y"
  shows "or_oom avail (str_post (hp_blocks h) y) (hs_new2 avail s h)"
proof -
  define k a where "k = length s" and "a = max (k + 1) TF_STR_UNIT"
  have n: "chk_int k = Inr k" "chk_int (k + 1) = Inr (k + 1)" "k + 1 \<le> int_max"
    using y by (auto simp: tf_strnew2_def rbind_eq_Inr chk_int_Inr k_def)
  have am: "max (Suc k) TF_STR_UNIT = a" by (simp add: a_def)
  have a: "a \<le> int_max" using n(3) by (simp add: a_def int_max_def TF_STR_UNIT_def)
  obtain d where d: "blit (replicate a None) 0 (map Some (s @ [0])) = Inr d"
      "y = \<lparr>st_size = of_nat k, st_asize = of_nat a, st_ptr = d\<rparr>"
    using y n am by (auto simp: tf_strnew2_def rbind_eq_Inr k_def [symmetric] Let_def simp del: blit_ok)
  show ?thesis unfolding hs_new2_def k_def [symmetric] n(1,2) rbind_Inr Let_def a_def [symmetric] d(2)
    by (rule alloc_pair [OF h])
      (use a d(1) blit_length [OF d(1)] in \<open>simp_all add: unat_small int_max_def del: blit_ok\<close>)
qed

text \<open>The region becomes the buffer; whoever had its address must not use it again.\<close>

lemma hs_frommalloc_ok:
  assumes h: "heap_ok h" and b: "hp_blocks h p = Some b" and y: "tf_strfrommalloc (bk_data b) n = Inr y"
  shows "or_oom avail (str_post ((hp_blocks h)(p := None)) y) (hs_frommalloc avail p n h)"
proof -
  have n: "chk_int (n + 1) = Inr (n + 1)" "n + 1 \<le> int_max" using y by (auto simp: tf_strfrommalloc_def rbind_eq_Inr chk_int_Inr)
  obtain d where d: "wr (resize (bk_data b) (n + 1)) n (Some 0) = Inr d" "y = \<lparr>st_size = of_nat n, st_asize = of_nat n, st_ptr = d\<rparr>"
    using y n(1) by (auto simp: tf_strfrommalloc_def rbind_eq_Inr)
  have sz: "unat (of_nat (n + 1) :: u64) = n + 1" using n(2) by (rule unat_small)
  let ?b = "\<lparr>bk_size = of_nat (n + 1), bk_data = resize (bk_data b) (n + 1)\<rparr>"
  show ?thesis unfolding hs_frommalloc_def n(1) rbind_Inr
  proof (rule or_oom_bind [OF alloc_adds [OF h]], goal_cases)
    case 1
    then show ?case by (simp add: STR_SIZE_def)
  next
    case (2 z)
    obtain h1 self where z: "z = (h1, self)" by force
    have h1: "heap_ok h1" "hp_blocks h1 p = Some b" "self \<noteq> p" using 2 z b by (auto simp: adds_block_def)
    have "unat (of_nat (n + 1) :: u64) + 8 < 2 ^ 64" using sz n(2) by (simp add: int_max_def)
    note r = realloc_moves [OF h1(1,2) this, of avail, unfolded sz]
    show ?case unfolding z prod.case
    proof (rule or_oom_bind [OF r], clarify)
      fix h2 ptr
      assume m: "moves_block h1 p ?b (h2, ptr)"
      let ?x = "\<lparr>hs_self = self, hs_ptr = ptr, hs_size = of_nat n, hs_asize = of_nat n\<rparr> :: heap_str"
      have "hs_inv h2 ?x" "str_rest h2 ?x = (hp_blocks h)(p := None)" "st_ptr (str_view h2 ?x) = resize (bk_data b) (n + 1)"
        using m 2 z h1(2,3)
        by (auto simp: adds_block_def moves_block_def hs_inv_def str_rest_def str_view_def restrict_map_def fun_eq_iff split: if_splits)
      then show "or_oom avail (str_post ((hp_blocks h)(p := None)) y)
         (rbind (update_block ptr (\<lambda>d. wr d n (Some 0)) h2) (\<lambda>h. Inr (h, ?x)))"
        using update_view [of h2 ?x "\<lambda>d. wr d n (Some 0)" d] d wr_length [OF d(1)] by (auto simp: str_view_def)
    qed
  qed
qed

lemma rest_live:
  assumes "str_post (hp_blocks h) v (h', y)" "hp_blocks h p = Some b"
  shows "hp_blocks h' p = Some b" "p \<noteq> hs_self y" "p \<noteq> hs_ptr y"
proof -
  have "str_rest h' y p = Some b" using assms by (simp add: str_post_def)
  then show "hp_blocks h' p = Some b" "p \<noteq> hs_self y" "p \<noteq> hs_ptr y" by (auto simp: str_rest_def restrict_map_def split: if_splits)
qed

lemma tf_strdel_ok:
  assumes x: "hs_inv h x"
  shows "\<exists>h'. tf_strdel x h = Inr h' \<and> heap_ok h' \<and> hp_blocks h' = str_rest h x"
proof -
  obtain b b' where b: "hp_blocks h (hs_ptr x) = Some b" "hp_blocks h (hs_self x) = Some b'" "heap_ok h" "hs_self x \<noteq> hs_ptr x"
    using x by (auto simp: hs_inv_def)
  obtain h1 where h1: "tf_free (Some (hs_ptr x)) h = Inr h1" "heap_ok h1" "hp_blocks h1 = (hp_blocks h)(hs_ptr x := None)"
    using free_removes [OF b(3,1)] by blast
  have "hp_blocks h1 (hs_self x) = Some b'" using h1(3) b by simp
  from free_removes [OF h1(2) this] obtain h2 where h2: "tf_free (Some (hs_self x)) h1 = Inr h2" "heap_ok h2"
      "hp_blocks h2 = (hp_blocks h1)(hs_self x := None)" by blast
  have "hp_blocks h2 = str_rest h x" by (auto simp: str_rest_def h2(3) h1(3) restrict_map_def fun_eq_iff)
  then show ?thesis using h1(1) h2(1,2) by (simp add: tf_strdel_def hs_inv_live(1) [OF x])
qed

lemma hs_tomalloc_ok:
  assumes x: "hs_inv h x"
  shows "\<exists>h' b. hs_tomalloc x h = Inr (h', hs_ptr x) \<and> heap_ok h' \<and> str_rest h x (hs_ptr x) = None \<and>
    hp_blocks h' = (str_rest h x)(hs_ptr x \<mapsto> b) \<and> bk_data b = tf_strtomalloc (str_view h x)"
proof -
  obtain b b' where b: "hp_blocks h (hs_ptr x) = Some b" "hp_blocks h (hs_self x) = Some b'" "heap_ok h" "hs_self x \<noteq> hs_ptr x"
    using x by (auto simp: hs_inv_def)
  obtain h1 where h1: "tf_free (Some (hs_self x)) h = Inr h1" "heap_ok h1" "hp_blocks h1 = (hp_blocks h)(hs_self x := None)"
    using free_removes [OF b(3,2)] by blast
  have "hp_blocks h1 = (str_rest h x)(hs_ptr x \<mapsto> b)"
    using b(1,4) by (auto simp: str_rest_def h1(3) restrict_map_def fun_eq_iff)
  then show ?thesis using h1(1,2) b(1)
    by (auto simp: hs_tomalloc_def hs_inv_live(1) [OF x] str_rest_def str_view_def tf_strtomalloc_def)
qed

lemma hs_dup_ok:
  assumes x: "hs_inv h x" and y: "tf_strdup (str_view h x) = Inr y" and n: "unat (hs_size x) + 1 \<le> int_max"
  shows "or_oom avail (str_post (hp_blocks h) y) (hs_dup avail x h)"
proof -
  define a :: u32 where "a = max (hs_size x + 1) (of_nat TF_STR_UNIT)"
  obtain b where b: "hp_blocks h (hs_ptr x) = Some b" "st_ptr (str_view h x) = bk_data b" using x by (auto simp: hs_inv_def str_view_def)
  obtain b' where b': "hp_blocks h (hs_self x) = Some b'" using x by (auto simp: hs_inv_def)
  have "unat (hs_size x + 1) = unat (hs_size x) + 1" using n unat_size_add(2) [of "hs_size x" 1] by (simp add: int_max_def)
  then have "unat a \<le> int_max" using n by (simp add: a_def max_def int_max_def TF_STR_UNIT_def)
  then have a: "unat (scast a :: u64) = unat a" by (rule unat_scast_small)
  have al: "unat (scast a :: u64) + 8 < 2 ^ 64" using a \<open>unat a \<le> int_max\<close> by (simp add: int_max_def)
  obtain bytes d where d: "slice (bk_data b) 0 (unat (hs_size x + 1)) = Inr bytes" "blit (replicate (unat a) None) 0 bytes = Inr d"
      "y = \<lparr>st_size = hs_size x, st_asize = a, st_ptr = d\<rparr>"
    using y b(2) by (auto simp: tf_strdup_def rbind_eq_Inr Let_def a_def [symmetric] simp del: blit_ok)
  show ?thesis unfolding hs_dup_def
  proof (rule or_oom_bind [OF alloc_adds], goal_cases)
    case 1
    then show ?case using x by (simp add: hs_inv_def)
  next
    case 2
    then show ?case by (simp add: STR_SIZE_def)
  next
    case (3 z)
    obtain h1 self where z: "z = (h1, self)" by force
    have h1: "heap_ok h1" "live h1 (hs_self x) = Inr b'" "hp_blocks h1 (hs_ptr x) = Some b"
      using 3 z b(1) b' by (auto simp: adds_block_def live_def)
    show ?case unfolding z prod.case h1(2) rbind_Inr Let_def a_def [symmetric]
    proof (rule or_oom_bind [OF alloc_adds [OF h1(1) al]], clarify)
      fix h2 ptr
      assume m: "adds_block h1 \<lparr>bk_size = scast a, bk_data = replicate (unat (scast a :: u64)) None\<rparr> (h2, ptr)"
      have "read_source (At_Block (hs_ptr x) 0) (unat (hs_size x + 1)) h2 = Inr bytes"
        using m h1(3) d(1) by (auto simp: adds_block_def read_source_def live_def)
      moreover obtain h3 where "update_block ptr (\<lambda>d. blit d 0 bytes) h2 = Inr h3"
          "str_post (hp_blocks h) y (h3, \<lparr>hs_self = self, hs_ptr = ptr, hs_size = hs_size x, hs_asize = a\<rparr>)"
        using buffer_made [where f = "\<lambda>d. blit d 0 bytes" and d = d and n = "hs_size x" and a = a, OF 3 [unfolded z] m]
          a d(2,3) blit_length [OF d(2)] by auto
      ultimately show "or_oom avail (str_post (hp_blocks h) y)
         (rbind (read_source (At_Block (hs_ptr x) 0) (unat (hs_size x + 1)) h2) (\<lambda>bytes.
          rbind (update_block ptr (\<lambda>d. blit d 0 bytes) h2) (\<lambda>h.
          Inr (h, \<lparr>hs_self = self, hs_ptr = ptr, hs_size = hs_size x, hs_asize = a\<rparr>))))" by simp
    qed
  qed
qed

section \<open>Sequences of operations\<close>

definition hs_holds :: "tf_heap \<Rightarrow> heap_str \<Rightarrow> byte list \<Rightarrow> bool" where
  "hs_holds h x s \<longleftrightarrow> hs_inv h x \<and> str_is (str_view h x) s"

text \<open>A string with a text, and the other blocks as they were.\<close>

definition str_now :: "(nat \<Rightarrow> block option) \<Rightarrow> byte list \<Rightarrow> tf_heap \<times> heap_str \<Rightarrow> bool" where
  "str_now m s = (\<lambda>(h, x). hs_holds h x s \<and> str_rest h x = m)"

lemma post_now: "or_oom avail (str_post m y) r \<Longrightarrow> str_is y s \<Longrightarrow> or_oom avail (str_now m s) r"
  by (erule or_oom_mono) (auto simp: str_post_def str_now_def hs_holds_def)

lemma dup_step_ok:
  assumes x: "hs_holds h x s" and y: "tf_strdup (str_view h x) = Inr y" "str_is y t" and n: "length s + 1 \<le> int_max"
  shows "or_oom avail (str_now (str_rest h x) t) (hs_step avail Dup x h)"
proof -
  have i: "hs_inv h x" "unat (hs_size x) + 1 \<le> int_max" using x n by (simp_all add: hs_holds_def str_is_def)
  show ?thesis unfolding hs_step_def str_op.case
  proof (rule or_oom_bind [OF hs_dup_ok [OF i(1) y(1) i(2)]], clarify)
    fix h1 z
    assume p: "str_post (hp_blocks h) y (h1, z)"
    obtain b b' where b: "hp_blocks h (hs_ptr x) = Some b" "hp_blocks h (hs_self x) = Some b'" "hs_self x \<noteq> hs_ptr x"
      using i(1) by (auto simp: hs_inv_def)
    note r = rest_live [OF p b(1)] rest_live [OF p b(2)]
    have z: "hs_inv h1 z" "str_rest h1 z = hp_blocks h" "str_view h1 z = y" using p by (simp_all add: str_post_def)
    have "hs_inv h1 x" using z(1) r b(3) by (simp add: hs_inv_def)
    from tf_strdel_ok [OF this] obtain h2 where h2: "tf_strdel x h1 = Inr h2" "heap_ok h2" "hp_blocks h2 = str_rest h1 x" by blast
    have same: "hp_blocks h2 (hs_self z) = hp_blocks h1 (hs_self z)" "hp_blocks h2 (hs_ptr z) = hp_blocks h1 (hs_ptr z)"
      using r by (auto simp: h2(3) str_rest_def restrict_map_def)
    have "hs_inv h2 z" "str_view h2 z = y" using z(1,3) h2(2) same by (simp_all add: hs_inv_def str_view_def)
    moreover have "str_rest h2 z = str_rest h x" unfolding str_rest_def h2(3) z(2) [symmetric]
      by (auto simp: restrict_map_def fun_eq_iff)
    ultimately show "or_oom avail (str_now (str_rest h x) t) (rbind (tf_strdel x h1) (\<lambda>h. Inr (h, z)))"
      using h2(1) y(2) by (simp add: str_now_def hs_holds_def)
  qed
qed

lemma hs_step_ok:
  assumes x: "hs_holds h x s" and n: "length s + length (op_text c) + 1 \<le> int_max"
  shows "or_oom avail (str_now (str_rest h x) (spec_step s c)) (hs_step avail c x h)"
proof -
  have i: "hs_inv h x" "str_is (str_view h x) s" using x by (simp_all add: hs_holds_def)
  obtain y where y: "str_step c (str_view h x) = Inr y" "str_is y (spec_step s c)" using str_step_is [OF i(2) n] by blast
  show ?thesis
  proof (cases c)
    case (Cat bs)
    then show ?thesis using post_now [OF hs_cat_ok [OF i(1)] y(2)] y(1) by (simp add: hs_step_def str_step_def)
  next
    case (Cat2 t)
    then show ?thesis using post_now [OF hs_cat2_ok [OF i(1)] y(2)] y(1) by (simp add: hs_step_def str_step_def)
  next
    case Clear
    then show ?thesis using post_now [OF hs_clear_ok [OF i(1)] y(2)] y(1) by (simp add: hs_step_def str_step_def)
  next
    case Dup
    then show ?thesis using dup_step_ok [OF x _ y(2)] y(1) n by (simp add: str_step_def)
  qed
qed

lemma hs_run_ok:
  "hs_holds h x s \<Longrightarrow> length s + sum_list (map (length \<circ> op_text) cs) + 1 \<le> int_max \<Longrightarrow>
   or_oom avail (str_now (str_rest h x) (foldl spec_step s cs)) (hs_run avail cs x h)"
proof (induction cs arbitrary: h x s)
  case Nil
  then show ?case by (simp add: str_now_def)
next
  case (Cons c cs)
  have n: "length s + length (op_text c) + 1 \<le> int_max" using Cons.prems(2) by simp
  show ?case unfolding hs_run.simps
  proof (rule or_oom_bind [OF hs_step_ok [OF Cons.prems(1) n]], clarify)
    fix h1 x1
    assume p: "str_now (str_rest h x) (spec_step s c) (h1, x1)"
    then have "hs_holds h1 x1 (spec_step s c)" "str_rest h1 x1 = str_rest h x" by (simp_all add: str_now_def)
    then show "or_oom avail (str_now (str_rest h x) (foldl spec_step s (c # cs))) (hs_run avail cs x1 h1)"
      using Cons.IH [of h1 x1 "spec_step s c"] Cons.prems(2) spec_step_length [of s c] by simp
  qed
qed

text \<open>The text a string starts with, and the blocks that are not its own then.\<close>

definition starts_with :: "tf_heap \<Rightarrow> str_make \<Rightarrow> byte list \<Rightarrow> bool" where
  "starts_with h mk t \<longleftrightarrow> (case mk of
     New \<Rightarrow> t = []
   | New2 s \<Rightarrow> t = s
   | New3 n \<Rightarrow> 0 \<le> n \<and> n \<le> int int_max \<and> t = []
   | From_Malloc p n \<Rightarrow> \<exists>b. hp_blocks h p = Some b \<and> length t = n \<and> take n (bk_data b) = map Some t)"

definition others :: "tf_heap \<Rightarrow> str_make \<Rightarrow> nat \<Rightarrow> block option" where
  "others h mk = (case mk of From_Malloc p n \<Rightarrow> (hp_blocks h)(p := None) | _ \<Rightarrow> hp_blocks h)"

lemma tf_strnew3_is: "0 \<le> n \<Longrightarrow> n \<le> int int_max \<Longrightarrow> \<exists>y. tf_strnew3 n = Inr y \<and> str_is y []"
  by (simp add: tf_strnew3_def Let_def str_is_def TF_STR_UNIT_def int_max_def unat_u32)

lemma hs_make_ok:
  assumes h: "heap_ok h" and t: "starts_with h mk t" "length t + 1 \<le> int_max"
  shows "or_oom avail (str_now (others h mk) t) (hs_make avail mk h)"
proof (cases mk)
  case New
  then show ?thesis using post_now [OF hs_new_ok [OF h] str_is_new] t(1) by (simp add: hs_make_def others_def starts_with_def)
next
  case (New2 s)
  then show ?thesis using tf_strnew2_is [OF t(2)] t(1) post_now [OF hs_new2_ok [OF h]]
    by (auto simp: hs_make_def others_def starts_with_def)
next
  case (New3 n)
  then show ?thesis using tf_strnew3_is [of n] t(1) post_now [OF hs_new3_ok [OF h]]
    by (auto simp: hs_make_def others_def starts_with_def)
next
  case (From_Malloc p n)
  then obtain b where b: "hp_blocks h p = Some b" "length t = n" "take (length t) (bk_data b) = map Some t"
    using t(1) by (auto simp: starts_with_def)
  then show ?thesis using tf_strfrommalloc_is [OF b(3) t(2)] From_Malloc post_now [OF hs_frommalloc_ok [OF h b(1)]]
    by (auto simp: hs_make_def others_def)
qed

section \<open>Appending a string to itself\<close>

text \<open>
  With room the bytes are copied inside the buffer.  Without, the buffer is moved first, and the pointer that was
  passed is one into the block that was freed.
\<close>

lemma self_append_in_place:
  assumes x: "hs_inv h x" and n: "0 \<le> n" "\<not> hs_asize x < hs_size x + word_of_int n + 1"
  shows "hs_cat avail (At_Block (hs_ptr x) 0) n x h = hs_cat avail (Elsewhere (st_ptr (str_view h x))) n x h"
  using n by (simp add: hs_cat_def hs_grow_def read_source_def hs_inv_live [OF x] str_view_def)

lemma self_append_moved:
  assumes x: "hs_inv h x" and n: "0 \<le> n" "hs_asize x < hs_size x + word_of_int n + 1" and a: "\<And>k. avail k"
  shows "hs_cat avail (At_Block (hs_ptr x) off) n x h = Inl Use_After_Free"
proof -
  let ?n = "hs_size x + word_of_int n + 1"
  define a where "a = (if hs_asize x * 2 < ?n then ?n else hs_asize x * 2)"
  have "unat a < 2 ^ LENGTH(32)" by (rule unsigned_less)
  then have "unat (ucast a :: u64) + 8 < 2 ^ 64" by (simp add: unsigned_ucast_eq take_bit_nat_eq_self)
  note s = size_ok [OF this]
  obtain b where b: "hp_blocks h (hs_ptr x) = Some b" "hs_ptr x < hp_next h" using x by (auto simp: hs_inv_def heap_ok_def)
  obtain h1 q where g: "hs_grow avail ?n x h = Inr (h1, x\<lparr>hs_asize := a, hs_ptr := q\<rparr>)" "hp_blocks h1 (hs_ptr x) = None"
    using n(2) s b assms(4)
    by (simp add: hs_grow_def tf_realloc_def live_def new_block_def Let_def a_def tf_malloc_stat_alloc_def tf_malloc_stat_free_def)
  then have "live h1 (hs_ptr x) = Inl Use_After_Free" by (simp add: live_def)
  then show ?thesis using n(1) g(1) by (simp add: hs_cat_def hs_inv_live(1) [OF x] read_source_def)
qed

section \<open>The life of a string\<close>

lemma str_is_block: "str_is y t \<Longrightarrow> bk_data b = st_ptr y \<Longrightarrow> block_holds b t"
  by (auto simp: str_is_def block_holds_def nth_append)

text \<open>
  C13: A string owns its memory.  It is made in any of the four ways, concatenations, clearings and copies follow in any
  order, and it is deleted or turned into a plain region: unless an allocation fails, no access is outside a block or to
  a freed one and nothing is freed twice.  A deleted string leaves the heap as it was, a converted one leaves one new
  block, with the text that the operations give on a plain list and its terminator; a region that a string was made
  from is gone.
\<close>
theorem string_owns_memory:
  assumes "heap_ok h" "starts_with h mk t" "length t + sum_list (map (length \<circ> op_text) cs) + 1 \<le> int_max"
  shows "case str_life avail mk cs e h of
      Inl err \<Rightarrow> err = Out_Of_Memory \<and> (\<exists>n. \<not> avail n)
    | Inr (h', r) \<Rightarrow> heap_ok h' \<and> (case r of
        None \<Rightarrow> e = Del \<and> hp_blocks h' = others h mk
      | Some p \<Rightarrow> e = To_Malloc \<and> others h mk p = None \<and>
          (\<exists>b. hp_blocks h' = (others h mk)(p \<mapsto> b) \<and> block_holds b (foldl spec_step t cs)))"
proof -
  let ?t = "foldl spec_step t cs" and ?m = "others h mk"
  let ?P = "\<lambda>(h', r). heap_ok h' \<and> (case r of
        None \<Rightarrow> e = Del \<and> hp_blocks h' = ?m
      | Some p \<Rightarrow> e = To_Malloc \<and> ?m p = None \<and> (\<exists>b. hp_blocks h' = ?m(p \<mapsto> b) \<and> block_holds b ?t))"
  have "or_oom avail ?P (str_life avail mk cs e h)" unfolding str_life_def
  proof (rule or_oom_bind [OF hs_make_ok [OF assms(1,2)]], goal_cases)
    case 1
    then show ?case using assms(3) by simp
  next
    case (2 y)
    obtain h1 x1 where y: "y = (h1, x1)" by force
    have p: "hs_holds h1 x1 t" "str_rest h1 x1 = ?m" using 2 y by (simp_all add: str_now_def)
    show ?case unfolding y prod.case
    proof (rule or_oom_bind [OF hs_run_ok [OF p(1) assms(3)]], clarify)
      fix h2 x2
      assume "str_now (str_rest h1 x1) ?t (h2, x2)"
      then have q: "hs_inv h2 x2" "str_is (str_view h2 x2) ?t" "str_rest h2 x2 = ?m" using p(2) by (simp_all add: str_now_def hs_holds_def)
      obtain h3 where d: "tf_strdel x2 h2 = Inr h3" "heap_ok h3" "hp_blocks h3 = ?m" using tf_strdel_ok [OF q(1)] q(3) by auto
      obtain h4 b where m: "hs_tomalloc x2 h2 = Inr (h4, hs_ptr x2)" "heap_ok h4" "?m (hs_ptr x2) = None"
          "hp_blocks h4 = ?m(hs_ptr x2 \<mapsto> b)" "bk_data b = st_ptr (str_view h2 x2)"
        using hs_tomalloc_ok [OF q(1)] q(3) by (auto simp: tf_strtomalloc_def)
      show "or_oom avail ?P (hs_end e x2 h2)"
      proof (cases e)
        case Del
        then show ?thesis using d by (simp add: hs_end_def)
      next
        case To_Malloc
        then show ?thesis using m(1-4) str_is_block [OF q(2) m(5)] by (simp add: hs_end_def) blast
      qed
    qed
  qed
  then show ?thesis by (simp add: or_oom_def split: sum.split)
qed

lemma string_owns_memory_witness:
  "\<exists>h' p b. str_life (\<lambda>_. True) (New2 (ascii ''abc'')) [Cat [1, 2], Dup, Cat2 (replicate 20 65)] To_Malloc empty_heap = Inr (h', Some p) \<and>
     hp_blocks h' = [p \<mapsto> b] \<and> block_holds b (ascii ''abc'' @ [1, 2] @ replicate 20 65)"
proof -
  let ?cs = "[Cat [1, 2], Dup, Cat2 (replicate 20 65)]"
  let ?r = "str_life (\<lambda>_. True) (New2 (ascii ''abc'')) ?cs To_Malloc empty_heap"
  have ok: "heap_ok empty_heap" by (simp add: heap_ok_def empty_heap_def live_cost_def)
  have s: "starts_with empty_heap (New2 (ascii ''abc'')) (ascii ''abc'')" by (simp add: starts_with_def)
  have n: "length (ascii ''abc'') + sum_list (map (length \<circ> op_text) ?cs) + 1 \<le> int_max"
    by (simp add: op_text_def ascii_def int_max_def)
  have t: "foldl spec_step (ascii ''abc'') ?cs = ascii ''abc'' @ [1, 2] @ replicate 20 65"
    by (simp add: spec_step_def op_text_def)
  have o: "others empty_heap (New2 (ascii ''abc'')) = (\<lambda>_. None)" by (simp add: others_def empty_heap_def)
  note u = string_owns_memory [OF ok s n, of "\<lambda>_. True" To_Malloc, unfolded t o]
  then obtain h' r where "?r = Inr (h', r)" by (cases ?r) auto
  then show ?thesis using u by (cases r) auto
qed

end
