(* ===== verification/TF_AE_Heap.thy ===== *)
theory TF_AE_Heap
  imports TF_Malloc_Own TF_AE_Inv
begin

text \<open>
  The memory and the descriptors of the event loop of \<open>ae.c\<close>: its creation with each polling layer, the nodes of the
  time events, and its deletion.  The loop itself is that of \<open>TF_AE\<close>; here it goes with the addresses of its blocks.
  The call that opens the descriptor of a layer (\<open>epoll_create\<close>, \<open>kqueue\<close>, \<open>port_create\<close>) is the argument \<open>mk\<close>: its answer for
  the descriptors that are open.  Sizes are those of a 64-bit Linux, BSD or Solaris.
\<close>

section \<open>The code\<close>

datatype ae_layer = Epoll | Kqueue | Select | Evport

record layer_mem =
  lm_state :: nat
  lm_events :: "nat option"
  lm_fd :: "int option"

record loop_mem =
  lp_self :: nat
  lp_events :: nat
  lp_fired :: nat
  lp_api :: layer_mem
  lp_nodes :: "(int \<times> nat) list"

type_synonym ae_mem = "tf_heap \<times> int set"

text \<open>\<open>epoll_create\<close> and its relatives give a descriptor that is not open, or -1.\<close>

definition fd_doc :: "(int set \<Rightarrow> int) \<Rightarrow> bool" where
  "fd_doc mk \<longleftrightarrow> (\<forall>S. mk S = - 1 \<or> 0 \<le> mk S \<and> mk S \<notin> S)"

text \<open>A size times the number of entries, in \<open>size_t\<close>.\<close>

definition array_size :: "u64 \<Rightarrow> int \<Rightarrow> u64" where
  "array_size n setsize = n * word_of_int setsize"

text \<open>The layers with an array for the results of a poll.\<close>

definition array_api_create ::
    "u64 \<Rightarrow> (u64 \<Rightarrow> bool) \<Rightarrow> (int set \<Rightarrow> int) \<Rightarrow> int \<Rightarrow> ae_mem \<Rightarrow> c_error + ae_mem \<times> layer_mem option" where
  "array_api_create n avail mk setsize = (\<lambda>(h, S).
     rbind (tf_alloc avail 16 h) (\<lambda>(h, state).
     rbind (tf_alloc avail (array_size n setsize) h) (\<lambda>(h, events).
     let fd = mk S
     in if fd = - 1
        then rbind (tf_free (Some events) h) (\<lambda>h. rbind (tf_free (Some state) h) (\<lambda>h. Inr ((h, S), None)))
        else Inr ((h, insert fd S), Some \<lparr>lm_state = state, lm_events = Some events, lm_fd = Some fd\<rparr>))))"

definition epoll_api_create :: "(u64 \<Rightarrow> bool) \<Rightarrow> (int set \<Rightarrow> int) \<Rightarrow> int \<Rightarrow> ae_mem \<Rightarrow> c_error + ae_mem \<times> layer_mem option" where
  "epoll_api_create = array_api_create 12"

definition kqueue_api_create :: "(u64 \<Rightarrow> bool) \<Rightarrow> (int set \<Rightarrow> int) \<Rightarrow> int \<Rightarrow> ae_mem \<Rightarrow> c_error + ae_mem \<times> layer_mem option" where
  "kqueue_api_create = array_api_create 32"

definition evport_api_create :: "(u64 \<Rightarrow> bool) \<Rightarrow> (int set \<Rightarrow> int) \<Rightarrow> ae_mem \<Rightarrow> c_error + ae_mem \<times> layer_mem option" where
  "evport_api_create avail mk = (\<lambda>(h, S).
     rbind (tf_alloc avail 4104 h) (\<lambda>(h, state).
     let fd = mk S
     in if fd = - 1
        then rbind (tf_free (Some state) h) (\<lambda>h. Inr ((h, S), None))
        else Inr ((h, insert fd S), Some \<lparr>lm_state = state, lm_events = None, lm_fd = Some fd\<rparr>)))"

definition select_api_create :: "(u64 \<Rightarrow> bool) \<Rightarrow> ae_mem \<Rightarrow> c_error + ae_mem \<times> layer_mem option" where
  "select_api_create avail = (\<lambda>(h, S).
     rbind (tf_alloc avail 512 h) (\<lambda>(h, state).
     Inr ((h, S), Some \<lparr>lm_state = state, lm_events = None, lm_fd = None\<rparr>)))"

definition aeApiCreate :: "ae_layer \<Rightarrow> (u64 \<Rightarrow> bool) \<Rightarrow> (int set \<Rightarrow> int) \<Rightarrow> int \<Rightarrow> ae_mem \<Rightarrow> c_error + ae_mem \<times> layer_mem option" where
  "aeApiCreate layer avail mk setsize = (case layer of
     Epoll \<Rightarrow> epoll_api_create avail mk setsize
   | Kqueue \<Rightarrow> kqueue_api_create avail mk setsize
   | Select \<Rightarrow> select_api_create avail
   | Evport \<Rightarrow> evport_api_create avail mk)"

definition epoll_api_free :: "nat \<Rightarrow> nat \<Rightarrow> int \<Rightarrow> ae_mem \<Rightarrow> c_error + ae_mem" where
  "epoll_api_free state events fd = (\<lambda>(h, S).
     rbind (live h state) (\<lambda>_.
     rbind (tf_free (Some events) h) (\<lambda>h.
     rbind (tf_free (Some state) h) (\<lambda>h. Inr (h, S - {fd})))))"

definition kqueue_api_free :: "nat \<Rightarrow> nat \<Rightarrow> int \<Rightarrow> ae_mem \<Rightarrow> c_error + ae_mem" where
  "kqueue_api_free = epoll_api_free"

definition evport_api_free :: "nat \<Rightarrow> int \<Rightarrow> ae_mem \<Rightarrow> c_error + ae_mem" where
  "evport_api_free state fd = (\<lambda>(h, S).
     rbind (live h state) (\<lambda>_.
     rbind (tf_free (Some state) h) (\<lambda>h. Inr (h, S - {fd}))))"

definition select_api_free :: "nat \<Rightarrow> ae_mem \<Rightarrow> c_error + ae_mem" where
  "select_api_free state = (\<lambda>(h, S). rbind (tf_free (Some state) h) (\<lambda>h. Inr (h, S)))"

text \<open>The layer that was compiled in is known by what its state holds; epoll and kqueue free the same things.\<close>

definition aeApiFree :: "layer_mem \<Rightarrow> ae_mem \<Rightarrow> c_error + ae_mem" where
  "aeApiFree a = (case (lm_events a, lm_fd a) of
     (Some events, Some fd) \<Rightarrow> epoll_api_free (lm_state a) events fd
   | (None, Some fd) \<Rightarrow> evport_api_free (lm_state a) fd
   | (_, None) \<Rightarrow> select_api_free (lm_state a))"

text \<open>After the layer: the loop is filled in, or everything is freed again.  \<open>k\<close> is what the layer starts with.\<close>

definition finish_loop ::
    "'k \<Rightarrow> int \<Rightarrow> int \<Rightarrow> nat \<Rightarrow> nat \<Rightarrow> nat \<Rightarrow> ae_mem \<times> layer_mem option \<Rightarrow> c_error + ae_mem \<times> ('k ae_loop \<times> loop_mem) option" where
  "finish_loop k now setsize self events fired = (\<lambda>((h, S), a).
     rbind (aeCreateEventLoop (map_option (\<lambda>_. k) a) now setsize) (\<lambda>el.
     case (el, a) of
       (Some el, Some a) \<Rightarrow>
         Inr ((h, S), Some (el, \<lparr>lp_self = self, lp_events = events, lp_fired = fired, lp_api = a, lp_nodes = []\<rparr>))
     | _ \<Rightarrow>
         rbind (tf_free (Some events) h) (\<lambda>h.
         rbind (tf_free (Some fired) h) (\<lambda>h.
         rbind (tf_free (Some self) h) (\<lambda>h. Inr ((h, S), None))))))"

definition create_loop ::
    "ae_layer \<Rightarrow> (u64 \<Rightarrow> bool) \<Rightarrow> (int set \<Rightarrow> int) \<Rightarrow> 'k \<Rightarrow> int \<Rightarrow> int \<Rightarrow> ae_mem \<Rightarrow> c_error + ae_mem \<times> ('k ae_loop \<times> loop_mem) option" where
  "create_loop layer avail mk k now setsize = (\<lambda>(h, S).
     rbind (tf_alloc avail 72 h) (\<lambda>(h, self).
     rbind (tf_alloc avail (array_size 32 setsize) h) (\<lambda>(h, events).
     rbind (tf_alloc avail (array_size 8 setsize) h) (\<lambda>(h, fired).
     rbind (aeApiCreate layer avail mk setsize (h, S)) (finish_loop k now setsize self events fired)))))"

definition aeDeleteEventLoop :: "loop_mem \<Rightarrow> ae_mem \<Rightarrow> c_error + ae_mem" where
  "aeDeleteEventLoop m = (\<lambda>(h, S).
     rbind (live h (lp_self m)) (\<lambda>_.
     rbind (aeApiFree (lp_api m) (h, S)) (\<lambda>(h, S).
     rbind (tf_free (Some (lp_events m)) h) (\<lambda>h.
     rbind (tf_free (Some (lp_fired m)) h) (\<lambda>h.
     rbind (tf_free (Some (lp_self m)) h) (\<lambda>h. Inr (h, S)))))))"

definition aeApiName :: "ae_layer \<Rightarrow> string" where
  "aeApiName layer = (case layer of Epoll \<Rightarrow> ''epoll'' | Kqueue \<Rightarrow> ''kqueue'' | Select \<Rightarrow> ''select'' | Evport \<Rightarrow> ''evport'')"

text \<open>The walk along the nodes to the one with an identifier: its address, and the nodes without it.\<close>

fun node_walk :: "int \<Rightarrow> (int \<times> nat) list \<Rightarrow> tf_heap \<Rightarrow> c_error + (nat \<times> (int \<times> nat) list) option" where
  "node_walk i [] h = Inr None"
| "node_walk i ((j, p) # ns) h =
     rbind (live h p) (\<lambda>_.
     if j = i then Inr (Some (p, ns))
     else rbind (node_walk i ns h) (\<lambda>r. Inr (map_option (\<lambda>(q, ns). (q, (j, p) # ns)) r)))"

type_synonym ('k, 'w) loop_state = "('k, 'w) ae_state \<times> loop_mem \<times> tf_heap"

definition create_timer ::
    "(u64 \<Rightarrow> bool) \<Rightarrow> ('k, 'w) ae_env \<Rightarrow> int \<Rightarrow> nat \<Rightarrow> nat \<Rightarrow> nat option \<Rightarrow> ('k, 'w) loop_state \<Rightarrow> c_error + ('k, 'w) loop_state" where
  "create_timer avail env ms proc data fin = (\<lambda>(st, m, h).
     rbind (live h (lp_self m)) (\<lambda>_.
     rbind (aeCreateTimeEvent env ms proc data fin st) (\<lambda>(st, i).
     rbind (tf_alloc avail 56 h) (\<lambda>(h, p).
     Inr (st, m\<lparr>lp_nodes := (i, p) # lp_nodes m\<rparr>, h)))))"

definition delete_timer :: "('k, 'w) ae_env \<Rightarrow> int \<Rightarrow> ('k, 'w) loop_state \<Rightarrow> c_error + ('k, 'w) loop_state" where
  "delete_timer env i = (\<lambda>(st, m, h).
     rbind (live h (lp_self m)) (\<lambda>_.
     rbind (node_walk i (lp_nodes m) h) (\<lambda>r.
     let (st, _) = aeDeleteTimeEvent env i st
     in case r of
          None \<Rightarrow> Inr (st, m, h)
        | Some (p, ns) \<Rightarrow> rbind (tf_free (Some p) h) (\<lambda>h. Inr (st, m\<lparr>lp_nodes := ns\<rparr>, h)))))"

definition modify_timer :: "('k, 'w) ae_env \<Rightarrow> int \<Rightarrow> int \<Rightarrow> ('k, 'w) loop_state \<Rightarrow> c_error + ('k, 'w) loop_state" where
  "modify_timer env i ms = (\<lambda>(st, m, h).
     rbind (live h (lp_self m)) (\<lambda>_.
     rbind (node_walk i (lp_nodes m) h) (\<lambda>_.
     Inr (fst (aeModifyTimeEvent env i ms st), m, h))))"

text \<open>The life of a loop.\<close>

datatype timer_op = New_Timer int nat nat "nat option" | Del_Timer int | Mod_Timer int int

definition timer_step :: "(u64 \<Rightarrow> bool) \<Rightarrow> ('k, 'w) ae_env \<Rightarrow> timer_op \<Rightarrow> ('k, 'w) loop_state \<Rightarrow> c_error + ('k, 'w) loop_state" where
  "timer_step avail env c = (case c of
     New_Timer ms proc data fin \<Rightarrow> create_timer avail env ms proc data fin
   | Del_Timer i \<Rightarrow> delete_timer env i
   | Mod_Timer i ms \<Rightarrow> modify_timer env i ms)"

fun timer_run :: "(u64 \<Rightarrow> bool) \<Rightarrow> ('k, 'w) ae_env \<Rightarrow> timer_op list \<Rightarrow> ('k, 'w) loop_state \<Rightarrow> c_error + ('k, 'w) loop_state" where
  "timer_run avail env [] s = Inr s"
| "timer_run avail env (c # cs) s = rbind (timer_step avail env c s) (timer_run avail env cs)"

definition loop_life ::
    "ae_layer \<Rightarrow> (u64 \<Rightarrow> bool) \<Rightarrow> (int set \<Rightarrow> int) \<Rightarrow> ('k, 'w) ae_env \<Rightarrow> 'k \<Rightarrow> int \<Rightarrow> timer_op list \<Rightarrow> 'w \<Rightarrow> ae_mem \<Rightarrow>
     c_error + ae_mem \<times> (('k, 'w) ae_state \<times> nat list) option" where
  "loop_life layer avail mk env k setsize cs w mem =
     (let (now, w) = env_clock env w
      in rbind (create_loop layer avail mk k now setsize mem) (\<lambda>((h, S), r).
         case r of
           None \<Rightarrow> Inr ((h, S), None)
         | Some (el, m) \<Rightarrow>
             rbind (timer_run avail env cs ((el, w), m, h)) (\<lambda>(st, m, h).
             rbind (aeDeleteEventLoop m (h, S)) (\<lambda>mem.
             Inr (mem, Some (st, map snd (lp_nodes m)))))))"

section \<open>What a loop owns\<close>

definition api_blocks :: "layer_mem \<Rightarrow> nat list" where
  "api_blocks a = (case (lm_events a, lm_fd a) of (Some e, Some _) \<Rightarrow> [e] | _ \<Rightarrow> []) @ [lm_state a]"

definition api_close :: "int option \<Rightarrow> int set \<Rightarrow> int set" where
  "api_close fd S = (case fd of None \<Rightarrow> S | Some fd \<Rightarrow> S - {fd})"

definition loop_blocks :: "loop_mem \<Rightarrow> nat list" where
  "loop_blocks m = api_blocks (lp_api m) @ [lp_events m, lp_fired m, lp_self m]"

definition node_addrs :: "loop_mem \<Rightarrow> nat list" where
  "node_addrs m = map snd (lp_nodes m)"

definition api_opened :: "int set \<Rightarrow> layer_mem \<Rightarrow> int set \<Rightarrow> bool" where
  "api_opened S a S' \<longleftrightarrow> api_close (lm_fd a) S' = S"

lemma or_oomI: "r = Inr x \<Longrightarrow> P x \<Longrightarrow> or_oom avail P r"
  by simp

lemma array_size_ok:
  assumes "0 \<le> n" "n \<le> int int_max" "unat k \<le> 32"
  shows "unat (array_size k n) + 8 < 2 ^ 64"
proof -
  have "unat (word_of_int n :: u64) = nat n"
    using assms(1,2) by (simp add: int_max_def unsigned_of_int take_bit_int_eq_self nat_eq_iff2)
  then have "unat (array_size k n) \<le> unat k * nat n" by (simp add: array_size_def unat_word_ariths)
  also have "\<dots> \<le> 32 * int_max" using assms by (intro mult_le_mono) simp_all
  finally show ?thesis by (simp add: int_max_def)
qed

definition created :: "nat list \<Rightarrow> (nat \<Rightarrow> block option) \<Rightarrow> int set \<Rightarrow> ae_mem \<times> layer_mem option \<Rightarrow> bool" where
  "created ps base S = (\<lambda>((h, S'), r). case r of
     None \<Rightarrow> owns h ps base \<and> S' = S
   | Some a \<Rightarrow> owns h (api_blocks a @ ps) base \<and> api_opened S a S')"

lemma array_api_ok:
  assumes o: "owns h ps base" and mk: "fd_doc mk" and n: "unat (array_size k n) + 8 < 2 ^ 64"
  shows "or_oom avail (created ps base S) (array_api_create k avail mk n (h, S))"
  unfolding array_api_create_def prod.case
proof (rule or_oom_bind [OF owns_alloc [OF o]], simp, clarify)
  fix h1 state
  assume o1: "owns h1 (state # ps) base"
  show "or_oom avail (created ps base S) (rbind (tf_alloc avail (array_size k n) h1) (\<lambda>(h, events).
     let fd = mk S
     in if fd = - 1
        then rbind (tf_free (Some events) h) (\<lambda>h. rbind (tf_free (Some state) h) (\<lambda>h. Inr ((h, S), None)))
        else Inr ((h, insert fd S), Some \<lparr>lm_state = state, lm_events = Some events, lm_fd = Some fd\<rparr>)))"
  proof (rule or_oom_bind [OF owns_alloc [OF o1 n]], clarify)
    fix h2 events
    assume o2: "owns h2 (events # state # ps) base"
    obtain h3 where h3: "tf_free (Some events) h2 = Inr h3" "owns h3 (state # ps) base" using owns_free [OF o2] by blast
    obtain h4 where h4: "tf_free (Some state) h3 = Inr h4" "owns h4 ps base" using owns_free [OF h3(2)] by blast
    show "or_oom avail (created ps base S) (let fd = mk S
     in if fd = - 1
        then rbind (tf_free (Some events) h2) (\<lambda>h. rbind (tf_free (Some state) h) (\<lambda>h. Inr ((h, S), None)))
        else Inr ((h2, insert fd S), Some \<lparr>lm_state = state, lm_events = Some events, lm_fd = Some fd\<rparr>))"
      using h3 h4 o2 mk by (auto simp: Let_def created_def api_blocks_def api_opened_def api_close_def fd_doc_def)
  qed
qed

lemma evport_api_ok:
  assumes o: "owns h ps base" and mk: "fd_doc mk"
  shows "or_oom avail (created ps base S) (evport_api_create avail mk (h, S))"
  unfolding evport_api_create_def prod.case
proof (rule or_oom_bind [OF owns_alloc [OF o]], simp, clarify)
  fix h1 state
  assume o1: "owns h1 (state # ps) base"
  obtain h2 where "tf_free (Some state) h1 = Inr h2" "owns h2 ps base" using owns_free [OF o1] by blast
  then show "or_oom avail (created ps base S) (let fd = mk S
     in if fd = - 1
        then rbind (tf_free (Some state) h1) (\<lambda>h. Inr ((h, S), None))
        else Inr ((h1, insert fd S), Some \<lparr>lm_state = state, lm_events = None, lm_fd = Some fd\<rparr>))"
    using o1 mk by (auto simp: Let_def created_def api_blocks_def api_opened_def api_close_def fd_doc_def)
qed

lemma select_api_ok:
  assumes o: "owns h ps base"
  shows "or_oom avail (created ps base S) (select_api_create avail (h, S))"
  unfolding select_api_create_def prod.case
  by (rule or_oom_bind [OF owns_alloc [OF o]]) (auto simp: created_def api_blocks_def api_opened_def api_close_def)

lemma aeApiCreate_ok:
  assumes o: "owns h ps base" and mk: "fd_doc mk" and n: "0 \<le> n" "n \<le> int int_max"
  shows "or_oom avail (created ps base S) (aeApiCreate layer avail mk n (h, S))"
  using array_api_ok [OF o mk array_size_ok [OF n], of 12 avail S] array_api_ok [OF o mk array_size_ok [OF n], of 32 avail S]
    evport_api_ok [OF o mk] select_api_ok [OF o]
  by (cases layer) (simp_all add: aeApiCreate_def epoll_api_create_def kqueue_api_create_def)

lemma aeApiFree_ok:
  assumes o: "owns h (api_blocks a @ ps) base"
  shows "\<exists>h'. aeApiFree a (h, S) = Inr (h', api_close (lm_fd a) S) \<and> owns h' ps base"
proof -
  have l: "live h (lm_state a) = Inr (the (hp_blocks h (lm_state a)))" by (rule owns_live [OF o]) (simp add: api_blocks_def)
  have s: "\<exists>h'. tf_free (Some (lm_state a)) h = Inr h' \<and> owns h' ps base" if "owns h (lm_state a # ps) base" for h
    using owns_free [OF that] by blast
  show ?thesis
  proof (cases "lm_fd a")
    case None
    then show ?thesis using s [of h] o by (auto simp: api_blocks_def aeApiFree_def select_api_free_def api_close_def split: option.splits)
  next
    case (Some fd)
    show ?thesis
    proof (cases "lm_events a")
      case None
      then show ?thesis using s [of h] o Some l by (auto simp: api_blocks_def aeApiFree_def evport_api_free_def api_close_def)
    next
      case (Some e)
      obtain h1 where "tf_free (Some e) h = Inr h1" "owns h1 (lm_state a # ps) base"
        using owns_free [of h e "lm_state a # ps" base] o Some \<open>lm_fd a = Some fd\<close> by (auto simp: api_blocks_def)
      then show ?thesis using s [of h1] Some \<open>lm_fd a = Some fd\<close> l by (auto simp: aeApiFree_def epoll_api_free_def api_close_def)
    qed
  qed
qed

text \<open>The heap and the loop together: the nodes in memory are those of the list of time events, in its order.\<close>

definition loop_inv :: "(nat \<Rightarrow> block option) \<Rightarrow> ('k, 'w) loop_state \<Rightarrow> bool" where
  "loop_inv base = (\<lambda>((el, w), m, h). owns h (node_addrs m @ loop_blocks m) base \<and>
     map fst (lp_nodes m) = map te_id (el_timers el) \<and> 0 \<le> el_next el)"

definition next_id :: "('k, 'w) loop_state \<Rightarrow> int" where
  "next_id = (\<lambda>((el, w), m, h). el_next el)"

definition loop_made :: "(nat \<Rightarrow> block option) \<Rightarrow> int set \<Rightarrow> 'w \<Rightarrow> ae_mem \<times> ('k ae_loop \<times> loop_mem) option \<Rightarrow> bool" where
  "loop_made base S w = (\<lambda>((h, S'), r). case r of
     None \<Rightarrow> owns h [] base \<and> S' = S
   | Some (el, m) \<Rightarrow> loop_inv base ((el, w), m, h) \<and> el_next el = 0 \<and> api_opened S (lp_api m) S')"

lemma undo_loop:
  assumes "owns h [fired, events, self] base"
  shows "or_oom avail (loop_made base S w) (rbind (tf_free (Some events) h) (\<lambda>h. rbind (tf_free (Some fired) h) (\<lambda>h.
    rbind (tf_free (Some self) h) (\<lambda>h. Inr ((h, S), None)))))"
proof -
  have "owns h [events, fired, self] base" using assms owns_perm [of "[events, fired, self]" "[fired, events, self]"] by (simp add: add_mset_commute)
  then obtain h1 where h1: "tf_free (Some events) h = Inr h1" "owns h1 [fired, self] base" using owns_free by blast
  obtain h2 where h2: "tf_free (Some fired) h1 = Inr h2" "owns h2 [self] base" using owns_free [OF h1(2)] by blast
  obtain h3 where "tf_free (Some self) h2 = Inr h3" "owns h3 [] base" using owns_free [OF h2(2)] by blast
  then show ?thesis using h1(1) h2(1) by (simp add: loop_made_def)
qed

lemma finish_loop_ok:
  assumes c: "created [fired, events, self] base S y" and n: "0 \<le> n"
  shows "or_oom avail (loop_made base S w) (finish_loop k now n self events fired y)"
proof -
  obtain h S' r where y: "y = ((h, S'), r)" by (metis prod.exhaust)
  show ?thesis
  proof (cases r)
    case None
    then show ?thesis using c y undo_loop [of h fired events self base] n
      by (simp add: created_def aeCreateEventLoop_def finish_loop_def)
  next
    case (Some a)
    then have "owns h (api_blocks a @ [fired, events, self]) base" "api_opened S a S'" using c y by (simp_all add: created_def)
    then have "owns h (api_blocks a @ [events, fired, self]) base" "api_opened S a S'"
      using owns_perm [of "api_blocks a @ [events, fired, self]" "api_blocks a @ [fired, events, self]"] by (simp_all add: add_mset_commute)
    then show ?thesis using Some y n
      by (auto simp: aeCreateEventLoop_def loop_made_def loop_inv_def node_addrs_def loop_blocks_def finish_loop_def)
  qed
qed

lemma create_loop_ok:
  assumes h: "heap_ok h" and mk: "fd_doc mk" and n: "0 \<le> n" "n \<le> int int_max"
  shows "or_oom avail (loop_made (hp_blocks h) S w) (create_loop layer avail mk k now n (h, S))"
proof -
  let ?b = "hp_blocks h"
  have o: "owns h [] ?b" using h by (rule owns_nothing)
  have s: "unat (array_size 32 n) + 8 < 2 ^ 64" "unat (array_size 8 n) + 8 < 2 ^ 64" by (rule array_size_ok [OF n], simp)+
  show ?thesis unfolding create_loop_def prod.case
  proof (rule or_oom_bind [OF owns_alloc [OF o]], simp, clarify)
    fix h1 self
    assume "owns h1 [self] ?b"
    from owns_alloc [OF this s(1)]
    show "or_oom avail (loop_made ?b S w) (rbind (tf_alloc avail (array_size 32 n) h1) (\<lambda>(h, events).
       rbind (tf_alloc avail (array_size 8 n) h) (\<lambda>(h, fired).
       rbind (aeApiCreate layer avail mk n (h, S)) (finish_loop k now n self events fired))))"
    proof (rule or_oom_bind, clarify)
      fix h2 events
      assume "owns h2 [events, self] ?b"
      from owns_alloc [OF this s(2)]
      show "or_oom avail (loop_made ?b S w) (rbind (tf_alloc avail (array_size 8 n) h2) (\<lambda>(h, fired).
         rbind (aeApiCreate layer avail mk n (h, S)) (finish_loop k now n self events fired)))"
      proof (rule or_oom_bind, clarify)
        fix h3 fired
        assume "owns h3 [fired, events, self] ?b"
        then show "or_oom avail (loop_made ?b S w) (rbind (aeApiCreate layer avail mk n (h3, S)) (finish_loop k now n self events fired))"
          using aeApiCreate_ok [OF _ mk n] finish_loop_ok [OF _ n(1)] by (intro or_oom_bind)
      qed
    qed
  qed
qed

section \<open>The nodes of the time events\<close>

text \<open>The walk in memory finds what the list of \<open>TF_AE\<close> says.\<close>

lemma node_walk_ok:
  "map fst ns = map te_id ts \<Longrightarrow> (\<And>p. p \<in> set (map snd ns) \<Longrightarrow> \<exists>b. live h p = Inr b) \<Longrightarrow>
   \<exists>r. node_walk i ns h = Inr r \<and> (case r of
     None \<Rightarrow> te_remove i ts = None
   | Some (p, ns') \<Rightarrow> \<exists>te ts'. te_remove i ts = Some (te, ts') \<and> map fst ns' = map te_id ts' \<and>
       mset (map snd ns) = mset (p # map snd ns'))"
proof (induction ns arbitrary: ts)
  case Nil
  then show ?case by simp
next
  case (Cons n ns)
  obtain j p where n: "n = (j, p)" by force
  obtain t ts' where ts: "ts = t # ts'" "te_id t = j" "map fst ns = map te_id ts'" using Cons.prems(1) n by (cases ts) auto
  obtain b where b: "live h p = Inr b" using Cons.prems(2) [of p] n by auto
  obtain r where r: "node_walk i ns h = Inr r" "case r of
     None \<Rightarrow> te_remove i ts' = None
   | Some (q, ns') \<Rightarrow> \<exists>te us. te_remove i ts' = Some (te, us) \<and> map fst ns' = map te_id us \<and> mset (map snd ns) = mset (q # map snd ns')"
    using Cons.IH [OF ts(3)] Cons.prems(2) by auto
  show ?case
  proof (cases "j = i")
    case True
    then show ?thesis using b n ts by auto
  next
    case False
    then show ?thesis using b n ts r by (cases r) auto
  qed
qed

lemma loop_inv_live:
  assumes "loop_inv base ((el, w), m, h)"
  shows "live h (lp_self m) = Inr (the (hp_blocks h (lp_self m)))" "p \<in> set (map snd (lp_nodes m)) \<Longrightarrow> \<exists>b. live h p = Inr b"
proof -
  have o: "owns h (node_addrs m @ loop_blocks m) base" using assms by (simp add: loop_inv_def)
  show "live h (lp_self m) = Inr (the (hp_blocks h (lp_self m)))" by (rule owns_live [OF o]) (simp add: loop_blocks_def)
  show "\<exists>b. live h p = Inr b" if "p \<in> set (map snd (lp_nodes m))" using owns_live [OF o, of p] that by (auto simp: node_addrs_def)
qed

text \<open>An operation keeps the invariant and the blocks of the loop, and creates at most one identifier.\<close>

definition timer_post :: "(nat \<Rightarrow> block option) \<Rightarrow> ('k, 'w) loop_state \<Rightarrow> ('k, 'w) loop_state \<Rightarrow> bool" where
  "timer_post base s s' \<longleftrightarrow> loop_inv base s' \<and> next_id s' \<le> next_id s + 1 \<and> lp_api (fst (snd s')) = lp_api (fst (snd s))"

lemma create_timer_ok:
  assumes i: "loop_inv base s" and n: "next_id s + 1 \<le> i64_max"
  shows "or_oom avail (timer_post base s) (create_timer avail env ms proc data fin s)"
proof -
  obtain el w m h where s: "s = ((el, w), m, h)" by (metis prod.exhaust)
  have o: "owns h (node_addrs m @ loop_blocks m) base" "0 \<le> el_next el" "map fst (lp_nodes m) = map te_id (el_timers el)"
    using i s by (simp_all add: loop_inv_def)
  obtain te w' where c: "aeCreateTimeEvent env ms proc data fin (el, w) =
      Inr ((el\<lparr>el_next := el_next el + 1, el_timers := te # el_timers el\<rparr>, w'), el_next el)" "te_id te = el_next el"
  proof -
    obtain sec x w' where "aeAddMillisecondsToNow env ms w = ((sec, x), w')" by (metis prod.exhaust)
    then show ?thesis using that n s o(2) by (simp add: aeCreateTimeEvent_def next_id_def)
  qed
  show ?thesis unfolding s create_timer_def prod.case loop_inv_live(1) [OF i [unfolded s]] rbind_Inr c
  proof (rule or_oom_bind [OF owns_alloc [OF o(1)]], simp, clarify)
    fix h' p
    assume "owns h' (p # node_addrs m @ loop_blocks m) base"
    then show "or_oom avail (timer_post base ((el, w), m, h)) (Inr ((el\<lparr>el_next := el_next el + 1, el_timers := te # el_timers el\<rparr>, w'),
        m\<lparr>lp_nodes := (el_next el, p) # lp_nodes m\<rparr>, h'))"
      using o c(2) by (simp add: timer_post_def loop_inv_def next_id_def node_addrs_def loop_blocks_def)
  qed
qed

lemma delete_timer_ok:
  assumes i: "loop_inv base s"
  shows "or_oom avail (timer_post base s) (delete_timer env i s)"
proof -
  obtain el w m h where s: "s = ((el, w), m, h)" by (metis prod.exhaust)
  have o: "owns h (node_addrs m @ loop_blocks m) base" "0 \<le> el_next el" "map fst (lp_nodes m) = map te_id (el_timers el)"
    using assms s by (simp_all add: loop_inv_def)
  obtain r where r: "node_walk i (lp_nodes m) h = Inr r" "case r of
     None \<Rightarrow> te_remove i (el_timers el) = None
   | Some (p, ns') \<Rightarrow> \<exists>te ts'. te_remove i (el_timers el) = Some (te, ts') \<and> map fst ns' = map te_id ts' \<and>
       mset (map snd (lp_nodes m)) = mset (p # map snd ns')"
    using node_walk_ok [OF o(3), of h i] loop_inv_live(2) [OF assms [unfolded s]] by auto
  note l = loop_inv_live(1) [OF assms [unfolded s]]
  show ?thesis
  proof (cases r)
    case None
    then show ?thesis using r l assms s by (simp add: delete_timer_def aeDeleteTimeEvent_def timer_post_def)
  next
    case (Some q)
    obtain p ns te ts where q: "q = (p, ns)" "te_remove i (el_timers el) = Some (te, ts)" "map fst ns = map te_id ts"
        "mset (map snd (lp_nodes m)) = mset (p # map snd ns)"
      using r(2) Some by auto
    have "owns h (p # map snd ns @ loop_blocks m) base"
      using o(1) q(4) owns_perm [of "p # map snd ns @ loop_blocks m" "node_addrs m @ loop_blocks m"] by (simp add: node_addrs_def)
    from owns_free [OF this] obtain h' where "tf_free (Some p) h = Inr h'" "owns h' (map snd ns @ loop_blocks m) base" by blast
    then show ?thesis using r(1) l Some s q o(2)
      by (simp add: delete_timer_def aeDeleteTimeEvent_def timer_post_def loop_inv_def next_id_def node_addrs_def loop_blocks_def)
  qed
qed

lemma modify_timer_ok:
  assumes i: "loop_inv base s"
  shows "or_oom avail (timer_post base s) (modify_timer env j ms s)"
proof -
  obtain el w m h where s: "s = ((el, w), m, h)" by (metis prod.exhaust)
  have o: "map fst (lp_nodes m) = map te_id (el_timers el)" using i s by (simp add: loop_inv_def)
  obtain r where r: "node_walk j (lp_nodes m) h = Inr r"
    using node_walk_ok [OF o, of h j] loop_inv_live(2) [OF i [unfolded s]] by auto
  obtain el' w' where f: "fst (aeModifyTimeEvent env j ms (el, w)) = (el', w')" by (metis prod.exhaust)
  then have "map te_id (el_timers el') = map te_id (el_timers el) \<and> el_next el' = el_next el"
    by (auto simp: aeModifyTimeEvent_def te_set_ids split: prod.splits option.splits if_splits)
  then show ?thesis using i s r loop_inv_live(1) [OF i [unfolded s]] f
    by (simp add: modify_timer_def timer_post_def loop_inv_def next_id_def)
qed

lemma timer_run_ok:
  "loop_inv base s \<Longrightarrow> next_id s + int (length cs) \<le> i64_max \<Longrightarrow>
   or_oom avail (\<lambda>s'. loop_inv base s' \<and> lp_api (fst (snd s')) = lp_api (fst (snd s))) (timer_run avail env cs s)"
proof (induction cs arbitrary: s)
  case Nil
  then show ?case by simp
next
  case (Cons c cs)
  have n: "next_id s + 1 \<le> i64_max" using Cons.prems(2) by simp
  have "or_oom avail (timer_post base s) (timer_step avail env c s)"
    using create_timer_ok [OF Cons.prems(1) n] delete_timer_ok [OF Cons.prems(1)] modify_timer_ok [OF Cons.prems(1)]
    by (cases c) (simp_all add: timer_step_def)
  then show ?case unfolding timer_run.simps
  proof (rule or_oom_bind)
    fix s'
    assume p: "timer_post base s s'"
    then have "next_id s' + int (length cs) \<le> i64_max" using Cons.prems(2) by (simp add: timer_post_def)
    then show "or_oom avail (\<lambda>s'. loop_inv base s' \<and> lp_api (fst (snd s')) = lp_api (fst (snd s))) (timer_run avail env cs s')"
      using Cons.IH [of s'] p by (simp add: timer_post_def)
  qed
qed

lemma aeDeleteEventLoop_ok:
  assumes i: "loop_inv base ((el, w), m, h)"
  shows "\<exists>h'. aeDeleteEventLoop m (h, S) = Inr (h', api_close (lm_fd (lp_api m)) S) \<and> owns h' (node_addrs m) base"
proof -
  have o: "owns h (node_addrs m @ loop_blocks m) base" using i by (simp add: loop_inv_def)
  then have "owns h (api_blocks (lp_api m) @ lp_events m # lp_fired m # lp_self m # node_addrs m) base"
    using owns_perm [of "api_blocks (lp_api m) @ lp_events m # lp_fired m # lp_self m # node_addrs m" "node_addrs m @ loop_blocks m"]
    by (simp add: loop_blocks_def ac_simps)
  from aeApiFree_ok [OF this] obtain h1 where h1: "aeApiFree (lp_api m) (h, S) = Inr (h1, api_close (lm_fd (lp_api m)) S)"
      "owns h1 (lp_events m # lp_fired m # lp_self m # node_addrs m) base" by blast
  obtain h2 where h2: "tf_free (Some (lp_events m)) h1 = Inr h2" "owns h2 (lp_fired m # lp_self m # node_addrs m) base"
    using owns_free [OF h1(2)] by blast
  obtain h3 where h3: "tf_free (Some (lp_fired m)) h2 = Inr h3" "owns h3 (lp_self m # node_addrs m) base"
    using owns_free [OF h2(2)] by blast
  obtain h4 where "tf_free (Some (lp_self m)) h3 = Inr h4" "owns h4 (node_addrs m) base" using owns_free [OF h3(2)] by blast
  then show ?thesis using h1(1) h2(1) h3(1) loop_inv_live(1) [OF i] by (simp add: aeDeleteEventLoop_def)
qed

section \<open>The life of a loop\<close>

lemma owns_none: "owns h [] base \<Longrightarrow> heap_ok h \<and> hp_blocks h = base"
  by (simp add: owns_def restrict_map_def)

definition life_post ::
    "(nat \<Rightarrow> block option) \<Rightarrow> int set \<Rightarrow> ae_mem \<times> (('k, 'w) ae_state \<times> nat list) option \<Rightarrow> bool" where
  "life_post base S = (\<lambda>((h, S'), r). S' = S \<and> (case r of
     None \<Rightarrow> owns h [] base
   | Some ((el, w), ps) \<Rightarrow> length ps = length (el_timers el) \<and> owns h ps base))"

lemma life_result:
  assumes "or_oom avail (life_post base S) r"
  shows "case r of
      Inl e \<Rightarrow> e = Out_Of_Memory \<and> (\<exists>n. \<not> avail n)
    | Inr ((h, S'), r) \<Rightarrow> S' = S \<and> heap_ok h \<and> (case r of
        None \<Rightarrow> hp_blocks h = base
      | Some ((el, w), ps) \<Rightarrow> length ps = length (el_timers el) \<and> distinct ps \<and>
          set ps \<subseteq> dom (hp_blocks h) - dom base \<and> hp_blocks h |` (- set ps) = base)"
proof (cases r)
  case (Inr z)
  obtain h S' q where z: "z = ((h, S'), q)" by (metis prod.exhaust)
  show ?thesis
  proof (cases q)
    case None
    then show ?thesis using assms Inr z owns_none [of h base] by (simp add: life_post_def)
  next
    case (Some y)
    obtain el w ps where y: "y = ((el, w), ps)" by (metis prod.exhaust)
    then have "length ps = length (el_timers el)" "owns h ps base" "S' = S" using assms Inr z Some by (simp_all add: life_post_def)
    then show ?thesis using Inr z Some y owns_fresh [of h ps base] by (auto simp: owns_def)
  qed
qed (use assms in simp)

text \<open>
  C14: An event loop gives back its memory and its descriptor, except the nodes of its time events.  With any of the four
  polling layers, the loop is created, time events are created, deleted and modified in any order, and the loop is deleted:
  unless an allocation fails, no node is used after it was freed and nothing is freed twice.  If the layer could not be
  created, heap and descriptors are what they were; otherwise the descriptors are, and the heap has in addition
  exactly one block for every time event that was still registered, which nothing can free any more.
\<close>
theorem loop_leaves_timers:
  assumes "heap_ok h" "fd_doc mk" "0 \<le> n" "n \<le> int int_max" "int (length cs) \<le> i64_max"
  shows "case loop_life layer avail mk env k n cs w (h, S) of
      Inl e \<Rightarrow> e = Out_Of_Memory \<and> (\<exists>n. \<not> avail n)
    | Inr ((h', S'), r) \<Rightarrow> S' = S \<and> heap_ok h' \<and> (case r of
        None \<Rightarrow> hp_blocks h' = hp_blocks h
      | Some ((el, w'), ps) \<Rightarrow> length ps = length (el_timers el) \<and> distinct ps \<and>
          set ps \<subseteq> dom (hp_blocks h') - dom (hp_blocks h) \<and> hp_blocks h' |` (- set ps) = hp_blocks h)"
proof -
  let ?b = "hp_blocks h"
  let ?Q = "life_post ?b S"
  obtain now w0 where c: "env_clock env w = (now, w0)" by force
  have "or_oom avail ?Q (loop_life layer avail mk env k n cs w (h, S))" unfolding loop_life_def c Let_def prod.case
  proof (rule or_oom_bind [OF create_loop_ok [OF assms(1-4), where w = w0]], goal_cases)
    case (1 y)
    obtain h1 S1 r where y: "y = ((h1, S1), r)" by (metis prod.exhaust)
    show ?case
    proof (cases r)
      case None
      then show ?thesis using 1 y by (simp add: loop_made_def life_post_def)
    next
      case (Some em)
      obtain el m where em: "em = (el, m)" by force
      have i: "loop_inv ?b ((el, w0), m, h1)" "el_next el = 0" "api_opened S (lp_api m) S1" using 1 y Some em by (simp_all add: loop_made_def)
      have n: "next_id ((el, w0), m, h1) + int (length cs) \<le> i64_max" using i(2) assms(5) by (simp add: next_id_def)
      show ?thesis unfolding y Some em prod.case option.case
      proof (rule or_oom_bind [OF timer_run_ok [OF i(1) n]], clarify)
        fix el2 w2 m2 h2
        assume r: "loop_inv ?b ((el2, w2), m2, h2)" "lp_api (fst (snd ((el2, w2), m2, h2))) = lp_api (fst (snd ((el, w0), m, h1)))"
        from aeDeleteEventLoop_ok [OF r(1)] obtain h3 where
          h3: "aeDeleteEventLoop m2 (h2, S1) = Inr (h3, api_close (lm_fd (lp_api m2)) S1)" "owns h3 (node_addrs m2) ?b" by blast
        have "length (lp_nodes m2) = length (el_timers el2)" using r(1) by (auto simp: loop_inv_def dest: arg_cong [of _ _ length])
        then show "or_oom avail ?Q (rbind (aeDeleteEventLoop m2 (h2, S1)) (\<lambda>mem. Inr (mem, Some ((el2, w2), map snd (lp_nodes m2)))))"
          using h3 i(3) r(2) by (simp add: api_opened_def node_addrs_def life_post_def)
      qed
    qed
  qed
  then show ?thesis by (rule life_result)
qed

text \<open>A loop over epoll with two time events, of which one is deleted: the node of the other is left.\<close>

definition still_env :: "(unit, unit) ae_env" where
  "still_env = \<lparr>env_api = \<lparr>api_add = (\<lambda>_ k _ _. Inr (k, 0)), api_del = (\<lambda>_ k _ _. Inr k), api_poll = (\<lambda>_ _ f k _. Inr (k, f, 0))\<rparr>,
     env_time = (\<lambda>w. ((100, 0), w)), env_clock = (\<lambda>w. (100, w)), env_call = (\<lambda>_ w. (Return 0, w)), env_final = (\<lambda>_ _ w. w)\<rparr>"

definition one_fd :: "int set \<Rightarrow> int" where
  "one_fd S = (if 3 \<in> S then - 1 else 3)"

lemma still_life:
  "map_sum id (map_prod snd (map_option (\<lambda>(st, ps). (length (el_timers (fst st)), ps))))
     (loop_life Epoll (\<lambda>_. True) one_fd still_env () 1 [New_Timer 10 1 2 None, New_Timer 20 1 2 None, Del_Timer 0] () (empty_heap, {0})) =
   Inr ({0}, Some (1, [6]))"
  by code_simp

theorem loop_leaves_timers_witness:
  "\<exists>h' st p. loop_life Epoll (\<lambda>_. True) one_fd still_env () 1 [New_Timer 10 1 2 None, New_Timer 20 1 2 None, Del_Timer 0] () (empty_heap, {0}) =
     Inr ((h', {0}), Some (st, [p])) \<and> dom (hp_blocks h') = {p}"
proof -
  let ?cs = "[New_Timer 10 1 2 None, New_Timer 20 1 2 None, Del_Timer 0]"
  let ?l = "loop_life Epoll (\<lambda>_. True) one_fd still_env () 1 ?cs () (empty_heap, {0})"
  have ok: "heap_ok empty_heap" by (simp add: heap_ok_def empty_heap_def live_cost_def)
  have d: "fd_doc one_fd" by (simp add: fd_doc_def one_fd_def)
  have n: "0 \<le> (1 :: int)" "1 \<le> int int_max" "int (length ?cs) \<le> i64_max" by (simp_all add: int_max_def i64_max_def)
  obtain h' S' r where l: "?l = Inr ((h', S'), r)" using still_life by (cases ?l) auto
  obtain el w p where r: "S' = {0}" "r = Some ((el, w), [p])" using still_life l by (cases r) auto
  have "set [p] \<subseteq> dom (hp_blocks h')" "hp_blocks h' |` (- {p}) = hp_blocks empty_heap"
    using loop_leaves_timers [OF ok d n, where layer = Epoll and avail = "\<lambda>_. True" and env = still_env and k = "()" and w = "()" and S = "{0}"]
      l r by auto
  moreover from this(2) have "dom (hp_blocks h') \<inter> - {p} = {}" by (metis dom_restrict dom_empty empty_heap_def tf_heap.select_convs(1))
  ultimately have "dom (hp_blocks h') = {p}" by auto
  then show ?thesis using l r by blast
qed

end
