(* ===== verification/Spec2Isabelle.thy ===== *)
theory Spec2Isabelle
  imports TF_List_Spec TF_DES TF_MD5 TF_Base64 TF_Strings TF_Numbers TF_AE_Props TF_Malloc TF_Str TF_File TF_Rate TF_Hash TF_Path TF_Float TF_System TF_Inet
    TF_Nac_Flow TF_Nac_Init TF_Thread TF_Malloc_Conc TF_Dump TF_Nac_Exit TF_List_Heap TF_Str_Heap TF_AE_Heap
begin

text \<open>
  A verification development for tflib, a C library for servers (\<^verbatim>\<open>src/tflib\<close>), and for the relay \<open>tfnac\<close> that is built on
  it (\<^verbatim>\<open>src/tfnac\<close>).

  \<^bold>\<open>The program.\<close>  At the bottom are the allocator (\<open>tf_malloc.c\<close>), the array list (\<open>tf_list.c\<close>) and the extensible string
  (\<open>tf_string.c\<close>).  On them stand the string and number utilities (\<open>tf_util.c\<close>), the file functions (\<open>tf_file.c\<close>), which read
  lines into lists through strings, and the configuration files (\<open>tf_conf_file.c\<close>), which parse those lines into
  groups of pairs.  The codecs under \<open>expert\<close> (DES, MD5, base-64, hashes) stand alone.  The event loop (\<open>ae\<close>) keeps a table of
  file events and a list of time events over one of four polling layers; sockets (\<open>tf_socket.c\<close>), queues and shared memory
  (\<open>tf_ipc.c\<close>), threads and the log wrap the system.  The relay reads its configuration, keeps a slot in shared memory for every
  peer, and moves packets between the peers and two message queues, with the event loop in one thread and the
  receiver of the second queue in another; a pair of sockets joins them.

  \<^bold>\<open>Memory, errors and the system.\<close>  An object in memory is a list of cells and a pointer into it an index; every access is
  checked and yields an error value of \<open>c_error\<close> outside the object, so the absence of overruns is always a theorem.
  Bytes that were never written are \<^term>\<open>None\<close>.  Machine integers are words; a signed operation that can overflow is checked.
  Failed assertions and an exhausted allocator are errors too.  System calls, \<open>sprintf\<close> and floating point are arguments: records of
  functions on a state \<open>'w\<close> of the system, and what their manuals promise is a predicate whose name ends in \<open>doc\<close>.  Each of
  these predicates is shown to hold of a concrete system in the witness of a property that assumes it.

  \<^bold>\<open>Theories.\<close>
    \<^item> \<open>TF_Prelude\<close>: machine types, errors, checked access, lemmas on words and lists.
    \<^item> \<open>TF_Malloc\<close> (\<open>tf_malloc.c\<close>): the heap as a map from addresses to blocks with the counter \<open>used_memory\<close>; the counter is exactly
      the cost of the live blocks after any sequence of calls, and \<open>tf_realloc\<close> keeps the contents and every other block.
      \<open>TF_Malloc_Conc\<close> runs the updates of the counter in threads, one access to the memory at a time: with the lock or
      with atomic operations every schedule has the result of the operations in some order, and no thread waits for ever.
      \<open>TF_Malloc_Own\<close> has what the owners of blocks share: the effect of each call, and \<open>owns\<close>, a list of blocks apart from the rest.
    \<^item> \<open>TF_Vnum\<close>, \<open>TF_List\<close>, \<open>TF_List_Order\<close>, \<open>TF_List_Serial\<close>, \<open>TF_List_Spec\<close> (\<open>tf_list.c\<close>, \<open>tf_list.h\<close>, macros of \<open>tf_util.h\<close>): the array
      with its start, growth and every operation; the representation invariant \<open>tf_list_wf\<close>, the abstraction
      \<open>tf_list_elems\<close> to lists of byte strings, and the refinement of the operations on those, which are those
      of \<open>tf_list.c\<close> (\<open>abs_step\<close>) and, but for an insert at the number of elements, those of \<open>tf_list.h\<close> (\<open>doc_step\<close>); sorting and searching in the
      order of the comparator (locale \<open>comparator\<close>); dumping and loading.  The locale \<open>appendable\<close> is the interface through which other
      components fill lists.  \<open>TF_List_Heap\<close> repeats the operations on the heap of \<open>TF_Malloc\<close>, where the object, its array and
      the elements are blocks: the list owns exactly its blocks, each step does to the contents what the specification says, and
      \<open>tf_list_del\<close> gives back all of them.
    \<^item> \<open>TF_Str\<close> (\<open>tf_string.c\<close>): the string with its size and allocation, and the formatter with all its directives; \<open>str_is\<close> relates
      a string to its text, and the locale \<open>writer\<close> is the interface of everything that appends to one.  \<open>TF_Str_Heap\<close> is the
      string on the heap: each operation does to its view what \<open>TF_Str\<close> says, and the string gives back its memory.
    \<^item> \<open>TF_Strings\<close>, \<open>TF_Numbers\<close>, \<open>TF_Float\<close>, \<open>TF_Rate\<close> (\<open>tf_util.c\<close>): trimming, matching, splitting and joining; decimal, hexadecimal,
      binary and BCD conversions with every signed overflow an error; the conversions in \<open>long double\<close>; the rate limiter.
    \<^item> \<open>TF_File\<close>, \<open>TF_Path\<close> (\<open>tf_file.c\<close>): reading, writing, copying and lines, whatever pieces the system reads and writes;
      paths, directories, the removal of a tree, locks.
    \<^item> \<open>TF_Conf\<close> (\<open>tf_conf_file.c\<close>): the parser of a line in its buffer, groups and pairs, and the getters.
    \<^item> \<open>TF_DES_Tables\<close>, \<open>TF_DES\<close>, \<open>TF_MD5\<close>, \<open>TF_Base64\<close>, \<open>TF_Hash\<close> (\<open>expert\<close>): the cipher decrypts what it encrypts in each mode, the
      digest of any sequence of updates is that of the RFC, decoding inverts encoding, the last mixing steps of the hash lose nothing.
    \<^item> \<open>TF_AE\<close>, \<open>TF_AE_Proc\<close>, \<open>TF_AE_Inv\<close>, \<open>TF_AE_Timers\<close>, \<open>TF_AE_Backends\<close>, \<open>TF_AE_Evport\<close>, \<open>TF_AE_Props\<close> (\<open>ae.c\<close> and the files of the layers):
      the loop with callbacks that may call the interface again, its invariant, and the contract of a polling layer
      (locale \<open>ae_backend\<close>), proved of all four layers from the manuals of their system calls.  \<open>TF_AE_Heap\<close> has the blocks and
      the descriptor of a loop, its creation with the errors of each layer, and its deletion, which leaves the nodes of the timers.
    \<^item> \<open>TF_Net\<close>, \<open>TF_Inet\<close> (\<open>tf_socket.c\<close>, and \<open>strsep\<close> of \<open>tf_string.c\<close>): byte order, connecting, serving, accepting, full reads and writes; the
      descriptors that are open are those the caller is told of.
    \<^item> \<open>TF_IPC\<close>, \<open>TF_Thread\<close>, \<open>TF_Log\<close>, \<open>TF_Dump\<close>, \<open>TF_System\<close> (\<open>tf_ipc.c\<close>, \<open>tf_thread.c\<close>, \<open>tf_log.c\<close>, \<open>tf_system.c\<close>): queues and
      shared memory, locks and threads, the log with its file and its buffers, the layout of the hexadecimal dump (as far as
      C lets it have one), the limits of the process.
    \<^item> \<open>TF_Nac\<close>, \<open>TF_Nac_Start\<close> (\<open>tfnac/main.c\<close>, \<open>tfnac/config.c\<close>): the state of the process, the handlers, their dispatch by the event table
      (\<open>nac_step\<close>, \<open>nac_reach\<close>), and the start from the configuration to the loop.  \<open>TF_Nac_Inv\<close> and \<open>TF_Nac_Relay\<close> hold the invariant
      of the slots, the event table and the open descriptors over any layer with the contract \<open>ae_backend\<close>;
      \<open>TF_Nac_Props\<close>, \<open>TF_Nac_Flow\<close> and \<open>TF_Nac_Init\<close> the properties: the invariant of every reachable state, the timeout of silent
      sessions, the way of a request and of a response byte by byte, and that the start establishes the invariant.
      \<open>TF_Nac_Demo\<close> is a concrete relay for the witnesses.  \<open>TF_Nac_Exit\<close> is the end of the process: the receiving thread access by
      access between the handlers, the signals and the last steps of \<open>main\<close>; it ends when the queue takes the message that wakes it, and
      \<open>quit_refused\<close> has what happens when it does not.

  \<^bold>\<open>Loops.\<close>  A loop over data is a recursive function with its termination proof; no fuel is used.  A loop that depends on the
  system or on callbacks is a partial function to an option, where \<^term>\<open>None\<close> is a run that does not end: reads and writes that are
  interrupted, the pass over the time events, the main loop, the removal of a directory, the search for a limit of open files.  That
  such a loop ends is proved where the system lets it: writing when every call makes progress, a pass over the timers
  when the clock stands still and callbacks are patient (\<open>fired\<close> has the calls it makes), the removal of every finite tree, the timeout cycle always.  Where it need
  not end a lemma shows the run that does not (\<open>processTimeEvents_busy\<close>, \<open>limit_loop_hangs\<close>).

  \<^bold>\<open>Bounds.\<close>  The sizes of buffers and tables are those of the code.  Hypotheses such as \<open>length s + 1 \<le> int_max\<close> keep sizes
  within \<open>int\<close>; what happens beyond them is an error value of the model or the subject of a lemma of its own
  (\<open>tf_list_dump_overflow\<close>, \<open>long_name_overrun\<close>, \<open>build_request_overrun\<close>).

  \<^bold>\<open>Composition.\<close>  The configuration is read through the models of files, strings and lists; the relay starts through those of
  the configuration, sockets, queues and the event loop, and its handlers call these models, not summaries of them.  The
  properties of the relay are over epoll, which it is built with on Linux; the lemmas below them over any layer.

  \<^bold>\<open>Concurrency.\<close>  The counter of the allocator is shared by all threads: \<open>TF_Malloc_Conc\<close> takes every load, store, lock and
  unlock as a step and any sequence of thread numbers as a schedule.  In the relay the signals and the handlers of the loop are
  interleaved as whole steps, since they share only flags and the pair of sockets; the receiving thread, which reads the process block
  while \<open>main\<close> frees it, is taken access by access in \<open>TF_Nac_Exit\<close>.

  \<^bold>\<open>Not modelled.\<close>  \<open>dump\<close> of \<open>tf_log.c\<close> prints a buffer into itself, which C leaves undefined: what such a call leaves is a
  parameter of \<open>TF_Dump\<close>, whose lemma on the layout holds where it appends (\<open>prints_in_place\<close>, which C does not promise), and by
  \<open>dump_undefined\<close> nothing but an empty buffer is dumped where it fails.  Lists, strings and event loops are modelled with and without addresses; the models of the other components
  have none, and their frees (\<open>tf_rate_free\<close>, those of \<open>tf_conf_file.c\<close>) no effect.  \<open>cp2key\<close> and \<open>use2key\<close> of
  \<open>d3des.c\<close> are not compiled with the options of its header, the variants of the allocator for other libraries not without theirs.
  The macros of \<open>tf_smqueue.h\<close> are used nowhere.  \<open>console.c\<close> holds two empty functions.  The messages to the log have no part in the
  state that the properties are about.
\<close>

end
